(* ===== verification/Go_Prelude.thy ===== *)
theory Go_Prelude
  imports Main "HOL-Library.Word"
begin

text \<open>
  Shared vocabulary of the development: machine integers of the Go program as words, Go's
  outcome of a call (a value, an error, a panic), the wrap-around of Go's 64-bit \<open>int\<close>, and
  the byte-order routines of \<open>encoding/binary\<close> that the buffers, the packet codec and the
  transport protocol all call.  The generic lemmas on these (the conversion of an unsigned
  integer to bytes and back, lengths, chunked decoding) are the ones every codec proof uses.
\<close>

named_theorems go_simps \<open>equations that evaluate the Go-level primitives\<close>
named_theorems put_len \<open>lengths of encoded fields\<close>

section \<open>Machine integers\<close>

type_synonym byte = "8 word"
type_synonym uint8 = "8 word"
type_synonym uint16 = "16 word"
type_synonym uint32 = "32 word"
type_synonym uint64 = "64 word"
type_synonym int8 = "8 word"
type_synonym int16 = "16 word"
type_synonym int32 = "32 word"
type_synonym int64 = "64 word"

text \<open>A Go string is an immutable byte sequence; on the wire it is exactly these bytes.\<close>

type_synonym gostring = "byte list"

text \<open>
  Go's \<open>int\<close> on a 64-bit platform: the mathematical value is reduced to the range
  \<open>-2^63 .. 2^63 - 1\<close> after every addition or multiplication.
\<close>

definition go_int :: "int \<Rightarrow> int" where
  "go_int x = (x + 2 ^ 63) mod 2 ^ 64 - 2 ^ 63"

lemma go_int_id [simp]:
  assumes "- (2 ^ 63) \<le> x" and "x < 2 ^ 63"
  shows "go_int x = x"
  using assms by (simp add: go_int_def)

lemma go_int_range: "- (2 ^ 63) \<le> go_int x \<and> go_int x < 2 ^ 63"
proof -
  have "0 \<le> (x + 2 ^ 63) mod 2 ^ 64" and "(x + 2 ^ 63) mod 2 ^ 64 < (2::int) ^ 64"
    by simp_all
  then show ?thesis
    by (simp add: go_int_def)
qed

section \<open>Outcomes\<close>

text \<open>
  The error values the modelled code returns (\<open>errors/error.go\<close> and the local error variables
  of the packages).  \<open>ErrOther\<close> stands for an error created with a text at the place where it is
  returned.
\<close>

datatype goerror =
    ErrInvalidMessage | ErrUnexpectedEOF | ErrEOF
  | ErrRouteOverflow | ErrSeqOverflow | ErrMessageTooLarge
  | ErrNotFoundSession | ErrStaleSession | ErrInvalidSessionKind | ErrInvalidArgument
  | ErrNotFoundRoute | ErrNotFoundEvent | ErrNotFoundEndpoint | ErrNotFoundUserLocation
  | ErrNotFoundLocator | ErrUnknownError | ErrClientClosed
  | ErrConnectionHanged | ErrConnectionClosed
  | ErrIllegalRequest | ErrInvalidGID | ErrInvalidNID | ErrReceiveTargetEmpty
  | ErrIllegalOperation | ErrActorExists | ErrMissingDispatchStrategy | ErrUnregisterRoute | ErrNotBindActor | ErrNotFoundActor
  | ErrOwnershipGenerationExhausted | ErrGenerationRangeRequired | ErrInvalidGenerationRange
  | ErrOther string

text \<open>
  A call either returns (\<open>Ok\<close>), returns a non-nil error (\<open>Err\<close>; the other results are then
  not used by any caller) or panics at run time (\<open>Panic\<close>).
\<close>

datatype 'a res = Ok 'a | Err goerror | Panic

primrec and_then :: "'a res \<Rightarrow> ('a \<Rightarrow> 'b res) \<Rightarrow> 'b res" where
  "and_then (Ok x) f = f x"
| "and_then (Err e) f = Err e"
| "and_then Panic f = Panic"

lemma and_then_Ok_iff:
  "and_then m f = Ok y \<longleftrightarrow> (\<exists>x. m = Ok x \<and> f x = Ok y)"
  by (cases m) auto

lemma and_then_assoc: "and_then (and_then m f) g = and_then m (\<lambda>x. and_then (f x) g)"
  by (cases m) auto

lemma and_then_Ok_right [simp]: "and_then m Ok = m"
  by (cases m) auto

primrec is_ok :: "'a res \<Rightarrow> bool" where
  "is_ok (Ok x) = True"
| "is_ok (Err e) = False"
| "is_ok Panic = False"

lemma is_ok_iff: "is_ok m \<longleftrightarrow> (\<exists>x. m = Ok x)"
  by (cases m) auto

section \<open>Byte orders\<close>

text \<open>The two byte orders of \<open>encoding/binary\<close>.\<close>

datatype byte_order = BigEndian | LittleEndian

text \<open>
  \<open>put_be n v\<close> are the \<open>n\<close> low-order bytes of \<open>v\<close>, most significant first;
  \<open>get_be\<close> reads such bytes back.
\<close>

primrec put_be :: "nat \<Rightarrow> nat \<Rightarrow> byte list" where
  "put_be 0 v = []"
| "put_be (Suc n) v = put_be n (v div 256) @ [word_of_nat v]"

definition get_be :: "byte list \<Rightarrow> nat" where
  "get_be bs = foldl (\<lambda>a b. a * 256 + unat b) 0 bs"

lemma length_put_be [simp]: "length (put_be n v) = n"
  by (induction n arbitrary: v) auto

lemma get_be_Nil [simp]: "get_be [] = 0"
  by (simp add: get_be_def)

lemma get_be_snoc: "get_be (bs @ [b]) = get_be bs * 256 + unat b"
  by (simp add: get_be_def)

lemma get_be_append: "get_be (xs @ ys) = get_be xs * 256 ^ length ys + get_be ys"
proof (induction ys rule: rev_induct)
  case (snoc y ys)
  have "get_be (xs @ ys @ [y]) = get_be (xs @ ys) * 256 + unat y"
    using get_be_snoc [of "xs @ ys" y] by simp
  then show ?case
    using snoc.IH by (simp add: get_be_snoc algebra_simps)
qed simp

lemma put_be_split: "put_be (n + m) v = put_be n (v div 256 ^ m) @ put_be m v"
  by (induction m arbitrary: v) (simp_all add: div_mult2_eq)

lemma unat_byte_lt: "unat (b :: byte) < 256"
proof -
  have "unat b < 2 ^ LENGTH(8)"
    by (rule unsigned_less)
  then show ?thesis by simp
qed

lemma get_be_bound: "get_be bs < 256 ^ length bs"
proof (induction bs rule: rev_induct)
  case Nil
  then show ?case by simp
next
  case (snoc b bs)
  have "unat b < 256"
    by (rule unat_byte_lt)
  moreover have "get_be bs + 1 \<le> 256 ^ length bs"
    using snoc.IH by simp
  then have "(get_be bs + 1) * 256 \<le> 256 ^ length bs * 256"
    by (rule mult_right_mono) simp
  ultimately show ?case
    by (simp add: get_be_snoc)
qed

lemma unat_word_of_nat_byte: "unat (word_of_nat v :: byte) = v mod 256"
  by (simp add: unat_of_nat)

lemma get_put_be: "get_be (put_be n v) = v mod 256 ^ n"
proof (induction n arbitrary: v)
  case 0
  then show ?case by simp
next
  case (Suc n)
  have "get_be (put_be (Suc n) v) = v div 256 mod 256 ^ n * 256 + v mod 256"
    by (simp add: get_be_snoc Suc.IH unat_word_of_nat_byte)
  also have "\<dots> = v mod (256 * 256 ^ n)"
    by (simp add: mod_mult2_eq mult.commute)
  finally show ?case by simp
qed

lemma put_get_be: "put_be (length bs) (get_be bs) = bs"
proof (induction bs rule: rev_induct)
  case Nil
  then show ?case by simp
next
  case (snoc b bs)
  have "(get_be bs * 256 + unat b) div 256 = get_be bs"
    using unat_byte_lt [of b] by simp
  moreover have "word_of_nat (get_be bs * 256 + unat b) = b"
  proof -
    have "unat (word_of_nat (get_be bs * 256 + unat b) :: byte) = unat b"
      using unat_byte_lt [of b] by (simp only: unat_word_of_nat_byte) simp
    then show ?thesis by (simp only: word_unat_eq_iff)
  qed
  ultimately show ?case
    by (simp add: get_be_snoc snoc.IH)
qed

text \<open>
  \<open>order.PutUint16/32/64\<close> and \<open>order.Uint16/32/64\<close>: the width in bytes is the argument \<open>n\<close>.
\<close>

definition put_uint :: "byte_order \<Rightarrow> nat \<Rightarrow> 'a::len word \<Rightarrow> byte list" where
  "put_uint ord n w =
     (case ord of BigEndian \<Rightarrow> put_be n (unat w) | LittleEndian \<Rightarrow> rev (put_be n (unat w)))"

definition get_uint :: "byte_order \<Rightarrow> byte list \<Rightarrow> 'a::len word" where
  "get_uint ord bs =
     word_of_nat (case ord of BigEndian \<Rightarrow> get_be bs | LittleEndian \<Rightarrow> get_be (rev bs))"

lemma length_put_uint [simp, put_len]: "length (put_uint ord n w) = n"
  by (cases ord) (simp_all add: put_uint_def)

lemma put_uint_Nil_iff [simp]: "put_uint ord n w = [] \<longleftrightarrow> n = 0"
  using length_put_uint [of ord n w] by (cases n) (auto simp del: length_put_uint)

lemma get_put_uint:
  fixes w :: "'a::len word"
  assumes "LENGTH('a) = 8 * n"
  shows "get_uint ord (put_uint ord n w) = w"
proof -
  have pow: "(256::nat) ^ n = 2 ^ LENGTH('a)"
    using assms by (simp add: power_mult)
  have "unat w mod 256 ^ n = unat w"
    unfolding pow by simp
  then show ?thesis
    by (cases ord) (simp_all add: put_uint_def get_uint_def get_put_be)
qed

lemma put_get_uint:
  assumes "LENGTH('a::len) = 8 * n" and "length bs = n"
  shows "put_uint ord n (get_uint ord bs :: 'a word) = bs"
proof -
  have small: "get_be xs < 2 ^ LENGTH('a)" if "length xs = n" for xs
    using get_be_bound [of xs] that assms(1) by (simp add: power_mult)
  have un: "unat (word_of_nat (get_be xs) :: 'a word) = get_be xs" if "length xs = n" for xs
    using small [OF that] by (simp add: unat_of_nat)
  have inv: "put_be n (get_be xs) = xs" if "length xs = n" for xs
    using put_get_be [of xs] that by simp
  show ?thesis
    using assms(2) by (cases ord) (simp_all add: put_uint_def get_uint_def un inv)
qed

lemma put_uint_byte [simp]: "put_uint ord (Suc 0) (w :: byte) = [w]"
  by (cases ord) (simp_all add: put_uint_def)

lemma put_uint_inj:
  fixes v w :: "'a::len word"
  assumes "LENGTH('a) = 8 * n"
  shows "put_uint ord n v = put_uint ord n w \<longleftrightarrow> v = w"
  using get_put_uint [OF assms] by metis

text \<open>
  The widths of the modelled fields, so that the round trips apply by rewriting.
\<close>

lemma get_uint_byte [simp, go_simps]: "get_uint ord [w] = (w :: 8 word)"
  using get_put_uint [of "Suc 0" ord w] by simp

lemma get_put_uint16 [simp, go_simps]: "get_uint ord (put_uint ord 2 w) = (w :: 16 word)"
  by (rule get_put_uint) simp

lemma get_put_uint32 [simp, go_simps]: "get_uint ord (put_uint ord 4 w) = (w :: 32 word)"
  by (rule get_put_uint) simp

lemma get_put_uint64 [simp, go_simps]: "get_uint ord (put_uint ord 8 w) = (w :: 64 word)"
  by (rule get_put_uint) simp

section \<open>Narrowing and sign extension\<close>

lemma sint_narrow8: "sint (ucast (v :: 32 word) :: 8 word) = signed_take_bit 7 (sint v)"
  by (simp add: sint_uint unsigned_ucast_eq signed_take_bit_take_bit min_def)

lemma sint_narrow16: "sint (ucast (v :: 32 word) :: 16 word) = signed_take_bit 15 (sint v)"
  by (simp add: sint_uint unsigned_ucast_eq signed_take_bit_take_bit min_def)

lemma scast_ucast8:
  assumes "- 128 \<le> sint v" and "sint v < 128"
  shows "scast (ucast (v :: 32 word) :: 8 word) = v"
proof -
  have "sint (ucast v :: 8 word) = sint v"
    unfolding sint_narrow8 using assms by (simp add: signed_take_bit_int_eq_self)
  then show ?thesis by (simp add: scast_eq)
qed

lemma scast_ucast16:
  assumes "- 32768 \<le> sint v" and "sint v < 32768"
  shows "scast (ucast (v :: 32 word) :: 16 word) = v"
proof -
  have "sint (ucast v :: 16 word) = sint v"
    unfolding sint_narrow16 using assms by (simp add: signed_take_bit_int_eq_self)
  then show ?thesis by (simp add: scast_eq)
qed

section \<open>Loops that decode or encode one element after the other\<close>

text \<open>
  \<open>for i := 0; i < len(buf); i += w { values = append(values, f(buf[i:i+w])) }\<close>
\<close>

function chunk_loop :: "nat \<Rightarrow> (byte list \<Rightarrow> 'v) \<Rightarrow> byte list \<Rightarrow> 'v list" where
  "chunk_loop w f bs =
     (if bs = [] \<or> w = 0 then [] else f (take w bs) # chunk_loop w f (drop w bs))"
  by pat_completeness auto
termination
  by (relation "measure (\<lambda>(w, f, bs). length bs)") auto

declare chunk_loop.simps [simp del]

lemma chunk_loop_Nil [simp]: "chunk_loop w f [] = []"
  by (simp add: chunk_loop.simps)

lemma chunk_loop_append:
  "length b = w \<Longrightarrow> 0 < w \<Longrightarrow> chunk_loop w f (b @ bs) = f b # chunk_loop w f bs"
  by (subst chunk_loop.simps) auto

lemma chunk_loop_concat:
  assumes "0 < w" and "\<And>v. length (enc v) = w" and "\<And>v. f (enc v) = v"
  shows "chunk_loop w f (concat (map enc vs)) = vs"
  by (induction vs) (simp_all add: chunk_loop_append assms)

lemma length_concat_const:
  "(\<And>v. length (enc v) = w) \<Longrightarrow> length (concat (map enc vs)) = w * length vs"
  by (induction vs) auto

lemma length_concat_put [simp]:
  "length (concat (map (put_uint ord n) vs)) = n * length vs"
  by (rule length_concat_const) simp

section \<open>Byte streams\<close>

text \<open>
  A stream is the list of bytes that are still to arrive before it ends; \<open>io.ReadFull\<close> of \<open>n\<close>
  bytes from it.
\<close>

definition ReadFull :: "byte list \<Rightarrow> nat \<Rightarrow> (byte list \<times> byte list) res" where
  "ReadFull s n =
     (if n \<le> length s then Ok (take n s, drop n s)
      else if s = [] then Err ErrEOF else Err ErrUnexpectedEOF)"

lemma ReadFull_append: "length bs = n \<Longrightarrow> ReadFull (bs @ s) n = Ok (bs, s)"
  by (simp add: ReadFull_def)

text \<open>The 32-bit addition \<open>defaultSizeBytes+size\<close> of the frame readers.\<close>

lemma unat_size_plus4:
  assumes "0 \<le> n" and "n + 4 < 2 ^ 32"
  shows "unat (4 + word_of_int n :: 32 word) = nat n + 4"
proof -
  have eq: "4 + word_of_int n = (word_of_int (n + 4) :: 32 word)"
    by (simp add: of_int_add)
  have "uint (4 + word_of_int n :: 32 word) = n + 4"
    unfolding eq using assms by (simp only: uint_word_of_int) simp
  then show ?thesis
    using assms by (simp add: unat_eq_nat_uint)
qed

lemma unat_wrapped:
  assumes "2 ^ 32 - 4 \<le> unat (sz :: 32 word)"
  shows "unat (4 + sz) < 4"
proof -
  have "unat sz < 2 ^ LENGTH(32)"
    by (rule unsigned_less)
  then have lt: "unat sz < 2 ^ 32" by simp
  have "unat (4 + sz) = (4 + unat sz) mod 2 ^ 32"
    by (simp add: unat_word_ariths)
  also have "\<dots> = 4 + unat sz - 2 ^ 32"
    using assms lt by (simp add: mod_if)
  finally show ?thesis
    using lt by simp
qed

end
