(* ===== verification/Go_Reader.thy ===== *)
theory Go_Reader
  imports Go_Prelude
begin

text \<open>
  The byte reader of \<open>core/buffer/reader.go\<close>: a buffer and an offset.  Every read goes through
  \<open>slices\<close>, whose arithmetic is Go's wrapping \<open>int\<close> arithmetic.  The interface of a fixed-width
  field (what its encoding is, what a read returns at such an encoding and on a short input) is
  the locale \<open>field_codec\<close>, interpreted on every scalar read of the reader; the packet codec and
  the transport protocol use its laws.
\<close>

section \<open>State and operations\<close>

record Reader =
  r_buf :: "byte list"
  r_off :: int

definition NewReader :: "byte list \<Rightarrow> Reader" where
  "NewReader data = \<lparr>r_buf = data, r_off = 0\<rparr>"

definition Reset :: "Reader \<Rightarrow> Reader" where
  "Reset r = r\<lparr>r_off := 0\<rparr>"

datatype whence = SeekStart | SeekCurrent | SeekEnd | SeekOther

definition Seek :: "Reader \<Rightarrow> int \<Rightarrow> whence \<Rightarrow> (int \<times> Reader) res" where
  "Seek r offset wh =
     (let abs = (case wh of
           SeekStart \<Rightarrow> Ok offset
         | SeekCurrent \<Rightarrow> Ok (go_int (r_off r + offset))
         | SeekEnd \<Rightarrow> Ok (go_int (int (length (r_buf r)) + offset))
         | SeekOther \<Rightarrow> Err (ErrOther ''buffer.Reader.Seek: invalid whence''))
      in and_then abs (\<lambda>a.
           if a < 0 then Err (ErrOther ''buffer.Reader.Seek: negative position'')
           else Ok (a, r\<lparr>r_off := a\<rparr>)))"

text \<open>
  \<open>slices\<close> fails with \<open>ErrUnexpectedEOF\<close> past the end; a slice expression whose bounds are out
  of order panics.
\<close>

definition slices :: "Reader \<Rightarrow> int \<Rightarrow> int \<Rightarrow> (byte list \<times> Reader) res" where
  "slices r b n =
     (let off = go_int (b * n); hi = go_int (r_off r + off)
      in if hi > int (length (r_buf r)) then Err ErrUnexpectedEOF
         else if r_off r < 0 \<or> hi < r_off r then Panic
         else Ok (take (nat (hi - r_off r)) (drop (nat (r_off r)) (r_buf r)), r\<lparr>r_off := hi\<rparr>))"

definition slice :: "Reader \<Rightarrow> int \<Rightarrow> (byte list \<times> Reader) res" where
  "slice r b = slices r b 1"

text \<open>Reading one value: the bytes of the slice are converted.\<close>

definition read_one :: "Reader \<Rightarrow> nat \<Rightarrow> (byte list \<Rightarrow> 'v) \<Rightarrow> ('v \<times> Reader) res" where
  "read_one r w conv = and_then (slice r (int w)) (\<lambda>(buf, r'). Ok (conv buf, r'))"

text \<open>
  Reading \<open>n\<close> values: most of the plural reads return nil for \<open>n <= 0\<close>; \<open>ReadInt32s\<close> and
  \<open>ReadUint32s\<close> have no such guard and slice at once.
\<close>

definition read_many :: "Reader \<Rightarrow> nat \<Rightarrow> (byte list \<Rightarrow> 'v) \<Rightarrow> int \<Rightarrow> ('v list \<times> Reader) res" where
  "read_many r w conv n =
     and_then (slices r (int w) n) (\<lambda>(buf, r'). Ok (chunk_loop w conv buf, r'))"

definition ReadBool :: "Reader \<Rightarrow> (bool \<times> Reader) res" where
  "ReadBool r = read_one r 1 (\<lambda>buf. hd buf = 1)"

definition ReadBools :: "Reader \<Rightarrow> int \<Rightarrow> (bool list \<times> Reader) res" where
  "ReadBools r n = (if n \<le> 0 then Ok ([], r) else read_many r 1 (\<lambda>buf. hd buf = 1) n)"

definition ReadInt8 :: "Reader \<Rightarrow> (int8 \<times> Reader) res" where
  "ReadInt8 r = read_one r 1 hd"

definition ReadInt8s :: "Reader \<Rightarrow> int \<Rightarrow> (int8 list \<times> Reader) res" where
  "ReadInt8s r n = (if n \<le> 0 then Ok ([], r) else read_many r 1 hd n)"

definition ReadUint8 :: "Reader \<Rightarrow> (uint8 \<times> Reader) res" where
  "ReadUint8 r = read_one r 1 hd"

definition ReadUint8s :: "Reader \<Rightarrow> int \<Rightarrow> (uint8 list \<times> Reader) res" where
  "ReadUint8s r n = (if n \<le> 0 then Ok ([], r) else read_many r 1 hd n)"

definition ReadInt16 :: "Reader \<Rightarrow> byte_order \<Rightarrow> (int16 \<times> Reader) res" where
  "ReadInt16 r order = read_one r 2 (get_uint order)"

definition ReadInt16s :: "Reader \<Rightarrow> byte_order \<Rightarrow> int \<Rightarrow> (int16 list \<times> Reader) res" where
  "ReadInt16s r order n = (if n \<le> 0 then Ok ([], r) else read_many r 2 (get_uint order) n)"

definition ReadUint16 :: "Reader \<Rightarrow> byte_order \<Rightarrow> (uint16 \<times> Reader) res" where
  "ReadUint16 r order = read_one r 2 (get_uint order)"

definition ReadUint16s :: "Reader \<Rightarrow> byte_order \<Rightarrow> int \<Rightarrow> (uint16 list \<times> Reader) res" where
  "ReadUint16s r order n = (if n \<le> 0 then Ok ([], r) else read_many r 2 (get_uint order) n)"

definition ReadInt32 :: "Reader \<Rightarrow> byte_order \<Rightarrow> (int32 \<times> Reader) res" where
  "ReadInt32 r order = read_one r 4 (get_uint order)"

definition ReadInt32s :: "Reader \<Rightarrow> byte_order \<Rightarrow> int \<Rightarrow> (int32 list \<times> Reader) res" where
  "ReadInt32s r order n = read_many r 4 (get_uint order) n"

definition ReadUint32 :: "Reader \<Rightarrow> byte_order \<Rightarrow> (uint32 \<times> Reader) res" where
  "ReadUint32 r order = read_one r 4 (get_uint order)"

definition ReadUint32s :: "Reader \<Rightarrow> byte_order \<Rightarrow> int \<Rightarrow> (uint32 list \<times> Reader) res" where
  "ReadUint32s r order n = read_many r 4 (get_uint order) n"

definition ReadInt64 :: "Reader \<Rightarrow> byte_order \<Rightarrow> (int64 \<times> Reader) res" where
  "ReadInt64 r order = read_one r 8 (get_uint order)"

definition ReadInt64s :: "Reader \<Rightarrow> byte_order \<Rightarrow> int \<Rightarrow> (int64 list \<times> Reader) res" where
  "ReadInt64s r order n = (if n \<le> 0 then Ok ([], r) else read_many r 8 (get_uint order) n)"

definition ReadUint64 :: "Reader \<Rightarrow> byte_order \<Rightarrow> (uint64 \<times> Reader) res" where
  "ReadUint64 r order = read_one r 8 (get_uint order)"

definition ReadUint64s :: "Reader \<Rightarrow> byte_order \<Rightarrow> int \<Rightarrow> (uint64 list \<times> Reader) res" where
  "ReadUint64s r order n = (if n \<le> 0 then Ok ([], r) else read_many r 8 (get_uint order) n)"

text \<open>
  A floating-point value is represented by its IEEE bit pattern, which is what
  \<open>math.Float32frombits\<close> and \<open>math.Float64frombits\<close> reinterpret.
\<close>

type_synonym float32 = "32 word"
type_synonym float64 = "64 word"

definition ReadFloat32 :: "Reader \<Rightarrow> byte_order \<Rightarrow> (float32 \<times> Reader) res" where
  "ReadFloat32 r order = read_one r 4 (get_uint order)"

definition ReadFloat32s :: "Reader \<Rightarrow> byte_order \<Rightarrow> int \<Rightarrow> (float32 list \<times> Reader) res" where
  "ReadFloat32s r order n = (if n \<le> 0 then Ok ([], r) else read_many r 4 (get_uint order) n)"

definition ReadFloat64 :: "Reader \<Rightarrow> byte_order \<Rightarrow> (float64 \<times> Reader) res" where
  "ReadFloat64 r order = read_one r 8 (get_uint order)"

definition ReadFloat64s :: "Reader \<Rightarrow> byte_order \<Rightarrow> int \<Rightarrow> (float64 list \<times> Reader) res" where
  "ReadFloat64s r order n = (if n \<le> 0 then Ok ([], r) else read_many r 8 (get_uint order) n)"

definition ReadRune :: "Reader \<Rightarrow> byte_order \<Rightarrow> (int32 \<times> Reader) res" where
  "ReadRune r order = ReadInt32 r order"

definition ReadRunes :: "Reader \<Rightarrow> byte_order \<Rightarrow> int \<Rightarrow> (int32 list \<times> Reader) res" where
  "ReadRunes r order n = ReadInt32s r order n"

definition ReadByte :: "Reader \<Rightarrow> (byte \<times> Reader) res" where
  "ReadByte r = ReadUint8 r"

definition ReadBytes :: "Reader \<Rightarrow> int \<Rightarrow> (byte list \<times> Reader) res" where
  "ReadBytes r n = (if n \<le> 0 then Ok ([], r) else slices r 1 n)"

definition ReadString :: "Reader \<Rightarrow> int \<Rightarrow> (gostring \<times> Reader) res" where
  "ReadString r len = slice r len"

section \<open>Positions\<close>

text \<open>
  A reader that has consumed \<open>pre\<close> and has \<open>post\<close> left.  All laws of the reads are stated at such
  a position; \<open>fits\<close> says that a length is one a Go slice can have.
\<close>

definition reader_at :: "byte list \<Rightarrow> byte list \<Rightarrow> Reader" where
  "reader_at pre post = \<lparr>r_buf = pre @ post, r_off = int (length pre)\<rparr>"

definition fits :: "nat \<Rightarrow> bool" where
  "fits n \<longleftrightarrow> n < 2 ^ 63"

lemma fits_mono: "fits n \<Longrightarrow> m \<le> n \<Longrightarrow> fits m"
  by (simp add: fits_def)

lemma fits_int: "fits n \<Longrightarrow> int n < 2 ^ 63"
  unfolding fits_def by (metis of_nat_less_iff of_nat_numeral of_nat_power)

lemma NewReader_at: "NewReader data = reader_at [] data"
  by (simp add: NewReader_def reader_at_def)

lemma Reset_at: "Reset (reader_at pre post) = reader_at [] (pre @ post)"
  by (simp add: Reset_def reader_at_def)

lemma slices_at:
  assumes "int (length bs) = b * n" and "fits (length pre + length bs)"
  shows "slices (reader_at pre (bs @ post)) b n = Ok (bs, reader_at (pre @ bs) post)"
proof -
  have bound: "int (length pre) + int (length bs) < 2 ^ 63"
    using fits_int [OF assms(2)] by simp
  then have "go_int (b * n) = int (length bs)"
    by (subst assms(1) [symmetric], subst go_int_id) simp_all
  moreover have "go_int (int (length pre) + int (length bs)) = int (length pre) + int (length bs)"
    using bound by simp
  ultimately show ?thesis
    by (simp add: slices_def reader_at_def Let_def)
qed

lemma slices_short:
  assumes "int (length post) < b * n" and "int (length pre) + b * n < 2 ^ 63"
  shows "slices (reader_at pre post) b n = Err ErrUnexpectedEOF"
proof -
  have "go_int (b * n) = b * n"
    using assms by simp
  moreover have "go_int (int (length pre) + b * n) = int (length pre) + b * n"
    using assms by simp
  ultimately show ?thesis
    using assms(1) by (simp add: slices_def reader_at_def Let_def)
qed

lemma read_one_at:
  assumes "length bs = w" and "fits (length pre + w)"
  shows "read_one (reader_at pre (bs @ post)) w conv = Ok (conv bs, reader_at (pre @ bs) post)"
  using assms by (simp add: read_one_def slice_def slices_at)

lemma read_one_short:
  assumes "length post < w" and "fits (length pre + w)"
  shows "read_one (reader_at pre post) w conv = Err ErrUnexpectedEOF"
  using assms fits_int [OF assms(2)] by (simp add: read_one_def slice_def slices_short)

lemma read_many_at:
  assumes "0 < w" and "\<And>v. length (enc v) = w" and "\<And>v. conv (enc v) = v"
    and "fits (length pre + w * length vs)"
  shows "read_many (reader_at pre (concat (map enc vs) @ post)) w conv (int (length vs)) =
         Ok (vs, reader_at (pre @ concat (map enc vs)) post)"
proof -
  have len: "length (concat (map enc vs)) = w * length vs"
    by (rule length_concat_const) (rule assms(2))
  then have "slices (reader_at pre (concat (map enc vs) @ post)) (int w) (int (length vs)) =
      Ok (concat (map enc vs), reader_at (pre @ concat (map enc vs)) post)"
    using assms(4) by (intro slices_at) simp_all
  then show ?thesis
    by (simp add: read_many_def chunk_loop_concat [OF assms(1-3)])
qed

text \<open>Seeking forward from the start, and back from the end, of a buffer.\<close>

lemma Seek_start:
  assumes "int (length p) = k"
  shows "Seek (reader_at [] (p @ post)) k SeekStart = Ok (k, reader_at p post)"
  using assms by (simp add: Seek_def reader_at_def)

lemma Seek_current:
  assumes "int (length p) = k" and "fits (length pre + length p)"
  shows "Seek (reader_at pre (p @ post)) k SeekCurrent =
         Ok (int (length pre) + k, reader_at (pre @ p) post)"
  using assms fits_int [OF assms(2)] by (simp add: Seek_def reader_at_def)

lemma Seek_end:
  assumes "int (length q) = k" and "fits (length p + length q)"
  shows "Seek (reader_at [] (p @ q)) (- k) SeekEnd = Ok (int (length p), reader_at p q)"
  using assms fits_int [OF assms(2)] by (simp add: Seek_def reader_at_def)

lemma Seek_rejects:
  "Seek r offset SeekOther = Err (ErrOther ''buffer.Reader.Seek: invalid whence'')"
  "offset < 0 \<Longrightarrow>
     Seek r offset SeekStart = Err (ErrOther ''buffer.Reader.Seek: negative position'')"
  by (simp_all add: Seek_def)

section \<open>The interface of a fixed-width field\<close>

locale field_codec =
  fixes enc :: "'v \<Rightarrow> byte list"
    and rd :: "Reader \<Rightarrow> ('v \<times> Reader) res"
    and width :: nat
  assumes enc_width: "length (enc v) = width"
    and width_fits: "fits width"
    and read_enc: "fits (length pre + width) \<Longrightarrow>
      rd (reader_at pre (enc v @ post)) = Ok (v, reader_at (pre @ enc v) post)"
    and read_progress: "fits (length pre + width) \<Longrightarrow> length bs = width \<Longrightarrow>
      \<exists>v. rd (reader_at pre (bs @ post)) = Ok (v, reader_at (pre @ bs) post)"
    and read_short: "fits (length pre + width) \<Longrightarrow> length post < width \<Longrightarrow>
      rd (reader_at pre post) = Err ErrUnexpectedEOF"
begin

lemma read_last:
  "fits (length pre + width) \<Longrightarrow>
     rd (reader_at pre (enc v)) = Ok (v, reader_at (pre @ enc v) [])"
  using read_enc [of pre v "[]"] by simp

lemma enc_inj:
  assumes "enc v = enc v'"
  shows "v = v'"
proof -
  have "Ok (v, reader_at (enc v) []) = Ok (v', reader_at (enc v') [])"
    using read_last [of "[]" v] read_last [of "[]" v'] width_fits
    by (simp add: assms del: res.inject)
  then show ?thesis by simp
qed

text \<open>A read at a position succeeds exactly when enough bytes are left, and consumes them.\<close>

lemma read_ok_iff:
  assumes "fits (length pre + width)"
  shows "is_ok (rd (reader_at pre post)) \<longleftrightarrow> width \<le> length post"
proof
  assume "is_ok (rd (reader_at pre post))"
  then show "width \<le> length post"
    using read_short [OF assms, of post] by (cases "length post < width") (auto simp: is_ok_iff)
next
  assume "width \<le> length post"
  then have "length (take width post) = width" by simp
  from read_progress [OF assms this, of "drop width post"]
  show "is_ok (rd (reader_at pre post))"
    by (auto simp: is_ok_iff)
qed

lemma read_consumes:
  assumes "fits (length pre + width)" and "rd (reader_at pre post) = Ok (v, r)"
  shows "r = reader_at (pre @ take width post) (drop width post)"
proof -
  have "width \<le> length post"
    using read_ok_iff [OF assms(1), of post] assms(2) by simp
  then have "length (take width post) = width" by simp
  from read_progress [OF assms(1) this, of "drop width post"] show ?thesis
    using assms(2) by auto
qed

end

text \<open>Every scalar read is built from \<open>read_one\<close>, so one lemma discharges the laws for all of them.\<close>

lemma field_codec_read_one:
  assumes "\<And>v. length (enc v) = w" and "\<And>v. conv (enc v) = v" and "fits w"
  shows "field_codec enc (\<lambda>r. read_one r w conv) w"
  by unfold_locales (simp_all add: assms read_one_at read_one_short)

lemma fits_width [simp]: "fits (Suc 0)" "fits 2" "fits 4" "fits 8"
  by (simp_all add: fits_def)

definition enc_bool :: "bool \<Rightarrow> byte list" where
  "enc_bool b = [if b then 1 else 0]"

interpretation rd_bool: field_codec enc_bool ReadBool "Suc 0"
  by (simp add: field_codec_read_one enc_bool_def ReadBool_def [abs_def])

interpretation rd_u8: field_codec "\<lambda>v. [v]" ReadUint8 "Suc 0"
  by (simp add: field_codec_read_one ReadUint8_def [abs_def])

interpretation rd_i8: field_codec "\<lambda>v. [v]" ReadInt8 "Suc 0"
  by (simp add: field_codec_read_one ReadInt8_def [abs_def])

interpretation rd_u16: field_codec "put_uint order 2" "\<lambda>r. ReadUint16 r order" 2 for order
  by (simp add: field_codec_read_one ReadUint16_def)

interpretation rd_i16: field_codec "put_uint order 2" "\<lambda>r. ReadInt16 r order" 2 for order
  by (simp add: field_codec_read_one ReadInt16_def)

interpretation rd_u32: field_codec "put_uint order 4" "\<lambda>r. ReadUint32 r order" 4 for order
  by (simp add: field_codec_read_one ReadUint32_def)

interpretation rd_i32: field_codec "put_uint order 4" "\<lambda>r. ReadInt32 r order" 4 for order
  by (simp add: field_codec_read_one ReadInt32_def)

interpretation rd_u64: field_codec "put_uint order 8" "\<lambda>r. ReadUint64 r order" 8 for order
  by (simp add: field_codec_read_one ReadUint64_def)

interpretation rd_i64: field_codec "put_uint order 8" "\<lambda>r. ReadInt64 r order" 8 for order
  by (simp add: field_codec_read_one ReadInt64_def)

lemmas read_scalar_at =
  rd_bool.read_enc rd_u8.read_enc rd_i8.read_enc rd_u16.read_enc rd_i16.read_enc
  rd_u32.read_enc rd_i32.read_enc rd_u64.read_enc rd_i64.read_enc
  rd_bool.read_last rd_u8.read_last rd_i8.read_last rd_u16.read_last rd_i16.read_last
  rd_u32.read_last rd_i32.read_last rd_u64.read_last rd_i64.read_last

text \<open>Sequences of 64-bit values and strings, the variable-length fields of the protocol.\<close>

lemma ReadInt64s_at:
  assumes "fits (length pre + 8 * length vs)"
  shows "ReadInt64s (reader_at pre (concat (map (put_uint order 8) vs) @ post)) order
           (int (length vs)) =
         Ok (vs, reader_at (pre @ concat (map (put_uint order 8) vs)) post)"
  using assms read_many_at [of 8 "put_uint order 8" "get_uint order" pre vs post]
  by (auto simp: ReadInt64s_def)

lemma ReadString_at:
  assumes "int (length s) = n" and "fits (length pre + length s)"
  shows "ReadString (reader_at pre (s @ post)) n = Ok (s, reader_at (pre @ s) post)"
  using assms by (simp add: ReadString_def slice_def slices_at)

section \<open>Properties of the reader\<close>

text \<open>
  The invariant of a reader: the offset is never negative.  It holds initially and every
  operation keeps it; under it a read either returns or reports the end of the input, unless
  the requested size is negative or leaves Go's integer range.
\<close>

definition reader_ok :: "Reader \<Rightarrow> bool" where
  "reader_ok r \<longleftrightarrow> 0 \<le> r_off r \<and> r_off r < 2 ^ 63"

lemma reader_ok_New: "reader_ok (NewReader data)"
  by (simp add: reader_ok_def NewReader_def)

lemma reader_ok_Seek: "offset < 2 ^ 63 \<Longrightarrow> Seek r offset wh = Ok (p, r') \<Longrightarrow> reader_ok r'"
  using go_int_range
  by (cases wh) (auto simp: Seek_def reader_ok_def Let_def and_then_Ok_iff split: if_splits)

lemma reader_ok_slices: "reader_ok r \<Longrightarrow> slices r b n = Ok (bs, r') \<Longrightarrow> reader_ok r'"
  using go_int_range [of "r_off r + go_int (b * n)"]
  by (auto simp: slices_def reader_ok_def Let_def split: if_splits)

lemma slices_sound:
  assumes "reader_ok r" and "slices r b n = Ok (bs, r')"
  shows "r_buf r' = r_buf r \<and> r_off r \<le> r_off r' \<and> r_off r' \<le> int (length (r_buf r)) \<and>
         bs = take (nat (r_off r' - r_off r)) (drop (nat (r_off r)) (r_buf r))"
  using assms by (auto simp: slices_def reader_ok_def Let_def split: if_splits)

lemma slices_no_panic:
  assumes "reader_ok r" and "0 \<le> b * n" and "r_off r + b * n < 2 ^ 63"
  shows "slices r b n =
    (if r_off r + b * n > int (length (r_buf r)) then Err ErrUnexpectedEOF
     else Ok (take (nat (b * n)) (drop (nat (r_off r)) (r_buf r)), r\<lparr>r_off := r_off r + b * n\<rparr>))"
proof -
  have "go_int (b * n) = b * n"
    using assms by (simp add: reader_ok_def)
  moreover have "go_int (r_off r + b * n) = r_off r + b * n"
    using assms by (simp add: reader_ok_def)
  ultimately show ?thesis
    using assms by (simp add: slices_def reader_ok_def Let_def)
qed

section \<open>Properties\<close>

text \<open>
  the one place where the reader touches memory is safe: with a non-negative request that
  stays in Go's integer range it never panics, it reports the end of the input exactly when the
  request runs past the end, and otherwise returns exactly the requested bytes and moves the
  offset behind them, inside the buffer.
\<close>

lemma slices_safe:
  assumes "reader_ok r" and "0 \<le> b * n" and "r_off r + b * n < 2 ^ 63"
  shows "slices r b n \<noteq> Panic \<and>
    (slices r b n = Err ErrUnexpectedEOF \<longleftrightarrow> int (length (r_buf r)) < r_off r + b * n) \<and>
    (slices r b n = Ok (bs, r') \<longrightarrow>
      int (length bs) = b * n \<and> bs = take (nat (b * n)) (drop (nat (r_off r)) (r_buf r)) \<and>
      r_buf r' = r_buf r \<and> r_off r' = r_off r + b * n \<and> r_off r' \<le> int (length (r_buf r')) \<and>
      reader_ok r')"
  using assms slices_no_panic [OF assms] by (auto simp: reader_ok_def split: if_splits)

lemma slices_safe_witness:
  "slices (NewReader [1, 2, 3]) 2 1 \<noteq> Panic \<and>
   (slices (NewReader [1, 2, 3]) 2 2 = Err ErrUnexpectedEOF \<longleftrightarrow> (3 :: int) < 0 + 4)"
  using slices_safe [of "NewReader [1, 2, 3]" 2 1] slices_safe [of "NewReader [1, 2, 3]" 2 2]
  by (simp add: NewReader_def reader_ok_def)

end
