(* ===== verification/Go_Writer.thy ===== *)
theory Go_Writer
  imports Go_Prelude Go_Reader
begin

text \<open>
  The growing byte writer of \<open>core/buffer/writer.go\<close>.  A Go slice is its visible
  part and the spare part of the array behind it up to the capacity, because the code indexes up
  to the length but slices up to the capacity.  The contract of a writer is the locale
  \<open>byte_sink\<close>: a write returns and appends exactly the encoding of its arguments; it is
  interpreted on every write operation.
\<close>

section \<open>The writer\<close>

record Writer =
  w_buf :: "byte list"      \<comment> \<open>\<open>w.buf\<close>, up to its length\<close>
  w_spare :: "byte list"    \<comment> \<open>the array behind \<open>w.buf\<close> between length and capacity\<close>
  w_off :: nat
  w_pool :: "nat option"    \<comment> \<open>the size class of the pool it came from, if any\<close>

abbreviation w_array :: "Writer \<Rightarrow> byte list" where
  "w_array w \<equiv> w_buf w @ w_spare w"

definition NewWriter :: "byte list \<Rightarrow> byte list \<Rightarrow> Writer" where
  "NewWriter buf spare = \<lparr>w_buf = buf, w_spare = spare, w_off = 0, w_pool = None\<rparr>"

definition NewWriterWithCapacity :: "int list \<Rightarrow> Writer res" where
  "NewWriterWithCapacity cap =
     (case cap of
        [] \<Rightarrow> Ok (NewWriter [] [])
      | c # _ \<Rightarrow> if c < 0 then Panic else Ok (NewWriter (replicate (nat c) 0) []))"

definition Writer_Len :: "Writer \<Rightarrow> nat" where
  "Writer_Len w = w_off w"

definition Writer_Cap :: "Writer \<Rightarrow> nat" where
  "Writer_Cap w = length (w_array w)"

definition Writer_Available :: "Writer \<Rightarrow> int" where
  "Writer_Available w = int (Writer_Cap w) - int (w_off w)"

definition Writer_Bytes :: "Writer \<Rightarrow> byte list res" where
  "Writer_Bytes w = (if w_off w \<le> Writer_Cap w then Ok (take (w_off w) (w_array w)) else Panic)"

definition growSlice :: "Writer \<Rightarrow> int \<Rightarrow> Writer res" where
  "growSlice w n =
     (let c0 = int (length (w_buf w)) + n;
          c = (if c0 < 2 * int (Writer_Cap w) then 2 * int (Writer_Cap w) else c0)
      in if c < 0 \<or> Writer_Cap w < w_off w then Panic
         else let old = take (nat c) (take (w_off w) (w_array w))
              in Ok (w\<lparr>w_buf := old @ replicate (nat c - length old) 0, w_spare := []\<rparr>))"

definition grow :: "Writer \<Rightarrow> nat \<Rightarrow> Writer res" where
  "grow w n = (if w_off w + n < Writer_Cap w then Ok w else growSlice w (int n))"

definition Grow :: "Writer \<Rightarrow> int \<Rightarrow> Writer res" where
  "Grow w n = growSlice w n"

text \<open>
  The three ways the code stores bytes: \<open>copy(w.buf[w.off:], p)\<close> stops at the length of the
  slice, \<open>order.PutUintN(w.buf[w.off:w.off+n], v)\<close> may use the capacity, \<open>w.buf[w.off] = v\<close> may
  not.
\<close>

definition copy_tail :: "Writer \<Rightarrow> byte list \<Rightarrow> (nat \<times> Writer) res" where
  "copy_tail w p =
     (if length (w_buf w) < w_off w then Panic
      else let n = min (length (w_buf w) - w_off w) (length p)
           in Ok (n, w\<lparr>w_buf := take (w_off w) (w_buf w) @ take n p @
                              drop (w_off w + n) (w_buf w)\<rparr>))"

definition put_slice :: "Writer \<Rightarrow> byte list \<Rightarrow> Writer res" where
  "put_slice w bs =
     (if w_off w + length bs \<le> Writer_Cap w then
        let a = take (w_off w) (w_array w) @ bs @ drop (w_off w + length bs) (w_array w)
        in Ok (w\<lparr>w_buf := take (length (w_buf w)) a, w_spare := drop (length (w_buf w)) a,
                 w_off := w_off w + length bs\<rparr>)
      else Panic)"

definition put_byte :: "Writer \<Rightarrow> byte \<Rightarrow> Writer res" where
  "put_byte w v =
     (if w_off w < length (w_buf w)
      then Ok (w\<lparr>w_buf := (w_buf w)[w_off w := v], w_off := w_off w + 1\<rparr>) else Panic)"

primrec write_loop :: "(Writer \<Rightarrow> 'v \<Rightarrow> Writer res) \<Rightarrow> Writer \<Rightarrow> 'v list \<Rightarrow> Writer res" where
  "write_loop put w [] = Ok w"
| "write_loop put w (v # vs) = and_then (put w v) (\<lambda>w'. write_loop put w' vs)"

definition Writer_Write :: "Writer \<Rightarrow> byte list \<Rightarrow> (nat \<times> Writer) res" where
  "Writer_Write w p =
     and_then (grow w (length p)) (\<lambda>w1.
     and_then (copy_tail w1 p) (\<lambda>(n, w2). Ok (n, w2\<lparr>w_off := w_off w2 + n\<rparr>)))"

definition WriteBools :: "Writer \<Rightarrow> bool list \<Rightarrow> Writer res" where
  "WriteBools w values =
     and_then (grow w (length values)) (\<lambda>w.
       write_loop (\<lambda>w v. put_byte w (if v then 1 else 0)) w values)"

definition WriteInt8s :: "Writer \<Rightarrow> int8 list \<Rightarrow> Writer res" where
  "WriteInt8s w values = and_then (grow w (length values)) (\<lambda>w. write_loop put_byte w values)"

definition WriteUint8s :: "Writer \<Rightarrow> uint8 list \<Rightarrow> Writer res" where
  "WriteUint8s w values = and_then (grow w (length values)) (\<lambda>w. write_loop put_byte w values)"

definition WriteInt16s :: "Writer \<Rightarrow> byte_order \<Rightarrow> int16 list \<Rightarrow> Writer res" where
  "WriteInt16s w order values =
     and_then (grow w (2 * length values)) (\<lambda>w.
       write_loop (\<lambda>w v. put_slice w (put_uint order 2 v)) w values)"

definition WriteUint16s :: "Writer \<Rightarrow> byte_order \<Rightarrow> uint16 list \<Rightarrow> Writer res" where
  "WriteUint16s w order values =
     and_then (grow w (2 * length values)) (\<lambda>w.
       write_loop (\<lambda>w v. put_slice w (put_uint order 2 v)) w values)"

definition WriteInt32s :: "Writer \<Rightarrow> byte_order \<Rightarrow> int32 list \<Rightarrow> Writer res" where
  "WriteInt32s w order values =
     and_then (grow w (4 * length values)) (\<lambda>w.
       write_loop (\<lambda>w v. put_slice w (put_uint order 4 v)) w values)"

definition WriteUint32s :: "Writer \<Rightarrow> byte_order \<Rightarrow> uint32 list \<Rightarrow> Writer res" where
  "WriteUint32s w order values =
     and_then (grow w (4 * length values)) (\<lambda>w.
       write_loop (\<lambda>w v. put_slice w (put_uint order 4 v)) w values)"

definition WriteInt64s :: "Writer \<Rightarrow> byte_order \<Rightarrow> int64 list \<Rightarrow> Writer res" where
  "WriteInt64s w order values =
     and_then (grow w (8 * length values)) (\<lambda>w.
       write_loop (\<lambda>w v. put_slice w (put_uint order 8 v)) w values)"

definition WriteUint64s :: "Writer \<Rightarrow> byte_order \<Rightarrow> uint64 list \<Rightarrow> Writer res" where
  "WriteUint64s w order values =
     and_then (grow w (8 * length values)) (\<lambda>w.
       write_loop (\<lambda>w v. put_slice w (put_uint order 8 v)) w values)"

definition WriteFloat32s :: "Writer \<Rightarrow> byte_order \<Rightarrow> float32 list \<Rightarrow> Writer res" where
  "WriteFloat32s w order values =
     and_then (grow w (4 * length values)) (\<lambda>w.
       write_loop (\<lambda>w v. put_slice w (put_uint order 4 v)) w values)"

definition WriteFloat64s :: "Writer \<Rightarrow> byte_order \<Rightarrow> float64 list \<Rightarrow> Writer res" where
  "WriteFloat64s w order values =
     and_then (grow w (8 * length values)) (\<lambda>w.
       write_loop (\<lambda>w v. put_slice w (put_uint order 8 v)) w values)"

definition WriteRunes :: "Writer \<Rightarrow> byte_order \<Rightarrow> int32 list \<Rightarrow> Writer res" where
  "WriteRunes w order values = WriteInt32s w order values"

definition WriteBytes :: "Writer \<Rightarrow> byte list \<Rightarrow> Writer res" where
  "WriteBytes w values =
     and_then (grow w (length values)) (\<lambda>w1.
     and_then (copy_tail w1 values) (\<lambda>(n, w2). Ok (w2\<lparr>w_off := w_off w2 + length values\<rparr>)))"

definition WriteString :: "Writer \<Rightarrow> gostring \<Rightarrow> Writer res" where
  "WriteString w str = WriteBytes w str"

section \<open>The writer appends\<close>

text \<open>
  Invariant of a writer whose slice has no spare capacity, which is how the pools, the
  constructor by capacity and every growth create it.
\<close>

definition writer_ok :: "Writer \<Rightarrow> bool" where
  "writer_ok w \<longleftrightarrow> w_spare w = [] \<and> w_off w \<le> length (w_buf w)"

definition contents :: "Writer \<Rightarrow> byte list" where
  "contents w = take (w_off w) (w_buf w)"

lemma length_contents: "writer_ok w \<Longrightarrow> length (contents w) = w_off w"
  by (simp add: writer_ok_def contents_def)

lemma Writer_Bytes_contents: "writer_ok w \<Longrightarrow> Writer_Bytes w = Ok (contents w)"
  by (simp add: Writer_Bytes_def writer_ok_def contents_def Writer_Cap_def)

lemma growSlice_eq:
  assumes "writer_ok w"
  shows "growSlice w (int n) =
    Ok (w\<lparr>w_buf := contents w @
           replicate (max (length (w_buf w) + n) (2 * length (w_buf w)) - w_off w) 0,
         w_spare := []\<rparr>)"
proof -
  let ?c = "max (length (w_buf w) + n) (2 * length (w_buf w))"
  have c: "(if int (length (w_buf w)) + int n < 2 * int (length (w_buf w))
      then 2 * int (length (w_buf w)) else int (length (w_buf w)) + int n) = int ?c"
    by auto
  have le: "w_off w \<le> ?c"
    using assms unfolding writer_ok_def by linarith
  then have "take ?c (contents w) = contents w"
    by (simp add: contents_def)
  then show ?thesis
    using assms le c length_contents [OF assms]
    by (simp add: growSlice_def Writer_Cap_def writer_ok_def contents_def Let_def)
qed

text \<open>\<open>grow\<close> makes room and keeps the contents.\<close>

lemma grow_ok:
  assumes "writer_ok w"
  shows "\<exists>w'. grow w n = Ok w' \<and> writer_ok w' \<and> contents w' = contents w \<and>
    w_off w' = w_off w \<and> w_off w + n \<le> length (w_buf w') \<and> w_pool w' = w_pool w"
proof (cases "w_off w + n < Writer_Cap w")
  case True
  then show ?thesis
    using assms by (simp add: grow_def Writer_Cap_def writer_ok_def)
next
  case False
  let ?k = "max (length (w_buf w) + n) (2 * length (w_buf w)) - w_off w"
  let ?w = "w\<lparr>w_buf := contents w @ replicate ?k 0, w_spare := []\<rparr>"
  have le: "w_off w \<le> length (w_buf w)"
    using assms by (simp add: writer_ok_def)
  have len: "length (w_buf ?w) = w_off w + ?k"
    using length_contents [OF assms] by simp
  have "writer_ok ?w"
    using length_contents [OF assms] by (simp add: writer_ok_def)
  moreover have "contents ?w = contents w"
    using length_contents [OF assms] by (simp add: contents_def [of ?w])
  moreover have "w_off w + n \<le> length (w_buf ?w)"
    using le unfolding len by linarith
  ultimately show ?thesis
    using False growSlice_eq [OF assms, of n] by (simp add: grow_def)
qed

lemma copy_tail_ok:
  assumes "w_off w + length p \<le> length (w_buf w)"
  shows "copy_tail w p = Ok (length p,
    w\<lparr>w_buf := take (w_off w) (w_buf w) @ p @ drop (w_off w + length p) (w_buf w)\<rparr>)"
proof -
  have "min (length (w_buf w) - w_off w) (length p) = length p"
    using assms by simp
  then show ?thesis
    using assms by (simp add: copy_tail_def Let_def)
qed

lemma put_byte_ok:
  assumes "writer_ok w" and "w_off w < length (w_buf w)"
  shows "\<exists>w'. put_byte w v = Ok w' \<and> writer_ok w' \<and> contents w' = contents w @ [v] \<and>
    w_off w' = Suc (w_off w) \<and> length (w_buf w') = length (w_buf w) \<and> w_pool w' = w_pool w"
  using assms
  by (auto simp: put_byte_def writer_ok_def contents_def take_Suc_conv_app_nth)

lemma put_slice_ok:
  assumes "writer_ok w" and "w_off w + length bs \<le> length (w_buf w)"
  shows "\<exists>w'. put_slice w bs = Ok w' \<and> writer_ok w' \<and> contents w' = contents w @ bs \<and>
    w_off w' = w_off w + length bs \<and> length (w_buf w') = length (w_buf w) \<and>
    w_pool w' = w_pool w"
  using assms
  by (auto simp: put_slice_def writer_ok_def contents_def Writer_Cap_def Let_def)

text \<open>The loops over the arguments: one put each, within the room that \<open>grow\<close> has made.\<close>

lemma write_loop_ok:
  assumes put: "\<And>w v. writer_ok w \<Longrightarrow> w_off w + k \<le> length (w_buf w) \<Longrightarrow>
      \<exists>w'. put w v = Ok w' \<and> writer_ok w' \<and> contents w' = contents w @ enc v \<and>
        w_off w' = w_off w + k \<and> length (w_buf w') = length (w_buf w) \<and> w_pool w' = w_pool w"
    and "writer_ok w" and "w_off w + k * length vs \<le> length (w_buf w)"
  shows "\<exists>w'. write_loop put w vs = Ok w' \<and> writer_ok w' \<and>
    contents w' = contents w @ concat (map enc vs) \<and> w_pool w' = w_pool w"
  using assms(2,3)
proof (induction vs arbitrary: w)
  case Nil
  then show ?case by simp
next
  case (Cons v vs)
  from Cons.prems obtain w1 where w1: "put w v = Ok w1" "writer_ok w1"
      "contents w1 = contents w @ enc v" "w_off w1 = w_off w + k"
      "length (w_buf w1) = length (w_buf w)" "w_pool w1 = w_pool w"
    using put [of w v] by auto
  moreover have "w_off w1 + k * length vs \<le> length (w_buf w1)"
    using w1 Cons.prems(2) by simp
  ultimately show ?case
    using Cons.IH [of w1] by auto
qed

text \<open>
  The result of a write: it returns a writer that satisfies the invariant, with the given
  bytes appended.
\<close>

definition appends :: "Writer \<Rightarrow> byte list \<Rightarrow> Writer res \<Rightarrow> bool" where
  "appends w bs m \<longleftrightarrow>
     (\<exists>w'. m = Ok w' \<and> writer_ok w' \<and> contents w' = contents w @ bs \<and> w_pool w' = w_pool w)"

lemma write_fixed_appends:
  assumes "writer_ok w"
    and put: "\<And>w v. writer_ok w \<Longrightarrow> w_off w + k \<le> length (w_buf w) \<Longrightarrow>
      \<exists>w'. put w v = Ok w' \<and> writer_ok w' \<and> contents w' = contents w @ enc v \<and>
        w_off w' = w_off w + k \<and> length (w_buf w') = length (w_buf w) \<and> w_pool w' = w_pool w"
  shows "appends w (concat (map enc vs))
    (and_then (grow w (k * length vs)) (\<lambda>w. write_loop put w vs))"
proof -
  obtain w1 where g: "grow w (k * length vs) = Ok w1" "writer_ok w1" "contents w1 = contents w"
      "w_off w1 = w_off w" "w_off w + k * length vs \<le> length (w_buf w1)" "w_pool w1 = w_pool w"
    using grow_ok [OF assms(1)] by blast
  then show ?thesis
    using write_loop_ok [OF put, of w1 vs] by (auto simp: appends_def)
qed

lemma write_words_appends:
  assumes "writer_ok w"
  shows "appends w (concat (map (put_uint order k) vs))
    (and_then (grow w (k * length vs)) (\<lambda>w. write_loop (\<lambda>w v. put_slice w (put_uint order k v)) w vs))"
  using assms by (rule write_fixed_appends) (use put_slice_ok in force)

lemma write_bytewise_appends:
  assumes "writer_ok w"
  shows "appends w (map enc vs)
    (and_then (grow w (length vs)) (\<lambda>w. write_loop (\<lambda>w v. put_byte w (enc v)) w vs))"
  using write_fixed_appends [OF assms, of 1 "\<lambda>w v. put_byte w (enc v)" "\<lambda>v. [enc v]" vs]
  by (simp add: put_byte_ok concat_map_singleton)

lemma WriteBytes_appends:
  assumes "writer_ok w"
  shows "appends w bs (WriteBytes w bs)"
proof -
  obtain w1 where g: "grow w (length bs) = Ok w1" "writer_ok w1" "contents w1 = contents w"
      "w_off w1 = w_off w" "w_off w + length bs \<le> length (w_buf w1)" "w_pool w1 = w_pool w"
    using grow_ok [OF assms] by blast
  then show ?thesis
    using copy_tail_ok [of w1 bs] assms
    by (auto simp: appends_def WriteBytes_def writer_ok_def contents_def)
qed

text \<open>What a chain of writes has produced so far.\<close>

definition yields :: "byte list \<Rightarrow> Writer res \<Rightarrow> bool" where
  "yields bs m \<longleftrightarrow> (\<exists>w. m = Ok w \<and> writer_ok w \<and> contents w = bs)"

lemma yields_Ok: "yields bs m \<Longrightarrow> \<exists>w. m = Ok w \<and> writer_ok w \<and> contents w = bs"
  by (simp add: yields_def)

text \<open>
  A block of write statements on one writer, run in order; \<open>emits fs es\<close> says that the block
  appends \<open>es\<close> whatever was written before.
\<close>

definition run_writes :: "Writer res \<Rightarrow> (Writer \<Rightarrow> Writer res) list \<Rightarrow> Writer res" where
  "run_writes m fs = foldl and_then m fs"

definition emit :: "(Writer \<Rightarrow> Writer res) \<Rightarrow> byte list \<Rightarrow> bool" where
  "emit f e \<longleftrightarrow> (\<forall>w. writer_ok w \<longrightarrow> appends w e (f w))"

definition emits :: "(Writer \<Rightarrow> Writer res) list \<Rightarrow> byte list \<Rightarrow> bool" where
  "emits fs es \<longleftrightarrow> (\<forall>bs m. yields bs m \<longrightarrow> yields (bs @ es) (run_writes m fs))"

lemma emit_Ok: "emit Ok []"
  by (simp add: emit_def appends_def)

lemma emit_if:
  "emit f e \<Longrightarrow> emit g e' \<Longrightarrow> emit (\<lambda>w. if c then f w else g w) (if c then e else e')"
  by (simp add: emit_def)

lemma yields_emit:
  assumes "yields bs m" and "emit f e"
  shows "yields (bs @ e) (and_then m f)"
proof -
  obtain w where "m = Ok w" "writer_ok w" "contents w = bs"
    using assms(1) by (auto simp: yields_def)
  then show ?thesis
    using assms(2) unfolding emit_def appends_def yields_def by force
qed

lemma emits_Nil: "emits [] []"
  by (simp add: emits_def run_writes_def)

lemma emits_Cons:
  assumes "emit f e" and "emits fs es"
  shows "emits (f # fs) (e @ es)"
  unfolding emits_def
proof (intro allI impI)
  fix bs m
  assume "yields bs m"
  then have "yields (bs @ e) (and_then m f)"
    using assms(1) by (rule yields_emit)
  then have "yields ((bs @ e) @ es) (run_writes (and_then m f) fs)"
    using assms(2) by (simp only: emits_def)
  then show "yields (bs @ e @ es) (run_writes m (f # fs))"
    by (simp add: run_writes_def)
qed

lemma emits_append:
  assumes "emits fs es" and "emits gs es'"
  shows "emits (fs @ gs) (es @ es')"
  unfolding emits_def
proof (intro allI impI)
  fix bs m
  assume "yields bs m"
  then have "yields (bs @ es) (run_writes m fs)"
    using assms(1) unfolding emits_def by blast
  then have "yields ((bs @ es) @ es') (run_writes (run_writes m fs) gs)"
    using assms(2) unfolding emits_def by blast
  then show "yields (bs @ es @ es') (run_writes m (fs @ gs))"
    by (simp add: run_writes_def)
qed

lemma emits_if:
  "emits fs es \<Longrightarrow> emits gs es' \<Longrightarrow> emits (if c then fs else gs) (if c then es else es')"
  by simp

lemma yields_run:
  assumes "yields [] m" and "emits fs es" and "cs = es"
  shows "yields cs (run_writes m fs)"
proof -
  have "yields ([] @ es) (run_writes m fs)"
    using assms(1,2) unfolding emits_def by blast
  then show ?thesis using assms(3) by simp
qed

section \<open>The interface of a writer\<close>

locale byte_sink =
  fixes put :: "Writer \<Rightarrow> 'v \<Rightarrow> Writer res"
    and enc :: "'v \<Rightarrow> byte list"
  assumes write_appends: "writer_ok w \<Longrightarrow> appends w (enc v) (put w v)"
begin

lemma write_returns: "writer_ok w \<Longrightarrow> \<exists>w'. put w v = Ok w' \<and> writer_ok w'"
  using write_appends [of w v] by (auto simp: appends_def)

lemma emit_put: "emit (\<lambda>w. put w v) (enc v)"
  by (simp add: emit_def write_appends)

lemma write_Len:
  assumes "writer_ok w" and "put w v = Ok w'"
  shows "Writer_Len w' = Writer_Len w + length (enc v)"
proof -
  have ok: "writer_ok w'" and c: "contents w' = contents w @ enc v"
    using write_appends [OF assms(1), of v] assms(2) by (auto simp: appends_def)
  show ?thesis
    using length_contents [OF ok] length_contents [OF assms(1)] c
    by (simp add: Writer_Len_def)
qed

end

interpretation wr_bools: byte_sink WriteBools "map (\<lambda>v. if v then 1 else 0)"
  by unfold_locales (simp add: WriteBools_def write_bytewise_appends)

interpretation wr_i8s: byte_sink WriteInt8s "\<lambda>vs. vs"
  by unfold_locales (use write_bytewise_appends [of _ "\<lambda>v. v"] in \<open>simp add: WriteInt8s_def\<close>)

interpretation wr_u8s: byte_sink WriteUint8s "\<lambda>vs. vs"
  by unfold_locales (use write_bytewise_appends [of _ "\<lambda>v. v"] in \<open>simp add: WriteUint8s_def\<close>)

interpretation wr_i16s: byte_sink "\<lambda>w. WriteInt16s w order" "\<lambda>vs. concat (map (put_uint order 2) vs)" for order
  by unfold_locales (simp add: WriteInt16s_def write_words_appends)

interpretation wr_u16s: byte_sink "\<lambda>w. WriteUint16s w order" "\<lambda>vs. concat (map (put_uint order 2) vs)" for order
  by unfold_locales (simp add: WriteUint16s_def write_words_appends)

interpretation wr_i32s: byte_sink "\<lambda>w. WriteInt32s w order" "\<lambda>vs. concat (map (put_uint order 4) vs)" for order
  by unfold_locales (simp add: WriteInt32s_def write_words_appends)

interpretation wr_u32s: byte_sink "\<lambda>w. WriteUint32s w order" "\<lambda>vs. concat (map (put_uint order 4) vs)" for order
  by unfold_locales (simp add: WriteUint32s_def write_words_appends)

interpretation wr_i64s: byte_sink "\<lambda>w. WriteInt64s w order" "\<lambda>vs. concat (map (put_uint order 8) vs)" for order
  by unfold_locales (simp add: WriteInt64s_def write_words_appends)

interpretation wr_u64s: byte_sink "\<lambda>w. WriteUint64s w order" "\<lambda>vs. concat (map (put_uint order 8) vs)" for order
  by unfold_locales (simp add: WriteUint64s_def write_words_appends)

interpretation wr_f32s: byte_sink "\<lambda>w. WriteFloat32s w order" "\<lambda>vs. concat (map (put_uint order 4) vs)" for order
  by unfold_locales (simp add: WriteFloat32s_def write_words_appends)

interpretation wr_f64s: byte_sink "\<lambda>w. WriteFloat64s w order" "\<lambda>vs. concat (map (put_uint order 8) vs)" for order
  by unfold_locales (simp add: WriteFloat64s_def write_words_appends)

interpretation wr_bytes: byte_sink WriteBytes "\<lambda>bs. bs"
  by unfold_locales (rule WriteBytes_appends)

interpretation wr_string: byte_sink WriteString "\<lambda>bs. bs"
  by unfold_locales (simp add: WriteString_def WriteBytes_appends)

lemmas emit_writes =
  wr_bools.emit_put wr_i8s.emit_put wr_u8s.emit_put wr_i16s.emit_put wr_u16s.emit_put
  wr_i32s.emit_put wr_u32s.emit_put wr_i64s.emit_put wr_u64s.emit_put
  wr_f32s.emit_put wr_f64s.emit_put wr_bytes.emit_put wr_string.emit_put

lemmas emits_intros = emits_Nil emits_Cons emits_append emits_if emit_if emit_writes

section \<open>A record of typed fields\<close>

text \<open>
  The way the codecs use the two classes: a message is a list of typed fields, each written by
  the statement for its type and read back by the matching read.  The lengths of the variable
  fields are known to the reader, as they are to the decoders.
\<close>

datatype field =
    FBool bool | FUint8 uint8 | FInt8 int8 | FUint16 uint16 | FInt16 int16 | FUint32 uint32
  | FInt32 int32 | FUint64 uint64 | FInt64 int64 | FInt64s "int64 list" | FString gostring

fun write_typed :: "byte_order \<Rightarrow> field \<Rightarrow> Writer \<Rightarrow> Writer res" where
  "write_typed ord (FBool v) w = WriteBools w [v]"
| "write_typed ord (FUint8 v) w = WriteUint8s w [v]"
| "write_typed ord (FInt8 v) w = WriteInt8s w [v]"
| "write_typed ord (FUint16 v) w = WriteUint16s w ord [v]"
| "write_typed ord (FInt16 v) w = WriteInt16s w ord [v]"
| "write_typed ord (FUint32 v) w = WriteUint32s w ord [v]"
| "write_typed ord (FInt32 v) w = WriteInt32s w ord [v]"
| "write_typed ord (FUint64 v) w = WriteUint64s w ord [v]"
| "write_typed ord (FInt64 v) w = WriteInt64s w ord [v]"
| "write_typed ord (FInt64s vs) w = WriteInt64s w ord vs"
| "write_typed ord (FString v) w = WriteString w v"

fun read_typed :: "byte_order \<Rightarrow> field \<Rightarrow> Reader \<Rightarrow> (field \<times> Reader) res" where
  "read_typed ord (FBool _) r = and_then (ReadBool r) (\<lambda>(v, r). Ok (FBool v, r))"
| "read_typed ord (FUint8 _) r = and_then (ReadUint8 r) (\<lambda>(v, r). Ok (FUint8 v, r))"
| "read_typed ord (FInt8 _) r = and_then (ReadInt8 r) (\<lambda>(v, r). Ok (FInt8 v, r))"
| "read_typed ord (FUint16 _) r = and_then (ReadUint16 r ord) (\<lambda>(v, r). Ok (FUint16 v, r))"
| "read_typed ord (FInt16 _) r = and_then (ReadInt16 r ord) (\<lambda>(v, r). Ok (FInt16 v, r))"
| "read_typed ord (FUint32 _) r = and_then (ReadUint32 r ord) (\<lambda>(v, r). Ok (FUint32 v, r))"
| "read_typed ord (FInt32 _) r = and_then (ReadInt32 r ord) (\<lambda>(v, r). Ok (FInt32 v, r))"
| "read_typed ord (FUint64 _) r = and_then (ReadUint64 r ord) (\<lambda>(v, r). Ok (FUint64 v, r))"
| "read_typed ord (FInt64 _) r = and_then (ReadInt64 r ord) (\<lambda>(v, r). Ok (FInt64 v, r))"
| "read_typed ord (FInt64s vs) r =
     and_then (ReadInt64s r ord (int (length vs))) (\<lambda>(v, r). Ok (FInt64s v, r))"
| "read_typed ord (FString s) r =
     and_then (ReadString r (int (length s))) (\<lambda>(v, r). Ok (FString v, r))"

primrec read_all_typed :: "byte_order \<Rightarrow> field list \<Rightarrow> Reader \<Rightarrow> (field list \<times> Reader) res" where
  "read_all_typed ord [] r = Ok ([], r)"
| "read_all_typed ord (f # fs) r =
     and_then (read_typed ord f r) (\<lambda>(v, r). and_then (read_all_typed ord fs r) (\<lambda>(vs, r). Ok (v # vs, r)))"

fun typed_bytes :: "byte_order \<Rightarrow> field \<Rightarrow> byte list" where
  "typed_bytes ord (FBool v) = [if v then 1 else 0]"
| "typed_bytes ord (FUint8 v) = [v]"
| "typed_bytes ord (FInt8 v) = [v]"
| "typed_bytes ord (FUint16 v) = put_uint ord 2 v"
| "typed_bytes ord (FInt16 v) = put_uint ord 2 v"
| "typed_bytes ord (FUint32 v) = put_uint ord 4 v"
| "typed_bytes ord (FInt32 v) = put_uint ord 4 v"
| "typed_bytes ord (FUint64 v) = put_uint ord 8 v"
| "typed_bytes ord (FInt64 v) = put_uint ord 8 v"
| "typed_bytes ord (FInt64s vs) = concat (map (put_uint ord 8) vs)"
| "typed_bytes ord (FString v) = v"

definition all_typed_bytes :: "byte_order \<Rightarrow> field list \<Rightarrow> byte list" where
  "all_typed_bytes ord fs = concat (map (typed_bytes ord) fs)"

lemmas typed_appends =
  wr_bools.write_appends [where v = "[v]" for v, simplified]
  wr_u8s.write_appends [where v = "[v]" for v, simplified]
  wr_i8s.write_appends [where v = "[v]" for v, simplified]
  wr_u16s.write_appends [where v = "[v]" for v, simplified]
  wr_i16s.write_appends [where v = "[v]" for v, simplified]
  wr_u32s.write_appends [where v = "[v]" for v, simplified]
  wr_i32s.write_appends [where v = "[v]" for v, simplified]
  wr_u64s.write_appends [where v = "[v]" for v, simplified]
  wr_i64s.write_appends [where v = "[v]" for v, simplified]
  wr_i64s.write_appends wr_string.write_appends

lemma emit_typed: "emit (write_typed ord f) (typed_bytes ord f)"
  by (cases f) (simp_all add: emit_def typed_appends)

lemma emits_typed: "emits (map (write_typed ord) fs) (all_typed_bytes ord fs)"
  by (induction fs) (auto simp: all_typed_bytes_def emits_Nil emits_Cons emit_typed)

lemma read_typed_at:
  assumes "fits (length pre + length (typed_bytes ord f))"
  shows "read_typed ord f (reader_at pre (typed_bytes ord f @ post)) =
         Ok (f, reader_at (pre @ typed_bytes ord f) post)"
  using assms rd_u8.read_enc rd_i8.read_enc rd_bool.read_enc [unfolded enc_bool_def]
  by (cases f) (auto simp: read_scalar_at ReadInt64s_at ReadString_at)

lemma read_all_typed_at:
  assumes "fits (length pre + length (all_typed_bytes ord fs))"
  shows "read_all_typed ord fs (reader_at pre (all_typed_bytes ord fs @ post)) =
         Ok (fs, reader_at (pre @ all_typed_bytes ord fs) post)"
  using assms
proof (induction fs arbitrary: pre)
  case Nil
  then show ?case by (simp add: all_typed_bytes_def)
next
  case (Cons f fs)
  have "fits (length pre + length (typed_bytes ord f))"
    using Cons.prems by (rule fits_mono) (simp add: all_typed_bytes_def)
  then show ?case
    using Cons.IH [of "pre @ typed_bytes ord f"] Cons.prems read_typed_at [of pre ord f]
    by (simp add: all_typed_bytes_def add.assoc)
qed

section \<open>Properties\<close>

text \<open>
  whatever list of typed fields is written after the existing contents of a writer, the
  writes return, the writer's bytes are the old contents followed by the encodings, and a reader
  placed behind the old contents reads back exactly the written values in order and ends at the
  end of the buffer.
\<close>

lemma typed_fields_roundtrip:
  assumes "writer_ok w" and "fits (length (contents w) + length (all_typed_bytes ord fs))"
  shows "\<exists>w' data. run_writes (Ok w) (map (write_typed ord) fs) = Ok w' \<and> writer_ok w' \<and>
    Writer_Bytes w' = Ok data \<and> data = contents w @ all_typed_bytes ord fs \<and>
    read_all_typed ord fs ((NewReader data)\<lparr>r_off := int (Writer_Len w)\<rparr>) =
      Ok (fs, (NewReader data)\<lparr>r_off := int (length data)\<rparr>)"
proof -
  have "yields (contents w) (Ok w)"
    using assms(1) by (simp add: yields_def)
  then obtain w' where w': "run_writes (Ok w) (map (write_typed ord) fs) = Ok w'" "writer_ok w'"
      "contents w' = contents w @ all_typed_bytes ord fs"
    using emits_typed [of ord fs] unfolding emits_def yields_def by blast
  have "(NewReader (contents w'))\<lparr>r_off := int (Writer_Len w)\<rparr> =
      reader_at (contents w) (all_typed_bytes ord fs)"
    using w'(3) length_contents [OF assms(1)] by (simp add: NewReader_def reader_at_def Writer_Len_def)
  moreover have "(NewReader (contents w'))\<lparr>r_off := int (length (contents w'))\<rparr> =
      reader_at (contents w @ all_typed_bytes ord fs) []"
    using w'(3) by (simp add: NewReader_def reader_at_def)
  ultimately show ?thesis
    using w' read_all_typed_at [OF assms(2), of "[]"] Writer_Bytes_contents [OF w'(2)] by simp
qed

lemma typed_fields_roundtrip_witness:
  "\<exists>w' data. run_writes (Ok (NewWriter [] [])) (map (write_typed LittleEndian)
        [FUint16 7, FString [104, 105], FInt64s [3, 0 - 1]]) = Ok w' \<and> writer_ok w' \<and>
    Writer_Bytes w' = Ok data \<and>
    data = [] @ all_typed_bytes LittleEndian [FUint16 7, FString [104, 105], FInt64s [3, 0 - 1]] \<and>
    read_all_typed LittleEndian [FUint16 7, FString [104, 105], FInt64s [3, 0 - 1]]
        ((NewReader data)\<lparr>r_off := 0\<rparr>) =
      Ok ([FUint16 7, FString [104, 105], FInt64s [3, 0 - 1]],
          (NewReader data)\<lparr>r_off := int (length data)\<rparr>)"
  using typed_fields_roundtrip
    [of "NewWriter [] []" LittleEndian "[FUint16 7, FString [104, 105], FInt64s [3, 0 - 1]]"]
  by (simp add: NewWriter_def writer_ok_def contents_def fits_def all_typed_bytes_def Writer_Len_def)

end
