(* ===== verification/Go_Pool.thy ===== *)
theory Go_Pool
  imports Go_Writer
begin

text \<open>
  The size-classed pools of writers and byte blocks (\<open>core/buffer/writer_pool.go\<close>,
  \<open>core/buffer/bytes_pool.go\<close>, \<open>core/buffer/bytes.go\<close>).  A pool of class \<open>i\<close> is the list of its
  idle objects; \<open>sync.Pool\<close> may hand out any of them or make a new one, so every law is proved
  for every pool state that satisfies the invariant.  The contract of allocation and release is
  the locale \<open>object_pool\<close>, interpreted on both pools.
\<close>

section \<open>Size classes\<close>

text \<open>
  \<open>int(math.Ceil(math.Log2(float64(cap))))\<close>: the least \<open>i\<close> with \<open>cap <= 2^i\<close>.  The
  floating-point logarithm is exact enough for every class up to 50; the default pools have
  classes 0 to 32.
\<close>

function clog_from :: "nat \<Rightarrow> nat \<Rightarrow> nat" where
  "clog_from i n = (if n \<le> 2 ^ i then i else clog_from (Suc i) n)"
  by pat_completeness auto
termination
proof (relation "measure (\<lambda>(i, n). n - i)", simp)
  fix i n :: nat
  assume "\<not> n \<le> 2 ^ i"
  moreover have "i < 2 ^ i" by (rule less_exp)
  ultimately have "i < n" by linarith
  then show "((Suc i, n), (i, n)) \<in> measure (\<lambda>(i, n). n - i)" by simp
qed

declare clog_from.simps [simp del]

definition size_class :: "int \<Rightarrow> nat" where
  "size_class cap = clog_from 0 (nat cap)"

lemma clog_from_upper: "n \<le> 2 ^ clog_from i n"
  by (induction i n rule: clog_from.induct) (subst clog_from.simps, simp)

lemma clog_from_least:
  "(\<forall>j<i. 2 ^ j < n) \<Longrightarrow> j < clog_from i n \<Longrightarrow> 2 ^ j < n"
proof (induction i n rule: clog_from.induct)
  case (1 i n)
  show ?case
  proof (cases "n \<le> 2 ^ i")
    case True
    then show ?thesis
      using "1.prems" by (simp add: clog_from.simps [of i n])
  next
    case False
    then have "\<forall>j<Suc i. 2 ^ j < n"
      using "1.prems"(1) by (auto simp: less_Suc_eq)
    moreover have "j < clog_from (Suc i) n"
      using False "1.prems"(2) by (simp add: clog_from.simps [of i n])
    ultimately show ?thesis
      by (rule "1.IH" [OF False])
  qed
qed

lemma clog_from_le:
  assumes "n \<le> 2 ^ k"
  shows "clog_from 0 n \<le> k"
proof (rule ccontr)
  assume "\<not> clog_from 0 n \<le> k"
  then have "2 ^ k < n"
    by (intro clog_from_least [of 0]) simp_all
  with assms show False by simp
qed

section \<open>Pools\<close>

type_synonym 'a pools = "'a list list"

text \<open>
  \<open>getPool\<close>: with no class the result is nil; for \<open>cap <= 0\<close> the logarithm is not a number in
  the integer range and the index panics.
\<close>

definition getPool :: "'a pools \<Rightarrow> int \<Rightarrow> nat option res" where
  "getPool ps cap =
     (if ps = [] then Ok None
      else if cap \<le> 0 then Panic
      else Ok (Some (min (size_class cap) (length ps - 1))))"

definition pool_take :: "(nat \<Rightarrow> 'a) \<Rightarrow> 'a pools \<Rightarrow> nat \<Rightarrow> 'a \<times> 'a pools" where
  "pool_take new ps i = (case ps ! i of [] \<Rightarrow> (new i, ps) | x # xs \<Rightarrow> (x, ps[i := xs]))"

definition pool_put :: "'a pools \<Rightarrow> nat \<Rightarrow> 'a \<Rightarrow> 'a pools" where
  "pool_put ps i x = ps[i := x # ps ! i]"

definition NewWriterPool :: "int \<Rightarrow> Writer pools res" where
  "NewWriterPool grade = (if grade + 1 < 0 then Panic else Ok (replicate (nat (grade + 1)) []))"

definition NewWriterPoolWithCapacity :: "int \<Rightarrow> Writer pools res" where
  "NewWriterPoolWithCapacity cap =
     (if cap \<le> 0 then Panic else NewWriterPool (int (size_class cap)))"

definition new_pool_writer :: "nat \<Rightarrow> Writer" where
  "new_pool_writer i = \<lparr>w_buf = replicate (2 ^ i) 0, w_spare = [], w_off = 0, w_pool = Some i\<rparr>"

definition WriterPool_Get :: "Writer pools \<Rightarrow> int \<Rightarrow> (Writer option \<times> Writer pools) res" where
  "WriterPool_Get ps cap =
     and_then (getPool ps cap) (\<lambda>p. case p of
         None \<Rightarrow> Ok (None, ps)
       | Some i \<Rightarrow> (case pool_take new_pool_writer ps i of (w, ps') \<Rightarrow> Ok (Some w, ps')))"

definition WriterPool_Put :: "Writer pools \<Rightarrow> Writer \<Rightarrow> Writer pools res" where
  "WriterPool_Put ps w =
     and_then (getPool ps (int (Writer_Cap w))) (\<lambda>p. case p of
         None \<Rightarrow> Ok ps
       | Some i \<Rightarrow> Ok (pool_put ps i w))"

text \<open>\<open>Release\<close> resets the offset and returns the writer to the pool it was made by.\<close>

definition Writer_Release :: "Writer pools \<Rightarrow> Writer \<Rightarrow> Writer \<times> Writer pools" where
  "Writer_Release ps w =
     (let w' = w\<lparr>w_off := 0\<rparr>
      in case w_pool w of None \<Rightarrow> (w', ps) | Some i \<Rightarrow> (w', pool_put ps i w'))"

text \<open>
  The writer that \<open>MallocWriter\<close> hands out of the default pool; a nil writer panics at the first
  write.
\<close>

definition MallocWriter :: "Writer pools \<Rightarrow> int \<Rightarrow> Writer res" where
  "MallocWriter ps cap =
     and_then (WriterPool_Get ps cap) (\<lambda>(w, ps'). case w of None \<Rightarrow> Panic | Some w \<Rightarrow> Ok w)"

section \<open>Byte blocks\<close>

record Bytes =
  b_buf :: "byte list"
  b_spare :: "byte list"
  b_off :: int
  b_pool :: "nat option"
  b_released :: bool

definition NewBytes :: "byte list \<Rightarrow> byte list \<Rightarrow> Bytes" where
  "NewBytes buf spare =
     \<lparr>b_buf = buf, b_spare = spare, b_off = int (length buf), b_pool = None, b_released = False\<rparr>"

definition NewBytesWithCapacity :: "int \<Rightarrow> Bytes res" where
  "NewBytesWithCapacity cap =
     (if cap < 0 then Panic
      else Ok \<lparr>b_buf = replicate (nat cap) 0, b_spare = [], b_off = cap, b_pool = None,
               b_released = False\<rparr>)"

text \<open>The methods accept a nil receiver.\<close>

definition Bytes_Len :: "Bytes option \<Rightarrow> int" where
  "Bytes_Len b = (case b of None \<Rightarrow> 0 | Some b \<Rightarrow> b_off b)"

definition Bytes_Cap :: "Bytes option \<Rightarrow> int" where
  "Bytes_Cap b = (case b of None \<Rightarrow> 0 | Some b \<Rightarrow> int (length (b_buf b @ b_spare b)))"

definition Bytes_Available :: "Bytes option \<Rightarrow> int" where
  "Bytes_Available b =
     (case b of None \<Rightarrow> 0 | Some b \<Rightarrow> int (length (b_buf b @ b_spare b)) - b_off b)"

definition Bytes_Bytes :: "Bytes option \<Rightarrow> byte list res" where
  "Bytes_Bytes b =
     (case b of
        None \<Rightarrow> Ok []
      | Some b \<Rightarrow> if 0 \<le> b_off b \<and> b_off b \<le> int (length (b_buf b @ b_spare b))
                  then Ok (take (nat (b_off b)) (b_buf b @ b_spare b)) else Panic)"

definition NewBytesPool :: "int \<Rightarrow> Bytes pools res" where
  "NewBytesPool grade = (if grade + 1 < 0 then Panic else Ok (replicate (nat (grade + 1)) []))"

definition NewBytesPoolWithCapacity :: "int \<Rightarrow> Bytes pools res" where
  "NewBytesPoolWithCapacity cap =
     (if cap \<le> 0 then Panic else NewBytesPool (int (size_class cap)))"

definition new_pool_bytes :: "nat \<Rightarrow> Bytes" where
  "new_pool_bytes i =
     \<lparr>b_buf = replicate (2 ^ i) 0, b_spare = [], b_off = 2 ^ i, b_pool = Some i,
      b_released = False\<rparr>"

definition BytesPool_Get :: "Bytes pools \<Rightarrow> int \<Rightarrow> (Bytes option \<times> Bytes pools) res" where
  "BytesPool_Get ps cap =
     and_then (getPool ps cap) (\<lambda>p. case p of
         None \<Rightarrow> Ok (None, ps)
       | Some i \<Rightarrow> (case pool_take new_pool_bytes ps i of
             (b, ps') \<Rightarrow> Ok (Some (b\<lparr>b_off := cap, b_released := False\<rparr>), ps')))"

definition BytesPool_Put :: "Bytes pools \<Rightarrow> Bytes \<Rightarrow> Bytes pools res" where
  "BytesPool_Put ps b =
     and_then (getPool ps (Bytes_Cap (Some b))) (\<lambda>p. case p of
         None \<Rightarrow> Ok ps
       | Some i \<Rightarrow> Ok (pool_put ps i b))"

definition Bytes_Release :: "Bytes pools \<Rightarrow> Bytes \<Rightarrow> Bytes \<times> Bytes pools" where
  "Bytes_Release ps b =
     (let b' = b\<lparr>b_off := 0\<rparr>
      in case b_pool b of None \<Rightarrow> (b', ps) | Some i \<Rightarrow> (b', pool_put ps i b'))"

definition MallocBytes :: "Bytes pools \<Rightarrow> int \<Rightarrow> (Bytes option \<times> Bytes pools) res" where
  "MallocBytes ps cap = BytesPool_Get ps cap"

text \<open>Writing into a pooled block: the bytes replace those at the given position.\<close>

definition bytes_fill :: "Bytes \<Rightarrow> nat \<Rightarrow> byte list \<Rightarrow> Bytes" where
  "bytes_fill b at bs =
     (let a = take at (b_buf b @ b_spare b) @ bs @ drop (at + length bs) (b_buf b @ b_spare b)
      in b\<lparr>b_buf := take (length (b_buf b)) a, b_spare := drop (length (b_buf b)) a\<rparr>)"

section \<open>The interface of a pool\<close>

text \<open>
  \<open>idle i x\<close> says that \<open>x\<close> may lie in class \<open>i\<close>.  The laws: a new object is idle, and resetting an
  object that was handed out by class \<open>i\<close> makes it idle there.  What a client gets is then idle
  in its class whatever the pool has been through.
\<close>

locale object_pool =
  fixes new :: "nat \<Rightarrow> 'a"
    and idle :: "nat \<Rightarrow> 'a \<Rightarrow> bool"
    and reset :: "'a \<Rightarrow> 'a"
  assumes new_idle: "idle i (new i)"
    and reset_idle: "idle i x \<Longrightarrow> idle i (reset x)"
begin

definition pools_ok :: "'a pools \<Rightarrow> bool" where
  "pools_ok ps \<longleftrightarrow> (\<forall>i < length ps. \<forall>x \<in> set (ps ! i). idle i x)"

lemma pools_ok_empty: "pools_ok (replicate n [])"
  by (simp add: pools_ok_def)

lemma take_ok:
  assumes "pools_ok ps" and "i < length ps" and "pool_take new ps i = (x, ps')"
  shows "idle i x \<and> pools_ok ps' \<and> length ps' = length ps"
proof (cases "ps ! i")
  case Nil
  then show ?thesis
    using assms new_idle [of i] by (simp add: pool_take_def)
next
  case (Cons y ys)
  then have "x = y" and "ps' = ps[i := ys]"
    using assms(3) by (simp_all add: pool_take_def)
  then show ?thesis
    using assms(1,2) Cons by (auto simp: pools_ok_def nth_list_update)
qed

lemma put_ok:
  assumes "pools_ok ps" and "idle i x"
  shows "pools_ok (pool_put ps i (reset x))"
proof (cases "i < length ps")
  case True
  then show ?thesis
    using assms reset_idle [OF assms(2)]
    by (auto simp: pools_ok_def pool_put_def nth_list_update)
next
  case False
  then show ?thesis
    using assms by (simp add: pool_put_def list_update_beyond)
qed

end

definition idle_writer :: "nat \<Rightarrow> Writer \<Rightarrow> bool" where
  "idle_writer i w \<longleftrightarrow> writer_ok w \<and> w_off w = 0 \<and> w_pool w = Some i"

definition pooled_bytes :: "nat \<Rightarrow> Bytes \<Rightarrow> bool" where
  "pooled_bytes i b \<longleftrightarrow> 2 ^ i \<le> length (b_buf b @ b_spare b) \<and> b_pool b = Some i"

interpretation wpool: object_pool new_pool_writer idle_writer "\<lambda>w. w\<lparr>w_off := 0\<rparr>"
  by unfold_locales (auto simp: idle_writer_def new_pool_writer_def writer_ok_def)

interpretation bpool: object_pool new_pool_bytes pooled_bytes "\<lambda>b. b\<lparr>b_off := 0\<rparr>"
  by unfold_locales (auto simp: pooled_bytes_def new_pool_bytes_def)

text \<open>
  The invariant of the default writer pool: at least one class, every idle writer empty and
  without spare capacity.
\<close>

definition wpools_ok :: "Writer pools \<Rightarrow> bool" where
  "wpools_ok ps \<longleftrightarrow> ps \<noteq> [] \<and> (\<forall>i < length ps. \<forall>w \<in> set (ps ! i). idle_writer i w)"

lemma wpools_ok_eq: "wpools_ok ps \<longleftrightarrow> ps \<noteq> [] \<and> wpool.pools_ok ps"
  by (simp add: wpools_ok_def wpool.pools_ok_def)

lemma wpools_ok_New: "NewWriterPool grade = Ok ps \<Longrightarrow> 0 \<le> grade \<Longrightarrow> wpools_ok ps"
  by (auto simp: NewWriterPool_def wpools_ok_eq wpool.pools_ok_empty split: if_splits)

lemma getPool_index:
  "ps \<noteq> [] \<Longrightarrow> 0 < cap \<Longrightarrow> \<exists>i < length ps. getPool ps cap = Ok (Some i)"
  by (cases ps) (auto simp: getPool_def)

text \<open>
  Allocation from any such pool gives an empty writer, recycled or new, and keeps the invariant;
  so does releasing a writer that was written to.
\<close>

lemma WriterPool_Get_fresh:
  assumes "wpools_ok ps" and "0 < cap"
  shows "\<exists>w ps' i. WriterPool_Get ps cap = Ok (Some w, ps') \<and> idle_writer i w \<and> wpools_ok ps'"
proof -
  obtain i where i: "i < length ps" "getPool ps cap = Ok (Some i)"
    using getPool_index [of ps cap] assms by (auto simp: wpools_ok_def)
  obtain w ps' where t: "pool_take new_pool_writer ps i = (w, ps')"
    by fastforce
  have "idle_writer i w \<and> wpool.pools_ok ps' \<and> length ps' = length ps"
    using wpool.take_ok [OF _ i(1) t] assms(1) by (simp add: wpools_ok_eq)
  then show ?thesis
    using i t assms(1) by (auto simp: WriterPool_Get_def wpools_ok_eq)
qed

lemma MallocWriter_fresh:
  assumes "wpools_ok ps" and "0 < cap"
  shows "\<exists>w. MallocWriter ps cap = Ok w \<and> writer_ok w \<and> contents w = []"
  using WriterPool_Get_fresh [OF assms]
  by (auto simp: MallocWriter_def idle_writer_def contents_def)

lemma yields_Malloc: "wpools_ok ps \<Longrightarrow> 0 < cap \<Longrightarrow> yields [] (MallocWriter ps cap)"
  using MallocWriter_fresh [of ps cap] by (simp add: yields_def)

lemma Writer_Release_ok:
  assumes "wpools_ok ps" and "writer_ok w" and "Writer_Release ps w = (w', ps')"
  shows "wpools_ok ps' \<and> contents w' = []"
proof (cases "w_pool w")
  case None
  then show ?thesis
    using assms by (auto simp: Writer_Release_def contents_def)
next
  case (Some i)
  have "idle_writer i (w\<lparr>w_off := 0\<rparr>)"
    using assms(2) Some by (simp add: idle_writer_def writer_ok_def)
  then have "wpool.pools_ok (pool_put ps i (w\<lparr>w_off := 0\<rparr>))"
    using wpool.put_ok [of ps i "w\<lparr>w_off := 0\<rparr>"] assms(1) by (simp add: wpools_ok_eq)
  then show ?thesis
    using assms Some by (auto simp: Writer_Release_def Let_def wpools_ok_eq contents_def pool_put_def)
qed

text \<open>A byte block of the pool has exactly the requested length.\<close>

definition bpools_ok :: "Bytes pools \<Rightarrow> bool" where
  "bpools_ok ps \<longleftrightarrow> ps \<noteq> [] \<and> (\<forall>i < length ps. \<forall>b \<in> set (ps ! i). pooled_bytes i b)"

lemma bpools_ok_eq: "bpools_ok ps \<longleftrightarrow> ps \<noteq> [] \<and> bpool.pools_ok ps"
  by (simp add: bpools_ok_def bpool.pools_ok_def)

lemma getPool_class:
  assumes "ps \<noteq> []" and "0 < cap" and "cap \<le> 2 ^ (length ps - 1)"
  shows "\<exists>i < length ps. getPool ps cap = Ok (Some i) \<and> cap \<le> 2 ^ i"
proof -
  have "nat cap \<le> 2 ^ (length ps - 1)"
    using assms(2,3) by (simp add: nat_le_iff)
  then have le: "size_class cap \<le> length ps - 1"
    unfolding size_class_def by (rule clog_from_le)
  have "nat cap \<le> 2 ^ size_class cap"
    unfolding size_class_def by (rule clog_from_upper)
  then have "cap \<le> 2 ^ size_class cap"
    using assms(2) by (simp add: nat_le_iff)
  moreover have "size_class cap < length ps"
    using le assms(1) by (cases ps) simp_all
  ultimately show ?thesis
    using assms le by (auto simp: getPool_def min_def)
qed

lemma MallocBytes_length:
  assumes "bpools_ok ps" and "0 < cap" and "cap \<le> 2 ^ (length ps - 1)"
  shows "\<exists>b ps' data. MallocBytes ps cap = Ok (Some b, ps') \<and> bpools_ok ps' \<and> length ps' = length ps \<and>
    Bytes_Bytes (Some b) = Ok data \<and> int (length data) = cap \<and> Bytes_Len (Some b) = cap"
proof -
  obtain i where i: "i < length ps" "getPool ps cap = Ok (Some i)" "cap \<le> 2 ^ i"
    using getPool_class [of ps cap] assms by (auto simp: bpools_ok_def)
  obtain b ps' where t: "pool_take new_pool_bytes ps i = (b, ps')"
    by fastforce
  have b: "pooled_bytes i b" "bpool.pools_ok ps'" "length ps' = length ps"
    using bpool.take_ok [OF _ i(1) t] assms(1) by (simp_all add: bpools_ok_eq)
  have "cap \<le> int (length (b_buf b @ b_spare b))"
  proof -
    have "int (2 ^ i) \<le> int (length (b_buf b @ b_spare b))"
      using b(1) unfolding pooled_bytes_def by (simp only: of_nat_le_iff)
    then show ?thesis
      using i(3) by simp
  qed
  then show ?thesis
    using i t b assms by (auto simp: MallocBytes_def BytesPool_Get_def bpools_ok_eq Bytes_Bytes_def Bytes_Len_def)
qed

section \<open>Properties\<close>

text \<open>
  recycling never leaks data between messages: after any written writer is released, the
  next allocation of any positive capacity returns an empty writer, and the pool stays sound.
\<close>

lemma pool_recycles_empty:
  assumes "wpools_ok ps" and "writer_ok w" and "Writer_Release ps w = (w', ps')" and "0 < cap"
  shows "\<exists>w2 ps2. WriterPool_Get ps' cap = Ok (Some w2, ps2) \<and> writer_ok w2 \<and>
    Writer_Bytes w2 = Ok [] \<and> Writer_Len w2 = 0 \<and> wpools_ok ps2"
proof -
  have "wpools_ok ps'"
    using Writer_Release_ok [OF assms(1-3)] by simp
  then obtain w2 ps2 i where "WriterPool_Get ps' cap = Ok (Some w2, ps2)" "idle_writer i w2" "wpools_ok ps2"
    using WriterPool_Get_fresh [OF _ assms(4)] by blast
  then show ?thesis
    by (auto simp: idle_writer_def Writer_Bytes_contents contents_def Writer_Len_def)
qed

lemma pool_recycles_empty_witness:
  "\<exists>w2 ps2. WriterPool_Get
      (snd (Writer_Release (replicate 3 []) \<lparr>w_buf = [9, 9], w_spare = [], w_off = 2, w_pool = Some 1\<rparr>)) 2 =
        Ok (Some w2, ps2) \<and> writer_ok w2 \<and> Writer_Bytes w2 = Ok [] \<and> Writer_Len w2 = 0 \<and> wpools_ok ps2"
proof (rule pool_recycles_empty)
  show "wpools_ok (replicate 3 [])"
    by (simp add: wpools_ok_eq wpool.pools_ok_empty)
  show "writer_ok \<lparr>w_buf = [9, 9], w_spare = [], w_off = 2, w_pool = Some 1\<rparr>"
    by (simp add: writer_ok_def)
  show "Writer_Release (replicate 3 []) \<lparr>w_buf = [9, 9], w_spare = [], w_off = 2, w_pool = Some 1\<rparr> =
      (\<lparr>w_buf = [9, 9], w_spare = [], w_off = 0, w_pool = Some 1\<rparr>,
       snd (Writer_Release (replicate 3 []) \<lparr>w_buf = [9, 9], w_spare = [], w_off = 2, w_pool = Some 1\<rparr>))"
    by (simp add: Writer_Release_def Let_def)
qed simp

end
