(* ===== verification/Go_Nocopy.thy ===== *)
theory Go_Nocopy
  imports Go_Pool
begin

text \<open>
  The no-copy buffer of \<open>core/buffer/nocopy_buffer.go\<close> and \<open>core/buffer/nocopy_node.go\<close>: a
  doubly linked chain of nodes and nested buffers, modelled as a tree whose children are the
  chain from \<open>head\<close> to \<open>tail\<close>.  The abstract view is the list of its leaf blocks; iteration,
  byte extraction, length and release are related to it.
\<close>

section \<open>Blocks and nodes\<close>

datatype block = BRaw "byte list" | BBytes "Bytes option" | BWriter Writer | BNone

definition block_Len :: "block \<Rightarrow> int" where
  "block_Len blk =
     (case blk of
        BRaw b \<Rightarrow> int (length b)
      | BBytes b \<Rightarrow> Bytes_Len b
      | BWriter w \<Rightarrow> int (Writer_Len w)
      | BNone \<Rightarrow> 0)"

definition block_Bytes :: "block \<Rightarrow> byte list res" where
  "block_Bytes blk =
     (case blk of
        BRaw b \<Rightarrow> Ok b
      | BBytes b \<Rightarrow> Bytes_Bytes b
      | BWriter w \<Rightarrow> Writer_Bytes w
      | BNone \<Rightarrow> Ok [])"

text \<open>
  \<open>nb_len\<close> is the cached byte count (-1 when unknown), \<open>nb_num\<close> the node count, \<open>nb_nodes\<close> the
  chain, \<open>nb_delay\<close> the number of releases still to be ignored.
\<close>

datatype nnode = NNode block | NBuf nbuf
  and nbuf = NocopyBuffer (nb_len: int) (nb_num: int) (nb_nodes: "nnode list")
      (nb_delay: int32) (nb_released: bool)

text \<open>What can be mounted: the dynamic types the code distinguishes.\<close>

datatype mountable = MRaw "byte list" | MBytes "Bytes option" | MWriter Writer | MNode nnode | MOther

datatype nwhence = Head | Tail

section \<open>Operations\<close>

definition addToHead :: "nbuf \<Rightarrow> nnode \<Rightarrow> nbuf" where
  "addToHead b n =
     (case b of NocopyBuffer l num ns d rel \<Rightarrow>
        (case n of
           NNode blk \<Rightarrow> NocopyBuffer (-1) (num + 1) (n # ns) d rel
         | NBuf c \<Rightarrow> NocopyBuffer (-1) (num + nb_num c) (n # ns) d rel))"

definition addToTail :: "nbuf \<Rightarrow> nnode \<Rightarrow> nbuf" where
  "addToTail b n =
     (case b of NocopyBuffer l num ns d rel \<Rightarrow>
        (case n of
           NNode blk \<Rightarrow> NocopyBuffer (-1) (num + 1) (ns @ [n]) d rel
         | NBuf c \<Rightarrow> NocopyBuffer (-1) (num + nb_num c) (ns @ [n]) d rel))"

definition Mount :: "nbuf \<Rightarrow> mountable \<Rightarrow> nwhence list \<Rightarrow> nbuf" where
  "Mount b block whence =
     (let add = (if whence \<noteq> [] \<and> hd whence = Head then addToHead b else addToTail b)
      in case block of
           MRaw v \<Rightarrow> add (NNode (BRaw v))
         | MBytes v \<Rightarrow> add (NNode (BBytes v))
         | MWriter v \<Rightarrow> add (NNode (BWriter v))
         | MNode v \<Rightarrow> add v
         | MOther \<Rightarrow> b)"

definition NewNocopyBuffer :: "mountable list \<Rightarrow> nbuf" where
  "NewNocopyBuffer blocks =
     foldl (\<lambda>buf block. Mount buf block []) (NocopyBuffer (-1) 0 [] 0 False) blocks"

text \<open>\<open>MallocBytes\<close> and \<open>MallocWriter\<close> of a buffer mount at the tail whatever \<open>whence\<close> says.\<close>

definition Nocopy_MallocBytes ::
    "Bytes pools \<Rightarrow> nbuf \<Rightarrow> int \<Rightarrow> nwhence list \<Rightarrow> (Bytes option \<times> nbuf) res" where
  "Nocopy_MallocBytes ps b cap whence =
     and_then (MallocBytes ps cap) (\<lambda>(block, ps'). Ok (block, Mount b (MBytes block) []))"

definition Nocopy_MallocWriter ::
    "Writer pools \<Rightarrow> nbuf \<Rightarrow> int \<Rightarrow> nwhence list \<Rightarrow> (Writer \<times> nbuf) res" where
  "Nocopy_MallocWriter ps b cap whence =
     and_then (MallocWriter ps cap) (\<lambda>block. Ok (block, Mount b (MWriter block) []))"

text \<open>\<open>Len\<close> caches the byte count in every buffer it walks through.\<close>

fun nn_Len :: "nnode \<Rightarrow> int \<times> nnode"
  and nb_Len :: "nbuf \<Rightarrow> int \<times> nbuf" where
  "nn_Len (NNode blk) = (block_Len blk, NNode blk)"
| "nn_Len (NBuf b) = (case nb_Len b of (n, b') \<Rightarrow> (n, NBuf b'))"
| "nb_Len (NocopyBuffer l num ns d rel) =
     (if 0 \<le> l then (l, NocopyBuffer l num ns d rel)
      else let rs = map nn_Len ns; size = sum_list (map fst rs)
           in (size, NocopyBuffer size num (map snd rs) d rel))"

text \<open>\<open>Visit\<close> stops at the first node the function rejects; the function carries a state.\<close>

fun nn_Visit :: "(block \<Rightarrow> 's \<Rightarrow> bool \<times> 's) \<Rightarrow> nnode \<Rightarrow> 's \<Rightarrow> bool \<times> 's"
  and Visit :: "(block \<Rightarrow> 's \<Rightarrow> bool \<times> 's) \<Rightarrow> nbuf \<Rightarrow> 's \<Rightarrow> bool \<times> 's"
  and nns_Visit :: "(block \<Rightarrow> 's \<Rightarrow> bool \<times> 's) \<Rightarrow> nnode list \<Rightarrow> 's \<Rightarrow> bool \<times> 's" where
  "nn_Visit fn (NNode blk) s = fn blk s"
| "nn_Visit fn (NBuf b) s = Visit fn b s"
| "Visit fn (NocopyBuffer l num ns d rel) s = nns_Visit fn ns s"
| "nns_Visit fn [] s = (True, s)"
| "nns_Visit fn (n # ns) s =
     (case nn_Visit fn n s of (ok, s') \<Rightarrow> if ok then nns_Visit fn ns s' else (False, s'))"

text \<open>
  \<open>Bytes\<close> answers from the node count: nothing for 0, the head alone for 1, the concatenation of
  the chain otherwise.
\<close>

fun nn_Bytes :: "nnode \<Rightarrow> byte list res"
  and nb_Bytes :: "nbuf \<Rightarrow> byte list res"
  and nns_Bytes :: "nnode list \<Rightarrow> byte list res" where
  "nn_Bytes (NNode blk) = block_Bytes blk"
| "nn_Bytes (NBuf b) = nb_Bytes b"
| "nb_Bytes (NocopyBuffer l num ns d rel) =
     (if num = 0 then Ok []
      else if num = 1 then (case ns of [] \<Rightarrow> Ok [] | h # _ \<Rightarrow> nn_Bytes h)
      else nns_Bytes ns)"
| "nns_Bytes [] = Ok []"
| "nns_Bytes (n # ns) =
     and_then (nn_Bytes n) (\<lambda>bs. and_then (nns_Bytes ns) (\<lambda>rest. Ok (bs @ rest)))"

definition Delay :: "nbuf \<Rightarrow> int32 \<Rightarrow> nbuf" where
  "Delay b delay =
     (case b of NocopyBuffer l num ns d rel \<Rightarrow> NocopyBuffer l num ns delay rel)"

text \<open>
  \<open>Release\<close> returns the blocks that go back to their pools.  The counter is decremented first; a
  nested buffer applies its own counter.
\<close>

fun nn_Release :: "nnode \<Rightarrow> block list"
  and nb_Release :: "nbuf \<Rightarrow> block list \<times> nbuf" where
  "nn_Release (NNode blk) = [blk]"
| "nn_Release (NBuf b) = fst (nb_Release b)"
| "nb_Release (NocopyBuffer l num ns d rel) =
     (let d' = d - 1
      in if 0 < sint d' then ([], NocopyBuffer l num ns d' rel)
         else if rel then ([], NocopyBuffer l num ns d' rel)
         else (concat (map nn_Release ns), NocopyBuffer (-1) 0 [] d' True))"

section \<open>The abstract view: leaf blocks\<close>

fun nn_leaves :: "nnode \<Rightarrow> block list"
  and leaves :: "nbuf \<Rightarrow> block list" where
  "nn_leaves (NNode blk) = [blk]"
| "nn_leaves (NBuf b) = leaves b"
| "leaves (NocopyBuffer l num ns d rel) = concat (map nn_leaves ns)"

text \<open>The bytes of a block whose invariant holds.\<close>

definition block_data :: "block \<Rightarrow> byte list" where
  "block_data blk =
     (case blk of
        BRaw b \<Rightarrow> b
      | BBytes None \<Rightarrow> []
      | BBytes (Some b) \<Rightarrow> take (nat (b_off b)) (b_buf b @ b_spare b)
      | BWriter w \<Rightarrow> contents w
      | BNone \<Rightarrow> [])"

definition block_ok :: "block \<Rightarrow> bool" where
  "block_ok blk =
     (case blk of
        BBytes (Some b) \<Rightarrow> 0 \<le> b_off b \<and> b_off b \<le> int (length (b_buf b @ b_spare b))
      | BWriter w \<Rightarrow> writer_ok w
      | _ \<Rightarrow> True)"

definition wire :: "nbuf \<Rightarrow> byte list" where
  "wire b = concat (map block_data (leaves b))"

lemma block_Bytes_data: "block_ok blk \<Longrightarrow> block_Bytes blk = Ok (block_data blk)"
  by (auto simp: block_ok_def block_Bytes_def block_data_def Bytes_Bytes_def Writer_Bytes_contents
      split: block.splits option.splits)

lemma block_Len_data: "block_ok blk \<Longrightarrow> block_Len blk = int (length (block_data blk))"
  by (auto simp: block_ok_def block_Len_def block_data_def Bytes_Len_def Writer_Len_def
      length_contents split: block.splits option.splits)

text \<open>
  Well-formedness of a chain: the node count is the number of leaf blocks, no nested buffer is
  empty, and a cached length is the right one.
\<close>

fun nn_wf :: "nnode \<Rightarrow> bool"
  and nb_wf :: "nbuf \<Rightarrow> bool" where
  "nn_wf (NNode blk) = block_ok blk"
| "nn_wf (NBuf b) = (nb_wf b \<and> leaves b \<noteq> [])"
| "nb_wf (NocopyBuffer l num ns d rel) =
     (list_all nn_wf ns \<and> num = int (length (concat (map nn_leaves ns))) \<and>
      (0 \<le> l \<longrightarrow> l = int (length (concat (map block_data (concat (map nn_leaves ns)))))))"

lemma nn_wf_leaves: "nn_wf n \<Longrightarrow> nn_leaves n \<noteq> []"
  by (cases n) auto

subsection \<open>Iteration\<close>

primrec visit_list :: "(block \<Rightarrow> 's \<Rightarrow> bool \<times> 's) \<Rightarrow> block list \<Rightarrow> 's \<Rightarrow> bool \<times> 's" where
  "visit_list fn [] s = (True, s)"
| "visit_list fn (b # bs) s =
     (case fn b s of (ok, s') \<Rightarrow> if ok then visit_list fn bs s' else (False, s'))"

lemma visit_list_append:
  "visit_list fn (xs @ ys) s =
     (case visit_list fn xs s of (ok, s') \<Rightarrow> if ok then visit_list fn ys s' else (False, s'))"
  by (induction xs arbitrary: s) (auto split: prod.splits)

lemma visit_list_single: "visit_list fn [b] s = fn b s"
  by (simp split: prod.splits)

lemma Visit_leaves_aux:
  "nn_Visit fn n s = visit_list fn (nn_leaves n) s"
  "Visit fn b s = visit_list fn (leaves b) s"
  "nns_Visit fn ns s = visit_list fn (concat (map nn_leaves ns)) s"
proof (induction fn n s and fn b s and fn ns s rule: nn_Visit_Visit_nns_Visit.induct)
  case (1 fn blk s)
  show ?case by (simp only: nn_Visit.simps nn_leaves.simps visit_list_single)
qed (auto simp: visit_list_append split: prod.splits)

lemmas Visit_leaves = Visit_leaves_aux(2)

subsection \<open>Mounting\<close>

lemma leaves_addToTail: "leaves (addToTail b n) = leaves b @ nn_leaves n"
  by (cases b; cases n) (auto simp: addToTail_def)

lemma leaves_addToHead: "leaves (addToHead b n) = nn_leaves n @ leaves b"
  by (cases b; cases n) (auto simp: addToHead_def)

lemma nb_num_leaves: "nb_wf b \<Longrightarrow> nb_num b = int (length (leaves b))"
  by (cases b) simp

lemma wf_addToTail:
  assumes "nb_wf b" and "nn_wf n"
  shows "nb_wf (addToTail b n)"
  using assms nb_num_leaves by (cases b; cases n) (auto simp: addToTail_def)

lemma wf_addToHead:
  assumes "nb_wf b" and "nn_wf n"
  shows "nb_wf (addToHead b n)"
  using assms nb_num_leaves by (cases b; cases n) (auto simp: addToHead_def)

fun mount_node :: "mountable \<Rightarrow> nnode option" where
  "mount_node (MRaw v) = Some (NNode (BRaw v))"
| "mount_node (MBytes v) = Some (NNode (BBytes v))"
| "mount_node (MWriter v) = Some (NNode (BWriter v))"
| "mount_node (MNode n) = Some n"
| "mount_node MOther = None"

lemma Mount_eq:
  "Mount b m whence =
     (case mount_node m of None \<Rightarrow> b
      | Some n \<Rightarrow> if whence \<noteq> [] \<and> hd whence = Head then addToHead b n else addToTail b n)"
  by (cases m) (auto simp: Mount_def)

lemma wf_Mount:
  "nb_wf b \<Longrightarrow> (\<And>n. mount_node m = Some n \<Longrightarrow> nn_wf n) \<Longrightarrow> nb_wf (Mount b m whence)"
  by (auto simp: Mount_eq wf_addToHead wf_addToTail split: option.split)

lemma wire_Mount_tail:
  "wire (Mount b m []) =
     wire b @ (case mount_node m of None \<Rightarrow> [] | Some n \<Rightarrow> concat (map block_data (nn_leaves n)))"
  by (auto simp: Mount_eq wire_def leaves_addToTail split: option.split)

lemma wire_empty: "wire (NocopyBuffer (-1) 0 [] d rel) = []"
  by (simp add: wire_def)

lemma wire_New1: "wire (NewNocopyBuffer [MWriter w]) = contents w"
  by (simp add: NewNocopyBuffer_def wire_Mount_tail wire_empty block_data_def)

lemma wire_New2:
  "wire (NewNocopyBuffer [MWriter w, m]) =
     contents w @
     (case mount_node m of None \<Rightarrow> [] | Some n \<Rightarrow> concat (map block_data (nn_leaves n)))"
  by (simp add: NewNocopyBuffer_def wire_Mount_tail wire_empty block_data_def)

subsection \<open>Bytes and length\<close>

lemma nns_Bytes_concat:
  assumes "list_all (\<lambda>n. nn_Bytes n = Ok (concat (map block_data (nn_leaves n)))) ns"
  shows "nns_Bytes ns = Ok (concat (map block_data (concat (map nn_leaves ns))))"
  using assms by (induction ns) auto

lemma single_leaf:
  assumes "list_all nn_wf ns" and "length (concat (map nn_leaves ns)) = 1"
  shows "\<exists>n. ns = [n]"
proof (cases ns)
  case Nil
  then show ?thesis using assms by simp
next
  case (Cons n rest)
  show ?thesis
  proof (cases rest)
    case Nil
    then show ?thesis using Cons by simp
  next
    case (Cons m rest')
    then have "nn_leaves n \<noteq> []" and "nn_leaves m \<noteq> []"
      using assms(1) \<open>ns = n # rest\<close> by (auto dest: nn_wf_leaves)
    then show ?thesis
      using assms(2) \<open>ns = n # rest\<close> Cons by (cases "nn_leaves n"; cases "nn_leaves m") auto
  qed
qed

lemma Bytes_wire_aux:
  "nn_wf n \<Longrightarrow> nn_Bytes n = Ok (concat (map block_data (nn_leaves n)))"
  "nb_wf b \<Longrightarrow> nb_Bytes b = Ok (wire b)"
proof (induction n and b rule: nnode.induct nbuf.induct)
  case (NNode blk)
  then show ?case by (simp add: block_Bytes_data)
next
  case (NBuf b)
  then show ?case by (simp add: wire_def)
next
  case (NocopyBuffer l num ns d rel)
  let ?leaves = "concat (map nn_leaves ns)"
  from NocopyBuffer.prems have wf: "list_all nn_wf ns" and num: "num = int (length ?leaves)"
    by simp_all
  have each: "list_all (\<lambda>n. nn_Bytes n = Ok (concat (map block_data (nn_leaves n)))) ns"
    using NocopyBuffer.IH wf by (auto simp: list_all_iff)
  consider "length ?leaves = 0" | "length ?leaves = 1" | "1 < length ?leaves"
    by linarith
  then show ?case
  proof cases
    case 1
    then have "?leaves = []" by simp
    then show ?thesis using num by (simp only: nb_Bytes.simps wire_def leaves.simps) simp
  next
    case 2
    then obtain n where "ns = [n]"
      using single_leaf [OF wf] by blast
    then show ?thesis
      using 2 num each by (simp add: wire_def)
  next
    case 3
    then show ?thesis
      using num nns_Bytes_concat [OF each] by (simp add: wire_def)
  qed
qed

lemma nb_Bytes_wire: "nb_wf b \<Longrightarrow> nb_Bytes b = Ok (wire b)"
  by (rule Bytes_wire_aux(2))

lemma Len_wire_aux:
  "nn_wf n \<Longrightarrow> fst (nn_Len n) = int (length (concat (map block_data (nn_leaves n)))) \<and>
     nn_wf (snd (nn_Len n)) \<and> nn_leaves (snd (nn_Len n)) = nn_leaves n"
  "nb_wf b \<Longrightarrow> fst (nb_Len b) = int (length (wire b)) \<and>
     nb_wf (snd (nb_Len b)) \<and> leaves (snd (nb_Len b)) = leaves b"
proof (induction n and b rule: nnode.induct nbuf.induct)
  case (NNode blk)
  then show ?case by (simp add: block_Len_data)
next
  case (NBuf b)
  then show ?case by (auto simp: wire_def split: prod.splits)
next
  case (NocopyBuffer l num ns d rel)
  from NocopyBuffer.prems have wf: "list_all nn_wf ns"
    and num: "num = int (length (concat (map nn_leaves ns)))" by simp_all
  have ih: "n \<in> set ns \<Longrightarrow> fst (nn_Len n) = int (length (concat (map block_data (nn_leaves n)))) \<and>
     nn_wf (snd (nn_Len n)) \<and> nn_leaves (snd (nn_Len n)) = nn_leaves n" for n
    using NocopyBuffer.IH wf by (simp add: list_all_iff)
  have same: "concat (map (\<lambda>n. nn_leaves (snd (nn_Len n))) ns) = concat (map nn_leaves ns)"
    using ih by (simp cong: map_cong)
  have wf': "list_all nn_wf (map snd (map nn_Len ns))"
    using ih by (simp add: list_all_iff)
  have "sum_list (map fst (map nn_Len ns)) =
      sum_list (map (\<lambda>n. int (length (concat (map block_data (nn_leaves n))))) ns)"
    using ih by (simp add: comp_def cong: map_cong)
  also have "\<dots> = int (length (concat (map block_data (concat (map nn_leaves ns)))))"
    by (induction ns) simp_all
  finally have total: "sum_list (map fst (map nn_Len ns)) =
      int (length (concat (map block_data (concat (map nn_leaves ns)))))" .
  show ?case
    using NocopyBuffer.prems num wf' total same
    by (simp add: wire_def Let_def comp_def)
qed

lemma nb_Len_wire: "nb_wf b \<Longrightarrow> fst (nb_Len b) = int (length (wire b))"
  using Len_wire_aux(2) by blast

subsection \<open>A message appended to a written header\<close>

definition nn_data :: "nnode \<Rightarrow> byte list" where
  "nn_data n = concat (map block_data (nn_leaves n))"

lemma nn_Len_data:
  assumes "nn_wf n"
  shows "fst (nn_Len n) = int (length (nn_data n))" and "nn_wf (snd (nn_Len n))"
    and "nn_data (snd (nn_Len n)) = nn_data n"
  using Len_wire_aux(1) [OF assms] by (simp_all add: nn_data_def)

text \<open>
  The two ways the encoders return: the written header alone, or the header with a message
  mounted behind it.
\<close>

lemma buffer_of_writer:
  assumes "yields bs m"
  shows "\<exists>b. and_then m (\<lambda>w. Ok (NewNocopyBuffer [MWriter w])) = Ok b \<and> nb_wf b \<and> wire b = bs"
proof -
  obtain w where w: "m = Ok w" "writer_ok w" "contents w = bs"
    using assms by (auto simp: yields_def)
  have "nb_wf (NewNocopyBuffer [MWriter w])"
    using w(2) by (simp add: NewNocopyBuffer_def Mount_def addToTail_def block_ok_def)
  then show ?thesis
    using w by (simp add: wire_New1)
qed

lemma buffer_of_writer_message:
  assumes "yields bs m" and "nn_wf n"
  shows "\<exists>b. and_then m (\<lambda>w. Ok (NewNocopyBuffer [MWriter w, MNode n])) = Ok b \<and>
    nb_wf b \<and> wire b = bs @ nn_data n"
proof -
  obtain w where w: "m = Ok w" "writer_ok w" "contents w = bs"
    using assms by (auto simp: yields_def)
  have "nb_wf (NewNocopyBuffer [MWriter w])"
    using w(2) by (simp add: NewNocopyBuffer_def Mount_def addToTail_def block_ok_def)
  then have "nb_wf (Mount (NewNocopyBuffer [MWriter w]) (MNode n) [])"
    using assms(2) by (intro wf_Mount) simp_all
  then have "nb_wf (NewNocopyBuffer [MWriter w, MNode n])"
    by (simp add: NewNocopyBuffer_def)
  then show ?thesis
    using w by (simp add: wire_New2 nn_data_def)
qed

subsection \<open>Release\<close>

primrec release_times :: "nat \<Rightarrow> nbuf \<Rightarrow> block list \<times> nbuf" where
  "release_times 0 b = ([], b)"
| "release_times (Suc k) b =
     (case nb_Release b of (bs, b') \<Rightarrow> (case release_times k b' of (cs, b'') \<Rightarrow> (bs @ cs, b'')))"

lemma release_released: "nb_released b \<Longrightarrow> fst (nb_Release b) = [] \<and> nb_released (snd (nb_Release b))"
  by (cases b) (simp add: Let_def)

lemma release_times_released: "nb_released b \<Longrightarrow> fst (release_times k b) = []"
proof (induction k arbitrary: b)
  case 0
  then show ?case by simp
next
  case (Suc k)
  obtain bs b' where rel: "nb_Release b = (bs, b')"
    by fastforce
  then have "bs = []" and "nb_released b'"
    using release_released [OF Suc.prems] by simp_all
  then show ?case
    using rel Suc.IH [of b'] by (simp split: prod.splits)
qed

lemma sint_delay: "k < 2 ^ 31 \<Longrightarrow> sint (word_of_nat k :: int32) = int k"
  by (simp add: signed_of_nat signed_take_bit_int_eq_self)

lemma release_step_delay:
  assumes "k < 2 ^ 31" and "0 < k"
  shows "nb_Release (NocopyBuffer l num ns (word_of_nat (Suc k)) False) =
         ([], NocopyBuffer l num ns (word_of_nat k) False)"
  using assms by (simp add: Let_def sint_delay)

lemma release_last_delay:
  "nb_Release (NocopyBuffer l num ns 1 False) =
     (concat (map nn_Release ns), NocopyBuffer (-1) 0 [] 0 True)"
  by (simp add: Let_def)

lemma release_times_delay:
  assumes "Suc k < 2 ^ 31"
  shows "fst (release_times j (NocopyBuffer l num ns (word_of_nat (Suc k)) False)) =
         (if j \<le> k then [] else concat (map nn_Release ns))"
  using assms
proof (induction j arbitrary: k)
  case 0
  then show ?case by simp
next
  case (Suc j)
  show ?case
  proof (cases k)
    case 0
    then show ?thesis
      using release_last_delay [of l num ns]
        release_times_released [of "NocopyBuffer (-1) 0 [] 0 True" j]
      by (auto split: prod.splits)
  next
    case (Suc m)
    then show ?thesis
      using Suc.prems release_step_delay [of "Suc m" l num ns] Suc.IH [of m]
      by (auto split: prod.splits simp del: nb_Release.simps)
  qed
qed

section \<open>Properties\<close>

definition collect :: "block \<Rightarrow> byte list \<Rightarrow> bool \<times> byte list" where
  "collect blk acc = (True, acc @ block_data blk)"

lemma visit_list_collect:
  "visit_list collect bs acc = (True, acc @ concat (map block_data bs))"
  by (induction bs arbitrary: acc) (simp_all add: collect_def)

text \<open>
  the three views of a well-formed buffer agree, however deeply buffers are nested in it:
  \<open>Bytes\<close> is the concatenation of the blocks, \<open>Len\<close> is its length, and visiting the blocks in
  order passes exactly these bytes to the visitor.
\<close>

lemma nocopy_views_agree:
  assumes "nb_wf b"
  shows "nb_Bytes b = Ok (wire b) \<and> fst (nb_Len b) = int (length (wire b)) \<and>
    Visit collect b [] = (True, wire b)"
  using nb_Bytes_wire [OF assms] nb_Len_wire [OF assms]
  by (simp add: Visit_leaves visit_list_collect wire_def)

lemma nocopy_views_agree_witness:
  "let b = NewNocopyBuffer [MRaw [1], MNode (NBuf (NewNocopyBuffer [MRaw [2, 3], MRaw []])), MRaw [4]]
   in nb_Bytes b = Ok (wire b) \<and> fst (nb_Len b) = int (length (wire b)) \<and> Visit collect b [] = (True, wire b)"
  unfolding Let_def
  by (rule nocopy_views_agree) (simp add: NewNocopyBuffer_def Mount_def addToTail_def block_ok_def)

text \<open>
  Mounting adds a block at the chosen end of the wire bytes and keeps the buffer well-formed.
\<close>

lemma Mount_wire:
  assumes "nb_wf b" and "mount_node m = Some n" and "nn_wf n"
  shows "nb_wf (Mount b m whence)"
    and "wire (Mount b m whence) =
      (if whence \<noteq> [] \<and> hd whence = Head then nn_data n @ wire b else wire b @ nn_data n)"
  using assms wf_Mount [of b m whence]
  by (auto simp: Mount_eq wire_def nn_data_def leaves_addToHead leaves_addToTail)

text \<open>
  a buffer whose release is delayed \<open>k + 1\<close> times gives its blocks back exactly once: the
  first \<open>k\<close> releases return nothing, the next one returns every block, and no later one returns
  anything again.
\<close>

lemma delayed_release_once:
  assumes "\<not> nb_released b" and "Suc k < 2 ^ 31"
  shows "fst (release_times j (Delay b (word_of_nat (Suc k)))) =
    (if j \<le> k then [] else concat (map nn_Release (nb_nodes b)))"
  using assms release_times_delay [OF assms(2), of j "nb_len b" "nb_num b" "nb_nodes b"]
  by (cases b) (simp add: Delay_def)

lemma delayed_release_once_witness:
  "fst (release_times 5 (Delay (NewNocopyBuffer [MRaw [1, 2]]) (word_of_nat (Suc 2)))) =
    (if 5 \<le> (2::nat) then [] else concat (map nn_Release (nb_nodes (NewNocopyBuffer [MRaw [1, 2]]))))"
  by (rule delayed_release_once) (simp_all add: NewNocopyBuffer_def Mount_def addToTail_def)

end
