(* ===== verification/Packet.thy ===== *)
theory Packet
  imports Go_Nocopy
begin

text \<open>
  The client packet codec of \<open>packet/packer.go\<close> with its options: packing into one byte slice and
  into a no-copy buffer, unpacking, framing on a byte stream, heartbeats.  A stream is the list
  of bytes that are still to arrive before it ends.
\<close>

unbundle bit_operations_syntax

section \<open>Options and messages\<close>

record options =
  byteOrder :: byte_order
  routeBytes :: int
  seqBytes :: int
  bufferBytes :: int
  heartbeatTime :: bool

record Message =
  Seq :: int32
  Route :: int32
  Buffer :: "byte list"

record defaultPacker =
  opts :: options
  heartbeat :: "byte list"

definition defaultSizeBytes :: int where "defaultSizeBytes = 4"
definition defaultHeaderBytes :: int where "defaultHeaderBytes = 1"
definition defaultHeartbeatTimeBytes :: int where "defaultHeartbeatTimeBytes = 8"
definition dataBit :: uint8 where "dataBit = push_bit 7 0"
definition heartbeatBit :: uint8 where "heartbeatBit = push_bit 7 1"

lemmas packet_consts [simp] =
  defaultSizeBytes_def defaultHeaderBytes_def defaultHeartbeatTimeBytes_def

lemma dataBit_0 [simp]: "dataBit = 0"
  by (simp add: dataBit_def)

lemma heartbeatBit_128 [simp]: "heartbeatBit = 128"
  by (simp add: heartbeatBit_def)

text \<open>
  The defaults: \<open>cfgInt\<close>, \<open>cfgBool\<close>, \<open>cfgString\<close> are the configuration lookups of the \<open>etc\<close>
  package (key and default to value); \<open>lower\<close> is \<open>strings.ToLower\<close>.
\<close>

definition defaultOptions ::
    "(string \<Rightarrow> int \<Rightarrow> int) \<Rightarrow> (string \<Rightarrow> bool \<Rightarrow> bool) \<Rightarrow> (string \<Rightarrow> string \<Rightarrow> string) \<Rightarrow>
     (string \<Rightarrow> string) \<Rightarrow> options" where
  "defaultOptions cfgInt cfgBool cfgString lower =
     (let o1 = \<lparr>byteOrder = BigEndian,
                routeBytes = cfgInt ''etc.packet.routeBytes'' 2,
                seqBytes = cfgInt ''etc.packet.seqBytes'' 2,
                bufferBytes = cfgInt ''etc.packet.bufferBytes'' 5000,
                heartbeatTime = cfgBool ''etc.packet.heartbeatTime'' False\<rparr>;
          endian = lower (cfgString ''etc.packet.byteOrder'' ''big'')
      in if endian = ''little'' then o1\<lparr>byteOrder := LittleEndian\<rparr>
         else if endian = ''big'' then o1\<lparr>byteOrder := BigEndian\<rparr>
         else o1)"

definition makeHeartbeat :: "byte_order \<Rightarrow> byte list" where
  "makeHeartbeat order =
     put_uint order 4 (word_of_int defaultHeaderBytes :: uint32) @ put_uint order 1 heartbeatBit"

text \<open>\<open>NewPacker\<close> ends the process (\<open>log.Fatalf\<close>, here \<open>Panic\<close>) on widths it does not support.\<close>

definition NewPacker :: "options \<Rightarrow> (options \<Rightarrow> options) list \<Rightarrow> defaultPacker res" where
  "NewPacker defaults os =
     (let o1 = foldl (\<lambda>acc f. f acc) defaults os
      in if routeBytes o1 \<noteq> 1 \<and> routeBytes o1 \<noteq> 2 \<and> routeBytes o1 \<noteq> 4 then Panic
         else if seqBytes o1 \<noteq> 0 \<and> seqBytes o1 \<noteq> 1 \<and> seqBytes o1 \<noteq> 2 \<and> seqBytes o1 \<noteq> 4 then Panic
         else if bufferBytes o1 < 0 then Panic
         else Ok \<lparr>opts = o1, heartbeat = makeHeartbeat (byteOrder o1)\<rparr>)"

section \<open>Packing\<close>

text \<open>
  \<open>v > int32(1<<(8*n-1)-1) || v < int32(-1<<(8*n-1))\<close>: the shifts are 32-bit shifts, the
  comparisons signed.
\<close>

definition overflows :: "int \<Rightarrow> int32 \<Rightarrow> bool" where
  "overflows n v \<longleftrightarrow>
     sint v > sint (push_bit (nat (8 * n - 1)) (1 :: int32) - 1) \<or>
     sint v < sint (push_bit (nat (8 * n - 1)) (- 1 :: int32))"

definition check_message :: "options \<Rightarrow> Message \<Rightarrow> unit res" where
  "check_message o1 m =
     (if overflows (routeBytes o1) (Route m) then Err ErrRouteOverflow
      else if seqBytes o1 > 0 \<and> overflows (seqBytes o1) (Seq m) then Err ErrSeqOverflow
      else if int (length (Buffer m)) > bufferBytes o1 then Err ErrMessageTooLarge
      else Ok ())"

definition write_field :: "byte_order \<Rightarrow> int \<Rightarrow> int32 \<Rightarrow> Writer \<Rightarrow> Writer res" where
  "write_field order n v w =
     (if n = 1 then WriteInt8s w [ucast v]
      else if n = 2 then WriteInt16s w order [ucast v]
      else if n = 4 then WriteInt32s w order [v]
      else Ok w)"

definition PackBuffer :: "Writer pools \<Rightarrow> defaultPacker \<Rightarrow> Message \<Rightarrow> nbuf res" where
  "PackBuffer ps p m =
     (let o1 = opts p in
      and_then (check_message o1 m) (\<lambda>_.
      let size = defaultHeaderBytes + routeBytes o1 + seqBytes o1 + int (length (Buffer m));
          writer = run_writes
            (MallocWriter ps (defaultSizeBytes + defaultHeaderBytes + routeBytes o1 + seqBytes o1))
            [\<lambda>w. WriteInt32s w (byteOrder o1) [word_of_int size],
             \<lambda>w. WriteInt8s w [dataBit],
             \<lambda>w. write_field (byteOrder o1) (routeBytes o1) (Route m) w,
             \<lambda>w. write_field (byteOrder o1) (seqBytes o1) (Seq m) w]
      in and_then writer (\<lambda>w. Ok (NewNocopyBuffer [MWriter w, MRaw (Buffer m)]))))"

text \<open>\<open>binary.Write\<close> of a fixed-size value appends its bytes to a \<open>bytes.Buffer\<close>.\<close>

definition field_bytes :: "byte_order \<Rightarrow> int \<Rightarrow> int32 \<Rightarrow> byte list" where
  "field_bytes order n v =
     (if n = 1 then put_uint order 1 (ucast v :: int8)
      else if n = 2 then put_uint order 2 (ucast v :: int16)
      else if n = 4 then put_uint order 4 v
      else [])"

definition PackMessage :: "defaultPacker \<Rightarrow> Message \<Rightarrow> byte list res" where
  "PackMessage p m =
     (let o1 = opts p in
      and_then (check_message o1 m) (\<lambda>_.
      let size = defaultHeaderBytes + routeBytes o1 + seqBytes o1 + int (length (Buffer m));
          buf = put_uint (byteOrder o1) 4 (word_of_int size :: int32);
          buf = buf @ put_uint (byteOrder o1) 1 dataBit;
          buf = buf @ field_bytes (byteOrder o1) (routeBytes o1) (Route m);
          buf = buf @ field_bytes (byteOrder o1) (seqBytes o1) (Seq m);
          buf = buf @ Buffer m
      in Ok buf))"

definition PackHeartbeat :: "defaultPacker \<Rightarrow> int64 \<Rightarrow> byte list res" where
  "PackHeartbeat p now =
     (if heartbeatTime (opts p) then
        let order = byteOrder (opts p); size = defaultHeaderBytes + defaultHeartbeatTimeBytes
        in Ok (put_uint order 4 (word_of_int size :: uint32) @ put_uint order 1 heartbeatBit @
               put_uint order 8 now)
      else Ok (heartbeat p))"

section \<open>Unpacking\<close>

text \<open>\<open>binary.Read\<close> of an \<open>n\<close>-byte value from a \<open>bytes.Reader\<close>: the value and what is left.\<close>

definition bin_read :: "byte_order \<Rightarrow> nat \<Rightarrow> byte list \<Rightarrow> ('a::len word \<times> byte list) res" where
  "bin_read order n r =
     (if n \<le> length r then Ok (get_uint order (take n r), drop n r)
      else if r = [] then Err ErrEOF else Err ErrUnexpectedEOF)"

definition read_field :: "byte_order \<Rightarrow> int \<Rightarrow> byte list \<Rightarrow> (int32 \<times> byte list) res" where
  "read_field order n r =
     (if n = 1 then and_then (bin_read order 1 r) (\<lambda>(v :: int8, r'). Ok (scast v, r'))
      else if n = 2 then and_then (bin_read order 2 r) (\<lambda>(v :: int16, r'). Ok (scast v, r'))
      else if n = 4 then bin_read order 4 r
      else Ok (0, r))"

definition UnpackMessage :: "defaultPacker \<Rightarrow> byte list \<Rightarrow> Message res" where
  "UnpackMessage p data =
     (let o1 = opts p;
          ln = defaultSizeBytes + defaultHeaderBytes + routeBytes o1 + seqBytes o1
      in if int (length data) - ln < 0 then Err ErrInvalidMessage
         else and_then (bin_read (byteOrder o1) 4 data) (\<lambda>(size :: uint32, r).
         if int (length data) - defaultSizeBytes \<noteq> uint size then Err ErrInvalidMessage
         else and_then (bin_read (byteOrder o1) 1 r) (\<lambda>(header :: uint8, r).
         if header AND dataBit \<noteq> dataBit then Err ErrInvalidMessage
         else and_then (read_field (byteOrder o1) (routeBytes o1) r) (\<lambda>(route, r).
         and_then (read_field (byteOrder o1) (seqBytes o1) r) (\<lambda>(seq, r).
         Ok \<lparr>Seq = seq, Route = route, Buffer = drop (nat ln) data\<rparr>)))))"

definition CheckHeartbeat :: "defaultPacker \<Rightarrow> byte list \<Rightarrow> bool res" where
  "CheckHeartbeat p data =
     (if int (length data) < defaultSizeBytes + defaultHeaderBytes then Err ErrInvalidMessage
      else and_then (bin_read (byteOrder (opts p)) 4 data) (\<lambda>(size :: uint32, r).
      if int (length data) - defaultSizeBytes \<noteq> uint size then Err ErrInvalidMessage
      else and_then (bin_read (byteOrder (opts p)) 1 r) (\<lambda>(header :: uint8, r).
      Ok (header AND heartbeatBit = heartbeatBit))))"

section \<open>Framing on a stream\<close>

text \<open>
  \<open>ReadMessage\<close>: a size of 0 gives a nil frame.  \<open>int(defaultSizeBytes+size)\<close> adds in 32 bits;
  \<open>data[:defaultSizeBytes]\<close> panics when the sum has wrapped below 4.
\<close>

definition ReadMessage :: "defaultPacker \<Rightarrow> byte list \<Rightarrow> (byte list option \<times> byte list) res" where
  "ReadMessage p s =
     and_then (ReadFull s 4) (\<lambda>(buf, s).
     let size = (get_uint (byteOrder (opts p)) buf :: uint32)
     in if size = 0 then Ok (None, s)
        else let n = unat (4 + size :: uint32)
             in if n < 4 then Panic
                else and_then (ReadFull s (n - 4)) (\<lambda>(rest, s). Ok (Some (buf @ rest), s)))"

text \<open>
  \<open>ReadBuffer\<close> reads the size into a pooled block of 4 bytes, the frame into another pooled block,
  and releases the first one on return (and the second one when the read fails).
\<close>

definition ReadBuffer ::
    "Bytes pools \<Rightarrow> defaultPacker \<Rightarrow> byte list \<Rightarrow> ((Bytes option \<times> byte list) \<times> Bytes pools) res" where
  "ReadBuffer ps p s =
     and_then (MallocBytes ps defaultSizeBytes) (\<lambda>(buf1, ps).
     case buf1 of None \<Rightarrow> Panic | Some buf1 \<Rightarrow>
     and_then (ReadFull s 4) (\<lambda>(hdr, s).
     let buf1 = bytes_fill buf1 0 hdr; size = (get_uint (byteOrder (opts p)) hdr :: uint32)
     in if size = 0 then Ok ((None, s), snd (Bytes_Release ps buf1))
        else let n = unat (4 + size :: uint32)
             in and_then (MallocBytes ps (int n)) (\<lambda>(buf2, ps).
                case buf2 of None \<Rightarrow> Panic | Some buf2 \<Rightarrow>
                if n < 4 then Panic
                else let buf2 = bytes_fill buf2 0 hdr
                     in and_then (ReadFull s (n - 4)) (\<lambda>(rest, s).
                        Ok ((Some (bytes_fill buf2 4 rest), s), snd (Bytes_Release ps buf1))))))"

text \<open>
  The variant over a reader that lends its memory; the reader is not part of the repository, so
  its four operations are arguments.
\<close>

definition nocopyReadMessage ::
    "('r \<Rightarrow> nat \<Rightarrow> byte list res) \<Rightarrow> ('r \<Rightarrow> nat \<Rightarrow> ('r \<times> 'r) res) \<Rightarrow>
     ('r \<Rightarrow> nat \<Rightarrow> (byte list \<times> 'r) res) \<Rightarrow> ('r \<Rightarrow> 'r res) \<Rightarrow>
     defaultPacker \<Rightarrow> 'r \<Rightarrow> (byte list option \<times> 'r) res" where
  "nocopyReadMessage peek slc nxt rel p reader =
     and_then (peek reader 4) (\<lambda>buf.
     let size = (if byteOrder (opts p) = BigEndian then get_uint BigEndian buf
                 else get_uint LittleEndian buf :: uint32)
     in if size = 0 then Ok (None, reader)
        else let n = unat (4 + size :: uint32)
             in and_then (slc reader n) (\<lambda>(r, reader).
                and_then (nxt r n) (\<lambda>(buf, r).
                and_then (rel reader) (\<lambda>reader. Ok (Some buf, reader)))))"

section \<open>Lemmas\<close>

definition packer_ok :: "defaultPacker \<Rightarrow> bool" where
  "packer_ok p \<longleftrightarrow>
     routeBytes (opts p) \<in> {1, 2, 4} \<and> seqBytes (opts p) \<in> {0, 1, 2, 4} \<and>
     0 \<le> bufferBytes (opts p) \<and> heartbeat p = makeHeartbeat (byteOrder (opts p))"

lemma NewPacker_ok: "NewPacker defaults os = Ok p \<Longrightarrow> packer_ok p"
  by (auto simp: NewPacker_def packer_ok_def Let_def split: if_splits)

text \<open>What the overflow checks accept: the signed range of the field.\<close>

lemma overflows_1: "overflows 1 v \<longleftrightarrow> \<not> (- 128 \<le> sint v \<and> sint v < 128)"
  by (auto simp: overflows_def push_bit_eq_mult)

lemma overflows_2: "overflows 2 v \<longleftrightarrow> \<not> (- 32768 \<le> sint v \<and> sint v < 32768)"
  by (auto simp: overflows_def push_bit_eq_mult)

lemma overflows_4: "\<not> overflows 4 v"
  using sint_ge [of v] sint_lt [of v] by (simp add: overflows_def push_bit_eq_mult)

lemmas overflows_simps = overflows_1 overflows_2 overflows_4

lemma length_field_bytes: "n \<in> {0, 1, 2, 4} \<Longrightarrow> int (length (field_bytes order n v)) = n"
  by (auto simp: field_bytes_def)

lemma bin_read_append:
  "length bs = n \<Longrightarrow> bin_read order n (bs @ r) = Ok (get_uint order bs, r)"
  by (simp add: bin_read_def)

lemma bin_read_byte: "bin_read order (Suc 0) (b # r) = Ok (b :: 8 word, r)"
  by (simp add: bin_read_def)

lemma read_field_bytes:
  assumes "n \<in> {1, 2, 4}" and "\<not> overflows n v"
  shows "read_field order n (field_bytes order n v @ r) = Ok (v, r)"
  using assms
  by (auto simp: read_field_def field_bytes_def bin_read_append bin_read_byte
      overflows_simps scast_ucast8
      scast_ucast16)

definition frame_size :: "options \<Rightarrow> Message \<Rightarrow> int" where
  "frame_size o1 m = 1 + routeBytes o1 + seqBytes o1 + int (length (Buffer m))"

lemma PackMessage_eq:
  "PackMessage p m =
     and_then (check_message (opts p) m) (\<lambda>_. Ok (
       put_uint (byteOrder (opts p)) 4 (word_of_int (frame_size (opts p) m) :: int32) @ [0] @
       field_bytes (byteOrder (opts p)) (routeBytes (opts p)) (Route m) @
       field_bytes (byteOrder (opts p)) (seqBytes (opts p)) (Seq m) @ Buffer m))"
  by (simp add: PackMessage_def frame_size_def Let_def)

lemma frame_size_bounds:
  assumes "packer_ok p" and "length (Buffer m) + 9 < 2 ^ 32"
  shows "0 < frame_size (opts p) m" and "frame_size (opts p) m + 4 < 2 ^ 32 + 4"
    and "uint (word_of_int (frame_size (opts p) m) :: 32 word) = frame_size (opts p) m"
proof -
  have r: "0 < routeBytes (opts p)" "routeBytes (opts p) \<le> 4"
    and q: "0 \<le> seqBytes (opts p)" "seqBytes (opts p) \<le> 4"
    using assms(1) by (auto simp: packer_ok_def)
  have l: "int (length (Buffer m)) + 9 < 2 ^ 32"
    using assms(2) by simp
  show pos: "0 < frame_size (opts p) m"
    using r q by (simp add: frame_size_def)
  have lt: "frame_size (opts p) m < 2 ^ 32"
    using r q l by (simp add: frame_size_def)
  then show "frame_size (opts p) m + 4 < 2 ^ 32 + 4" by simp
  show "uint (word_of_int (frame_size (opts p) m) :: 32 word) = frame_size (opts p) m"
    using pos lt by (simp add: uint_word_of_int)
qed

lemma check_message_Ok:
  "check_message o1 m = Ok u \<longleftrightarrow>
     \<not> overflows (routeBytes o1) (Route m) \<and>
     (seqBytes o1 > 0 \<longrightarrow> \<not> overflows (seqBytes o1) (Seq m)) \<and>
     int (length (Buffer m)) \<le> bufferBytes o1"
  by (auto simp: check_message_def)

lemma PackMessage_length:
  assumes "packer_ok p" and "PackMessage p m = Ok data"
  shows "int (length data) = 4 + frame_size (opts p) m"
  using assms length_field_bytes [of "routeBytes (opts p)"] length_field_bytes [of "seqBytes (opts p)"]
  by (auto simp: PackMessage_eq and_then_Ok_iff frame_size_def packer_ok_def)

lemma read_seq_bytes:
  assumes "n \<in> {0, 1, 2, 4}" and "0 < n \<longrightarrow> \<not> overflows n v"
  shows "read_field order n (field_bytes order n v @ r) = Ok (if n = 0 then 0 else v, r)"
proof (cases "n = 0")
  case True
  then show ?thesis by (simp add: read_field_def field_bytes_def)
next
  case False
  then show ?thesis using assms read_field_bytes [of n v order r] by auto
qed

text \<open>Unpacking gives back what was packed; without sequence bytes the sequence number is 0.\<close>

lemma Unpack_Pack:
  assumes ok: "packer_ok p" and pack: "PackMessage p m = Ok data"
    and small: "length (Buffer m) + 9 < 2 ^ 32"
  shows "UnpackMessage p data = Ok (m\<lparr>Seq := if seqBytes (opts p) = 0 then 0 else Seq m\<rparr>)"
proof -
  let ?o = "opts p"
  have chk: "check_message ?o m = Ok ()"
    using pack by (auto simp: PackMessage_eq and_then_Ok_iff)
  let ?r = "field_bytes (byteOrder ?o) (routeBytes ?o) (Route m)"
  let ?s = "field_bytes (byteOrder ?o) (seqBytes ?o) (Seq m)"
  have data: "data = put_uint (byteOrder ?o) 4 (word_of_int (frame_size ?o m) :: uint32) @
      0 # ?r @ ?s @ Buffer m"
    using pack chk by (simp add: PackMessage_eq)
  have len: "int (length data) = 4 + frame_size ?o m"
    by (rule PackMessage_length [OF ok pack])
  have widths: "routeBytes ?o \<in> {1, 2, 4}" "seqBytes ?o \<in> {0, 1, 2, 4}"
    using ok by (simp_all add: packer_ok_def)
  have lr: "int (length ?r) = routeBytes ?o" and ls: "int (length ?s) = seqBytes ?o"
    using widths by (auto intro: length_field_bytes)
  then have "nat (5 + routeBytes ?o + seqBytes ?o) = length
      (put_uint (byteOrder ?o) 4 (word_of_int (frame_size ?o m) :: uint32) @ 0 # ?r @ ?s)"
    by (simp add: nat_eq_iff)
  then have body: "drop (nat (5 + routeBytes ?o + seqBytes ?o)) data = Buffer m"
    using data by simp
  have route: "read_field (byteOrder ?o) (routeBytes ?o) (?r @ ?s @ Buffer m) =
      Ok (Route m, ?s @ Buffer m)"
    using read_field_bytes widths chk by (simp add: check_message_Ok)
  have seq: "read_field (byteOrder ?o) (seqBytes ?o) (?s @ Buffer m) =
      Ok (if seqBytes ?o = 0 then 0 else Seq m, Buffer m)"
    using read_seq_bytes widths chk by (simp add: check_message_Ok)
  have "bin_read (byteOrder ?o) 4 data =
      Ok (word_of_int (frame_size ?o m) :: uint32, 0 # ?r @ ?s @ Buffer m)"
    by (simp add: data bin_read_append)
  moreover have "bin_read (byteOrder ?o) 1 (0 # ?r @ ?s @ Buffer m) =
      Ok (0 :: uint8, ?r @ ?s @ Buffer m)"
    by (simp add: bin_read_byte)
  ultimately show ?thesis
    using len body route seq frame_size_bounds [OF ok small]
    by (simp add: UnpackMessage_def Let_def frame_size_def)
qed

text \<open>Packing into a no-copy buffer produces the same bytes.\<close>

lemma emit_field: "emit (\<lambda>w. write_field order n v w) (field_bytes order n v)"
  using wr_i8s.emit_put [of "[ucast v]"] wr_i16s.emit_put [of order "[ucast v]"]
    wr_i32s.emit_put [of order "[v]"] emit_Ok
  by (simp add: write_field_def field_bytes_def)

lemma PackBuffer_Pack:
  assumes "wpools_ok ps" and "packer_ok p" and "PackMessage p m = Ok data"
  shows "\<exists>b. PackBuffer ps p m = Ok b \<and> nb_wf b \<and> wire b = data"
proof -
  let ?o = "opts p"
  have chk: "check_message ?o m = Ok ()"
    using assms(3) by (auto simp: PackMessage_eq and_then_Ok_iff)
  let ?head = "put_uint (byteOrder ?o) 4 (word_of_int (frame_size ?o m) :: int32) @ [0] @
       field_bytes (byteOrder ?o) (routeBytes ?o) (Route m) @
       field_bytes (byteOrder ?o) (seqBytes ?o) (Seq m)"
  have data: "data = ?head @ Buffer m"
    using assms(3) chk by (simp add: PackMessage_eq)
  have "0 < defaultSizeBytes + defaultHeaderBytes + routeBytes ?o + seqBytes ?o"
    using assms(2) by (auto simp: packer_ok_def)
  from yields_Malloc [OF assms(1) this] have "yields ?head (run_writes (MallocWriter ps
          (defaultSizeBytes + defaultHeaderBytes + routeBytes ?o + seqBytes ?o))
        [\<lambda>w. WriteInt32s w (byteOrder ?o) [word_of_int (frame_size ?o m)],
         \<lambda>w. WriteInt8s w [dataBit],
         \<lambda>w. write_field (byteOrder ?o) (routeBytes ?o) (Route m) w,
         \<lambda>w. write_field (byteOrder ?o) (seqBytes ?o) (Seq m) w])"
    by (rule yields_run) ((rule emits_intros emit_field)+, simp)
  then obtain w where w: "writer_ok w" "contents w = ?head"
      "PackBuffer ps p m = Ok (NewNocopyBuffer [MWriter w, MRaw (Buffer m)])"
    using chk by (auto simp: yields_def PackBuffer_def Let_def frame_size_def)
  moreover have "nb_wf (NewNocopyBuffer [MWriter w, MRaw (Buffer m)])"
    using w(1) by (simp add: NewNocopyBuffer_def Mount_def addToTail_def block_ok_def)
  moreover have "wire (NewNocopyBuffer [MWriter w, MRaw (Buffer m)]) = data"
    using w(2) data by (simp add: wire_New2 block_data_def)
  ultimately show ?thesis by blast
qed

subsection \<open>Framing\<close>

text \<open>The reader of a stream cuts off exactly one packed frame.\<close>

lemma ReadMessage_frame:
  assumes ok: "packer_ok p" and pack: "PackMessage p m = Ok data"
    and small: "length (Buffer m) + 13 < 2 ^ 32"
  shows "ReadMessage p (data @ rest) = Ok (Some data, rest)"
proof -
  let ?o = "opts p"
  let ?size = "word_of_int (frame_size ?o m) :: uint32"
  have small9: "length (Buffer m) + 9 < 2 ^ 32"
    using small by simp
  obtain body where data: "data = put_uint (byteOrder ?o) 4 ?size @ body"
    using pack by (auto simp: PackMessage_eq and_then_Ok_iff)
  have len: "int (length data) = 4 + frame_size ?o m"
    by (rule PackMessage_length [OF ok pack])
  have pos: "0 < frame_size ?o m"
    by (rule frame_size_bounds(1) [OF ok small9])
  have u: "uint ?size = frame_size ?o m"
    by (rule frame_size_bounds(3) [OF ok small9])
  have nz: "?size \<noteq> 0"
  proof
    assume "?size = 0"
    then have "uint ?size = 0" by simp
    with u pos show False by simp
  qed
  have lt: "frame_size ?o m + 4 < 2 ^ 32"
  proof -
    have "routeBytes ?o \<le> 4" "seqBytes ?o \<le> 4"
      using ok by (auto simp: packer_ok_def)
    moreover have "int (length (Buffer m)) + 13 < 2 ^ 32"
      using small by simp
    ultimately show ?thesis by (simp add: frame_size_def)
  qed
  have n: "unat (4 + ?size) = nat (frame_size ?o m) + 4"
    using unat_size_plus4 [OF _ lt] pos by simp
  have body: "length body = nat (frame_size ?o m)"
    using len data pos by simp
  have "ReadFull (data @ rest) 4 = Ok (put_uint (byteOrder ?o) 4 ?size, body @ rest)"
    by (simp add: data ReadFull_append)
  moreover have "ReadFull (body @ rest) (unat (4 + ?size) - 4) = Ok (body, rest)"
    using n body by (simp add: ReadFull_append)
  ultimately show ?thesis
    using nz n data by (simp add: ReadMessage_def Let_def)
qed

primrec read_frames :: "defaultPacker \<Rightarrow> nat \<Rightarrow> byte list \<Rightarrow> (byte list option list \<times> byte list) res" where
  "read_frames p 0 s = Ok ([], s)"
| "read_frames p (Suc k) s =
     and_then (ReadMessage p s) (\<lambda>(f, s'). and_then (read_frames p k s') (\<lambda>(fs, s''). Ok (f # fs, s'')))"

lemma read_frames_packed:
  assumes "packer_ok p"
    and "list_all2 (\<lambda>m d. PackMessage p m = Ok d \<and> length (Buffer m) + 13 < 2 ^ 32) ms ds"
  shows "read_frames p (length ms) (concat ds @ rest) = Ok (map Some ds, rest)"
  using assms(2)
proof (induction ms ds rule: list_all2_induct)
  case Nil
  then show ?case by simp
next
  case (Cons m ms d ds)
  then have "ReadMessage p (d @ concat ds @ rest) = Ok (Some d, concat ds @ rest)"
    using ReadMessage_frame [OF assms(1), of m d] by blast
  then show ?case
    using Cons.IH by simp
qed

subsection \<open>Heartbeats\<close>

lemma PackHeartbeat_cases:
  assumes "packer_ok p" and "PackHeartbeat p now = Ok hb"
  shows "\<exists>tail. hb = put_uint (byteOrder (opts p)) 4 (word_of_nat (1 + length tail) :: uint32) @ 128 # tail \<and>
    tail = (if heartbeatTime (opts p) then put_uint (byteOrder (opts p)) 8 now else [])"
  using assms by (auto simp: PackHeartbeat_def packer_ok_def makeHeartbeat_def Let_def split: if_splits)

lemma CheckHeartbeat_frame:
  fixes sz :: uint32
  assumes "int (length tail) + 1 = uint sz"
  shows "CheckHeartbeat p (put_uint (byteOrder (opts p)) 4 sz @ h # tail) = Ok (h AND 128 = 128)"
  using assms by (simp add: CheckHeartbeat_def bin_read_append bin_read_byte)

section \<open>Properties\<close>

definition example_packer :: defaultPacker where
  "example_packer =
     \<lparr>opts = \<lparr>byteOrder = BigEndian, routeBytes = 2, seqBytes = 2, bufferBytes = 5000, heartbeatTime = True\<rparr>,
      heartbeat = makeHeartbeat BigEndian\<rparr>"

definition example_message :: Message where
  "example_message = \<lparr>Seq = 7, Route = 300, Buffer = [1, 2, 3]\<rparr>"

lemma example_packer_ok: "packer_ok example_packer"
  by (simp add: packer_ok_def example_packer_def)

lemma example_packs: "PackMessage example_packer example_message =
    Ok [0, 0, 0, 8, 0, 1, 44, 0, 7, 1, 2, 3]"
  by code_simp

text \<open>
  C1: every packer that \<open>NewPacker\<close> returns decodes what it encodes: a packed message unpacks to
  the same route, payload and sequence number (0 when the packer has no sequence field), in both
  byte orders and at every width.
\<close>

theorem unpack_pack:
  assumes "NewPacker defaults os = Ok p" and "PackMessage p m = Ok data"
    and "length (Buffer m) + 9 < 2 ^ 32"
  shows "UnpackMessage p data = Ok (m\<lparr>Seq := if seqBytes (opts p) = 0 then 0 else Seq m\<rparr>)"
  using Unpack_Pack [OF NewPacker_ok [OF assms(1)] assms(2,3)] .

theorem unpack_pack_witness:
  "UnpackMessage example_packer [0, 0, 0, 8, 0, 1, 44, 0, 7, 1, 2, 3] =
     Ok (example_message\<lparr>Seq := if seqBytes (opts example_packer) = 0 then 0 else Seq example_message\<rparr>)"
proof (rule unpack_pack)
  show "NewPacker (opts example_packer) [] = Ok example_packer"
    by (simp add: NewPacker_def example_packer_def)
  show "PackMessage example_packer example_message = Ok [0, 0, 0, 8, 0, 1, 44, 0, 7, 1, 2, 3]"
    by (rule example_packs)
  show "length (Buffer example_message) + 9 < 2 ^ 32"
    by (simp add: example_message_def)
qed

text \<open>
  the zero-copy path equals the plain one: for any sound state of the writer pool
  \<open>PackBuffer\<close> succeeds exactly when \<open>PackMessage\<close> does, fails with the same error, and its buffer
  puts the same bytes on the wire.
\<close>

lemma PackBuffer_equiv:
  assumes "wpools_ok ps" and "packer_ok p"
  shows "and_then (PackBuffer ps p m) nb_Bytes = PackMessage p m"
proof (cases "check_message (opts p) m")
  case (Ok u)
  then obtain data where d: "PackMessage p m = Ok data"
    by (simp add: PackMessage_eq)
  then obtain b where "PackBuffer ps p m = Ok b" "nb_wf b" "wire b = data"
    using PackBuffer_Pack [OF assms] by blast
  then show ?thesis
    using nb_Bytes_wire d by simp
qed (simp_all add: PackBuffer_def PackMessage_def Let_def)

lemma PackBuffer_equiv_witness:
  "and_then (PackBuffer (replicate 33 []) example_packer example_message) nb_Bytes =
     PackMessage example_packer example_message"
  by (rule PackBuffer_equiv) (simp_all add: example_packer_ok wpools_ok_eq wpool.pools_ok_empty)

text \<open>
  C2: framing is lossless on a stream: a concatenation of packed messages, followed by anything,
  is cut back into exactly these frames in order, with exactly the rest left unread.
\<close>

theorem stream_of_frames:
  assumes "packer_ok p"
    and "list_all2 (\<lambda>m d. PackMessage p m = Ok d \<and> length (Buffer m) + 13 < 2 ^ 32) ms ds"
  shows "read_frames p (length ms) (concat ds @ rest) = Ok (map Some ds, rest)"
  by (rule read_frames_packed [OF assms])

theorem stream_of_frames_witness:
  "read_frames example_packer (length [example_message, example_message])
     (concat [[0, 0, 0, 8, 0, 1, 44, 0, 7, 1, 2, 3], [0, 0, 0, 8, 0, 1, 44, 0, 7, 1, 2, 3]] @ [9]) =
   Ok (map Some [[0, 0, 0, 8, 0, 1, 44, 0, 7, 1, 2, 3], [0, 0, 0, 8, 0, 1, 44, 0, 7, 1, 2, 3]], [9])"
  by (rule stream_of_frames) (simp_all add: example_packer_ok example_packs, simp_all add: example_message_def)

definition in_field :: "int \<Rightarrow> int32 \<Rightarrow> bool" where
  "in_field n v \<longleftrightarrow> - (2 ^ nat (8 * n - 1)) \<le> sint v \<and> sint v < 2 ^ nat (8 * n - 1)"

lemma overflows_in_field: "n \<in> {1, 2, 4} \<Longrightarrow> overflows n v \<longleftrightarrow> \<not> in_field n v"
  using sint_ge [of v] sint_lt [of v] by (auto simp: overflows_simps in_field_def)

text \<open>
  packing rejects exactly the messages that do not fit: a message is packed if and only if
  its route and (when there is a sequence field) its sequence number are in the signed range of
  their field and the payload is within the configured limit; the packed frame announces its own
  length.
\<close>

lemma pack_accepts:
  assumes "packer_ok p"
  shows "(\<exists>data. PackMessage p m = Ok data \<and> int (length data) = 4 + frame_size (opts p) m) \<longleftrightarrow>
    in_field (routeBytes (opts p)) (Route m) \<and>
    (seqBytes (opts p) = 0 \<or> in_field (seqBytes (opts p)) (Seq m)) \<and>
    int (length (Buffer m)) \<le> bufferBytes (opts p)"
proof -
  have r: "routeBytes (opts p) \<in> {1, 2, 4}" and s: "seqBytes (opts p) \<in> {0, 1, 2, 4}"
    using assms by (simp_all add: packer_ok_def)
  have "(\<exists>data. PackMessage p m = Ok data \<and> int (length data) = 4 + frame_size (opts p) m) \<longleftrightarrow>
      (\<exists>data. PackMessage p m = Ok data)"
    using PackMessage_length [OF assms] by blast
  also have "\<dots> \<longleftrightarrow> check_message (opts p) m = Ok ()"
    by (auto simp: PackMessage_eq and_then_Ok_iff)
  finally show ?thesis
    using overflows_in_field [OF r] overflows_in_field [of "seqBytes (opts p)"] s
    by (auto simp: check_message_Ok)
qed

lemma pack_accepts_witness:
  "(\<exists>data. PackMessage example_packer example_message = Ok data \<and>
      int (length data) = 4 + frame_size (opts example_packer) example_message) \<longleftrightarrow>
    in_field (routeBytes (opts example_packer)) (Route example_message) \<and>
    (seqBytes (opts example_packer) = 0 \<or> in_field (seqBytes (opts example_packer)) (Seq example_message)) \<and>
    int (length (Buffer example_message)) \<le> bufferBytes (opts example_packer)"
  by (rule pack_accepts [OF example_packer_ok])

text \<open>
  a receiver tells heartbeats and messages apart: \<open>CheckHeartbeat\<close> answers true on every
  heartbeat the packer builds and false on every message it packs.
\<close>

lemma heartbeat_distinguished:
  assumes "packer_ok p"
  shows "(PackHeartbeat p now = Ok hb \<longrightarrow> CheckHeartbeat p hb = Ok True) \<and>
    (PackMessage p m = Ok data \<and> length (Buffer m) + 9 < 2 ^ 32 \<longrightarrow> CheckHeartbeat p data = Ok False)"
proof (intro conjI impI)
  assume hb: "PackHeartbeat p now = Ok hb"
  obtain tail where t: "hb = put_uint (byteOrder (opts p)) 4 (word_of_nat (1 + length tail) :: uint32) @ 128 # tail"
      "tail = (if heartbeatTime (opts p) then put_uint (byteOrder (opts p)) 8 now else [])"
    using PackHeartbeat_cases [OF assms hb] by blast
  have "int (length tail) + 1 = uint (word_of_nat (1 + length tail) :: uint32)"
    using t(2) by (cases "heartbeatTime (opts p)") (simp_all add: of_nat_Suc)
  then show "CheckHeartbeat p hb = Ok True"
    unfolding t(1) using CheckHeartbeat_frame [of tail "word_of_nat (1 + length tail)" p 128] by simp
next
  assume "PackMessage p m = Ok data \<and> length (Buffer m) + 9 < 2 ^ 32"
  then have d: "PackMessage p m = Ok data" and l: "length (Buffer m) + 9 < 2 ^ 32" by simp_all
  obtain tail where t: "data = put_uint (byteOrder (opts p)) 4 (word_of_int (frame_size (opts p) m) :: uint32) @ 0 # tail"
    using d by (auto simp: PackMessage_eq and_then_Ok_iff)
  have "int (length tail) + 1 = uint (word_of_int (frame_size (opts p) m) :: uint32)"
    using PackMessage_length [OF assms d] t frame_size_bounds(3) [OF assms l] by simp
  then show "CheckHeartbeat p data = Ok False"
    unfolding t using CheckHeartbeat_frame [of tail _ p 0] by simp
qed

lemma heartbeat_distinguished_witness:
  "CheckHeartbeat example_packer [0, 0, 0, 8, 0, 1, 44, 0, 7, 1, 2, 3] = Ok False"
  using heartbeat_distinguished [OF example_packer_ok, of 0 "[]" example_message] example_packs
  by (simp add: example_message_def)

text \<open>
  unpacking does not make that distinction: its header test \<open>header&dataBit != dataBit\<close> compares
  with \<open>dataBit = 0\<close> and never fails, so a heartbeat with a time stamp is unpacked as a message
  whose route, sequence number and payload are read from the time stamp.
\<close>

lemma heartbeat_unpacks_as_message:
  assumes "packer_ok p" and "heartbeatTime (opts p)" and "PackHeartbeat p now = Ok hb"
  shows "\<exists>m. UnpackMessage p hb = Ok m \<and> int (length (Buffer m)) = 8 - routeBytes (opts p) - seqBytes (opts p)"
proof -
  let ?o = "byteOrder (opts p)" and ?r = "routeBytes (opts p)" and ?s = "seqBytes (opts p)"
  have r: "?r \<in> {1, 2, 4}" and s: "?s \<in> {0, 1, 2, 4}"
    using assms(1) by (simp_all add: packer_ok_def)
  have hb: "hb = put_uint ?o 4 (9 :: uint32) @ [128] @ put_uint ?o 8 now"
    using assms(2,3) by (simp add: PackHeartbeat_def Let_def)
  obtain rt t where 1: "read_field ?o ?r (put_uint ?o 8 now) = Ok (rt, t)" "int (length t) = 8 - ?r"
    using r by (auto simp: read_field_def bin_read_def)
  obtain sq t' where 2: "read_field ?o ?s t = Ok (sq, t')"
    using r s 1(2) by (auto simp: read_field_def bin_read_def)
  have len: "int (length hb) = 13"
    by (simp add: hb)
  have size: "bin_read ?o 4 hb = Ok (9 :: uint32, [128] @ put_uint ?o 8 now)"
    unfolding hb by (subst bin_read_append) simp_all
  have "UnpackMessage p hb = Ok \<lparr>Seq = sq, Route = rt, Buffer = drop (nat (5 + ?r + ?s)) hb\<rparr>"
    using r s 1(1) 2 len size by (auto simp: UnpackMessage_def Let_def bin_read_byte)
  then show ?thesis
    using r s len by auto
qed

lemma heartbeat_unpacks_as_message_witness:
  "\<exists>m. UnpackMessage example_packer (put_uint BigEndian 4 (9 :: uint32) @ [128] @ put_uint BigEndian 8 (5 :: int64)) = Ok m \<and>
     int (length (Buffer m)) = 8 - routeBytes (opts example_packer) - seqBytes (opts example_packer)"
  by (rule heartbeat_unpacks_as_message [OF example_packer_ok, of 5])
    (simp_all add: example_packer_def PackHeartbeat_def Let_def)

text \<open>
  a frame header that announces one of the four largest sizes makes \<open>ReadMessage\<close> panic:
  the 32-bit sum \<open>defaultSizeBytes+size\<close> wraps below the size field.  Any peer can send it.
\<close>

lemma oversized_header_panics:
  assumes "2 ^ 32 - 4 \<le> unat sz"
  shows "ReadMessage p (put_uint (byteOrder (opts p)) 4 (sz :: uint32) @ rest) = Panic"
proof -
  have nz: "sz \<noteq> 0"
    using assms by auto
  have "unat (4 + sz) < 4"
    using unat_wrapped [OF assms] by simp
  then show ?thesis
    using nz by (simp add: ReadMessage_def ReadFull_append Let_def)
qed

lemma oversized_header_panics_witness:
  "ReadMessage example_packer (put_uint (byteOrder (opts example_packer)) 4 (0xFFFFFFFD :: uint32) @ []) = Panic"
  by (rule oversized_header_panics) simp

end
