(* ===== verification/Session_Types.thy ===== *)
theory Session_Types
  imports Go_Prelude
begin

text \<open>The session kinds and binding tokens of \<open>session/session.go\<close>, shared by the protocol and the session table,
  and the states of a server.\<close>

type_synonym Kind = int

definition Conn :: Kind where "Conn = 1"
definition User :: Kind where "User = 2"

lemmas kind_consts [simp] = Conn_def User_def

definition Kind_String :: "Kind \<Rightarrow> string" where
  "Kind_String k = (if k = Conn then ''conn'' else if k = User then ''user'' else '''')"

text \<open>A token identifies one binding generation of a user; the zero token is never current.\<close>

record Token =
  UID :: int64
  Generation :: uint64

definition zero_token :: Token where
  "zero_token = \<lparr>UID = 0, Generation = 0\<rparr>"

text \<open>The states of a server of the cluster (\<open>cluster/cluster.go\<close>).\<close>

datatype cluster_state = Shut | Work | Busy | Hang

text \<open>The values of an enumeration that survive the conversion to one byte.\<close>

definition byte_range :: "int \<Rightarrow> bool" where
  "byte_range k \<longleftrightarrow> 0 \<le> k \<and> k < 256"

lemma uint_byte_of_int: "byte_range k \<Longrightarrow> uint (word_of_int k :: 8 word) = k"
  by (simp add: byte_range_def uint_word_of_int)

end
