(* ===== verification/Go_Map.thy ===== *)
theory Go_Map
  imports Main "HOL-Library.AList"
begin

text \<open>
  The built-in maps of Go.  A map is an association list with distinct keys: lookups and updates
  see only the entries, \<open>range\<close> visits them in some order (here the order of the list; the language
  leaves it open and no theorem depends on it), \<open>len\<close> counts them.  The interface is the locale
  \<open>gomap_spec\<close>; what it gives for \<open>len\<close> is proved there.
\<close>

type_synonym ('k, 'v) gomap = "('k \<times> 'v) list"

definition gm_get :: "('k, 'v) gomap \<Rightarrow> 'k \<Rightarrow> 'v option" where
  "gm_get m k = map_of m k"

definition gm_set :: "('k, 'v) gomap \<Rightarrow> 'k \<Rightarrow> 'v \<Rightarrow> ('k, 'v) gomap" where
  "gm_set m k v = AList.update k v m"

definition gm_del :: "('k, 'v) gomap \<Rightarrow> 'k \<Rightarrow> ('k, 'v) gomap" where
  "gm_del m k = AList.delete k m"

definition gm_len :: "('k, 'v) gomap \<Rightarrow> nat" where
  "gm_len m = length m"

definition gm_values :: "('k, 'v) gomap \<Rightarrow> 'v list" where
  "gm_values m = map snd m"

definition gm_ok :: "('k, 'v) gomap \<Rightarrow> bool" where
  "gm_ok m \<longleftrightarrow> distinct (map fst m)"

text \<open>Reading an absent key yields the zero value of the element type.\<close>

definition gm_get0 :: "'v \<Rightarrow> ('k, 'v) gomap \<Rightarrow> 'k \<Rightarrow> 'v" where
  "gm_get0 zero m k = (case gm_get m k of Some v \<Rightarrow> v | None \<Rightarrow> zero)"

locale gomap_spec =
  fixes get :: "'m \<Rightarrow> 'k \<Rightarrow> 'v option"
    and set :: "'m \<Rightarrow> 'k \<Rightarrow> 'v \<Rightarrow> 'm"
    and del :: "'m \<Rightarrow> 'k \<Rightarrow> 'm"
    and len :: "'m \<Rightarrow> nat"
    and vals :: "'m \<Rightarrow> 'v list"
    and ok :: "'m \<Rightarrow> bool"
  assumes get_set: "get (set m k v) = (get m)(k := Some v)"
    and get_del: "get (del m k) = (get m)(k := None)"
    and ok_set: "ok m \<Longrightarrow> ok (set m k v)"
    and ok_del: "ok m \<Longrightarrow> ok (del m k)"
    and fin: "finite (dom (get m))"
    and len_card: "ok m \<Longrightarrow> len m = card (dom (get m))"
    and vals_ran: "ok m \<Longrightarrow> List.set (vals m) = ran (get m)"
    and vals_len: "ok m \<Longrightarrow> length (vals m) = len m"
begin

lemma len_set_new: "ok m \<Longrightarrow> get m k = None \<Longrightarrow> len (set m k v) = Suc (len m)"
  using fin [of m] by (simp add: len_card ok_set get_set card_insert_disjoint domIff)

lemma len_set_old: "ok m \<Longrightarrow> get m k = Some v' \<Longrightarrow> len (set m k v) = len m"
proof -
  assume "ok m" and "get m k = Some v'"
  moreover from this(2) have "insert k (dom (get m)) = dom (get m)"
    by auto
  ultimately show ?thesis
    by (simp add: len_card ok_set get_set)
qed

lemma len_del: "ok m \<Longrightarrow> len (del m k) = (if get m k = None then len m else len m - 1)"
  by (simp add: len_card ok_del get_del card_Diff_singleton_if domIff)

lemma in_vals: "ok m \<Longrightarrow> v \<in> List.set (vals m) \<longleftrightarrow> (\<exists>k. get m k = Some v)"
  by (auto simp: vals_ran ran_def)

end

lemma gm_ran:
  assumes "distinct (map fst m)"
  shows "snd ` set m = ran (map_of m)"
  using assms by (force simp: ran_def dest: map_of_SomeD intro: rev_image_eqI map_of_is_SomeI)

lemma gm_fin: "finite (dom (gm_get m))"
proof -
  have "gm_get m = map_of m"
    by (simp add: gm_get_def fun_eq_iff)
  then show ?thesis by (simp add: finite_dom_map_of)
qed

lemma gm_card:
  assumes "gm_ok m"
  shows "gm_len m = card (dom (gm_get m))"
proof -
  have "gm_get m = map_of m"
    by (simp add: gm_get_def fun_eq_iff)
  then show ?thesis
    using assms distinct_card [of "map fst m"] by (simp add: gm_len_def gm_ok_def dom_map_of_conv_image_fst)
qed

interpretation gm: gomap_spec gm_get gm_set gm_del gm_len gm_values gm_ok
proof
  fix m :: "('k, 'v) gomap" and k v
  show "gm_get (gm_set m k v) = (gm_get m)(k := Some v)"
    by (simp add: gm_get_def gm_set_def update_conv' fun_eq_iff)
  show "gm_get (gm_del m k) = (gm_get m)(k := None)"
    by (simp add: gm_get_def gm_del_def delete_conv' fun_eq_iff)
  show "gm_ok (gm_set m k v)" if "gm_ok m"
    using that by (simp add: gm_ok_def gm_set_def distinct_update)
  show "gm_ok (gm_del m k)" if "gm_ok m"
    using that by (simp add: gm_ok_def gm_del_def distinct_delete)
  show "set (gm_values m) = ran (gm_get m)" if "gm_ok m"
    using that gm_ran [of m] by (simp add: gm_ok_def gm_values_def gm_get_def [abs_def])
  show "length (gm_values m) = gm_len m"
    by (simp add: gm_values_def gm_len_def)
qed (simp_all add: gm_fin gm_card)

lemmas gm_simps [simp] = gm.get_set gm.get_del gm.ok_set gm.ok_del

lemma gm_empty [simp]: "gm_get [] k = None" "gm_ok []"
  by (simp_all add: gm_get_def gm_ok_def)

lemma gm_get0_simps [simp]:
  "gm_get0 z (gm_set m k v) k' = (if k' = k then v else gm_get0 z m k')"
  "gm_get0 z (gm_del m k) k' = (if k' = k then z else gm_get0 z m k')"
  by (simp_all add: gm_get0_def)

end
