(* ===== verification/Session.thy ===== *)
theory Session
  imports Session_Types Go_Map
begin

text \<open>
  The session table of a gate (\<open>session/session.go\<close>).  Connections are objects shared by several
  maps, so the state holds an explicit heap: \<open>heap s r\<close> is the object behind reference \<open>r\<close>, and two
  interface values are equal when their references are.  Every operation runs under the table's
  lock and is one step; \<open>Multicast\<close>, \<open>Broadcast\<close> and \<open>Publish\<close> push outside the lock and are modelled
  by the calls they make.
\<close>

section \<open>Connections and the table\<close>

text \<open>
  Attribute keys are of type \<open>any\<close>; the table itself only stores channel names.
\<close>

datatype attr_key = KString gostring | KOther nat

record ConnObj =
  c_id :: int64
  c_uid :: int64
  c_attr :: "attr_key list"

type_synonym ref = nat

record Session =
  heap :: "ref \<Rightarrow> ConnObj"
  conns :: "(int64, ref) gomap"
  users :: "(int64, ref) gomap"
  tokens :: "(int64, Token) gomap"
  generations :: "(int64, uint64) gomap"
  channels :: "(gostring, ref list) gomap"

definition NewSession :: "(ref \<Rightarrow> ConnObj) \<Rightarrow> Session" where
  "NewSession h =
     \<lparr>heap = h, conns = [], users = [], tokens = [], generations = [], channels = []\<rparr>"

text \<open>
  The methods of \<open>network.Conn\<close> and \<open>network.Attr\<close> the table calls (\<open>ID\<close>, \<open>UID\<close>, \<open>Bind\<close>, \<open>Unbind\<close>,
  \<open>Attr().Set\<close>, \<open>Attr().Del\<close>) as \<open>network/tcp\<close> implements them.
\<close>

definition conn_ID :: "Session \<Rightarrow> ref \<Rightarrow> int64" where
  "conn_ID s r = c_id (heap s r)"

definition conn_UID :: "Session \<Rightarrow> ref \<Rightarrow> int64" where
  "conn_UID s r = c_uid (heap s r)"

definition conn_Bind :: "Session \<Rightarrow> ref \<Rightarrow> int64 \<Rightarrow> Session" where
  "conn_Bind s r uid = s\<lparr>heap := (heap s)(r := (heap s r)\<lparr>c_uid := uid\<rparr>)\<rparr>"

definition conn_Unbind :: "Session \<Rightarrow> ref \<Rightarrow> Session" where
  "conn_Unbind s r = s\<lparr>heap := (heap s)(r := (heap s r)\<lparr>c_uid := 0\<rparr>)\<rparr>"

definition attr_Set :: "Session \<Rightarrow> ref \<Rightarrow> attr_key \<Rightarrow> Session" where
  "attr_Set s r k = s\<lparr>heap := (heap s)(r := (heap s r)\<lparr>c_attr := List.insert k (c_attr (heap s r))\<rparr>)\<rparr>"

definition attr_Del :: "Session \<Rightarrow> ref \<Rightarrow> attr_key \<Rightarrow> bool \<times> Session" where
  "attr_Del s r k =
     (k \<in> set (c_attr (heap s r)),
      s\<lparr>heap := (heap s)(r := (heap s r)\<lparr>c_attr := removeAll k (c_attr (heap s r))\<rparr>)\<rparr>)"

section \<open>Operations\<close>

definition nextGeneration :: "Session \<Rightarrow> int64 \<Rightarrow> uint64 \<times> Session" where
  "nextGeneration s uid =
     (let generation = gm_get0 0 (generations s) uid + 1;
          generation = (if generation = 0 then generation + 1 else generation)
      in (generation, s\<lparr>generations := gm_set (generations s) uid generation\<rparr>))"

definition conn :: "Session \<Rightarrow> Kind \<Rightarrow> int64 \<Rightarrow> ref res" where
  "conn s kind target =
     (if kind = Conn then
        (case gm_get (conns s) target of None \<Rightarrow> Err ErrNotFoundSession | Some r \<Rightarrow> Ok r)
      else if kind = User then
        (case gm_get (users s) target of None \<Rightarrow> Err ErrNotFoundSession | Some r \<Rightarrow> Ok r)
      else Err ErrInvalidSessionKind)"

definition AddConn :: "Session \<Rightarrow> ref \<Rightarrow> Session" where
  "AddConn s r =
     (let cid = conn_ID s r; uid = conn_UID s r;
          s = s\<lparr>conns := gm_set (conns s) cid r\<rparr>
      in if uid \<noteq> 0
         then case nextGeneration s uid of (generation, s) \<Rightarrow>
              let s = s\<lparr>users := gm_set (users s) uid r\<rparr>
              in s\<lparr>tokens := gm_set (tokens s) cid \<lparr>UID = uid, Generation = generation\<rparr>\<rparr>
         else s)"

definition doUnsubscribe :: "Session \<Rightarrow> gostring \<Rightarrow> ref \<Rightarrow> Session" where
  "doUnsubscribe s channel r =
     (case gm_get (channels s) channel of
        None \<Rightarrow> s
      | Some members \<Rightarrow>
          let members = removeAll r members
          in if length members = 0 then s\<lparr>channels := gm_del (channels s) channel\<rparr>
             else s\<lparr>channels := gm_set (channels s) channel members\<rparr>)"

text \<open>
  The visitor of \<open>RemConnWithToken\<close>: the key is asserted to be a string, and a failing assertion
  panics.
\<close>

primrec visit_unsubscribe :: "attr_key list \<Rightarrow> ref \<Rightarrow> Session \<Rightarrow> Session \<times> unit res" where
  "visit_unsubscribe [] r s = (s, Ok ())"
| "visit_unsubscribe (k # ks) r s =
     (case k of
        KString channel \<Rightarrow> visit_unsubscribe ks r (doUnsubscribe s channel r)
      | KOther _ \<Rightarrow> (s, Panic))"

definition RemConnWithToken :: "Session \<Rightarrow> ref \<Rightarrow> Session \<times> (int64 \<times> Token) res" where
  "RemConnWithToken s r =
     (let cid = conn_ID s r; uid = conn_UID s r; token = gm_get0 zero_token (tokens s) cid;
          s = s\<lparr>conns := gm_del (conns s) cid\<rparr>;
          s = s\<lparr>tokens := gm_del (tokens s) cid\<rparr>;
          s = (if uid \<noteq> 0 \<and> gm_get (users s) uid = Some r
               then s\<lparr>users := gm_del (users s) uid\<rparr> else s)
      in case visit_unsubscribe (c_attr (heap s r)) r s of
           (s, Ok _) \<Rightarrow> (s, Ok (uid, token))
         | (s, Err e) \<Rightarrow> (s, Err e)
         | (s, Panic) \<Rightarrow> (s, Panic))"

definition RemConn :: "Session \<Rightarrow> ref \<Rightarrow> Session \<times> unit res" where
  "RemConn s r = (case RemConnWithToken s r of (s, m) \<Rightarrow> (s, and_then m (\<lambda>_. Ok ())))"

definition Has :: "Session \<Rightarrow> Kind \<Rightarrow> int64 \<Rightarrow> bool res" where
  "Has s kind target =
     (if kind = Conn then Ok (gm_get (conns s) target \<noteq> None)
      else if kind = User then Ok (gm_get (users s) target \<noteq> None)
      else Err ErrInvalidSessionKind)"

definition bindToken :: "Session \<Rightarrow> ref \<Rightarrow> int64 \<Rightarrow> Token \<Rightarrow> Session" where
  "bindToken s r uid token =
     (let cid = conn_ID s r; oldUID = conn_UID s r
      in if oldUID \<noteq> 0 \<and> oldUID = uid \<and> gm_get (users s) uid = Some r
         then s\<lparr>tokens := gm_set (tokens s) cid token\<rparr>
         else
           let s = (if oldUID \<noteq> 0 \<and> oldUID \<noteq> uid \<and> gm_get (users s) oldUID = Some r
                    then s\<lparr>users := gm_del (users s) oldUID\<rparr> else s);
               s = (case gm_get (users s) uid of
                      Some oldConn \<Rightarrow> if oldConn \<noteq> r then conn_Unbind s oldConn else s
                    | None \<Rightarrow> s);
               s = conn_Bind s r uid;
               s = s\<lparr>users := gm_set (users s) uid r\<rparr>
           in s\<lparr>tokens := gm_set (tokens s) cid token\<rparr>)"

definition Session_Bind :: "Session \<Rightarrow> int64 \<Rightarrow> int64 \<Rightarrow> Session \<times> unit res" where
  "Session_Bind s cid uid =
     (case conn s Conn cid of
        Err e \<Rightarrow> (s, Err e)
      | Panic \<Rightarrow> (s, Panic)
      | Ok r \<Rightarrow>
          if conn_UID s r = uid then (s, Ok ())
          else case nextGeneration s uid of (generation, s) \<Rightarrow>
               (bindToken s r uid \<lparr>UID = uid, Generation = generation\<rparr>, Ok ()))"

definition BindToken :: "Session \<Rightarrow> int64 \<Rightarrow> int64 \<Rightarrow> Token \<Rightarrow> Session \<times> unit res" where
  "BindToken s cid uid token =
     (if sint uid \<le> 0 \<or> UID token \<noteq> uid \<or> Generation token = 0 then (s, Err ErrInvalidArgument)
      else case conn s Conn cid of
        Err e \<Rightarrow> (s, Err e)
      | Panic \<Rightarrow> (s, Panic)
      | Ok r \<Rightarrow>
          let s = bindToken s r uid token
          in (if Generation token > gm_get0 0 (generations s) uid
              then s\<lparr>generations := gm_set (generations s) uid (Generation token)\<rparr> else s, Ok ()))"

definition Session_Unbind :: "Session \<Rightarrow> int64 \<Rightarrow> Session \<times> int64 res" where
  "Session_Unbind s uid =
     (case conn s User uid of
        Err e \<Rightarrow> (s, Err e)
      | Panic \<Rightarrow> (s, Panic)
      | Ok r \<Rightarrow>
          let s = conn_Unbind s r;
              s = s\<lparr>users := gm_del (users s) uid\<rparr>
          in (s, Ok (conn_ID s r)))"

definition Session_Token :: "Session \<Rightarrow> Kind \<Rightarrow> int64 \<Rightarrow> Token res" where
  "Session_Token s kind target =
     and_then (conn s kind target) (\<lambda>r. Ok (gm_get0 zero_token (tokens s) (conn_ID s r)))"

definition IsCurrent :: "Session \<Rightarrow> Token \<Rightarrow> bool" where
  "IsCurrent s token =
     (if UID token = 0 \<or> Generation token = 0 then False
      else case gm_get (users s) (UID token) of
             None \<Rightarrow> False
           | Some r \<Rightarrow> gm_get0 zero_token (tokens s) (conn_ID s r) = token)"

definition Session_Stat :: "Session \<Rightarrow> Kind \<Rightarrow> int64 res" where
  "Session_Stat s kind =
     (if kind = Conn then Ok (word_of_nat (gm_len (conns s)))
      else if kind = User then Ok (word_of_nat (gm_len (users s)))
      else Err ErrInvalidSessionKind)"

subsection \<open>Subscriptions\<close>

definition conns_of :: "Session \<Rightarrow> Kind \<Rightarrow> (int64, ref) gomap res" where
  "conns_of s kind =
     (if kind = Conn then Ok (conns s) else if kind = User then Ok (users s)
      else Err ErrInvalidSessionKind)"

text \<open>The bodies of the two loops, for a target that resolves to the connection \<open>r\<close>.\<close>

definition subscribe_conn :: "Session \<Rightarrow> gostring \<Rightarrow> ref \<Rightarrow> Session" where
  "subscribe_conn s channel r =
     (let s = attr_Set s r (KString channel)
      in case gm_get (channels s) channel of
           Some members \<Rightarrow> s\<lparr>channels := gm_set (channels s) channel (List.insert r members)\<rparr>
         | None \<Rightarrow> s\<lparr>channels := gm_set (channels s) channel [r]\<rparr>)"

definition unsubscribe_conn :: "Session \<Rightarrow> gostring \<Rightarrow> ref \<Rightarrow> Session" where
  "unsubscribe_conn s channel r =
     (case attr_Del s r (KString channel) of
        (ok, s) \<Rightarrow> if ok then doUnsubscribe s channel r else s)"

primrec each_target ::
    "(Session \<Rightarrow> ref \<Rightarrow> Session) \<Rightarrow> (int64, ref) gomap \<Rightarrow> int64 list \<Rightarrow> Session \<Rightarrow> Session" where
  "each_target f m [] s = s"
| "each_target f m (target # targets) s =
     each_target f m targets (case gm_get m target of None \<Rightarrow> s | Some r \<Rightarrow> f s r)"

definition Session_Subscribe ::
    "Session \<Rightarrow> Kind \<Rightarrow> int64 list \<Rightarrow> gostring \<Rightarrow> Session \<times> unit res" where
  "Session_Subscribe s kind targets channel =
     (if length targets = 0 then (s, Ok ())
      else case conns_of s kind of
             Ok m \<Rightarrow> (each_target (\<lambda>s r. subscribe_conn s channel r) m targets s, Ok ())
           | Err e \<Rightarrow> (s, Err e)
           | Panic \<Rightarrow> (s, Panic))"

definition Session_Unsubscribe ::
    "Session \<Rightarrow> Kind \<Rightarrow> int64 list \<Rightarrow> gostring \<Rightarrow> Session \<times> unit res" where
  "Session_Unsubscribe s kind targets channel =
     (if length targets = 0 then (s, Ok ())
      else case conns_of s kind of
             Ok m \<Rightarrow> (each_target (\<lambda>s r. unsubscribe_conn s channel r) m targets s, Ok ())
           | Err e \<Rightarrow> (s, Err e)
           | Panic \<Rightarrow> (s, Panic))"

subsection \<open>Calls on connections\<close>

text \<open>
  The calls the table makes on a connection.  Whether such a call succeeds depends on the
  connection and its socket: \<open>io r c\<close> is the error the call \<open>c\<close> on \<open>r\<close> returns, if any.  An operation
  returns its result with the calls it made, in order; calls of concurrent pushes are listed in
  the order the goroutines are started.
\<close>

datatype conn_call = CSend "byte list" | CPush "byte list" | CClose "bool list"

type_synonym io = "ref \<Rightarrow> conn_call \<Rightarrow> goerror option"

definition io_res :: "goerror option \<Rightarrow> unit res" where
  "io_res e = (case e of None \<Rightarrow> Ok () | Some e \<Rightarrow> Err e)"

definition Session_Close ::
    "io \<Rightarrow> Session \<Rightarrow> Kind \<Rightarrow> int64 \<Rightarrow> bool list \<Rightarrow> unit res \<times> (ref \<times> conn_call) list" where
  "Session_Close io s kind target force =
     (case conn s kind target of
        Err e \<Rightarrow> (Err e, [])
      | Panic \<Rightarrow> (Panic, [])
      | Ok r \<Rightarrow> (io_res (io r (CClose force)), [(r, CClose force)]))"

text \<open>The token check that \<open>CloseCurrent\<close> and \<open>SendCurrent\<close> make under the read lock.\<close>

definition check_current :: "Session \<Rightarrow> Kind \<Rightarrow> int64 \<Rightarrow> Token \<Rightarrow> ref res" where
  "check_current s kind target token =
     and_then (conn s kind target) (\<lambda>r.
     if gm_get (users s) (UID token) \<noteq> Some r \<or> gm_get0 zero_token (tokens s) (conn_ID s r) \<noteq> token
     then Err ErrStaleSession else Ok r)"

definition CloseCurrent ::
    "io \<Rightarrow> Session \<Rightarrow> Kind \<Rightarrow> int64 \<Rightarrow> Token \<Rightarrow> bool list \<Rightarrow> unit res \<times> (ref \<times> conn_call) list" where
  "CloseCurrent io s kind target token force =
     (if sint (UID token) \<le> 0 \<or> Generation token = 0 then (Err ErrStaleSession, [])
      else if kind = User \<and> target \<noteq> UID token then (Err ErrStaleSession, [])
      else case check_current s kind target token of
             Err e \<Rightarrow> (Err e, [])
           | Panic \<Rightarrow> (Panic, [])
           | Ok r \<Rightarrow> (io_res (io r (CClose force)), [(r, CClose force)]))"

definition Session_Send ::
    "io \<Rightarrow> Session \<Rightarrow> Kind \<Rightarrow> int64 \<Rightarrow> byte list \<Rightarrow> unit res \<times> (ref \<times> conn_call) list" where
  "Session_Send io s kind target message =
     (case conn s kind target of
        Err e \<Rightarrow> (Err e, [])
      | Panic \<Rightarrow> (Panic, [])
      | Ok r \<Rightarrow> (io_res (io r (CSend message)), [(r, CSend message)]))"

definition SendCurrent ::
    "io \<Rightarrow> Session \<Rightarrow> Kind \<Rightarrow> int64 \<Rightarrow> Token \<Rightarrow> bool \<Rightarrow> byte list \<Rightarrow>
     unit res \<times> (ref \<times> conn_call) list" where
  "SendCurrent io s kind target token disconnect message =
     (if sint (UID token) \<le> 0 \<or> Generation token = 0 then (Err ErrStaleSession, [])
      else case check_current s kind target token of
             Err e \<Rightarrow> (Err e, [])
           | Panic \<Rightarrow> (Panic, [])
           | Ok r \<Rightarrow>
               (case io r (CSend message) of
                  Some e \<Rightarrow> (Err e, [(r, CSend message)])
                | None \<Rightarrow>
                    if disconnect
                    then (io_res (io r (CClose [])), [(r, CSend message), (r, CClose [])])
                    else (Ok (), [(r, CSend message)])))"

definition push_conn ::
    "io \<Rightarrow> bool \<Rightarrow> byte list \<Rightarrow> ref \<Rightarrow> goerror option \<times> (ref \<times> conn_call) list" where
  "push_conn io disconnect message r =
     (case io r (CPush message) of
        Some e \<Rightarrow> (Some e, [(r, CPush message)])
      | None \<Rightarrow> (None, (r, CPush message) # (if disconnect then [(r, CClose [])] else [])))"

definition Session_Push ::
    "io \<Rightarrow> Session \<Rightarrow> Kind \<Rightarrow> int64 \<Rightarrow> bool \<Rightarrow> byte list \<Rightarrow> unit res \<times> (ref \<times> conn_call) list" where
  "Session_Push io s kind target disconnect message =
     (case conn s kind target of
        Err e \<Rightarrow> (Err e, [])
      | Panic \<Rightarrow> (Panic, [])
      | Ok r \<Rightarrow>
          (case push_conn io disconnect message r of
             (Some e, calls) \<Rightarrow> (Err e, calls)
           | (None, calls) \<Rightarrow> (if disconnect then io_res (io r (CClose [])) else Ok (), calls)))"

text \<open>
  The error group: every push runs, the successful ones are counted, and \<open>Wait\<close> returns the error
  of the goroutine that failed first, which \<open>pick\<close> chooses among the errors.  It is returned only
  when nothing was delivered.
\<close>

definition push_all ::
    "io \<Rightarrow> (goerror list \<Rightarrow> goerror) \<Rightarrow> ref list \<Rightarrow> bool \<Rightarrow> byte list \<Rightarrow>
     nat res \<times> (ref \<times> conn_call) list" where
  "push_all io pick rs disconnect message =
     (let outs = map (push_conn io disconnect message) rs;
          errs = concat (map (\<lambda>(e, _). case e of None \<Rightarrow> [] | Some e \<Rightarrow> [e]) outs);
          delivered = length (filter (\<lambda>(e, _). e = None) outs);
          calls = concat (map snd outs)
      in (if errs \<noteq> [] \<and> delivered = 0 then Err (pick errs) else Ok delivered, calls))"

definition Session_Multicast ::
    "io \<Rightarrow> (goerror list \<Rightarrow> goerror) \<Rightarrow> Session \<Rightarrow> Kind \<Rightarrow> int64 list \<Rightarrow> bool \<Rightarrow> byte list \<Rightarrow>
     nat res \<times> (ref \<times> conn_call) list" where
  "Session_Multicast io pick s kind targets disconnect message =
     (if length targets = 0 then (Ok 0, [])
      else case conns_of s kind of
             Err e \<Rightarrow> (Err e, [])
           | Panic \<Rightarrow> (Panic, [])
           | Ok m \<Rightarrow>
               push_all io pick
                 (concat (map (\<lambda>target. case gm_get m target of None \<Rightarrow> [] | Some r \<Rightarrow> [r]) targets))
                 disconnect message)"

definition Session_Broadcast ::
    "io \<Rightarrow> (goerror list \<Rightarrow> goerror) \<Rightarrow> Session \<Rightarrow> Kind \<Rightarrow> bool \<Rightarrow> byte list \<Rightarrow>
     nat res \<times> (ref \<times> conn_call) list" where
  "Session_Broadcast io pick s kind disconnect message =
     (case conns_of s kind of
        Err e \<Rightarrow> (Err e, [])
      | Panic \<Rightarrow> (Panic, [])
      | Ok m \<Rightarrow> push_all io pick (gm_values m) disconnect message)"

definition Session_Publish ::
    "io \<Rightarrow> (goerror list \<Rightarrow> goerror) \<Rightarrow> Session \<Rightarrow> gostring \<Rightarrow> bool \<Rightarrow> byte list \<Rightarrow>
     nat res \<times> (ref \<times> conn_call) list" where
  "Session_Publish io pick s channel disconnect message =
     (case gm_get (channels s) channel of
        None \<Rightarrow> (Ok 0, [])
      | Some members \<Rightarrow> push_all io pick members disconnect message)"

section \<open>The invariant of the table\<close>

definition registered :: "Session \<Rightarrow> ref \<Rightarrow> bool" where
  "registered s r \<longleftrightarrow> gm_get (conns s) (conn_ID s r) = Some r"

definition maps_ok :: "Session \<Rightarrow> bool" where
  "maps_ok s \<longleftrightarrow> gm_ok (conns s) \<and> gm_ok (users s) \<and> gm_ok (tokens s) \<and>
     gm_ok (generations s) \<and> gm_ok (channels s)"

definition conns_ok :: "Session \<Rightarrow> bool" where
  "conns_ok s \<longleftrightarrow> (\<forall>cid r. gm_get (conns s) cid = Some r \<longrightarrow>
     conn_ID s r = cid \<and> (\<forall>k \<in> set (c_attr (heap s r)). \<exists>ch. k = KString ch))"

definition token_for :: "Session \<Rightarrow> ref \<Rightarrow> int64 \<Rightarrow> bool" where
  "token_for s r uid \<longleftrightarrow>
     (case gm_get (tokens s) (conn_ID s r) of
        None \<Rightarrow> False | Some t \<Rightarrow> UID t = uid \<and> Generation t \<noteq> 0)"

definition users_ok :: "Session \<Rightarrow> bool" where
  "users_ok s \<longleftrightarrow> (\<forall>uid r. gm_get (users s) uid = Some r \<longrightarrow>
     uid \<noteq> 0 \<and> conn_UID s r = uid \<and> registered s r \<and> token_for s r uid)"

definition bound_ok :: "Session \<Rightarrow> bool" where
  "bound_ok s \<longleftrightarrow> (\<forall>r. registered s r \<longrightarrow> conn_UID s r \<noteq> 0 \<longrightarrow>
     gm_get (users s) (conn_UID s r) = Some r)"

definition channels_ok :: "Session \<Rightarrow> bool" where
  "channels_ok s \<longleftrightarrow> (\<forall>ch ms. gm_get (channels s) ch = Some ms \<longrightarrow>
     ms \<noteq> [] \<and> distinct ms \<and> (\<forall>r \<in> set ms. registered s r \<and> KString ch \<in> set (c_attr (heap s r))))"

definition session_ok :: "Session \<Rightarrow> bool" where
  "session_ok s \<longleftrightarrow> maps_ok s \<and> conns_ok s \<and> users_ok s \<and> bound_ok s \<and> channels_ok s"

lemmas session_defs = session_ok_def maps_ok_def conns_ok_def users_ok_def bound_ok_def channels_ok_def

lemmas conn_defs [simp] = conn_ID_def conn_UID_def

text \<open>
  The two halves of the invariant: \<open>conns_ok\<close> and \<open>channels_ok\<close> do not depend on the bindings,
  \<open>users_ok\<close> and \<open>bound_ok\<close> do not depend on attributes and channels.
\<close>

lemma registered_cong:
  assumes "conns s' = conns s" and "\<And>r. c_id (heap s' r) = c_id (heap s r)"
  shows "registered s' r \<longleftrightarrow> registered s r"
  by (simp add: registered_def assms)

lemma static_cong:
  assumes "conns s' = conns s" and "channels s' = channels s"
    and "\<And>r. c_id (heap s' r) = c_id (heap s r)" and "\<And>r. c_attr (heap s' r) = c_attr (heap s r)"
  shows "conns_ok s' \<longleftrightarrow> conns_ok s" and "channels_ok s' \<longleftrightarrow> channels_ok s"
  by (simp_all add: conns_ok_def channels_ok_def registered_def assms)

lemma bindings_cong:
  assumes "conns s' = conns s" and "users s' = users s" and "tokens s' = tokens s"
    and "\<And>r. c_id (heap s' r) = c_id (heap s r)" and "\<And>r. c_uid (heap s' r) = c_uid (heap s r)"
  shows "users_ok s' \<longleftrightarrow> users_ok s" and "bound_ok s' \<longleftrightarrow> bound_ok s"
  by (simp_all add: users_ok_def bound_ok_def registered_def token_for_def assms)

lemma conns_okD:
  assumes "conns_ok s" and "gm_get (conns s) cid = Some r"
  shows "c_id (heap s r) = cid" and "registered s r"
    and "k \<in> set (c_attr (heap s r)) \<Longrightarrow> \<exists>ch. k = KString ch"
  using assms by (auto simp: conns_ok_def registered_def)

lemma users_okD:
  assumes "users_ok s" and "gm_get (users s) uid = Some r"
  shows "uid \<noteq> 0" and "c_uid (heap s r) = uid" and "registered s r" and "token_for s r uid"
  using assms by (auto simp: users_ok_def)

lemma bound_okD:
  "bound_ok s \<Longrightarrow> registered s r \<Longrightarrow> c_uid (heap s r) \<noteq> 0 \<Longrightarrow> gm_get (users s) (c_uid (heap s r)) = Some r"
  by (simp add: bound_ok_def)

lemma channels_okD:
  assumes "channels_ok s" and "gm_get (channels s) ch = Some ms"
  shows "ms \<noteq> []" and "distinct ms" and "r \<in> set ms \<Longrightarrow> registered s r"
    and "r \<in> set ms \<Longrightarrow> KString ch \<in> set (c_attr (heap s r))"
  using assms by (auto simp: channels_ok_def)

lemma session_ok_New: "session_ok (NewSession h)"
  by (simp add: session_defs NewSession_def registered_def)

lemma conns_registered:
  "session_ok s \<Longrightarrow> gm_get (conns s) cid = Some r \<Longrightarrow> registered s r"
  by (auto simp: session_ok_def dest: conns_okD)

text \<open>Opening a connection writes an object the table does not know.\<close>

definition open_conn :: "Session \<Rightarrow> ref \<Rightarrow> int64 \<Rightarrow> Session" where
  "open_conn s r cid = s\<lparr>heap := (heap s)(r := \<lparr>c_id = cid, c_uid = 0, c_attr = []\<rparr>)\<rparr>"

lemma open_conn_ok:
  assumes ok: "session_ok s" and "\<not> registered s r"
  shows "session_ok (open_conn s r cid)"
proof -
  have u: "gm_get (conns s) c \<noteq> Some r" for c
    using assms by (auto dest: conns_registered)
  have reg: "registered (open_conn s r cid) r' \<longleftrightarrow> registered s r' \<and> r' \<noteq> r" for r'
    using u assms(2) by (auto simp: registered_def open_conn_def)
  have h: "heap (open_conn s r cid) r' = (if r' = r then \<lparr>c_id = cid, c_uid = 0, c_attr = []\<rparr> else heap s r')" for r'
    by (simp add: open_conn_def)
  have f: "conns (open_conn s r cid) = conns s" "users (open_conn s r cid) = users s"
    "tokens (open_conn s r cid) = tokens s" "channels (open_conn s r cid) = channels s"
    by (simp_all add: open_conn_def)
  have "conns_ok (open_conn s r cid)"
    using ok u by (auto simp: session_ok_def conns_ok_def f h)
  moreover have "users_ok (open_conn s r cid)"
    unfolding users_ok_def f
  proof (intro allI impI)
    fix uid r'
    assume "gm_get (users s) uid = Some r'"
    note user = users_okD [OF _ this]
    have "uid \<noteq> 0" "c_uid (heap s r') = uid" "registered s r'" "token_for s r' uid"
      using ok user by (auto simp: session_ok_def)
    then show "uid \<noteq> 0 \<and> conn_UID (open_conn s r cid) r' = uid \<and>
        registered (open_conn s r cid) r' \<and> token_for (open_conn s r cid) r' uid"
      using assms(2) by (auto simp: reg h token_for_def f)
  qed
  moreover have "bound_ok (open_conn s r cid)"
    using ok by (auto simp: session_ok_def bound_ok_def f h reg)
  moreover have "channels_ok (open_conn s r cid)"
    using ok assms(2) unfolding channels_ok_def f reg
    by (auto simp: session_ok_def h dest: channels_okD)
  ultimately show ?thesis
    using ok by (simp add: session_ok_def maps_ok_def open_conn_def)
qed

lemma AddConn_ok:
  assumes ok: "session_ok s" and new: "gm_get (conns s) (conn_ID s r) = None" and unbound: "conn_UID s r = 0"
    and keys: "\<forall>k \<in> set (c_attr (heap s r)). \<exists>ch. k = KString ch"
  shows "session_ok (AddConn s r)"
proof -
  let ?s = "AddConn s r"
  have s: "?s = s\<lparr>conns := gm_set (conns s) (c_id (heap s r)) r\<rparr>"
    using unbound by (simp add: AddConn_def)
  have reg: "registered ?s r' \<longleftrightarrow> registered s r' \<or> r' = r" for r'
    using new by (auto simp: registered_def s)
  have "conns_ok ?s" "bound_ok ?s"
    using ok keys unbound by (auto simp: session_ok_def conns_ok_def bound_ok_def reg) (auto simp: s split: if_splits)
  moreover have "users_ok ?s" "channels_ok ?s"
    using ok by (auto simp: session_ok_def users_ok_def channels_ok_def reg) (auto simp: s token_for_def)
  ultimately show ?thesis
    using ok by (simp add: session_ok_def maps_ok_def s)
qed

lemma attr_Set_ok:
  assumes ok: "session_ok s"
  shows "session_ok (attr_Set s r (KString k))"
proof -
  let ?s = "attr_Set s r (KString k)"
  have "users_ok ?s \<longleftrightarrow> users_ok s" "bound_ok ?s \<longleftrightarrow> bound_ok s"
    by (rule bindings_cong; simp add: attr_Set_def)+
  moreover have "registered ?s r' \<longleftrightarrow> registered s r'" for r'
    by (rule registered_cong) (simp_all add: attr_Set_def)
  then have "conns_ok ?s" "channels_ok ?s"
    using ok by (auto simp: session_ok_def conns_ok_def channels_ok_def) (auto simp: attr_Set_def split: if_splits)
  ultimately show ?thesis
    using ok by (simp add: session_ok_def maps_ok_def attr_Set_def)
qed

subsection \<open>Removing a connection\<close>

text \<open>What one \<open>doUnsubscribe\<close> leaves of a channel.\<close>

definition drop_member :: "ref \<Rightarrow> ref list option \<Rightarrow> ref list option" where
  "drop_member r x =
     (case x of None \<Rightarrow> None
      | Some ms \<Rightarrow> if removeAll r ms = [] then None else Some (removeAll r ms))"

lemma drop_member_simps [simp]:
  "drop_member r None = None"
  "drop_member r (drop_member r x) = drop_member r x"
  by (auto simp: drop_member_def split: option.splits)

lemma drop_member_Some:
  "drop_member r x = Some ms \<longleftrightarrow> (\<exists>ms'. x = Some ms' \<and> ms = removeAll r ms' \<and> ms \<noteq> [])"
  by (auto simp: drop_member_def split: option.splits)

lemma doUnsubscribe_get:
  "gm_get (channels (doUnsubscribe s ch r)) =
     (gm_get (channels s))(ch := drop_member r (gm_get (channels s) ch))"
  by (auto simp: doUnsubscribe_def drop_member_def Let_def fun_eq_iff split: option.splits)

lemma doUnsubscribe_frame:
  "doUnsubscribe s ch r = s\<lparr>channels := channels (doUnsubscribe s ch r)\<rparr>"
  "gm_ok (channels s) \<Longrightarrow> gm_ok (channels (doUnsubscribe s ch r))"
  by (simp_all add: doUnsubscribe_def Let_def split: option.splits)

lemma visit_unsubscribe_get:
  assumes "\<forall>k \<in> set ks. \<exists>ch. k = KString ch" and "gm_ok (channels s)"
  shows "\<exists>chs. visit_unsubscribe ks r s = (s\<lparr>channels := chs\<rparr>, Ok ()) \<and> gm_ok chs \<and>
    (\<forall>c. gm_get chs c = (if KString c \<in> set ks then drop_member r (gm_get (channels s) c)
       else gm_get (channels s) c))"
  using assms
proof (induction ks arbitrary: s)
  case Nil
  then show ?case
    by (intro exI [of _ "channels s"]) simp
next
  case (Cons k ks)
  then obtain ch where k: "k = KString ch" by auto
  let ?s = "doUnsubscribe s ch r"
  obtain chs where chs: "visit_unsubscribe ks r ?s = (?s\<lparr>channels := chs\<rparr>, Ok ())" "gm_ok chs"
    "\<forall>c. gm_get chs c = (if KString c \<in> set ks then drop_member r (gm_get (channels ?s) c)
       else gm_get (channels ?s) c)"
    using Cons.IH [of ?s] Cons.prems doUnsubscribe_frame(2) by auto
  have "?s\<lparr>channels := chs\<rparr> = s\<lparr>channels := chs\<rparr>"
    by (subst doUnsubscribe_frame(1)) simp
  then show ?case
    using chs k by (intro exI [of _ chs]) (auto simp: doUnsubscribe_get)
qed

text \<open>
  What \<open>RemConnWithToken\<close> does to a registered connection: it returns the user and the last token,
  and no index of the table mentions the connection any more.
\<close>

lemma RemConnWithToken_spec:
  assumes ok: "session_ok s" and reg: "registered s r"
  obtains s' where "RemConnWithToken s r =
      (s', Ok (c_uid (heap s r), gm_get0 zero_token (tokens s) (c_id (heap s r))))"
    and "heap s' = heap s" and "conns s' = gm_del (conns s) (c_id (heap s r))"
    and "tokens s' = gm_del (tokens s) (c_id (heap s r))" and "generations s' = generations s"
    and "users s' = (if c_uid (heap s r) \<noteq> 0 then gm_del (users s) (c_uid (heap s r)) else users s)"
    and "\<And>c. gm_get (channels s') c = drop_member r (gm_get (channels s) c)" and "gm_ok (channels s')"
proof -
  let ?s = "s\<lparr>conns := gm_del (conns s) (c_id (heap s r)), tokens := gm_del (tokens s) (c_id (heap s r)),
     users := (if c_uid (heap s r) \<noteq> 0 then gm_del (users s) (c_uid (heap s r)) else users s)\<rparr>"
  have user: "c_uid (heap s r) \<noteq> 0 \<Longrightarrow> gm_get (users s) (c_uid (heap s r)) = Some r"
    using ok reg by (simp add: session_ok_def bound_okD)
  have keys: "\<forall>k \<in> set (c_attr (heap s r)). \<exists>ch. k = KString ch"
    using ok reg by (auto simp: session_ok_def registered_def dest: conns_okD(3))
  obtain chs where chs: "visit_unsubscribe (c_attr (heap s r)) r ?s = (?s\<lparr>channels := chs\<rparr>, Ok ())"
    "gm_ok chs" "\<forall>c. gm_get chs c = (if KString c \<in> set (c_attr (heap s r))
       then drop_member r (gm_get (channels s) c) else gm_get (channels s) c)"
    using visit_unsubscribe_get [OF keys, of ?s r] ok by (auto simp: session_ok_def maps_ok_def)
  have get: "gm_get chs c = drop_member r (gm_get (channels s) c)" for c
  proof (cases "KString c \<in> set (c_attr (heap s r))")
    case False
    have "removeAll r ms = ms \<and> ms \<noteq> []" if "gm_get (channels s) c = Some ms" for ms
      using ok that False channels_okD(1) [of s c ms] channels_okD(4) [of s c ms r]
      by (auto simp: session_ok_def intro: removeAll_id)
    then have "drop_member r (gm_get (channels s) c) = gm_get (channels s) c"
      by (auto simp: drop_member_def split: option.splits)
    then show ?thesis using chs(3) by simp
  qed (simp add: chs(3))
  have "RemConnWithToken s r =
      (?s\<lparr>channels := chs\<rparr>, Ok (c_uid (heap s r), gm_get0 zero_token (tokens s) (c_id (heap s r))))"
    using user chs(1) by (auto simp: RemConnWithToken_def Let_def)
  then show ?thesis
    using get chs(2) by (intro that [of "?s\<lparr>channels := chs\<rparr>"]) simp_all
qed

lemma RemConn_registered:
  assumes ok: "session_ok s" and reg: "registered s r" and "heap s' = heap s"
    and "conns s' = gm_del (conns s) (c_id (heap s r))"
  shows "registered s' r' \<longleftrightarrow> registered s r' \<and> r' \<noteq> r"
  using reg assms(3,4) by (auto simp: registered_def)

lemma RemConn_ok:
  assumes ok: "session_ok s" and reg: "registered s r"
  shows "session_ok (fst (RemConnWithToken s r))"
proof -
  obtain s' where s': "fst (RemConnWithToken s r) = s'" "heap s' = heap s"
    "conns s' = gm_del (conns s) (c_id (heap s r))" "tokens s' = gm_del (tokens s) (c_id (heap s r))"
    "generations s' = generations s"
    "users s' = (if c_uid (heap s r) \<noteq> 0 then gm_del (users s) (c_uid (heap s r)) else users s)"
    "\<And>c. gm_get (channels s') c = drop_member r (gm_get (channels s) c)" "gm_ok (channels s')"
    using RemConnWithToken_spec [OF ok reg] by (metis fst_conv)
  have reg': "registered s' r' \<longleftrightarrow> registered s r' \<and> r' \<noteq> r" for r'
    by (rule RemConn_registered [OF ok reg s'(2,3)])
  have user: "gm_get (users s') uid = Some r' \<longleftrightarrow> gm_get (users s) uid = Some r' \<and> r' \<noteq> r" for uid r'
    using ok reg users_okD(1,2) [of s uid r'] bound_okD [of s r]
    by (auto simp: session_ok_def s'(6))
  have ids: "registered s r' \<Longrightarrow> r' \<noteq> r \<Longrightarrow> c_id (heap s r') \<noteq> c_id (heap s r)" for r'
    using reg by (auto simp: registered_def)
  have "conns_ok s'"
    using ok by (auto simp: session_ok_def conns_ok_def s'(2,3) split: if_splits)
  moreover have "users_ok s'"
    unfolding users_ok_def user
  proof (intro allI impI)
    fix uid r'
    assume *: "gm_get (users s) uid = Some r' \<and> r' \<noteq> r"
    then have u: "uid \<noteq> 0" "c_uid (heap s r') = uid" "registered s r'" "token_for s r' uid"
      using ok users_okD [of s uid r'] by (auto simp: session_ok_def)
    then show "uid \<noteq> 0 \<and> conn_UID s' r' = uid \<and> registered s' r' \<and> token_for s' r' uid"
      using * ids [OF u(3)] by (simp add: reg' s'(2,4) token_for_def)
  qed
  moreover have "bound_ok s'"
    using ok by (auto simp: session_ok_def bound_ok_def user reg' s'(2))
  moreover have "channels_ok s'"
    unfolding channels_ok_def s'(7) drop_member_Some
    using ok channels_okD [of s] by (auto simp: session_ok_def reg' s'(2) distinct_removeAll)
  ultimately show ?thesis
    using ok s'(1,8) by (simp add: session_ok_def maps_ok_def s'(3-6))
qed

subsection \<open>Binding\<close>

text \<open>
  In a table with the invariant a connection holds at most one user, so the case distinctions of
  \<open>bindToken\<close> come down to one effect: the user moves to the connection, the connection loses the
  user it had, and the previous connection of the user is unbound.
\<close>

lemma users_of_conn:
  assumes "session_ok s" and "registered s r"
  shows "gm_get (users s) u = Some r \<longleftrightarrow> u \<noteq> 0 \<and> c_uid (heap s r) = u"
  using assms users_okD [of s u r] bound_okD [of s r] by (auto simp: session_ok_def)

lemma bindToken_spec:
  assumes ok: "session_ok s" and reg: "registered s r" and uid: "uid \<noteq> 0"
  shows "heap (bindToken s r uid token) r' =
      (if r' = r then (heap s r)\<lparr>c_uid := uid\<rparr>
       else if gm_get (users s) uid = Some r' then (heap s r')\<lparr>c_uid := 0\<rparr> else heap s r')"
    and "gm_get (users (bindToken s r uid token)) u =
      (if u = uid then Some r else if gm_get (users s) u = Some r then None else gm_get (users s) u)"
    and "tokens (bindToken s r uid token) = gm_set (tokens s) (c_id (heap s r)) token"
    and "conns (bindToken s r uid token) = conns s"
    and "channels (bindToken s r uid token) = channels s"
    and "generations (bindToken s r uid token) = generations s"
    and "gm_ok (users s) \<Longrightarrow> gm_ok (users (bindToken s r uid token))"
proof -
  note user = users_of_conn [OF ok reg]
  show "heap (bindToken s r uid token) r' =
      (if r' = r then (heap s r)\<lparr>c_uid := uid\<rparr>
       else if gm_get (users s) uid = Some r' then (heap s r')\<lparr>c_uid := 0\<rparr> else heap s r')"
    using uid user [of uid]
    by (auto simp: bindToken_def Let_def conn_Bind_def conn_Unbind_def split: option.splits)
  show "gm_get (users (bindToken s r uid token)) u =
      (if u = uid then Some r else if gm_get (users s) u = Some r then None else gm_get (users s) u)"
    using uid user [of u] user [of uid] user [of "c_uid (heap s r)"]
    by (auto simp: bindToken_def Let_def conn_Bind_def conn_Unbind_def split: option.splits)
qed (auto simp: bindToken_def Let_def conn_Bind_def conn_Unbind_def split: option.splits)

lemma bindToken_ok:
  assumes ok: "session_ok s" and reg: "registered s r" and uid: "uid \<noteq> 0"
    and tok: "UID token = uid" "Generation token \<noteq> 0"
  shows "session_ok (bindToken s r uid token)"
proof -
  let ?s = "bindToken s r uid token"
  note spec = bindToken_spec [OF ok reg uid]
  have id: "c_id (heap ?s r') = c_id (heap s r')" "c_attr (heap ?s r') = c_attr (heap s r')" for r'
    by (simp_all add: spec(1))
  have regs: "registered ?s r' \<longleftrightarrow> registered s r'" for r'
    by (rule registered_cong) (simp_all add: spec(4) id)
  have "conns_ok ?s \<longleftrightarrow> conns_ok s" "channels_ok ?s \<longleftrightarrow> channels_ok s"
    by (rule static_cong; simp add: spec(4,5) id)+
  moreover have "users_ok ?s"
    unfolding users_ok_def spec(2)
  proof (intro allI impI)
    fix u r'
    assume *: "(if u = uid then Some r else if gm_get (users s) u = Some r then None else gm_get (users s) u) = Some r'"
    show "u \<noteq> 0 \<and> conn_UID ?s r' = u \<and> registered ?s r' \<and> token_for ?s r' u"
    proof (cases "u = uid")
      case True
      have "r' = r"
        using * True by simp
      then show ?thesis
        using uid reg tok True by (simp only: regs) (simp add: spec(1,3) token_for_def)
    next
      case False
      then have u: "gm_get (users s) u = Some r'" "r' \<noteq> r"
        using * by (auto split: if_splits)
      have "u \<noteq> 0" "c_uid (heap s r') = u" "registered s r'" "token_for s r' u"
        using ok users_okD [OF _ u(1)] by (auto simp: session_ok_def)
      moreover have "gm_get (users s) uid \<noteq> Some r'"
        using calculation(2,3) False users_of_conn [OF ok] by auto
      moreover have "c_id (heap s r') \<noteq> c_id (heap s r)"
        using reg calculation(3) u(2) by (auto simp: registered_def)
      ultimately show ?thesis
        using u(2) by (simp add: spec(1,3) regs token_for_def)
    qed
  qed
  moreover have "bound_ok ?s"
    unfolding bound_ok_def regs
  proof (intro allI impI)
    fix r'
    assume reg': "registered s r'" and nz: "conn_UID ?s r' \<noteq> 0"
    show "gm_get (users ?s) (conn_UID ?s r') = Some r'"
    proof (cases "r' = r")
      case False
      then have "gm_get (users s) uid \<noteq> Some r'" and "gm_get (users s) (c_uid (heap s r')) = Some r'"
        using nz reg' bound_okD [of s r'] ok by (auto simp: spec(1) session_ok_def split: if_splits)
      then show ?thesis
        using False by (auto simp: spec(1,2))
    qed (simp add: spec(1,2))
  qed
  ultimately show ?thesis
    using ok spec(7) by (simp add: session_ok_def maps_ok_def spec(3-6))
qed

lemma nextGeneration_frame:
  assumes "nextGeneration s uid = (g, s')"
  shows "g \<noteq> 0" and "s' = s\<lparr>generations := gm_set (generations s) uid g\<rparr>"
  using assms by (auto simp: nextGeneration_def Let_def split: if_splits)

lemma generations_ok:
  assumes "session_ok s" and "gm_ok gens"
  shows "session_ok (s\<lparr>generations := gens\<rparr>)"
proof -
  let ?s = "s\<lparr>generations := gens\<rparr>"
  have "conns_ok ?s \<longleftrightarrow> conns_ok s" "channels_ok ?s \<longleftrightarrow> channels_ok s"
    by (rule static_cong; simp)+
  moreover have "users_ok ?s \<longleftrightarrow> users_ok s" "bound_ok ?s \<longleftrightarrow> bound_ok s"
    by (rule bindings_cong; simp)+
  ultimately show ?thesis
    using assms by (simp add: session_ok_def maps_ok_def)
qed

lemma conn_registered:
  assumes "session_ok s" and "conn s kind target = Ok r"
  shows "registered s r"
  using assms users_okD(3) [of s] conns_registered [OF assms(1)]
  by (auto simp: conn_def session_ok_def split: if_splits option.splits)

lemma gens_ok: "session_ok s \<Longrightarrow> gm_ok (generations s)"
  by (simp add: session_ok_def maps_ok_def)

lemma Bind_ok:
  assumes ok: "session_ok s" and "uid \<noteq> 0"
  shows "session_ok (fst (Session_Bind s cid uid))"
proof (cases "conn s Conn cid")
  case (Ok r)
  obtain g s' where g: "nextGeneration s uid = (g, s')"
    by fastforce
  have s': "session_ok s'" "registered s' r"
    using nextGeneration_frame [OF g] generations_ok [OF ok] gens_ok [OF ok]
      conn_registered [OF ok Ok] by (simp_all add: registered_def)
  show ?thesis
    using Ok bindToken_ok [OF s' assms(2)] nextGeneration_frame(1) [OF g] ok
    by (simp add: Session_Bind_def g)
qed (simp_all add: Session_Bind_def ok)

lemma BindToken_ok:
  assumes ok: "session_ok s"
  shows "session_ok (fst (BindToken s cid uid token))"
proof (cases "conn s Conn cid")
  case (Ok r)
  show ?thesis
  proof (cases "sint uid \<le> 0 \<or> UID token \<noteq> uid \<or> Generation token = 0")
    case False
    then have "uid \<noteq> 0" by auto
    then have b: "session_ok (bindToken s r uid token)"
      using False bindToken_ok [OF ok conn_registered [OF ok Ok]] by auto
    show ?thesis
      using False Ok b generations_ok [OF b] gens_ok [OF b] by (simp add: BindToken_def Let_def)
  qed (simp add: BindToken_def ok)
qed (simp_all add: BindToken_def ok)

lemma Unbind_ok:
  assumes ok: "session_ok s"
  shows "session_ok (fst (Session_Unbind s uid))"
proof (cases "conn s User uid")
  case (Ok r)
  let ?s = "fst (Session_Unbind s uid)"
  have u: "gm_get (users s) uid = Some r"
    using Ok by (auto simp: conn_def split: option.splits)
  have s: "?s = s\<lparr>heap := (heap s)(r := (heap s r)\<lparr>c_uid := 0\<rparr>), users := gm_del (users s) uid\<rparr>"
    using Ok by (simp add: Session_Unbind_def Let_def conn_Unbind_def)
  have reg: "registered s r" "c_uid (heap s r) = uid"
    using ok users_okD [OF _ u] by (auto simp: session_ok_def)
  have regs: "registered ?s r' \<longleftrightarrow> registered s r'" for r'
    by (rule registered_cong) (simp_all add: s)
  have "conns_ok ?s \<longleftrightarrow> conns_ok s" "channels_ok ?s \<longleftrightarrow> channels_ok s"
    by (rule static_cong; simp add: s)+
  moreover have "users_ok ?s"
    unfolding users_ok_def
  proof (intro allI impI)
    fix v r'
    assume "gm_get (users ?s) v = Some r'"
    then have v: "gm_get (users s) v = Some r'" "v \<noteq> uid"
      by (auto simp: s split: if_splits)
    then have "v \<noteq> 0" "c_uid (heap s r') = v" "registered s r'" "token_for s r' v"
      using ok users_okD [OF _ v(1)] by (auto simp: session_ok_def)
    then show "v \<noteq> 0 \<and> conn_UID ?s r' = v \<and> registered ?s r' \<and> token_for ?s r' v"
      using reg(2) v(2) regs [of r'] by (auto simp only: s conn_defs token_for_def) auto
  qed
  moreover have "bound_ok ?s"
    unfolding bound_ok_def regs
  proof (intro allI impI)
    fix r'
    assume reg': "registered s r'" and nz: "conn_UID ?s r' \<noteq> 0"
    then have "r' \<noteq> r" and "gm_get (users s) (c_uid (heap s r')) = Some r'"
      using users_of_conn [OF ok reg', of "c_uid (heap s r')"] by (auto simp: s split: if_splits)
    then show "gm_get (users ?s) (conn_UID ?s r') = Some r'"
      using u by (auto simp: s)
  qed
  ultimately show ?thesis
    using ok by (simp add: session_ok_def maps_ok_def s)
qed (simp_all add: Session_Unbind_def ok)

subsection \<open>Subscriptions\<close>

lemma subscribe_conn_ok:
  assumes ok: "session_ok s" and reg: "registered s r"
  shows "session_ok (subscribe_conn s ch r)"
proof -
  let ?a = "attr_Set s r (KString ch)"
  let ?ms = "case gm_get (channels s) ch of None \<Rightarrow> [r] | Some ms \<Rightarrow> List.insert r ms"
  have a: "session_ok ?a"
    by (rule attr_Set_ok [OF ok])
  have s: "subscribe_conn s ch r = ?a\<lparr>channels := gm_set (channels s) ch ?ms\<rparr>"
    by (auto simp: subscribe_conn_def attr_Set_def split: option.splits)
  let ?s = "?a\<lparr>channels := gm_set (channels s) ch ?ms\<rparr>"
  have regs: "registered ?s r' \<longleftrightarrow> registered s r'" for r'
    by (rule registered_cong) (simp_all add: attr_Set_def)
  have "users_ok ?s \<longleftrightarrow> users_ok ?a" "bound_ok ?s \<longleftrightarrow> bound_ok ?a"
    by (rule bindings_cong; simp)+
  moreover have "conns_ok ?s \<longleftrightarrow> conns_ok ?a"
    by (simp add: conns_ok_def)
  moreover have "channels_ok ?s"
    unfolding channels_ok_def regs
  proof (intro allI impI)
    fix c ms
    assume "gm_get (channels ?s) c = Some ms"
    then have ms: "(c = ch \<and> ms = ?ms) \<or> gm_get (channels s) c = Some ms \<and> c \<noteq> ch"
      by (auto split: if_splits)
    have chs: "channels_ok s"
      using ok by (simp add: session_ok_def)
    show "ms \<noteq> [] \<and> distinct ms \<and> (\<forall>r \<in> set ms. registered s r \<and> KString c \<in> set (c_attr (heap ?s r)))"
      using ms chs reg channels_okD [OF chs]
      by (auto simp: attr_Set_def List.insert_def split: option.splits if_splits)
  qed
  ultimately show ?thesis
    using a ok by (simp add: session_ok_def maps_ok_def s)
qed

lemma unsubscribe_conn_ok:
  assumes ok: "session_ok s"
  shows "session_ok (unsubscribe_conn s ch r)"
proof -
  let ?s = "unsubscribe_conn s ch r"
  let ?h = "(heap s)(r := (heap s r)\<lparr>c_attr := removeAll (KString ch) (c_attr (heap s r))\<rparr>)"
  have frame: "heap ?s = ?h" "conns ?s = conns s" "users ?s = users s" "tokens ?s = tokens s"
    "generations ?s = generations s"
    by (auto simp: unsubscribe_conn_def attr_Del_def doUnsubscribe_def Let_def split: option.splits)
  have maps: "maps_ok ?s"
    using ok doUnsubscribe_frame(2) [of "s\<lparr>heap := ?h\<rparr>" ch r]
    by (simp add: session_ok_def maps_ok_def frame) (simp add: unsubscribe_conn_def attr_Del_def)
  have get: "gm_get (channels ?s) c =
      (if c = ch \<and> KString ch \<in> set (c_attr (heap s r)) then drop_member r (gm_get (channels s) c)
       else gm_get (channels s) c)" for c
    by (auto simp: unsubscribe_conn_def attr_Del_def doUnsubscribe_get)
  have regs: "registered ?s r' \<longleftrightarrow> registered s r'" for r'
    by (rule registered_cong) (simp_all add: frame)
  have "users_ok ?s \<longleftrightarrow> users_ok s" "bound_ok ?s \<longleftrightarrow> bound_ok s"
    by (rule bindings_cong; simp add: frame)+
  moreover have "conns_ok ?s"
    using ok by (auto simp: session_ok_def conns_ok_def frame)
  moreover have "channels_ok ?s"
    unfolding channels_ok_def regs get
  proof (intro allI impI)
    fix c ms
    assume *: "(if c = ch \<and> KString ch \<in> set (c_attr (heap s r)) then drop_member r (gm_get (channels s) c)
       else gm_get (channels s) c) = Some ms"
    have chs: "channels_ok s"
      using ok by (simp add: session_ok_def)
    show "ms \<noteq> [] \<and> distinct ms \<and> (\<forall>r \<in> set ms. registered s r \<and> KString c \<in> set (c_attr (heap ?s r)))"
      using * channels_okD [OF chs]
      by (auto simp: frame drop_member_Some distinct_removeAll split: if_splits)
  qed
  ultimately show ?thesis
    using ok maps by (simp add: session_ok_def)
qed

lemma subscribe_conn_frame:
  "conns (subscribe_conn s ch r) = conns s" "c_id (heap (subscribe_conn s ch r) r') = c_id (heap s r')"
  by (auto simp: subscribe_conn_def attr_Set_def Let_def split: option.splits)

lemma unsubscribe_conn_frame:
  "conns (unsubscribe_conn s ch r) = conns s" "c_id (heap (unsubscribe_conn s ch r) r') = c_id (heap s r')"
  by (auto simp: unsubscribe_conn_def attr_Del_def doUnsubscribe_def Let_def split: option.splits)

lemma each_target_ok:
  assumes "session_ok s" and "\<And>t r. gm_get m t = Some r \<Longrightarrow> registered s r"
    and "\<And>s r. session_ok s \<Longrightarrow> registered s r \<Longrightarrow> session_ok (f s r)"
    and "\<And>s r r'. registered (f s r) r' \<longleftrightarrow> registered s r'"
  shows "session_ok (each_target f m targets s)"
  using assms(1,2)
  by (induction targets arbitrary: s) (simp_all add: assms(3,4) split: option.splits)

lemma conns_of_registered:
  assumes "session_ok s" and "conns_of s kind = Ok m" and "gm_get m t = Some r"
  shows "registered s r"
  using assms users_okD(3) [of s t r] conns_registered [OF assms(1)]
  by (auto simp: conns_of_def session_ok_def split: if_splits)

lemma Subscribe_ok:
  assumes "session_ok s"
  shows "session_ok (fst (Session_Subscribe s kind targets ch))"
    and "session_ok (fst (Session_Unsubscribe s kind targets ch))"
proof -
  have "session_ok (each_target (\<lambda>s r. subscribe_conn s ch r) m targets s)"
    "session_ok (each_target (\<lambda>s r. unsubscribe_conn s ch r) m targets s)"
    if "conns_of s kind = Ok m" for m
    using conns_of_registered [OF assms that]
    by (auto intro!: each_target_ok subscribe_conn_ok unsubscribe_conn_ok assms
      simp: registered_def subscribe_conn_frame unsubscribe_conn_frame)
  then show "session_ok (fst (Session_Subscribe s kind targets ch))"
    "session_ok (fst (Session_Unsubscribe s kind targets ch))"
    using assms by (auto simp: Session_Subscribe_def Session_Unsubscribe_def split: res.splits)
qed

subsection \<open>Reachable tables\<close>

text \<open>
  The steps of a gate: a connection is opened and added unbound, is bound and unbound, subscribes
  and unsubscribes, gets string attributes, and is removed.  Binding to user 0 is not a step of a
  gate: \<open>provider.Bind\<close> rejects user ids that are not positive.
\<close>

inductive session_step :: "Session \<Rightarrow> Session \<Rightarrow> bool" where
  step_open: "\<not> registered s r \<Longrightarrow> gm_get (conns s) cid = None \<Longrightarrow>
     session_step s (AddConn (open_conn s r cid) r)"
| step_attr: "session_step s (attr_Set s r (KString k))"
| step_bind: "uid \<noteq> 0 \<Longrightarrow> session_step s (fst (Session_Bind s cid uid))"
| step_bindToken: "session_step s (fst (BindToken s cid uid token))"
| step_unbind: "session_step s (fst (Session_Unbind s uid))"
| step_subscribe: "session_step s (fst (Session_Subscribe s kind targets ch))"
| step_unsubscribe: "session_step s (fst (Session_Unsubscribe s kind targets ch))"
| step_remove: "registered s r \<Longrightarrow> session_step s (fst (RemConnWithToken s r))"

inductive session_reachable :: "Session \<Rightarrow> bool" where
  reach_init: "session_reachable (NewSession h)"
| reach_step: "session_reachable s \<Longrightarrow> session_step s s' \<Longrightarrow> session_reachable s'"

lemma session_step_ok: "session_step s s' \<Longrightarrow> session_ok s \<Longrightarrow> session_ok s'"
proof (induction rule: session_step.induct)
  case (step_open s r cid)
  then show ?case
    using open_conn_ok [of s r cid] by (intro AddConn_ok) (simp_all add: open_conn_def)
qed (simp_all add: attr_Set_ok Bind_ok BindToken_ok Unbind_ok Subscribe_ok RemConn_ok)

lemma session_reachable_ok: "session_reachable s \<Longrightarrow> session_ok s"
  by (induction rule: session_reachable.induct) (auto intro: session_ok_New session_step_ok)

section \<open>Ownership of users\<close>

text \<open>
  The abstract view of the table: which connection holds a user.  The operations refine simple
  updates of this partial map, and a connection holds at most one user.
\<close>

definition owner :: "Session \<Rightarrow> int64 \<Rightarrow> int64 option" where
  "owner s uid = map_option (\<lambda>r. conn_ID s r) (gm_get (users s) uid)"

definition move_owner :: "(int64 \<Rightarrow> int64 option) \<Rightarrow> int64 \<Rightarrow> int64 \<Rightarrow> int64 \<Rightarrow> int64 option" where
  "move_owner f cid uid = (\<lambda>u. if u = uid then Some cid else if f u = Some cid then None else f u)"

definition drop_conn :: "(int64 \<Rightarrow> int64 option) \<Rightarrow> int64 \<Rightarrow> int64 \<Rightarrow> int64 option" where
  "drop_conn f cid = (\<lambda>u. if f u = Some cid then None else f u)"

lemma registered_inj:
  "registered s r \<Longrightarrow> registered s r' \<Longrightarrow> c_id (heap s r) = c_id (heap s r') \<Longrightarrow> r = r'"
  by (simp add: registered_def)

lemma user_registered:
  "session_ok s \<Longrightarrow> gm_get (users s) u = Some r \<Longrightarrow> registered s r"
  using users_okD(3) [of s u r] by (simp add: session_ok_def)

lemma owner_iff:
  assumes "session_ok s" and "registered s r"
  shows "owner s u = Some (c_id (heap s r)) \<longleftrightarrow> gm_get (users s) u = Some r"
  using registered_inj [OF assms(2)] user_registered [OF assms(1), of u]
  by (fastforce simp: owner_def)

lemma owner_inj:
  assumes "session_ok s" and "owner s u = Some c" and "owner s v = Some c"
  shows "u = v"
proof -
  obtain r where r: "gm_get (users s) u = Some r" "c = c_id (heap s r)"
    using assms(2) by (auto simp: owner_def)
  have reg: "registered s r"
    by (rule user_registered [OF assms(1) r(1)])
  have "gm_get (users s) v = Some r"
    using owner_iff [OF assms(1) reg, of v] assms(3) r(2) by simp
  then show ?thesis
    using users_of_conn [OF assms(1) reg] r(1) by auto
qed

lemma bindToken_owner:
  assumes ok: "session_ok s" and reg: "registered s r" and "uid \<noteq> 0"
  shows "owner (bindToken s r uid token) = move_owner (owner s) (c_id (heap s r)) uid"
proof
  fix u
  note spec = bindToken_spec [OF assms]
  show "owner (bindToken s r uid token) u = move_owner (owner s) (c_id (heap s r)) uid u"
    using owner_iff [OF ok reg, of u]
    by (cases "gm_get (users s) u") (auto simp: owner_def move_owner_def spec(1,2))
qed

lemma conn_ConnD: "conn s Conn cid = Ok r \<Longrightarrow> gm_get (conns s) cid = Some r"
  by (auto simp: conn_def split: option.splits)

lemma conn_id:
  assumes "session_ok s" and "conn s Conn cid = Ok r"
  shows "c_id (heap s r) = cid"
  using assms(1) conns_okD(1) [OF _ conn_ConnD [OF assms(2)]] by (simp add: session_ok_def)

lemma owner_generations: "owner (s\<lparr>generations := g\<rparr>) = owner s"
  by (simp add: owner_def fun_eq_iff)

lemma Bind_owner:
  assumes ok: "session_ok s" and uid: "uid \<noteq> 0" and c: "conn s Conn cid = Ok r"
  shows "snd (Session_Bind s cid uid) = Ok ()"
    and "owner (fst (Session_Bind s cid uid)) = move_owner (owner s) cid uid"
proof -
  show "snd (Session_Bind s cid uid) = Ok ()"
    using c by (simp add: Session_Bind_def split: prod.splits)
  have reg: "registered s r"
    by (rule conn_registered [OF ok c])
  show "owner (fst (Session_Bind s cid uid)) = move_owner (owner s) cid uid"
  proof (cases "c_uid (heap s r) = uid")
    case True
    have "owner s u = Some cid \<longleftrightarrow> u = uid" for u
      using owner_iff [OF ok reg, of u] users_of_conn [OF ok reg, of u] uid conn_id [OF ok c] True by auto
    then have "move_owner (owner s) cid uid u = owner s u" for u
      by (cases "u = uid") (simp_all add: move_owner_def, metis)
    then have "move_owner (owner s) cid uid = owner s"
      by blast
    then show ?thesis
      using True c by (simp add: Session_Bind_def)
  next
    case False
    obtain g s' where g: "nextGeneration s uid = (g, s')"
      by fastforce
    note s' = nextGeneration_frame(2) [OF g]
    have "session_ok s'" and "registered s' r"
      using generations_ok [OF ok] gens_ok [OF ok] reg by (simp_all add: s' registered_def)
    from bindToken_owner [OF this uid] show ?thesis
      using False conn_id [OF ok c] c by (simp add: Session_Bind_def g s' owner_generations)
  qed
qed

lemma BindToken_owner:
  assumes ok: "session_ok s" and c: "conn s Conn cid = Ok r"
    and "0 < sint uid" and "UID token = uid" and "Generation token \<noteq> 0"
  shows "snd (BindToken s cid uid token) = Ok ()"
    and "owner (fst (BindToken s cid uid token)) = move_owner (owner s) cid uid"
proof -
  have "uid \<noteq> 0"
    using assms(3) by auto
  note b = bindToken_owner [OF ok conn_registered [OF ok c] this, of token]
  show "snd (BindToken s cid uid token) = Ok ()"
    "owner (fst (BindToken s cid uid token)) = move_owner (owner s) cid uid"
    using b conn_id [OF ok c] assms(3-5) c by (simp_all add: BindToken_def Let_def owner_generations)
qed

lemma Unbind_owner:
  "owner (fst (Session_Unbind s uid)) = (owner s)(uid := None)"
proof
  fix u
  show "owner (fst (Session_Unbind s uid)) u = ((owner s)(uid := None)) u"
    by (cases "gm_get (users s) uid"; cases "gm_get (users s) u")
      (auto simp: Session_Unbind_def conn_def Let_def conn_Unbind_def owner_def)
qed

lemma RemConn_owner:
  assumes ok: "session_ok s" and reg: "registered s r"
  shows "owner (fst (RemConnWithToken s r)) = drop_conn (owner s) (c_id (heap s r))"
proof
  fix u
  obtain s' where s': "fst (RemConnWithToken s r) = s'" "heap s' = heap s"
    "users s' = (if c_uid (heap s r) \<noteq> 0 then gm_del (users s) (c_uid (heap s r)) else users s)"
    using RemConnWithToken_spec [OF ok reg] by (metis fst_conv)
  have "gm_get (users s') u = (if gm_get (users s) u = Some r then None else gm_get (users s) u)"
    using users_of_conn [OF ok reg, of u] users_of_conn [OF ok reg, of "c_uid (heap s r)"]
    by (auto simp: s'(3))
  then show "owner (fst (RemConnWithToken s r)) u = drop_conn (owner s) (c_id (heap s r)) u"
    using owner_iff [OF ok reg, of u] by (auto simp: s'(1,2) owner_def drop_conn_def)
qed

section \<open>Fencing by tokens\<close>

lemma IsCurrent_iff:
  "IsCurrent s t \<longleftrightarrow> UID t \<noteq> 0 \<and> Generation t \<noteq> 0 \<and>
     (\<exists>r. gm_get (users s) (UID t) = Some r \<and> gm_get0 zero_token (tokens s) (conn_ID s r) = t)"
  by (auto simp: IsCurrent_def split: option.splits)

lemma IsCurrent_unique:
  "IsCurrent s t \<Longrightarrow> IsCurrent s t' \<Longrightarrow> UID t = UID t' \<Longrightarrow> t = t'"
  by (auto simp: IsCurrent_iff)

lemma bindToken_current:
  assumes "session_ok s" and "registered s r" and "uid \<noteq> 0" and "UID token = uid" and "Generation token \<noteq> 0"
  shows "IsCurrent (bindToken s r uid token) token"
  using bindToken_spec [OF assms(1-3)] assms(3-5) by (auto simp: IsCurrent_iff)

lemma check_current_iff:
  "check_current s kind target token = Ok r \<longleftrightarrow>
     conn s kind target = Ok r \<and> gm_get (users s) (UID token) = Some r \<and>
     gm_get0 zero_token (tokens s) (conn_ID s r) = token"
  by (auto simp: check_current_def and_then_Ok_iff)

lemma check_current_current:
  assumes "check_current s kind target token = Ok r" and "UID token \<noteq> 0" and "Generation token \<noteq> 0"
  shows "IsCurrent s token \<and> gm_get (users s) (UID token) = Some r"
  using assms by (auto simp: check_current_iff IsCurrent_iff)

lemma check_current_err:
  "check_current s kind target token \<noteq> Panic"
  by (auto simp: check_current_def conn_def split: option.splits)

section \<open>Deliveries\<close>

definition members :: "Session \<Rightarrow> gostring \<Rightarrow> ref list" where
  "members s ch = gm_get0 [] (channels s) ch"

lemma subscribe_conn_members:
  "set (members (subscribe_conn s ch r) c) = (if c = ch then insert r (set (members s ch)) else set (members s c))"
  by (auto simp: members_def gm_get0_def subscribe_conn_def attr_Set_def Let_def split: option.splits)

lemma members_drop:
  "set (case drop_member r x of None \<Rightarrow> [] | Some ms \<Rightarrow> ms) = set (case x of None \<Rightarrow> [] | Some ms \<Rightarrow> ms) - {r}"
proof (cases x)
  case (Some ms)
  then show ?thesis
    by (cases "removeAll r ms = []") (auto simp: drop_member_def, metis removeAll_id set_removeAll Diff_iff empty_iff list.set(1) singletonD)
qed simp

lemma unsubscribe_conn_members:
  assumes "channels_ok s"
  shows "set (members (unsubscribe_conn s ch r) c) = (if c = ch then set (members s ch) - {r} else set (members s c))"
proof (cases "KString ch \<in> set (c_attr (heap s r))")
  case True
  then show ?thesis
    using members_drop [of r "gm_get (channels s) ch"]
    by (auto simp: members_def gm_get0_def unsubscribe_conn_def attr_Del_def doUnsubscribe_get)
next
  case False
  have "r \<notin> set (members s ch)"
    using False channels_okD(4) [OF assms, of ch _ r]
    by (cases "gm_get (channels s) ch") (auto simp: members_def gm_get0_def)
  then show ?thesis
    using False by (auto simp: members_def unsubscribe_conn_def attr_Del_def)
qed

definition targeted :: "(int64, ref) gomap \<Rightarrow> int64 list \<Rightarrow> ref set" where
  "targeted m targets = {r. \<exists>t \<in> set targets. gm_get m t = Some r}"

lemma targeted_simps [simp]:
  "targeted m [] = {}"
  "targeted m (t # ts) = set_option (gm_get m t) \<union> targeted m ts"
  by (auto simp: targeted_def)

lemma subscribe_loop_members:
  "set (members (each_target (\<lambda>s r. subscribe_conn s ch r) m targets s) c) =
     (if c = ch then set (members s ch) \<union> targeted m targets else set (members s c))"
  by (induction targets arbitrary: s) (auto simp: subscribe_conn_members split: option.splits)

lemma unsubscribe_loop_members:
  assumes "session_ok s"
  shows "set (members (each_target (\<lambda>s r. unsubscribe_conn s ch r) m targets s) c) =
     (if c = ch then set (members s ch) - targeted m targets else set (members s c))"
  using assms
proof (induction targets arbitrary: s)
  case (Cons t targets)
  show ?case
  proof (cases "gm_get m t")
    case (Some r)
    have "channels_ok s"
      using Cons.prems by (simp add: session_ok_def)
    then show ?thesis
      using Some Cons.IH [OF unsubscribe_conn_ok [OF Cons.prems]] unsubscribe_conn_members [of s ch r]
      by auto
  qed (use Cons in simp)
qed simp

lemma push_conn_simps:
  "fst (push_conn io d msg r) = io r (CPush msg)"
  "fst ` set (snd (push_conn io d msg r)) = {r}"
  "(r', CPush m) \<in> set (snd (push_conn io d msg r)) \<longleftrightarrow> r' = r \<and> m = msg"
  "(r', CClose f) \<in> set (snd (push_conn io d msg r)) \<longleftrightarrow> r' = r \<and> d \<and> f = [] \<and> io r (CPush msg) = None"
  by (auto simp: push_conn_def split: option.splits)

text \<open>The connections whose push succeeds.\<close>

definition delivered_to :: "io \<Rightarrow> byte list \<Rightarrow> ref list \<Rightarrow> ref list" where
  "delivered_to io msg rs = filter (\<lambda>r. io r (CPush msg) = None) rs"

lemma push_all_count:
  "length (filter (\<lambda>(e, _). e = None) (map (push_conn io d msg) rs)) = length (delivered_to io msg rs)"
  by (induction rs) (auto simp: delivered_to_def push_conn_def split: option.splits)

lemma push_all_errs:
  "(concat (map (\<lambda>(e, _). case e of None \<Rightarrow> [] | Some e \<Rightarrow> [e]) (map (push_conn io d msg) rs)) \<noteq> []) \<longleftrightarrow>
     (\<exists>r \<in> set rs. io r (CPush msg) \<noteq> None)"
  by (induction rs) (auto simp: push_conn_def split: option.splits)

lemma push_all_result:
  "fst (push_all io pick rs d msg) = Ok (length (delivered_to io msg rs)) \<or>
     (delivered_to io msg rs = [] \<and> rs \<noteq> [] \<and> (\<exists>e. fst (push_all io pick rs d msg) = Err e))"
proof (cases "delivered_to io msg rs = [] \<and> rs \<noteq> []")
  case True
  then show ?thesis
    using push_all_count [of io d msg rs] by (auto simp: push_all_def Let_def)
next
  case False
  then have "(\<exists>r \<in> set rs. io r (CPush msg) \<noteq> None) \<longrightarrow> delivered_to io msg rs \<noteq> []"
    by auto
  then show ?thesis
    unfolding push_all_def Let_def push_all_count push_all_errs by auto
qed

lemma push_all_calls:
  "(r, CPush m) \<in> set (snd (push_all io pick rs d msg)) \<longleftrightarrow> r \<in> set rs \<and> m = msg"
  "(r, CClose f) \<in> set (snd (push_all io pick rs d msg)) \<longleftrightarrow>
     r \<in> set (delivered_to io msg rs) \<and> d \<and> f = []"
  "(r, CSend m) \<notin> set (snd (push_all io pick rs d msg))"
  by (auto simp: push_all_def Let_def push_conn_simps delivered_to_def) (auto simp: push_conn_def split: option.splits)

section \<open>Properties\<close>

text \<open>A table with one open, unbound connection, id 5.\<close>

definition example_table :: Session where
  "example_table = AddConn (open_conn (NewSession (\<lambda>_. \<lparr>c_id = 0, c_uid = 0, c_attr = []\<rparr>)) 0 5) 0"

lemma example_table_reachable: "session_reachable example_table"
  unfolding example_table_def
  by (rule reach_step [OF reach_init step_open]) (simp_all add: registered_def NewSession_def)

lemma example_table_eq:
  "heap example_table 0 = \<lparr>c_id = 5, c_uid = 0, c_attr = []\<rparr>" "conns example_table = [(5, 0)]"
  "users example_table = []" "channels example_table = []" "tokens example_table = []"
  by (simp_all add: example_table_def AddConn_def open_conn_def NewSession_def gm_set_def)

lemma example_registered: "registered example_table 0"
  by (simp add: registered_def example_table_eq gm_get_def)

text \<open>
  C5: in every state the session table can reach by opening, binding, unbinding, subscribing, tagging and
  removing connections, in any order, the five maps agree: connections are stored under their ids; a user
  maps to a registered connection bound to that user with a valid token, and every bound connection is
  found under its user; channel members are registered connections tagged with the channel, without
  duplicates, and no channel is empty.
\<close>

theorem table_invariant:
  assumes "session_reachable s"
  shows "session_ok s"
  by (rule session_reachable_ok [OF assms])

theorem table_invariant_witness: "session_ok example_table"
  by (rule table_invariant [OF example_table_reachable])

text \<open>
  C4: the table refines a partial map from users to connections.  Binding (with a local or a given token)
  moves the user to the connection and drops the user the connection held before; unbinding removes the
  user; removing a connection removes the users it holds; nothing else changes, and a connection never
  holds two users.
\<close>

theorem table_refines_owner:
  assumes "session_reachable s"
  shows "(conn s Conn cid = Ok r \<and> uid \<noteq> 0 \<longrightarrow>
      snd (Session_Bind s cid uid) = Ok () \<and>
      owner (fst (Session_Bind s cid uid)) = move_owner (owner s) cid uid) \<and>
    (conn s Conn cid = Ok r \<and> 0 < sint uid \<and> UID token = uid \<and> Generation token \<noteq> 0 \<longrightarrow>
      snd (BindToken s cid uid token) = Ok () \<and>
      owner (fst (BindToken s cid uid token)) = move_owner (owner s) cid uid) \<and>
    owner (fst (Session_Unbind s uid)) = (owner s)(uid := None) \<and>
    (registered s r \<longrightarrow> owner (fst (RemConnWithToken s r)) = drop_conn (owner s) (conn_ID s r)) \<and>
    (owner s u = Some c \<and> owner s v = Some c \<longrightarrow> u = v)"
proof -
  note ok = session_reachable_ok [OF assms]
  have "conn s Conn cid = Ok r \<and> uid \<noteq> 0 \<longrightarrow> snd (Session_Bind s cid uid) = Ok () \<and>
      owner (fst (Session_Bind s cid uid)) = move_owner (owner s) cid uid"
    using Bind_owner [OF ok] by blast
  moreover have "conn s Conn cid = Ok r \<and> 0 < sint uid \<and> UID token = uid \<and> Generation token \<noteq> 0 \<longrightarrow>
      snd (BindToken s cid uid token) = Ok () \<and>
      owner (fst (BindToken s cid uid token)) = move_owner (owner s) cid uid"
    using BindToken_owner [OF ok] by blast
  moreover have "owner s u = Some c \<and> owner s v = Some c \<longrightarrow> u = v"
    using owner_inj [OF ok] by blast
  moreover have "registered s r \<longrightarrow> owner (fst (RemConnWithToken s r)) = drop_conn (owner s) (conn_ID s r)"
    using RemConn_owner [OF ok] by simp
  moreover have "owner (fst (Session_Unbind s uid)) = (owner s)(uid := None)"
    by (rule Unbind_owner)
  ultimately show ?thesis
    by blast
qed

theorem table_refines_owner_witness:
  "owner (fst (Session_Bind example_table 5 77)) = move_owner (owner example_table) 5 77"
  using table_refines_owner [OF example_table_reachable, of 5 0 77]
  by (simp add: conn_def example_table_eq gm_get_def)

lemma check_current_stale:
  assumes "\<not> IsCurrent s t"
  shows "snd (SendCurrent io s kind target t d msg) = [] \<and> snd (CloseCurrent io s kind target t force) = []"
proof (cases "sint (UID t) \<le> 0 \<or> Generation t = 0")
  case False
  then have "check_current s kind target t \<noteq> Ok r" for r
    using check_current_current [of s kind target t r] assms by (metis order.refl signed_0)
  then show ?thesis
    using False by (auto simp: SendCurrent_def CloseCurrent_def split: res.splits)
qed (auto simp: SendCurrent_def CloseCurrent_def)

text \<open>
  binding with a token supersedes every other token of the user: the new token is current, the user
  belongs to the connection, no other token of that user is current any more, and a fenced send or close
  with such a token reaches no connection.
\<close>

lemma binding_supersedes:
  assumes "session_reachable s" and "conn s Conn cid = Ok r"
    and "0 < sint uid" and "UID token = uid" and "Generation token \<noteq> 0"
    and "BindToken s cid uid token = (s', m)"
  shows "m = Ok () \<and> IsCurrent s' token \<and> owner s' uid = Some cid \<and>
    (\<forall>t. UID t = uid \<and> t \<noteq> token \<longrightarrow> \<not> IsCurrent s' t \<and>
      snd (SendCurrent io s' kind target t d msg) = [] \<and> snd (CloseCurrent io s' kind target t force) = [])"
proof -
  note ok = session_reachable_ok [OF assms(1)]
  have nz: "uid \<noteq> 0"
    using assms(3) by auto
  note reg = conn_registered [OF ok assms(2)]
  have cur: "IsCurrent s' token"
    using bindToken_current [OF ok reg nz assms(4,5)] assms(2-6)
    by (auto simp: BindToken_def Let_def IsCurrent_iff)
  moreover have "m = Ok ()" "owner s' uid = Some cid"
    using BindToken_owner [OF ok assms(2-5)] assms(6) by (simp_all add: move_owner_def)
  moreover have "\<not> IsCurrent s' t" if "UID t = uid" "t \<noteq> token" for t
    using IsCurrent_unique [OF cur, of t] that assms(4) by auto
  ultimately show ?thesis
    using check_current_stale by blast
qed

lemma binding_supersedes_witness:
  "let s' = fst (BindToken example_table 5 77 \<lparr>UID = 77, Generation = 3\<rparr>)
   in IsCurrent s' \<lparr>UID = 77, Generation = 3\<rparr> \<and> owner s' 77 = Some 5 \<and>
      snd (SendCurrent (\<lambda>_ _. None) s' User 77 \<lparr>UID = 77, Generation = 2\<rparr> True [1]) = []"
  using binding_supersedes [OF example_table_reachable, of 5 0 77 "\<lparr>UID = 77, Generation = 3\<rparr>"
      "fst (BindToken example_table 5 77 \<lparr>UID = 77, Generation = 3\<rparr>)"
      "snd (BindToken example_table 5 77 \<lparr>UID = 77, Generation = 3\<rparr>)" "\<lambda>_ _. None" User 77 True "[1]" "[]"]
  by (simp add: conn_def example_table_eq gm_get_def Let_def)

text \<open>
  removing a connection of a reachable table succeeds and forgets it everywhere: it is no longer
  registered, owns no user, its token is returned and not current any more, and it is a member of no
  channel, while the other members of every channel stay.
\<close>

lemma removed_everywhere:
  assumes "session_reachable s" and "registered s r"
  shows "\<exists>s'. RemConnWithToken s r = (s', Ok (conn_UID s r, gm_get0 zero_token (tokens s) (conn_ID s r))) \<and>
    session_ok s' \<and> \<not> registered s' r \<and> owner s' = drop_conn (owner s) (conn_ID s r) \<and>
    (\<forall>ch. set (members s' ch) = set (members s ch) - {r})"
proof -
  note ok = session_reachable_ok [OF assms(1)]
  obtain s' where s': "RemConnWithToken s r =
      (s', Ok (c_uid (heap s r), gm_get0 zero_token (tokens s) (c_id (heap s r))))"
    "heap s' = heap s" "conns s' = gm_del (conns s) (c_id (heap s r))"
    "\<And>c. gm_get (channels s') c = drop_member r (gm_get (channels s) c)"
    using RemConnWithToken_spec [OF ok assms(2)] by metis
  have "set (members s' ch) = set (members s ch) - {r}" for ch
    using members_drop [of r "gm_get (channels s) ch"] by (simp add: members_def gm_get0_def s'(4))
  then show ?thesis
    using s' RemConn_ok [OF ok assms(2)] RemConn_owner [OF ok assms(2)]
    by (intro exI [of _ s']) (simp add: registered_def)
qed

lemma removed_everywhere_witness:
  "\<exists>s'. RemConnWithToken example_table 0 =
      (s', Ok (conn_UID example_table 0, gm_get0 zero_token (tokens example_table) (conn_ID example_table 0))) \<and>
    session_ok s' \<and> \<not> registered s' 0 \<and> owner s' = drop_conn (owner example_table) (conn_ID example_table 0) \<and>
    (\<forall>ch. set (members s' ch) = set (members example_table ch) - {0})"
  by (rule removed_everywhere [OF example_table_reachable example_registered])

text \<open>
  a publication reaches exactly the subscribers: after any subscription of targets to a channel the
  members are the old members and the connections of the targets, after an unsubscription the old members
  without them, other channels are untouched; and publishing calls push with the message on every member
  and on nobody else, closes exactly the members whose push succeeded (when asked to), and returns the
  number of successful pushes unless none of them succeeded.
\<close>

lemma publish_reaches_subscribers:
  assumes "session_reachable s" and "conns_of s kind = Ok m" and "targets \<noteq> []"
  shows "set (members (fst (Session_Subscribe s kind targets ch)) c) =
      (if c = ch then set (members s ch) \<union> targeted m targets else set (members s c)) \<and>
    set (members (fst (Session_Unsubscribe s kind targets ch)) c) =
      (if c = ch then set (members s ch) - targeted m targets else set (members s c)) \<and>
    ((r, CPush x) \<in> set (snd (Session_Publish io pick s ch d msg)) \<longleftrightarrow> r \<in> set (members s ch) \<and> x = msg) \<and>
    ((r, CClose f) \<in> set (snd (Session_Publish io pick s ch d msg)) \<longleftrightarrow>
      r \<in> set (delivered_to io msg (members s ch)) \<and> d \<and> f = []) \<and>
    (fst (Session_Publish io pick s ch d msg) = Ok (length (delivered_to io msg (members s ch))) \<or>
      (delivered_to io msg (members s ch) = [] \<and> members s ch \<noteq> [] \<and>
       (\<exists>e. fst (Session_Publish io pick s ch d msg) = Err e)))"
proof -
  note ok = session_reachable_ok [OF assms(1)]
  have "set (members (fst (Session_Subscribe s kind targets ch)) c) =
      (if c = ch then set (members s ch) \<union> targeted m targets else set (members s c))"
    using assms(2,3) subscribe_loop_members by (simp add: Session_Subscribe_def)
  moreover have "set (members (fst (Session_Unsubscribe s kind targets ch)) c) =
      (if c = ch then set (members s ch) - targeted m targets else set (members s c))"
    using assms(2,3) unsubscribe_loop_members [OF ok] by (simp add: Session_Unsubscribe_def)
  moreover have "(r, CPush x) \<in> set (snd (Session_Publish io pick s ch d msg)) \<longleftrightarrow> r \<in> set (members s ch) \<and> x = msg"
    "(r, CClose f) \<in> set (snd (Session_Publish io pick s ch d msg)) \<longleftrightarrow>
      r \<in> set (delivered_to io msg (members s ch)) \<and> d \<and> f = []"
    by (auto simp: Session_Publish_def members_def gm_get0_def push_all_calls delivered_to_def split: option.splits)
  moreover have "fst (Session_Publish io pick s ch d msg) = Ok (length (delivered_to io msg (members s ch))) \<or>
      (delivered_to io msg (members s ch) = [] \<and> members s ch \<noteq> [] \<and>
       (\<exists>e. fst (Session_Publish io pick s ch d msg) = Err e))"
    using push_all_result [of io pick _ d msg]
    by (auto simp: Session_Publish_def members_def gm_get0_def delivered_to_def split: option.splits)
  ultimately show ?thesis
    by blast
qed

lemma publish_reaches_subscribers_witness:
  "set (members (fst (Session_Subscribe example_table Conn [5] [97])) [97]) =
     (if [97 :: byte] = [97] then set (members example_table [97]) \<union> targeted (conns example_table) [5]
      else set (members example_table [97]))"
  by (rule conjunct1 [OF publish_reaches_subscribers [OF example_table_reachable]]) (simp_all add: conns_of_def)

end
