(* ===== verification/Ownership.thy ===== *)
theory Ownership
  imports Session_Types Go_Map
begin

text \<open>
  Ownership of users across gates: the contract of \<open>session/ownership.go\<close> as the locale
  \<open>ownership_store\<close>, what every implementation of it guarantees to its clients, and the in-process
  implementation of \<open>session/ownership_memory.go\<close>.
\<close>

section \<open>The contract\<close>

text \<open>A run of the store: the operations of all clients in the order they take effect.\<close>

datatype store_op = OpAcquire int64 | OpRelease int64 Token

fun store_run ::
    "('s \<Rightarrow> int64 \<Rightarrow> 's \<times> Token res) \<Rightarrow> ('s \<Rightarrow> int64 \<Rightarrow> Token \<Rightarrow> 's \<times> bool res) \<Rightarrow>
     store_op list \<Rightarrow> 's \<Rightarrow> 's \<times> Token list" where
  "store_run acquire release [] s = (s, [])"
| "store_run acquire release (OpAcquire uid # ops) s =
     (case acquire s uid of
        (s', Ok t) \<Rightarrow> (case store_run acquire release ops s' of (s'', ts) \<Rightarrow> (s'', t # ts))
      | (s', _) \<Rightarrow> store_run acquire release ops s')"
| "store_run acquire release (OpRelease uid t # ops) s =
     store_run acquire release ops (fst (release s uid t))"

text \<open>
  \<open>Implementations must allocate a generation that is newer than every generation previously
  allocated for the same UID.\<close>  \<open>issued s uid\<close> is the newest generation allocated so far.  An acquisition that
  fails may have used up generations and may have left a newer token current.
\<close>

locale ownership_store =
  fixes acquire :: "'s \<Rightarrow> int64 \<Rightarrow> 's \<times> Token res"
    and current :: "'s \<Rightarrow> int64 \<Rightarrow> Token option res"
    and release :: "'s \<Rightarrow> int64 \<Rightarrow> Token \<Rightarrow> 's \<times> bool res"
    and inv :: "'s \<Rightarrow> bool"
    and issued :: "'s \<Rightarrow> int64 \<Rightarrow> uint64"
  assumes acquire_inv: "inv s \<Longrightarrow> inv (fst (acquire s uid))"
    and release_inv: "inv s \<Longrightarrow> inv (fst (release s uid t))"
    and acquire_newer: "inv s \<Longrightarrow> acquire s uid = (s', Ok t) \<Longrightarrow>
      UID t = uid \<and> issued s uid < Generation t \<and> issued s' uid = Generation t \<and>
      current s' uid = Ok (Some t)"
    and acquire_frame: "inv s \<Longrightarrow> v \<noteq> uid \<Longrightarrow>
      issued (fst (acquire s uid)) v = issued s v \<and> current (fst (acquire s uid)) v = current s v"
    and acquire_failed: "inv s \<Longrightarrow> acquire s uid = (s', m) \<Longrightarrow> \<not> is_ok m \<Longrightarrow>
      issued s uid \<le> issued s' uid \<and>
      (\<forall>t. current s' uid = Ok (Some t) \<longrightarrow> current s uid = Ok (Some t) \<or> issued s uid < Generation t)"
    and current_issued: "inv s \<Longrightarrow> current s uid = Ok (Some t) \<Longrightarrow>
      UID t = uid \<and> 0 < Generation t \<and> Generation t \<le> issued s uid"
    and release_issued: "inv s \<Longrightarrow> issued (fst (release s uid t)) = issued s"
    and release_current: "inv s \<Longrightarrow> current (fst (release s uid t)) v =
      (if v = uid \<and> current s uid = Ok (Some t) \<and> snd (release s uid t) = Ok True then Ok None
       else current s v)"
    and release_true: "inv s \<Longrightarrow> snd (release s uid t) = Ok True \<Longrightarrow> current s uid = Ok (Some t)"
    and release_false: "inv s \<Longrightarrow> snd (release s uid t) = Ok False \<Longrightarrow> current s uid \<noteq> Ok (Some t)"
begin

lemma acquire_cases:
  assumes "inv s"
  obtains (issued) s' t where "acquire s uid = (s', Ok t)"
  | (failed) s' m where "acquire s uid = (s', m)" "\<not> is_ok m"
proof (cases "acquire s uid")
  case (Pair s' m)
  then show ?thesis
    using that by (cases m) auto
qed

lemma acquire_monotone:
  assumes "inv s"
  shows "issued s v \<le> issued (fst (acquire s uid)) v"
proof (cases "v = uid")
  case True
  from assms show ?thesis
  proof (cases rule: acquire_cases [of _ uid])
    case (issued s' t)
    then show ?thesis
      using acquire_newer [OF assms issued] True by (simp add: less_imp_le)
  next
    case (failed s' m)
    then show ?thesis
      using acquire_failed [OF assms failed] True by simp
  qed
qed (simp add: acquire_frame [OF assms])

text \<open>A token that is not current and not newer than what was issued never becomes current again.\<close>

definition stale :: "'s \<Rightarrow> Token \<Rightarrow> bool" where
  "stale s t \<longleftrightarrow> Generation t \<le> issued s (UID t) \<and> current s (UID t) \<noteq> Ok (Some t)"

lemma stale_acquire:
  assumes "inv s" and "stale s t"
  shows "stale (fst (acquire s uid)) t"
proof (cases "UID t = uid")
  case True
  from assms(1) show ?thesis
  proof (cases rule: acquire_cases [of _ uid])
    case (issued s' u)
    then show ?thesis
      using acquire_newer [OF assms(1) issued] assms(2) True by (auto simp: stale_def)
  next
    case (failed s' m)
    then show ?thesis
      using acquire_failed [OF assms(1) failed] assms(2) True by (auto simp: stale_def intro: order_trans)
  qed
qed (use assms(2) acquire_frame [OF assms(1)] in \<open>simp add: stale_def\<close>)

lemma stale_release:
  assumes "inv s" and "stale s t"
  shows "stale (fst (release s uid u)) t"
  using assms release_current [OF assms(1), of uid u "UID t"] release_issued [OF assms(1), of uid u]
  by (auto simp: stale_def)

lemma stale_forever:
  assumes "inv s" and "stale s t" and "store_run acquire release ops s = (s', ts)"
  shows "stale s' t \<and> t \<notin> set ts"
  using assms
proof (induction ops arbitrary: s ts)
  case (Cons op ops)
  show ?case
  proof (cases op)
    case (OpAcquire uid)
    obtain s1 m where a: "acquire s uid = (s1, m)"
      by fastforce
    have 1: "inv s1" "stale s1 t"
      using acquire_inv [OF Cons.prems(1), of uid] stale_acquire [OF Cons.prems(1,2), of uid] a by simp_all
    show ?thesis
    proof (cases m)
      case (Ok u)
      have "u \<noteq> t"
        using acquire_newer [OF Cons.prems(1)] a Ok 1(2) by (auto simp: stale_def)
      then show ?thesis
        using Cons.IH [OF 1] Cons.prems(3) a Ok OpAcquire by (auto split: prod.splits)
    qed (use Cons.IH [OF 1] Cons.prems(3) a OpAcquire in simp_all)
  next
    case (OpRelease uid u)
    then show ?thesis
      using Cons.IH [OF release_inv [OF Cons.prems(1)] stale_release [OF Cons.prems(1,2)]] Cons.prems(3)
      by simp
  qed
qed simp

lemma released_is_stale:
  assumes "inv s" and "release s uid t = (s', Ok True)"
  shows "stale s' t"
proof -
  have c: "current s uid = Ok (Some t)"
    using release_true [OF assms(1), of uid t] assms(2) by simp
  then show ?thesis
    using current_issued [OF assms(1) c] release_current [OF assms(1), of uid t uid]
      release_issued [OF assms(1), of uid t] assms(2) by (auto simp: stale_def)
qed

lemma release_not_current:
  assumes "inv s" and "is_ok (snd (release s uid t))"
  shows "current (fst (release s uid t)) uid \<noteq> Ok (Some t)"
proof -
  obtain b where b: "snd (release s uid t) = Ok b"
    using assms(2) by (auto simp: is_ok_iff)
  show ?thesis
    using b release_current [OF assms(1), of uid t uid] release_true [OF assms(1), of uid t]
      release_false [OF assms(1), of uid t] by (cases b) auto
qed

lemma superseded_is_stale:
  assumes "inv s" and "Generation t \<le> issued s (UID t)" and "acquire s (UID t) = (s', Ok u)"
  shows "stale s' t"
  using acquire_newer [OF assms(1,3)] assms(2) by (auto simp: stale_def)

text \<open>The generations issued for a user increase strictly over a run.\<close>

lemma issued_increasing:
  assumes "inv s" and "store_run acquire release ops s = (s', ts)"
  shows "sorted_wrt (\<lambda>t u. UID t = UID u \<longrightarrow> Generation t < Generation u) ts \<and>
    (\<forall>t \<in> set ts. issued s (UID t) < Generation t)"
  using assms
proof (induction ops arbitrary: s ts)
  case (Cons op ops)
  show ?case
  proof (cases op)
    case (OpAcquire uid)
    from Cons.prems(1) show ?thesis
    proof (cases rule: acquire_cases [of _ uid])
      case (issued s1 u)
      obtain ts' where ts: "ts = u # ts'" "store_run acquire release ops s1 = (s', ts')"
        using Cons.prems(2) issued OpAcquire by (auto split: prod.splits)
      have 1: "inv s1" and mono: "issued s v \<le> issued s1 v" for v
        using acquire_inv [OF Cons.prems(1), of uid] acquire_monotone [OF Cons.prems(1), of v uid] issued
        by simp_all
      have IH: "sorted_wrt (\<lambda>t u. UID t = UID u \<longrightarrow> Generation t < Generation u) ts'"
        "\<forall>t \<in> set ts'. issued s1 (UID t) < Generation t"
        using Cons.IH [OF 1 ts(2)] by simp_all
      have u: "UID u = uid" "issued s uid < Generation u" "issued s1 uid = Generation u"
        using acquire_newer [OF Cons.prems(1) issued] by simp_all
      have "issued s (UID t) < Generation t" if "t \<in> set ts'" for t
        using IH(2) that mono [of "UID t"] by (meson le_less_trans)
      then show ?thesis
        using IH u by (auto simp: ts(1))
    next
      case (failed s1 m)
      have 1: "inv s1" and mono: "issued s v \<le> issued s1 v" for v
        using acquire_inv [OF Cons.prems(1), of uid] acquire_monotone [OF Cons.prems(1), of v uid] failed
        by simp_all
      have "store_run acquire release ops s1 = (s', ts)"
        using failed Cons.prems(2) OpAcquire by (cases m) simp_all
      from Cons.IH [OF 1 this] show ?thesis
        using mono by (meson le_less_trans)
    qed
  next
    case (OpRelease uid u)
    then show ?thesis
      using Cons.IH [OF release_inv [OF Cons.prems(1)]] Cons.prems(2) release_issued [OF Cons.prems(1)]
      by auto
  qed
qed simp

end

section \<open>The in-process store\<close>

record MemoryOwnershipStore =
  owners :: "(int64, Token) gomap"
  mgenerations :: "(int64, uint64) gomap"

definition NewMemoryOwnershipStore :: MemoryOwnershipStore where
  "NewMemoryOwnershipStore = \<lparr>owners = [], mgenerations = []\<rparr>"

text \<open>\<open>ctx\<close> is the error of the caller's context, if it is done.\<close>

definition Mem_Acquire ::
    "goerror option \<Rightarrow> MemoryOwnershipStore \<Rightarrow> int64 \<Rightarrow> MemoryOwnershipStore \<times> Token res" where
  "Mem_Acquire ctx s uid =
     (case ctx of
        Some e \<Rightarrow> (s, Err e)
      | None \<Rightarrow>
          if sint uid \<le> 0 then (s, Err ErrInvalidArgument)
          else let currentGeneration = gm_get0 0 (mgenerations s) uid
               in if currentGeneration = - 1 then (s, Err ErrOwnershipGenerationExhausted)
                  else let token = \<lparr>UID = uid, Generation = currentGeneration + 1\<rparr>
                       in (s\<lparr>mgenerations := gm_set (mgenerations s) uid (Generation token),
                            owners := gm_set (owners s) uid token\<rparr>, Ok token))"

definition Mem_Current ::
    "goerror option \<Rightarrow> MemoryOwnershipStore \<Rightarrow> int64 \<Rightarrow> Token option res" where
  "Mem_Current ctx s uid =
     (case ctx of
        Some e \<Rightarrow> Err e
      | None \<Rightarrow> if sint uid \<le> 0 then Err ErrInvalidArgument else Ok (gm_get (owners s) uid))"

definition Mem_Release ::
    "goerror option \<Rightarrow> MemoryOwnershipStore \<Rightarrow> int64 \<Rightarrow> Token \<Rightarrow> MemoryOwnershipStore \<times> bool res" where
  "Mem_Release ctx s uid token =
     (case ctx of
        Some e \<Rightarrow> (s, Err e)
      | None \<Rightarrow>
          if sint uid \<le> 0 \<or> UID token \<noteq> uid \<or> Generation token = 0 then (s, Err ErrInvalidArgument)
          else case gm_get (owners s) uid of
                 None \<Rightarrow> (s, Ok False)
               | Some current \<Rightarrow>
                   if current \<noteq> token then (s, Ok False)
                   else (s\<lparr>owners := gm_del (owners s) uid\<rparr>, Ok True))"

definition mem_ok :: "MemoryOwnershipStore \<Rightarrow> bool" where
  "mem_ok s \<longleftrightarrow> (\<forall>uid t. gm_get (owners s) uid = Some t \<longrightarrow>
     UID t = uid \<and> 0 < Generation t \<and> Generation t \<le> gm_get0 0 (mgenerations s) uid)"

definition mem_issued :: "MemoryOwnershipStore \<Rightarrow> int64 \<Rightarrow> uint64" where
  "mem_issued s uid = gm_get0 0 (mgenerations s) uid"

lemma mem_ok_New: "mem_ok NewMemoryOwnershipStore"
  by (simp add: mem_ok_def NewMemoryOwnershipStore_def)

lemma succ_greater:
  assumes "(g :: uint64) \<noteq> - 1"
  shows "g < g + 1"
proof -
  have "g + 1 \<noteq> 0"
    using assms by (metis add.commute add_eq_0_iff)
  then show ?thesis
    using unatSuc [of g] by (simp add: word_less_nat_alt add.commute)
qed

interpretation mem: ownership_store "Mem_Acquire None" "Mem_Current None" "Mem_Release None" mem_ok mem_issued
proof
  fix s s' uid v t
  assume ok: "mem_ok s"
  show "mem_ok (fst (Mem_Acquire None s uid))"
    using ok succ_greater [of "gm_get0 0 (mgenerations s) uid"]
    by (auto simp: mem_ok_def Mem_Acquire_def Let_def intro: le_less_trans)
  show "mem_ok (fst (Mem_Release None s uid t))"
    using ok by (auto simp: mem_ok_def Mem_Release_def split: option.splits)
  show "UID t = uid \<and> mem_issued s uid < Generation t \<and> mem_issued s' uid = Generation t \<and>
      Mem_Current None s' uid = Ok (Some t)" if "Mem_Acquire None s uid = (s', Ok t)"
    using that succ_greater [of "gm_get0 0 (mgenerations s) uid"]
    by (auto simp: Mem_Acquire_def Mem_Current_def mem_issued_def Let_def split: if_splits)
  show "mem_issued (fst (Mem_Acquire None s uid)) v = mem_issued s v \<and>
      Mem_Current None (fst (Mem_Acquire None s uid)) v = Mem_Current None s v" if "v \<noteq> uid"
    using that by (auto simp: Mem_Acquire_def Mem_Current_def mem_issued_def Let_def)
  show "mem_issued s uid \<le> mem_issued s' uid \<and>
      (\<forall>t. Mem_Current None s' uid = Ok (Some t) \<longrightarrow> Mem_Current None s uid = Ok (Some t) \<or> mem_issued s uid < Generation t)"
    if "Mem_Acquire None s uid = (s', m)" "\<not> is_ok m" for m
    using that by (auto simp: Mem_Acquire_def Let_def split: if_splits)
  show "UID t = uid \<and> 0 < Generation t \<and> Generation t \<le> mem_issued s uid"
    if "Mem_Current None s uid = Ok (Some t)"
    using that ok by (auto simp: Mem_Current_def mem_ok_def mem_issued_def split: if_splits)
  show "mem_issued (fst (Mem_Release None s uid t)) = mem_issued s"
    by (auto simp: Mem_Release_def mem_issued_def fun_eq_iff split: option.splits)
  show "Mem_Current None (fst (Mem_Release None s uid t)) v =
      (if v = uid \<and> Mem_Current None s uid = Ok (Some t) \<and> snd (Mem_Release None s uid t) = Ok True
       then Ok None else Mem_Current None s v)"
    by (auto simp: Mem_Release_def Mem_Current_def split: option.splits)
  show "Mem_Current None s uid = Ok (Some t)" if "snd (Mem_Release None s uid t) = Ok True"
    using that by (auto simp: Mem_Release_def Mem_Current_def split: option.splits if_splits)
  show "Mem_Current None s uid \<noteq> Ok (Some t)" if "snd (Mem_Release None s uid t) = Ok False"
    using that by (auto simp: Mem_Release_def Mem_Current_def split: option.splits if_splits)
qed

section \<open>Properties\<close>

text \<open>
  C29: over any run of acquisitions and releases by any number of gates, starting from a sound store, the
  tokens issued for a user carry strictly increasing generations, none repeats one issued before the run,
  and a token that was superseded by a newer one or released never becomes current again and is never
  issued again.
\<close>

theorem generations_fence:
  assumes "mem_ok s" and "store_run (Mem_Acquire None) (Mem_Release None) ops s = (s', ts)"
  shows "sorted_wrt (\<lambda>t u. UID t = UID u \<longrightarrow> Generation t < Generation u) ts \<and>
    (\<forall>t \<in> set ts. mem_issued s (UID t) < Generation t) \<and>
    (\<forall>t. Generation t \<le> mem_issued s (UID t) \<and> Mem_Current None s (UID t) \<noteq> Ok (Some t) \<longrightarrow>
      Mem_Current None s' (UID t) \<noteq> Ok (Some t) \<and> t \<notin> set ts)"
  using mem.issued_increasing [OF assms] mem.stale_forever [OF assms(1) _ assms(2)]
  unfolding mem.stale_def by blast

theorem generations_fence_witness:
  "sorted_wrt (\<lambda>t u. UID t = UID u \<longrightarrow> Generation t < Generation u)
     (snd (store_run (Mem_Acquire None) (Mem_Release None)
        [OpAcquire 7, OpAcquire 7, OpRelease 7 \<lparr>UID = 7, Generation = 1\<rparr>, OpAcquire 7] NewMemoryOwnershipStore))"
  by (rule conjunct1 [OF generations_fence [OF mem_ok_New]]) (rule prod.collapse [symmetric])

text \<open>
  The three operations of the in-process store, on every branch: acquiring makes a strictly newer token
  current; it fails, changing nothing, for a user id that is not positive, a cancelled context, or
  exhausted generations; releasing removes the token if and only if it is the current one and leaves every
  other user alone.
\<close>

lemma memory_store_behaviour:
  assumes "mem_ok s"
  shows "(Mem_Acquire None s uid = (s', Ok t) \<longrightarrow>
      mem_ok s' \<and> UID t = uid \<and> mem_issued s uid < Generation t \<and> Mem_Current None s' uid = Ok (Some t)) \<and>
    (\<not> is_ok (snd (Mem_Acquire ctx s uid)) \<longleftrightarrow>
      ctx \<noteq> None \<or> sint uid \<le> 0 \<or> mem_issued s uid = - 1) \<and>
    (\<not> is_ok (snd (Mem_Acquire ctx s uid)) \<longrightarrow> fst (Mem_Acquire ctx s uid) = s) \<and>
    (Mem_Release None s uid t = (s', Ok b) \<longrightarrow>
      mem_ok s' \<and> (b \<longleftrightarrow> Mem_Current None s uid = Ok (Some t)) \<and> Mem_Current None s' uid \<noteq> Ok (Some t) \<and>
      (v \<noteq> uid \<longrightarrow> Mem_Current None s' v = Mem_Current None s v))"
proof -
  have "mem_ok s' \<and> UID t = uid \<and> mem_issued s uid < Generation t \<and> Mem_Current None s' uid = Ok (Some t)"
    if "Mem_Acquire None s uid = (s', Ok t)"
    using mem.acquire_newer [OF assms that] mem.acquire_inv [OF assms, of uid] that by simp
  moreover have "\<not> is_ok (snd (Mem_Acquire ctx s uid)) \<longleftrightarrow> ctx \<noteq> None \<or> sint uid \<le> 0 \<or> mem_issued s uid = - 1"
    by (auto simp: Mem_Acquire_def Let_def mem_issued_def split: option.splits)
  moreover have "fst (Mem_Acquire ctx s uid) = s" if "\<not> is_ok (snd (Mem_Acquire ctx s uid))"
    using that by (auto simp: Mem_Acquire_def Let_def split: option.splits if_splits)
  moreover have "mem_ok s' \<and> (b \<longleftrightarrow> Mem_Current None s uid = Ok (Some t)) \<and> Mem_Current None s' uid \<noteq> Ok (Some t) \<and>
      (v \<noteq> uid \<longrightarrow> Mem_Current None s' v = Mem_Current None s v)" if r: "Mem_Release None s uid t = (s', Ok b)"
    using mem.release_inv [OF assms, of uid t] mem.release_current [OF assms, of uid t]
      mem.release_true [OF assms, of uid t] mem.release_false [OF assms, of uid t]
      mem.release_not_current [OF assms, of uid t] r
    by (cases b) auto
  ultimately show ?thesis
    by blast
qed

lemma memory_store_behaviour_witness:
  "\<not> is_ok (snd (Mem_Acquire None NewMemoryOwnershipStore (- 4))) \<longleftrightarrow>
     (None :: goerror option) \<noteq> None \<or> sint (- 4 :: int64) \<le> 0 \<or> mem_issued NewMemoryOwnershipStore (- 4) = - 1"
  using memory_store_behaviour [OF mem_ok_New] by blast

end
