(* ===== verification/Gate.thy ===== *)
theory Gate
  imports Session Ownership
begin

text \<open>
  A gate (\<open>cluster/gate/gate.go\<close>, \<open>ownership.go\<close>, \<open>provider.go\<close>, \<open>proxy.go\<close>): its life cycle, the
  handlers of the network server, and the provider that serves the requests of nodes.  The gate
  combines the local session table with a shared ownership store, whose operations are
  parameters; what the proofs use of them is the contract \<open>ownership_store\<close>.
\<close>

section \<open>State\<close>

text \<open>The operations of the configured \<open>session.OwnershipStore\<close> under the context of the call.\<close>

record 's StoreOps =
  op_acquire :: "'s \<Rightarrow> int64 \<Rightarrow> 's \<times> Token res"
  op_current :: "'s \<Rightarrow> int64 \<Rightarrow> Token option res"
  op_release :: "'s \<Rightarrow> int64 \<Rightarrow> Token \<Rightarrow> 's \<times> bool res"

text \<open>
  Effects outside the gate, recorded in the order they happen: calls of the locator, events sent
  to the nodes, routing hints discarded, and the servers and the registry of the life cycle.
\<close>

datatype cluster_event = EvConnect | EvReconnect | EvDisconnect

datatype gate_event =
    LocatorBindGate int64
  | LocatorUnbindGate int64
  | TriggerEvent cluster_event int64 int64 Token
  | InvalidateHints int64
  | StartNetworkServer | StartLinkerServer | RegisterInstance | WatchCluster | PrintInfo
  | RefreshInstance | DeregisterInstance | StopNetworkServer | StopLinkerServer | CancelContext

record 's Gate =
  g_session :: Session
  g_store :: "'s option"
  g_events :: "gate_event list"
  g_state :: cluster_state
  g_conns :: int

definition emit_event :: "'s Gate \<Rightarrow> gate_event \<Rightarrow> 's Gate" where
  "emit_event g e = g\<lparr>g_events := g_events g @ [e]\<rparr>"

section \<open>Life cycle\<close>

text \<open>
  \<open>Start\<close>, \<open>Close\<close> and \<open>Destroy\<close>: a compare-and-swap of the state decides whether the rest of the method
  runs.  \<open>Close\<close> then waits until the group of open connections is empty: the second result tells
  whether the caller has to wait.
\<close>

definition cas_state :: "'s Gate \<Rightarrow> cluster_state \<Rightarrow> cluster_state \<Rightarrow> 's Gate \<times> bool" where
  "cas_state g old new = (if g_state g = old then (g\<lparr>g_state := new\<rparr>, True) else (g, False))"

definition Gate_Start :: "'s Gate \<Rightarrow> 's Gate" where
  "Gate_Start g =
     (case cas_state g Shut Work of
        (g, False) \<Rightarrow> g
      | (g, True) \<Rightarrow> foldl emit_event g
          [StartNetworkServer, StartLinkerServer, RegisterInstance, WatchCluster, PrintInfo])"

definition Gate_Close :: "'s Gate \<Rightarrow> 's Gate \<times> bool" where
  "Gate_Close g =
     (case (case cas_state g Work Hang of
              (g, True) \<Rightarrow> (g, True)
            | (g, False) \<Rightarrow> cas_state g Busy Hang) of
        (g, False) \<Rightarrow> (g, False)
      | (g, True) \<Rightarrow> (emit_event g RefreshInstance, g_conns g \<noteq> 0))"

definition Gate_Destroy :: "'s Gate \<Rightarrow> 's Gate" where
  "Gate_Destroy g =
     (case cas_state g Hang Shut of
        (g, False) \<Rightarrow> g
      | (g, True) \<Rightarrow> foldl emit_event g
          [DeregisterInstance, StopNetworkServer, StopLinkerServer, CancelContext])"

section \<open>Session ownership\<close>

definition bindSession :: "'s StoreOps \<Rightarrow> 's Gate \<Rightarrow> int64 \<Rightarrow> int64 \<Rightarrow> 's Gate \<times> Token res" where
  "bindSession ops g cid uid =
     (case g_store g of
        None \<Rightarrow>
          (case Session_Bind (g_session g) cid uid of
             (s, Ok _) \<Rightarrow> (g\<lparr>g_session := s\<rparr>, Session_Token s Conn cid)
           | (s, Err e) \<Rightarrow> (g\<lparr>g_session := s\<rparr>, Err e)
           | (s, Panic) \<Rightarrow> (g\<lparr>g_session := s\<rparr>, Panic))
      | Some st \<Rightarrow>
          (case Session_Token (g_session g) Conn cid of
             Err e \<Rightarrow> (g, Err e)
           | Panic \<Rightarrow> (g, Panic)
           | Ok localToken \<Rightarrow>
               let held = (UID localToken = uid \<and> Generation localToken \<noteq> 0 \<and>
                           IsCurrent (g_session g) localToken)
               in (case (if held then op_current ops st uid else Ok None) of
                     Err e \<Rightarrow> (g, Err e)
                   | Panic \<Rightarrow> (g, Panic)
                   | Ok cur \<Rightarrow>
                       if held \<and> cur = Some localToken then (g, Ok localToken)
                       else (case op_acquire ops st uid of
                          (st, Err e) \<Rightarrow> (g\<lparr>g_store := Some st\<rparr>, Err e)
                        | (st, Panic) \<Rightarrow> (g\<lparr>g_store := Some st\<rparr>, Panic)
                        | (st, Ok token) \<Rightarrow>
                            (case BindToken (g_session g) cid uid token of
                               (s, Ok _) \<Rightarrow>
                                 let st = (if UID localToken \<noteq> 0 \<and> Generation localToken \<noteq> 0 \<and>
                                              UID localToken \<noteq> uid
                                           then fst (op_release ops st (UID localToken) localToken)
                                           else st)
                                 in (g\<lparr>g_session := s, g_store := Some st\<rparr>, Ok token)
                             | (s, Err e) \<Rightarrow>
                                 (g\<lparr>g_session := s, g_store := Some (fst (op_release ops st uid token))\<rparr>, Err e)
                             | (s, Panic) \<Rightarrow> (g\<lparr>g_session := s, g_store := Some st\<rparr>, Panic))))))"

definition releaseSession :: "'s StoreOps \<Rightarrow> 's Gate \<Rightarrow> Token \<Rightarrow> 's Gate \<times> bool res" where
  "releaseSession ops g token =
     (case g_store g of
        None \<Rightarrow> (g, Ok False)
      | Some st \<Rightarrow>
          if UID token = 0 \<or> Generation token = 0 then (g, Ok False)
          else case op_release ops st (UID token) token of
                 (st, m) \<Rightarrow> (g\<lparr>g_store := Some st\<rparr>, m))"

section \<open>Handlers of the network server\<close>

text \<open>\<open>bindGate\<close> and \<open>unbindGate\<close> of the proxy; \<open>loc\<close> is the answer of the locator.\<close>

definition bindGate :: "goerror option \<Rightarrow> 's Gate \<Rightarrow> int64 \<Rightarrow> int64 \<Rightarrow> 's Gate \<times> unit res" where
  "bindGate loc g cid uid =
     (let g = emit_event g (LocatorBindGate uid)
      in case loc of
           Some e \<Rightarrow> (g, Err e)
         | None \<Rightarrow>
             let token = (case Session_Token (g_session g) Conn cid of Ok t \<Rightarrow> t | _ \<Rightarrow> zero_token)
             in (emit_event g (TriggerEvent EvReconnect cid uid token), Ok ()))"

definition unbindGate :: "goerror option \<Rightarrow> 's Gate \<Rightarrow> int64 \<Rightarrow> int64 \<Rightarrow> 's Gate \<times> unit res" where
  "unbindGate loc g cid uid = (emit_event g (LocatorUnbindGate uid), io_res loc)"

definition handleConnect :: "'s Gate \<Rightarrow> ref \<Rightarrow> 's Gate" where
  "handleConnect g r =
     (let g = g\<lparr>g_conns := g_conns g + 1\<rparr>;
          g = g\<lparr>g_session := AddConn (g_session g) r\<rparr>;
          cid = conn_ID (g_session g) r; uid = conn_UID (g_session g) r;
          token = (case Session_Token (g_session g) Conn cid of Ok t \<Rightarrow> t | _ \<Rightarrow> zero_token)
      in emit_event g (TriggerEvent EvConnect cid uid token))"

definition handleDisconnect ::
    "'s StoreOps \<Rightarrow> goerror option \<Rightarrow> 's Gate \<Rightarrow> ref \<Rightarrow> 's Gate \<times> unit res" where
  "handleDisconnect ops loc g r =
     (let cid = conn_ID (g_session g) r in
      case RemConnWithToken (g_session g) r of
        (s, Err e) \<Rightarrow> (g\<lparr>g_session := s\<rparr>, Err e)
      | (s, Panic) \<Rightarrow> (g\<lparr>g_session := s\<rparr>, Panic)
      | (s, Ok (uid, token)) \<Rightarrow>
          let g = g\<lparr>g_session := s\<rparr>;
              g = (if uid \<noteq> 0
                   then fst (releaseSession ops (fst (unbindGate loc g cid uid)) token) else g);
              g = emit_event g (TriggerEvent EvDisconnect cid uid token)
          in (g\<lparr>g_conns := g_conns g - 1\<rparr>, Ok ()))"

definition requestDeliveryToken :: "Session \<Rightarrow> int64 \<Rightarrow> int64 \<Rightarrow> Token" where
  "requestDeliveryToken s cid uid =
     (if uid = 0 then zero_token
      else case Session_Token s Conn cid of Ok t \<Rightarrow> t | _ \<Rightarrow> zero_token)"

section \<open>The provider\<close>

definition provider_Bind ::
    "'s StoreOps \<Rightarrow> goerror option \<Rightarrow> 's Gate \<Rightarrow> int64 \<Rightarrow> int64 \<Rightarrow> 's Gate \<times> unit res" where
  "provider_Bind ops loc g cid uid =
     (if sint cid \<le> 0 \<or> sint uid \<le> 0 then (g, Err ErrInvalidArgument)
      else case bindSession ops g cid uid of
        (g, Err e) \<Rightarrow> (g, Err e)
      | (g, Panic) \<Rightarrow> (g, Panic)
      | (g, Ok token) \<Rightarrow>
          (case bindGate loc g cid uid of
             (g, Err e) \<Rightarrow>
               let g = g\<lparr>g_session := fst (Session_Unbind (g_session g) uid)\<rparr>
               in (fst (releaseSession ops g token), Err e)
           | (g, Panic) \<Rightarrow> (g, Panic)
           | (g, Ok _) \<Rightarrow> (emit_event g (InvalidateHints uid), Ok ())))"

definition provider_Unbind ::
    "'s StoreOps \<Rightarrow> goerror option \<Rightarrow> 's Gate \<Rightarrow> int64 \<Rightarrow> 's Gate \<times> unit res" where
  "provider_Unbind ops loc g uid =
     (if uid = 0 then (g, Err ErrInvalidArgument)
      else case Session_Token (g_session g) User uid of
        Err e \<Rightarrow> (g, Err e)
      | Panic \<Rightarrow> (g, Panic)
      | Ok token \<Rightarrow>
          (case releaseSession ops g token of
             (g, Err e) \<Rightarrow> (g, Err e)
           | (g, Panic) \<Rightarrow> (g, Panic)
           | (g, Ok _) \<Rightarrow>
               (case Session_Unbind (g_session g) uid of
                  (s, Err e) \<Rightarrow> (g\<lparr>g_session := s\<rparr>, Err e)
                | (s, Panic) \<Rightarrow> (g\<lparr>g_session := s\<rparr>, Panic)
                | (s, Ok cid) \<Rightarrow> unbindGate loc (g\<lparr>g_session := s\<rparr>) cid uid)))"

text \<open>
  The fencing test shared by \<open>DisconnectCurrent\<close> and \<open>Push\<close>: the token names a session kind and a
  user, and the shared store still has it as the current token.
\<close>

definition check_token :: "'s StoreOps \<Rightarrow> 's Gate \<Rightarrow> Kind \<Rightarrow> int64 \<Rightarrow> Token \<Rightarrow> unit res" where
  "check_token ops g kind target token =
     (if (kind \<noteq> Conn \<and> kind \<noteq> User) \<or> sint (UID token) \<le> 0 \<or> Generation token = 0
      then Err ErrStaleSession
      else if kind = User \<and> target \<noteq> UID token then Err ErrStaleSession
      else case g_store g of
             None \<Rightarrow> Ok ()
           | Some st \<Rightarrow> and_then (op_current ops st (UID token)) (\<lambda>cur.
               if cur \<noteq> Some token then Err ErrStaleSession else Ok ()))"

definition provider_DisconnectCurrent ::
    "io \<Rightarrow> 's StoreOps \<Rightarrow> 's Gate \<Rightarrow> Kind \<Rightarrow> int64 \<Rightarrow> Token \<Rightarrow> bool \<Rightarrow>
     unit res \<times> (ref \<times> conn_call) list" where
  "provider_DisconnectCurrent io ops g kind target token force =
     (case check_token ops g kind target token of
        Err e \<Rightarrow> (Err e, [])
      | Panic \<Rightarrow> (Panic, [])
      | Ok _ \<Rightarrow> CloseCurrent io (g_session g) kind target token [force])"


section \<open>The steps of a gate\<close>

text \<open>
  What can happen to a gate in any order: its own handlers and provider calls, and the operations
  of other gates on the shared store.
\<close>

inductive gate_step :: "'s StoreOps \<Rightarrow> 's Gate \<Rightarrow> 's Gate \<Rightarrow> bool" for ops where
  gs_connect: "\<not> registered (g_session g) r \<Longrightarrow> gm_get (conns (g_session g)) cid = None \<Longrightarrow>
     gate_step ops g (handleConnect (g\<lparr>g_session := open_conn (g_session g) r cid\<rparr>) r)"
| gs_disconnect: "registered (g_session g) r \<Longrightarrow> gate_step ops g (fst (handleDisconnect ops loc g r))"
| gs_bind: "gate_step ops g (fst (provider_Bind ops loc g cid uid))"
| gs_unbind: "gate_step ops g (fst (provider_Unbind ops loc g uid))"
| gs_subscribe: "gate_step ops g
     (g\<lparr>g_session := fst (Session_Subscribe (g_session g) kind targets ch)\<rparr>)"
| gs_unsubscribe: "gate_step ops g
     (g\<lparr>g_session := fst (Session_Unsubscribe (g_session g) kind targets ch)\<rparr>)"
| gs_start: "gate_step ops g (Gate_Start g)"
| gs_close: "gate_step ops g (fst (Gate_Close g))"
| gs_destroy: "gate_step ops g (Gate_Destroy g)"
| gs_others_acquire: "g_store g = Some st \<Longrightarrow>
     gate_step ops g (g\<lparr>g_store := Some (fst (op_acquire ops st uid))\<rparr>)"
| gs_others_release: "g_store g = Some st \<Longrightarrow>
     gate_step ops g (g\<lparr>g_store := Some (fst (op_release ops st uid t))\<rparr>)"

inductive gate_reachable :: "'s StoreOps \<Rightarrow> 's Gate \<Rightarrow> 's Gate \<Rightarrow> bool" for ops g0 where
  gr_init: "gate_reachable ops g0 g0"
| gr_step: "gate_reachable ops g0 g \<Longrightarrow> gate_step ops g g' \<Longrightarrow> gate_reachable ops g0 g'"

definition NewGate :: "(ref \<Rightarrow> ConnObj) \<Rightarrow> 's option \<Rightarrow> 's Gate" where
  "NewGate h st =
     \<lparr>g_session = NewSession h, g_store = st, g_events = [], g_state = Shut, g_conns = 0\<rparr>"

section \<open>The invariant of a gate\<close>

text \<open>
  Beside the invariant of the table, the tokens the table remembers were issued by the store and
  no two connections remember the same one.
\<close>

definition tokens_distinct :: "Session \<Rightarrow> bool" where
  "tokens_distinct s \<longleftrightarrow> (\<forall>c c' t. gm_get (tokens s) c = Some t \<longrightarrow> gm_get (tokens s) c' = Some t \<longrightarrow> c = c')"

definition tokens_issued :: "Session \<Rightarrow> (int64 \<Rightarrow> uint64) \<Rightarrow> bool" where
  "tokens_issued s iss \<longleftrightarrow> (\<forall>c t. gm_get (tokens s) c = Some t \<longrightarrow> Generation t \<le> iss (UID t))"

lemma BindToken_effect:
  assumes ok: "session_ok s" and b: "BindToken s cid uid t = (s', Ok x)"
  shows "gm_get (tokens s') = (gm_get (tokens s))(cid := Some t)" and "session_ok s'"
    and "IsCurrent s' t" and "owner s' uid = Some cid" and "UID t = uid" and "0 < sint uid"
proof -
  have v: "0 < sint uid" "UID t = uid" "Generation t \<noteq> 0"
    using b by (auto simp: BindToken_def split: if_splits)
  obtain r where r: "conn s Conn cid = Ok r"
    using b v by (cases "conn s Conn cid") (auto simp: BindToken_def)
  have nz: "uid \<noteq> 0"
    using v(1) by auto
  note reg = conn_registered [OF ok r]
  note spec = bindToken_spec [OF ok reg nz, where token = t]
  have s': "s' = bindToken s r uid t\<lparr>generations := generations s'\<rparr>"
    using b v r by (auto simp: BindToken_def Let_def split: if_splits)
  show "gm_get (tokens s') = (gm_get (tokens s))(cid := Some t)"
    using conn_id [OF ok r] by (subst s') (simp add: spec(3))
  show "session_ok s'"
    using BindToken_ok [OF ok, of cid uid t] b by simp
  have "IsCurrent (bindToken s r uid t) t"
    by (rule bindToken_current [OF ok reg nz v(2,3)])
  then show "IsCurrent s' t"
    by (subst s') (simp add: IsCurrent_iff)
  show "owner s' uid = Some cid"
    using BindToken_owner(2) [OF ok r v] b by (simp add: move_owner_def)
  show "UID t = uid" "0 < sint uid"
    using v by simp_all
qed

lemma BindToken_error: "BindToken s cid uid t = (s', m) \<Longrightarrow> \<not> is_ok m \<Longrightarrow> s' = s"
  by (auto simp: BindToken_def Let_def split: if_splits res.splits)

lemma tokens_distinct_upd:
  assumes "tokens_distinct s" and "tokens_issued s iss" and "iss (UID t) < Generation t"
    and "gm_get (tokens s') = (gm_get (tokens s))(cid := Some t)"
  shows "tokens_distinct s'"
  using assms unfolding tokens_distinct_def tokens_issued_def assms(4) by (auto simp: not_le [symmetric])

lemma tokens_issued_upd:
  assumes "tokens_issued s iss" and "\<And>v. iss v \<le> iss' v" and "Generation t \<le> iss' (UID t)"
    and "gm_get (tokens s') = (gm_get (tokens s))(cid := Some t)"
  shows "tokens_issued s' iss'"
  using assms unfolding tokens_issued_def by (auto intro: order_trans)

lemma tokens_sub:
  assumes "\<And>c t. gm_get (tokens s') c = Some t \<Longrightarrow> gm_get (tokens s) c = Some t"
  shows "tokens_distinct s \<Longrightarrow> tokens_distinct s'" and "tokens_issued s iss \<Longrightarrow> tokens_issued s' iss"
  using assms by (auto simp: tokens_distinct_def tokens_issued_def)

lemma tokens_issued_mono:
  "tokens_issued s iss \<Longrightarrow> (\<And>v. iss v \<le> iss' v) \<Longrightarrow> tokens_issued s iss'"
  by (auto simp: tokens_issued_def intro: order_trans)

lemma Session_Token_local:
  assumes "session_ok s" and "Session_Token s Conn cid = Ok t" and "Generation t \<noteq> 0"
  shows "gm_get (tokens s) cid = Some t"
  using assms conn_id [OF assms(1)]
  by (auto simp: Session_Token_def and_then_Ok_iff gm_get0_def zero_token_def split: option.splits)

lemma held_owner:
  assumes ok: "session_ok s" and "tokens_distinct s" and t: "Session_Token s Conn cid = Ok t"
    and cur: "IsCurrent s t"
  shows "owner s (UID t) = Some cid"
proof -
  obtain r where r: "gm_get (users s) (UID t) = Some r" "gm_get0 zero_token (tokens s) (c_id (heap s r)) = t"
    and g: "Generation t \<noteq> 0"
    using cur by (auto simp: IsCurrent_iff)
  have "gm_get (tokens s) (c_id (heap s r)) = Some t"
    using r(2) g by (auto simp: gm_get0_def zero_token_def split: option.splits)
  moreover have "gm_get (tokens s) cid = Some t"
    by (rule Session_Token_local [OF ok t g])
  ultimately have "c_id (heap s r) = cid"
    using assms(2) unfolding tokens_distinct_def by blast
  then show ?thesis
    using r(1) by (simp add: owner_def)
qed

text \<open>The two ways through \<open>bindSession\<close> when a store is configured.\<close>

definition held_token :: "Session \<Rightarrow> Token \<Rightarrow> int64 \<Rightarrow> bool" where
  "held_token s t uid \<longleftrightarrow> UID t = uid \<and> Generation t \<noteq> 0 \<and> IsCurrent s t"

lemma bindSession_cases:
  assumes "g_store g = Some st" and "bindSession ops g cid uid = (g', m)"
  obtains (no_conn) "g' = g" and "\<not> is_ok m"
  | (held) lt where "Session_Token (g_session g) Conn cid = Ok lt" "held_token (g_session g) lt uid"
      "op_current ops st uid = Ok (Some lt)" "g' = g" "m = Ok lt"
  | (failed) st' e where "op_acquire ops st uid = (st', e)" "\<not> is_ok e" "g' = g\<lparr>g_store := Some st'\<rparr>"
      "\<not> is_ok m"
  | (unbound) lt st' t s' e where "Session_Token (g_session g) Conn cid = Ok lt"
      "op_acquire ops st uid = (st', Ok t)" "BindToken (g_session g) cid uid t = (s', e)" "\<not> is_ok e"
      "g' = g\<lparr>g_session := s', g_store := Some (if e = Panic then st' else fst (op_release ops st' uid t))\<rparr>"
      "\<not> is_ok m"
  | (bound) lt st' t s' where "Session_Token (g_session g) Conn cid = Ok lt"
      "op_acquire ops st uid = (st', Ok t)" "BindToken (g_session g) cid uid t = (s', Ok ())"
      "g' = g\<lparr>g_session := s', g_store := Some (if UID lt \<noteq> 0 \<and> Generation lt \<noteq> 0 \<and> UID lt \<noteq> uid
         then fst (op_release ops st' (UID lt) lt) else st')\<rparr>" "m = Ok t"
proof (cases "Session_Token (g_session g) Conn cid")
  case (Ok lt)
  obtain st' e where a: "op_acquire ops st uid = (st', e)"
    by fastforce
  show ?thesis
  proof (cases "held_token (g_session g) lt uid \<and> \<not> is_ok (op_current ops st uid)")
    case True
    then show ?thesis
      using assms Ok no_conn
      by (cases "op_current ops st uid") (auto simp: bindSession_def held_token_def)
  next
    case nerr: False
    show ?thesis
    proof (cases "held_token (g_session g) lt uid \<and> op_current ops st uid = Ok (Some lt)")
      case True
      then show ?thesis
        using assms Ok held by (auto simp: bindSession_def held_token_def)
    next
      case False
      have eq: "bindSession ops g cid uid = (case op_acquire ops st uid of
            (st, Err e) \<Rightarrow> (g\<lparr>g_store := Some st\<rparr>, Err e)
          | (st, Panic) \<Rightarrow> (g\<lparr>g_store := Some st\<rparr>, Panic)
          | (st, Ok token) \<Rightarrow>
              (case BindToken (g_session g) cid uid token of
                 (s, Ok _) \<Rightarrow>
                   let st = (if UID lt \<noteq> 0 \<and> Generation lt \<noteq> 0 \<and> UID lt \<noteq> uid
                             then fst (op_release ops st (UID lt) lt) else st)
                   in (g\<lparr>g_session := s, g_store := Some st\<rparr>, Ok token)
               | (s, Err e) \<Rightarrow>
                   (g\<lparr>g_session := s, g_store := Some (fst (op_release ops st uid token))\<rparr>, Err e)
               | (s, Panic) \<Rightarrow> (g\<lparr>g_session := s, g_store := Some st\<rparr>, Panic)))"
        using assms(1) Ok False nerr
        by (cases "held_token (g_session g) lt uid"; cases "op_current ops st uid")
          (auto simp: bindSession_def held_token_def)
      show ?thesis
      proof (cases e)
        case e: (Ok t)
        obtain s' n where bt: "BindToken (g_session g) cid uid t = (s', n)"
          by fastforce
        show ?thesis
          using eq assms(2) a e bt bound [OF Ok, of st' t s'] unbound [OF Ok, of st' t s' n]
          by (cases n) (auto simp: Let_def)
      next
        case (Err x)
        then show ?thesis
          using eq assms(2) a by (intro failed [of st' e]) simp_all
      next
        case Panic
        then show ?thesis
          using eq assms(2) a by (intro failed [of st' e]) simp_all
      qed
    qed
  qed
next
  case (Err e)
  then have "bindSession ops g cid uid = (g, Err e)"
    using assms(1) by (simp add: bindSession_def)
  then show ?thesis
    using assms(2) by (intro no_conn) auto
next
  case Panic
  then have "bindSession ops g cid uid = (g, Panic)"
    using assms(1) by (simp add: bindSession_def)
  then show ?thesis
    using assms(2) by (intro no_conn) auto
qed

section \<open>Guarantees from the store's contract\<close>

text \<open>What the gate guarantees with any store that keeps the contract.\<close>

context ownership_store
begin

definition store_ops :: "'s StoreOps" where
  "store_ops = \<lparr>op_acquire = acquire, op_current = current, op_release = release\<rparr>"

lemma store_ops_simps [simp]:
  "op_acquire store_ops = acquire" "op_current store_ops = current" "op_release store_ops = release"
  by (simp_all add: store_ops_def)

definition gate_inv :: "'s Gate \<Rightarrow> bool" where
  "gate_inv g \<longleftrightarrow> session_ok (g_session g) \<and>
     (case g_store g of None \<Rightarrow> True
      | Some st \<Rightarrow> inv st \<and> tokens_distinct (g_session g) \<and> tokens_issued (g_session g) (issued st))"

lemma gate_invD:
  assumes "gate_inv g"
  shows "session_ok (g_session g)"
    and "g_store g = Some st \<Longrightarrow> inv st" and "g_store g = Some st \<Longrightarrow> tokens_distinct (g_session g)"
    and "g_store g = Some st \<Longrightarrow> tokens_issued (g_session g) (issued st)"
  using assms by (auto simp: gate_inv_def)

text \<open>The step in which a fresh token is bound locally.\<close>

lemma acquire_bind:
  assumes "session_ok s" "inv st" "tokens_distinct s" "tokens_issued s (issued st)"
    and a: "acquire st uid = (st', Ok t)" and b: "BindToken s cid uid t = (s', Ok x)"
  shows "inv st'" "session_ok s'" "tokens_distinct s'" "tokens_issued s' (issued st')"
    and "UID t = uid" "IsCurrent s' t" "owner s' uid = Some cid" "current st' uid = Ok (Some t)"
proof -
  note e = BindToken_effect [OF assms(1) b]
  have n: "UID t = uid" "issued st uid < Generation t" "issued st' uid = Generation t"
    "current st' uid = Ok (Some t)"
    using acquire_newer [OF assms(2) a] by simp_all
  have mono: "issued st v \<le> issued st' v" for v
    using acquire_monotone [OF assms(2), of v uid] a by simp
  show "inv st'"
    using acquire_inv [OF assms(2), of uid] a by simp
  show "tokens_distinct s'"
    using n by (intro tokens_distinct_upd [OF assms(3,4) _ e(1)]) simp
  show "tokens_issued s' (issued st')"
    using n by (intro tokens_issued_upd [OF assms(4) mono _ e(1)]) simp
qed (use acquire_newer [OF assms(2) a] BindToken_effect [OF assms(1) b] in simp_all)

lemma release_keeps:
  assumes "inv st" "tokens_issued s (issued st)"
  shows "inv (fst (release st u t))" "tokens_issued s (issued (fst (release st u t)))"
  using assms by (simp_all add: release_inv release_issued)

lemma failed_bind_keeps:
  assumes "inv st" "tokens_issued s (issued st)" "acquire st uid = (st', m)"
  shows "inv st'" "tokens_issued s (issued st')"
  using acquire_inv [OF assms(1), of uid] acquire_monotone [OF assms(1), of _ uid] assms(2,3)
  by (auto intro: tokens_issued_mono)

lemma bindSession_inv:
  assumes g: "gate_inv g" and st: "g_store g = Some st" and b: "bindSession store_ops g cid uid = (g', m)"
  shows "gate_inv g'"
proof -
  note inv = gate_invD(1) [OF g] gate_invD(2-4) [OF g st]
  from st b show ?thesis
  proof (cases rule: bindSession_cases)
    case (failed st' e)
    then show ?thesis
      using inv failed_bind_keeps [OF inv(2,4), of uid st' e] by (simp add: gate_inv_def)
  next
    case (unbound lt st' t s' e)
    have k: "inv st'" "tokens_issued (g_session g) (issued st')" "s' = g_session g"
      using failed_bind_keeps [OF inv(2,4)] unbound(2,3,4) BindToken_error by simp_all
    then show ?thesis
      using inv release_keeps [OF k(1,2)] unbound(5) by (simp add: gate_inv_def)
  next
    case (bound lt st' t s')
    note ab = acquire_bind [OF inv, of uid st' t cid s' "()"]
    show ?thesis
      using bound ab release_keeps [of st' s'] by (simp add: gate_inv_def)
  qed (use g in simp_all)
qed

lemma bindSession_store:
  assumes g: "gate_inv g" and st: "g_store g = Some st" and b: "bindSession store_ops g cid uid = (g', Ok t)"
  shows "UID t = uid \<and> IsCurrent (g_session g') t \<and> owner (g_session g') uid = Some cid \<and>
    (\<exists>st'. g_store g' = Some st' \<and> current st' uid = Ok (Some t))"
proof -
  note inv = gate_invD(1) [OF g] gate_invD(2-4) [OF g st]
  from st b show ?thesis
  proof (cases rule: bindSession_cases)
    case (held lt)
    then show ?thesis
      using st held_owner [OF inv(1,3) held(1)] by (auto simp: held_token_def)
  next
    case (bound lt st' u s')
    have u: "u = t" "acquire st uid = (st', Ok t)" "BindToken (g_session g) cid uid t = (s', Ok ())"
      using bound by simp_all
    note ab = acquire_bind [OF inv u(2,3)]
    show ?thesis
      using ab release_current [OF ab(1), of "UID lt" lt uid] bound(4) by simp
  qed simp_all
qed

text \<open>Steps that only touch the table keep the invariant when they create no token.\<close>

lemma gate_inv_session:
  assumes "gate_inv g" and "session_ok s'"
    and "\<And>c t. gm_get (tokens s') c = Some t \<Longrightarrow> gm_get (tokens (g_session g)) c = Some t"
  shows "gate_inv (g\<lparr>g_session := s'\<rparr>)"
  using assms tokens_sub [OF assms(3)] by (auto simp: gate_inv_def split: option.splits)

lemma gate_inv_frame:
  "gate_inv (g\<lparr>g_events := ev\<rparr>) = gate_inv g" "gate_inv (g\<lparr>g_conns := n\<rparr>) = gate_inv g"
  "gate_inv (emit_event g e) = gate_inv g" "gate_inv (g\<lparr>g_state := cs\<rparr>) = gate_inv g"
  by (simp_all add: gate_inv_def emit_event_def split: option.splits)

lemma lifecycle_inv:
  "gate_inv (Gate_Start g) = gate_inv g" "gate_inv (fst (Gate_Close g)) = gate_inv g"
  "gate_inv (Gate_Destroy g) = gate_inv g"
  by (simp_all add: Gate_Start_def Gate_Close_def Gate_Destroy_def cas_state_def gate_inv_frame)

lemma releaseSession_inv:
  assumes "gate_inv g"
  shows "gate_inv (fst (releaseSession store_ops g t))"
  using assms release_keeps
  by (auto simp: releaseSession_def gate_inv_def split: option.splits prod.splits) (metis fst_conv)+

lemma gate_inv_store:
  assumes "gate_inv g" and "g_store g = Some st"
  shows "gate_inv (g\<lparr>g_store := Some (fst (acquire st uid))\<rparr>)"
    and "gate_inv (g\<lparr>g_store := Some (fst (release st uid t))\<rparr>)"
  using assms failed_bind_keeps [of st "g_session g" uid "fst (acquire st uid)" "snd (acquire st uid)"]
    release_keeps [of st "g_session g" uid t]
  by (simp_all add: gate_inv_def)

lemma bindGate_inv: "gate_inv (fst (bindGate loc g cid uid)) = gate_inv g"
  by (simp add: bindGate_def Let_def gate_inv_frame split: option.splits)

lemma Unbind_tokens: "tokens (fst (Session_Unbind s uid)) = tokens s"
  by (simp add: Session_Unbind_def Let_def conn_Unbind_def split: res.splits)

lemma bindSession_keeps:
  assumes "gate_inv g" and "uid \<noteq> 0"
  shows "gate_inv (fst (bindSession store_ops g cid uid))"
proof (cases "g_store g")
  case None
  then show ?thesis
    using assms Bind_ok [of "g_session g" uid cid]
    by (auto simp: bindSession_def gate_inv_def split: prod.splits res.splits)
next
  case (Some st)
  then show ?thesis
    using bindSession_inv [OF assms(1)] by (metis prod.collapse)
qed

lemma provider_Bind_inv:
  assumes "gate_inv g"
  shows "gate_inv (fst (provider_Bind store_ops loc g cid uid))"
proof (cases "sint cid \<le> 0 \<or> sint uid \<le> 0")
  case False
  then have "uid \<noteq> 0" by auto
  obtain g1 m where b: "bindSession store_ops g cid uid = (g1, m)"
    by fastforce
  have g1: "gate_inv g1"
    using bindSession_keeps [OF assms \<open>uid \<noteq> 0\<close>, of cid] b by simp
  show ?thesis
  proof (cases m)
    case (Ok t)
    obtain g2 n where bg: "bindGate loc g1 cid uid = (g2, n)"
      by fastforce
    have g2: "gate_inv g2"
      using g1 bindGate_inv [of loc g1 cid uid] bg by simp
    have "gate_inv (g2\<lparr>g_session := fst (Session_Unbind (g_session g2) uid)\<rparr>)"
      by (rule gate_inv_session [OF g2 Unbind_ok]) (simp_all add: gate_invD [OF g2] Unbind_tokens)
    then show ?thesis
      using False b Ok bg g2 releaseSession_inv
      by (cases n) (simp_all add: provider_Bind_def Let_def gate_inv_frame)
  qed (use False b g1 in \<open>simp_all add: provider_Bind_def\<close>)
qed (use assms in \<open>simp add: provider_Bind_def\<close>)

lemma provider_Unbind_inv:
  assumes "gate_inv g"
  shows "gate_inv (fst (provider_Unbind store_ops loc g uid))"
proof -
  have unb: "gate_inv (g1\<lparr>g_session := fst (Session_Unbind (g_session g1) uid)\<rparr>)" if "gate_inv g1" for g1
    by (rule gate_inv_session [OF that Unbind_ok]) (simp_all add: gate_invD [OF that] Unbind_tokens)
  have "gate_inv (fst (releaseSession store_ops g t))" for t
    by (rule releaseSession_inv [OF assms])
  then show ?thesis
    using unb assms
    by (auto simp: provider_Unbind_def unbindGate_def gate_inv_frame split: res.splits prod.splits)
      (metis fst_conv)+
qed

lemma handleDisconnect_inv:
  assumes g: "gate_inv g" and reg: "registered (g_session g) r"
  shows "gate_inv (fst (handleDisconnect store_ops loc g r))"
proof -
  let ?s = "g_session g"
  obtain s' where s': "RemConnWithToken ?s r =
      (s', Ok (c_uid (heap ?s r), gm_get0 zero_token (tokens ?s) (c_id (heap ?s r))))"
    "tokens s' = gm_del (tokens ?s) (c_id (heap ?s r))"
    using RemConnWithToken_spec [OF gate_invD(1) [OF g] reg] by metis
  have "gate_inv (g\<lparr>g_session := s'\<rparr>)"
    using RemConn_ok [OF gate_invD(1) [OF g] reg] s'
    by (intro gate_inv_session [OF g]) (auto split: if_splits)
  then show ?thesis
    using s'(1) releaseSession_inv
    by (simp add: handleDisconnect_def Let_def gate_inv_frame unbindGate_def)
qed

lemma subscribe_tokens:
  "tokens (fst (Session_Subscribe s kind targets ch)) = tokens s"
  "tokens (fst (Session_Unsubscribe s kind targets ch)) = tokens s"
proof -
  have "tokens (each_target f m ts s) = tokens s" if "\<And>s r. tokens (f s r) = tokens s" for f m ts s
    using that by (induction ts arbitrary: s) (simp_all split: option.splits)
  moreover have "tokens (subscribe_conn s c r) = tokens s" "tokens (unsubscribe_conn s c r) = tokens s" for s c r
    by (simp_all add: subscribe_conn_def attr_Set_def unsubscribe_conn_def attr_Del_def doUnsubscribe_def
      Let_def split: option.splits)
  ultimately show "tokens (fst (Session_Subscribe s kind targets ch)) = tokens s"
    "tokens (fst (Session_Unsubscribe s kind targets ch)) = tokens s"
    by (simp_all add: Session_Subscribe_def Session_Unsubscribe_def split: res.splits)
qed

lemma handleConnect_inv:
  assumes g: "gate_inv g" and "\<not> registered (g_session g) r" and "gm_get (conns (g_session g)) cid = None"
  shows "gate_inv (handleConnect (g\<lparr>g_session := open_conn (g_session g) r cid\<rparr>) r)"
proof -
  let ?s = "AddConn (open_conn (g_session g) r cid) r"
  have "session_ok ?s"
    using session_step.step_open [OF assms(2,3)] session_step_ok gate_invD(1) [OF g] by blast
  moreover have "tokens ?s = tokens (g_session g)"
    by (simp add: AddConn_def open_conn_def)
  ultimately have "gate_inv (g\<lparr>g_session := ?s\<rparr>)"
    by (intro gate_inv_session [OF g]) simp_all
  then show ?thesis
    by (simp add: handleConnect_def Let_def gate_inv_def emit_event_def split: option.splits)
qed

lemma gate_step_inv:
  assumes "gate_step store_ops g g'" and "gate_inv g"
  shows "gate_inv g'"
  using assms
proof (induction rule: gate_step.induct)
  case (gs_subscribe g kind targets ch)
  then show ?case
    by (intro gate_inv_session) (simp_all add: Subscribe_ok gate_invD subscribe_tokens)
next
  case (gs_unsubscribe g kind targets ch)
  then show ?case
    by (intro gate_inv_session) (simp_all add: Subscribe_ok gate_invD subscribe_tokens)
qed (simp_all add: handleConnect_inv handleDisconnect_inv provider_Bind_inv provider_Unbind_inv gate_inv_store
  lifecycle_inv)

lemma gate_reachable_inv:
  "gate_reachable store_ops g0 g \<Longrightarrow> gate_inv g0 \<Longrightarrow> gate_inv g"
  by (induction rule: gate_reachable.induct) (auto intro: gate_step_inv)

lemma NewGate_inv: "(\<And>st. s = Some st \<Longrightarrow> inv st) \<Longrightarrow> gate_inv (NewGate h s)"
  using session_ok_New [of h]
  by (auto simp: gate_inv_def NewGate_def tokens_distinct_def tokens_issued_def NewSession_def
    split: option.splits)

text \<open>A binding that fails at the locator leaves neither a local owner nor a current token.\<close>

lemma provider_Bind_rollback:
  assumes g: "gate_inv g" and st: "g_store g = Some st"
    and b: "bindSession store_ops g cid uid = (g1, Ok t)" and v: "0 < sint cid" "0 < sint uid"
    and p: "provider_Bind store_ops (Some e) g cid uid = (g', m)"
  shows "m = Err e \<and> owner (g_session g') uid = None \<and>
    (\<exists>st1 st'. g_store g1 = Some st1 \<and> g_store g' = Some st' \<and>
      (is_ok (snd (release st1 uid t)) \<longrightarrow> current st' uid \<noteq> Ok (Some t)))"
proof -
  have b1: "UID t = uid" "IsCurrent (g_session g1) t"
    and gi: "gate_inv g1"
    using bindSession_store [OF g st b] bindSession_inv [OF g st b] by simp_all
  obtain st1 where st1: "g_store g1 = Some st1"
    using bindSession_store [OF g st b] by blast
  have nz: "UID t \<noteq> 0" "Generation t \<noteq> 0"
    using b1 by (auto simp: IsCurrent_iff)
  have "g' = g1\<lparr>g_events := g_events g1 @ [LocatorBindGate uid],
      g_session := fst (Session_Unbind (g_session g1) uid), g_store := Some (fst (release st1 uid t))\<rparr> \<and> m = Err e"
    using p b v st1 nz b1(1)
    by (auto simp: provider_Bind_def bindGate_def Let_def emit_event_def releaseSession_def split: prod.splits)
  then show ?thesis
    using st1 release_not_current [OF gate_invD(2) [OF gi st1], of uid t]
    by (simp add: Unbind_owner)
qed

end

section \<open>Fenced deliveries\<close>



lemma CloseCurrent_calls:
  assumes "(r, c) \<in> set (snd (CloseCurrent io s kind target token force))"
  shows "IsCurrent s token \<and> gm_get (users s) (UID token) = Some r \<and> c = CClose force"
proof -
  have nz: "\<not> (sint (UID token) \<le> 0 \<or> Generation token = 0)"
    using assms by (auto simp: CloseCurrent_def split: if_splits)
  obtain r' where r': "check_current s kind target token = Ok r'"
    using assms nz by (auto simp: CloseCurrent_def split: res.splits if_splits)
  have "UID token \<noteq> 0" using nz by auto
  moreover have "r = r' \<and> c = CClose force"
    using assms nz r' by (auto simp: CloseCurrent_def split: if_splits)
  ultimately show ?thesis
    using check_current_current [OF r'] nz by auto
qed


section \<open>The group of open connections\<close>

text \<open>
  \<open>Close\<close> waits for the group that \<open>handleConnect\<close> and \<open>handleDisconnect\<close> count; the count is the number of
  connections in the table.
\<close>

definition counts_ok :: "'s Gate \<Rightarrow> bool" where
  "counts_ok g \<longleftrightarrow> session_ok (g_session g) \<and> g_conns g = int (gm_len (conns (g_session g)))"

lemma Session_Bind_conns:
  "session_ok s \<Longrightarrow> uid \<noteq> 0 \<Longrightarrow> conns (fst (Session_Bind s cid uid)) = conns s"
  "session_ok s \<Longrightarrow> conns (fst (BindToken s cid uid t)) = conns s"
  "conns (fst (Session_Unbind s uid)) = conns s"
  by (simp_all add: Session_Bind_def BindToken_def Session_Unbind_def bindToken_def conn_Bind_def conn_Unbind_def
      nextGeneration_def Let_def split: res.splits option.splits if_splits prod.splits)

lemma subscribe_conns:
  "conns (fst (Session_Subscribe s kind targets ch)) = conns s"
  "conns (fst (Session_Unsubscribe s kind targets ch)) = conns s"
proof -
  have "conns (each_target f m ts s) = conns s" if "\<And>s r. conns (f s r) = conns s" for f m ts s
    using that by (induction ts arbitrary: s) (simp_all split: option.splits)
  moreover have "conns (subscribe_conn s c r) = conns s" "conns (unsubscribe_conn s c r) = conns s" for s c r
    by (simp_all add: subscribe_conn_def attr_Set_def unsubscribe_conn_def attr_Del_def doUnsubscribe_def
      Let_def split: option.splits)
  ultimately show "conns (fst (Session_Subscribe s kind targets ch)) = conns s"
    "conns (fst (Session_Unsubscribe s kind targets ch)) = conns s"
    by (simp_all add: Session_Subscribe_def Session_Unsubscribe_def split: res.splits)
qed

text \<open>Steps that open and close no connection.\<close>

definition same_conns :: "'s Gate \<Rightarrow> 's Gate \<Rightarrow> bool" where
  "same_conns g g' \<longleftrightarrow> (session_ok (g_session g) \<longrightarrow> session_ok (g_session g') \<and>
     conns (g_session g') = conns (g_session g) \<and> g_conns g' = g_conns g)"

lemma same_conns_counts: "same_conns g g' \<Longrightarrow> counts_ok g \<Longrightarrow> counts_ok g'"
  by (simp add: same_conns_def counts_ok_def)

lemma same_conns_trans: "same_conns g g1 \<Longrightarrow> same_conns g1 g' \<Longrightarrow> same_conns g g'"
  by (simp add: same_conns_def)

lemma same_conns_simps [simp]:
  "same_conns g g" "same_conns g (emit_event g1 e) = same_conns g g1"
  "same_conns g (g1\<lparr>g_store := st\<rparr>) = same_conns g g1" "same_conns g (g1\<lparr>g_state := cs\<rparr>) = same_conns g g1"
  by (simp_all add: same_conns_def emit_event_def)

lemma same_conns_session:
  "(session_ok (g_session g) \<Longrightarrow> session_ok s') \<Longrightarrow> (session_ok (g_session g) \<Longrightarrow> conns s' = conns (g_session g)) \<Longrightarrow>
     same_conns g (g\<lparr>g_session := s'\<rparr>)"
  by (simp add: same_conns_def)

lemma releaseSession_same: "same_conns g (fst (releaseSession ops g t))"
  by (simp add: releaseSession_def split: option.splits prod.splits)

lemma bindSession_same:
  assumes "uid \<noteq> 0"
  shows "same_conns g (fst (bindSession ops g cid uid))"
proof -
  have b: "same_conns g (g\<lparr>g_session := fst (Session_Bind (g_session g) cid uid)\<rparr>)"
    using assms Bind_ok Session_Bind_conns(1) by (intro same_conns_session) blast+
  have t: "same_conns g (g\<lparr>g_session := fst (BindToken (g_session g) cid uid t)\<rparr>)" for t
    using BindToken_ok Session_Bind_conns(2) by (intro same_conns_session) blast+
  have t': "BindToken (g_session g) cid uid t = (s', m) \<Longrightarrow> same_conns g (g\<lparr>g_session := s'\<rparr>)" for t s' m
    using t [of t] by simp
  have t'': "BindToken (g_session g) cid uid t = (s', m) \<Longrightarrow> same_conns g (g\<lparr>g_session := s', g_store := st\<rparr>)"
    for t s' m st
    using t' [of t s' m] by (simp add: same_conns_def)
  show ?thesis
    using b t''
    by (auto simp: bindSession_def Let_def split: option.splits res.splits prod.splits)
qed

lemma Unbind_same: "same_conns g (g\<lparr>g_session := fst (Session_Unbind (g_session g) uid)\<rparr>)"
  using Unbind_ok Session_Bind_conns(3) by (intro same_conns_session) blast+

lemma provider_Bind_same: "same_conns g (fst (provider_Bind ops loc g cid uid))"
proof (cases "sint cid \<le> 0 \<or> sint uid \<le> 0")
  case False
  then have "uid \<noteq> 0" by auto
  obtain g1 m where b: "bindSession ops g cid uid = (g1, m)"
    by fastforce
  have g1: "same_conns g g1"
    using bindSession_same [OF \<open>uid \<noteq> 0\<close>, of g ops cid] b by simp
  show ?thesis
  proof (cases m)
    case (Ok t)
    obtain g2 n where bg: "bindGate loc g1 cid uid = (g2, n)"
      by fastforce
    then have g2: "same_conns g g2"
      using g1 by (auto simp: bindGate_def Let_def split: option.splits)
    then show ?thesis
      using False b Ok bg same_conns_trans [OF _ same_conns_trans [OF Unbind_same releaseSession_same]]
      by (cases n) (auto simp: provider_Bind_def Let_def)
  qed (use False b g1 in \<open>simp_all add: provider_Bind_def\<close>)
qed (simp add: provider_Bind_def)

lemma provider_Unbind_same: "same_conns g (fst (provider_Unbind ops loc g uid))"
proof (cases "Session_Token (g_session g) User uid")
  case (Ok t)
  obtain g1 m where r: "releaseSession ops g t = (g1, m)"
    by fastforce
  obtain s' k where u: "Session_Unbind (g_session g1) uid = (s', k)"
    by fastforce
  have g1: "same_conns g g1"
    using releaseSession_same [of g ops t] r by simp
  then have "same_conns g (g1\<lparr>g_session := s'\<rparr>)"
    using same_conns_trans Unbind_same [of g1 uid] u by fastforce
  then show ?thesis
    using Ok r u g1 by (cases m; cases k) (auto simp: provider_Unbind_def unbindGate_def)
qed (simp_all add: provider_Unbind_def)

lemma handleConnect_counts:
  assumes "counts_ok g" and "\<not> registered (g_session g) r" and "gm_get (conns (g_session g)) cid = None"
  shows "counts_ok (handleConnect (g\<lparr>g_session := open_conn (g_session g) r cid\<rparr>) r)"
proof -
  let ?s = "AddConn (open_conn (g_session g) r cid) r"
  have s: "session_ok (g_session g)" "gm_ok (conns (g_session g))"
    using assms(1) by (simp_all add: counts_ok_def session_ok_def maps_ok_def)
  have "session_ok ?s"
    using session_step.step_open [OF assms(2,3)] session_step_ok s(1) by blast
  moreover have "conns ?s = gm_set (conns (g_session g)) cid r"
    by (simp add: AddConn_def open_conn_def)
  ultimately show ?thesis
    using assms(1) gm.len_set_new [OF s(2) assms(3)]
    by (simp add: handleConnect_def Let_def counts_ok_def emit_event_def)
qed

lemma handleDisconnect_counts:
  assumes g: "counts_ok g" and reg: "registered (g_session g) r"
  shows "counts_ok (fst (handleDisconnect ops loc g r))"
proof -
  let ?s = "g_session g"
  have s: "session_ok ?s" "gm_ok (conns ?s)"
    using g by (simp_all add: counts_ok_def session_ok_def maps_ok_def)
  obtain s' where s': "RemConnWithToken ?s r =
      (s', Ok (c_uid (heap ?s r), gm_get0 zero_token (tokens ?s) (c_id (heap ?s r))))"
    "conns s' = gm_del (conns ?s) (c_id (heap ?s r))"
    using RemConnWithToken_spec [OF s(1) reg] by metis
  have ok: "session_ok s'"
    using RemConn_ok [OF s(1) reg] s' by simp
  have "0 < gm_len (conns ?s)"
    using reg s(2) by (auto simp: registered_def gm_card card_gt_0_iff gm_fin domIff fun_eq_iff)
  then have len: "int (gm_len (conns s')) = g_conns g - 1"
    using g gm.len_del [OF s(2), of "c_id (heap ?s r)"] reg by (simp add: s'(2) counts_ok_def registered_def)
  let ?g = "emit_event (g\<lparr>g_session := s'\<rparr>) (LocatorUnbindGate (c_uid (heap ?s r)))"
  have "same_conns ?g (fst (releaseSession ops ?g t))" for t
    by (rule releaseSession_same)
  then show ?thesis
    using s'(1) ok len
    by (simp add: handleDisconnect_def Let_def unbindGate_def counts_ok_def same_conns_def emit_event_def)
qed

lemma gate_step_counts: "gate_step ops g g' \<Longrightarrow> counts_ok g \<Longrightarrow> counts_ok g'"
proof (induction rule: gate_step.induct)
  case (gs_subscribe g kind targets ch)
  then show ?case
    by (intro same_conns_counts [OF same_conns_session]) (simp_all add: Subscribe_ok subscribe_conns)
next
  case (gs_unsubscribe g kind targets ch)
  then show ?case
    by (intro same_conns_counts [OF same_conns_session]) (simp_all add: Subscribe_ok subscribe_conns)
next
  case (gs_bind g loc cid uid)
  then show ?case by (rule same_conns_counts [OF provider_Bind_same])
next
  case (gs_unbind g loc uid)
  then show ?case by (rule same_conns_counts [OF provider_Unbind_same])
qed (simp_all add: handleConnect_counts handleDisconnect_counts,
  auto simp: counts_ok_def Gate_Start_def Gate_Close_def Gate_Destroy_def cas_state_def emit_event_def)

lemma gate_reachable_counts: "gate_reachable ops g0 g \<Longrightarrow> counts_ok g0 \<Longrightarrow> counts_ok g"
  by (induction rule: gate_reachable.induct) (auto intro: gate_step_counts)

section \<open>Properties\<close>

text \<open>The in-process store as the configured store of a gate.\<close>

definition mem_store_ops :: "MemoryOwnershipStore StoreOps" where
  "mem_store_ops = \<lparr>op_acquire = Mem_Acquire None, op_current = Mem_Current None, op_release = Mem_Release None\<rparr>"


definition fresh_gate :: "(ref \<Rightarrow> ConnObj) \<Rightarrow> MemoryOwnershipStore Gate" where
  "fresh_gate h = NewGate h (Some NewMemoryOwnershipStore)"


text \<open>A gate with one open connection, id 5, after which user 77 is bound to it.\<close>

definition example_gate :: "MemoryOwnershipStore Gate" where
  "example_gate =
     (let g = fresh_gate (\<lambda>_. \<lparr>c_id = 0, c_uid = 0, c_attr = []\<rparr>)
      in handleConnect (g\<lparr>g_session := open_conn (g_session g) 0 5\<rparr>) 0)"

lemma example_gate_reachable:
  "gate_reachable mem_store_ops (fresh_gate (\<lambda>_. \<lparr>c_id = 0, c_uid = 0, c_attr = []\<rparr>)) example_gate"
  unfolding example_gate_def Let_def
  by (rule gr_step [OF gr_init gs_connect]) (simp_all add: fresh_gate_def NewGate_def registered_def NewSession_def)









text \<open>
  closing a gate waits for exactly the connections in its table: in every reachable state, for any
  ownership store, the wait group counts them, and \<open>Close\<close> of a working or busy gate leaves it hanging,
  refreshes its registration, and has to wait if and only if a connection is left.
\<close>

lemma close_waits_for_connections:
  assumes "gate_reachable ops (NewGate h st) g" and "g_state g \<in> {Work, Busy}"
  shows "g_conns g = int (gm_len (conns (g_session g))) \<and>
    Gate_Close g = (emit_event (g\<lparr>g_state := Hang\<rparr>) RefreshInstance, conns (g_session g) \<noteq> [])"
proof -
  have "counts_ok (NewGate h st)"
    using session_ok_New [of h] by (simp add: counts_ok_def NewGate_def NewSession_def gm_len_def)
  then have "counts_ok g"
    using gate_reachable_counts [OF assms(1)] by simp
  then show ?thesis
    using assms(2) by (auto simp: counts_ok_def Gate_Close_def cas_state_def gm_len_def)
qed

lemma started_gate_reachable:
  "gate_reachable mem_store_ops (NewGate (\<lambda>_. \<lparr>c_id = 0, c_uid = 0, c_attr = []\<rparr>) (Some NewMemoryOwnershipStore))
     (Gate_Start example_gate)"
  by (rule gr_step [OF example_gate_reachable [unfolded fresh_gate_def] gs_start])

lemma close_waits_for_connections_witness:
  "g_conns (Gate_Start example_gate) = int (gm_len (conns (g_session (Gate_Start example_gate)))) \<and>
    Gate_Close (Gate_Start example_gate) =
      (emit_event ((Gate_Start example_gate)\<lparr>g_state := Hang\<rparr>) RefreshInstance,
       conns (g_session (Gate_Start example_gate)) \<noteq> [])"
proof (rule close_waits_for_connections [OF started_gate_reachable])
  have "g_state (Gate_Start example_gate) = Work"
    by code_simp
  then show "g_state (Gate_Start example_gate) \<in> {Work, Busy}" by simp
qed

end
