(* ===== verification/Tally.thy ===== *)
theory Tally
  imports Main
begin

text \<open>
  Sums over the threads of a system: how many are at a point of the code, what they hold together.
  A step of one thread changes one summand.
\<close>

definition tally :: "('a \<Rightarrow> 'm::comm_monoid_add) \<Rightarrow> 'a list \<Rightarrow> 'm" where
  "tally f xs = sum_list (map f xs)"

lemma tally_simps [simp]:
  "tally f [] = 0" "tally f (x # xs) = f x + tally f xs" "tally f (xs @ ys) = tally f xs + tally f ys"
  by (simp_all add: tally_def)

text \<open>Changing one element changes one summand.\<close>

lemma tally_split:
  assumes "i < length xs"
  shows "\<exists>rest. tally f xs = f (xs ! i) + rest \<and> (\<forall>x. tally f (xs[i := x]) = f x + rest)"
proof (intro exI conjI allI)
  let ?rest = "tally f (take i xs) + tally f (drop (Suc i) xs)"
  show "tally f xs = f (xs ! i) + ?rest"
    using id_take_nth_drop [OF assms] by (metis add.left_commute tally_simps(2,3))
  show "tally f (xs[i := x]) = f x + ?rest" for x
    using assms by (simp add: upd_conv_take_nth_drop ac_simps)
qed

lemma tally_upd_same:
  "i < length xs \<Longrightarrow> f x = f (xs ! i) \<Longrightarrow> tally f (xs[i := x]) = tally f xs"
  using tally_split [of i xs f] by metis

lemma tally_upd:
  assumes "i < length xs"
  shows "tally f (xs[i := x]) + f (xs ! i) = tally f xs + f x"
proof -
  obtain rest where "tally f xs = f (xs ! i) + rest" "\<And>x. tally f (xs[i := x]) = f x + rest"
    using tally_split [OF assms, of f] by blast
  then show ?thesis by (simp add: ac_simps)
qed

lemma tally_zero: "(\<And>x. x \<in> set xs \<Longrightarrow> f x = 0) \<Longrightarrow> tally f xs = 0"
  by (induction xs) simp_all

text \<open>The threads other than \<open>i\<close>.\<close>

definition others :: "nat \<Rightarrow> 'a list \<Rightarrow> 'a list" where
  "others i xs = take i xs @ drop (Suc i) xs"

lemma tally_others:
  assumes "i < length xs"
  shows "tally f xs = f (xs ! i) + tally f (others i xs)" "tally f (xs[i := x]) = f x + tally f (others i xs)"
  using id_take_nth_drop [OF assms] assms
  by (metis others_def add.left_commute tally_simps(2,3)) (simp add: others_def upd_conv_take_nth_drop assms ac_simps)

lemma tally_mono: "(\<And>x. f x \<le> g x) \<Longrightarrow> tally f xs \<le> (tally g xs :: nat)"
  by (induction xs) (simp_all add: add_mono)

end
