(* ===== verification/Call_State.thy ===== *)
theory Call_State
  imports Go_Prelude Go_Map Tally "HOL-Library.Multiset"
begin

text \<open>
  The life of a synchronous call of the transport client
  (\<open>internal/transporter/internal/client/message.go\<close>, \<open>pending.go\<close>, and the parts of \<open>client.go\<close> and
  \<open>conn.go\<close> that touch a call).  First the functions as they are written, run without interruption;
  then the goroutines that share a call (the caller, the writer and the reader of the connection) as
  a system of atomic actions: every load, compare-and-swap, map operation and channel operation is
  one action.  Buffers are values of an arbitrary type; where each buffer is, is part of the state.
\<close>

section \<open>Call states\<close>

datatype call_status = statePending | stateSent | stateCanceled | stateDelivered | stateFailed

text \<open>The channel \<open>call\<close> has capacity 1: its contents and whether it is closed.\<close>

record 'b callState =
  cs_seq :: uint64
  cs_call :: "'b list"
  cs_closed :: bool
  cs_state :: call_status

definition newCallState :: "uint64 \<Rightarrow> 'b callState" where
  "newCallState seq = \<lparr>cs_seq = seq, cs_call = [], cs_closed = False, cs_state = statePending\<rparr>"

text \<open>A statement returns, blocks for the moment, or panics.\<close>

datatype 'a attempt = Done 'a | Blocked | Crashed

definition chan_send :: "'b callState \<Rightarrow> 'b \<Rightarrow> 'b callState attempt" where
  "chan_send c buf =
     (if cs_closed c then Crashed
      else if length (cs_call c) < 1 then Done (c\<lparr>cs_call := cs_call c @ [buf]\<rparr>)
      else Blocked)"

definition chan_recv :: "'b callState \<Rightarrow> ('b option \<times> 'b callState) attempt" where
  "chan_recv c =
     (case cs_call c of
        buf # rest \<Rightarrow> Done (Some buf, c\<lparr>cs_call := rest\<rparr>)
      | [] \<Rightarrow> if cs_closed c then Done (None, c) else Blocked)"

definition chan_close :: "'b callState \<Rightarrow> 'b callState attempt" where
  "chan_close c = (if cs_closed c then Crashed else Done (c\<lparr>cs_closed := True\<rparr>))"

definition CompareAndSwap :: "'b callState \<Rightarrow> call_status \<Rightarrow> call_status \<Rightarrow> bool \<times> 'b callState" where
  "CompareAndSwap c old new = (if cs_state c = old then (True, c\<lparr>cs_state := new\<rparr>) else (False, c))"

text \<open>\<open>deliver\<close> returns the buffers it releases.\<close>

definition deliver :: "'b callState \<Rightarrow> 'b \<Rightarrow> ('b callState \<times> 'b list) attempt" where
  "deliver c buf =
     (case CompareAndSwap c stateSent stateDelivered of
        (True, c) \<Rightarrow> (case chan_send c buf of
             Done c \<Rightarrow> Done (c, []) | Blocked \<Rightarrow> Blocked | Crashed \<Rightarrow> Crashed)
      | (False, c) \<Rightarrow> Done (c, [buf]))"

definition fail :: "'b callState \<Rightarrow> 'b callState attempt" where
  "fail c =
     (case CompareAndSwap c stateSent stateFailed of
        (True, c) \<Rightarrow> chan_close c
      | (False, c) \<Rightarrow> Done c)"

section \<open>Pending calls\<close>

text \<open>\<open>ref\<close> stands for a pointer to a call state.\<close>

type_synonym call_ref = nat

record partition =
  p_calls :: "(uint64, call_ref) gomap"

record pending =
  partitions :: "partition list"

definition newPending :: pending where
  "newPending = \<lparr>partitions = replicate 20 \<lparr>p_calls = []\<rparr>\<rparr>"

definition partition_extract :: "partition \<Rightarrow> uint64 \<Rightarrow> call_ref option \<times> partition" where
  "partition_extract p seq =
     (case gm_get (p_calls p) seq of
        None \<Rightarrow> (None, p)
      | Some call \<Rightarrow> (Some call, p\<lparr>p_calls := gm_del (p_calls p) seq\<rparr>))"

definition partition_store :: "partition \<Rightarrow> uint64 \<Rightarrow> call_ref \<Rightarrow> partition" where
  "partition_store p seq call = p\<lparr>p_calls := gm_set (p_calls p) seq call\<rparr>"

definition partition_delete :: "partition \<Rightarrow> uint64 \<Rightarrow> partition" where
  "partition_delete p seq = p\<lparr>p_calls := gm_del (p_calls p) seq\<rparr>"

definition partition_index :: "pending \<Rightarrow> uint64 \<Rightarrow> nat" where
  "partition_index p seq = unat (seq mod word_of_nat (length (partitions p)))"

definition pending_extract :: "pending \<Rightarrow> uint64 \<Rightarrow> call_ref option \<times> pending" where
  "pending_extract p seq =
     (let i = partition_index p seq
      in case partition_extract (partitions p ! i) seq of
           (call, q) \<Rightarrow> (call, p\<lparr>partitions := (partitions p)[i := q]\<rparr>))"

definition pending_store :: "pending \<Rightarrow> uint64 \<Rightarrow> call_ref \<Rightarrow> pending" where
  "pending_store p seq call =
     (let i = partition_index p seq
      in p\<lparr>partitions := (partitions p)[i := partition_store (partitions p ! i) seq call]\<rparr>)"

definition pending_delete :: "pending \<Rightarrow> uint64 \<Rightarrow> pending" where
  "pending_delete p seq =
     (let i = partition_index p seq
      in p\<lparr>partitions := (partitions p)[i := partition_delete (partitions p ! i) seq]\<rparr>)"

text \<open>
  \<open>cancel\<close>, uninterrupted: the compare-and-swap after the load succeeds, so the loop runs once.  In
  state delivered it receives from the channel, which blocks while the buffer is not there.
\<close>

definition cancel :: "'b callState \<Rightarrow> pending \<Rightarrow> ('b callState \<times> pending \<times> 'b list) attempt" where
  "cancel c p =
     (case cs_state c of
        statePending \<Rightarrow> Done (snd (CompareAndSwap c statePending stateCanceled), p, [])
      | stateSent \<Rightarrow>
          Done (snd (CompareAndSwap c stateSent stateCanceled), pending_delete p (cs_seq c), [])
      | stateDelivered \<Rightarrow>
          (case chan_recv c of
             Done (Some buf, c) \<Rightarrow> Done (c, p, [buf])
           | Done (None, c) \<Rightarrow> Done (c, p, [])
           | Blocked \<Rightarrow> Blocked
           | Crashed \<Rightarrow> Crashed)
      | stateFailed \<Rightarrow> Done (c, p, [])
      | stateCanceled \<Rightarrow> Done (c, p, []))"

section \<open>The partitions are one map\<close>

definition pending_ok :: "pending \<Rightarrow> bool" where
  "pending_ok p \<longleftrightarrow> 0 < length (partitions p) \<and> length (partitions p) < 2 ^ 64"

definition pending_abs :: "pending \<Rightarrow> uint64 \<Rightarrow> call_ref option" where
  "pending_abs p seq = gm_get (p_calls (partitions p ! partition_index p seq)) seq"

lemma partition_index_lt:
  assumes "pending_ok p"
  shows "partition_index p seq < length (partitions p)"
proof -
  have "unat (word_of_nat (length (partitions p)) :: uint64) = length (partitions p)"
    using assms by (simp add: pending_ok_def unat_of_nat)
  then show ?thesis
    using assms by (simp add: partition_index_def unat_mod_distrib pending_ok_def)
qed

lemma partition_index_update [simp]:
  "partition_index (p\<lparr>partitions := (partitions p)[i := q]\<rparr>) seq = partition_index p seq"
  by (simp add: partition_index_def)

lemma pending_ok_update [simp]:
  "pending_ok (p\<lparr>partitions := (partitions p)[i := q]\<rparr>) = pending_ok p"
  by (simp add: pending_ok_def)

lemma pending_ok_New: "pending_ok newPending"
  by (simp add: pending_ok_def newPending_def)

lemma pending_abs_New: "pending_abs newPending = (\<lambda>_. None)"
proof
  fix seq
  have "partition_index newPending seq < 20"
    using partition_index_lt [OF pending_ok_New, of seq] by (simp add: newPending_def)
  then show "pending_abs newPending seq = None"
    by (simp add: pending_abs_def newPending_def)
qed

lemma pending_abs_update:
  assumes "pending_ok p" and "i = partition_index p seq"
    and "\<And>k. k \<noteq> seq \<Longrightarrow> gm_get (p_calls q) k = gm_get (p_calls (partitions p ! i)) k"
  shows "pending_abs (p\<lparr>partitions := (partitions p)[i := q]\<rparr>) =
    (pending_abs p)(seq := gm_get (p_calls q) seq)"
proof
  fix k
  show "pending_abs (p\<lparr>partitions := (partitions p)[i := q]\<rparr>) k =
      ((pending_abs p)(seq := gm_get (p_calls q) seq)) k"
    using assms partition_index_lt [OF assms(1), of seq]
    by (cases "partition_index p k = i") (auto simp: pending_abs_def)
qed

lemma pending_store_abs:
  "pending_ok p \<Longrightarrow> pending_abs (pending_store p seq call) = (pending_abs p)(seq := Some call)"
  by (simp add: pending_store_def Let_def pending_abs_update partition_store_def)

lemma pending_delete_abs:
  "pending_ok p \<Longrightarrow> pending_abs (pending_delete p seq) = (pending_abs p)(seq := None)"
  by (simp add: pending_delete_def Let_def pending_abs_update partition_delete_def)

lemma pending_extract_abs:
  assumes "pending_ok p" and "pending_extract p seq = (call, p')"
  shows "call = pending_abs p seq \<and> pending_abs p' = (pending_abs p)(seq := None)"
proof -
  obtain q where q: "partition_extract (partitions p ! partition_index p seq) seq = (pending_abs p seq, q)"
    "gm_get (p_calls q) = (gm_get (p_calls (partitions p ! partition_index p seq)))(seq := None)"
    by (cases "gm_get (p_calls (partitions p ! partition_index p seq)) seq")
      (auto simp: partition_extract_def pending_abs_def fun_eq_iff)
  then show ?thesis
    using assms by (auto simp: pending_extract_def Let_def pending_abs_update)
qed

lemma pending_ops_ok:
  "pending_ok p \<Longrightarrow> pending_ok (pending_store p seq call)"
  "pending_ok p \<Longrightarrow> pending_ok (pending_delete p seq)"
  "pending_ok p \<Longrightarrow> pending_extract p seq = (c, p') \<Longrightarrow> pending_ok p'"
  by (auto simp: pending_store_def pending_delete_def pending_extract_def Let_def split: prod.splits)

section \<open>The table of pending calls as an interface\<close>

text \<open>What writers, readers and callers do with the table, and the answers of the extractions.\<close>

datatype table_op = TStore uint64 call_ref | TDelete uint64 | TExtract uint64

fun run_map :: "table_op list \<Rightarrow> (uint64 \<Rightarrow> call_ref option) \<Rightarrow> call_ref option list \<times> (uint64 \<Rightarrow> call_ref option)" where
  "run_map [] m = ([], m)"
| "run_map (TStore seq r # ops) m = run_map ops (m(seq := Some r))"
| "run_map (TDelete seq # ops) m = run_map ops (m(seq := None))"
| "run_map (TExtract seq # ops) m = apfst ((#) (m seq)) (run_map ops (m(seq := None)))"

fun run_table :: "('t \<Rightarrow> uint64 \<Rightarrow> call_ref \<Rightarrow> 't) \<Rightarrow> ('t \<Rightarrow> uint64 \<Rightarrow> 't) \<Rightarrow> ('t \<Rightarrow> uint64 \<Rightarrow> call_ref option \<times> 't) \<Rightarrow>
    table_op list \<Rightarrow> 't \<Rightarrow> call_ref option list \<times> 't" where
  "run_table st dl ex [] t = ([], t)"
| "run_table st dl ex (TStore seq r # ops) t = run_table st dl ex ops (st t seq r)"
| "run_table st dl ex (TDelete seq # ops) t = run_table st dl ex ops (dl t seq)"
| "run_table st dl ex (TExtract seq # ops) t =
     (case ex t seq of (r, t) \<Rightarrow> apfst ((#) r) (run_table st dl ex ops t))"

locale call_table =
  fixes ok :: "'t \<Rightarrow> bool" and abs :: "'t \<Rightarrow> uint64 \<Rightarrow> call_ref option"
    and st :: "'t \<Rightarrow> uint64 \<Rightarrow> call_ref \<Rightarrow> 't" and dl :: "'t \<Rightarrow> uint64 \<Rightarrow> 't"
    and ex :: "'t \<Rightarrow> uint64 \<Rightarrow> call_ref option \<times> 't"
  assumes store_ok: "ok t \<Longrightarrow> ok (st t seq r)"
    and store_abs: "ok t \<Longrightarrow> abs (st t seq r) = (abs t)(seq := Some r)"
    and delete_ok: "ok t \<Longrightarrow> ok (dl t seq)"
    and delete_abs: "ok t \<Longrightarrow> abs (dl t seq) = (abs t)(seq := None)"
    and extract_ok: "ok t \<Longrightarrow> ex t seq = (e, t') \<Longrightarrow> ok t'"
    and extract_abs: "ok t \<Longrightarrow> ex t seq = (e, t') \<Longrightarrow> e = abs t seq \<and> abs t' = (abs t)(seq := None)"
begin

lemma run_refines: "ok t \<Longrightarrow> run_map ops (abs t) = apsnd abs (run_table st dl ex ops t)"
proof (induction ops arbitrary: t)
  case (Cons op ops)
  show ?case
  proof (cases op)
    case (TStore seq r)
    then show ?thesis
      using Cons.IH [OF store_ok [OF Cons.prems, of seq r]] store_abs [OF Cons.prems] by (simp del: fun_upd_apply)
  next
    case (TDelete seq)
    then show ?thesis
      using Cons.IH [OF delete_ok [OF Cons.prems, of seq]] delete_abs [OF Cons.prems] by (simp del: fun_upd_apply)
  next
    case (TExtract seq)
    obtain e t' where e: "ex t seq = (e, t')" by fastforce
    then show ?thesis
      using Cons.IH [OF extract_ok [OF Cons.prems e]] extract_abs [OF Cons.prems e] TExtract
      by (simp add: apfst_def apsnd_def map_prod_def del: fun_upd_apply split: prod.splits)
  qed
qed simp

lemma extracted_once:
  "ok t \<Longrightarrow> ex t seq = (e, t') \<Longrightarrow> fst (ex t' seq) = None"
  using extract_ok extract_abs by (metis fun_upd_same prod.collapse)

end

interpretation pt: call_table pending_ok pending_abs pending_store pending_delete pending_extract
  by unfold_locales (auto simp: pending_ops_ok pending_store_abs pending_delete_abs dest: pending_extract_abs)

section \<open>The goroutines around a call\<close>

text \<open>
  A caller waits in the \<open>select\<close> of \<open>Call\<close>; when its context is done it runs \<open>cancel\<close>: load the
  state, compare-and-swap, delete the pending entry or receive from the channel.  It ends with a
  response, with \<open>ErrConnectionHanged\<close> (the channel is closed), or with the error of the context.
\<close>

datatype 'b caller_pc =
    CWait | CLoad | CCas call_status | CDelete | CRecv
  | CGot 'b | CHanged | CCanceled

record 'b message =
  m_buf :: 'b
  m_call :: "call_ref option"

text \<open>
  A writer takes a message from the queue, marks the call sent, stores it, writes the message and
  releases it; after a failed write it deletes the entry and fails the call.  A reader holds the
  response it extracted a call for.  A connection that is redialled has more than one of each.
\<close>

datatype 'b writer_pc =
    WIdle | WCas "'b message" call_ref | WStore "'b message" call_ref | WWrite "'b message"
  | WDelete call_ref | WFail call_ref | WClose call_ref

datatype 'b reader_pc = RIdle | RGot call_ref 'b | RSend call_ref 'b

record 'b cell =
  c_call :: "'b callState"
  c_pc :: "'b caller_pc"
  c_loads :: nat

text \<open>\<open>taken\<close> are all buffers the client was given or has read, \<open>freed\<close> the released ones.\<close>

record 'b client =
  cells :: "'b cell list"
  queue :: "'b message list"
  writers :: "'b writer_pc list"
  readers :: "'b reader_pc list"
  pend :: pending
  taken :: "'b list"
  freed :: "'b list"
  crashed :: bool

definition new_client :: "'b client" where
  "new_client =
     \<lparr>cells = [], queue = [], writers = [], readers = [], pend = newPending, taken = [], freed = [],
      crashed = False\<rparr>"

datatype writer_action = WaTake | WaMark | WaStore | WaWrite bool | WaDelete | WaFail | WaClose

datatype 'b reader_action = RaFrame uint64 'b | RaDeliver | RaPut

datatype caller_action = CaReceive | CaDone | CaLoad | CaCas | CaDelete | CaRecv

datatype 'b action =
    ACall uint64 'b | ACallErr 'b | ASend 'b | AHeartbeat 'b | ASpawn
  | AWriter nat writer_action | AReader nat "'b reader_action" | ACaller call_ref caller_action

definition set_call :: "'b client \<Rightarrow> call_ref \<Rightarrow> 'b callState \<Rightarrow> 'b client" where
  "set_call s r c = s\<lparr>cells := (cells s)[r := (cells s ! r)\<lparr>c_call := c\<rparr>]\<rparr>"

definition set_pc :: "'b client \<Rightarrow> call_ref \<Rightarrow> 'b caller_pc \<Rightarrow> 'b client" where
  "set_pc s r pc = s\<lparr>cells := (cells s)[r := (cells s ! r)\<lparr>c_pc := pc\<rparr>]\<rparr>"

definition set_writer :: "'b client \<Rightarrow> nat \<Rightarrow> 'b writer_pc \<Rightarrow> 'b client" where
  "set_writer s i pc = s\<lparr>writers := (writers s)[i := pc]\<rparr>"

definition set_reader :: "'b client \<Rightarrow> nat \<Rightarrow> 'b reader_pc \<Rightarrow> 'b client" where
  "set_reader s i pc = s\<lparr>readers := (readers s)[i := pc]\<rparr>"

definition free :: "'b client \<Rightarrow> 'b \<Rightarrow> 'b client" where
  "free s b = s\<lparr>freed := b # freed s\<rparr>"

definition call_of :: "'b client \<Rightarrow> call_ref \<Rightarrow> 'b callState" where
  "call_of s r = c_call (cells s ! r)"

text \<open>The action of a writer in a given state, and that of a reader and of a caller.\<close>

definition writer_act :: "writer_action \<Rightarrow> nat \<Rightarrow> 'b writer_pc \<Rightarrow> 'b client \<Rightarrow> 'b client option" where
  "writer_act a i pc s =
     (case (a, pc) of
        (WaTake, WIdle) \<Rightarrow>
          (case queue s of
             [] \<Rightarrow> None
           | m # q \<Rightarrow> Some (set_writer (s\<lparr>queue := q\<rparr>) i
               (case m_call m of None \<Rightarrow> WWrite m | Some r \<Rightarrow> WCas m r)))
      | (WaMark, WCas m r) \<Rightarrow>
          (case CompareAndSwap (call_of s r) statePending stateSent of
             (True, c) \<Rightarrow> Some (set_writer (set_call s r c) i (WStore m r))
           | (False, _) \<Rightarrow> Some (set_writer (free s (m_buf m)) i WIdle))
      | (WaStore, WStore m r) \<Rightarrow>
          Some (set_writer (s\<lparr>pend := pending_store (pend s) (cs_seq (call_of s r)) r\<rparr>) i (WWrite m))
      | (WaWrite ok, WWrite m) \<Rightarrow>
          Some (set_writer (free s (m_buf m)) i
            (if ok then WIdle else (case m_call m of None \<Rightarrow> WIdle | Some r \<Rightarrow> WDelete r)))
      | (WaDelete, WDelete r) \<Rightarrow>
          Some (set_writer (s\<lparr>pend := pending_delete (pend s) (cs_seq (call_of s r))\<rparr>) i (WFail r))
      | (WaFail, WFail r) \<Rightarrow>
          (case CompareAndSwap (call_of s r) stateSent stateFailed of
             (True, c) \<Rightarrow> Some (set_writer (set_call s r c) i (WClose r))
           | (False, _) \<Rightarrow> Some (set_writer s i WIdle))
      | (WaClose, WClose r) \<Rightarrow>
          (case chan_close (call_of s r) of
             Done c \<Rightarrow> Some (set_writer (set_call s r c) i WIdle)
           | Blocked \<Rightarrow> None
           | Crashed \<Rightarrow> Some (s\<lparr>crashed := True\<rparr>))
      | _ \<Rightarrow> None)"

definition reader_act :: "'b reader_action \<Rightarrow> nat \<Rightarrow> 'b reader_pc \<Rightarrow> 'b client \<Rightarrow> 'b client option" where
  "reader_act a i pc s =
     (case (a, pc) of
        (RaFrame seq b, RIdle) \<Rightarrow>
          (case pending_extract (pend s) seq of
             (Some r, p) \<Rightarrow> Some (set_reader (s\<lparr>pend := p, taken := b # taken s\<rparr>) i (RGot r b))
           | (None, p) \<Rightarrow> Some (free (s\<lparr>pend := p, taken := b # taken s\<rparr>) b))
      | (RaDeliver, RGot r b) \<Rightarrow>
          (case CompareAndSwap (call_of s r) stateSent stateDelivered of
             (True, c) \<Rightarrow> Some (set_reader (set_call s r c) i (RSend r b))
           | (False, _) \<Rightarrow> Some (set_reader (free s b) i RIdle))
      | (RaPut, RSend r b) \<Rightarrow>
          (case chan_send (call_of s r) b of
             Done c \<Rightarrow> Some (set_reader (set_call s r c) i RIdle)
           | Blocked \<Rightarrow> None
           | Crashed \<Rightarrow> Some (s\<lparr>crashed := True\<rparr>))
      | _ \<Rightarrow> None)"

definition caller_act :: "caller_action \<Rightarrow> call_ref \<Rightarrow> 'b caller_pc \<Rightarrow> 'b client \<Rightarrow> 'b client option" where
  "caller_act a r pc s =
     (case (a, pc) of
        (CaReceive, CWait) \<Rightarrow>
          (case chan_recv (call_of s r) of
             Done (Some b, c) \<Rightarrow> Some (set_pc (set_call s r c) r (CGot b))
           | Done (None, c) \<Rightarrow> Some (set_pc (set_call s r c) r CHanged)
           | _ \<Rightarrow> None)
      | (CaDone, CWait) \<Rightarrow> Some (set_pc s r CLoad)
      | (CaLoad, CLoad) \<Rightarrow>
          (let s = s\<lparr>cells := (cells s)[r := (cells s ! r)\<lparr>c_loads := c_loads (cells s ! r) + 1\<rparr>]\<rparr>
           in Some (set_pc s r
                (case cs_state (call_of s r) of
                   statePending \<Rightarrow> CCas statePending
                 | stateSent \<Rightarrow> CCas stateSent
                 | stateDelivered \<Rightarrow> CRecv
                 | _ \<Rightarrow> CCanceled)))
      | (CaCas, CCas old) \<Rightarrow>
          (case CompareAndSwap (call_of s r) old stateCanceled of
             (True, c) \<Rightarrow> Some (set_pc (set_call s r c) r (if old = stateSent then CDelete else CCanceled))
           | (False, _) \<Rightarrow> Some (set_pc s r CLoad))
      | (CaDelete, CDelete) \<Rightarrow>
          Some (set_pc (s\<lparr>pend := pending_delete (pend s) (cs_seq (call_of s r))\<rparr>) r CCanceled)
      | (CaRecv, CRecv) \<Rightarrow>
          (case chan_recv (call_of s r) of
             Done (Some b, c) \<Rightarrow> Some (set_pc (free (set_call s r c) b) r CCanceled)
           | Done (None, c) \<Rightarrow> Some (set_pc (set_call s r c) r CCanceled)
           | _ \<Rightarrow> None)
      | _ \<Rightarrow> None)"

text \<open>
  The action of the whole client; no result when it is not enabled.  \<open>Call\<close> creates the call state
  and puts the message into the queue; when it cannot (no connection, closed, write timeout) it
  releases the message.
\<close>

definition act :: "'b action \<Rightarrow> 'b client \<Rightarrow> 'b client option" where
  "act a s =
     (case a of
        ACall seq b \<Rightarrow>
          Some (s\<lparr>cells := cells s @ [\<lparr>c_call = newCallState seq, c_pc = CWait, c_loads = 0\<rparr>],
                  queue := queue s @ [\<lparr>m_buf = b, m_call = Some (length (cells s))\<rparr>],
                  taken := b # taken s\<rparr>)
      | ASend b \<Rightarrow> Some (s\<lparr>queue := queue s @ [\<lparr>m_buf = b, m_call = None\<rparr>], taken := b # taken s\<rparr>)
      | ACallErr b \<Rightarrow> Some (free (s\<lparr>taken := b # taken s\<rparr>) b)
      | AHeartbeat b \<Rightarrow> Some (free (s\<lparr>taken := b # taken s\<rparr>) b)
      | ASpawn \<Rightarrow> Some (s\<lparr>writers := writers s @ [WIdle], readers := readers s @ [RIdle]\<rparr>)
      | AWriter i w \<Rightarrow> if i < length (writers s) then writer_act w i (writers s ! i) s else None
      | AReader i x \<Rightarrow> if i < length (readers s) then reader_act x i (readers s ! i) s else None
      | ACaller r c \<Rightarrow> if r < length (cells s) then caller_act c r (c_pc (cells s ! r)) s else None)"

inductive client_reachable :: "'b client \<Rightarrow> bool" where
  client_init: "client_reachable new_client"
| client_step: "client_reachable s \<Longrightarrow> act a s = Some s' \<Longrightarrow> client_reachable s'"

primrec run_acts :: "'b action list \<Rightarrow> 'b client \<Rightarrow> 'b client option" where
  "run_acts [] s = Some s"
| "run_acts (a # as) s = (case act a s of None \<Rightarrow> None | Some s \<Rightarrow> run_acts as s)"

lemma run_acts_reachable: "client_reachable s \<Longrightarrow> run_acts as s = Some s' \<Longrightarrow> client_reachable s'"
  by (induction as arbitrary: s) (auto split: option.splits intro: client_step)

section \<open>The invariant of the client\<close>

fun sends :: "call_ref \<Rightarrow> 'b reader_pc \<Rightarrow> nat" where
  "sends r (RSend q b) = (if q = r then 1 else 0)"
| "sends r _ = 0"

fun closes :: "call_ref \<Rightarrow> 'b writer_pc \<Rightarrow> nat" where
  "closes r (WClose q) = (if q = r then 1 else 0)"
| "closes r _ = 0"

fun waiting :: "'b caller_pc \<Rightarrow> bool" where
  "waiting CWait = True"
| "waiting CLoad = True"
| "waiting (CCas st) = (st = statePending \<or> st = stateSent)"
| "waiting _ = False"

text \<open>
  What a call looks like in each state; \<open>ns\<close> is the number of readers about to send to its channel,
  \<open>nc\<close> the number of writers about to close it.
\<close>

definition cell_ok :: "nat \<Rightarrow> nat \<Rightarrow> 'b cell \<Rightarrow> bool" where
  "cell_ok ns nc x \<longleftrightarrow>
     (case cs_state (c_call x) of
        statePending \<Rightarrow> cs_call (c_call x) = [] \<and> \<not> cs_closed (c_call x) \<and> ns = 0 \<and> nc = 0 \<and> waiting (c_pc x)
      | stateSent \<Rightarrow> cs_call (c_call x) = [] \<and> \<not> cs_closed (c_call x) \<and> ns = 0 \<and> nc = 0 \<and> waiting (c_pc x)
      | stateCanceled \<Rightarrow> cs_call (c_call x) = [] \<and> \<not> cs_closed (c_call x) \<and> ns = 0 \<and> nc = 0 \<and>
          (c_pc x = CDelete \<or> c_pc x = CCanceled)
      | stateDelivered \<Rightarrow> \<not> cs_closed (c_call x) \<and> nc = 0 \<and>
          (ns = 1 \<and> cs_call (c_call x) = [] \<and> (waiting (c_pc x) \<or> c_pc x = CRecv) \<or>
           ns = 0 \<and> length (cs_call (c_call x)) = 1 \<and> (waiting (c_pc x) \<or> c_pc x = CRecv) \<or>
           ns = 0 \<and> cs_call (c_call x) = [] \<and> (c_pc x = CCanceled \<or> (\<exists>b. c_pc x = CGot b)))
      | stateFailed \<Rightarrow> cs_call (c_call x) = [] \<and> ns = 0 \<and>
          (nc = 1 \<and> \<not> cs_closed (c_call x) \<and> (waiting (c_pc x) \<or> c_pc x = CCanceled) \<or>
           nc = 0 \<and> cs_closed (c_call x) \<and> (waiting (c_pc x) \<or> c_pc x = CHanged \<or> c_pc x = CCanceled)))"

fun rank :: "call_status \<Rightarrow> nat" where
  "rank statePending = 0"
| "rank stateSent = 1"
| "rank _ = 2"

text \<open>How often the loop of \<open>cancel\<close> has loaded the state.\<close>

definition loads_ok :: "'b cell \<Rightarrow> bool" where
  "loads_ok x \<longleftrightarrow>
     (case c_pc x of
        CWait \<Rightarrow> c_loads x = 0
      | CLoad \<Rightarrow> c_loads x \<le> rank (cs_state (c_call x))
      | CCas st \<Rightarrow> c_loads x \<le> rank st + 1 \<and> rank st \<le> rank (cs_state (c_call x))
      | _ \<Rightarrow> c_loads x \<le> 3)"

fun writer_ref :: "'b writer_pc \<Rightarrow> call_ref set" where
  "writer_ref WIdle = {}"
| "writer_ref (WCas m r) = insert r (set_option (m_call m))"
| "writer_ref (WStore m r) = insert r (set_option (m_call m))"
| "writer_ref (WWrite m) = set_option (m_call m)"
| "writer_ref (WDelete r) = {r}"
| "writer_ref (WFail r) = {r}"
| "writer_ref (WClose r) = {r}"

fun reader_ref :: "'b reader_pc \<Rightarrow> call_ref set" where
  "reader_ref RIdle = {}"
| "reader_ref (RGot r b) = {r}"
| "reader_ref (RSend r b) = {r}"

definition refs :: "'b client \<Rightarrow> call_ref set" where
  "refs s = (\<Union>m \<in> set (queue s). set_option (m_call m)) \<union> (\<Union>pc \<in> set (writers s). writer_ref pc) \<union>
     (\<Union>pc \<in> set (readers s). reader_ref pc) \<union> ran (pending_abs (pend s))"

definition cells_ok :: "'b client \<Rightarrow> bool" where
  "cells_ok s \<longleftrightarrow> (\<forall>r < length (cells s).
     cell_ok (tally (sends r) (readers s)) (tally (closes r) (writers s)) (cells s ! r) \<and> loads_ok (cells s ! r))"

definition client_inv :: "'b client \<Rightarrow> bool" where
  "client_inv s \<longleftrightarrow> \<not> crashed s \<and> pending_ok (pend s) \<and> refs s \<subseteq> {..<length (cells s)} \<and> cells_ok s"

text \<open>Where a buffer can be: released, queued, held by a goroutine, in a channel, or returned.\<close>

fun writer_bufs :: "'b writer_pc \<Rightarrow> 'b multiset" where
  "writer_bufs (WCas m r) = {#m_buf m#}"
| "writer_bufs (WStore m r) = {#m_buf m#}"
| "writer_bufs (WWrite m) = {#m_buf m#}"
| "writer_bufs _ = {#}"

fun reader_bufs :: "'b reader_pc \<Rightarrow> 'b multiset" where
  "reader_bufs RIdle = {#}"
| "reader_bufs (RGot r b) = {#b#}"
| "reader_bufs (RSend r b) = {#b#}"

fun returned :: "'b caller_pc \<Rightarrow> 'b multiset" where
  "returned (CGot b) = {#b#}"
| "returned _ = {#}"

definition cell_bufs :: "'b cell \<Rightarrow> 'b multiset" where
  "cell_bufs x = mset (cs_call (c_call x)) + returned (c_pc x)"

definition balanced :: "'b client \<Rightarrow> bool" where
  "balanced s \<longleftrightarrow> mset (taken s) = mset (freed s) + tally (\<lambda>m. {#m_buf m#}) (queue s) +
     tally writer_bufs (writers s) + tally reader_bufs (readers s) + tally cell_bufs (cells s)"

lemmas client_setters = set_call_def set_pc_def set_writer_def set_reader_def free_def call_of_def

subsection \<open>The actions compose to the functions\<close>

text \<open>Run without interruption, the actions of a goroutine compute \<open>deliver\<close>, \<open>fail\<close> and \<open>cancel\<close>.\<close>

lemma set_call_self [simp]: "set_call s r (call_of s r) = s"
  by (simp add: set_call_def call_of_def)

lemma deliver_steps:
  assumes "i < length (readers s)" and "readers s ! i = RGot r b" and "r < length (cells s)"
    and "deliver (call_of s r) b = Done (c, rel)"
  shows "\<exists>as. run_acts as s = Some (set_reader ((set_call s r c)\<lparr>freed := rel @ freed s\<rparr>) i RIdle)"
proof (cases "cs_state (call_of s r) = stateSent")
  case True
  then have "run_acts [AReader i RaDeliver, AReader i RaPut] s =
      Some (set_reader ((set_call s r c)\<lparr>freed := rel @ freed s\<rparr>) i RIdle)"
    using assms
    by (auto simp: deliver_def CompareAndSwap_def chan_send_def act_def reader_act_def client_setters split: if_splits)
  then show ?thesis by blast
next
  case False
  then have "run_acts [AReader i RaDeliver] s =
      Some (set_reader ((set_call s r c)\<lparr>freed := rel @ freed s\<rparr>) i RIdle)"
    using assms by (auto simp: deliver_def CompareAndSwap_def act_def reader_act_def client_setters)
  then show ?thesis by blast
qed

lemma fail_steps:
  assumes "i < length (writers s)" and "writers s ! i = WFail r" and "r < length (cells s)"
    and "fail (call_of s r) = Done c"
  shows "\<exists>as. run_acts as s = Some (set_writer (set_call s r c) i WIdle)"
proof (cases "cs_state (call_of s r) = stateSent")
  case True
  then have "run_acts [AWriter i WaFail, AWriter i WaClose] s = Some (set_writer (set_call s r c) i WIdle)"
    using assms
    by (auto simp: fail_def CompareAndSwap_def chan_close_def act_def writer_act_def client_setters split: if_splits)
  then show ?thesis by blast
next
  case False
  then have "run_acts [AWriter i WaFail] s = Some (set_writer (set_call s r c) i WIdle)"
    using assms by (auto simp: fail_def CompareAndSwap_def act_def writer_act_def client_setters)
  then show ?thesis by blast
qed

lemma cancel_steps:
  assumes "r < length (cells s)" and "c_pc (cells s ! r) = CLoad"
    and "cancel (call_of s r) (pend s) = Done (c, p, rel)"
  shows "\<exists>as s'. run_acts as s = Some s' \<and> call_of s' r = c \<and> pend s' = p \<and> freed s' = rel @ freed s \<and>
    c_pc (cells s' ! r) = CCanceled"
proof -
  let ?as = "case cs_state (call_of s r) of statePending \<Rightarrow> [CaLoad, CaCas] | stateSent \<Rightarrow> [CaLoad, CaCas, CaDelete]
    | stateDelivered \<Rightarrow> [CaLoad, CaRecv] | _ \<Rightarrow> [CaLoad]"
  have "\<exists>s'. run_acts (map (ACaller r) ?as) s = Some s' \<and> call_of s' r = c \<and> pend s' = p \<and>
      freed s' = rel @ freed s \<and> c_pc (cells s' ! r) = CCanceled"
    using assms
    by (cases "cs_state (call_of s r)")
      (auto simp: cancel_def CompareAndSwap_def chan_recv_def act_def caller_act_def client_setters Let_def
        split: list.splits if_splits)
  then show ?thesis by blast
qed

subsection \<open>References\<close>

lemma refs_parts:
  "m \<in> set (queue s) \<Longrightarrow> m_call m = Some r \<Longrightarrow> r \<in> refs s"
  "i < length (writers s) \<Longrightarrow> r \<in> writer_ref (writers s ! i) \<Longrightarrow> r \<in> refs s"
  "i < length (readers s) \<Longrightarrow> r \<in> reader_ref (readers s ! i) \<Longrightarrow> r \<in> refs s"
  "pending_abs (pend s) seq = Some r \<Longrightarrow> r \<in> refs s"
  by (auto simp: refs_def intro: ranI nth_mem)

lemma refs_update:
  "refs (s\<lparr>writers := (writers s)[i := w]\<rparr>) \<subseteq> refs s \<union> writer_ref w"
  "refs (s\<lparr>readers := (readers s)[i := x]\<rparr>) \<subseteq> refs s \<union> reader_ref x"
  "pending_ok (pend s) \<Longrightarrow> refs (s\<lparr>pend := pending_store (pend s) seq r\<rparr>) \<subseteq> insert r (refs s)"
  "pending_ok (pend s) \<Longrightarrow> refs (s\<lparr>pend := pending_delete (pend s) seq\<rparr>) \<subseteq> refs s"
  "pending_ok (pend s) \<Longrightarrow> pending_extract (pend s) seq = (c, p) \<Longrightarrow>
     refs (s\<lparr>pend := p\<rparr>) \<subseteq> refs s \<and> set_option c \<subseteq> refs s"
proof -
  show "refs (s\<lparr>writers := (writers s)[i := w]\<rparr>) \<subseteq> refs s \<union> writer_ref w"
    using set_update_subset_insert [of "writers s" i w] by (fastforce simp: refs_def)
  show "refs (s\<lparr>readers := (readers s)[i := x]\<rparr>) \<subseteq> refs s \<union> reader_ref x"
    using set_update_subset_insert [of "readers s" i x] by (fastforce simp: refs_def)
  show "refs (s\<lparr>pend := pending_store (pend s) seq r\<rparr>) \<subseteq> insert r (refs s)" if "pending_ok (pend s)"
    using that by (auto simp: refs_def pending_store_abs ran_def)
  show "refs (s\<lparr>pend := pending_delete (pend s) seq\<rparr>) \<subseteq> refs s" if "pending_ok (pend s)"
    using that by (auto simp: refs_def pending_delete_abs ran_def)
  show "refs (s\<lparr>pend := p\<rparr>) \<subseteq> refs s \<and> set_option c \<subseteq> refs s"
    if "pending_ok (pend s)" "pending_extract (pend s) seq = (c, p)"
    using pending_extract_abs [OF that] by (auto simp: refs_def ran_def)
qed

lemma refs_frame:
  "refs (s\<lparr>cells := cs\<rparr>) = refs s" "refs (s\<lparr>freed := fs\<rparr>) = refs s" "refs (s\<lparr>taken := ts\<rparr>) = refs s"
  by (simp_all add: refs_def)

lemma refs_spawn: "refs (s\<lparr>writers := writers s @ [WIdle], readers := readers s @ [RIdle]\<rparr>) = refs s"
  by (simp add: refs_def)

lemma refs_enqueue:
  "refs (s\<lparr>queue := queue s @ [m], taken := ts\<rparr>) = refs s \<union> set_option (m_call m)"
  "refs (s\<lparr>cells := cs, queue := queue s @ [m], taken := ts\<rparr>) = refs s \<union> set_option (m_call m)"
  by (auto simp: refs_def)

lemma refs_queue: "queue s = m # q \<Longrightarrow> refs (s\<lparr>queue := q\<rparr>) \<subseteq> refs s"
  by (auto simp: refs_def)

definition frame_ok :: "'b client \<Rightarrow> 'b client \<Rightarrow> bool" where
  "frame_ok s s' \<longleftrightarrow> length (cells s') = length (cells s) \<and> pending_ok (pend s') \<and> refs s' \<subseteq> refs s"

lemma frame_refl: "pending_ok (pend s) \<Longrightarrow> frame_ok s s"
  by (simp add: frame_ok_def)

lemma frame_setters:
  assumes "frame_ok s t"
  shows "writer_ref w \<subseteq> refs s \<Longrightarrow> frame_ok s (set_writer t i w)"
    and "reader_ref x \<subseteq> refs s \<Longrightarrow> frame_ok s (set_reader t i x)"
    and "frame_ok s (set_call t r c)" and "frame_ok s (set_pc t r pc)" and "frame_ok s (free t b)"
    and "frame_ok s (t\<lparr>crashed := k\<rparr>)" and "frame_ok s (t\<lparr>taken := ts\<rparr>)"
    and "frame_ok s (t\<lparr>cells := (cells t)[r := y]\<rparr>)"
    and "r \<in> refs s \<Longrightarrow> frame_ok s (t\<lparr>pend := pending_store (pend t) seq r\<rparr>)"
    and "frame_ok s (t\<lparr>pend := pending_delete (pend t) seq\<rparr>)"
    and "pending_extract (pend t) seq = (o1, p) \<Longrightarrow> frame_ok s (t\<lparr>pend := p\<rparr>)"
    and "queue t = m # q \<Longrightarrow> frame_ok s (t\<lparr>queue := q\<rparr>)"
proof -
  have ok: "pending_ok (pend t)" "refs t \<subseteq> refs s" "length (cells t) = length (cells s)"
    using assms by (simp_all add: frame_ok_def)
  show "writer_ref w \<subseteq> refs s \<Longrightarrow> frame_ok s (set_writer t i w)"
    using ok refs_update(1) [of t i w] by (auto simp: frame_ok_def set_writer_def)
  show "reader_ref x \<subseteq> refs s \<Longrightarrow> frame_ok s (set_reader t i x)"
    using ok refs_update(2) [of t i x] by (auto simp: frame_ok_def set_reader_def)
  show "r \<in> refs s \<Longrightarrow> frame_ok s (t\<lparr>pend := pending_store (pend t) seq r\<rparr>)"
    using ok refs_update(3) [OF ok(1), of seq r] by (auto simp: frame_ok_def pending_ops_ok)
  show "frame_ok s (t\<lparr>pend := pending_delete (pend t) seq\<rparr>)"
    using ok refs_update(4) [OF ok(1), of seq] by (auto simp: frame_ok_def pending_ops_ok)
  show "pending_extract (pend t) seq = (o1, p) \<Longrightarrow> frame_ok s (t\<lparr>pend := p\<rparr>)"
    using ok refs_update(5) [OF ok(1), of seq o1 p] by (auto simp: frame_ok_def pending_ops_ok(3) [OF ok(1)])
  show "queue t = m # q \<Longrightarrow> frame_ok s (t\<lparr>queue := q\<rparr>)"
    using ok refs_queue [of t m q] by (auto simp: frame_ok_def)
qed (use assms in \<open>simp_all add: frame_ok_def client_setters refs_frame\<close>, simp add: refs_def)

lemma frame_writer:
  assumes "pending_ok (pend s)" and "i < length (writers s)" and "writer_act a i (writers s ! i) s = Some s'"
  shows "frame_ok s s'"
proof -
  have r: "writer_ref (writers s ! i) \<subseteq> refs s"
    using refs_parts(2) [OF assms(2)] by blast
  have q: "queue s = m # q \<Longrightarrow> set_option (m_call m) \<subseteq> refs s" for m q
    using refs_parts(1) [of m s] by auto
  show ?thesis
    using assms(3) r q frame_refl [OF assms(1)]
    by (cases a; cases "writers s ! i")
      (auto simp: writer_act_def CompareAndSwap_def chan_close_def split: list.splits if_splits option.splits
        intro!: frame_setters(1-6,8-10,12))
qed

lemma frame_reader:
  assumes "pending_ok (pend s)" and "i < length (readers s)" and "reader_act a i (readers s ! i) s = Some s'"
  shows "frame_ok s s'"
proof (cases "\<exists>seq b. a = RaFrame seq b")
  case True
  then obtain seq b where a: "a = RaFrame seq b" by blast
  obtain c p where e: "pending_extract (pend s) seq = (c, p)"
    by fastforce
  have "set_option c \<subseteq> refs s" and "frame_ok s (s\<lparr>pend := p\<rparr>)"
    using refs_update(5) [OF assms(1) e] frame_setters(11) [OF frame_refl [OF assms(1)] e] by simp_all
  then show ?thesis
    using assms(3) a e frame_setters(7) [of s "s\<lparr>pend := p\<rparr>" "b # taken s"]
    by (auto simp: reader_act_def split: reader_pc.splits option.splits intro!: frame_setters(2,5))
next
  case False
  have r: "reader_ref (readers s ! i) \<subseteq> refs s"
    using refs_parts(3) [OF assms(2)] by blast
  show ?thesis
    using assms(3) r False frame_refl [OF assms(1)]
    by (cases a; cases "readers s ! i")
      (auto simp: reader_act_def CompareAndSwap_def chan_send_def split: if_splits intro!: frame_setters(1-6,8-10,12))
qed

lemma frame_caller:
  assumes "pending_ok (pend s)" and "caller_act a r pc s = Some s'"
  shows "frame_ok s s'"
  using assms(2) frame_refl [OF assms(1)]
  by (cases a; cases pc)
    (auto simp: caller_act_def CompareAndSwap_def chan_recv_def Let_def split: if_splits list.splits
      intro!: frame_setters(1-6,8-10,12))

lemma refs_step:
  assumes "pending_ok (pend s)" and "refs s \<subseteq> {..<length (cells s)}" and "act a s = Some s'"
  shows "pending_ok (pend s') \<and> refs s' \<subseteq> {..<length (cells s')}"
proof -
  have "pending_ok (pend s') \<and> refs s' \<subseteq> {..<length (cells s')}" if "frame_ok s s'"
    using that assms(2) by (auto simp: frame_ok_def)
  moreover have "frame_ok s s'" if "a \<in> {ASpawn} \<union> range ACallErr \<union> range AHeartbeat"
    using that assms(1,3) by (auto simp: act_def free_def frame_ok_def refs_frame refs_spawn)
  moreover have "frame_ok s s'" if "\<exists>i x. a = AWriter i x \<or> (\<exists>y. a = AReader i y) \<or> (\<exists>z. a = ACaller i z)"
    using that assms(3) frame_writer [OF assms(1)] frame_reader [OF assms(1)] frame_caller [OF assms(1)]
    by (auto simp: act_def split: if_splits)
  ultimately show ?thesis
    using assms by (cases a) (auto simp: act_def refs_enqueue)
qed

subsection \<open>Calls\<close>

abbreviation sending :: "'b client \<Rightarrow> call_ref \<Rightarrow> nat" where
  "sending s r \<equiv> tally (sends r) (readers s)"

abbreviation closing :: "'b client \<Rightarrow> call_ref \<Rightarrow> nat" where
  "closing s r \<equiv> tally (closes r) (writers s)"

lemma cells_okD:
  "cells_ok s \<Longrightarrow> r < length (cells s) \<Longrightarrow> cell_ok (sending s r) (closing s r) (cells s ! r)"
  "cells_ok s \<Longrightarrow> r < length (cells s) \<Longrightarrow> loads_ok (cells s ! r)"
  by (simp_all add: cells_ok_def)

text \<open>An action that changes one call and the number of goroutines at its channel.\<close>

lemma cells_ok_one:
  assumes "cells_ok s" and "cells s' = (cells s)[r := x]" and "r < length (cells s)"
    and "\<And>q. q \<noteq> r \<Longrightarrow> sending s' q = sending s q \<and> closing s' q = closing s q"
    and "cell_ok (sending s' r) (closing s' r) x" and "loads_ok x"
  shows "cells_ok s'"
  unfolding cells_ok_def
proof (intro allI impI)
  fix q
  assume "q < length (cells s')"
  then show "cell_ok (sending s' q) (closing s' q) (cells s' ! q) \<and> loads_ok (cells s' ! q)"
    using assms cells_okD [OF assms(1), of q] by (cases "q = r") simp_all
qed

lemma cells_ok_same:
  assumes "cells_ok s" and "cells s' = cells s" and "\<And>q. sending s' q = sending s q \<and> closing s' q = closing s q"
  shows "cells_ok s'"
  using assms by (simp add: cells_ok_def)

lemma closing_upd:
  "i < length (writers s) \<Longrightarrow> closing (set_writer s i w) q + closes q (writers s ! i) = closing s q + closes q w"
  using tally_upd [of i "writers s" "closes q" w] by (simp add: set_writer_def)

lemma sending_upd:
  "i < length (readers s) \<Longrightarrow> sending (set_reader s i x) q + sends q (readers s ! i) = sending s q + sends q x"
  using tally_upd [of i "readers s" "sends q" x] by (simp add: set_reader_def)

lemma setter_frame [simp]:
  "writers (set_call s r c) = writers s" "readers (set_call s r c) = readers s"
  "cells (set_call s r c) = (cells s)[r := (cells s ! r)\<lparr>c_call := c\<rparr>]"
  "writers (set_pc s r pc) = writers s" "readers (set_pc s r pc) = readers s"
  "cells (set_pc s r pc) = (cells s)[r := (cells s ! r)\<lparr>c_pc := pc\<rparr>]"
  "cells (set_writer s i w) = cells s" "readers (set_writer s i w) = readers s"
  "cells (set_reader s i x) = cells s" "writers (set_reader s i x) = writers s"
  "cells (free s b) = cells s" "writers (free s b) = writers s" "readers (free s b) = readers s"
  "crashed (set_call s r c) = crashed s" "crashed (set_pc s r pc) = crashed s" "crashed (free s b) = crashed s"
  "crashed (set_writer s i w) = crashed s" "crashed (set_reader s i x) = crashed s"
  by (simp_all add: client_setters)

lemma cells_writer_boring:
  assumes "cells_ok s" and "i < length (writers s)" and "cells t = cells s" "writers t = writers s" "readers t = readers s"
    and "\<And>q. closes q w = closes q (writers s ! i)"
  shows "cells_ok (set_writer t i w)"
proof (rule cells_ok_same [OF assms(1)])
  show "sending (set_writer t i w) q = sending s q \<and> closing (set_writer t i w) q = closing s q" for q
    using closing_upd [where i = i and s = t and w = w and q = q] assms by simp
qed (use assms in simp)

lemma cells_writer_call:
  assumes ok: "cells_ok s" and i: "i < length (writers s)" and r: "r < length (cells s)"
    and q: "\<And>q. q \<noteq> r \<Longrightarrow> closes q w = closes q (writers s ! i)"
    and c: "cell_ok (sending s r) (closing s r - closes r (writers s ! i) + closes r w) ((cells s ! r)\<lparr>c_call := c\<rparr>)"
    and l: "loads_ok ((cells s ! r)\<lparr>c_call := c\<rparr>)"
  shows "cells_ok (set_writer (set_call s r c) i w)"
proof (rule cells_ok_one [OF ok _ r])
  let ?t = "set_writer (set_call s r c) i w"
  have up: "closing ?t q + closes q (writers s ! i) = closing s q + closes q w" for q
    using closing_upd [where i = i and s = "set_call s r c" and w = w and q = q] i by simp
  show "sending ?t q = sending s q \<and> closing ?t q = closing s q" if "q \<noteq> r" for q
    using up [of q] q [OF that] by simp
  have "closes r (writers s ! i) \<le> closing s r"
    using tally_split [OF i, of "closes r"] by force
  then have "closing ?t r = closing s r - closes r (writers s ! i) + closes r w"
    using up [of r] by linarith
  then show "cell_ok (sending ?t r) (closing ?t r) ((cells s ! r)\<lparr>c_call := c\<rparr>)"
    using c by simp
qed (use l in simp_all)

lemma cells_writer:
  assumes ok: "cells_ok s" and i: "i < length (writers s)" and refs: "refs s \<subseteq> {..<length (cells s)}"
    and a: "writer_act a i (writers s ! i) s = Some s'"
  shows "cells_ok s' \<and> crashed s' = crashed s"
proof -
  have r: "r \<in> writer_ref (writers s ! i) \<Longrightarrow> r < length (cells s)" for r
    using refs_parts(2) [OF i] refs by blast
  show ?thesis
  proof (cases "writers s ! i")
    case (WCas m r)
    have r': "r < length (cells s)" using r WCas by simp
    note c = cells_okD [OF ok r']
    show ?thesis
      using a WCas c cells_writer_boring [OF ok i, of _ WIdle]
        cells_writer_call [OF ok i r', of "WStore m r" "(call_of s r)\<lparr>cs_state := stateSent\<rparr>"]
      by (cases a) (auto simp: writer_act_def CompareAndSwap_def cell_ok_def loads_ok_def call_of_def
          split: if_splits caller_pc.splits)
  next
    case (WFail r)
    have r': "r < length (cells s)" using r WFail by simp
    note c = cells_okD [OF ok r']
    show ?thesis
      using a WFail c cells_writer_boring [OF ok i, of _ WIdle]
        cells_writer_call [OF ok i r', of "WClose r" "(call_of s r)\<lparr>cs_state := stateFailed\<rparr>"]
      by (cases a) (auto simp: writer_act_def CompareAndSwap_def cell_ok_def loads_ok_def call_of_def
          split: if_splits caller_pc.splits)
  next
    case (WClose r)
    have r': "r < length (cells s)" using r WClose by simp
    note c = cells_okD [OF ok r']
    have "closes r (writers s ! i) \<le> closing s r"
      using tally_split [OF i, of "closes r"] by force
    then have "0 < closing s r" using WClose by simp
    then have f: "cs_state (call_of s r) = stateFailed \<and> \<not> cs_closed (call_of s r) \<and> closing s r = 1"
      using c(1) by (auto simp: cell_ok_def call_of_def split: call_status.splits)
    show ?thesis
      using a WClose c f
        cells_writer_call [OF ok i r', of WIdle "(call_of s r)\<lparr>cs_closed := True\<rparr>"]
      by (cases a) (auto simp: writer_act_def chan_close_def cell_ok_def loads_ok_def call_of_def
          split: if_splits caller_pc.splits)
  qed (use a cells_writer_boring [OF ok i] in \<open>cases a; auto simp: writer_act_def split: list.splits option.splits\<close>)+
qed

lemma cells_reader_boring:
  assumes "cells_ok s" and "i < length (readers s)" and "cells t = cells s" "writers t = writers s" "readers t = readers s"
    and "\<And>q. sends q x = sends q (readers s ! i)"
  shows "cells_ok (set_reader t i x)"
proof (rule cells_ok_same [OF assms(1)])
  show "sending (set_reader t i x) q = sending s q \<and> closing (set_reader t i x) q = closing s q" for q
    using sending_upd [where i = i and s = t and x = x and q = q] assms by simp
qed (use assms in simp)

lemma cells_reader_call:
  assumes ok: "cells_ok s" and i: "i < length (readers s)" and r: "r < length (cells s)"
    and q: "\<And>q. q \<noteq> r \<Longrightarrow> sends q x = sends q (readers s ! i)"
    and c: "cell_ok (sending s r - sends r (readers s ! i) + sends r x) (closing s r) ((cells s ! r)\<lparr>c_call := c\<rparr>)"
    and l: "loads_ok ((cells s ! r)\<lparr>c_call := c\<rparr>)"
  shows "cells_ok (set_reader (set_call s r c) i x)"
proof (rule cells_ok_one [OF ok _ r])
  let ?t = "set_reader (set_call s r c) i x"
  have up: "sending ?t q + sends q (readers s ! i) = sending s q + sends q x" for q
    using sending_upd [where i = i and s = "set_call s r c" and x = x and q = q] i by simp
  show "sending ?t q = sending s q \<and> closing ?t q = closing s q" if "q \<noteq> r" for q
    using up [of q] q [OF that] by simp
  have "sends r (readers s ! i) \<le> sending s r"
    using tally_split [OF i, of "sends r"] by force
  then have "sending ?t r = sending s r - sends r (readers s ! i) + sends r x"
    using up [of r] by linarith
  then show "cell_ok (sending ?t r) (closing ?t r) ((cells s ! r)\<lparr>c_call := c\<rparr>)"
    using c by simp
qed (use l in simp_all)

lemma cells_reader:
  assumes ok: "cells_ok s" and i: "i < length (readers s)" and refs: "refs s \<subseteq> {..<length (cells s)}"
    and a: "reader_act a i (readers s ! i) s = Some s'"
  shows "cells_ok s' \<and> crashed s' = crashed s"
proof -
  have r: "r \<in> reader_ref (readers s ! i) \<Longrightarrow> r < length (cells s)" for r
    using refs_parts(3) [OF i] refs by blast
  show ?thesis
  proof (cases "readers s ! i")
    case RIdle
    show ?thesis
      using a RIdle cells_reader_boring [OF ok i] cells_ok_same [OF ok, of s']
      by (cases a) (auto simp: reader_act_def split: option.splits prod.splits)
  next
    case (RGot r b)
    have r': "r < length (cells s)" using r RGot by simp
    note c = cells_okD [OF ok r']
    show ?thesis
      using a RGot c cells_reader_boring [OF ok i, of _ RIdle]
        cells_reader_call [OF ok i r', of "RSend r b" "(call_of s r)\<lparr>cs_state := stateDelivered\<rparr>"]
      by (cases a) (auto simp: reader_act_def CompareAndSwap_def cell_ok_def loads_ok_def call_of_def
          split: if_splits caller_pc.splits)
  next
    case (RSend r b)
    have r': "r < length (cells s)" using r RSend by simp
    note c = cells_okD [OF ok r']
    have "sends r (readers s ! i) \<le> sending s r"
      using tally_split [OF i, of "sends r"] by force
    then have "0 < sending s r" using RSend by simp
    then have f: "cs_state (call_of s r) = stateDelivered \<and> \<not> cs_closed (call_of s r) \<and> sending s r = 1 \<and>
        cs_call (call_of s r) = []"
      using c(1) by (auto simp: cell_ok_def call_of_def split: call_status.splits)
    show ?thesis
      using a RSend c f
        cells_reader_call [OF ok i r', of RIdle "(call_of s r)\<lparr>cs_call := [b]\<rparr>"]
      by (cases a) (auto simp: reader_act_def chan_send_def cell_ok_def loads_ok_def call_of_def
          split: if_splits caller_pc.splits)
  qed
qed

text \<open>A caller changes only its own call.\<close>

lemma cells_own:
  assumes "cells_ok s" and "r < length (cells s)" and "cells s' = (cells s)[r := x]"
    and "writers s' = writers s" and "readers s' = readers s"
    and "cell_ok (sending s r) (closing s r) x" and "loads_ok x"
  shows "cells_ok s'"
  by (rule cells_ok_one [OF assms(1,3,2)]) (use assms in simp_all)

lemma cells_caller:
  assumes ok: "cells_ok s" and r: "r < length (cells s)"
    and a: "caller_act a r (c_pc (cells s ! r)) s = Some s'"
  shows "cells_ok s' \<and> crashed s' = crashed s"
proof -
  note c = cells_okD [OF ok r]
  have own: "cells_ok t" if "cells t = (cells s)[r := cells t ! r]" "writers t = writers s" "readers t = readers s"
    "cell_ok (sending s r) (closing s r) (cells t ! r)" "loads_ok (cells t ! r)" for t
    using cells_own [OF ok r that] .
  show ?thesis
  proof (cases "c_pc (cells s ! r)")
    case CWait
    show ?thesis
      using a CWait c r
      by (cases a; cases "cs_state (c_call (cells s ! r))")
        (auto simp: caller_act_def chan_recv_def call_of_def cell_ok_def loads_ok_def
          split: if_splits list.splits intro!: own)
  next
    case CLoad
    show ?thesis
      using a CLoad c r
      by (cases a; cases "cs_state (c_call (cells s ! r))")
        (auto simp: caller_act_def call_of_def cell_ok_def loads_ok_def Let_def intro!: own)
  next
    case (CCas st)
    show ?thesis
      using a CCas c r
      by (cases a; cases "cs_state (c_call (cells s ! r))")
        (auto simp: caller_act_def CompareAndSwap_def call_of_def cell_ok_def loads_ok_def split: if_splits
          intro!: own)
  next
    case CDelete
    show ?thesis
      using a CDelete c r
      by (cases a; cases "cs_state (c_call (cells s ! r))")
        (auto simp: caller_act_def call_of_def cell_ok_def loads_ok_def intro!: own)
  next
    case CRecv
    show ?thesis
      using a CRecv c r
      by (cases a; cases "cs_state (c_call (cells s ! r))")
        (auto simp: caller_act_def chan_recv_def call_of_def cell_ok_def loads_ok_def
          split: if_splits list.splits intro!: own)
  qed (use a in \<open>cases a; simp add: caller_act_def\<close>)+
qed

lemma sends_ref: "sends r pc \<noteq> 0 \<Longrightarrow> r \<in> reader_ref pc"
  by (cases pc) (simp_all split: if_splits)

lemma closes_ref: "closes r pc \<noteq> 0 \<Longrightarrow> r \<in> writer_ref pc"
  by (cases pc) (simp_all split: if_splits)

lemma no_refs:
  assumes "r \<notin> refs s"
  shows "sending s r = 0" and "closing s r = 0"
proof -
  have "sends r pc = 0" if "pc \<in> set (readers s)" for pc
    using that assms sends_ref [of r pc] by (auto simp: refs_def)
  then show "sending s r = 0" by (rule tally_zero)
  have "closes r pc = 0" if "pc \<in> set (writers s)" for pc
    using that assms closes_ref [of r pc] by (auto simp: refs_def)
  then show "closing s r = 0" by (rule tally_zero)
qed

lemma cells_step:
  assumes ok: "cells_ok s" and refs: "refs s \<subseteq> {..<length (cells s)}" and a: "act a s = Some s'"
  shows "cells_ok s' \<and> crashed s' = crashed s"
proof (cases a)
  case (ACall seq b)
  have "length (cells s) \<notin> refs s" using refs by auto
  note none = no_refs [OF this]
  have "cell_ok 0 0 \<lparr>c_call = newCallState seq, c_pc = CWait, c_loads = 0\<rparr>"
    "loads_ok \<lparr>c_call = newCallState seq, c_pc = CWait, c_loads = 0\<rparr>"
    by (simp_all add: cell_ok_def loads_ok_def newCallState_def)
  then show ?thesis
    using a ACall ok none by (auto simp: act_def cells_ok_def nth_append less_Suc_eq)
next
  case (AWriter i w)
  then show ?thesis
    using a cells_writer [OF ok _ refs] by (simp add: act_def split: if_splits)
next
  case (AReader i x)
  then show ?thesis
    using a cells_reader [OF ok _ refs] by (simp add: act_def split: if_splits)
next
  case (ACaller r c)
  then show ?thesis
    using a cells_caller [OF ok] by (simp add: act_def split: if_splits)
qed (use a ok in \<open>auto simp: act_def cells_ok_def\<close>)

lemma client_inv_step:
  assumes "client_inv s" and "act a s = Some s'"
  shows "client_inv s'"
  using assms refs_step [OF _ _ assms(2)] cells_step [OF _ _ assms(2)] by (auto simp: client_inv_def)

lemma client_inv_reachable: "client_reachable s \<Longrightarrow> client_inv s"
proof (induction rule: client_reachable.induct)
  case client_init
  show ?case
    by (simp add: client_inv_def new_client_def pending_ok_New refs_def pending_abs_New cells_ok_def)
next
  case (client_step s a s')
  then show ?case using client_inv_step by blast
qed

subsection \<open>Buffers\<close>

text \<open>The buffers a client holds, as one multiset; \<open>balanced\<close> says that nothing else was taken.\<close>

definition held :: "'b client \<Rightarrow> 'b multiset" where
  "held s = mset (freed s) + tally (\<lambda>m. {#m_buf m#}) (queue s) + tally writer_bufs (writers s) +
     tally reader_bufs (readers s) + tally cell_bufs (cells s)"

lemma balanced_held: "balanced s \<longleftrightarrow> mset (taken s) = held s"
  by (simp add: balanced_def held_def)

lemma held_set_writer:
  "i < length (writers s) \<Longrightarrow> held (set_writer s i w) + writer_bufs (writers s ! i) = held s + writer_bufs w"
  using tally_upd [of i "writers s" writer_bufs w] by (simp add: held_def set_writer_def)

lemma held_set_reader:
  "i < length (readers s) \<Longrightarrow> held (set_reader s i x) + reader_bufs (readers s ! i) = held s + reader_bufs x"
  using tally_upd [of i "readers s" reader_bufs x] by (simp add: held_def set_reader_def)

lemma held_set_call:
  "r < length (cells s) \<Longrightarrow> held (set_call s r c) + mset (cs_call (call_of s r)) = held s + mset (cs_call c)"
  using tally_upd [of r "cells s" cell_bufs "(cells s ! r)\<lparr>c_call := c\<rparr>"]
  by (simp add: held_def set_call_def cell_bufs_def call_of_def)

lemma held_set_pc:
  "r < length (cells s) \<Longrightarrow> held (set_pc s r pc) + returned (c_pc (cells s ! r)) = held s + returned pc"
  using tally_upd [of r "cells s" cell_bufs "(cells s ! r)\<lparr>c_pc := pc\<rparr>"]
  by (simp add: held_def set_pc_def cell_bufs_def)

lemma held_free: "held (free s b) = held s + {#b#}"
  by (simp add: held_def free_def)

lemma held_frame [simp]:
  "held (s\<lparr>pend := p\<rparr>) = held s" "held (s\<lparr>taken := ts\<rparr>) = held s" "held (s\<lparr>crashed := k\<rparr>) = held s"
  by (simp_all add: held_def)

lemma taken_frame [simp]:
  "taken (set_call s r c) = taken s" "taken (set_pc s r pc) = taken s" "taken (set_writer s i w) = taken s"
  "taken (set_reader s i x) = taken s" "taken (free s b) = taken s"
  by (simp_all add: client_setters)

lemma held_queue: "queue s = m # q \<Longrightarrow> held s = held (s\<lparr>queue := q\<rparr>) + {#m_buf m#}"
  by (simp add: held_def)

lemma held_writer_call:
  assumes i: "i < length (writers s)" and refs: "refs s \<subseteq> {..<length (cells s)}"
    and a: "writer_act a i (writers s ! i) s = Some s'" and own: "a = WaMark \<or> a = WaFail \<or> a = WaClose"
  shows "held s' = held s \<and> taken s' = taken s"
proof -
  have r: "r \<in> writer_ref (writers s ! i) \<Longrightarrow> r < length (cells s)" for r
    using refs_parts(2) [OF i] refs by blast
  show ?thesis
  proof (cases a)
    case WaMark
    then obtain m r where pc: "writers s ! i = WCas m r"
      using a by (auto simp: writer_act_def split: writer_pc.splits)
    then show ?thesis
      using a WaMark i r [of r] held_free [of s "m_buf m"]
        held_set_writer [of i "free s (m_buf m)" WIdle]
        held_set_writer [of i "set_call s r ((call_of s r)\<lparr>cs_state := stateSent\<rparr>)" "WStore m r"]
        held_set_call [of r s "(call_of s r)\<lparr>cs_state := stateSent\<rparr>"]
      by (auto simp: writer_act_def CompareAndSwap_def split: if_splits)
  next
    case WaFail
    then obtain r where pc: "writers s ! i = WFail r"
      using a by (auto simp: writer_act_def split: writer_pc.splits)
    then show ?thesis
      using a WaFail i r [of r] held_set_writer [of i s WIdle]
        held_set_writer [of i "set_call s r ((call_of s r)\<lparr>cs_state := stateFailed\<rparr>)" "WClose r"]
        held_set_call [of r s "(call_of s r)\<lparr>cs_state := stateFailed\<rparr>"]
      by (auto simp: writer_act_def CompareAndSwap_def split: if_splits)
  next
    case WaClose
    then obtain r where pc: "writers s ! i = WClose r"
      using a by (auto simp: writer_act_def split: writer_pc.splits)
    then show ?thesis
      using a WaClose i r [of r]
        held_set_writer [of i "set_call s r ((call_of s r)\<lparr>cs_closed := True\<rparr>)" WIdle]
        held_set_call [of r s "(call_of s r)\<lparr>cs_closed := True\<rparr>"]
      by (auto simp: writer_act_def chan_close_def split: if_splits)
  qed (use own in simp_all)
qed

lemma held_writer:
  assumes i: "i < length (writers s)" and refs: "refs s \<subseteq> {..<length (cells s)}"
    and a: "writer_act a i (writers s ! i) s = Some s'"
  shows "held s' = held s \<and> taken s' = taken s"
proof (cases a)
  case WaTake
  then obtain m q where m: "queue s = m # q" and pc: "writers s ! i = WIdle"
    using a by (auto simp: writer_act_def split: writer_pc.splits list.splits)
  then show ?thesis
    using a WaTake i held_queue [OF m] held_set_writer [of i "s\<lparr>queue := q\<rparr>"]
    by (cases "m_call m") (auto simp: writer_act_def)
next
  case WaStore
  then obtain m r where pc: "writers s ! i = WStore m r"
    using a by (auto simp: writer_act_def split: writer_pc.splits)
  then show ?thesis
    using a WaStore i
      held_set_writer [of i "s\<lparr>pend := pending_store (pend s) (cs_seq (call_of s r)) r\<rparr>" "WWrite m"]
    by (auto simp: writer_act_def)
next
  case (WaWrite ok)
  then obtain m where pc: "writers s ! i = WWrite m"
    using a by (auto simp: writer_act_def split: writer_pc.splits)
  then show ?thesis
    using a WaWrite i held_free [of s "m_buf m"] held_set_writer [of i "free s (m_buf m)"]
    by (auto simp: writer_act_def split: option.splits)
next
  case WaDelete
  then obtain r where pc: "writers s ! i = WDelete r"
    using a by (auto simp: writer_act_def split: writer_pc.splits)
  then show ?thesis
    using a WaDelete i
      held_set_writer [of i "s\<lparr>pend := pending_delete (pend s) (cs_seq (call_of s r))\<rparr>" "WFail r"]
    by (auto simp: writer_act_def)
qed (use held_writer_call [OF assms] in simp_all)

lemma held_reader:
  assumes i: "i < length (readers s)" and refs: "refs s \<subseteq> {..<length (cells s)}"
    and a: "reader_act a i (readers s ! i) s = Some s'" and bal: "balanced s"
  shows "balanced s'"
proof -
  have r: "r \<in> reader_ref (readers s ! i) \<Longrightarrow> r < length (cells s)" for r
    using refs_parts(3) [OF i] refs by blast
  show ?thesis
  proof (cases a)
    case (RaFrame seq b)
    then have pc: "readers s ! i = RIdle"
      using a by (auto simp: reader_act_def split: reader_pc.splits)
    obtain e p where e: "pending_extract (pend s) seq = (e, p)" by fastforce
    let ?t = "s\<lparr>pend := p, taken := b # taken s\<rparr>"
    have "held ?t = held s" by (simp add: held_def)
    then show ?thesis
      using a RaFrame i pc e bal held_free [of ?t b]
        held_set_reader [of i ?t "RGot (the e) b"]
      by (cases e) (auto simp: reader_act_def balanced_held)
  next
    case RaDeliver
    then obtain r b where pc: "readers s ! i = RGot r b"
      using a by (auto simp: reader_act_def split: reader_pc.splits)
    then show ?thesis
      using a RaDeliver i r [of r] bal held_free [of s b] held_set_reader [of i "free s b" RIdle]
        held_set_reader [of i "set_call s r ((call_of s r)\<lparr>cs_state := stateDelivered\<rparr>)" "RSend r b"]
        held_set_call [of r s "(call_of s r)\<lparr>cs_state := stateDelivered\<rparr>"]
      by (auto simp: reader_act_def CompareAndSwap_def balanced_held split: if_splits)
  next
    case RaPut
    then obtain r b where pc: "readers s ! i = RSend r b"
      using a by (auto simp: reader_act_def split: reader_pc.splits)
    then show ?thesis
      using a RaPut i r [of r] bal
        held_set_reader [of i "set_call s r ((call_of s r)\<lparr>cs_call := [b]\<rparr>)" RIdle]
        held_set_call [of r s "(call_of s r)\<lparr>cs_call := [b]\<rparr>"]
      by (auto simp: reader_act_def chan_send_def balanced_held split: if_splits)
  qed
qed

lemma held_set_pc_from:
  "r < length (cells t) \<Longrightarrow> returned (c_pc (cells t ! r)) = {#} \<Longrightarrow> held (set_pc t r pc) = held t + returned pc"
  using held_set_pc [of r t pc] by simp

lemma held_received:
  "r < length (cells s) \<Longrightarrow> cs_call (call_of s r) = b # rest \<Longrightarrow>
     add_mset b (held (set_call s r ((call_of s r)\<lparr>cs_call := rest\<rparr>))) = held s"
  using held_set_call [of r s "(call_of s r)\<lparr>cs_call := rest\<rparr>"] by simp

lemma held_same_call:
  "r < length (cells s) \<Longrightarrow> cs_call c = cs_call (call_of s r) \<Longrightarrow> held (set_call s r c) = held s"
  using held_set_call [of r s c] by simp

lemma held_loads:
  "r < length (cells s) \<Longrightarrow> held (s\<lparr>cells := (cells s)[r := (cells s ! r)\<lparr>c_loads := n\<rparr>]\<rparr>) = held s"
  using tally_upd [of r "cells s" cell_bufs "(cells s ! r)\<lparr>c_loads := n\<rparr>"]
  by (simp add: held_def cell_bufs_def)

lemma held_caller:
  assumes r: "r < length (cells s)" and a: "caller_act a r (c_pc (cells s ! r)) s = Some s'"
  shows "held s' = held s \<and> taken s' = taken s"
  using a r
  by (cases a; cases "c_pc (cells s ! r)")
    (auto simp: caller_act_def chan_recv_def CompareAndSwap_def Let_def held_set_pc_from held_received
      held_same_call held_loads held_free split: if_splits list.splits call_status.splits)

lemma balanced_step:
  assumes "refs s \<subseteq> {..<length (cells s)}" and "balanced s" and "act a s = Some s'"
  shows "balanced s'"
proof (cases a)
  case (AWriter i w)
  then show ?thesis
    using assms held_writer [of i s w s'] by (simp add: act_def balanced_held split: if_splits)
next
  case (AReader i x)
  then show ?thesis
    using assms held_reader [of i s x s'] by (simp add: act_def split: if_splits)
next
  case (ACaller r c)
  then show ?thesis
    using assms held_caller [of r s c s'] by (simp add: act_def balanced_held split: if_splits)
qed (use assms in \<open>auto simp: act_def balanced_def free_def cell_bufs_def newCallState_def\<close>)

lemma balanced_reachable: "client_reachable s \<Longrightarrow> balanced s"
proof (induction rule: client_reachable.induct)
  case client_init
  show ?case by (simp add: balanced_def new_client_def)
next
  case (client_step s a s')
  then show ?case
    using balanced_step [OF _ client_step.IH client_step.hyps(2)] client_inv_reachable [OF client_step.hyps(1)]
    by (simp add: client_inv_def)
qed

section \<open>Properties\<close>

text \<open>A caller that has returned from \<open>Call\<close>; one that is inside \<open>cancel\<close>.\<close>

fun ended :: "'b caller_pc \<Rightarrow> bool" where
  "ended (CGot b) = True"
| "ended CHanged = True"
| "ended CCanceled = True"
| "ended _ = False"

fun canceling :: "'b caller_pc \<Rightarrow> bool" where
  "canceling CLoad = True"
| "canceling (CCas st) = True"
| "canceling CDelete = True"
| "canceling CRecv = True"
| "canceling _ = False"

definition quiescent :: "'b client \<Rightarrow> bool" where
  "quiescent s \<longleftrightarrow> queue s = [] \<and> (\<forall>w \<in> set (writers s). w = WIdle) \<and> (\<forall>x \<in> set (readers s). x = RIdle) \<and>
     (\<forall>c \<in> set (cells s). ended (c_pc c))"

lemma ended_empty: "cell_ok ns nc x \<Longrightarrow> ended (c_pc x) \<Longrightarrow> cs_call (c_call x) = []"
  by (cases "c_pc x") (auto simp: cell_ok_def split: call_status.splits)

lemma quiescent_held:
  assumes "quiescent s" and "cells_ok s"
  shows "held s = mset (freed s) + tally (\<lambda>x. returned (c_pc x)) (cells s)"
proof -
  have "cs_call (c_call x) = []" if x: "x \<in> set (cells s)" for x
  proof -
    obtain r where "r < length (cells s)" "x = cells s ! r"
      using x by (auto simp: in_set_conv_nth)
    then show ?thesis
      using assms ended_empty x cells_okD(1) by (metis quiescent_def)
  qed
  then have "tally cell_bufs (cells s) = tally (\<lambda>x. returned (c_pc x)) (cells s)"
    unfolding tally_def cell_bufs_def by (intro arg_cong [where f = sum_list] map_cong) simp_all
  moreover have "tally writer_bufs (writers s) = {#}" "tally reader_bufs (readers s) = {#}"
    using assms(1) by (auto simp: quiescent_def intro!: tally_zero)
  ultimately show ?thesis
    using assms(1) by (simp add: held_def quiescent_def)
qed

lemma run_acts_append:
  "run_acts (as @ bs) s = (case run_acts as s of None \<Rightarrow> None | Some t \<Rightarrow> run_acts bs t)"
  by (induction as arbitrary: s) (auto split: option.splits)

lemma sends_only: "sends r x \<noteq> 0 \<Longrightarrow> \<exists>b. x = RSend r b"
  by (cases x) (auto split: if_splits)

lemma sending_witness:
  "0 < sending s r \<Longrightarrow> \<exists>i b. i < length (readers s) \<and> readers s ! i = RSend r b"
proof -
  assume "0 < sending s r"
  then obtain x where "x \<in> set (readers s)" "sends r x \<noteq> 0"
    using tally_zero [of "readers s" "sends r"] by auto
  then show ?thesis
    using sends_only [of r x] by (metis in_set_conv_nth)
qed

lemma reader_can_put:
  assumes "client_inv s" and "i < length (readers s)" and "readers s ! i = RSend r b"
  shows "act (AReader i RaPut) s = Some (set_reader (set_call s r ((call_of s r)\<lparr>cs_call := [b]\<rparr>)) i RIdle)"
proof -
  have r: "r < length (cells s)"
    using assms refs_parts(3) [OF assms(2), of r] by (auto simp: client_inv_def)
  have "0 < sending s r"
    using tally_split [OF assms(2), of "sends r"] assms(3) by force
  then have "\<not> cs_closed (call_of s r) \<and> cs_call (call_of s r) = []"
    using cells_okD(1) [OF _ r] assms(1)
    by (fastforce simp: client_inv_def cell_ok_def call_of_def split: call_status.splits)
  then show ?thesis
    using assms by (simp add: act_def reader_act_def chan_send_def)
qed

lemma canceling_progress:
  assumes "client_inv s" and r: "r < length (cells s)" and "canceling (c_pc (cells s ! r))"
  shows "(\<exists>a s'. act (ACaller r a) s = Some s') \<or>
    (\<exists>i s' s''. act (AReader i RaPut) s = Some s' \<and> act (ACaller r CaRecv) s' = Some s'')"
proof (cases "c_pc (cells s ! r) = CRecv \<and> cs_call (call_of s r) = []")
  case True
  then have "0 < sending s r"
    using cells_okD(1) [OF _ r] assms(1)
    by (auto simp: client_inv_def cell_ok_def call_of_def split: call_status.splits)
  then obtain i b where i: "i < length (readers s)" "readers s ! i = RSend r b"
    using sending_witness by blast
  have "\<exists>s''. act (ACaller r CaRecv) (set_reader (set_call s r ((call_of s r)\<lparr>cs_call := [b]\<rparr>)) i RIdle) = Some s''"
    using True r by (simp add: act_def caller_act_def chan_recv_def call_of_def)
  then show ?thesis using reader_can_put [OF assms(1) i] by blast
next
  case False
  have "\<exists>s'. act (ACaller r (case c_pc (cells s ! r) of CLoad \<Rightarrow> CaLoad | CCas _ \<Rightarrow> CaCas | CDelete \<Rightarrow> CaDelete
      | _ \<Rightarrow> CaRecv)) s = Some s'"
    using assms False
    by (cases "c_pc (cells s ! r)")
      (auto simp: act_def caller_act_def chan_recv_def CompareAndSwap_def Let_def split: list.splits)
  then show ?thesis by blast
qed

text \<open>
  C12: No interleaving of callers, writers and readers panics (no send to or second close of a call
  channel), and no buffer is lost or released twice: when all of them have come to rest, the buffers
  the client was given or has read are exactly the released ones and the responses it returned.
\<close>

theorem call_buffers_accounted:
  assumes "client_reachable s"
  shows "\<not> crashed s \<and>
    (quiescent s \<longrightarrow> mset (taken s) = mset (freed s) + tally (\<lambda>x. returned (c_pc x)) (cells s))"
proof -
  have inv: "client_inv s" and "balanced s"
    using client_inv_reachable balanced_reachable assms by blast+
  then show ?thesis
    using quiescent_held [of s] by (auto simp: client_inv_def balanced_held)
qed

text \<open>Two calls: the first is answered, the second is canceled while its response is delivered.\<close>

definition demo_acts :: "nat action list" where
  "demo_acts =
     [ASpawn, ACall 7 70, AWriter 0 WaTake, AWriter 0 WaMark, AWriter 0 WaStore, AWriter 0 (WaWrite True),
      AReader 0 (RaFrame 7 71), AReader 0 RaDeliver, AReader 0 RaPut, ACaller 0 CaReceive,
      ACall 8 80, AWriter 0 WaTake, AWriter 0 WaMark, AWriter 0 WaStore, AWriter 0 (WaWrite True),
      AReader 0 (RaFrame 8 81), ACaller 1 CaDone, AReader 0 RaDeliver, ACaller 1 CaLoad, AReader 0 RaPut,
      ACaller 1 CaRecv]"

lemmas act_simps = act_def writer_act_def reader_act_def caller_act_def CompareAndSwap_def chan_send_def
  chan_recv_def chan_close_def client_setters newCallState_def new_client_def newPending_def
  pending_extract_def pending_store_def pending_delete_def partition_index_def partition_extract_def
  partition_store_def partition_delete_def Let_def

theorem call_buffers_accounted_witness:
  "\<exists>s. run_acts demo_acts new_client = Some s \<and> quiescent s \<and> \<not> crashed s \<and>
     mset (taken s) = mset (freed s) + tally (\<lambda>x. returned (c_pc x)) (cells s) \<and> set (freed s) = {70, 80, 81}"
proof -
  let ?s = "the (run_acts demo_acts new_client)"
  have run: "run_acts demo_acts new_client = Some ?s"
    by (simp add: demo_acts_def act_simps)
  have "client_reachable ?s"
    by (rule run_acts_reachable [OF client_init run])
  moreover have "quiescent ?s"
    by (simp add: demo_acts_def act_simps quiescent_def)
  moreover have "set (freed ?s) = {70, 80, 81}"
    by (simp add: demo_acts_def act_simps insert_commute)
  ultimately show ?thesis
    using run call_buffers_accounted [of ?s] by blast
qed

text \<open>
  C13: A canceled call ends.  In every reachable state the loop of \<open>cancel\<close> has read the state of its
  call at most three times, and a caller inside \<open>cancel\<close> can take its next step at once or after a
  reader has put the response it already holds into the channel, which it can do at once.
\<close>

theorem cancel_never_hangs:
  assumes "client_reachable s" and "r < length (cells s)" and "canceling (c_pc (cells s ! r))"
  shows "c_loads (cells s ! r) \<le> 3 \<and>
    ((\<exists>a s'. act (ACaller r a) s = Some s') \<or>
     (\<exists>i s' s''. act (AReader i RaPut) s = Some s' \<and> act (ACaller r CaRecv) s' = Some s''))"
proof -
  have inv: "client_inv s" by (rule client_inv_reachable [OF assms(1)])
  then have "loads_ok (cells s ! r)"
    using cells_okD(2) [OF _ assms(2)] by (simp add: client_inv_def)
  moreover have "rank st \<le> 2" for st by (cases st) simp_all
  ultimately have "c_loads (cells s ! r) \<le> 3"
    by (fastforce simp: loads_ok_def split: caller_pc.splits intro: le_trans)
  then show ?thesis using canceling_progress [OF inv assms(2,3)] by blast
qed

theorem cancel_never_hangs_witness:
  "\<exists>s. run_acts (take 20 demo_acts) new_client = Some s \<and> c_pc (cells s ! 1) = CRecv \<and>
     c_loads (cells s ! 1) \<le> 3"
proof -
  let ?s = "the (run_acts (take 20 demo_acts) new_client)"
  have run: "run_acts (take 20 demo_acts) new_client = Some ?s"
    by (simp add: demo_acts_def act_simps)
  have "client_reachable ?s"
    by (rule run_acts_reachable [OF client_init run])
  moreover have "c_pc (cells ?s ! 1) = CRecv" "1 < length (cells ?s)"
    by (simp_all add: demo_acts_def act_simps)
  ultimately show ?thesis
    using run cancel_never_hangs [of ?s 1] by auto
qed

text \<open>
  The twenty partitions of the pending table are one map from sequence numbers to calls: over any
  sequence of store, delete and extract every extraction answers what the map holds, each call once.
\<close>

lemma pending_refines_map:
  "run_map ops (\<lambda>_. None) = apsnd pending_abs (run_table pending_store pending_delete pending_extract ops newPending)"
  using pt.run_refines [OF pending_ok_New, of ops] by (simp add: pending_abs_New)

text \<open>
  A canceled call can stay in the pending table.  The writer marks the call as sent before it stores
  it; when the caller cancels in between, its delete comes first and the store leaves an entry behind
  that nobody removes although every goroutine is at rest.
\<close>

lemma canceled_call_left_pending:
  "\<exists>s. run_acts [ASpawn, ACall 7 b, AWriter 0 WaTake, AWriter 0 WaMark, ACaller 0 CaDone, ACaller 0 CaLoad,
       ACaller 0 CaCas, ACaller 0 CaDelete, AWriter 0 WaStore, AWriter 0 (WaWrite True)] new_client = Some s \<and>
     quiescent s \<and> c_pc (cells s ! 0) = CCanceled \<and> pending_abs (pend s) 7 = Some 0"
  by (simp add: act_simps quiescent_def pending_abs_def)

end
