(* ===== verification/Protocol_Base.thy ===== *)
theory Protocol_Base
  imports Go_Nocopy
begin

text \<open>
  The frame layer of the node-to-node transport protocol
  (\<open>internal/transporter/internal/protocol/def.go\<close>, \<open>reader.go\<close>, \<open>heartbeat.go\<close>): constants,
  reading a frame from a stream, parsing its header, and the two message shapes most responses
  share (a result code; a result code with an optional total).
\<close>

unbundle bit_operations_syntax

section \<open>Constants\<close>

definition protoSizeBytes :: int where "protoSizeBytes = 4"
definition protoHeaderBytes :: int where "protoHeaderBytes = 1"
definition protoSeqBytes :: int where "protoSeqBytes = 8"
definition protoRouteBytes :: int where "protoRouteBytes = 1"
definition protoCodeBytes :: int where "protoCodeBytes = 2"

definition protoDataBit :: uint8 where "protoDataBit = push_bit 7 0"
definition protoHeartbeatBit :: uint8 where "protoHeartbeatBit = push_bit 7 1"
definition disconnectBit :: uint8 where "disconnectBit = push_bit 6 1"
definition traceContextBit :: uint8 where "traceContextBit = push_bit 5 1"

definition b8 :: int where "b8 = 1"
definition b16 :: int where "b16 = 2"
definition b32 :: int where "b32 = 4"
definition b64 :: int where "b64 = 8"

lemmas proto_consts [simp] =
  protoSizeBytes_def protoHeaderBytes_def protoSeqBytes_def protoRouteBytes_def protoCodeBytes_def
  b8_def b16_def b32_def b64_def

lemma proto_bits [simp]:
  "protoDataBit = 0" "protoHeartbeatBit = 128" "disconnectBit = 64" "traceContextBit = 32"
  by (simp_all add: protoDataBit_def protoHeartbeatBit_def disconnectBit_def traceContextBit_def)

text \<open>The routes (\<open>internal/transporter/internal/route\<close>): numbered from 1 in this order.\<close>

datatype route =
    Handshake | Bind | Unbind | GetIP | Stat | IsOnline | Disconnect | Push | Multicast
  | Broadcast | Publish | Subscribe | Unsubscribe | Trigger | Deliver | GetState | SetState

fun route_id :: "route \<Rightarrow> uint8" where
  "route_id Handshake = 1" | "route_id Bind = 2" | "route_id Unbind = 3" | "route_id GetIP = 4"
| "route_id Stat = 5" | "route_id IsOnline = 6" | "route_id Disconnect = 7" | "route_id Push = 8"
| "route_id Multicast = 9" | "route_id Broadcast = 10" | "route_id Publish = 11"
| "route_id Subscribe = 12" | "route_id Unsubscribe = 13" | "route_id Trigger = 14"
| "route_id Deliver = 15" | "route_id GetState = 16" | "route_id SetState = 17"

text \<open>The result codes (\<open>internal/transporter/internal/codes\<close>).\<close>

definition codes_OK :: uint16 where "codes_OK = 0"
definition codes_NotFoundSession :: uint16 where "codes_NotFoundSession = 1"
definition codes_InternalError :: uint16 where "codes_InternalError = 2"

definition ErrorToCode :: "goerror option \<Rightarrow> uint16" where
  "ErrorToCode err =
     (case err of
        None \<Rightarrow> codes_OK
      | Some e \<Rightarrow> if e = ErrNotFoundSession then codes_NotFoundSession else codes_InternalError)"

definition CodeToError :: "uint16 \<Rightarrow> goerror option" where
  "CodeToError code =
     (if code = codes_OK then None
      else if code = codes_NotFoundSession then Some ErrNotFoundSession
      else Some ErrUnknownError)"

lemmas code_defs = codes_OK_def codes_NotFoundSession_def codes_InternalError_def

section \<open>Reading frames\<close>

text \<open>
  \<open>ParseBuffer\<close> slices \<open>data\<close>, whose array may reach beyond its length: \<open>spare\<close> are those bytes.
  A slice past the capacity panics.
\<close>

definition ParseBuffer :: "byte list \<Rightarrow> byte list \<Rightarrow> (bool \<times> uint8 \<times> uint64) res" where
  "ParseBuffer data spare =
     (let a = data @ spare
      in if length a < 5 then Panic
         else if (a ! 4) AND protoHeartbeatBit = protoHeartbeatBit then Ok (True, 0, 0)
         else if length a < 14 then Panic
         else Ok (False, a ! 5, get_uint BigEndian (take 8 (drop 6 a))))"

text \<open>
  \<open>ReadMessage\<close> of the protocol package: \<open>defaultSizeBytes+size\<close> is a 32-bit sum, and slicing the
  first four bytes of a shorter block panics.
\<close>

definition Proto_ReadMessage ::
    "byte list \<Rightarrow> ((bool \<times> uint8 \<times> uint64 \<times> byte list) \<times> byte list) res" where
  "Proto_ReadMessage s =
     and_then (ReadFull s 4) (\<lambda>(buf, s).
     let size = (get_uint BigEndian buf :: uint32)
     in if size = 0 then Err ErrInvalidMessage
        else let n = unat (4 + size :: uint32)
             in if n < 4 then Panic
                else and_then (ReadFull s (n - 4)) (\<lambda>(rest, s).
                     and_then (ParseBuffer (buf @ rest) []) (\<lambda>(isHeartbeat, route, seq).
                     Ok ((isHeartbeat, route, seq, buf @ rest), s))))"

definition ReaderBuffer ::
    "Bytes pools \<Rightarrow> byte list \<Rightarrow> ((Bytes \<times> byte list) \<times> Bytes pools) res" where
  "ReaderBuffer ps s =
     and_then (MallocBytes ps protoSizeBytes) (\<lambda>(buf1, ps).
     case buf1 of None \<Rightarrow> Panic | Some buf1 \<Rightarrow>
     and_then (ReadFull s 4) (\<lambda>(hdr, s).
     let buf1 = bytes_fill buf1 0 hdr; size = (get_uint BigEndian hdr :: uint32)
     in if size = 0 then Err ErrInvalidMessage
        else let n = unat (4 + size :: uint32)
             in and_then (MallocBytes ps (int n)) (\<lambda>(buf2, ps).
                case buf2 of None \<Rightarrow> Panic | Some buf2 \<Rightarrow>
                if n < 4 then Panic
                else let buf2 = bytes_fill buf2 0 hdr
                     in and_then (ReadFull s (n - 4)) (\<lambda>(rest, s).
                        Ok ((bytes_fill buf2 4 rest, s), snd (Bytes_Release ps buf1))))))"

definition Heartbeat :: "byte list res" where
  "Heartbeat =
     and_then (run_writes (NewWriterWithCapacity [protoSizeBytes + protoHeaderBytes])
       [\<lambda>w. WriteUint32s w BigEndian [word_of_int protoHeaderBytes],
        \<lambda>w. WriteUint8s w [protoHeartbeatBit]]) Writer_Bytes"

section \<open>The shared message shapes\<close>

definition head_bytes :: "int \<Rightarrow> uint8 \<Rightarrow> route \<Rightarrow> byte list" where
  "head_bytes sz hdr r = put_uint BigEndian 4 (word_of_int sz :: uint32) @ [hdr, route_id r]"

text \<open>
  The responses that carry only a code are written and read by the same statements; they differ
  in the route and in the name of the length constant.
\<close>

definition encode_code_res :: "Writer pools \<Rightarrow> int \<Rightarrow> route \<Rightarrow> uint64 \<Rightarrow> uint16 \<Rightarrow> nbuf res" where
  "encode_code_res ps resBytes r seq code =
     and_then (run_writes (MallocWriter ps resBytes)
       [\<lambda>w. WriteUint32s w BigEndian [word_of_int (resBytes - protoSizeBytes)],
        \<lambda>w. WriteUint8s w [protoDataBit],
        \<lambda>w. WriteUint8s w [route_id r],
        \<lambda>w. WriteUint64s w BigEndian [seq],
        \<lambda>w. WriteUint16s w BigEndian [code]])
       (\<lambda>writer. Ok (NewNocopyBuffer [MWriter writer]))"

definition decode_code_res :: "int \<Rightarrow> byte list \<Rightarrow> uint16 res" where
  "decode_code_res resBytes data =
     (if int (length data) \<noteq> resBytes then Err ErrInvalidMessage
      else and_then (Seek (NewReader data) (- protoCodeBytes) SeekEnd) (\<lambda>(_, reader).
           and_then (ReadUint16 reader BigEndian) (\<lambda>(code, reader). Ok code)))"

text \<open>Responses with an optional total, sent only with code OK and a non-zero total.\<close>

definition encode_total_res ::
    "Writer pools \<Rightarrow> int \<Rightarrow> int \<Rightarrow> route \<Rightarrow> uint64 \<Rightarrow> uint16 \<Rightarrow> uint64 list \<Rightarrow> nbuf res" where
  "encode_total_res ps sz resBytes r seq code tot =
     and_then (run_writes (MallocWriter ps resBytes)
       ([\<lambda>w. WriteUint32s w BigEndian [word_of_int sz],
         \<lambda>w. WriteUint8s w [protoDataBit],
         \<lambda>w. WriteUint8s w [route_id r],
         \<lambda>w. WriteUint64s w BigEndian [seq],
         \<lambda>w. WriteUint16s w BigEndian [code]] @
        (if code = codes_OK \<and> 0 < length tot \<and> hd tot \<noteq> 0
         then [\<lambda>w. WriteUint64s w BigEndian [hd tot]] else [])))
       (\<lambda>writer. Ok (NewNocopyBuffer [MWriter writer]))"

definition decode_total_res :: "int \<Rightarrow> byte list \<Rightarrow> (uint16 \<times> uint64) res" where
  "decode_total_res resBytes data =
     (if int (length data) \<noteq> resBytes \<and> int (length data) \<noteq> resBytes - b64 then Err ErrInvalidMessage
      else and_then (Seek (NewReader data)
             (protoSizeBytes + protoHeaderBytes + protoRouteBytes + protoSeqBytes) SeekStart)
             (\<lambda>(_, reader).
           and_then (ReadUint16 reader BigEndian) (\<lambda>(code, reader).
           if code = codes_OK \<and> int (length data) = resBytes
           then and_then (ReadUint64 reader BigEndian) (\<lambda>(tot, reader). Ok (code, tot))
           else Ok (code, 0))))"

text \<open>
  The opening statements of the decoders of messages with a flag in the header: seek behind the
  size, read the header byte, skip the route.
\<close>

definition decode_flags :: "byte list \<Rightarrow> (bool \<times> Reader) res" where
  "decode_flags data =
     and_then (Seek (NewReader data) protoSizeBytes SeekStart) (\<lambda>(_, reader).
     and_then (ReadUint8 reader) (\<lambda>(k, reader).
     and_then (Seek reader protoRouteBytes SeekCurrent) (\<lambda>(_, reader).
     Ok (k AND disconnectBit = disconnectBit, reader))))"

text \<open>The slice expression \<open>data[n:]\<close>.\<close>

definition slice_from :: "byte list \<Rightarrow> nat \<Rightarrow> byte list res" where
  "slice_from data n = (if n \<le> length data then Ok (drop n data) else Panic)"

section \<open>Lemmas for the codecs\<close>

lemma slice_from_append: "length a = n \<Longrightarrow> slice_from (a @ b) n = Ok b"
  by (simp add: slice_from_def)

lemma read_u8_Cons:
  "fits (length pre + 1) \<Longrightarrow> ReadUint8 (reader_at pre (v # post)) = Ok (v, reader_at (pre @ [v]) post)"
  using rd_u8.read_enc [of pre v post] by simp

lemma read_bool_Cons:
  "fits (length pre + 1) \<Longrightarrow>
     ReadBool (reader_at pre ((if b then 1 else 0) # post)) =
     Ok (b, reader_at (pre @ [if b then 1 else 0]) post)"
  using rd_bool.read_enc [of pre b post] by (simp add: enc_bool_def)

lemmas reads_at = read_scalar_at read_u8_Cons read_bool_Cons

lemma length_head_bytes [simp]: "length (head_bytes sz hdr r) = 6"
  by (simp add: head_bytes_def)

text \<open>What an encoder produces: it returns a well-formed buffer whose bytes are given.\<close>

definition encodes :: "nbuf res \<Rightarrow> byte list \<Rightarrow> bool" where
  "encodes m bs \<longleftrightarrow> (\<exists>b. m = Ok b \<and> nb_wf b \<and> wire b = bs)"

lemma encodes_writer:
  assumes "wpools_ok ps" and "0 < n" and "emits fs es" and "bs = es"
  shows "encodes (and_then (run_writes (MallocWriter ps n) fs)
           (\<lambda>w. Ok (NewNocopyBuffer [MWriter w]))) bs"
  unfolding encodes_def
  using buffer_of_writer [OF yields_run [OF yields_Malloc [OF assms(1,2)] assms(3,4)]] .

lemma encodes_message:
  assumes "wpools_ok ps" and "0 < n" and "nn_wf msg" and "emits fs es" and "bs = es @ nn_data msg"
  shows "encodes (and_then (run_writes (MallocWriter ps n) fs)
           (\<lambda>w. Ok (NewNocopyBuffer [MWriter w, MNode msg]))) bs"
  unfolding encodes_def
  using buffer_of_writer_message [OF yields_run [OF yields_Malloc [OF assms(1,2)] assms(4) refl] assms(3)]
    assms(5) by simp

text \<open>
  Reading behind the six fixed bytes of a frame, and the length side conditions of the reads at
  the fixed positions of a message.
\<close>

lemma Seek_head:
  "Seek (NewReader (head_bytes sz hdr r @ post)) 6 SeekStart =
     Ok (6, reader_at (head_bytes sz hdr r) post)"
  using Seek_start [of "head_bytes sz hdr r" 6 post] by (simp add: NewReader_at)

lemma Seek_head_seq:
  "Seek (NewReader (head_bytes sz hdr r @ put_uint BigEndian 8 (seq :: uint64) @ post)) 14 SeekStart =
     Ok (14, reader_at (head_bytes sz hdr r @ put_uint BigEndian 8 seq) post)"
  using Seek_start [of "head_bytes sz hdr r @ put_uint BigEndian 8 seq" 14 post]
  by (simp add: NewReader_at)

lemma fits_numeral [simp]: "fits (numeral k) \<longleftrightarrow> (numeral k :: nat) < 2 ^ 63"
  by (simp add: fits_def)

lemma encode_code_res_bytes:
  assumes "wpools_ok ps" and "0 < n"
  shows "encodes (encode_code_res ps n r seq code)
    (head_bytes (n - 4) 0 r @ put_uint BigEndian 8 seq @ put_uint BigEndian 2 code)"
  unfolding encode_code_res_def
  by (rule encodes_writer [OF assms], (rule emits_intros)+) (simp add: head_bytes_def)

lemma decode_code_res_bytes:
  "decode_code_res 16 (head_bytes sz hdr r @ put_uint BigEndian 8 (seq :: uint64) @
     put_uint BigEndian 2 code) = Ok code"
  using Seek_end [of "put_uint BigEndian 2 code" 2 "head_bytes sz hdr r @ put_uint BigEndian 8 seq"]
  by (simp add: decode_code_res_def NewReader_at read_scalar_at fits_def)

lemma encode_total_res_bytes:
  assumes "wpools_ok ps" and "0 < n"
  shows "encodes (encode_total_res ps sz n r seq code tot)
    (head_bytes sz 0 r @ put_uint BigEndian 8 seq @ put_uint BigEndian 2 code @
     (if code = codes_OK \<and> 0 < length tot \<and> hd tot \<noteq> 0
      then put_uint BigEndian 8 (hd tot) else []))"
  unfolding encode_total_res_def
  by (rule encodes_writer [OF assms], (rule emits_intros)+) (simp add: head_bytes_def)

lemma decode_total_res_bytes:
  "decode_total_res 24 (head_bytes sz hdr r @ put_uint BigEndian 8 (seq :: uint64) @
      put_uint BigEndian 2 code @ (if c then put_uint BigEndian 8 tot else [])) =
     Ok (code, if c \<and> code = codes_OK then tot else 0)"
  using Seek_head_seq [of sz hdr r seq "put_uint BigEndian 2 code @ (if c then put_uint BigEndian 8 tot else [])"]
  by (auto simp: decode_total_res_def read_scalar_at fits_def)

lemma decode_flags_head:
  "decode_flags (head_bytes sz hdr r @ post) =
     Ok (hdr AND disconnectBit = disconnectBit, reader_at (head_bytes sz hdr r) post)"
proof -
  let ?p = "put_uint BigEndian 4 (word_of_int sz :: uint32)"
  have "Seek (NewReader (head_bytes sz hdr r @ post)) protoSizeBytes SeekStart =
      Ok (4, reader_at ?p (hdr # route_id r # post))"
    using Seek_start [of ?p 4 "hdr # route_id r # post"] by (simp add: NewReader_at head_bytes_def)
  moreover have "ReadUint8 (reader_at ?p (hdr # route_id r # post)) =
      Ok (hdr, reader_at (?p @ [hdr]) (route_id r # post))"
    by (rule read_u8_Cons) (simp add: fits_def)
  moreover have "Seek (reader_at (?p @ [hdr]) (route_id r # post)) protoRouteBytes SeekCurrent =
      Ok (6, reader_at (head_bytes sz hdr r) post)"
    using Seek_current [of "[route_id r]" 1 "?p @ [hdr]" post] by (simp add: head_bytes_def fits_def)
  ultimately show ?thesis
    by (simp only: decode_flags_def and_then.simps prod.case)
qed

section \<open>Delivery of a message\<close>

text \<open>
  What the protocol promises of a message type: the encoder returns a buffer whose bytes, at the
  front of any stream, the frame reader cuts off exactly, recognising route and sequence number,
  and the decoder recovers the fields from them.
\<close>

definition delivers ::
    "nbuf res \<Rightarrow> route \<Rightarrow> uint64 \<Rightarrow> (byte list \<Rightarrow> 'a res) \<Rightarrow> 'a \<Rightarrow> bool" where
  "delivers m r seq dec v \<longleftrightarrow>
     (\<exists>b. m = Ok b \<and> nb_wf b \<and>
        (\<forall>rest. Proto_ReadMessage (wire b @ rest) = Ok ((False, route_id r, seq, wire b), rest)) \<and>
        dec (wire b) = Ok v)"

lemma size_word_nonzero:
  assumes "0 < n" and "n < 2 ^ 32"
  shows "(word_of_int n :: uint32) \<noteq> 0"
proof -
  have "uint (word_of_int n :: uint32) = n"
    using assms by (simp add: uint_word_of_int)
  then show ?thesis
    using assms(1) by auto
qed

lemma ParseBuffer_frame:
  assumes "hdr AND 128 \<noteq> 128"
  shows "ParseBuffer (head_bytes sz hdr r @ put_uint BigEndian 8 (seq :: uint64) @ post) [] =
    Ok (False, route_id r, seq)"
  using assms by (simp add: ParseBuffer_def head_bytes_def nth_append)

lemma Proto_ReadMessage_frame:
  assumes "sz = 10 + int (length post)" and "length post + 14 < 2 ^ 32" and "hdr AND 128 \<noteq> 128"
    and "bs = head_bytes sz hdr r @ put_uint BigEndian 8 (seq :: uint64) @ post"
  shows "Proto_ReadMessage (bs @ rest) = Ok ((False, route_id r, seq, bs), rest)"
proof -
  let ?s = "put_uint BigEndian 4 (word_of_int sz :: uint32)"
  let ?t = "[hdr, route_id r] @ put_uint BigEndian 8 seq @ post"
  have bs: "bs = ?s @ ?t"
    using assms(4) by (simp add: head_bytes_def)
  have n: "unat (4 + word_of_int sz :: uint32) = nat sz + 4"
    using assms(1,2) by (intro unat_size_plus4) auto
  have nz: "(word_of_int sz :: uint32) \<noteq> 0"
    using assms(1,2) by (intro size_word_nonzero) auto
  have r1: "ReadFull (bs @ rest) 4 = Ok (?s, ?t @ rest)"
    using ReadFull_append [of ?s 4 "?t @ rest"] bs by simp
  have r2: "ReadFull (?t @ rest) (nat sz) = Ok (?t, rest)"
    using assms(1) by (intro ReadFull_append) simp
  have pb: "ParseBuffer (?s @ ?t) [] = Ok (False, route_id r, seq)"
    using ParseBuffer_frame [OF assms(3), of sz r seq post] unfolding head_bytes_def by simp
  show ?thesis
    using r2 pb nz n by (simp only: Proto_ReadMessage_def r1) (simp add: Let_def bs)
qed

lemma deliversI:
  assumes "encodes m (head_bytes sz hdr r @ put_uint BigEndian 8 seq @ post)"
    and "sz = 10 + int (length post)" and "length post + 14 < 2 ^ 32" and "hdr AND 128 \<noteq> 128"
    and "dec (head_bytes sz hdr r @ put_uint BigEndian 8 seq @ post) = Ok v"
  shows "delivers m r seq dec v"
proof -
  obtain b where b: "m = Ok b" "nb_wf b" "wire b = head_bytes sz hdr r @ put_uint BigEndian 8 seq @ post"
    using assms(1) unfolding encodes_def by blast
  have "Proto_ReadMessage (wire b @ rest) = Ok ((False, route_id r, seq, wire b), rest)" for rest
    by (rule Proto_ReadMessage_frame [OF assms(2,3,4) b(3)])
  moreover have "dec (wire b) = Ok v"
    using assms(5) b(3) by simp
  ultimately show ?thesis
    using b(1,2) unfolding delivers_def by blast
qed

lemma code_res_delivers:
  assumes "wpools_ok ps"
  shows "delivers (encode_code_res ps 16 r seq code) r seq (decode_code_res 16) code"
  by (rule deliversI [OF encode_code_res_bytes [OF assms]]) (simp_all add: decode_code_res_bytes)

text \<open>A response with a total arrives when the announced size is the one that is written.\<close>

definition total_sent :: "uint16 \<Rightarrow> uint64 list \<Rightarrow> uint64" where
  "total_sent code tot = (if code = codes_OK \<and> 0 < length tot then hd tot else 0)"

lemma total_res_delivers:
  assumes "wpools_ok ps"
    and "sz = (if code \<noteq> codes_OK \<or> length tot = 0 \<or> hd tot = 0 then 12 else 20)"
  shows "delivers (encode_total_res ps sz 24 r seq code tot) r seq (decode_total_res 24)
    (code, total_sent code tot)"
proof (rule deliversI [OF encode_total_res_bytes [OF assms(1)]])
  let ?c = "code = codes_OK \<and> 0 < length tot \<and> hd tot \<noteq> 0"
  show "decode_total_res 24 (head_bytes sz 0 r @ put_uint BigEndian 8 seq @ put_uint BigEndian 2 code @
      (if ?c then put_uint BigEndian 8 (hd tot) else [])) = Ok (code, total_sent code tot)"
    using decode_total_res_bytes [of sz 0 r seq code ?c "hd tot"] by (auto simp: total_sent_def)
qed (use assms(2) in auto)

text \<open>
  The header byte of the messages with a disconnect flag: it never looks like a heartbeat, and the
  decoder finds the flag again.
\<close>

definition flag_byte :: "bool \<Rightarrow> uint8" where
  "flag_byte disconnect = (if disconnect then 64 else 0)"

lemma flag_byte_facts:
  "flag_byte d AND 128 \<noteq> 128" "(flag_byte d AND 64 = 64) = d"
  by (simp_all add: flag_byte_def)

section \<open>Properties\<close>

text \<open>The writer pool of a fresh process: \<open>NewWriterPool(32)\<close>.\<close>

definition fresh_pools :: "Writer pools" where
  "fresh_pools = replicate 33 []"

lemma fresh_pools_ok: "wpools_ok fresh_pools"
  by (simp add: fresh_pools_def wpools_ok_eq wpool.pools_ok_empty)

text \<open>The read loop of a connection: frames are cut off the stream one after the other.\<close>

primrec proto_frames ::
    "nat \<Rightarrow> byte list \<Rightarrow> ((bool \<times> uint8 \<times> uint64 \<times> byte list) list \<times> byte list) res" where
  "proto_frames 0 s = Ok ([], s)"
| "proto_frames (Suc k) s =
     and_then (Proto_ReadMessage s) (\<lambda>(f, s). and_then (proto_frames k s) (\<lambda>(fs, s). Ok (f # fs, s)))"

type_synonym 'v sent = "nbuf res \<times> route \<times> uint64 \<times> (byte list \<Rightarrow> 'v res) \<times> 'v"

definition sent_ok :: "'v sent \<Rightarrow> bool" where
  "sent_ok x = (case x of (m, r, seq, dec, v) \<Rightarrow> delivers m r seq dec v)"

definition received :: "'v sent \<Rightarrow> bool \<times> uint8 \<times> uint64 \<times> byte list \<Rightarrow> bool" where
  "received x f = (case x of (m, r, seq, dec, v) \<Rightarrow>
     case f of (hb, rt, sq, data) \<Rightarrow> \<not> hb \<and> rt = route_id r \<and> sq = seq \<and> dec data = Ok v)"

definition sent_wire :: "'v sent \<Rightarrow> byte list" where
  "sent_wire x = (case fst x of Ok b \<Rightarrow> wire b | _ \<Rightarrow> [])"

lemma sent_ok_read:
  assumes "sent_ok x"
  shows "\<exists>f. Proto_ReadMessage (sent_wire x @ rest) = Ok (f, rest) \<and> received x f"
  using assms by (auto simp: sent_ok_def delivers_def sent_wire_def received_def split: prod.splits)

lemma sent_list_read:
  "list_all sent_ok xs \<Longrightarrow>
     \<exists>fs. proto_frames (length xs) (concat (map sent_wire xs) @ rest) = Ok (fs, rest) \<and> list_all2 received xs fs"
proof (induction xs)
  case Nil
  then show ?case by simp
next
  case (Cons x xs)
  obtain fs where fs: "proto_frames (length xs) (concat (map sent_wire xs) @ rest) = Ok (fs, rest)"
      "list_all2 received xs fs"
    using Cons by auto
  obtain f where "Proto_ReadMessage (sent_wire x @ concat (map sent_wire xs) @ rest) =
      Ok (f, concat (map sent_wire xs) @ rest)" "received x f"
    using sent_ok_read [of x] Cons.prems by fastforce
  then show ?case
    using fs by (intro exI [of _ "f # fs"]) simp
qed

text \<open>
  requests and responses can be pipelined on one connection: when each of a list of messages
  is encoded by a codec that delivers it, the receiver cuts the concatenated bytes into exactly
  these frames, in order and with nothing consumed of what follows, finds route and sequence number
  of each, and its decoder returns the values that were sent.
\<close>

lemma messages_pipeline:
  assumes "list_all sent_ok xs"
  shows "\<exists>fs. proto_frames (length xs) (concat (map sent_wire xs) @ rest) = Ok (fs, rest) \<and>
    list_all2 received xs fs"
  by (rule sent_list_read [OF assms])

lemma messages_pipeline_witness:
  "let xs = [(encode_code_res fresh_pools 16 Bind 7 0, Bind, 7, decode_code_res 16, 0),
             (encode_code_res fresh_pools 16 Push 8 4, Push, 8, decode_code_res 16, 4)]
   in \<exists>fs. proto_frames (length xs) (concat (map sent_wire xs) @ [1, 2]) = Ok (fs, [1, 2]) \<and>
        list_all2 received xs fs"
  unfolding Let_def
  by (rule messages_pipeline) (simp add: sent_ok_def code_res_delivers [OF fresh_pools_ok])

text \<open>
  A heartbeat of the transport is recognised as one, whatever follows it on the stream.
\<close>

lemma heartbeat_recognised:
  "\<exists>hb. Heartbeat = Ok hb \<and> Proto_ReadMessage (hb @ rest) = Ok ((True, 0, 0, hb), rest)"
proof -
  have "Heartbeat = Ok [0, 0, 0, 1, 128]"
    by code_simp
  moreover have "Proto_ReadMessage ([0, 0, 0, 1, 128] @ rest) = Ok ((True, 0, 0, [0, 0, 0, 1, 128]), rest)"
    by (simp add: Proto_ReadMessage_def ReadFull_def ParseBuffer_def get_uint_def get_be_def)
  ultimately show ?thesis by blast
qed

end
