(* ===== verification/Protocol_Gate.thy ===== *)
theory Protocol_Gate
  imports Protocol_Base Session_Types
begin

text \<open>
  The messages a node sends to a gate (\<open>internal/transporter/internal/protocol\<close>: \<open>bind.go\<close>,
  \<open>unbind.go\<close>, \<open>getip.go\<close>, \<open>stat.go\<close>, \<open>isonline.go\<close>, \<open>disconnect.go\<close>, \<open>push.go\<close>, \<open>multicast.go\<close>,
  \<open>broadcast.go\<close>, \<open>publish.go\<close>, \<open>subscribe.go\<close>, \<open>unsubscribe.go\<close>): encoders, decoders, the exact
  bytes every encoder writes, and what decoding them returns.
\<close>

section \<open>Bind\<close>

definition bindReqBytes :: int where
  "bindReqBytes = protoSizeBytes + protoHeaderBytes + protoRouteBytes + protoSeqBytes + b64 + b64"
definition bindResBytes :: int where
  "bindResBytes = protoSizeBytes + protoHeaderBytes + protoRouteBytes + protoSeqBytes + protoCodeBytes"

definition EncodeBindReq :: "Writer pools \<Rightarrow> uint64 \<Rightarrow> int64 \<Rightarrow> int64 \<Rightarrow> nbuf res" where
  "EncodeBindReq ps seq cid uid =
     and_then (run_writes (MallocWriter ps bindReqBytes)
       [\<lambda>w. WriteUint32s w BigEndian [word_of_int (bindReqBytes - protoSizeBytes)],
        \<lambda>w. WriteUint8s w [protoDataBit],
        \<lambda>w. WriteUint8s w [route_id Bind],
        \<lambda>w. WriteUint64s w BigEndian [seq],
        \<lambda>w. WriteInt64s w BigEndian [cid, uid]])
       (\<lambda>writer. Ok (NewNocopyBuffer [MWriter writer]))"

definition DecodeBindReq :: "byte list \<Rightarrow> (uint64 \<times> int64 \<times> int64) res" where
  "DecodeBindReq data =
     (if int (length data) \<noteq> bindReqBytes then Err ErrInvalidMessage
      else and_then (Seek (NewReader data) (protoSizeBytes + protoHeaderBytes + protoRouteBytes) SeekStart)
             (\<lambda>(_, reader).
           and_then (ReadUint64 reader BigEndian) (\<lambda>(seq, reader).
           and_then (ReadInt64 reader BigEndian) (\<lambda>(cid, reader).
           and_then (ReadInt64 reader BigEndian) (\<lambda>(uid, reader).
           Ok (seq, cid, uid))))))"

definition EncodeBindRes :: "Writer pools \<Rightarrow> uint64 \<Rightarrow> uint16 \<Rightarrow> nbuf res" where
  "EncodeBindRes ps seq code = encode_code_res ps bindResBytes Bind seq code"

definition DecodeBindRes :: "byte list \<Rightarrow> uint16 res" where
  "DecodeBindRes data = decode_code_res bindResBytes data"

section \<open>Unbind\<close>

definition unbindReqBytes :: int where
  "unbindReqBytes = protoSizeBytes + protoHeaderBytes + protoRouteBytes + protoSeqBytes + b64"
definition unbindResBytes :: int where
  "unbindResBytes = protoSizeBytes + protoHeaderBytes + protoRouteBytes + protoSeqBytes + protoCodeBytes"

definition EncodeUnbindReq :: "Writer pools \<Rightarrow> uint64 \<Rightarrow> int64 \<Rightarrow> nbuf res" where
  "EncodeUnbindReq ps seq uid =
     and_then (run_writes (MallocWriter ps unbindReqBytes)
       [\<lambda>w. WriteUint32s w BigEndian [word_of_int (unbindReqBytes - protoSizeBytes)],
        \<lambda>w. WriteUint8s w [protoDataBit],
        \<lambda>w. WriteUint8s w [route_id Unbind],
        \<lambda>w. WriteUint64s w BigEndian [seq],
        \<lambda>w. WriteInt64s w BigEndian [uid]])
       (\<lambda>writer. Ok (NewNocopyBuffer [MWriter writer]))"

definition DecodeUnbindReq :: "byte list \<Rightarrow> (uint64 \<times> int64) res" where
  "DecodeUnbindReq data =
     (if int (length data) \<noteq> unbindReqBytes then Err ErrInvalidMessage
      else and_then (Seek (NewReader data) (protoSizeBytes + protoHeaderBytes + protoRouteBytes) SeekStart)
             (\<lambda>(_, reader).
           and_then (ReadUint64 reader BigEndian) (\<lambda>(seq, reader).
           and_then (ReadInt64 reader BigEndian) (\<lambda>(uid, reader).
           Ok (seq, uid)))))"

definition EncodeUnbindRes :: "Writer pools \<Rightarrow> uint64 \<Rightarrow> uint16 \<Rightarrow> nbuf res" where
  "EncodeUnbindRes ps seq code = encode_code_res ps unbindResBytes Unbind seq code"

definition DecodeUnbindRes :: "byte list \<Rightarrow> uint16 res" where
  "DecodeUnbindRes data = decode_code_res unbindResBytes data"

section \<open>GetIP\<close>

text \<open>
  \<open>IP2Long\<close> and \<open>Long2IP\<close> of \<open>utils/xnet/net.go\<close>.  The textual form of an address is the business
  of package \<open>net\<close>: \<open>to4\<close> is \<open>net.ParseIP(ip).To4()\<close> (four bytes, or none), \<open>show4\<close> is
  \<open>net.IP.String\<close>.
\<close>

definition IP2Long :: "(gostring \<Rightarrow> byte list) \<Rightarrow> gostring \<Rightarrow> uint32" where
  "IP2Long to4 ip = (let v = to4 ip in if length v = 0 then 0 else get_uint BigEndian v)"

definition Long2IP :: "(byte list \<Rightarrow> gostring) \<Rightarrow> uint32 \<Rightarrow> gostring" where
  "Long2IP show4 v = show4 (put_uint BigEndian 4 v)"

definition getIPReqBytes :: int where
  "getIPReqBytes = protoSizeBytes + protoHeaderBytes + protoRouteBytes + protoSeqBytes + b8 + b64"
definition getIPResBytes :: int where
  "getIPResBytes = protoSizeBytes + protoHeaderBytes + protoRouteBytes + protoSeqBytes + protoCodeBytes + b32"

definition EncodeGetIPReq :: "Writer pools \<Rightarrow> uint64 \<Rightarrow> Kind \<Rightarrow> int64 \<Rightarrow> nbuf res" where
  "EncodeGetIPReq ps seq kind target =
     and_then (run_writes (MallocWriter ps getIPReqBytes)
       [\<lambda>w. WriteUint32s w BigEndian [word_of_int (getIPReqBytes - protoSizeBytes)],
        \<lambda>w. WriteUint8s w [protoDataBit],
        \<lambda>w. WriteUint8s w [route_id GetIP],
        \<lambda>w. WriteUint64s w BigEndian [seq],
        \<lambda>w. WriteUint8s w [word_of_int kind],
        \<lambda>w. WriteInt64s w BigEndian [target]])
       (\<lambda>writer. Ok (NewNocopyBuffer [MWriter writer]))"

definition DecodeGetIPReq :: "byte list \<Rightarrow> (uint64 \<times> Kind \<times> int64) res" where
  "DecodeGetIPReq data =
     (if int (length data) \<noteq> getIPReqBytes then Err ErrInvalidMessage
      else and_then (Seek (NewReader data) (protoSizeBytes + protoHeaderBytes + protoRouteBytes) SeekStart)
             (\<lambda>(_, reader).
           and_then (ReadUint64 reader BigEndian) (\<lambda>(seq, reader).
           and_then (ReadUint8 reader) (\<lambda>(k, reader).
           and_then (ReadInt64 reader BigEndian) (\<lambda>(target, reader).
           Ok (seq, uint k, target))))))"

definition EncodeGetIPRes ::
    "Writer pools \<Rightarrow> (gostring \<Rightarrow> byte list) \<Rightarrow> uint64 \<Rightarrow> uint16 \<Rightarrow> gostring list \<Rightarrow> nbuf res" where
  "EncodeGetIPRes ps to4 seq code ip =
     (let size = getIPResBytes - protoSizeBytes;
          size = (if code \<noteq> codes_OK \<or> length ip = 0 \<or> hd ip = [] then size - 4 else size)
      in and_then (run_writes (MallocWriter ps getIPResBytes)
       ([\<lambda>w. WriteUint32s w BigEndian [word_of_int size],
         \<lambda>w. WriteUint8s w [protoDataBit],
         \<lambda>w. WriteUint8s w [route_id GetIP],
         \<lambda>w. WriteUint64s w BigEndian [seq],
         \<lambda>w. WriteUint16s w BigEndian [code]] @
        (if code = codes_OK \<and> 0 < length ip \<and> hd ip \<noteq> []
         then [\<lambda>w. WriteUint32s w BigEndian [IP2Long to4 (hd ip)]] else [])))
       (\<lambda>writer. Ok (NewNocopyBuffer [MWriter writer])))"

definition DecodeGetIPRes ::
    "(byte list \<Rightarrow> gostring) \<Rightarrow> byte list \<Rightarrow> (uint16 \<times> gostring) res" where
  "DecodeGetIPRes show4 data =
     (if int (length data) \<noteq> getIPResBytes \<and> int (length data) \<noteq> getIPResBytes - 4 then Err ErrInvalidMessage
      else and_then (Seek (NewReader data)
             (protoSizeBytes + protoHeaderBytes + protoRouteBytes + protoSeqBytes) SeekStart)
             (\<lambda>(_, reader).
           and_then (ReadUint16 reader BigEndian) (\<lambda>(code, reader).
           if code = codes_OK \<and> int (length data) = getIPResBytes
           then and_then (ReadUint32 reader BigEndian) (\<lambda>(v, reader). Ok (code, Long2IP show4 v))
           else Ok (code, []))))"

section \<open>Stat\<close>

definition statReqBytes :: int where
  "statReqBytes = protoSizeBytes + protoHeaderBytes + protoRouteBytes + protoSeqBytes + b8"
definition statResBytes :: int where
  "statResBytes = protoSizeBytes + protoHeaderBytes + protoRouteBytes + protoSeqBytes + protoCodeBytes + b64"

definition EncodeStatReq :: "Writer pools \<Rightarrow> uint64 \<Rightarrow> Kind \<Rightarrow> nbuf res" where
  "EncodeStatReq ps seq kind =
     and_then (run_writes (MallocWriter ps statReqBytes)
       [\<lambda>w. WriteUint32s w BigEndian [word_of_int (statReqBytes - protoSizeBytes)],
        \<lambda>w. WriteUint8s w [protoDataBit],
        \<lambda>w. WriteUint8s w [route_id Stat],
        \<lambda>w. WriteUint64s w BigEndian [seq],
        \<lambda>w. WriteUint8s w [word_of_int kind]])
       (\<lambda>writer. Ok (NewNocopyBuffer [MWriter writer]))"

definition DecodeStatReq :: "byte list \<Rightarrow> (uint64 \<times> Kind) res" where
  "DecodeStatReq data =
     (if int (length data) \<noteq> statReqBytes then Err ErrInvalidMessage
      else and_then (Seek (NewReader data) (protoSizeBytes + protoHeaderBytes + protoRouteBytes) SeekStart)
             (\<lambda>(_, reader).
           and_then (ReadUint64 reader BigEndian) (\<lambda>(seq, reader).
           and_then (ReadUint8 reader) (\<lambda>(k, reader). Ok (seq, uint k)))))"

definition EncodeStatRes :: "Writer pools \<Rightarrow> uint64 \<Rightarrow> uint16 \<Rightarrow> uint64 list \<Rightarrow> nbuf res" where
  "EncodeStatRes ps seq code tot =
     encode_total_res ps
       (if code \<noteq> codes_OK \<or> length tot = 0 \<or> hd tot = 0
        then statResBytes - protoSizeBytes - b64 else statResBytes - protoSizeBytes)
       statResBytes Stat seq code tot"

text \<open>
  \<open>DecodeStatRes\<close> seeks behind the sequence number and reads the total at once: the code is not
  read.
\<close>

definition DecodeStatRes :: "byte list \<Rightarrow> (uint16 \<times> uint64) res" where
  "DecodeStatRes data =
     (if int (length data) \<noteq> statResBytes \<and> int (length data) \<noteq> statResBytes - 8 then Err ErrInvalidMessage
      else and_then (Seek (NewReader data)
             (protoSizeBytes + protoHeaderBytes + protoRouteBytes + protoSeqBytes) SeekStart)
             (\<lambda>(_, reader).
           if int (length data) = statResBytes
           then and_then (ReadUint64 reader BigEndian) (\<lambda>(tot, reader). Ok (0, tot))
           else Ok (0, 0)))"

section \<open>IsOnline\<close>

definition isOnlineReqBytes :: int where
  "isOnlineReqBytes = protoSizeBytes + protoHeaderBytes + protoRouteBytes + protoSeqBytes + b8 + b64"
definition isOnlineResBytes :: int where
  "isOnlineResBytes = protoSizeBytes + protoHeaderBytes + protoRouteBytes + protoSeqBytes + protoCodeBytes + b8"

definition EncodeIsOnlineReq :: "Writer pools \<Rightarrow> uint64 \<Rightarrow> Kind \<Rightarrow> int64 \<Rightarrow> nbuf res" where
  "EncodeIsOnlineReq ps seq kind target =
     and_then (run_writes (MallocWriter ps isOnlineReqBytes)
       [\<lambda>w. WriteUint32s w BigEndian [word_of_int (isOnlineReqBytes - protoSizeBytes)],
        \<lambda>w. WriteUint8s w [protoDataBit],
        \<lambda>w. WriteUint8s w [route_id IsOnline],
        \<lambda>w. WriteUint64s w BigEndian [seq],
        \<lambda>w. WriteUint8s w [word_of_int kind],
        \<lambda>w. WriteInt64s w BigEndian [target]])
       (\<lambda>writer. Ok (NewNocopyBuffer [MWriter writer]))"

definition DecodeIsOnlineReq :: "byte list \<Rightarrow> (uint64 \<times> Kind \<times> int64) res" where
  "DecodeIsOnlineReq data =
     (if int (length data) \<noteq> isOnlineReqBytes then Err ErrInvalidMessage
      else and_then (Seek (NewReader data) (protoSizeBytes + protoHeaderBytes + protoRouteBytes) SeekStart)
             (\<lambda>(_, reader).
           and_then (ReadUint64 reader BigEndian) (\<lambda>(seq, reader).
           and_then (ReadUint8 reader) (\<lambda>(k, reader).
           and_then (ReadInt64 reader BigEndian) (\<lambda>(target, reader).
           Ok (seq, uint k, target))))))"

definition EncodeIsOnlineRes :: "Writer pools \<Rightarrow> uint64 \<Rightarrow> uint16 \<Rightarrow> bool \<Rightarrow> nbuf res" where
  "EncodeIsOnlineRes ps seq code isOnline =
     and_then (run_writes (MallocWriter ps isOnlineResBytes)
       [\<lambda>w. WriteUint32s w BigEndian [word_of_int (isOnlineResBytes - protoSizeBytes)],
        \<lambda>w. WriteUint8s w [protoDataBit],
        \<lambda>w. WriteUint8s w [route_id IsOnline],
        \<lambda>w. WriteUint64s w BigEndian [seq],
        \<lambda>w. WriteUint16s w BigEndian [code],
        \<lambda>w. WriteBools w [isOnline]])
       (\<lambda>writer. Ok (NewNocopyBuffer [MWriter writer]))"

definition DecodeIsOnlineRes :: "byte list \<Rightarrow> (uint16 \<times> bool) res" where
  "DecodeIsOnlineRes data =
     (if int (length data) \<noteq> isOnlineResBytes then Err ErrInvalidMessage
      else and_then (Seek (NewReader data)
             (protoSizeBytes + protoHeaderBytes + protoRouteBytes + protoSeqBytes) SeekStart)
             (\<lambda>(_, reader).
           and_then (ReadUint16 reader BigEndian) (\<lambda>(code, reader).
           and_then (ReadBool reader) (\<lambda>(isOnline, reader). Ok (code, isOnline)))))"

section \<open>Disconnect\<close>

definition disconnectReqBytes :: int where
  "disconnectReqBytes =
     protoSizeBytes + protoHeaderBytes + protoRouteBytes + protoSeqBytes + b8 + b64 + b8"
definition disconnectCurrentReqBytes :: int where
  "disconnectCurrentReqBytes = disconnectReqBytes + b64 + b64"
definition disconnectResBytes :: int where
  "disconnectResBytes = protoSizeBytes + protoHeaderBytes + protoRouteBytes + protoSeqBytes + protoCodeBytes"

definition EncodeDisconnectReq :: "Writer pools \<Rightarrow> uint64 \<Rightarrow> Kind \<Rightarrow> int64 \<Rightarrow> bool \<Rightarrow> nbuf res" where
  "EncodeDisconnectReq ps seq kind target force =
     and_then (run_writes (MallocWriter ps disconnectReqBytes)
       [\<lambda>w. WriteUint32s w BigEndian [word_of_int (disconnectReqBytes - protoSizeBytes)],
        \<lambda>w. WriteUint8s w [protoDataBit],
        \<lambda>w. WriteUint8s w [route_id Disconnect],
        \<lambda>w. WriteUint64s w BigEndian [seq],
        \<lambda>w. WriteUint8s w [word_of_int kind],
        \<lambda>w. WriteInt64s w BigEndian [target],
        \<lambda>w. WriteBools w [force]])
       (\<lambda>writer. Ok (NewNocopyBuffer [MWriter writer]))"

definition EncodeDisconnectCurrentReq ::
    "Writer pools \<Rightarrow> uint64 \<Rightarrow> Kind \<Rightarrow> int64 \<Rightarrow> bool \<Rightarrow> Token \<Rightarrow> nbuf res" where
  "EncodeDisconnectCurrentReq ps seq kind target force token =
     and_then (run_writes (MallocWriter ps disconnectCurrentReqBytes)
       [\<lambda>w. WriteUint32s w BigEndian [word_of_int (disconnectCurrentReqBytes - protoSizeBytes)],
        \<lambda>w. WriteUint8s w [protoDataBit],
        \<lambda>w. WriteUint8s w [route_id Disconnect],
        \<lambda>w. WriteUint64s w BigEndian [seq],
        \<lambda>w. WriteUint8s w [word_of_int kind],
        \<lambda>w. WriteInt64s w BigEndian [target],
        \<lambda>w. WriteBools w [force],
        \<lambda>w. WriteInt64s w BigEndian [UID token],
        \<lambda>w. WriteUint64s w BigEndian [Generation token]])
       (\<lambda>writer. Ok (NewNocopyBuffer [MWriter writer]))"

definition DecodeDisconnectReq :: "byte list \<Rightarrow> (uint64 \<times> Kind \<times> int64 \<times> bool) res" where
  "DecodeDisconnectReq data =
     (if int (length data) \<noteq> disconnectReqBytes then Err ErrInvalidMessage
      else and_then (Seek (NewReader data) (protoSizeBytes + protoHeaderBytes + protoRouteBytes) SeekStart)
             (\<lambda>(_, reader).
           and_then (ReadUint64 reader BigEndian) (\<lambda>(seq, reader).
           and_then (ReadUint8 reader) (\<lambda>(k, reader).
           and_then (ReadInt64 reader BigEndian) (\<lambda>(target, reader).
           and_then (ReadBool reader) (\<lambda>(force, reader).
           Ok (seq, uint k, target, force)))))))"

definition DecodeDisconnectReqWithToken ::
    "byte list \<Rightarrow> (uint64 \<times> Kind \<times> int64 \<times> bool \<times> Token) res" where
  "DecodeDisconnectReqWithToken data =
     (if int (length data) = disconnectReqBytes
      then and_then (DecodeDisconnectReq data) (\<lambda>(seq, kind, target, force).
             Ok (seq, kind, target, force, zero_token))
      else if int (length data) \<noteq> disconnectCurrentReqBytes then Err ErrInvalidMessage
      else and_then (Seek (NewReader data) (protoSizeBytes + protoHeaderBytes + protoRouteBytes) SeekStart)
             (\<lambda>(_, reader).
           and_then (ReadUint64 reader BigEndian) (\<lambda>(seq, reader).
           and_then (ReadUint8 reader) (\<lambda>(k, reader).
           and_then (ReadInt64 reader BigEndian) (\<lambda>(target, reader).
           and_then (ReadBool reader) (\<lambda>(force, reader).
           and_then (ReadInt64 reader BigEndian) (\<lambda>(uid, reader).
           and_then (ReadUint64 reader BigEndian) (\<lambda>(generation, reader).
           Ok (seq, uint k, target, force, \<lparr>UID = uid, Generation = generation\<rparr>)))))))))"

definition EncodeDisconnectRes :: "Writer pools \<Rightarrow> uint64 \<Rightarrow> uint16 \<Rightarrow> nbuf res" where
  "EncodeDisconnectRes ps seq code = encode_code_res ps disconnectResBytes Disconnect seq code"

definition DecodeDisconnectRes :: "byte list \<Rightarrow> uint16 res" where
  "DecodeDisconnectRes data = decode_code_res bindResBytes data"

section \<open>The messages arrive\<close>

text \<open>
  One lemma per message type: what the encoder writes is cut off by the frame reader and decoded
  to the fields that were encoded.  Every proof computes the bytes of the encoder with
  \<open>encodes_writer\<close> and lets the reads of the decoder run over them.
\<close>

lemmas decode_steps = Seek_head Seek_head_seq reads_at fits_def

lemma bind_bytes:
  assumes "wpools_ok ps"
  shows "encodes (EncodeBindReq ps seq cid uid) (head_bytes 26 0 Bind @ put_uint BigEndian 8 seq @
    put_uint BigEndian 8 cid @ put_uint BigEndian 8 uid)"
  unfolding EncodeBindReq_def
  by (rule encodes_writer [OF assms], simp add: bindReqBytes_def, (rule emits_intros)+)
    (simp add: head_bytes_def bindReqBytes_def)

lemma bind_req_delivers:
  assumes "wpools_ok ps"
  shows "delivers (EncodeBindReq ps seq cid uid) Bind seq DecodeBindReq (seq, cid, uid)"
  by (rule deliversI [OF bind_bytes [OF assms]])
    (simp_all add: DecodeBindReq_def bindReqBytes_def decode_steps)

lemma unbind_bytes:
  assumes "wpools_ok ps"
  shows "encodes (EncodeUnbindReq ps seq uid) (head_bytes 18 0 Unbind @ put_uint BigEndian 8 seq @
    put_uint BigEndian 8 uid)"
  unfolding EncodeUnbindReq_def
  by (rule encodes_writer [OF assms], simp add: unbindReqBytes_def, (rule emits_intros)+)
    (simp add: head_bytes_def unbindReqBytes_def)

lemma unbind_req_delivers:
  assumes "wpools_ok ps"
  shows "delivers (EncodeUnbindReq ps seq uid) Unbind seq DecodeUnbindReq (seq, uid)"
  by (rule deliversI [OF unbind_bytes [OF assms]])
    (simp_all add: DecodeUnbindReq_def unbindReqBytes_def decode_steps)

lemma getip_bytes:
  assumes "wpools_ok ps"
  shows "encodes (EncodeGetIPReq ps seq kind target) (head_bytes 19 0 GetIP @ put_uint BigEndian 8 seq @
    word_of_int kind # put_uint BigEndian 8 target)"
  unfolding EncodeGetIPReq_def
  by (rule encodes_writer [OF assms], simp add: getIPReqBytes_def, (rule emits_intros)+)
    (simp add: head_bytes_def getIPReqBytes_def)

lemma getip_req_delivers:
  assumes "wpools_ok ps" and "byte_range kind"
  shows "delivers (EncodeGetIPReq ps seq kind target) GetIP seq DecodeGetIPReq (seq, kind, target)"
  by (rule deliversI [OF getip_bytes [OF assms(1)]])
    (simp_all add: DecodeGetIPReq_def getIPReqBytes_def decode_steps uint_byte_of_int [OF assms(2)])

lemma stat_bytes:
  assumes "wpools_ok ps"
  shows "encodes (EncodeStatReq ps seq kind) (head_bytes 11 0 Stat @ put_uint BigEndian 8 seq @
    [word_of_int kind])"
  unfolding EncodeStatReq_def
  by (rule encodes_writer [OF assms], simp add: statReqBytes_def, (rule emits_intros)+)
    (simp add: head_bytes_def statReqBytes_def)

lemma stat_req_delivers:
  assumes "wpools_ok ps" and "byte_range kind"
  shows "delivers (EncodeStatReq ps seq kind) Stat seq DecodeStatReq (seq, kind)"
  by (rule deliversI [OF stat_bytes [OF assms(1)]])
    (simp_all add: DecodeStatReq_def statReqBytes_def decode_steps uint_byte_of_int [OF assms(2)])

lemma isonline_bytes:
  assumes "wpools_ok ps"
  shows "encodes (EncodeIsOnlineReq ps seq kind target) (head_bytes 19 0 IsOnline @
    put_uint BigEndian 8 seq @ word_of_int kind # put_uint BigEndian 8 target)"
  unfolding EncodeIsOnlineReq_def
  by (rule encodes_writer [OF assms], simp add: isOnlineReqBytes_def, (rule emits_intros)+)
    (simp add: head_bytes_def isOnlineReqBytes_def)

lemma isonline_req_delivers:
  assumes "wpools_ok ps" and "byte_range kind"
  shows "delivers (EncodeIsOnlineReq ps seq kind target) IsOnline seq DecodeIsOnlineReq (seq, kind, target)"
  by (rule deliversI [OF isonline_bytes [OF assms(1)]])
    (simp_all add: DecodeIsOnlineReq_def isOnlineReqBytes_def decode_steps uint_byte_of_int [OF assms(2)])

lemma isonline_res_bytes:
  assumes "wpools_ok ps"
  shows "encodes (EncodeIsOnlineRes ps seq code b) (head_bytes 13 0 IsOnline @
    put_uint BigEndian 8 seq @ put_uint BigEndian 2 code @ [if b then 1 else 0])"
  unfolding EncodeIsOnlineRes_def
  by (rule encodes_writer [OF assms], simp add: isOnlineResBytes_def, (rule emits_intros)+)
    (simp add: head_bytes_def isOnlineResBytes_def)

lemma isonline_res_delivers:
  assumes "wpools_ok ps"
  shows "delivers (EncodeIsOnlineRes ps seq code b) IsOnline seq DecodeIsOnlineRes (code, b)"
  by (rule deliversI [OF isonline_res_bytes [OF assms]])
    (simp_all add: DecodeIsOnlineRes_def isOnlineResBytes_def decode_steps)

lemma disconnect_bytes:
  assumes "wpools_ok ps"
  shows "encodes (EncodeDisconnectReq ps seq kind target force) (head_bytes 20 0 Disconnect @
    put_uint BigEndian 8 seq @ word_of_int kind # put_uint BigEndian 8 target @ [if force then 1 else 0])"
  unfolding EncodeDisconnectReq_def
  by (rule encodes_writer [OF assms], simp add: disconnectReqBytes_def, (rule emits_intros)+)
    (simp add: head_bytes_def disconnectReqBytes_def)

lemma disconnect_current_bytes:
  assumes "wpools_ok ps"
  shows "encodes (EncodeDisconnectCurrentReq ps seq kind target force token) (head_bytes 36 0 Disconnect @
    put_uint BigEndian 8 seq @ word_of_int kind # put_uint BigEndian 8 target @
    (if force then 1 else 0) # put_uint BigEndian 8 (UID token) @ put_uint BigEndian 8 (Generation token))"
  unfolding EncodeDisconnectCurrentReq_def
  by (rule encodes_writer [OF assms], simp add: disconnectReqBytes_def disconnectCurrentReqBytes_def,
      (rule emits_intros)+)
    (simp add: head_bytes_def disconnectReqBytes_def disconnectCurrentReqBytes_def)

lemmas disconnect_defs =
  DecodeDisconnectReqWithToken_def DecodeDisconnectReq_def disconnectReqBytes_def
  disconnectCurrentReqBytes_def

lemma disconnect_req_delivers:
  assumes "wpools_ok ps" and "byte_range kind"
  shows "delivers (EncodeDisconnectReq ps seq kind target force) Disconnect seq
    DecodeDisconnectReqWithToken (seq, kind, target, force, zero_token)"
  by (rule deliversI [OF disconnect_bytes [OF assms(1)]])
    (simp_all add: disconnect_defs decode_steps uint_byte_of_int [OF assms(2)])

lemma disconnect_current_req_delivers:
  assumes "wpools_ok ps" and "byte_range kind"
  shows "delivers (EncodeDisconnectCurrentReq ps seq kind target force token) Disconnect seq
    DecodeDisconnectReqWithToken (seq, kind, target, force, token)"
  by (rule deliversI [OF disconnect_current_bytes [OF assms(1)]])
    (simp_all add: disconnect_defs decode_steps uint_byte_of_int [OF assms(2)])

text \<open>
  The address in a response.  The two directions of package \<open>net\<close> are assumed to agree on the
  address that is sent (dotted-quad text); an address without an IPv4 form travels as zero.
\<close>

lemma IP_long_roundtrip:
  assumes "length (to4 ip) = 4" and "show4 (to4 ip) = ip"
  shows "Long2IP show4 (IP2Long to4 ip) = ip"
  using assms put_get_uint [of 4 "to4 ip" BigEndian, where 'a = 32]
  by (auto simp: Long2IP_def IP2Long_def Let_def)

definition ip_sent :: "uint16 \<Rightarrow> gostring list \<Rightarrow> gostring" where
  "ip_sent code ip = (if code = codes_OK \<and> 0 < length ip then hd ip else [])"

definition ip_announced :: "uint16 \<Rightarrow> gostring list \<Rightarrow> int" where
  "ip_announced code ip = (if code \<noteq> codes_OK \<or> length ip = 0 \<or> hd ip = [] then 12 else 16)"

lemma getip_res_bytes:
  assumes "wpools_ok ps"
  shows "encodes (EncodeGetIPRes ps to4 seq code ip)
    (head_bytes (ip_announced code ip) 0 GetIP @ put_uint BigEndian 8 seq @ put_uint BigEndian 2 code @
      (if code = codes_OK \<and> 0 < length ip \<and> hd ip \<noteq> []
       then put_uint BigEndian 4 (IP2Long to4 (hd ip)) else []))"
  unfolding EncodeGetIPRes_def Let_def
  by (rule encodes_writer [OF assms], simp add: getIPResBytes_def, (rule emits_intros)+)
    (simp add: head_bytes_def getIPResBytes_def ip_announced_def)

lemma getip_res_delivers:
  assumes "wpools_ok ps"
    and "ip_sent code ip \<noteq> [] \<Longrightarrow> length (to4 (ip_sent code ip)) = 4"
    and "ip_sent code ip \<noteq> [] \<Longrightarrow> show4 (to4 (ip_sent code ip)) = ip_sent code ip"
  shows "delivers (EncodeGetIPRes ps to4 seq code ip) GetIP seq (DecodeGetIPRes show4)
    (code, ip_sent code ip)"
proof (rule deliversI [OF getip_res_bytes [OF assms(1)]])
  let ?v = "if code = codes_OK \<and> 0 < length ip \<and> hd ip \<noteq> []
    then put_uint BigEndian 4 (IP2Long to4 (hd ip)) else []"
  let ?h = "head_bytes (ip_announced code ip) 0 GetIP"
  have "Seek (NewReader (?h @ put_uint BigEndian 8 seq @ put_uint BigEndian 2 code @ ?v)) 14 SeekStart =
      Ok (14, reader_at (?h @ put_uint BigEndian 8 seq) (put_uint BigEndian 2 code @ ?v))"
    by (rule Seek_head_seq)
  then show "DecodeGetIPRes show4 (?h @ put_uint BigEndian 8 seq @ put_uint BigEndian 2 code @ ?v) =
      Ok (code, ip_sent code ip)"
    using IP_long_roundtrip [of to4 "ip_sent code ip" show4, OF assms(2,3)]
    by (auto simp: DecodeGetIPRes_def getIPResBytes_def read_scalar_at fits_def ip_sent_def)
qed (auto simp: ip_announced_def)

text \<open>
  \<open>DecodeStatRes\<close> reads the total two bytes early: whatever was sent, it returns code zero and the
  upper 48 bits of the total.
\<close>

lemma get_be_shifted:
  "get_be (put_be 2 c @ take 6 (put_be 8 v)) = c mod 65536 * 2 ^ 48 + v div 65536 mod 2 ^ 48"
  using put_be_split [of 6 2 v] get_put_be [of 2 c] get_put_be [of 6 "v div 65536"]
  by (simp add: get_be_append)

lemma get_uint_shifted:
  "get_uint BigEndian (put_uint BigEndian 2 (0 :: uint16) @ take 6 (put_uint BigEndian 8 t)) =
     drop_bit 16 (t :: uint64)"
proof -
  have "unat t < 2 ^ LENGTH(64)"
    by (rule unsigned_less)
  then have "unat t div 65536 < 2 ^ 48"
    by simp
  then have "get_uint BigEndian (put_uint BigEndian 2 (0 :: uint16) @ take 6 (put_uint BigEndian 8 t)) =
      (word_of_nat (unat t div 65536) :: uint64)"
    using get_be_shifted [of 0 "unat t"] by (simp add: get_uint_def put_uint_def)
  also have "unat t div 65536 = unat (drop_bit 16 t)"
    by (simp add: unat_drop_bit_eq drop_bit_eq_div unat_div)
  finally show ?thesis by simp
qed

lemma put_uint_shifted:
  "put_uint BigEndian 8 (drop_bit 16 (t :: uint64)) =
     put_uint BigEndian 2 (0 :: uint16) @ take 6 (put_uint BigEndian 8 t)"
  using put_get_uint [of 8 "put_uint BigEndian 2 (0 :: uint16) @ take 6 (put_uint BigEndian 8 t)"
      BigEndian, where 'a = 64]
  by (simp add: get_uint_shifted)

lemma stat_decodes_shifted:
  assumes "wpools_ok ps"
  shows "\<exists>b. EncodeStatRes ps seq code tot = Ok b \<and>
    DecodeStatRes (wire b) = Ok (0, drop_bit 16 (total_sent code tot))"
proof -
  let ?c = "code = codes_OK \<and> 0 < length tot \<and> hd tot \<noteq> 0"
  let ?sz = "if code \<noteq> codes_OK \<or> length tot = 0 \<or> hd tot = 0 then 12 else 20"
  let ?h = "head_bytes ?sz 0 Stat @ put_uint BigEndian 8 seq"
  let ?b = "?h @ put_uint BigEndian 2 code @ (if ?c then put_uint BigEndian 8 (hd tot) else [])"
  have "encodes (EncodeStatRes ps seq code tot) ?b"
    using encode_total_res_bytes [OF assms, of 24 ?sz Stat seq code tot]
    by (simp add: EncodeStatRes_def statResBytes_def cong: if_cong split del: if_split)
  moreover have "DecodeStatRes ?b = Ok (0, drop_bit 16 (total_sent code tot))"
  proof (cases ?c)
    case True
    let ?d = "drop 6 (put_uint BigEndian 8 (hd tot))"
    have "put_uint BigEndian 2 code @ put_uint BigEndian 8 (hd tot) =
        put_uint BigEndian 8 (drop_bit 16 (hd tot)) @ ?d"
      using True by (simp add: put_uint_shifted codes_OK_def)
    then have "?b = head_bytes 20 0 Stat @ put_uint BigEndian 8 seq @
        put_uint BigEndian 8 (drop_bit 16 (hd tot)) @ ?d"
      using True by simp
    then show ?thesis
      using True Seek_head_seq [of 20 0 Stat seq "put_uint BigEndian 8 (drop_bit 16 (hd tot)) @ ?d"]
      by (simp add: DecodeStatRes_def statResBytes_def total_sent_def read_scalar_at fits_def)
  next
    case False
    then show ?thesis
      using Seek_head_seq [of 12 0 Stat seq "put_uint BigEndian 2 code"]
      by (auto simp: DecodeStatRes_def statResBytes_def total_sent_def)
  qed
  ultimately show ?thesis
    by (auto simp: encodes_def)
qed

section \<open>Properties\<close>

text \<open>
  every request a node sends to a gate about one connection or user arrives: for any sound state
  of the writer pool the encoder returns a frame that the receiving side cuts off any stream and
  decodes to exactly the sequence number, kind, target and flags that were sent; a fenced disconnect
  carries its token, an unfenced one the zero token.
\<close>

lemma gate_requests_delivered:
  assumes "wpools_ok ps" and "byte_range kind"
  shows "delivers (EncodeBindReq ps seq cid uid) Bind seq DecodeBindReq (seq, cid, uid) \<and>
    delivers (EncodeUnbindReq ps seq uid) Unbind seq DecodeUnbindReq (seq, uid) \<and>
    delivers (EncodeGetIPReq ps seq kind target) GetIP seq DecodeGetIPReq (seq, kind, target) \<and>
    delivers (EncodeStatReq ps seq kind) Stat seq DecodeStatReq (seq, kind) \<and>
    delivers (EncodeIsOnlineReq ps seq kind target) IsOnline seq DecodeIsOnlineReq (seq, kind, target) \<and>
    delivers (EncodeDisconnectReq ps seq kind target force) Disconnect seq DecodeDisconnectReqWithToken
      (seq, kind, target, force, zero_token) \<and>
    delivers (EncodeDisconnectCurrentReq ps seq kind target force token) Disconnect seq
      DecodeDisconnectReqWithToken (seq, kind, target, force, token)"
  by (intro conjI bind_req_delivers unbind_req_delivers getip_req_delivers stat_req_delivers
      isonline_req_delivers disconnect_req_delivers disconnect_current_req_delivers assms)

lemma gate_requests_delivered_witness:
  "delivers (EncodeDisconnectCurrentReq fresh_pools 9 2 77 True \<lparr>UID = 77, Generation = 5\<rparr>) Disconnect 9
      DecodeDisconnectReqWithToken (9, 2, 77, True, \<lparr>UID = 77, Generation = 5\<rparr>)"
  using gate_requests_delivered [OF fresh_pools_ok, of 2 9 0 0 77 True "\<lparr>UID = 77, Generation = 5\<rparr>"]
  by (simp add: byte_range_def)

text \<open>
  the responses of the gate arrive: a code-only response brings back its code, an online query its
  code and flag, and an address query its code and, on success, the address, provided that package
  \<open>net\<close> prints the parsed form of the address back as the same text.
\<close>

lemma gate_responses_delivered:
  assumes "wpools_ok ps"
    and "ip_sent code ip \<noteq> [] \<Longrightarrow> length (to4 (ip_sent code ip)) = 4"
    and "ip_sent code ip \<noteq> [] \<Longrightarrow> show4 (to4 (ip_sent code ip)) = ip_sent code ip"
  shows "delivers (EncodeBindRes ps seq code) Bind seq DecodeBindRes code \<and>
    delivers (EncodeUnbindRes ps seq code) Unbind seq DecodeUnbindRes code \<and>
    delivers (EncodeDisconnectRes ps seq code) Disconnect seq DecodeDisconnectRes code \<and>
    delivers (EncodeIsOnlineRes ps seq code b) IsOnline seq DecodeIsOnlineRes (code, b) \<and>
    delivers (EncodeGetIPRes ps to4 seq code ip) GetIP seq (DecodeGetIPRes show4) (code, ip_sent code ip)"
  using code_res_delivers [OF assms(1)] isonline_res_delivers [OF assms(1)] getip_res_delivers [OF assms(1), of code ip to4 show4 seq] assms(2,3)
  by (simp add: EncodeBindRes_def DecodeBindRes_def [abs_def] EncodeUnbindRes_def DecodeUnbindRes_def [abs_def]
      EncodeDisconnectRes_def DecodeDisconnectRes_def [abs_def] bindResBytes_def unbindResBytes_def
      disconnectResBytes_def)

lemma gate_responses_delivered_witness:
  "delivers (EncodeGetIPRes fresh_pools (\<lambda>ip. ip) 3 codes_OK [[10, 0, 0, 1]]) GetIP 3 (DecodeGetIPRes (\<lambda>b. b))
     (codes_OK, ip_sent codes_OK [[10, 0, 0, 1]])"
proof -
  have "length (ip_sent codes_OK [[10, 0, 0, 1]]) = 4"
    by (simp add: ip_sent_def)
  then show ?thesis
    using gate_responses_delivered [OF fresh_pools_ok, of codes_OK "[[10, 0, 0, 1]]" "\<lambda>ip. ip" "\<lambda>b. b" 3]
    by blast
qed

text \<open>
  the response to a statistics query does not: its decoder never reads the code and takes the total
  two bytes early, so whatever was sent, the caller gets code 0 and the total without its low 16 bits.
\<close>

lemma stat_response_shifted:
  assumes "wpools_ok ps"
  shows "\<exists>b. EncodeStatRes ps seq code tot = Ok b \<and>
    DecodeStatRes (wire b) = Ok (0, drop_bit 16 (total_sent code tot))"
  by (rule stat_decodes_shifted [OF assms])

lemma stat_response_shifted_witness:
  "\<exists>b. EncodeStatRes fresh_pools 1 codes_OK [1000] = Ok b \<and>
    DecodeStatRes (wire b) = Ok (0, drop_bit 16 (total_sent codes_OK [1000]))"
  by (rule stat_response_shifted [OF fresh_pools_ok])

end
