(* ===== verification/Protocol_Push.thy ===== *)
theory Protocol_Push
  imports Protocol_Gate
begin

text \<open>
  The messages that deliver data to clients through a gate and manage channel subscriptions
  (\<open>push.go\<close>, \<open>multicast.go\<close>, \<open>broadcast.go\<close>, \<open>publish.go\<close>, \<open>subscribe.go\<close>, \<open>unsubscribe.go\<close>).
  The offsets at which a decoder cuts off the message are computed in the integer type of the
  count that was read: 16 bits for targets, 8 bits for the channel.
\<close>

unbundle bit_operations_syntax

section \<open>Push\<close>

definition pushReqBytes :: int where
  "pushReqBytes =
     protoSizeBytes + protoHeaderBytes + protoRouteBytes + protoSeqBytes + b8 + b64 + b64 + b64"
definition pushResBytes :: int where
  "pushResBytes = protoSizeBytes + protoHeaderBytes + protoRouteBytes + protoSeqBytes + protoCodeBytes"

definition EncodePushReq ::
    "Writer pools \<Rightarrow> uint64 \<Rightarrow> Kind \<Rightarrow> int64 \<Rightarrow> bool \<Rightarrow> Token \<Rightarrow> nnode \<Rightarrow> nbuf res" where
  "EncodePushReq ps seq kind target disconnect token message =
     (case nn_Len message of (mlen, message) \<Rightarrow>
      and_then (run_writes (MallocWriter ps pushReqBytes)
       [\<lambda>w. WriteUint32s w BigEndian [word_of_int (pushReqBytes - protoSizeBytes + mlen)],
        \<lambda>w. if disconnect then WriteUint8s w [protoDataBit OR disconnectBit]
            else WriteUint8s w [protoDataBit],
        \<lambda>w. WriteUint8s w [route_id Push],
        \<lambda>w. WriteUint64s w BigEndian [seq],
        \<lambda>w. WriteUint8s w [word_of_int kind],
        \<lambda>w. WriteInt64s w BigEndian [target],
        \<lambda>w. WriteInt64s w BigEndian [UID token],
        \<lambda>w. WriteUint64s w BigEndian [Generation token]])
       (\<lambda>writer. Ok (NewNocopyBuffer [MWriter writer, MNode message])))"

definition DecodePushReq ::
    "byte list \<Rightarrow> (uint64 \<times> Kind \<times> int64 \<times> bool \<times> Token \<times> byte list) res" where
  "DecodePushReq data =
     and_then (decode_flags data) (\<lambda>(disconnect, reader).
     and_then (ReadUint64 reader BigEndian) (\<lambda>(seq, reader).
     and_then (ReadUint8 reader) (\<lambda>(k, reader).
     and_then (ReadInt64 reader BigEndian) (\<lambda>(target, reader).
     and_then (ReadInt64 reader BigEndian) (\<lambda>(uid, reader).
     and_then (ReadUint64 reader BigEndian) (\<lambda>(generation, reader).
     and_then (slice_from data (nat pushReqBytes)) (\<lambda>message.
     Ok (seq, uint k, target, disconnect, \<lparr>UID = uid, Generation = generation\<rparr>, message))))))))"

definition EncodePushRes :: "Writer pools \<Rightarrow> uint64 \<Rightarrow> uint16 \<Rightarrow> nbuf res" where
  "EncodePushRes ps seq code = encode_code_res ps pushResBytes Push seq code"

definition DecodePushRes :: "byte list \<Rightarrow> uint16 res" where
  "DecodePushRes data = decode_code_res pushResBytes data"

section \<open>Multicast\<close>

definition multicastReqBytes :: int where
  "multicastReqBytes =
     protoSizeBytes + protoHeaderBytes + protoRouteBytes + protoSeqBytes + b8 + b16"
definition multicastResBytes :: int where
  "multicastResBytes =
     protoSizeBytes + protoHeaderBytes + protoRouteBytes + protoSeqBytes + protoCodeBytes + b64"

definition EncodeMulticastReq ::
    "Writer pools \<Rightarrow> uint64 \<Rightarrow> Kind \<Rightarrow> int64 list \<Rightarrow> bool \<Rightarrow> nnode \<Rightarrow> nbuf res" where
  "EncodeMulticastReq ps seq kind targets disconnect message =
     (case nn_Len message of (mlen, message) \<Rightarrow>
      let size = multicastReqBytes + int (length targets) * 8 in
      and_then (run_writes (MallocWriter ps size)
       [\<lambda>w. WriteUint32s w BigEndian [word_of_int (size - protoSizeBytes + mlen)],
        \<lambda>w. if disconnect then WriteUint8s w [protoDataBit OR disconnectBit]
            else WriteUint8s w [protoDataBit],
        \<lambda>w. WriteUint8s w [route_id Multicast],
        \<lambda>w. WriteUint64s w BigEndian [seq],
        \<lambda>w. WriteUint8s w [word_of_int kind],
        \<lambda>w. WriteUint16s w BigEndian [word_of_nat (length targets)],
        \<lambda>w. WriteInt64s w BigEndian targets])
       (\<lambda>writer. Ok (NewNocopyBuffer [MWriter writer, MNode message])))"

definition DecodeMulticastReq ::
    "byte list \<Rightarrow> (uint64 \<times> Kind \<times> int64 list \<times> bool \<times> byte list) res" where
  "DecodeMulticastReq data =
     and_then (decode_flags data) (\<lambda>(disconnect, reader).
     and_then (ReadUint64 reader BigEndian) (\<lambda>(seq, reader).
     and_then (ReadUint8 reader) (\<lambda>(k, reader).
     and_then (ReadUint16 reader BigEndian) (\<lambda>(count, reader).
     and_then (ReadInt64s reader BigEndian (uint count)) (\<lambda>(targets, reader).
     and_then (slice_from data (unat (word_of_int multicastReqBytes + 8 * count :: uint16)))
       (\<lambda>message.
     Ok (seq, uint k, targets, disconnect, message)))))))"

definition EncodeMulticastRes :: "Writer pools \<Rightarrow> uint64 \<Rightarrow> uint16 \<Rightarrow> uint64 list \<Rightarrow> nbuf res" where
  "EncodeMulticastRes ps seq code tot =
     encode_total_res ps
       (if code \<noteq> codes_OK \<or> length tot = 0 \<or> hd tot = 0
        then multicastResBytes - protoSizeBytes - b64 else multicastResBytes - protoSizeBytes)
       multicastResBytes Multicast seq code tot"

definition DecodeMulticastRes :: "byte list \<Rightarrow> (uint16 \<times> uint64) res" where
  "DecodeMulticastRes data = decode_total_res multicastResBytes data"

section \<open>Broadcast\<close>

definition broadcastReqBytes :: int where
  "broadcastReqBytes = protoSizeBytes + protoHeaderBytes + protoRouteBytes + protoSeqBytes + b8"
definition broadcastResBytes :: int where
  "broadcastResBytes =
     protoSizeBytes + protoHeaderBytes + protoRouteBytes + protoSeqBytes + protoCodeBytes + b64"

definition EncodeBroadcastReq ::
    "Writer pools \<Rightarrow> uint64 \<Rightarrow> Kind \<Rightarrow> bool \<Rightarrow> nnode \<Rightarrow> nbuf res" where
  "EncodeBroadcastReq ps seq kind disconnect message =
     (case nn_Len message of (mlen, message) \<Rightarrow>
      and_then (run_writes (MallocWriter ps broadcastReqBytes)
       [\<lambda>w. WriteUint32s w BigEndian [word_of_int (broadcastReqBytes - protoSizeBytes + mlen)],
        \<lambda>w. if disconnect then WriteUint8s w [protoDataBit OR disconnectBit]
            else WriteUint8s w [protoDataBit],
        \<lambda>w. WriteUint8s w [route_id Broadcast],
        \<lambda>w. WriteUint64s w BigEndian [seq],
        \<lambda>w. WriteUint8s w [word_of_int kind]])
       (\<lambda>writer. Ok (NewNocopyBuffer [MWriter writer, MNode message])))"

definition DecodeBroadcastReq :: "byte list \<Rightarrow> (uint64 \<times> Kind \<times> bool \<times> byte list) res" where
  "DecodeBroadcastReq data =
     and_then (decode_flags data) (\<lambda>(disconnect, reader).
     and_then (ReadUint64 reader BigEndian) (\<lambda>(seq, reader).
     and_then (ReadUint8 reader) (\<lambda>(k, reader).
     and_then (slice_from data (nat broadcastReqBytes)) (\<lambda>message.
     Ok (seq, uint k, disconnect, message)))))"

definition EncodeBroadcastRes :: "Writer pools \<Rightarrow> uint64 \<Rightarrow> uint16 \<Rightarrow> uint64 list \<Rightarrow> nbuf res" where
  "EncodeBroadcastRes ps seq code tot =
     encode_total_res ps
       (if code \<noteq> codes_OK \<or> length tot = 0 \<or> hd tot = 0
        then broadcastResBytes - protoSizeBytes - b64 else broadcastResBytes - protoSizeBytes)
       broadcastResBytes Broadcast seq code tot"

definition DecodeBroadcastRes :: "byte list \<Rightarrow> (uint16 \<times> uint64) res" where
  "DecodeBroadcastRes data = decode_total_res broadcastResBytes data"

section \<open>Publish\<close>

definition publishReqBytes :: int where
  "publishReqBytes = protoSizeBytes + protoHeaderBytes + protoRouteBytes + protoSeqBytes + b8"
definition publishResBytes :: int where
  "publishResBytes =
     protoSizeBytes + protoHeaderBytes + protoRouteBytes + protoSeqBytes + protoCodeBytes + b64"

definition EncodePublishReq ::
    "Writer pools \<Rightarrow> uint64 \<Rightarrow> gostring \<Rightarrow> bool \<Rightarrow> nnode \<Rightarrow> nbuf res" where
  "EncodePublishReq ps seq channel disconnect message =
     (case nn_Len message of (mlen, message) \<Rightarrow>
      let channelBytes = int (length channel); size = publishReqBytes + channelBytes in
      and_then (run_writes (MallocWriter ps size)
       [\<lambda>w. WriteUint32s w BigEndian [word_of_int (size - protoSizeBytes + mlen)],
        \<lambda>w. if disconnect then WriteUint8s w [protoDataBit OR disconnectBit]
            else WriteUint8s w [protoDataBit],
        \<lambda>w. WriteUint8s w [route_id Publish],
        \<lambda>w. WriteUint64s w BigEndian [seq],
        \<lambda>w. WriteUint8s w [word_of_int channelBytes],
        \<lambda>w. WriteString w channel])
       (\<lambda>writer. Ok (NewNocopyBuffer [MWriter writer, MNode message])))"

definition DecodePublishReq :: "byte list \<Rightarrow> (uint64 \<times> gostring \<times> bool \<times> byte list) res" where
  "DecodePublishReq data =
     and_then (decode_flags data) (\<lambda>(disconnect, reader).
     and_then (ReadUint64 reader BigEndian) (\<lambda>(seq, reader).
     and_then (ReadUint8 reader) (\<lambda>(channelBytes, reader).
     and_then (ReadString reader (uint channelBytes)) (\<lambda>(channel, reader).
     and_then (slice_from data (unat (word_of_int publishReqBytes + channelBytes :: uint8)))
       (\<lambda>message.
     Ok (seq, channel, disconnect, message))))))"

text \<open>\<open>EncodePublishRes\<close> announces the full length whether or not it writes the total.\<close>

definition EncodePublishRes :: "Writer pools \<Rightarrow> uint64 \<Rightarrow> uint16 \<Rightarrow> uint64 list \<Rightarrow> nbuf res" where
  "EncodePublishRes ps seq code tot =
     encode_total_res ps (publishResBytes - protoSizeBytes) publishResBytes Publish seq code tot"

definition DecodePublishRes :: "byte list \<Rightarrow> (uint16 \<times> uint64) res" where
  "DecodePublishRes data = decode_total_res publishResBytes data"

section \<open>Subscribe and unsubscribe\<close>

definition subscribeReqBytes :: int where
  "subscribeReqBytes =
     protoSizeBytes + protoHeaderBytes + protoRouteBytes + protoSeqBytes + b8 + b16"
definition subscribeResBytes :: int where
  "subscribeResBytes =
     protoSizeBytes + protoHeaderBytes + protoRouteBytes + protoSeqBytes + protoCodeBytes"

text \<open>The two requests are written and read by the same statements; only the route differs.\<close>

definition encode_targets_req ::
    "Writer pools \<Rightarrow> int \<Rightarrow> route \<Rightarrow> uint64 \<Rightarrow> Kind \<Rightarrow> int64 list \<Rightarrow> gostring \<Rightarrow> nbuf res" where
  "encode_targets_req ps reqBytes r seq kind targets channel =
     (let size = reqBytes + int (length targets) * 8 + int (length channel) in
      and_then (run_writes (MallocWriter ps size)
       [\<lambda>w. WriteUint32s w BigEndian [word_of_int (size - protoSizeBytes)],
        \<lambda>w. WriteUint8s w [protoDataBit],
        \<lambda>w. WriteUint8s w [route_id r],
        \<lambda>w. WriteUint64s w BigEndian [seq],
        \<lambda>w. WriteUint8s w [word_of_int kind],
        \<lambda>w. WriteUint16s w BigEndian [word_of_nat (length targets)],
        \<lambda>w. WriteInt64s w BigEndian targets,
        \<lambda>w. WriteString w channel])
       (\<lambda>writer. Ok (NewNocopyBuffer [MWriter writer])))"

definition decode_targets_req ::
    "int \<Rightarrow> byte list \<Rightarrow> (uint64 \<times> Kind \<times> int64 list \<times> gostring) res" where
  "decode_targets_req reqBytes data =
     and_then (Seek (NewReader data) (protoSizeBytes + protoHeaderBytes + protoRouteBytes) SeekStart)
       (\<lambda>(_, reader).
     and_then (ReadUint64 reader BigEndian) (\<lambda>(seq, reader).
     and_then (ReadUint8 reader) (\<lambda>(k, reader).
     and_then (ReadUint16 reader BigEndian) (\<lambda>(count, reader).
     and_then (ReadInt64s reader BigEndian (uint count)) (\<lambda>(targets, reader).
     and_then (slice_from data (unat (word_of_int reqBytes + 8 * count :: uint16))) (\<lambda>channel.
     Ok (seq, uint k, targets, channel)))))))"

definition EncodeSubscribeReq ::
    "Writer pools \<Rightarrow> uint64 \<Rightarrow> Kind \<Rightarrow> int64 list \<Rightarrow> gostring \<Rightarrow> nbuf res" where
  "EncodeSubscribeReq ps seq kind targets channel =
     encode_targets_req ps subscribeReqBytes Subscribe seq kind targets channel"

definition DecodeSubscribeReq :: "byte list \<Rightarrow> (uint64 \<times> Kind \<times> int64 list \<times> gostring) res" where
  "DecodeSubscribeReq data = decode_targets_req subscribeReqBytes data"

definition EncodeSubscribeRes :: "Writer pools \<Rightarrow> uint64 \<Rightarrow> uint16 \<Rightarrow> nbuf res" where
  "EncodeSubscribeRes ps seq code = encode_code_res ps subscribeResBytes Subscribe seq code"

definition DecodeSubscribeRes :: "byte list \<Rightarrow> uint16 res" where
  "DecodeSubscribeRes data = decode_code_res subscribeResBytes data"

definition unsubscribeReqBytes :: int where
  "unsubscribeReqBytes =
     protoSizeBytes + protoHeaderBytes + protoRouteBytes + protoSeqBytes + b8 + b16"
definition unsubscribeResBytes :: int where
  "unsubscribeResBytes =
     protoSizeBytes + protoHeaderBytes + protoRouteBytes + protoSeqBytes + protoCodeBytes"

definition EncodeUnsubscribeReq ::
    "Writer pools \<Rightarrow> uint64 \<Rightarrow> Kind \<Rightarrow> int64 list \<Rightarrow> gostring \<Rightarrow> nbuf res" where
  "EncodeUnsubscribeReq ps seq kind targets channel =
     encode_targets_req ps unsubscribeReqBytes Unsubscribe seq kind targets channel"

definition DecodeUnsubscribeReq :: "byte list \<Rightarrow> (uint64 \<times> Kind \<times> int64 list \<times> gostring) res" where
  "DecodeUnsubscribeReq data = decode_targets_req unsubscribeReqBytes data"

definition EncodeUnsubscribeRes :: "Writer pools \<Rightarrow> uint64 \<Rightarrow> uint16 \<Rightarrow> nbuf res" where
  "EncodeUnsubscribeRes ps seq code = encode_code_res ps unsubscribeResBytes Unsubscribe seq code"

definition DecodeUnsubscribeRes :: "byte list \<Rightarrow> uint16 res" where
  "DecodeUnsubscribeRes data = decode_code_res unsubscribeResBytes data"

section \<open>The messages arrive\<close>

lemma message_Len:
  assumes "nn_wf msg"
  obtains msg' where "nn_Len msg = (int (length (nn_data msg)), msg')" "nn_wf msg'"
    "nn_data msg' = nn_data msg"
  using nn_Len_data [OF assms] by (metis prod.collapse)

lemma push_bytes:
  assumes "wpools_ok ps" and "nn_wf msg"
  shows "encodes (EncodePushReq ps seq kind target d token msg)
    (head_bytes (35 + int (length (nn_data msg))) (flag_byte d) Push @ put_uint BigEndian 8 seq @
     word_of_int kind # put_uint BigEndian 8 target @ put_uint BigEndian 8 (UID token) @
     put_uint BigEndian 8 (Generation token) @ nn_data msg)"
proof -
  obtain m' where m: "nn_Len msg = (int (length (nn_data msg)), m')" "nn_wf m'" "nn_data m' = nn_data msg"
    using message_Len [OF assms(2)] .
  show ?thesis
    unfolding EncodePushReq_def m(1) prod.case
    by (rule encodes_message [OF assms(1) _ m(2)], simp add: pushReqBytes_def, (rule emits_intros)+)
      (simp add: head_bytes_def pushReqBytes_def flag_byte_def m(3))
qed

lemmas push_steps = decode_flags_head slice_from_append decode_steps flag_byte_facts

lemma slice_from_suffix:
  assumes "length bs = n + length m" and "drop n bs = m"
  shows "slice_from bs n = Ok m"
  using assms by (simp add: slice_from_def)

lemma slice_from_targets:
  assumes "n = length h + length s + Suc (length c + length t)"
  shows "slice_from (h @ s @ k # c @ t @ m) n = Ok m"
  using slice_from_append [of "h @ s @ k # c @ t" n m] assms by simp

lemma push_req_delivers:
  assumes "wpools_ok ps" and "nn_wf msg" and "byte_range kind" and "length (nn_data msg) + 39 < 2 ^ 32"
  shows "delivers (EncodePushReq ps seq kind target d token msg) Push seq DecodePushReq
    (seq, kind, target, d, token, nn_data msg)"
  by (rule deliversI [OF push_bytes [OF assms(1,2)]])
    (use assms(4) in \<open>simp_all add: DecodePushReq_def pushReqBytes_def push_steps slice_from_suffix
      uint_byte_of_int [OF assms(3)]\<close>)

lemma multicast_bytes:
  assumes "wpools_ok ps" and "nn_wf msg"
  shows "encodes (EncodeMulticastReq ps seq kind targets d msg)
    (head_bytes (13 + 8 * int (length targets) + int (length (nn_data msg))) (flag_byte d) Multicast @
     put_uint BigEndian 8 seq @ word_of_int kind # put_uint BigEndian 2 (word_of_nat (length targets) :: uint16) @
     concat (map (put_uint BigEndian 8) targets) @ nn_data msg)"
proof -
  obtain m' where m: "nn_Len msg = (int (length (nn_data msg)), m')" "nn_wf m'" "nn_data m' = nn_data msg"
    using message_Len [OF assms(2)] .
  show ?thesis
    unfolding EncodeMulticastReq_def m(1) prod.case Let_def
    by (rule encodes_message [OF assms(1) _ m(2)], simp add: multicastReqBytes_def, (rule emits_intros)+)
      (simp add: head_bytes_def multicastReqBytes_def flag_byte_def m(3) mult.commute)
qed

text \<open>
  The offset of the message is computed in 16 bits: it is right up to 8189 targets.
\<close>

lemma offset16:
  assumes "n < 65536"
  shows "uint (word_of_nat n :: uint16) = int n"
    and "unat (17 + 8 * word_of_nat n :: uint16) = (17 + 8 * n) mod 65536"
proof -
  show "uint (word_of_nat n :: uint16) = int n"
    using assms by (simp add: uint_nat unat_of_nat)
  have "17 + 8 * word_of_nat n = (word_of_nat (17 + 8 * n) :: uint16)"
    by simp
  moreover have "unat (word_of_nat (17 + 8 * n) :: uint16) = (17 + 8 * n) mod 65536"
    by (simp add: unat_of_nat del: of_nat_add of_nat_mult)
  ultimately show "unat (17 + 8 * word_of_nat n :: uint16) = (17 + 8 * n) mod 65536"
    by simp
qed

lemma multicast_req_delivers:
  assumes "wpools_ok ps" and "nn_wf msg" and "byte_range kind" and "length targets < 8190"
    and "8 * length targets + length (nn_data msg) + 17 < 2 ^ 32"
  shows "delivers (EncodeMulticastReq ps seq kind targets d msg) Multicast seq DecodeMulticastReq
    (seq, kind, targets, d, nn_data msg)"
  by (rule deliversI [OF multicast_bytes [OF assms(1,2)]])
    (use assms(4,5) in \<open>simp_all add: DecodeMulticastReq_def multicastReqBytes_def push_steps slice_from_targets
      ReadInt64s_at offset16 uint_byte_of_int [OF assms(3)]\<close>)

lemma multicast_req_wraps:
  assumes "wpools_ok ps" and "nn_wf msg" and "byte_range kind"
    and "8190 \<le> length targets" and "length targets < 65536"
  shows "\<exists>b. EncodeMulticastReq ps seq kind targets d msg = Ok b \<and>
    DecodeMulticastReq (wire b) =
      Ok (seq, kind, targets, d, drop ((17 + 8 * length targets) mod 65536) (wire b))"
proof -
  obtain b where b: "EncodeMulticastReq ps seq kind targets d msg = Ok b"
    "wire b = head_bytes (13 + 8 * int (length targets) + int (length (nn_data msg))) (flag_byte d) Multicast @
     put_uint BigEndian 8 seq @ word_of_int kind # put_uint BigEndian 2 (word_of_nat (length targets) :: uint16) @
     concat (map (put_uint BigEndian 8) targets) @ nn_data msg"
    using multicast_bytes [OF assms(1,2)] unfolding encodes_def by blast
  have len: "length (wire b) = 17 + 8 * length targets + length (nn_data msg)"
    by (simp add: b(2))
  have sl: "slice_from (wire b) ((17 + 8 * length targets) mod 65536) =
      Ok (drop ((17 + 8 * length targets) mod 65536) (wire b))"
    unfolding slice_from_def len using mod_less_eq_dividend [of "17 + 8 * length targets" 65536] by simp
  have "DecodeMulticastReq (wire b) =
      Ok (seq, kind, targets, d, drop ((17 + 8 * length targets) mod 65536) (wire b))"
    using assms(4,5) sl unfolding b(2)
    by (simp add: DecodeMulticastReq_def multicastReqBytes_def push_steps ReadInt64s_at offset16
      uint_byte_of_int [OF assms(3)])
  with b(1) show ?thesis by blast
qed

lemma broadcast_bytes:
  assumes "wpools_ok ps" and "nn_wf msg"
  shows "encodes (EncodeBroadcastReq ps seq kind d msg)
    (head_bytes (11 + int (length (nn_data msg))) (flag_byte d) Broadcast @
     put_uint BigEndian 8 seq @ word_of_int kind # nn_data msg)"
proof -
  obtain m' where m: "nn_Len msg = (int (length (nn_data msg)), m')" "nn_wf m'" "nn_data m' = nn_data msg"
    using message_Len [OF assms(2)] .
  show ?thesis
    unfolding EncodeBroadcastReq_def m(1) prod.case
    by (rule encodes_message [OF assms(1) _ m(2)], simp add: broadcastReqBytes_def, (rule emits_intros)+)
      (simp add: head_bytes_def broadcastReqBytes_def flag_byte_def m(3))
qed

lemma broadcast_req_delivers:
  assumes "wpools_ok ps" and "nn_wf msg" and "byte_range kind" and "length (nn_data msg) + 15 < 2 ^ 32"
  shows "delivers (EncodeBroadcastReq ps seq kind d msg) Broadcast seq DecodeBroadcastReq
    (seq, kind, d, nn_data msg)"
  by (rule deliversI [OF broadcast_bytes [OF assms(1,2)]])
    (use assms(4) in \<open>simp_all add: DecodeBroadcastReq_def broadcastReqBytes_def push_steps
      slice_from_suffix uint_byte_of_int [OF assms(3)]\<close>)

lemma publish_bytes:
  assumes "wpools_ok ps" and "nn_wf msg"
  shows "encodes (EncodePublishReq ps seq channel d msg)
    (head_bytes (11 + int (length channel) + int (length (nn_data msg))) (flag_byte d) Publish @
     put_uint BigEndian 8 seq @ word_of_nat (length channel) # channel @ nn_data msg)"
proof -
  obtain m' where m: "nn_Len msg = (int (length (nn_data msg)), m')" "nn_wf m'" "nn_data m' = nn_data msg"
    using message_Len [OF assms(2)] .
  show ?thesis
    unfolding EncodePublishReq_def m(1) prod.case Let_def
    by (rule encodes_message [OF assms(1) _ m(2)], simp add: publishReqBytes_def, (rule emits_intros)+)
      (simp add: head_bytes_def publishReqBytes_def flag_byte_def m(3))
qed

text \<open>The offset behind the channel is computed in 8 bits: it is right up to 240 bytes.\<close>

lemma offset8:
  assumes "n < 256"
  shows "uint (word_of_nat n :: uint8) = int n"
    and "unat (15 + word_of_nat n :: uint8) = (15 + n) mod 256"
proof -
  show "uint (word_of_nat n :: uint8) = int n"
    using assms by (simp add: uint_nat unat_of_nat)
  have "15 + word_of_nat n = (word_of_nat (15 + n) :: uint8)"
    by simp
  moreover have "unat (word_of_nat (15 + n) :: uint8) = (15 + n) mod 256"
    by (simp add: unat_of_nat del: of_nat_add)
  ultimately show "unat (15 + word_of_nat n :: uint8) = (15 + n) mod 256"
    by simp
qed

lemma publish_req_delivers:
  assumes "wpools_ok ps" and "nn_wf msg" and "length channel < 241"
    and "length channel + length (nn_data msg) + 15 < 2 ^ 32"
  shows "delivers (EncodePublishReq ps seq channel d msg) Publish seq DecodePublishReq
    (seq, channel, d, nn_data msg)"
  by (rule deliversI [OF publish_bytes [OF assms(1,2)]])
    (use assms(3,4) in \<open>simp_all add: DecodePublishReq_def publishReqBytes_def push_steps
      slice_from_suffix ReadString_at offset8\<close>)

text \<open>
  For longer channels the offset wraps: part of the frame's own header is taken for the message.
\<close>

lemma publish_req_wraps:
  assumes "wpools_ok ps" and "nn_wf msg" and "241 \<le> length channel" and "length channel < 256"
  shows "\<exists>b. EncodePublishReq ps seq channel d msg = Ok b \<and>
    DecodePublishReq (wire b) = Ok (seq, channel, d, drop (length channel - 241) (wire b))"
proof -
  obtain b where b: "EncodePublishReq ps seq channel d msg = Ok b"
    "wire b = head_bytes (11 + int (length channel) + int (length (nn_data msg))) (flag_byte d) Publish @
     put_uint BigEndian 8 seq @ word_of_nat (length channel) # channel @ nn_data msg"
    using publish_bytes [OF assms(1,2)] unfolding encodes_def by blast
  have off: "(15 + length channel) mod 256 = length channel - 241"
    using assms(3,4) by (simp add: mod_if)
  have "DecodePublishReq (wire b) = Ok (seq, channel, d, drop (length channel - 241) (wire b))"
    using assms(3,4) off
    by (simp add: b(2) DecodePublishReq_def publishReqBytes_def push_steps slice_from_def ReadString_at offset8)
  with b(1) show ?thesis by blast
qed

lemma targets_bytes:
  assumes "wpools_ok ps"
  shows "encodes (encode_targets_req ps 17 r seq kind targets channel)
    (head_bytes (13 + 8 * int (length targets) + int (length channel)) 0 r @
     put_uint BigEndian 8 seq @ word_of_int kind # put_uint BigEndian 2 (word_of_nat (length targets) :: uint16) @
     concat (map (put_uint BigEndian 8) targets) @ channel)"
  unfolding encode_targets_req_def Let_def
  by (rule encodes_writer [OF assms], simp, (rule emits_intros)+)
    (simp add: head_bytes_def algebra_simps)

lemma targets_req_delivers:
  assumes "wpools_ok ps" and "byte_range kind" and "length targets < 8190"
    and "8 * length targets + length channel + 17 < 2 ^ 32"
  shows "delivers (encode_targets_req ps 17 r seq kind targets channel) r seq (decode_targets_req 17)
    (seq, kind, targets, channel)"
  by (rule deliversI [OF targets_bytes [OF assms(1)]])
    (use assms(3,4) in \<open>simp_all add: decode_targets_req_def decode_steps slice_from_targets
      ReadInt64s_at offset16 uint_byte_of_int [OF assms(2)]\<close>)

lemma subscribe_sizes [simp]: "subscribeReqBytes = 17" "unsubscribeReqBytes = 17"
  by (simp_all add: subscribeReqBytes_def unsubscribeReqBytes_def)

text \<open>
  A publish response without a total announces eight bytes more than it has: the frame reader on
  the other side takes the first eight bytes of whatever follows for its total.
\<close>

lemma publish_res_swallows:
  assumes "wpools_ok ps" and "code \<noteq> codes_OK" and "length next8 = 8"
  shows "\<exists>b. EncodePublishRes ps seq code tot = Ok b \<and>
    Proto_ReadMessage (wire b @ next8 @ rest) =
      Ok ((False, route_id Publish, seq, wire b @ next8), rest)"
proof -
  obtain b where b: "EncodePublishRes ps seq code tot = Ok b"
    "wire b = head_bytes 20 0 Publish @ put_uint BigEndian 8 seq @ put_uint BigEndian 2 code"
    using encode_total_res_bytes [OF assms(1), of 24 20 Publish seq code tot] assms(2)
    by (auto simp: encodes_def EncodePublishRes_def publishResBytes_def)
  have "Proto_ReadMessage ((wire b @ next8) @ rest) = Ok ((False, route_id Publish, seq, wire b @ next8), rest)"
    by (rule Proto_ReadMessage_frame [where sz = 20 and post = "put_uint BigEndian 2 code @ next8" and hdr = 0])
      (simp_all add: b(2) assms(3))
  with b(1) show ?thesis by auto
qed

section \<open>Properties\<close>

text \<open>
  a push arrives with its fencing token: the receiving gate decodes exactly the target, flag, token
  and message bytes that the node sent, for any message buffer however it is composed.
\<close>

lemma push_delivered:
  assumes "wpools_ok ps" and "nn_wf msg" and "byte_range kind" and "length (nn_data msg) + 39 < 2 ^ 32"
  shows "delivers (EncodePushReq ps seq kind target d token msg) Push seq DecodePushReq
    (seq, kind, target, d, token, nn_data msg)"
  by (rule push_req_delivers [OF assms])

lemma push_delivered_witness:
  "delivers (EncodePushReq fresh_pools 4 2 77 True \<lparr>UID = 77, Generation = 5\<rparr> (NNode (BRaw [1, 2, 3]))) Push 4
     DecodePushReq (4, 2, 77, True, \<lparr>UID = 77, Generation = 5\<rparr>, nn_data (NNode (BRaw [1, 2, 3])))"
  by (rule push_delivered [OF fresh_pools_ok])
    (simp_all add: byte_range_def nn_data_def block_data_def block_ok_def)

text \<open>
  multicast, broadcast, publish, subscribe and unsubscribe requests arrive, with all their targets,
  channel and message, as long as the variable part stays below the offsets the decoders can compute:
  8190 targets, a channel of 240 bytes.
\<close>

lemma group_requests_delivered:
  assumes "wpools_ok ps" and "nn_wf msg" and "byte_range kind" and "length targets < 8190"
    and "length channel < 241" and "length (nn_data msg) + 70000 < 2 ^ 32"
  shows "delivers (EncodeMulticastReq ps seq kind targets d msg) Multicast seq DecodeMulticastReq
      (seq, kind, targets, d, nn_data msg) \<and>
    delivers (EncodeBroadcastReq ps seq kind d msg) Broadcast seq DecodeBroadcastReq (seq, kind, d, nn_data msg) \<and>
    delivers (EncodePublishReq ps seq channel d msg) Publish seq DecodePublishReq (seq, channel, d, nn_data msg) \<and>
    delivers (EncodeSubscribeReq ps seq kind targets channel) Subscribe seq DecodeSubscribeReq
      (seq, kind, targets, channel) \<and>
    delivers (EncodeUnsubscribeReq ps seq kind targets channel) Unsubscribe seq DecodeUnsubscribeReq
      (seq, kind, targets, channel)"
  using multicast_req_delivers [OF assms(1-4)] broadcast_req_delivers [OF assms(1-3)]
    publish_req_delivers [OF assms(1,2,5)] targets_req_delivers [OF assms(1,3,4), of channel] assms(4,5,6)
  by (simp add: EncodeSubscribeReq_def EncodeUnsubscribeReq_def DecodeSubscribeReq_def [abs_def]
      DecodeUnsubscribeReq_def [abs_def])

lemma group_requests_delivered_witness:
  "delivers (EncodeMulticastReq fresh_pools 6 1 [5, 6, 7] False (NNode (BRaw [9]))) Multicast 6 DecodeMulticastReq
     (6, 1, [5, 6, 7], False, nn_data (NNode (BRaw [9])))"
  using group_requests_delivered [OF fresh_pools_ok, of "NNode (BRaw [9])" 1 "[5, 6, 7]" "[]" 6 False]
  by (simp add: byte_range_def nn_data_def block_data_def block_ok_def)

text \<open>
  from 8190 targets on, the 16-bit offset \<open>multicastReqBytes+count*8\<close> wraps: the targets still arrive,
  but what the gate pushes to them as the message starts inside the frame's own header or target list.
\<close>

lemma multicast_message_wraps:
  assumes "wpools_ok ps" and "nn_wf msg" and "byte_range kind"
    and "8190 \<le> length targets" and "length targets < 65536"
  shows "\<exists>b. EncodeMulticastReq ps seq kind targets d msg = Ok b \<and>
    DecodeMulticastReq (wire b) = Ok (seq, kind, targets, d, drop ((17 + 8 * length targets) mod 65536) (wire b))"
  by (rule multicast_req_wraps [OF assms])

lemma multicast_message_wraps_witness:
  "\<exists>b. EncodeMulticastReq fresh_pools 6 1 (replicate 8190 5) False (NNode (BRaw [9])) = Ok b \<and>
    DecodeMulticastReq (wire b) =
      Ok (6, 1, replicate 8190 5, False, drop ((17 + 8 * length (replicate 8190 (5 :: int64))) mod 65536) (wire b))"
  by (rule multicast_message_wraps [OF fresh_pools_ok]) (simp_all add: byte_range_def block_ok_def)

text \<open>
  a failed publish response desynchronises the connection: it announces the eight bytes of a total it
  does not carry, so the receiver takes the first eight bytes of the next frame for its own.
\<close>

lemma publish_response_swallows:
  assumes "wpools_ok ps" and "code \<noteq> codes_OK" and "length next8 = 8"
  shows "\<exists>b. EncodePublishRes ps seq code tot = Ok b \<and>
    Proto_ReadMessage (wire b @ next8 @ rest) =
      Ok ((False, route_id Publish, seq, wire b @ next8), rest)"
  by (rule publish_res_swallows [OF assms])

lemma publish_response_swallows_witness:
  "\<exists>b. EncodePublishRes fresh_pools 2 codes_InternalError [] = Ok b \<and>
    Proto_ReadMessage (wire b @ [0, 0, 0, 20, 0, 3, 0, 0] @ [1]) =
      Ok ((False, route_id Publish, 2, wire b @ [0, 0, 0, 20, 0, 3, 0, 0]), [1])"
  by (rule publish_response_swallows [OF fresh_pools_ok]) (simp_all add: codes_InternalError_def codes_OK_def)

end
