(* ===== verification/Protocol_Node.thy ===== *)
theory Protocol_Node
  imports Protocol_Push
begin

text \<open>
  The messages of the connection set-up and the ones a gate or node sends to a node
  (\<open>handshake.go\<close>, \<open>trigger.go\<close>, \<open>state.go\<close>, \<open>deliver.go\<close> of the protocol package; the enumerations
  of \<open>cluster/cluster.go\<close> and \<open>RequestMetadata\<close> of \<open>cluster/request_metadata.go\<close>).
\<close>

unbundle bit_operations_syntax

section \<open>Handshake\<close>

definition handshakeReqBytes :: int where
  "handshakeReqBytes = protoSizeBytes + protoHeaderBytes + protoRouteBytes + protoSeqBytes + b8"
definition handshakeResBytes :: int where
  "handshakeResBytes =
     protoSizeBytes + protoHeaderBytes + protoRouteBytes + protoSeqBytes + protoCodeBytes"

definition EncodeHandshakeReq :: "Writer pools \<Rightarrow> uint64 \<Rightarrow> int \<Rightarrow> gostring \<Rightarrow> nbuf res" where
  "EncodeHandshakeReq ps seq insKind insID =
     (let size = handshakeReqBytes + int (length insID) in
      and_then (run_writes (MallocWriter ps size)
       [\<lambda>w. WriteUint32s w BigEndian [word_of_int (size - protoSizeBytes)],
        \<lambda>w. WriteUint8s w [protoDataBit],
        \<lambda>w. WriteUint8s w [route_id Handshake],
        \<lambda>w. WriteUint64s w BigEndian [seq],
        \<lambda>w. WriteUint8s w [word_of_int insKind],
        \<lambda>w. WriteString w insID])
       (\<lambda>writer. Ok (NewNocopyBuffer [MWriter writer])))"

definition DecodeHandshakeReq :: "byte list \<Rightarrow> (uint64 \<times> int \<times> gostring) res" where
  "DecodeHandshakeReq data =
     and_then (Seek (NewReader data) (protoSizeBytes + protoHeaderBytes + protoRouteBytes) SeekStart)
       (\<lambda>(_, reader).
     and_then (ReadUint64 reader BigEndian) (\<lambda>(seq, reader).
     and_then (ReadUint8 reader) (\<lambda>(k, reader).
     and_then (ReadString reader (int (length data) - handshakeReqBytes)) (\<lambda>(insID, reader).
     Ok (seq, uint k, insID)))))"

definition EncodeHandshakeRes :: "Writer pools \<Rightarrow> uint64 \<Rightarrow> uint16 \<Rightarrow> nbuf res" where
  "EncodeHandshakeRes ps seq code = encode_code_res ps handshakeResBytes Handshake seq code"

definition DecodeHandshakeRes :: "byte list \<Rightarrow> uint16 res" where
  "DecodeHandshakeRes data = decode_code_res handshakeResBytes data"

section \<open>Trigger\<close>

definition triggerReqBytes :: int where
  "triggerReqBytes =
     protoSizeBytes + protoHeaderBytes + protoRouteBytes + protoSeqBytes + b8 + b64 + b64 + b64"
definition triggerResBytes :: int where
  "triggerResBytes =
     protoSizeBytes + protoHeaderBytes + protoRouteBytes + protoSeqBytes + protoCodeBytes"

text \<open>Without a user the generation is not sent either.\<close>

definition EncodeTriggerReq ::
    "Writer pools \<Rightarrow> uint64 \<Rightarrow> int \<Rightarrow> int64 \<Rightarrow> int64 \<Rightarrow> uint64 \<Rightarrow> nbuf res" where
  "EncodeTriggerReq ps seq event cid uid generation =
     (let size = triggerReqBytes - protoSizeBytes;
          (size, generation) = (if uid = 0 then (size - (b64 + b64), 0) else (size, generation))
      in and_then (run_writes (MallocWriter ps triggerReqBytes)
       ([\<lambda>w. WriteUint32s w BigEndian [word_of_int size],
         \<lambda>w. WriteUint8s w [protoDataBit],
         \<lambda>w. WriteUint8s w [route_id Trigger],
         \<lambda>w. WriteUint64s w BigEndian [seq],
         \<lambda>w. WriteUint8s w [word_of_int event],
         \<lambda>w. WriteInt64s w BigEndian [cid]] @
        (if uid \<noteq> 0
         then [\<lambda>w. WriteInt64s w BigEndian [uid], \<lambda>w. WriteUint64s w BigEndian [generation]]
         else [])))
       (\<lambda>writer. Ok (NewNocopyBuffer [MWriter writer])))"

definition DecodeTriggerReq :: "byte list \<Rightarrow> (uint64 \<times> int \<times> int64 \<times> int64 \<times> uint64) res" where
  "DecodeTriggerReq data =
     (if int (length data) \<noteq> triggerReqBytes \<and> int (length data) \<noteq> triggerReqBytes - b64 - b64
      then Err ErrInvalidMessage
      else and_then (Seek (NewReader data) (protoSizeBytes + protoHeaderBytes + protoRouteBytes) SeekStart)
             (\<lambda>(_, reader).
           and_then (ReadUint64 reader BigEndian) (\<lambda>(seq, reader).
           and_then (ReadUint8 reader) (\<lambda>(evt, reader).
           and_then (ReadInt64 reader BigEndian) (\<lambda>(cid, reader).
           if int (length data) = triggerReqBytes
           then and_then (ReadInt64 reader BigEndian) (\<lambda>(uid, reader).
                and_then (ReadUint64 reader BigEndian) (\<lambda>(generation, reader).
                Ok (seq, uint evt, cid, uid, generation)))
           else Ok (seq, uint evt, cid, 0, 0))))))"

definition EncodeTriggerRes :: "Writer pools \<Rightarrow> uint64 \<Rightarrow> uint16 \<Rightarrow> nbuf res" where
  "EncodeTriggerRes ps seq code = encode_code_res ps triggerResBytes Trigger seq code"

definition DecodeTriggerRes :: "byte list \<Rightarrow> uint16 res" where
  "DecodeTriggerRes data = decode_code_res triggerResBytes data"

section \<open>State\<close>

definition getStateReqBytes :: int where
  "getStateReqBytes = protoSizeBytes + protoHeaderBytes + protoRouteBytes + protoSeqBytes"
definition getStateResBytes :: int where
  "getStateResBytes =
     protoSizeBytes + protoHeaderBytes + protoRouteBytes + protoSeqBytes + protoCodeBytes + b8"
definition setStateReqBytes :: int where
  "setStateReqBytes = protoSizeBytes + protoHeaderBytes + protoRouteBytes + protoSeqBytes + b8"
definition setStateResBytes :: int where
  "setStateResBytes =
     protoSizeBytes + protoHeaderBytes + protoRouteBytes + protoSeqBytes + protoCodeBytes"

definition EncodeGetStateReq :: "Writer pools \<Rightarrow> uint64 \<Rightarrow> nbuf res" where
  "EncodeGetStateReq ps seq =
     and_then (run_writes (MallocWriter ps getStateReqBytes)
       [\<lambda>w. WriteUint32s w BigEndian [word_of_int (getStateReqBytes - protoSizeBytes)],
        \<lambda>w. WriteUint8s w [protoDataBit],
        \<lambda>w. WriteUint8s w [route_id GetState],
        \<lambda>w. WriteUint64s w BigEndian [seq]])
       (\<lambda>writer. Ok (NewNocopyBuffer [MWriter writer]))"

definition DecodeGetStateReq :: "byte list \<Rightarrow> uint64 res" where
  "DecodeGetStateReq data =
     (if int (length data) \<noteq> getStateReqBytes then Err ErrInvalidMessage
      else and_then (Seek (NewReader data) (protoSizeBytes + protoHeaderBytes + protoRouteBytes) SeekStart)
             (\<lambda>(_, reader).
           and_then (ReadUint64 reader BigEndian) (\<lambda>(seq, reader). Ok seq)))"

definition EncodeGetStateRes :: "Writer pools \<Rightarrow> uint64 \<Rightarrow> uint16 \<Rightarrow> int \<Rightarrow> nbuf res" where
  "EncodeGetStateRes ps seq code state =
     and_then (run_writes (MallocWriter ps getStateResBytes)
       [\<lambda>w. WriteUint32s w BigEndian [word_of_int (getStateResBytes - protoSizeBytes)],
        \<lambda>w. WriteUint8s w [protoDataBit],
        \<lambda>w. WriteUint8s w [route_id GetState],
        \<lambda>w. WriteUint64s w BigEndian [seq],
        \<lambda>w. WriteUint16s w BigEndian [code],
        \<lambda>w. WriteUint8s w [word_of_int state]])
       (\<lambda>writer. Ok (NewNocopyBuffer [MWriter writer]))"

definition DecodeGetStateRes :: "byte list \<Rightarrow> (uint16 \<times> int) res" where
  "DecodeGetStateRes data =
     (if int (length data) \<noteq> getStateResBytes then Err ErrInvalidMessage
      else and_then (Seek (NewReader data)
             (protoSizeBytes + protoHeaderBytes + protoRouteBytes + protoSeqBytes) SeekStart)
             (\<lambda>(_, reader).
           and_then (ReadUint16 reader BigEndian) (\<lambda>(code, reader).
           and_then (ReadUint8 reader) (\<lambda>(status, reader). Ok (code, uint status)))))"

definition EncodeSetStateReq :: "Writer pools \<Rightarrow> uint64 \<Rightarrow> int \<Rightarrow> nbuf res" where
  "EncodeSetStateReq ps seq state =
     and_then (run_writes (MallocWriter ps setStateReqBytes)
       [\<lambda>w. WriteUint32s w BigEndian [word_of_int (setStateReqBytes - protoSizeBytes)],
        \<lambda>w. WriteUint8s w [protoDataBit],
        \<lambda>w. WriteUint8s w [route_id SetState],
        \<lambda>w. WriteUint64s w BigEndian [seq],
        \<lambda>w. WriteUint8s w [word_of_int state]])
       (\<lambda>writer. Ok (NewNocopyBuffer [MWriter writer]))"

definition DecodeSetStateReq :: "byte list \<Rightarrow> (uint64 \<times> int) res" where
  "DecodeSetStateReq data =
     (if int (length data) \<noteq> setStateReqBytes then Err ErrInvalidMessage
      else and_then (Seek (NewReader data) (protoSizeBytes + protoHeaderBytes + protoRouteBytes) SeekStart)
             (\<lambda>(_, reader).
           and_then (ReadUint64 reader BigEndian) (\<lambda>(seq, reader).
           and_then (ReadUint8 reader) (\<lambda>(status, reader). Ok (seq, uint status)))))"

definition EncodeSetStateRes :: "Writer pools \<Rightarrow> uint64 \<Rightarrow> uint16 \<Rightarrow> nbuf res" where
  "EncodeSetStateRes ps seq code = encode_code_res ps setStateResBytes SetState seq code"

definition DecodeSetStateRes :: "byte list \<Rightarrow> uint16 res" where
  "DecodeSetStateRes data = decode_code_res setStateResBytes data"

section \<open>Deliver\<close>

text \<open>
  Instants of package \<open>time\<close> are nanoseconds since the Unix epoch; the zero \<open>Time\<close> is the first
  instant of year 1.  \<open>UnixMilli\<close> rounds towards the past.
\<close>

definition zero_time :: int where
  "zero_time = - 62135596800 * 1000000000"

definition Time_IsZero :: "int \<Rightarrow> bool" where
  "Time_IsZero t \<longleftrightarrow> t = zero_time"

definition Time_UnixMilli :: "int \<Rightarrow> int64" where
  "Time_UnixMilli t = word_of_int (t div 1000000)"

definition time_UnixMilli :: "int64 \<Rightarrow> int" where
  "time_UnixMilli ms = sint ms * 1000000"

record RequestMetadata =
  Deadline :: int
  CorrelationID :: gostring
  TraceParent :: gostring
  TraceState :: gostring

definition zero_metadata :: RequestMetadata where
  "zero_metadata = \<lparr>Deadline = zero_time, CorrelationID = [], TraceParent = [], TraceState = []\<rparr>"

definition deliverReqBytes :: int where
  "deliverReqBytes =
     protoSizeBytes + protoHeaderBytes + protoRouteBytes + protoSeqBytes + b64 + b64 + b64 + b64 + b16"
definition deliverResBytes :: int where
  "deliverResBytes =
     protoSizeBytes + protoHeaderBytes + protoRouteBytes + protoSeqBytes + protoCodeBytes"
definition deliverTraceContextFixedBytes :: int where
  "deliverTraceContextFixedBytes = b8 + b16 + b16"
definition deliverTraceContextVersion :: uint8 where
  "deliverTraceContextVersion = 1"
definition maxTraceContextFieldBytes :: int where
  "maxTraceContextFieldBytes = 2 ^ 16 - 1"

definition EncodeDeliverReqWithMetadata ::
    "Writer pools \<Rightarrow> uint64 \<Rightarrow> int64 \<Rightarrow> int64 \<Rightarrow> uint64 \<Rightarrow> RequestMetadata \<Rightarrow> nnode \<Rightarrow> nbuf res" where
  "EncodeDeliverReqWithMetadata ps seq cid uid generation metadata buf =
     (let correlationID = CorrelationID metadata;
          traceParent = TraceParent metadata;
          traceState = TraceState metadata;
          hasTraceContext = (traceParent \<noteq> [] \<and>
            int (length traceParent) \<le> maxTraceContextFieldBytes \<and>
            int (length traceState) \<le> maxTraceContextFieldBytes);
          (traceParent, traceState) =
            (if \<not> hasTraceContext then ([], []) else (traceParent, traceState));
          size = deliverReqBytes + int (length correlationID);
          (header, size) =
            (if hasTraceContext
             then (protoDataBit OR traceContextBit,
                   size + (deliverTraceContextFixedBytes + int (length traceParent) + int (length traceState)))
             else (protoDataBit, size));
          deadlineUnixMilli =
            (if \<not> Time_IsZero (Deadline metadata) then Time_UnixMilli (Deadline metadata) else 0)
      in case nn_Len buf of (blen, buf) \<Rightarrow>
         and_then (run_writes (MallocWriter ps size)
       ([\<lambda>w. WriteUint32s w BigEndian [word_of_int (size - protoSizeBytes + blen)],
         \<lambda>w. WriteUint8s w [header],
         \<lambda>w. WriteUint8s w [route_id Deliver],
         \<lambda>w. WriteUint64s w BigEndian [seq],
         \<lambda>w. WriteInt64s w BigEndian [cid, uid],
         \<lambda>w. WriteUint64s w BigEndian [generation],
         \<lambda>w. WriteInt64s w BigEndian [deadlineUnixMilli],
         \<lambda>w. WriteUint16s w BigEndian [word_of_nat (length correlationID)],
         \<lambda>w. WriteString w correlationID] @
        (if hasTraceContext
         then [\<lambda>w. WriteUint8s w [deliverTraceContextVersion],
               \<lambda>w. WriteUint16s w BigEndian
                     [word_of_nat (length traceParent), word_of_nat (length traceState)],
               \<lambda>w. WriteString w traceParent,
               \<lambda>w. WriteString w traceState]
         else [])))
       (\<lambda>writer. Ok (NewNocopyBuffer [MWriter writer, MNode buf])))"

definition EncodeDeliverReq ::
    "Writer pools \<Rightarrow> uint64 \<Rightarrow> int64 \<Rightarrow> int64 \<Rightarrow> uint64 \<Rightarrow> nnode \<Rightarrow> nbuf res" where
  "EncodeDeliverReq ps seq cid uid generation buf =
     EncodeDeliverReqWithMetadata ps seq cid uid generation zero_metadata buf"

text \<open>
  The trace context block of \<open>DecodeDeliverReqWithMetadata\<close> (lines 152--186): the two fields and
  the offset of the message.
\<close>

definition decode_trace_context ::
    "byte list \<Rightarrow> int \<Rightarrow> Reader \<Rightarrow> (gostring \<times> gostring \<times> int) res" where
  "decode_trace_context data messageOffset reader =
     (if int (length data) - messageOffset < deliverTraceContextFixedBytes then Err ErrInvalidMessage
      else and_then (ReadUint8 reader) (\<lambda>(version, reader).
        if version \<noteq> deliverTraceContextVersion then Err ErrInvalidMessage
        else and_then (ReadUint16 reader BigEndian) (\<lambda>(traceParentBytes, reader).
             and_then (ReadUint16 reader BigEndian) (\<lambda>(traceStateBytes, reader).
             let traceBytes = uint traceParentBytes + uint traceStateBytes
             in if traceParentBytes = 0 \<or>
                   int (length data) - messageOffset - deliverTraceContextFixedBytes < traceBytes
                then Err ErrInvalidMessage
                else and_then (ReadString reader (uint traceParentBytes)) (\<lambda>(traceParent, reader).
                     and_then (if 0 < traceStateBytes
                               then and_then (ReadString reader (uint traceStateBytes)) (\<lambda>(s, r). Ok s)
                               else Ok []) (\<lambda>traceState.
                     Ok (traceParent, traceState,
                         messageOffset + (deliverTraceContextFixedBytes + traceBytes))))))))"

definition DecodeDeliverReqWithMetadata ::
    "byte list \<Rightarrow> (uint64 \<times> int64 \<times> int64 \<times> uint64 \<times> RequestMetadata \<times> byte list) res" where
  "DecodeDeliverReqWithMetadata data =
     (if int (length data) < deliverReqBytes then Err ErrInvalidMessage
      else and_then (Seek (NewReader data) (protoSizeBytes + protoHeaderBytes + protoRouteBytes) SeekStart)
             (\<lambda>(_, reader).
      and_then (ReadUint64 reader BigEndian) (\<lambda>(seq, reader).
      and_then (ReadInt64 reader BigEndian) (\<lambda>(cid, reader).
      and_then (ReadInt64 reader BigEndian) (\<lambda>(uid, reader).
      and_then (ReadUint64 reader BigEndian) (\<lambda>(generation, reader).
      and_then (ReadInt64 reader BigEndian) (\<lambda>(deadlineUnixMilli, reader).
      let deadline = (if deadlineUnixMilli \<noteq> 0 then time_UnixMilli deadlineUnixMilli else zero_time) in
      and_then (ReadUint16 reader BigEndian) (\<lambda>(correlationBytes, reader).
      if int (length data) - deliverReqBytes < uint correlationBytes then Err ErrInvalidMessage
      else and_then (if 0 < correlationBytes then ReadString reader (uint correlationBytes)
                     else Ok ([], reader)) (\<lambda>(correlationID, reader).
      let messageOffset = deliverReqBytes + uint correlationBytes;
          header = data ! nat protoSizeBytes in
      and_then (if header AND traceContextBit = traceContextBit
                then decode_trace_context data messageOffset reader
                else Ok ([], [], messageOffset)) (\<lambda>(traceParent, traceState, messageOffset).
      and_then (slice_from data (nat messageOffset)) (\<lambda>message.
      Ok (seq, cid, uid, generation,
          \<lparr>Deadline = deadline, CorrelationID = correlationID,
           TraceParent = traceParent, TraceState = traceState\<rparr>, message))))))))))))"

definition DecodeDeliverReq ::
    "byte list \<Rightarrow> (uint64 \<times> int64 \<times> int64 \<times> uint64 \<times> byte list) res" where
  "DecodeDeliverReq data =
     and_then (DecodeDeliverReqWithMetadata data) (\<lambda>(seq, cid, uid, generation, _, message).
     Ok (seq, cid, uid, generation, message))"

definition EncodeDeliverRes :: "Writer pools \<Rightarrow> uint64 \<Rightarrow> uint16 \<Rightarrow> nbuf res" where
  "EncodeDeliverRes ps seq code = encode_code_res ps deliverResBytes Deliver seq code"

definition DecodeDeliverRes :: "byte list \<Rightarrow> uint16 res" where
  "DecodeDeliverRes data = decode_code_res deliverResBytes data"

section \<open>The messages arrive\<close>

lemma handshake_bytes:
  assumes "wpools_ok ps"
  shows "encodes (EncodeHandshakeReq ps seq k iid) (head_bytes (11 + int (length iid)) 0 Handshake @
    put_uint BigEndian 8 seq @ word_of_int k # iid)"
  unfolding EncodeHandshakeReq_def Let_def
  by (rule encodes_writer [OF assms], simp add: handshakeReqBytes_def, (rule emits_intros)+)
    (simp add: head_bytes_def handshakeReqBytes_def)

lemma handshake_req_delivers:
  assumes "wpools_ok ps" and "byte_range k" and "length iid + 15 < 2 ^ 32"
  shows "delivers (EncodeHandshakeReq ps seq k iid) Handshake seq DecodeHandshakeReq (seq, k, iid)"
  by (rule deliversI [OF handshake_bytes [OF assms(1)]])
    (use assms(3) ReadString_at [of iid "int (length iid)" _ "[]"] in
      \<open>simp_all add: DecodeHandshakeReq_def handshakeReqBytes_def decode_steps
        uint_byte_of_int [OF assms(2)]\<close>)

lemma trigger_bytes:
  assumes "wpools_ok ps"
  shows "encodes (EncodeTriggerReq ps seq event cid uid generation)
    (head_bytes (if uid = 0 then 19 else 35) 0 Trigger @ put_uint BigEndian 8 seq @
     word_of_int event # put_uint BigEndian 8 cid @
     (if uid \<noteq> 0 then put_uint BigEndian 8 uid @ put_uint BigEndian 8 generation else []))"
proof (cases "uid = 0")
  case True
  show ?thesis
    unfolding EncodeTriggerReq_def Let_def
    by (simp only: True simp_thms if_True if_False prod.case)
      (rule encodes_writer [OF assms], simp add: triggerReqBytes_def, (rule emits_intros)+,
        simp add: head_bytes_def triggerReqBytes_def)
next
  case False
  show ?thesis
    unfolding EncodeTriggerReq_def Let_def
    by (simp only: False simp_thms if_True if_False prod.case)
      (rule encodes_writer [OF assms], simp add: triggerReqBytes_def, (rule emits_intros)+,
        simp add: head_bytes_def triggerReqBytes_def)
qed

lemma trigger_req_delivers:
  assumes "wpools_ok ps" and "byte_range event"
  shows "delivers (EncodeTriggerReq ps seq event cid uid generation) Trigger seq DecodeTriggerReq
    (seq, event, cid, uid, if uid = 0 then 0 else generation)"
proof (rule deliversI [OF trigger_bytes [OF assms(1)]])
  show "DecodeTriggerReq
     (head_bytes (if uid = 0 then 19 else 35) 0 Trigger @ put_uint BigEndian 8 seq @
      word_of_int event # put_uint BigEndian 8 cid @
      (if uid \<noteq> 0 then put_uint BigEndian 8 uid @ put_uint BigEndian 8 generation else [])) =
    Ok (seq, event, cid, uid, if uid = 0 then 0 else generation)"
    by (cases "uid = 0")
      (simp_all add: DecodeTriggerReq_def triggerReqBytes_def decode_steps uint_byte_of_int [OF assms(2)])
qed simp_all

lemma getstate_bytes:
  assumes "wpools_ok ps"
  shows "encodes (EncodeGetStateReq ps seq) (head_bytes 10 0 GetState @ put_uint BigEndian 8 seq @ [])"
  unfolding EncodeGetStateReq_def
  by (rule encodes_writer [OF assms], simp add: getStateReqBytes_def, (rule emits_intros)+)
    (simp add: head_bytes_def getStateReqBytes_def)

lemma getstate_req_delivers:
  assumes "wpools_ok ps"
  shows "delivers (EncodeGetStateReq ps seq) GetState seq DecodeGetStateReq seq"
  by (rule deliversI [OF getstate_bytes [OF assms]])
    (use Seek_head [of 10 0 GetState "put_uint BigEndian 8 seq"] in
      \<open>simp_all add: DecodeGetStateReq_def getStateReqBytes_def decode_steps\<close>)

lemma getstate_res_bytes:
  assumes "wpools_ok ps"
  shows "encodes (EncodeGetStateRes ps seq code state) (head_bytes 13 0 GetState @
    put_uint BigEndian 8 seq @ put_uint BigEndian 2 code @ [word_of_int state])"
  unfolding EncodeGetStateRes_def
  by (rule encodes_writer [OF assms], simp add: getStateResBytes_def, (rule emits_intros)+)
    (simp add: head_bytes_def getStateResBytes_def)

lemma getstate_res_delivers:
  assumes "wpools_ok ps" and "byte_range state"
  shows "delivers (EncodeGetStateRes ps seq code state) GetState seq DecodeGetStateRes (code, state)"
  by (rule deliversI [OF getstate_res_bytes [OF assms(1)]])
    (simp_all add: DecodeGetStateRes_def getStateResBytes_def decode_steps uint_byte_of_int [OF assms(2)])

lemma setstate_bytes:
  assumes "wpools_ok ps"
  shows "encodes (EncodeSetStateReq ps seq state) (head_bytes 11 0 SetState @
    put_uint BigEndian 8 seq @ [word_of_int state])"
  unfolding EncodeSetStateReq_def
  by (rule encodes_writer [OF assms], simp add: setStateReqBytes_def, (rule emits_intros)+)
    (simp add: head_bytes_def setStateReqBytes_def)

lemma setstate_req_delivers:
  assumes "wpools_ok ps" and "byte_range state"
  shows "delivers (EncodeSetStateReq ps seq state) SetState seq DecodeSetStateReq (seq, state)"
  by (rule deliversI [OF setstate_bytes [OF assms(1)]])
    (simp_all add: DecodeSetStateReq_def setStateReqBytes_def decode_steps uint_byte_of_int [OF assms(2)])

text \<open>
  What arrives of the metadata of a request: a deadline of millisecond precision (the epoch itself
  counts as none), and a trace context only when it has a parent and both fields fit into 16 bits.
\<close>

definition trace_sent :: "RequestMetadata \<Rightarrow> bool" where
  "trace_sent md \<longleftrightarrow>
     TraceParent md \<noteq> [] \<and> length (TraceParent md) < 65536 \<and> length (TraceState md) < 65536"

definition deadline_ms :: "int \<Rightarrow> int64" where
  "deadline_ms d = (if \<not> Time_IsZero d then Time_UnixMilli d else 0)"

definition metadata_sent :: "RequestMetadata \<Rightarrow> RequestMetadata" where
  "metadata_sent md =
     \<lparr>Deadline = (if deadline_ms (Deadline md) \<noteq> 0 then time_UnixMilli (deadline_ms (Deadline md)) else zero_time),
      CorrelationID = CorrelationID md,
      TraceParent = (if trace_sent md then TraceParent md else []),
      TraceState = (if trace_sent md then TraceState md else [])\<rparr>"

lemma metadata_sent_id:
  assumes "TraceParent md = [] \<Longrightarrow> TraceState md = []"
    and "length (TraceParent md) < 65536" and "length (TraceState md) < 65536"
    and "Deadline md = zero_time \<or>
      (1000000 dvd Deadline md \<and> Deadline md \<noteq> 0 \<and> \<bar>Deadline md\<bar> < 2 ^ 63)"
  shows "metadata_sent md = md"
proof -
  have "(if deadline_ms (Deadline md) \<noteq> 0 then time_UnixMilli (deadline_ms (Deadline md)) else zero_time)
      = Deadline md"
  proof (cases "Deadline md = zero_time")
    case True
    then show ?thesis by (simp add: deadline_ms_def Time_IsZero_def)
  next
    case False
    obtain ms where ms: "Deadline md = 1000000 * ms"
      using False assms(4) by auto
    have "sint (word_of_int ms :: int64) = ms"
      using False assms(4) ms by (auto simp: sint_sbintrunc' intro: signed_take_bit_int_eq_self)
    moreover have "ms \<noteq> 0"
      using False assms(4) ms by auto
    ultimately show ?thesis
      using False ms by (auto simp: deadline_ms_def Time_IsZero_def Time_UnixMilli_def time_UnixMilli_def)
  qed
  then show ?thesis
    using assms(1-3) by (auto simp: metadata_sent_def trace_sent_def)
qed

definition trace_bytes :: "RequestMetadata \<Rightarrow> byte list" where
  "trace_bytes md =
     (if trace_sent md
      then 1 # put_uint BigEndian 2 (word_of_nat (length (TraceParent md)) :: uint16) @
           put_uint BigEndian 2 (word_of_nat (length (TraceState md)) :: uint16) @
           TraceParent md @ TraceState md
      else [])"

definition deliver_head :: "RequestMetadata \<Rightarrow> nat \<Rightarrow> byte list" where
  "deliver_head md n =
     head_bytes (44 + int (length (CorrelationID md) + length (trace_bytes md) + n))
       (if trace_sent md then 32 else 0) Deliver"

lemma trace_sent_iff:
  "(TraceParent md \<noteq> [] \<and> int (length (TraceParent md)) \<le> maxTraceContextFieldBytes \<and>
     int (length (TraceState md)) \<le> maxTraceContextFieldBytes) = trace_sent md"
  by (auto simp: trace_sent_def maxTraceContextFieldBytes_def)

lemma deliver_bytes:
  assumes "wpools_ok ps" and "nn_wf msg"
  shows "encodes (EncodeDeliverReqWithMetadata ps seq cid uid generation md msg)
    (deliver_head md (length (nn_data msg)) @ put_uint BigEndian 8 seq @ put_uint BigEndian 8 cid @
     put_uint BigEndian 8 uid @ put_uint BigEndian 8 generation @
     put_uint BigEndian 8 (deadline_ms (Deadline md)) @
     put_uint BigEndian 2 (word_of_nat (length (CorrelationID md)) :: uint16) @ CorrelationID md @
     trace_bytes md @ nn_data msg)"
proof -
  obtain m' where m: "nn_Len msg = (int (length (nn_data msg)), m')" "nn_wf m'" "nn_data m' = nn_data msg"
    using message_Len [OF assms(2)] .
  show ?thesis
  proof (cases "trace_sent md")
    case True
    show ?thesis
      unfolding EncodeDeliverReqWithMetadata_def Let_def m(1) trace_sent_iff
      by (simp only: True simp_thms if_True if_False prod.case)
        (rule encodes_message [OF assms(1) _ m(2)],
          simp add: deliverReqBytes_def deliverTraceContextFixedBytes_def, (rule emits_intros)+,
          simp add: head_bytes_def deliver_head_def deliverReqBytes_def trace_bytes_def True m(3)
            deliverTraceContextFixedBytes_def deliverTraceContextVersion_def deadline_ms_def algebra_simps)
  next
    case False
    show ?thesis
      unfolding EncodeDeliverReqWithMetadata_def Let_def m(1) trace_sent_iff
      by (simp only: False simp_thms if_True if_False prod.case)
        (rule encodes_message [OF assms(1) _ m(2)],
          simp add: deliverReqBytes_def, (rule emits_intros)+,
          simp add: head_bytes_def deliver_head_def deliverReqBytes_def trace_bytes_def False m(3)
            deadline_ms_def algebra_simps)
  qed
qed

lemma trace_context_decodes:
  assumes "trace_sent md" and "length pre = off" and "off + length (trace_bytes md) + length m < 2 ^ 32"
  shows "decode_trace_context (pre @ trace_bytes md @ m) (int off) (reader_at pre (trace_bytes md @ m)) =
    Ok (TraceParent md, TraceState md, int (off + length (trace_bytes md)))"
proof -
  let ?p = "word_of_nat (length (TraceParent md)) :: uint16"
  let ?s = "word_of_nat (length (TraceState md)) :: uint16"
  have t: "trace_bytes md = 1 # put_uint BigEndian 2 ?p @ put_uint BigEndian 2 ?s @ TraceParent md @ TraceState md"
    using assms(1) by (simp add: trace_bytes_def)
  have p: "uint ?p = int (length (TraceParent md))" and s: "uint ?s = int (length (TraceState md))"
    using assms(1) by (simp_all add: trace_sent_def offset16(1))
  have nz: "?p \<noteq> 0" "(0 < ?s) = (TraceState md \<noteq> [])"
    using assms(1) p s by (auto simp: trace_sent_def word_less_def)
  show ?thesis
    using assms(2,3) nz unfolding t
    by (simp add: decode_trace_context_def deliverTraceContextFixedBytes_def
      deliverTraceContextVersion_def reads_at fits_def p s ReadString_at Let_def)
qed

lemma head_nth: "(head_bytes sz hdr r @ xs) ! 4 = hdr"
  by (simp add: head_bytes_def nth_append)

lemma deliver_decodes:
  assumes "length (CorrelationID md) < 65536" and "length m + 300000 < 2 ^ 32"
  shows "DecodeDeliverReqWithMetadata
    (deliver_head md n @ put_uint BigEndian 8 seq @ put_uint BigEndian 8 cid @
     put_uint BigEndian 8 uid @ put_uint BigEndian 8 generation @
     put_uint BigEndian 8 (deadline_ms (Deadline md)) @
     put_uint BigEndian 2 (word_of_nat (length (CorrelationID md)) :: uint16) @ CorrelationID md @
     trace_bytes md @ m) = Ok (seq, cid, uid, generation, metadata_sent md, m)"
    (is "DecodeDeliverReqWithMetadata ?d = _")
proof -
  let ?hdr = "if trace_sent md then 32 else 0 :: uint8"
  let ?c = "word_of_nat (length (CorrelationID md)) :: uint16"
  define pre where "pre = deliver_head md n @ put_uint BigEndian 8 seq @ put_uint BigEndian 8 cid @
     put_uint BigEndian 8 uid @ put_uint BigEndian 8 generation @
     put_uint BigEndian 8 (deadline_ms (Deadline md)) @ put_uint BigEndian 2 ?c"
  define D where "D = ?d"
  have hl: "length (deliver_head md n) = 6"
    by (simp add: deliver_head_def)
  have pre: "length pre = 48" and d: "D = (pre @ CorrelationID md) @ trace_bytes md @ m"
    by (simp_all add: pre_def D_def hl)
  have tl: "length (trace_bytes md) < 131080"
    by (auto simp: trace_bytes_def trace_sent_def)
  have c: "uint ?c = int (length (CorrelationID md))"
    by (rule offset16(1) [OF assms(1)])
  have corr: "(if 0 < ?c then ReadString (reader_at pre (CorrelationID md @ post)) (uint ?c)
       else Ok ([], reader_at pre (CorrelationID md @ post))) =
      Ok (CorrelationID md, reader_at (pre @ CorrelationID md) post)" for post
    using c assms(1) by (auto simp: word_less_def ReadString_at fits_def pre)
  have hdr: "D ! 4 = ?hdr"
    by (simp add: D_def deliver_head_def head_nth)
  have tr: "(if ?hdr AND 32 = 32
       then decode_trace_context D (48 + int (length (CorrelationID md)))
         (reader_at (pre @ CorrelationID md) (trace_bytes md @ m))
       else Ok ([], [], 48 + int (length (CorrelationID md)))) =
      Ok (TraceParent (metadata_sent md), TraceState (metadata_sent md),
        int (48 + length (CorrelationID md) + length (trace_bytes md)))"
  proof (cases "trace_sent md")
    case True
    then show ?thesis
      using trace_context_decodes [OF True, of "pre @ CorrelationID md" "48 + length (CorrelationID md)" m]
        pre assms tl by (simp add: d metadata_sent_def)
  qed (simp add: metadata_sent_def trace_bytes_def)
  have sl: "slice_from D (48 + length (CorrelationID md) + length (trace_bytes md)) = Ok m"
    using slice_from_append [of "(pre @ CorrelationID md) @ trace_bytes md" _ m] pre
    by (simp add: d add.assoc)
  have seek: "Seek (NewReader D) 6 SeekStart = Ok (6, reader_at (deliver_head md n)
      (put_uint BigEndian 8 seq @ put_uint BigEndian 8 cid @ put_uint BigEndian 8 uid @
       put_uint BigEndian 8 generation @ put_uint BigEndian 8 (deadline_ms (Deadline md)) @
       put_uint BigEndian 2 ?c @ CorrelationID md @ trace_bytes md @ m))"
    unfolding D_def deliver_head_def by (rule Seek_head)
  have len: "int (length D) = 48 + int (length (CorrelationID md) + length (trace_bytes md) + length m)"
    by (simp add: d pre)
  have "DecodeDeliverReqWithMetadata D = Ok (seq, cid, uid, generation, metadata_sent md, m)"
    using seek hdr tr sl
    by (simp add: DecodeDeliverReqWithMetadata_def deliverReqBytes_def len reads_at fits_def hl
      pre_def [symmetric] corr c Let_def nat_add_distrib) (simp add: metadata_sent_def)
  then show ?thesis
    by (simp add: D_def)
qed

lemma deliver_req_delivers:
  assumes "wpools_ok ps" and "nn_wf msg" and "length (CorrelationID md) < 65536"
    and "length (nn_data msg) + 300000 < 2 ^ 32"
  shows "delivers (EncodeDeliverReqWithMetadata ps seq cid uid generation md msg) Deliver seq
    DecodeDeliverReqWithMetadata (seq, cid, uid, generation, metadata_sent md, nn_data msg)"
proof (rule deliversI [OF deliver_bytes [OF assms(1,2), unfolded deliver_head_def]])
  have "length (trace_bytes md) < 131080"
    by (auto simp: trace_bytes_def trace_sent_def)
  then show "length (put_uint BigEndian 8 cid @ put_uint BigEndian 8 uid @
      put_uint BigEndian 8 generation @ put_uint BigEndian 8 (deadline_ms (Deadline md)) @
      put_uint BigEndian 2 (word_of_nat (length (CorrelationID md)) :: uint16) @ CorrelationID md @
      trace_bytes md @ nn_data msg) + 14 < 2 ^ 32"
    using assms(3,4) by simp
qed (use deliver_decodes [OF assms(3,4)] in \<open>simp_all add: deliver_head_def\<close>)

section \<open>Properties\<close>

text \<open>
  the control requests between servers arrive: handshake with kind and instance id, event triggers with
  connection, user and generation (no generation travels without a user), and the state query and update.
\<close>

lemma node_requests_delivered:
  assumes "wpools_ok ps" and "byte_range k" and "length iid + 15 < 2 ^ 32"
  shows "delivers (EncodeHandshakeReq ps seq k iid) Handshake seq DecodeHandshakeReq (seq, k, iid) \<and>
    delivers (EncodeTriggerReq ps seq k cid uid generation) Trigger seq DecodeTriggerReq
      (seq, k, cid, uid, if uid = 0 then 0 else generation) \<and>
    delivers (EncodeGetStateReq ps seq) GetState seq DecodeGetStateReq seq \<and>
    delivers (EncodeGetStateRes ps seq code k) GetState seq DecodeGetStateRes (code, k) \<and>
    delivers (EncodeSetStateReq ps seq k) SetState seq DecodeSetStateReq (seq, k)"
  by (intro conjI handshake_req_delivers trigger_req_delivers getstate_req_delivers getstate_res_delivers
      setstate_req_delivers assms)

lemma node_requests_delivered_witness:
  "delivers (EncodeTriggerReq fresh_pools 8 3 12 77 5) Trigger 8 DecodeTriggerReq (8, 3, 12, 77, 5)"
  using node_requests_delivered [OF fresh_pools_ok, of 3 "[]" 8 12 77 5] by (simp add: byte_range_def)

text \<open>
  a client message delivered to a node arrives unchanged together with its request metadata: connection,
  user, ownership generation, message bytes, correlation id, a deadline of millisecond precision and the
  trace context (which must have a parent when it has a state).
\<close>

lemma deliver_request_delivered:
  assumes "wpools_ok ps" and "nn_wf msg" and "length (nn_data msg) + 300000 < 2 ^ 32"
    and "length (CorrelationID md) < 65536"
    and "TraceParent md = [] \<Longrightarrow> TraceState md = []"
    and "length (TraceParent md) < 65536" and "length (TraceState md) < 65536"
    and "Deadline md = zero_time \<or>
      (1000000 dvd Deadline md \<and> Deadline md \<noteq> 0 \<and> \<bar>Deadline md\<bar> < 2 ^ 63)"
  shows "delivers (EncodeDeliverReqWithMetadata ps seq cid uid generation md msg) Deliver seq
    DecodeDeliverReqWithMetadata (seq, cid, uid, generation, md, nn_data msg)"
  using deliver_req_delivers [OF assms(1,2,4,3), of seq cid uid generation]
    metadata_sent_id [OF assms(5) assms(6,7,8)] by simp

lemma deliver_request_delivered_witness:
  "let md = \<lparr>Deadline = 1700000000000000000, CorrelationID = [97], TraceParent = [48, 48], TraceState = []\<rparr>
   in delivers (EncodeDeliverReqWithMetadata fresh_pools 1 12 77 5 md (NNode (BRaw [1, 2]))) Deliver 1
        DecodeDeliverReqWithMetadata (1, 12, 77, 5, md, nn_data (NNode (BRaw [1, 2])))"
  unfolding Let_def
  by (rule deliver_request_delivered [OF fresh_pools_ok])
    (simp_all add: block_ok_def nn_data_def block_data_def)

end
