(* ===== verification/Rpc.thy ===== *)
theory Rpc
  imports Protocol_Node
begin

text \<open>
  Remote calls between the servers: the clients \<open>internal/transporter/gate/client.go\<close> and
  \<open>internal/transporter/node/client.go\<close>, the handlers \<open>internal/transporter/gate/server.go\<close> and
  \<open>internal/transporter/node/server.go\<close>, and the read loop of a server connection
  (\<open>internal/transporter/internal/server/conn.go\<close>) that dispatches to them.  The provider behind a
  server is a record of functions on a state; the transport under a client is a function that takes
  the request buffer and returns the response, so that the two ends can be put together.
\<close>

section \<open>Sequence numbers\<close>

text \<open>\<open>doGenSequence\<close>: add one until the result is not zero.\<close>

function doGenSequence :: "uint64 \<Rightarrow> uint64" where
  "doGenSequence c = (let seq = c + 1 in if seq \<noteq> 0 then seq else doGenSequence seq)"
  by pat_completeness auto

termination doGenSequence
proof (relation "measure (\<lambda>c. if c = - 1 then 1 else 0)")
  fix c seq :: uint64
  assume "seq = c + 1" and "\<not> seq \<noteq> 0"
  then have "c = - 1" and "seq = 0"
    by (simp_all add: eq_neg_iff_add_eq_0)
  then show "(seq, c) \<in> measure (\<lambda>c. if c = - 1 then 1 else 0)"
    by simp
qed simp

declare doGenSequence.simps [simp del]

lemma doGenSequence_eq: "doGenSequence c = (if c = - 1 then 1 else c + 1)"
proof (cases "c = - 1")
  case True
  have "doGenSequence 0 = 1"
    by (subst doGenSequence.simps) simp
  then show ?thesis
    using True by (subst doGenSequence.simps) simp
next
  case False
  then have "c + 1 \<noteq> 0"
    by (simp add: eq_neg_iff_add_eq_0)
  then show ?thesis
    using False by (subst doGenSequence.simps) (simp add: Let_def)
qed

lemma doGenSequence_nonzero: "doGenSequence c \<noteq> 0"
  by (auto simp: doGenSequence_eq eq_neg_iff_add_eq_0)

section \<open>The client side of the gate protocol\<close>

text \<open>
  \<open>call\<close> is \<open>Call\<close> of the transport client: it takes the sequence number and the request, and the
  state of the other side; it returns the bytes of the response or an error.  \<open>send\<close> is \<open>Send\<close>.
  A method returns the sequence counter, the state of the other side and the result.
\<close>

type_synonym 'n calls = "'n \<Rightarrow> uint64 \<Rightarrow> nbuf \<Rightarrow> 'n \<times> byte list res"
type_synonym 'n sends = "'n \<Rightarrow> nbuf \<Rightarrow> int64 list \<Rightarrow> 'n \<times> goerror option"

definition of_error :: "goerror option \<Rightarrow> 'a \<Rightarrow> 'a res" where
  "of_error err v = (case err of None \<Rightarrow> Ok v | Some e \<Rightarrow> Err e)"

text \<open>The common body: encode, call, decode, turn the code into an error.\<close>

definition roundtrip ::
    "'n calls \<Rightarrow> 'n \<Rightarrow> uint64 \<Rightarrow> nbuf res \<Rightarrow> (byte list \<Rightarrow> 'r res) \<Rightarrow> ('r \<Rightarrow> 'v res) \<Rightarrow> uint64 \<times> 'n \<times> 'v res" where
  "roundtrip call n seq enc dec fin =
     (case enc of
        Ok buf \<Rightarrow> (case call n seq buf of (n, res) \<Rightarrow> (seq, n, and_then res (\<lambda>data. and_then (dec data) fin)))
      | Err e \<Rightarrow> (seq, n, Err e)
      | Panic \<Rightarrow> (seq, n, Panic))"

definition send_buf :: "'n sends \<Rightarrow> 'n \<Rightarrow> uint64 \<Rightarrow> nbuf res \<Rightarrow> int64 list \<Rightarrow> 'v \<Rightarrow> uint64 \<times> 'n \<times> 'v res" where
  "send_buf send n c enc idx v =
     (case enc of
        Ok buf \<Rightarrow> (case send n buf idx of (n, err) \<Rightarrow> (c, n, of_error err v))
      | Err e \<Rightarrow> (c, n, Err e)
      | Panic \<Rightarrow> (c, n, Panic))"

definition code_only :: "uint16 \<Rightarrow> unit res" where
  "code_only code = of_error (CodeToError code) ()"

definition code_value :: "uint16 \<times> 'v \<Rightarrow> 'v res" where
  "code_value r = (case r of (code, v) \<Rightarrow> of_error (CodeToError code) v)"




definition gc_Stat where
  "gc_Stat ps call n c kind =
     (let seq = doGenSequence c
      in roundtrip call n seq (EncodeStatReq ps seq kind) DecodeStatRes code_value)"







definition gc_Publish where
  "gc_Publish ps call send n c channel disconnect message ack =
     (if length channel > 2 ^ 8 - 1 then (c, n, Err ErrInvalidArgument)
      else if ack then
        let seq = doGenSequence c
        in roundtrip call n seq (EncodePublishReq ps seq channel disconnect message)
             DecodePublishRes code_value
      else send_buf send n c (EncodePublishReq ps 0 channel disconnect message) [] 0)"



definition gc_GetState where
  "gc_GetState ps call n c =
     (let seq = doGenSequence c
      in roundtrip call n seq (EncodeGetStateReq ps seq) DecodeGetStateRes code_value)"


section \<open>The client side of the node protocol\<close>


definition nc_DeliverWithMetadata where
  "nc_DeliverWithMetadata ps send n c cid uid token metadata buf =
     send_buf send n c (EncodeDeliverReqWithMetadata ps 0 cid uid (Generation token) metadata buf) [cid] ()"

definition nc_Deliver where
  "nc_Deliver ps send n c cid uid token buf =
     nc_DeliverWithMetadata ps send n c cid uid token zero_metadata buf"

section \<open>Handlers of the gate server\<close>

text \<open>The provider interface; \<open>context.Background()\<close> never ends and is left out.\<close>

record 'p GateProvider =
  pBind :: "'p \<Rightarrow> int64 \<Rightarrow> int64 \<Rightarrow> 'p \<times> goerror option"
  pUnbind :: "'p \<Rightarrow> int64 \<Rightarrow> 'p \<times> goerror option"
  pGetIP :: "'p \<Rightarrow> Kind \<Rightarrow> int64 \<Rightarrow> 'p \<times> gostring \<times> goerror option"
  pIsOnline :: "'p \<Rightarrow> Kind \<Rightarrow> int64 \<Rightarrow> 'p \<times> bool \<times> goerror option"
  pStat :: "'p \<Rightarrow> Kind \<Rightarrow> 'p \<times> int64 \<times> goerror option"
  pDisconnect :: "'p \<Rightarrow> Kind \<Rightarrow> int64 \<Rightarrow> bool \<Rightarrow> 'p \<times> goerror option"
  pDisconnectCurrent :: "'p \<Rightarrow> Kind \<Rightarrow> int64 \<Rightarrow> Token \<Rightarrow> bool \<Rightarrow> 'p \<times> goerror option"
  pPush :: "'p \<Rightarrow> Kind \<Rightarrow> int64 \<Rightarrow> bool \<Rightarrow> Token \<Rightarrow> byte list \<Rightarrow> 'p \<times> goerror option"
  pMulticast :: "'p \<Rightarrow> Kind \<Rightarrow> int64 list \<Rightarrow> bool \<Rightarrow> byte list \<Rightarrow> 'p \<times> int64 \<times> goerror option"
  pBroadcast :: "'p \<Rightarrow> Kind \<Rightarrow> bool \<Rightarrow> byte list \<Rightarrow> 'p \<times> int64 \<times> goerror option"
  pPublish :: "'p \<Rightarrow> gostring \<Rightarrow> bool \<Rightarrow> byte list \<Rightarrow> 'p \<times> int64 \<times> goerror option"
  pSubscribe :: "'p \<Rightarrow> Kind \<Rightarrow> int64 list \<Rightarrow> gostring \<Rightarrow> 'p \<times> goerror option"
  pUnsubscribe :: "'p \<Rightarrow> Kind \<Rightarrow> int64 list \<Rightarrow> gostring \<Rightarrow> 'p \<times> goerror option"
  pGetState :: "'p \<Rightarrow> 'p \<times> int \<times> goerror option"
  pSetState :: "'p \<Rightarrow> int \<Rightarrow> 'p \<times> goerror option"

text \<open>A handler puts a response into the write queue, or returns, or panics.\<close>

datatype handled = Sent nbuf | Returned "goerror option" | HandlerPanic

text \<open>What the handlers know of the connection (\<open>InsKind\<close>, \<open>InsID\<close>), and whether it is open.\<close>

record srv_conn =
  sc_opened :: bool
  InsKind :: int
  InsID :: gostring

type_synonym 'p handler = "srv_conn \<Rightarrow> 'p \<Rightarrow> byte list \<Rightarrow> srv_conn \<times> 'p \<times> handled"

definition respond :: "nbuf res \<Rightarrow> handled" where
  "respond m = (case m of Ok b \<Rightarrow> Sent b | Err e \<Rightarrow> Returned (Some e) | Panic \<Rightarrow> HandlerPanic)"

definition answer :: "uint64 \<Rightarrow> goerror option \<Rightarrow> nbuf res \<Rightarrow> handled" where
  "answer seq err m = (if seq = 0 then Returned err else respond m)"

text \<open>A request that cannot be decoded is dropped with the error.\<close>

definition decoded :: "'r res \<Rightarrow> srv_conn \<Rightarrow> 'p \<Rightarrow> ('r \<Rightarrow> srv_conn \<times> 'p \<times> handled) \<Rightarrow> srv_conn \<times> 'p \<times> handled" where
  "decoded r conn p f =
     (case r of Ok v \<Rightarrow> f v | Err e \<Rightarrow> (conn, p, Returned (Some e)) | Panic \<Rightarrow> (conn, p, HandlerPanic))"

definition gs_bind :: "Writer pools \<Rightarrow> ('p, 'z) GateProvider_scheme \<Rightarrow> 'p handler" where
  "gs_bind ps P conn p data =
     decoded (DecodeBindReq data) conn p (\<lambda>(seq, cid, uid).
       case pBind P p cid uid of
         (p, err) \<Rightarrow> (conn, p, answer seq err (EncodeBindRes ps seq (ErrorToCode err))))"

definition gs_unbind :: "Writer pools \<Rightarrow> ('p, 'z) GateProvider_scheme \<Rightarrow> 'p handler" where
  "gs_unbind ps P conn p data =
     decoded (DecodeUnbindReq data) conn p (\<lambda>(seq, uid).
       case pUnbind P p uid of
         (p, err) \<Rightarrow> (conn, p, answer seq err (EncodeUnbindRes ps seq (ErrorToCode err))))"

definition gs_getIP :: "Writer pools \<Rightarrow> (gostring \<Rightarrow> byte list) \<Rightarrow> ('p, 'z) GateProvider_scheme \<Rightarrow> 'p handler" where
  "gs_getIP ps to4 P conn p data =
     decoded (DecodeGetIPReq data) conn p (\<lambda>(seq, kind, target).
       case pGetIP P p kind target of
         (p, ip, err) \<Rightarrow> (conn, p, answer seq err (EncodeGetIPRes ps to4 seq (ErrorToCode err) [ip])))"

definition gs_stat :: "Writer pools \<Rightarrow> ('p, 'z) GateProvider_scheme \<Rightarrow> 'p handler" where
  "gs_stat ps P conn p data =
     decoded (DecodeStatReq data) conn p (\<lambda>(seq, kind).
       case pStat P p kind of
         (p, tot, err) \<Rightarrow> (conn, p, answer seq err (EncodeStatRes ps seq (ErrorToCode err) [tot])))"

definition gs_isOnline :: "Writer pools \<Rightarrow> ('p, 'z) GateProvider_scheme \<Rightarrow> 'p handler" where
  "gs_isOnline ps P conn p data =
     decoded (DecodeIsOnlineReq data) conn p (\<lambda>(seq, kind, target).
       case pIsOnline P p kind target of
         (p, isOnline, err) \<Rightarrow> (conn, p, answer seq err (EncodeIsOnlineRes ps seq (ErrorToCode err) isOnline)))"

definition gs_disconnect :: "Writer pools \<Rightarrow> ('p, 'z) GateProvider_scheme \<Rightarrow> 'p handler" where
  "gs_disconnect ps P conn p data =
     decoded (DecodeDisconnectReqWithToken data) conn p (\<lambda>(seq, kind, target, force, token).
       case (if token = zero_token then pDisconnect P p kind target force
             else pDisconnectCurrent P p kind target token force) of
         (p, err) \<Rightarrow> (conn, p, answer seq err (EncodeDisconnectRes ps seq (ErrorToCode err))))"

definition gs_push :: "Writer pools \<Rightarrow> ('p, 'z) GateProvider_scheme \<Rightarrow> 'p handler" where
  "gs_push ps P conn p data =
     decoded (DecodePushReq data) conn p (\<lambda>(seq, kind, target, disconnect, token, message).
       case pPush P p kind target disconnect token message of
         (p, err) \<Rightarrow> (conn, p, answer seq err (EncodePushRes ps seq (ErrorToCode err))))"

definition gs_multicast :: "Writer pools \<Rightarrow> ('p, 'z) GateProvider_scheme \<Rightarrow> 'p handler" where
  "gs_multicast ps P conn p data =
     decoded (DecodeMulticastReq data) conn p (\<lambda>(seq, kind, targets, disconnect, message).
       case pMulticast P p kind targets disconnect message of
         (p, tot, err) \<Rightarrow> (conn, p, answer seq err (EncodeMulticastRes ps seq (ErrorToCode err) [tot])))"

definition gs_broadcast :: "Writer pools \<Rightarrow> ('p, 'z) GateProvider_scheme \<Rightarrow> 'p handler" where
  "gs_broadcast ps P conn p data =
     decoded (DecodeBroadcastReq data) conn p (\<lambda>(seq, kind, disconnect, message).
       case pBroadcast P p kind disconnect message of
         (p, tot, err) \<Rightarrow> (conn, p, answer seq err (EncodeBroadcastRes ps seq (ErrorToCode err) [tot])))"

definition gs_publish :: "Writer pools \<Rightarrow> ('p, 'z) GateProvider_scheme \<Rightarrow> 'p handler" where
  "gs_publish ps P conn p data =
     decoded (DecodePublishReq data) conn p (\<lambda>(seq, channel, disconnect, message).
       case pPublish P p channel disconnect message of
         (p, tot, err) \<Rightarrow> (conn, p, answer seq err (EncodePublishRes ps seq (ErrorToCode err) [tot])))"

definition gs_subscribe :: "Writer pools \<Rightarrow> ('p, 'z) GateProvider_scheme \<Rightarrow> 'p handler" where
  "gs_subscribe ps P conn p data =
     decoded (DecodeSubscribeReq data) conn p (\<lambda>(seq, kind, targets, channel).
       case pSubscribe P p kind targets channel of
         (p, err) \<Rightarrow> (conn, p, answer seq err (EncodeSubscribeRes ps seq (ErrorToCode err))))"

definition gs_unsubscribe :: "Writer pools \<Rightarrow> ('p, 'z) GateProvider_scheme \<Rightarrow> 'p handler" where
  "gs_unsubscribe ps P conn p data =
     decoded (DecodeUnsubscribeReq data) conn p (\<lambda>(seq, kind, targets, channel).
       case pUnsubscribe P p kind targets channel of
         (p, err) \<Rightarrow> (conn, p, answer seq err (EncodeUnsubscribeRes ps seq (ErrorToCode err))))"

definition gs_getState :: "Writer pools \<Rightarrow> ('p, 'z) GateProvider_scheme \<Rightarrow> 'p handler" where
  "gs_getState ps P conn p data =
     decoded (DecodeGetStateReq data) conn p (\<lambda>seq.
       case pGetState P p of
         (p, state, err) \<Rightarrow> (conn, p, answer seq err (EncodeGetStateRes ps seq (ErrorToCode err) state)))"

definition gs_setState :: "Writer pools \<Rightarrow> ('p, 'z) GateProvider_scheme \<Rightarrow> 'p handler" where
  "gs_setState ps P conn p data =
     decoded (DecodeSetStateReq data) conn p (\<lambda>(seq, state).
       case pSetState P p state of
         (p, err) \<Rightarrow> (conn, p, answer seq err (EncodeSetStateRes ps seq (ErrorToCode err))))"

section \<open>The server\<close>

text \<open>\<open>handshake\<close> of the transport server, registered by \<open>NewServer\<close>; \<open>err\<close> is nil there.\<close>

definition srv_handshake :: "Writer pools \<Rightarrow> 'p handler" where
  "srv_handshake ps conn p data =
     decoded (DecodeHandshakeReq data) conn p (\<lambda>(seq, insKind, insID).
       (conn\<lparr>InsKind := insKind, InsID := insID\<rparr>, p, respond (EncodeHandshakeRes ps seq (ErrorToCode None))))"

definition RegisterHandler ::
    "(uint8 \<rightharpoonup> 'p handler) \<Rightarrow> uint8 \<Rightarrow> 'p handler \<Rightarrow> (uint8 \<rightharpoonup> 'p handler)" where
  "RegisterHandler hs r h = hs(r \<mapsto> h)"

definition transport_handlers :: "Writer pools \<Rightarrow> (uint8 \<rightharpoonup> 'p handler)" where
  "transport_handlers ps = RegisterHandler (\<lambda>_. None) (route_id Handshake) (srv_handshake ps)"

definition gate_handlers ::
    "Writer pools \<Rightarrow> (gostring \<Rightarrow> byte list) \<Rightarrow> ('p, 'z) GateProvider_scheme \<Rightarrow> (uint8 \<rightharpoonup> 'p handler)" where
  "gate_handlers ps to4 P =
     foldl (\<lambda>hs (r, h). RegisterHandler hs (route_id r) h) (transport_handlers ps)
       [(Bind, gs_bind ps P), (Unbind, gs_unbind ps P), (GetIP, gs_getIP ps to4 P), (Stat, gs_stat ps P),
        (IsOnline, gs_isOnline ps P), (Disconnect, gs_disconnect ps P), (Push, gs_push ps P),
        (Multicast, gs_multicast ps P), (Broadcast, gs_broadcast ps P), (Publish, gs_publish ps P),
        (Subscribe, gs_subscribe ps P), (Unsubscribe, gs_unsubscribe ps P), (GetState, gs_getState ps P),
        (SetState, gs_setState ps P)]"

text \<open>
  One round of the read loop of a server connection on the bytes that have arrived.  An error of the
  reader closes the connection; a handler's error is only logged.
\<close>

definition srv_read ::
    "(uint8 \<rightharpoonup> 'p handler) \<Rightarrow> srv_conn \<Rightarrow> 'p \<Rightarrow> byte list \<Rightarrow> srv_conn \<times> 'p \<times> handled \<times> byte list" where
  "srv_read hs conn p s =
     (case Proto_ReadMessage s of
        Ok ((isHeartbeat, rt, _, data), s) \<Rightarrow>
          if \<not> sc_opened conn then (conn, p, Returned None, s)
          else if isHeartbeat then (conn, p, Returned None, s)
          else (case hs rt of
                  None \<Rightarrow> (conn, p, Returned None, s)
                | Some handler \<Rightarrow> (case handler conn p data of (conn, p, r) \<Rightarrow> (conn, p, r, s)))
      | Err e \<Rightarrow> (conn\<lparr>sc_opened := False\<rparr>, p, Returned (Some e), s)
      | Panic \<Rightarrow> (conn, p, HandlerPanic, s))"

section \<open>Handlers of the node server\<close>








section \<open>The two ends together\<close>

text \<open>
  The read loop of the client on the response bytes: a frame with another sequence number finds no
  pending call and is released, and the caller waits until its context ends.
\<close>

definition no_answer :: goerror where
  "no_answer = ErrOther ''context deadline exceeded''"

definition receive :: "Bytes pools \<Rightarrow> uint64 \<Rightarrow> byte list \<Rightarrow> byte list res" where
  "receive bps seq s =
     (case ReaderBuffer bps s of
        Ok ((buf, _), _) \<Rightarrow>
          (case Bytes_Bytes (Some buf) of
             Ok data \<Rightarrow>
               (case ParseBuffer data [] of
                  Ok (isHeartbeat, _, sq) \<Rightarrow> if \<not> isHeartbeat \<and> sq = seq then Ok data else Err no_answer
                | Err e \<Rightarrow> Err e
                | Panic \<Rightarrow> Panic)
           | Err e \<Rightarrow> Err e
           | Panic \<Rightarrow> Panic)
      | Err e \<Rightarrow> Err no_answer
      | Panic \<Rightarrow> Panic)"

definition over_wire :: "Bytes pools \<Rightarrow> (uint8 \<rightharpoonup> 'p handler) \<Rightarrow> (srv_conn \<times> 'p) calls" where
  "over_wire bps hs n seq buf =
     (case srv_read hs (fst n) (snd n) (wire buf) of
        (conn, p, Sent b, _) \<Rightarrow> ((conn, p), receive bps seq (wire b))
      | (conn, p, _, _) \<Rightarrow> ((conn, p), Err no_answer))"

definition one_way :: "(uint8 \<rightharpoonup> 'p handler) \<Rightarrow> (srv_conn \<times> 'p) sends" where
  "one_way hs n buf idx =
     (case srv_read hs (fst n) (snd n) (wire buf) of (conn, p, _, _) \<Rightarrow> ((conn, p), None))"

section \<open>Frames on both sides\<close>

lemma take_patch:
  assumes "at + length bs \<le> k" and "k \<le> length a"
  shows "take k (take at a @ bs @ drop (at + length bs) a) = take at (take k a) @ bs @ drop (at + length bs) (take k a)"
  using assms by (cases "k = at") (auto simp: drop_take min_def)

lemma Bytes_fill:
  assumes "Bytes_Bytes (Some b) = Ok data" and "at + length bs \<le> length data"
  shows "Bytes_Bytes (Some (bytes_fill b at bs)) = Ok (take at data @ bs @ drop (at + length bs) data)"
proof -
  have d: "data = take (nat (b_off b)) (b_buf b @ b_spare b)" "0 \<le> b_off b"
    "b_off b \<le> int (length (b_buf b @ b_spare b))"
    using assms(1) by (auto simp: Bytes_Bytes_def split: if_splits)
  let ?a = "take at (b_buf b @ b_spare b) @ bs @ drop (at + length bs) (b_buf b @ b_spare b)"
  have le: "at + length bs \<le> nat (b_off b)" "nat (b_off b) \<le> length (b_buf b @ b_spare b)"
    using assms(2) d by (auto simp: nat_le_iff)
  have len: "length ?a = length (b_buf b @ b_spare b)"
    using le by simp
  have "take (nat (b_off b)) ?a = take at data @ bs @ drop (at + length bs) data"
    unfolding d(1) by (rule take_patch [OF le])
  moreover have "b_buf (bytes_fill b at bs) @ b_spare (bytes_fill b at bs) = ?a"
    "b_off (bytes_fill b at bs) = b_off b"
    by (simp_all add: bytes_fill_def Let_def del: take_append drop_append)
  ultimately show ?thesis
    using d(2,3) len by (simp add: Bytes_Bytes_def)
qed

text \<open>The pooled reader of the client and the reader of the server cut the same frames.\<close>

lemma ReaderBuffer_frame:
  assumes "bpools_ok bps" and "length bps = 33"
    and "Proto_ReadMessage s = Ok ((hb, rt, seq, f), rest)"
  shows "\<exists>b bps'. ReaderBuffer bps s = Ok ((b, rest), bps') \<and> Bytes_Bytes (Some b) = Ok f \<and>
    ParseBuffer f [] = Ok (hb, rt, seq)"
proof -
  obtain hdr s1 where h: "ReadFull s 4 = Ok (hdr, s1)"
    using assms(3) by (auto simp: Proto_ReadMessage_def and_then_Ok_iff)
  define n where "n = unat (4 + get_uint BigEndian hdr :: uint32)"
  obtain body where b: "n \<ge> 4" "ReadFull s1 (n - 4) = Ok (body, rest)" "f = hdr @ body"
      "ParseBuffer f [] = Ok (hb, rt, seq)" and nz: "(get_uint BigEndian hdr :: uint32) \<noteq> 0"
    using assms(3) h
    by (auto simp: Proto_ReadMessage_def and_then_Ok_iff Let_def n_def split: if_splits)
  have len: "length hdr = 4" "length body = n - 4"
    using h b(2) by (auto simp: ReadFull_def split: if_splits)
  have "n < 2 ^ LENGTH(32)"
    unfolding n_def by (rule unsigned_less)
  then have n: "int n \<le> 2 ^ 32"
    by simp
  obtain b1 ps1 d1 where m1: "MallocBytes bps protoSizeBytes = Ok (Some b1, ps1)" "bpools_ok ps1" "length ps1 = 33"
    using MallocBytes_length [OF assms(1), of protoSizeBytes] assms(2)
    by (auto simp: protoSizeBytes_def)
  obtain b2 ps2 d2 where m2: "MallocBytes ps1 (int n) = Ok (Some b2, ps2)" "Bytes_Bytes (Some b2) = Ok d2"
      "length d2 = n"
    using MallocBytes_length [OF m1(2), of "int n"] m1(3) n b(1) by auto
  have f1: "Bytes_Bytes (Some (bytes_fill b2 0 hdr)) = Ok (hdr @ drop 4 d2)"
    using Bytes_fill [OF m2(2), of 0 hdr] m2(3) len(1) b(1) by simp
  have f2: "Bytes_Bytes (Some (bytes_fill (bytes_fill b2 0 hdr) 4 body)) = Ok (hdr @ body)"
    using Bytes_fill [OF f1, of 4 body] m2(3) len b(1) by simp
  have "ReaderBuffer bps s =
      Ok ((bytes_fill (bytes_fill b2 0 hdr) 4 body, rest), snd (Bytes_Release ps2 (bytes_fill b1 0 hdr)))"
    using nz b(1,2) m2(1) m1(1) by (simp add: ReaderBuffer_def h Let_def n_def [symmetric])
  then show ?thesis
    using f2 b(3,4) by blast
qed

section \<open>Remote calls\<close>

text \<open>The error a provider returns, as its remote caller sees it.\<close>

definition remote_error :: "goerror option \<Rightarrow> goerror option" where
  "remote_error err =
     (case err of None \<Rightarrow> None | Some e \<Rightarrow> Some (if e = ErrNotFoundSession then ErrNotFoundSession else ErrUnknownError))"

lemma CodeToError_ErrorToCode: "CodeToError (ErrorToCode err) = remote_error err"
  by (simp add: CodeToError_def ErrorToCode_def remote_error_def code_defs split: option.splits)

lemma ErrorToCode_OK [simp]: "ErrorToCode err = codes_OK \<longleftrightarrow> err = None"
  by (simp add: ErrorToCode_def code_defs split: option.splits)

definition remote :: "srv_conn \<Rightarrow> uint64 \<Rightarrow> 'p \<times> goerror option \<Rightarrow> uint64 \<times> (srv_conn \<times> 'p) \<times> unit res" where
  "remote conn c r = (case r of (p, err) \<Rightarrow> (doGenSequence c, (conn, p), of_error (remote_error err) ()))"

definition remote_value ::
    "srv_conn \<Rightarrow> uint64 \<Rightarrow> 'p \<times> 'v \<times> goerror option \<Rightarrow> uint64 \<times> (srv_conn \<times> 'p) \<times> 'v res" where
  "remote_value conn c r = (case r of (p, v, err) \<Rightarrow> (doGenSequence c, (conn, p), of_error (remote_error err) v))"

lemma code_only_remote: "code_only (ErrorToCode err) = of_error (remote_error err) ()"
  by (simp add: code_only_def CodeToError_ErrorToCode)

lemma code_value_remote:
  "(err = None \<Longrightarrow> w = v) \<Longrightarrow> code_value (ErrorToCode err, w) = of_error (remote_error err) v"
  by (auto simp: code_value_def CodeToError_ErrorToCode of_error_def remote_error_def split: option.splits)

lemma receive_delivered:
  assumes "bpools_ok bps" and "length bps = 33" and "delivers m r seq dec w" and "m = Ok b"
  shows "\<exists>f. receive bps seq (wire b) = Ok f \<and> dec f = Ok w"
proof -
  have rd: "Proto_ReadMessage (wire b) = Ok ((False, route_id r, seq, wire b), [])" and dec: "dec (wire b) = Ok w"
    using assms(3,4) by (auto simp: delivers_def dest: spec [of _ "[]"])
  obtain buf bps' where "ReaderBuffer bps (wire b) = Ok ((buf, []), bps')" "Bytes_Bytes (Some buf) = Ok (wire b)"
      "ParseBuffer (wire b) [] = Ok (False, route_id r, seq)"
    using ReaderBuffer_frame [OF assms(1,2) rd] by blast
  then show ?thesis
    using dec by (simp add: receive_def)
qed

text \<open>
  A request that is delivered, handled, and answered by a response that is delivered: the caller
  gets what the handler computed from the request.
\<close>

lemma roundtrip_over_wire:
  assumes "bpools_ok bps" and "length bps = 33" and "sc_opened conn"
    and req: "delivers enc r seq dreq v" and res: "delivers m r' seq dec w" and h: "hs (route_id r) = Some h"
    and run: "\<And>data. dreq data = Ok v \<Longrightarrow> h conn p data = (conn', p', respond m)"
  shows "roundtrip (over_wire bps hs) (conn, p) seq enc dec fin = (seq, (conn', p'), fin w)"
proof -
  obtain buf where buf: "enc = Ok buf" "Proto_ReadMessage (wire buf) = Ok ((False, route_id r, seq, wire buf), [])"
      "dreq (wire buf) = Ok v"
    using req by (auto simp: delivers_def dest: spec [of _ "[]"])
  obtain b where b: "m = Ok b"
    using res by (auto simp: delivers_def)
  obtain f where f: "receive bps seq (wire b) = Ok f" "dec f = Ok w"
    using receive_delivered [OF assms(1,2) res b] by blast
  have "srv_read hs conn p (wire buf) = (conn', p', Sent b, [])"
    using run [OF buf(3)] b by (simp add: srv_read_def buf(2) h assms(3) respond_def)
  then show ?thesis
    using f by (simp add: roundtrip_def buf(1) over_wire_def)
qed

lemma gate_routes:
  "gate_handlers ps to4 P (route_id Bind) = Some (gs_bind ps P)"
  "gate_handlers ps to4 P (route_id Unbind) = Some (gs_unbind ps P)"
  "gate_handlers ps to4 P (route_id GetIP) = Some (gs_getIP ps to4 P)"
  "gate_handlers ps to4 P (route_id Stat) = Some (gs_stat ps P)"
  "gate_handlers ps to4 P (route_id IsOnline) = Some (gs_isOnline ps P)"
  "gate_handlers ps to4 P (route_id Disconnect) = Some (gs_disconnect ps P)"
  "gate_handlers ps to4 P (route_id Push) = Some (gs_push ps P)"
  "gate_handlers ps to4 P (route_id Multicast) = Some (gs_multicast ps P)"
  "gate_handlers ps to4 P (route_id Broadcast) = Some (gs_broadcast ps P)"
  "gate_handlers ps to4 P (route_id Publish) = Some (gs_publish ps P)"
  "gate_handlers ps to4 P (route_id Subscribe) = Some (gs_subscribe ps P)"
  "gate_handlers ps to4 P (route_id Unsubscribe) = Some (gs_unsubscribe ps P)"
  "gate_handlers ps to4 P (route_id GetState) = Some (gs_getState ps P)"
  "gate_handlers ps to4 P (route_id SetState) = Some (gs_setState ps P)"
  by (simp_all add: gate_handlers_def RegisterHandler_def)




lemma publish_response:
  assumes "wpools_ok ps" and "tot \<noteq> 0"
  shows "delivers (EncodePublishRes ps seq codes_OK [tot]) Publish seq DecodePublishRes (codes_OK, tot)"
  using total_res_delivers [OF assms(1), of 20 codes_OK "[tot]" Publish seq] assms(2)
  by (simp add: EncodePublishRes_def DecodePublishRes_def [abs_def] publishResBytes_def total_sent_def)

text \<open>The calls about one connection or user.\<close>

lemmas remote_simps = decoded_def answer_def doGenSequence_nonzero remote_def remote_value_def code_only_remote


lemma rpc_value:
  assumes "bpools_ok bps" and "length bps = 33" and "sc_opened conn"
    and req: "delivers enc r seq dreq v" and seq: "seq = doGenSequence c"
    and res: "res = (p', x, err)" and m: "delivers m r seq dec (ErrorToCode err, w)"
    and w: "err = None \<Longrightarrow> w = x" and h: "hs (route_id r) = Some h"
    and run: "\<And>data. dreq data = Ok v \<Longrightarrow> h conn p data = (conn, p', respond m)"
  shows "roundtrip (over_wire bps hs) (conn, p) seq enc dec code_value = remote_value conn c res"
proof -
  have "roundtrip (over_wire bps hs) (conn, p) seq enc dec code_value =
      (seq, (conn, p'), code_value (ErrorToCode err, w))"
    by (rule roundtrip_over_wire [OF assms(1-3) req m], rule h) (rule run)
  then show ?thesis
    using w code_value_remote [of err w x] by (simp add: res seq remote_value_def)
qed










lemma rpc_Publish:
  assumes "wpools_ok ps" and "wpools_ok ps'" and "bpools_ok bps" and "length bps = 33" and "sc_opened conn"
    and "nn_wf msg" and "length channel < 241" and "length channel + length (nn_data msg) + 15 < 2 ^ 32"
    and r: "pPublish P p channel d (nn_data msg) = (p', tot, None)" and "tot \<noteq> 0"
  shows "gc_Publish ps (over_wire bps (gate_handlers ps' to4 P)) send (conn, p) c channel d msg True =
    (doGenSequence c, (conn, p'), Ok tot)"
proof -
  have m: "delivers (EncodePublishRes ps' seq codes_OK [tot]) Publish seq DecodePublishRes (ErrorToCode None, tot)" for seq
    using publish_response [OF assms(2,10)] by (simp add: ErrorToCode_def)
  have "gc_Publish ps (over_wire bps (gate_handlers ps' to4 P)) send (conn, p) c channel d msg True =
      remote_value conn c (p', tot, None)"
    unfolding gc_Publish_def Let_def if_True
    by (subst if_not_P, use assms(7) in simp)
      (rule rpc_value [OF assms(3-5) publish_req_delivers [OF assms(1,6,7,8)] refl refl m refl], rule gate_routes,
        simp add: gs_publish_def remote_simps r ErrorToCode_def)
  then show ?thesis
    by (simp add: remote_value_def remote_error_def of_error_def)
qed



lemma rpc_GetState:
  assumes "wpools_ok ps" and "wpools_ok ps'" and "bpools_ok bps" and "length bps = 33" and "sc_opened conn"
    and "byte_range (fst (snd (pGetState P p)))"
  shows "gc_GetState ps (over_wire bps (gate_handlers ps' to4 P)) (conn, p) c = remote_value conn c (pGetState P p)"
proof -
  obtain p' st err where r: "pGetState P p = (p', st, err)" by (metis prod_cases3)
  have st: "byte_range st" using assms(6) r by simp
  show ?thesis
    unfolding gc_GetState_def Let_def
    by (rule rpc_value [OF assms(3-5) getstate_req_delivers [OF assms(1)] refl r getstate_res_delivers [OF assms(2) st]],
        simp, rule gate_routes)
      (simp add: gs_getState_def remote_simps r)
qed


text \<open>
  A publish that fails or reaches nobody: the response announces a total it does not carry, so the
  client keeps reading and the caller gets no answer.
\<close>

lemma receive_short:
  assumes "bpools_ok bps" and "length bps = 33" and "length s < 24"
    and "s = put_uint BigEndian 4 (20 :: uint32) @ rest"
  shows "receive bps seq s = Err no_answer"
proof -
  obtain b1 ps1 where m1: "MallocBytes bps protoSizeBytes = Ok (Some b1, ps1)" "bpools_ok ps1" "length ps1 = 33"
    using MallocBytes_length [OF assms(1), of protoSizeBytes] assms(2) by (auto simp: protoSizeBytes_def)
  obtain b2 ps2 where m2: "MallocBytes ps1 24 = Ok (Some b2, ps2)"
    using MallocBytes_length [OF m1(2), of 24] m1(3) by auto
  have h: "ReadFull s 4 = Ok (put_uint BigEndian 4 (20 :: uint32), rest)"
    using ReadFull_append [of "put_uint BigEndian 4 (20 :: uint32)" 4 rest] assms(4) by simp
  have "length rest < 20"
    using assms(3,4) by simp
  then obtain e where "ReadFull rest 20 = Err e"
    by (cases "rest = []") (auto simp: ReadFull_def)
  then have "ReaderBuffer bps s = Err e"
    using m1(1) m2 by (simp add: ReaderBuffer_def h Let_def)
  then show ?thesis
    by (simp add: receive_def)
qed

lemma rpc_Publish_lost:
  assumes "wpools_ok ps" and "wpools_ok ps'" and "bpools_ok bps" and "length bps = 33" and "sc_opened conn"
    and "nn_wf msg" and "length channel < 241" and "length channel + length (nn_data msg) + 15 < 2 ^ 32"
    and r: "pPublish P p channel d (nn_data msg) = (p', tot, err)" and lost: "err \<noteq> None \<or> tot = 0"
  shows "gc_Publish ps (over_wire bps (gate_handlers ps' to4 P)) send (conn, p) c channel d msg True =
    (doGenSequence c, (conn, p'), Err no_answer)"
proof -
  let ?seq = "doGenSequence c"
  obtain buf where buf: "EncodePublishReq ps ?seq channel d msg = Ok buf"
      "Proto_ReadMessage (wire buf) = Ok ((False, route_id Publish, ?seq, wire buf), [])"
      "DecodePublishReq (wire buf) = Ok (?seq, channel, d, nn_data msg)"
    using publish_req_delivers [OF assms(1,6,7,8), of ?seq d] by (auto simp: delivers_def dest: spec [of _ "[]"])
  obtain b where b: "EncodePublishRes ps' ?seq (ErrorToCode err) [tot] = Ok b"
      "wire b = head_bytes 20 0 Publish @ put_uint BigEndian 8 ?seq @ put_uint BigEndian 2 (ErrorToCode err)"
    using encode_total_res_bytes [OF assms(2), of 24 20 Publish ?seq "ErrorToCode err" "[tot]"] lost
    by (auto simp: encodes_def EncodePublishRes_def publishResBytes_def)
  have "receive bps ?seq (wire b) = Err no_answer"
    by (rule receive_short [OF assms(3,4)]) (simp_all add: b(2) head_bytes_def)
  moreover have "srv_read (gate_handlers ps' to4 P) conn p (wire buf) = (conn, p', Sent b, [])"
    by (simp only: srv_read_def buf(2) res.case prod.case gate_routes(10) option.case)
      (simp add: assms(5) gs_publish_def decoded_def buf(3) r answer_def doGenSequence_nonzero b(1) respond_def)
  ultimately show ?thesis
    using assms(7) by (simp add: gc_Publish_def Let_def roundtrip_def buf(1) over_wire_def)
qed

section \<open>Messages to a node\<close>






section \<open>Properties\<close>

text \<open>The pools of a fresh process, and a connection that has just been accepted.\<close>

definition fresh_bytes :: "Bytes pools" where
  "fresh_bytes = replicate 33 []"

lemma fresh_bytes_ok: "bpools_ok fresh_bytes" "length fresh_bytes = 33"
  by (simp_all add: fresh_bytes_def bpools_ok_eq bpool.pools_ok_empty)

definition accepted :: srv_conn where
  "accepted = \<lparr>sc_opened = True, InsKind = 0, InsID = []\<rparr>"


text \<open>A provider that records the calls it gets: users above 100 have no session.\<close>

definition log_provider :: "int64 list GateProvider" where
  "log_provider =
     \<lparr>pBind = \<lambda>p cid uid. (uid # p, None), pUnbind = \<lambda>p uid. (uid # p, None),
      pGetIP = \<lambda>p k t. (t # p, [], None), pIsOnline = \<lambda>p k t. (t # p, t < 100, None),
      pStat = \<lambda>p k. (p, of_nat (length p), None), pDisconnect = \<lambda>p k t f. (t # p, None),
      pDisconnectCurrent = \<lambda>p k t tk f. (t # p, None),
      pPush = \<lambda>p k t d tk m. if t > 100 then (p, Some ErrNotFoundSession) else (t # p, None),
      pMulticast = \<lambda>p k ts d m. (ts @ p, of_nat (length ts), None), pBroadcast = \<lambda>p k d m. (p, 0, None),
      pPublish = \<lambda>p ch d m. (p, 0, None), pSubscribe = \<lambda>p k ts ch. (ts @ p, None),
      pUnsubscribe = \<lambda>p k ts ch. (p, None), pGetState = \<lambda>p. (p, 1, None), pSetState = \<lambda>p s. (p, None)\<rparr>"


text \<open>
  A publish is answered only when it reached somebody: then the caller gets the total; when it
  reached nobody, or failed, the call stays unanswered although the provider has run.
\<close>

lemma publish_answered_iff_reached:
  assumes "wpools_ok ps" and "wpools_ok ps'" and "bpools_ok bps" and "length bps = 33" and "sc_opened conn"
    and "nn_wf msg" and "length channel < 241" and "length (nn_data msg) + 70000 < 2 ^ 32"
    and "pPublish P p channel d (nn_data msg) = (p', tot, err)"
  shows "gc_Publish ps (over_wire bps (gate_handlers ps' to4 P)) send (conn, p) c channel d msg True =
    (doGenSequence c, (conn, p'), if err = None \<and> tot \<noteq> 0 then Ok tot else Err no_answer)"
proof -
  have "length channel + length (nn_data msg) + 15 < 2 ^ 32"
    using assms(7,8) by simp
  note pub = assms(1-7) this
  show ?thesis
    using rpc_Publish [OF pub] rpc_Publish_lost [OF pub assms(9)] assms(9) by (cases "err = None \<and> tot \<noteq> 0") auto
qed

lemma publish_answered_iff_reached_witness:
  "gc_Publish fresh_pools (over_wire fresh_bytes (gate_handlers fresh_pools (\<lambda>ip. ip) log_provider)) (one_way Map.empty)
     (accepted, [3]) 6 [99] False (NNode (BRaw [1, 2])) True = (doGenSequence 6, (accepted, [3]), Err no_answer)"
proof -
  have "pPublish log_provider [3] [99] False (nn_data (NNode (BRaw [1, 2]))) = ([3], 0, None)"
    by (simp add: log_provider_def)
  from publish_answered_iff_reached [OF fresh_pools_ok fresh_pools_ok fresh_bytes_ok _ _ _ _ this, of accepted]
  show ?thesis
    by (simp add: accepted_def nn_data_def block_data_def block_ok_def)
qed




end
