(* ===== verification/Source_Hints.thy ===== *)
theory Source_Hints
  imports Go_Prelude Go_Map
begin

text \<open>
  The bounded cache of routing hints (\<open>internal/link/source_hints.go\<close>): a map into a doubly linked
  list (\<open>container/list\<close>) ordered by last use, and a revision that fences fills of answers that
  were looked up before the cache changed.  List elements are objects shared by the map and the
  list: they are numbered, \<open>value\<close> is the content of an element, \<open>nxt\<close> the next fresh number.  The
  whole structure refines a plain list of key-value pairs, most recently used first.
\<close>

section \<open>The cache\<close>

type_synonym sourceHintKey = "int64 \<times> string"

record sourceHint =
  key :: sourceHintKey
  node :: string

record sourceHints =
  capacity :: int
  revision :: uint64
  entries :: "(sourceHintKey, nat) gomap"
  order :: "nat list"
  elem_value :: "nat \<Rightarrow> sourceHint"
  nxt :: nat

definition newSourceHints :: "int \<Rightarrow> sourceHints res" where
  "newSourceHints cap =
     (if cap \<le> 0 then Panic
      else Ok \<lparr>capacity = cap, revision = 0, entries = [], order = [],
               elem_value = (\<lambda>_. \<lparr>key = (0, ''''), node = ''''\<rparr>), nxt = 0\<rparr>)"

text \<open>The list operations \<open>MoveToFront\<close>, \<open>PushFront\<close>, \<open>Remove\<close>.\<close>

definition moveToFront :: "sourceHints \<Rightarrow> nat \<Rightarrow> sourceHints" where
  "moveToFront h e = h\<lparr>order := e # remove1 e (order h)\<rparr>"

definition pushFront :: "sourceHints \<Rightarrow> sourceHint \<Rightarrow> nat \<times> sourceHints" where
  "pushFront h v =
     (nxt h, h\<lparr>order := nxt h # order h, elem_value := (elem_value h)(nxt h := v), nxt := nxt h + 1\<rparr>)"

definition removeElem :: "sourceHints \<Rightarrow> nat \<Rightarrow> sourceHints" where
  "removeElem h e = h\<lparr>order := remove1 e (order h)\<rparr>"

definition hints_load :: "sourceHints \<Rightarrow> int64 \<Rightarrow> string \<Rightarrow> (string \<times> bool \<times> uint64) \<times> sourceHints" where
  "hints_load h uid name =
     (case gm_get (entries h) (uid, name) of
        Some e \<Rightarrow> ((node (elem_value h e), True, revision h), moveToFront h e)
      | None \<Rightarrow> (('''', False, revision h), h))"

definition putLocked :: "sourceHints \<Rightarrow> sourceHintKey \<Rightarrow> string \<Rightarrow> sourceHints res" where
  "putLocked h k n =
     (if n = '''' then Ok h
      else case gm_get (entries h) k of
        Some e \<Rightarrow> Ok (moveToFront (h\<lparr>elem_value := (elem_value h)(e := \<lparr>key = k, node = n\<rparr>)\<rparr>) e)
      | None \<Rightarrow>
          and_then
            (if int (gm_len (entries h)) = capacity h then
               (if order h = [] then Panic
                else let e = last (order h)
                     in Ok (removeElem (h\<lparr>entries := gm_del (entries h) (key (elem_value h e))\<rparr>) e))
             else Ok h)
            (\<lambda>h. case pushFront h \<lparr>key = k, node = n\<rparr> of
               (e, h) \<Rightarrow> Ok (h\<lparr>entries := gm_set (entries h) k e\<rparr>)))"

definition hints_store :: "sourceHints \<Rightarrow> int64 \<Rightarrow> string \<Rightarrow> string \<Rightarrow> sourceHints res" where
  "hints_store h uid name n = putLocked (h\<lparr>revision := revision h + 1\<rparr>) (uid, name) n"

definition hints_fill :: "sourceHints \<Rightarrow> int64 \<Rightarrow> string \<Rightarrow> string \<Rightarrow> uint64 \<Rightarrow> sourceHints res" where
  "hints_fill h uid name n rv = (if rv = revision h then putLocked h (uid, name) n else Ok h)"

definition hints_invalidate :: "sourceHints \<Rightarrow> int64 \<Rightarrow> string \<Rightarrow> sourceHints" where
  "hints_invalidate h uid name =
     (let h = h\<lparr>revision := revision h + 1\<rparr>; k = (uid, name)
      in case gm_get (entries h) k of
           Some e \<Rightarrow> removeElem (h\<lparr>entries := gm_del (entries h) k\<rparr>) e
         | None \<Rightarrow> h)"

definition hints_count :: "sourceHints \<Rightarrow> nat" where
  "hints_count h = gm_len (entries h)"

section \<open>The abstract cache\<close>

definition lru_use :: "('k \<times> 'v) list \<Rightarrow> 'k \<Rightarrow> ('k \<times> 'v) list" where
  "lru_use l k = (case map_of l k of None \<Rightarrow> l | Some v \<Rightarrow> (k, v) # filter (\<lambda>p. fst p \<noteq> k) l)"

definition lru_put :: "nat \<Rightarrow> ('k \<times> string) list \<Rightarrow> 'k \<Rightarrow> string \<Rightarrow> ('k \<times> string) list" where
  "lru_put cap l k v =
     (if v = '''' then l
      else if map_of l k \<noteq> None then (k, v) # filter (\<lambda>p. fst p \<noteq> k) l
      else (k, v) # (if length l = cap then butlast l else l))"

definition lru_drop :: "('k \<times> 'v) list \<Rightarrow> 'k \<Rightarrow> ('k \<times> 'v) list" where
  "lru_drop l k = filter (\<lambda>p. fst p \<noteq> k) l"

section \<open>Refinement\<close>

definition pair_of :: "sourceHints \<Rightarrow> nat \<Rightarrow> sourceHintKey \<times> string" where
  "pair_of h e = (key (elem_value h e), node (elem_value h e))"

definition hints_abs :: "sourceHints \<Rightarrow> (sourceHintKey \<times> string) list" where
  "hints_abs h = map (pair_of h) (order h)"

definition index_ok :: "sourceHints \<Rightarrow> bool" where
  "index_ok h \<longleftrightarrow>
     (\<forall>k e. gm_get (entries h) k = Some e \<longleftrightarrow> e \<in> set (order h) \<and> key (elem_value h e) = k)"

definition hints_ok :: "sourceHints \<Rightarrow> bool" where
  "hints_ok h \<longleftrightarrow>
     0 < capacity h \<and> gm_ok (entries h) \<and> distinct (order h) \<and> (\<forall>e \<in> set (order h). e < nxt h) \<and>
     distinct (map fst (hints_abs h)) \<and> int (length (order h)) \<le> capacity h \<and>
     index_ok h"

lemma index_iff:
  "hints_ok h \<Longrightarrow> gm_get (entries h) k = Some e \<longleftrightarrow> e \<in> set (order h) \<and> key (elem_value h e) = k"
  by (simp only: hints_ok_def index_ok_def)

lemma index_okI:
  "(\<And>k e. gm_get (entries h) k = Some e \<longleftrightarrow> e \<in> set (order h) \<and> key (elem_value h e) = k) \<Longrightarrow> index_ok h"
  unfolding index_ok_def by blast

lemma hints_ok_new: "newSourceHints cap = Ok h \<Longrightarrow> hints_ok h \<and> hints_abs h = [] \<and> capacity h = cap"
  by (auto simp: newSourceHints_def hints_ok_def hints_abs_def intro!: index_okI split: if_splits)

lemma remove1_distinct: "distinct xs \<Longrightarrow> remove1 e xs = filter (\<lambda>x. x \<noteq> e) xs"
  by (induction xs) (auto simp: filter_id_conv, metis (mono_tags, lifting) filter_True)

lemma entry_lookup:
  assumes "hints_ok h"
  shows "map_of (hints_abs h) k = map_option (\<lambda>e. node (elem_value h e)) (gm_get (entries h) k)"
proof (cases "gm_get (entries h) k")
  case None
  then have "k \<notin> fst ` set (hints_abs h)"
  proof -
    have "\<forall>e \<in> set (order h). key (elem_value h e) \<noteq> k"
      using index_iff [OF assms, of k] None by simp
    then show ?thesis
      by (auto simp: hints_abs_def pair_of_def)
  qed
  then show ?thesis
    using None by (metis map_of_eq_None_iff option.map_disc_iff)
next
  case (Some e)
  then have "(k, node (elem_value h e)) \<in> set (hints_abs h)"
    using index_iff [OF assms, of k e] by (auto simp: hints_abs_def pair_of_def)
  then show ?thesis
    using assms Some by (simp add: hints_ok_def map_of_is_SomeI)
qed

lemma entries_len:
  assumes "hints_ok h"
  shows "gm_len (entries h) = length (order h)"
proof -
  have "dom (gm_get (entries h)) = fst ` set (hints_abs h)"
    using index_iff [OF assms] by (force simp: hints_abs_def pair_of_def dom_def)
  then have "gm_len (entries h) = card (set (map fst (hints_abs h)))"
    using assms gm_card [of "entries h"] by (simp add: hints_ok_def)
  also have "\<dots> = length (order h)"
    using assms distinct_card [of "map fst (hints_abs h)"] by (simp add: hints_ok_def hints_abs_def)
  finally show ?thesis .
qed

lemma key_unique:
  assumes "hints_ok h" and "x \<in> set (order h)" and "e \<in> set (order h)"
    and "key (elem_value h x) = key (elem_value h e)"
  shows "x = e"
  using index_iff [OF assms(1), of "key (elem_value h e)" x] index_iff [OF assms(1), of "key (elem_value h e)" e]
    assms(2-4) by simp

text \<open>Dropping the element of a key from the list drops the key from the abstract cache.\<close>

lemma abs_remove:
  assumes "hints_ok h" and "e \<in> set (order h)"
  shows "map (pair_of h) (remove1 e (order h)) = filter (\<lambda>p. fst p \<noteq> key (elem_value h e)) (hints_abs h)"
proof -
  have "x = e" if "x \<in> set (order h)" "key (elem_value h x) = key (elem_value h e)" for x
    by (rule key_unique [OF assms(1) that(1) assms(2) that(2)])
  then have "filter (\<lambda>x. x \<noteq> e) (order h) = filter (\<lambda>x. key (elem_value h x) \<noteq> key (elem_value h e)) (order h)"
    using assms(2) by (intro filter_cong) auto
  then show ?thesis
    using assms(1) by (simp add: hints_abs_def remove1_distinct hints_ok_def filter_map comp_def pair_of_def)
qed

text \<open>The cache after an element was taken out of both structures.\<close>

definition without :: "sourceHints \<Rightarrow> nat \<Rightarrow> sourceHints" where
  "without h e = removeElem (h\<lparr>entries := gm_del (entries h) (key (elem_value h e))\<rparr>) e"

lemma without_ok:
  assumes ok: "hints_ok h" and e: "e \<in> set (order h)"
  shows "hints_ok (without h e)" and "hints_abs (without h e) = lru_drop (hints_abs h) (key (elem_value h e))"
    and "length (order (without h e)) = length (order h) - 1"
proof -
  let ?h = "without h e"
  have f: "order ?h = filter (\<lambda>x. x \<noteq> e) (order h)" "elem_value ?h = elem_value h" "nxt ?h = nxt h"
    "capacity ?h = capacity h" "entries ?h = gm_del (entries h) (key (elem_value h e))"
    using ok by (simp_all add: without_def removeElem_def hints_ok_def remove1_distinct)
  have "pair_of ?h = pair_of h"
    by (simp add: pair_of_def f fun_eq_iff)
  then show abs: "hints_abs ?h = lru_drop (hints_abs h) (key (elem_value h e))"
    using abs_remove [OF ok e] ok by (simp add: hints_abs_def [of ?h] f(1) lru_drop_def hints_ok_def remove1_distinct)
  show len: "length (order ?h) = length (order h) - 1"
    using e by (simp add: without_def removeElem_def length_remove1)
  have "distinct (map fst (hints_abs ?h))"
    using ok unfolding abs lru_drop_def by (auto simp: hints_ok_def intro: distinct_map_filter)
  moreover have "index_ok ?h"
  proof (rule index_okI)
    fix k x
    show "gm_get (entries ?h) k = Some x \<longleftrightarrow> x \<in> set (order ?h) \<and> key (elem_value ?h x) = k"
      using index_iff [OF ok, of k x] key_unique [OF ok, of x e] e
      by (cases "k = key (elem_value h e)") (auto simp: f simp del: split_paired_All)
  qed
  moreover have "distinct (order ?h)" "\<forall>x \<in> set (order ?h). x < nxt h"
    using ok by (auto simp: f(1) hints_ok_def)
  ultimately show "hints_ok ?h"
    using ok len by (auto simp: hints_ok_def f(2-5))
qed

lemma touch_ok:
  assumes ok: "hints_ok h" and e: "gm_get (entries h) k = Some e"
  shows "hints_ok (moveToFront (h\<lparr>elem_value := (elem_value h)(e := \<lparr>key = k, node = n\<rparr>)\<rparr>) e)"
    and "hints_abs (moveToFront (h\<lparr>elem_value := (elem_value h)(e := \<lparr>key = k, node = n\<rparr>)\<rparr>) e) =
      (k, n) # lru_drop (hints_abs h) k"
proof -
  let ?h = "moveToFront (h\<lparr>elem_value := (elem_value h)(e := \<lparr>key = k, node = n\<rparr>)\<rparr>) e"
  have m: "e \<in> set (order h)" "key (elem_value h e) = k"
    using index_iff [OF ok] e by simp_all
  have f: "order ?h = e # filter (\<lambda>x. x \<noteq> e) (order h)" "entries ?h = entries h" "nxt ?h = nxt h"
    "capacity ?h = capacity h" "\<And>x. key (elem_value ?h x) = key (elem_value h x)"
    using ok m by (auto simp: moveToFront_def hints_ok_def remove1_distinct)
  have "map (pair_of ?h) (filter (\<lambda>x. x \<noteq> e) (order h)) = map (pair_of h) (filter (\<lambda>x. x \<noteq> e) (order h))"
    by (auto simp: pair_of_def moveToFront_def)
  moreover have "pair_of ?h e = (k, n)"
    by (simp add: pair_of_def moveToFront_def)
  ultimately show abs: "hints_abs ?h = (k, n) # lru_drop (hints_abs h) k"
    using abs_remove [OF ok m(1)] ok m
    by (simp only: hints_abs_def [of ?h] f(1) lru_drop_def list.map)
      (simp add: hints_ok_def remove1_distinct)
  have "distinct (map fst (hints_abs ?h))"
    using ok unfolding abs lru_drop_def by (auto simp: hints_ok_def intro: distinct_map_filter)
  moreover have "length (order ?h) = length (order h)"
    using ok m by (simp add: moveToFront_def length_remove1) (metis One_nat_def Suc_pred length_pos_if_in_set)
  moreover have "index_ok ?h"
    using index_iff [OF ok] m by (intro index_okI) (auto simp: f)
  moreover have "distinct (order ?h)" "\<forall>x \<in> set (order ?h). x < nxt h"
    using ok m by (auto simp: f(1) hints_ok_def)
  ultimately show "hints_ok ?h"
    using ok m by (simp add: hints_ok_def f(2-4))
qed

lemma moveToFront_ok:
  assumes ok: "hints_ok h" and e: "gm_get (entries h) k = Some e"
  shows "hints_ok (moveToFront h e)" and "hints_abs (moveToFront h e) = lru_use (hints_abs h) k"
proof -
  have "key (elem_value h e) = k"
    using index_iff [OF ok] e by simp
  then have "(elem_value h)(e := \<lparr>key = k, node = node (elem_value h e)\<rparr>) = elem_value h"
    by (auto simp: fun_eq_iff)
  then have "h\<lparr>elem_value := (elem_value h)(e := \<lparr>key = k, node = node (elem_value h e)\<rparr>)\<rparr> = h"
    by simp
  then show "hints_ok (moveToFront h e)" "hints_abs (moveToFront h e) = lru_use (hints_abs h) k"
    using touch_ok [OF ok e, of "node (elem_value h e)"] entry_lookup [OF ok, of k] e
    by (simp_all add: lru_use_def lru_drop_def)
qed

lemma push_ok:
  assumes ok: "hints_ok h" and new: "gm_get (entries h) k = None" and room: "int (length (order h)) < capacity h"
  shows "hints_ok ((snd (pushFront h \<lparr>key = k, node = n\<rparr>))\<lparr>entries := gm_set (entries h) k (nxt h)\<rparr>)"
    and "hints_abs ((snd (pushFront h \<lparr>key = k, node = n\<rparr>))\<lparr>entries := gm_set (entries h) k (nxt h)\<rparr>) =
      (k, n) # hints_abs h"
proof -
  let ?h = "(snd (pushFront h \<lparr>key = k, node = n\<rparr>))\<lparr>entries := gm_set (entries h) k (nxt h)\<rparr>"
  have f: "order ?h = nxt h # order h" "nxt ?h = nxt h + 1" "capacity ?h = capacity h"
    "entries ?h = gm_set (entries h) k (nxt h)"
    "elem_value ?h = (elem_value h)(nxt h := \<lparr>key = k, node = n\<rparr>)"
    by (simp_all add: pushFront_def)
  have fresh: "nxt h \<notin> set (order h)"
    using ok by (auto simp: hints_ok_def)
  have "map (pair_of ?h) (order h) = map (pair_of h) (order h)"
    using fresh by (auto simp: pair_of_def f(5))
  then show abs: "hints_abs ?h = (k, n) # hints_abs h"
    by (simp add: hints_abs_def [of ?h] f(1)) (simp add: pair_of_def f(5) hints_abs_def)
  have "k \<notin> fst ` set (hints_abs h)"
    using entry_lookup [OF ok, of k] new by (simp add: map_of_eq_None_iff)
  then have "distinct (map fst (hints_abs ?h))"
    using ok unfolding abs by (simp add: hints_ok_def)
  moreover have "index_ok ?h"
  proof (rule index_okI)
    fix k' x
    show "gm_get (entries ?h) k' = Some x \<longleftrightarrow> x \<in> set (order ?h) \<and> key (elem_value ?h x) = k'"
      using index_iff [OF ok, of k' x] new fresh by (auto simp: f simp del: split_paired_All)
  qed
  ultimately show "hints_ok ?h"
    using ok room fresh by (simp add: hints_ok_def f(1-4) less_SucI)
qed

lemma lru_drop_last:
  assumes "distinct (map fst l)" and "l \<noteq> []"
  shows "lru_drop l (fst (last l)) = butlast l"
proof -
  obtain xs x where l: "l = xs @ [x]"
    using assms(2) by (cases l rule: rev_cases) auto
  then have "\<forall>p \<in> set xs. fst p \<noteq> fst x"
    using assms(1) by (auto simp: rev_image_eqI)
  then show ?thesis
    by (simp add: l lru_drop_def filter_id_conv)
qed

text \<open>
  Every operation keeps the invariant, never panics, and does to the abstract list what the plain
  cache does.
\<close>

lemma putLocked_refines:
  assumes ok: "hints_ok h"
  shows "\<exists>h'. putLocked h k n = Ok h' \<and> hints_ok h' \<and> revision h' = revision h \<and> capacity h' = capacity h \<and>
    hints_abs h' = lru_put (nat (capacity h)) (hints_abs h) k n"
proof (cases "n = ''''")
  case True
  then show ?thesis
    using ok by (simp add: putLocked_def lru_put_def)
next
  case False
  show ?thesis
  proof (cases "gm_get (entries h) k")
    case (Some e)
    then show ?thesis
      using False touch_ok [OF ok Some, of n] entry_lookup [OF ok, of k]
      by (simp add: putLocked_def lru_put_def lru_drop_def moveToFront_def)
  next
    case None
    have lk: "map_of (hints_abs h) k = None"
      using entry_lookup [OF ok, of k] None by simp
    show ?thesis
    proof (cases "length (order h) = nat (capacity h)")
      case full: True
      let ?e = "last (order h)"
      have ne: "order h \<noteq> []"
        using full ok by (auto simp: hints_ok_def)
      then have e: "?e \<in> set (order h)"
        by simp
      let ?h = "without h ?e"
      have get: "gm_get (entries ?h) k = None"
        using None by (simp add: without_def removeElem_def)
      have room: "int (length (order ?h)) < capacity ?h"
        using without_ok(3) [OF ok e] ne full ok
        by (cases "order h") (simp_all add: without_def removeElem_def hints_ok_def)
      have drop: "hints_abs ?h = butlast (hints_abs h)"
        using without_ok(2) [OF ok e] lru_drop_last [of "hints_abs h"] ok ne
        by (simp add: hints_ok_def hints_abs_def last_map pair_of_def)
      have cond: "int (gm_len (entries h)) = capacity h"
        using full entries_len [OF ok] ok by (simp add: hints_ok_def)
      have frame: "nxt ?h = nxt h" "revision ?h = revision h" "capacity ?h = capacity h"
        by (simp_all add: without_def removeElem_def)
      have len: "length (hints_abs h) = nat (capacity h)"
        using full by (simp add: hints_abs_def)
      have eq: "putLocked h k n =
          Ok ((snd (pushFront ?h \<lparr>key = k, node = n\<rparr>))\<lparr>entries := gm_set (entries ?h) k (nxt ?h)\<rparr>)"
        using False None ne cond by (simp add: putLocked_def Let_def without_def pushFront_def)
      show ?thesis
        using push_ok [OF without_ok(1) [OF ok e] get room, of n] lk drop False frame len
        unfolding eq by (simp add: lru_put_def) (simp add: pushFront_def)
    next
      case short: False
      have cond: "int (gm_len (entries h)) \<noteq> capacity h"
        using short entries_len [OF ok] ok by (auto simp: hints_ok_def)
      have room: "int (length (order h)) < capacity h"
        using short ok by (auto simp: hints_ok_def)
      have len: "length (hints_abs h) \<noteq> nat (capacity h)"
        using short by (simp add: hints_abs_def)
      have eq: "putLocked h k n =
          Ok ((snd (pushFront h \<lparr>key = k, node = n\<rparr>))\<lparr>entries := gm_set (entries h) k (nxt h)\<rparr>)"
        using False None cond by (simp add: putLocked_def pushFront_def)
      show ?thesis
        using push_ok [OF ok None room, of n] lk False len
        unfolding eq by (simp add: lru_put_def) (simp add: pushFront_def)
    qed
  qed
qed

lemma hints_ok_revision: "hints_ok (h\<lparr>revision := r\<rparr>) = hints_ok h" "hints_abs (h\<lparr>revision := r\<rparr>) = hints_abs h"
proof -
  have "index_ok (h\<lparr>revision := r\<rparr>) = index_ok h" "pair_of (h\<lparr>revision := r\<rparr>) = pair_of h"
    by (simp_all add: index_ok_def pair_of_def fun_eq_iff)
  then show "hints_ok (h\<lparr>revision := r\<rparr>) = hints_ok h" "hints_abs (h\<lparr>revision := r\<rparr>) = hints_abs h"
    by (simp_all add: hints_ok_def hints_abs_def)
qed

lemma store_refines:
  assumes "hints_ok h"
  shows "\<exists>h'. hints_store h uid name n = Ok h' \<and> hints_ok h' \<and> revision h' = revision h + 1 \<and>
    capacity h' = capacity h \<and> hints_abs h' = lru_put (nat (capacity h)) (hints_abs h) (uid, name) n"
  using putLocked_refines [of "h\<lparr>revision := revision h + 1\<rparr>" "(uid, name)" n] assms
  by (auto simp: hints_store_def hints_ok_revision)

lemma fill_refines:
  assumes "hints_ok h"
  shows "\<exists>h'. hints_fill h uid name n rv = Ok h' \<and> hints_ok h' \<and> revision h' = revision h \<and>
    capacity h' = capacity h \<and>
    hints_abs h' = (if rv = revision h then lru_put (nat (capacity h)) (hints_abs h) (uid, name) n else hints_abs h)"
  using putLocked_refines [OF assms, of "(uid, name)" n] assms by (auto simp: hints_fill_def)

lemma invalidate_refines:
  assumes "hints_ok h"
  shows "hints_ok (hints_invalidate h uid name)" and "revision (hints_invalidate h uid name) = revision h + 1"
    and "capacity (hints_invalidate h uid name) = capacity h"
    and "hints_abs (hints_invalidate h uid name) = lru_drop (hints_abs h) (uid, name)"
proof -
  let ?h = "h\<lparr>revision := revision h + 1\<rparr>"
  have ok: "hints_ok ?h"
    using assms by (simp add: hints_ok_revision)
  have "hints_ok (hints_invalidate h uid name) \<and> revision (hints_invalidate h uid name) = revision h + 1 \<and>
      capacity (hints_invalidate h uid name) = capacity h \<and>
      hints_abs (hints_invalidate h uid name) = lru_drop (hints_abs h) (uid, name)"
  proof (cases "gm_get (entries h) (uid, name)")
    case None
    then have "map_of (hints_abs h) (uid, name) = None"
      using entry_lookup [OF assms, of "(uid, name)"] by simp
    then have "lru_drop (hints_abs h) (uid, name) = hints_abs h"
      by (force simp: lru_drop_def map_of_eq_None_iff filter_id_conv)
    then show ?thesis
      using None ok by (simp add: hints_invalidate_def Let_def hints_ok_revision)
  next
    case (Some e)
    then have e: "e \<in> set (order ?h)" "key (elem_value ?h e) = (uid, name)"
      using index_iff [OF assms, of "(uid, name)" e] by simp_all
    have "hints_invalidate h uid name = without ?h e"
      using Some e(2) by (simp add: hints_invalidate_def Let_def without_def)
    then show ?thesis
      using without_ok [OF ok e(1)] e(2) by (simp add: hints_ok_revision) (simp add: without_def removeElem_def)
  qed
  then show "hints_ok (hints_invalidate h uid name)" "revision (hints_invalidate h uid name) = revision h + 1"
    "capacity (hints_invalidate h uid name) = capacity h"
    "hints_abs (hints_invalidate h uid name) = lru_drop (hints_abs h) (uid, name)"
    by simp_all
qed

lemma load_refines:
  assumes "hints_ok h" and "hints_load h uid name = ((n, found, rv), h')"
  shows "hints_ok h' \<and> revision h' = revision h \<and> capacity h' = capacity h \<and> rv = revision h \<and>
    hints_abs h' = lru_use (hints_abs h) (uid, name) \<and>
    (if found then map_of (hints_abs h) (uid, name) = Some n else map_of (hints_abs h) (uid, name) = None)"
proof (cases "gm_get (entries h) (uid, name)")
  case None
  then show ?thesis
    using assms entry_lookup [OF assms(1), of "(uid, name)"] by (auto simp: hints_load_def lru_use_def)
next
  case (Some e)
  then show ?thesis
    using assms(2) moveToFront_ok [OF assms(1) Some] entry_lookup [OF assms(1), of "(uid, name)"]
    by (auto simp: hints_load_def moveToFront_def)
qed

section \<open>Properties\<close>

definition example_hints :: sourceHints where
  "example_hints = (case newSourceHints 2 of Ok h \<Rightarrow> h | _ \<Rightarrow> undefined)"

lemma example_hints_new: "newSourceHints 2 = Ok example_hints"
  by (simp add: example_hints_def newSourceHints_def)

text \<open>
  the linked list and index of the cache refine a plain most-recently-used list of bounded length: every
  operation of a sound cache returns (never panics), keeps it sound and within its capacity, and acts on the
  list of pairs as its specification says: a load moves the key to the front and returns its node exactly
  when it is present, a store puts it in front and evicts the least recently used pair when full, an
  invalidation drops the key, and the count is the length of the list.
\<close>

lemma hints_refine_lru:
  assumes "hints_ok h"
  shows "(\<exists>h'. hints_store h uid name n = Ok h' \<and> hints_ok h' \<and> capacity h' = capacity h \<and>
      hints_abs h' = lru_put (nat (capacity h)) (hints_abs h) (uid, name) n) \<and>
    hints_ok (hints_invalidate h uid name) \<and>
    hints_abs (hints_invalidate h uid name) = lru_drop (hints_abs h) (uid, name) \<and>
    (hints_load h uid name = ((m, found, rv), h2) \<longrightarrow>
      hints_ok h2 \<and> hints_abs h2 = lru_use (hints_abs h) (uid, name) \<and>
      (if found then map_of (hints_abs h) (uid, name) = Some m else map_of (hints_abs h) (uid, name) = None)) \<and>
    hints_count h = length (hints_abs h) \<and> int (hints_count h) \<le> capacity h"
proof -
  have "\<exists>h'. hints_store h uid name n = Ok h' \<and> hints_ok h' \<and> capacity h' = capacity h \<and>
      hints_abs h' = lru_put (nat (capacity h)) (hints_abs h) (uid, name) n"
    using store_refines [OF assms, of uid name n] by blast
  moreover have "hints_ok (hints_invalidate h uid name) \<and>
      hints_abs (hints_invalidate h uid name) = lru_drop (hints_abs h) (uid, name)"
    using invalidate_refines [OF assms] by simp
  moreover have "hints_ok h2 \<and> hints_abs h2 = lru_use (hints_abs h) (uid, name) \<and>
      (if found then map_of (hints_abs h) (uid, name) = Some m else map_of (hints_abs h) (uid, name) = None)"
    if "hints_load h uid name = ((m, found, rv), h2)"
    using load_refines [OF assms that] by blast
  moreover have "hints_count h = length (hints_abs h) \<and> int (hints_count h) \<le> capacity h"
    using assms entries_len [OF assms] by (simp add: hints_count_def hints_abs_def hints_ok_def)
  ultimately show ?thesis
    by blast
qed

lemma hints_refine_lru_witness:
  "\<exists>h'. hints_store example_hints 7 ''game'' ''n1'' = Ok h' \<and> hints_ok h' \<and> capacity h' = capacity example_hints \<and>
     hints_abs h' = lru_put (nat (capacity example_hints)) (hints_abs example_hints) (7, ''game'') ''n1''"
  by (rule conjunct1 [OF hints_refine_lru]) (use hints_ok_new [OF example_hints_new] in blast)

text \<open>Operations of other requests between a load that misses and the fill with the answer of the locator.\<close>

datatype hint_op = OpStore int64 string string | OpInvalidate int64 string | OpLoad int64 string
  | OpFill int64 string string uint64

fun hint_do :: "hint_op \<Rightarrow> sourceHints \<Rightarrow> sourceHints res" where
  "hint_do (OpStore uid name n) h = hints_store h uid name n"
| "hint_do (OpInvalidate uid name) h = Ok (hints_invalidate h uid name)"
| "hint_do (OpLoad uid name) h = Ok (snd (hints_load h uid name))"
| "hint_do (OpFill uid name n rv) h = hints_fill h uid name n rv"

fun hint_changes :: "hint_op \<Rightarrow> bool" where
  "hint_changes (OpStore _ _ _) = True"
| "hint_changes (OpInvalidate _ _) = True"
| "hint_changes _ = False"

primrec hints_run :: "hint_op list \<Rightarrow> sourceHints \<Rightarrow> sourceHints res" where
  "hints_run [] h = Ok h"
| "hints_run (op # ops) h = and_then (hint_do op h) (hints_run ops)"

lemma hint_do_ok:
  assumes "hints_ok h"
  shows "\<exists>h'. hint_do op h = Ok h' \<and> hints_ok h' \<and> revision h' = revision h + (if hint_changes op then 1 else 0)"
proof (cases op)
  case (OpLoad uid name)
  obtain m found rv h' where l: "hints_load h uid name = ((m, found, rv), h')"
    by (metis prod.collapse)
  then show ?thesis
    using OpLoad load_refines [OF assms l] by simp
qed (use assms store_refines invalidate_refines fill_refines in \<open>fastforce+\<close>)

lemma hints_run_ok:
  assumes "hints_ok h"
  shows "\<exists>h'. hints_run ops h = Ok h' \<and> hints_ok h' \<and>
    revision h' = revision h + word_of_nat (length (filter hint_changes ops))"
  using assms
proof (induction ops arbitrary: h)
  case (Cons op ops)
  obtain h1 where h1: "hint_do op h = Ok h1" "hints_ok h1"
    "revision h1 = revision h + (if hint_changes op then 1 else 0)"
    using hint_do_ok [OF Cons.prems] by blast
  show ?case
    using Cons.IH [OF h1(2)] h1 by (auto simp: algebra_simps)
qed simp

text \<open>
  C30: an answer that was looked up before the cache changed is never cached: when, between a load and the
  fill with its revision, any store or invalidation happens (of any key, amid other loads and fills), the
  fill changes nothing.
\<close>

theorem stale_fill_ignored:
  assumes "hints_ok h" and "hints_load h uid name = ((m, found, rv), h1)"
    and "hints_run ops h1 = Ok h2" and "length ops < 2 ^ 64" and "\<exists>op \<in> set ops. hint_changes op"
  shows "hints_fill h2 uid name n rv = Ok h2"
proof -
  let ?k = "length (filter hint_changes ops)"
  have k: "0 < ?k" "?k < 2 ^ 64"
    using assms(4,5) le_less_trans [OF length_filter_le, of ops "2 ^ 64" hint_changes]
    by (auto simp: filter_empty_conv)
  have "(word_of_nat ?k :: uint64) \<noteq> 0"
    using k by (simp add: word_of_nat_eq_0_iff nat_dvd_not_less)
  moreover have "rv = revision h1" "hints_ok h1"
    using load_refines [OF assms(1,2)] by auto
  moreover have "revision h2 = revision h1 + word_of_nat ?k"
    using hints_run_ok [OF \<open>hints_ok h1\<close>, of ops] assms(3) by auto
  ultimately show ?thesis
    by (simp add: hints_fill_def)
qed

theorem stale_fill_ignored_witness:
  "hints_fill (hints_invalidate example_hints 7 ''game'') 7 ''game'' ''n1'' 0 = Ok (hints_invalidate example_hints 7 ''game'')"
  using stale_fill_ignored [of example_hints 7 "''game''" "''''" False 0 example_hints
      "[OpInvalidate 7 ''game'']" "hints_invalidate example_hints 7 ''game''" "''n1''"]
    hints_ok_new [OF example_hints_new]
  by (simp add: hints_load_def example_hints_def newSourceHints_def)

end
