(* ===== verification/Dispatcher.thy ===== *)
theory Dispatcher
  imports Go_Prelude Go_Map
begin

text \<open>
  Routing of requests to service instances (\<open>internal/dispatcher\<close>): the table rebuilt from the
  registry, and the dispatch strategies of a route: direct, random, round robin, and smooth
  weighted round robin.  Endpoints come from \<open>core/endpoint\<close>.
\<close>

section \<open>Endpoints\<close>

text \<open>
  \<open>url.Parse\<close> and the query lookup of package \<open>net/url\<close> are arguments.
\<close>

record 'u Endpoint =
  raw :: 'u
  isSecure :: bool

definition ParseEndpoint ::
    "(string \<Rightarrow> 'u res) \<Rightarrow> ('u \<Rightarrow> string \<Rightarrow> string) \<Rightarrow> string \<Rightarrow> 'u Endpoint res" where
  "ParseEndpoint urlParse queryGet s =
     and_then (urlParse s) (\<lambda>u. Ok \<lparr>raw = u, isSecure = (queryGet u ''is_secure'' = ''true'')\<rparr>)"

section \<open>Services and routes\<close>

record registry_Route =
  rt_ID :: int32
  rt_Internal :: bool
  rt_Stateful :: bool
  rt_Authorized :: bool

record ServiceInstance =
  si_ID :: string
  si_Alias :: string
  si_State :: string
  si_Events :: "int list"
  si_Routes :: "registry_Route list"
  si_Endpoint :: string
  si_Weight :: int

record 'u serviceEndpoint =
  insID :: string
  se_state :: string
  se_endpoint :: "'u Endpoint"
  weight :: int
  currWeight :: int

text \<open>The lists by state, and the index of all instances.\<close>

record 'u abstract =
  endpoints1 :: "'u serviceEndpoint list"
  endpoints2 :: "'u serviceEndpoint list"
  endpoints3 :: "'u serviceEndpoint list"
  endpoints4 :: "'u serviceEndpoint list"
  endpoints5 :: "(string, 'u serviceEndpoint) gomap"

definition newAbstract :: "'u abstract" where
  "newAbstract =
     \<lparr>endpoints1 = [], endpoints2 = [], endpoints3 = [], endpoints4 = [], endpoints5 = []\<rparr>"

definition addServiceEndpoint :: "'u abstract \<Rightarrow> 'u serviceEndpoint \<Rightarrow> 'u abstract" where
  "addServiceEndpoint a se =
     (let a = (if se_state se = ''work'' then a\<lparr>endpoints1 := endpoints1 a @ [se]\<rparr>
               else if se_state se = ''busy'' then a\<lparr>endpoints2 := endpoints2 a @ [se]\<rparr>
               else if se_state se = ''hang'' then a\<lparr>endpoints3 := endpoints3 a @ [se]\<rparr>
               else if se_state se = ''shut'' then a\<lparr>endpoints4 := endpoints4 a @ [se]\<rparr>
               else a)
      in a\<lparr>endpoints5 := gm_set (endpoints5 a) (insID se) se\<rparr>)"

record 'u Route =
  r_abstract :: "'u abstract"
  r_route :: registry_Route
  r_group :: string
  r_counter :: uint64

definition newRoute :: "string \<Rightarrow> registry_Route \<Rightarrow> 'u Route" where
  "newRoute grp route =
     \<lparr>r_abstract = newAbstract, r_route = route, r_group = grp, r_counter = 0\<rparr>"

record 'u Event =
  e_abstract :: "'u abstract"
  e_event :: int

definition newEvent :: "int \<Rightarrow> 'u Event" where
  "newEvent event = \<lparr>e_abstract = newAbstract, e_event = event\<rparr>"

section \<open>Strategies\<close>

definition directDispatch :: "'u Route \<Rightarrow> string \<Rightarrow> 'u Endpoint res" where
  "directDispatch r ins =
     (case gm_get (endpoints5 (r_abstract r)) ins of
        None \<Rightarrow> Err ErrNotFoundEndpoint | Some se \<Rightarrow> Ok (se_endpoint se))"

text \<open>\<open>rnd n\<close> is the number \<open>rand.IntN(n)\<close> draws.\<close>

definition randomDispatch :: "(nat \<Rightarrow> nat) \<Rightarrow> 'u Route \<Rightarrow> 'u Endpoint res" where
  "randomDispatch rnd r =
     (let e1 = endpoints1 (r_abstract r); e2 = endpoints2 (r_abstract r)
      in if 0 < length e1 then Ok (se_endpoint (e1 ! rnd (length e1)))
         else if 0 < length e2 then Ok (se_endpoint (e2 ! rnd (length e2)))
         else Err ErrNotFoundEndpoint)"

definition roundRobinDispatch :: "'u Route \<Rightarrow> 'u Endpoint res \<times> 'u Route" where
  "roundRobinDispatch r =
     (let e1 = endpoints1 (r_abstract r); e2 = endpoints2 (r_abstract r); c = r_counter r + 1
      in if 0 < length e1
         then (Ok (se_endpoint (e1 ! unat (c mod word_of_nat (length e1)))), r\<lparr>r_counter := c\<rparr>)
         else if 0 < length e2
         then (Ok (se_endpoint (e2 ! unat (c mod word_of_nat (length e2)))), r\<lparr>r_counter := c\<rparr>)
         else (Err ErrNotFoundEndpoint, r))"

text \<open>
  One pass over the endpoints: every current weight grows by the weight, the first largest one is
  selected.  \<open>selected\<close> is a pointer into the list, here an index.
\<close>

definition wrr_step ::
    "'u serviceEndpoint list \<times> nat option \<times> int \<Rightarrow> nat \<Rightarrow>
     'u serviceEndpoint list \<times> nat option \<times> int" where
  "wrr_step st i =
     (case st of (ses, selected, totalWeight) \<Rightarrow>
        let ses = ses[i := (ses ! i)\<lparr>currWeight := go_int (currWeight (ses ! i) + weight (ses ! i))\<rparr>];
            totalWeight = go_int (totalWeight + weight (ses ! i));
            selected = (case selected of
                None \<Rightarrow> Some i
              | Some j \<Rightarrow> if currWeight (ses ! i) > currWeight (ses ! j) then Some i else Some j)
        in (ses, selected, totalWeight))"

definition wrr_select ::
    "'u serviceEndpoint list \<Rightarrow> nat \<times> 'u serviceEndpoint list" where
  "wrr_select ses =
     (case foldl wrr_step (ses, None, 0) [0..<length ses] of
        (ses, selected, totalWeight) \<Rightarrow>
          let j = the selected
          in (j, ses[j := (ses ! j)\<lparr>currWeight := go_int (currWeight (ses ! j) - totalWeight)\<rparr>]))"

definition weightRoundRobinDispatch :: "'u Route \<Rightarrow> 'u Endpoint res \<times> 'u Route" where
  "weightRoundRobinDispatch r =
     (let a = r_abstract r
      in if 0 < length (endpoints1 a)
         then (case wrr_select (endpoints1 a) of (j, ses) \<Rightarrow>
                 (Ok (se_endpoint (ses ! j)), r\<lparr>r_abstract := a\<lparr>endpoints1 := ses\<rparr>\<rparr>))
         else if 0 < length (endpoints2 a)
         then (case wrr_select (endpoints2 a) of (j, ses) \<Rightarrow>
                 (Ok (se_endpoint (ses ! j)), r\<lparr>r_abstract := a\<lparr>endpoints2 := ses\<rparr>\<rparr>))
         else (Err ErrNotFoundEndpoint, r))"

definition Route_FindEndpoint ::
    "(nat \<Rightarrow> nat) \<Rightarrow> string \<Rightarrow> 'u Route \<Rightarrow> string list \<Rightarrow> 'u Endpoint res \<times> 'u Route" where
  "Route_FindEndpoint rnd dispatch r ins =
     (if length ins = 0 \<or> hd ins = '''' then
        (if dispatch = ''rr'' then roundRobinDispatch r
         else if dispatch = ''wrr'' then weightRoundRobinDispatch r
         else (randomDispatch rnd r, r))
      else (directDispatch r (hd ins), r))"

text \<open>\<open>VisitEndpoints\<close> of an event: the instances by state; the function carries a state.\<close>

fun visit_endpoints ::
    "(string \<Rightarrow> 'u Endpoint \<Rightarrow> 's \<Rightarrow> bool \<times> 's) \<Rightarrow> 'u serviceEndpoint list \<Rightarrow> 's \<Rightarrow> bool \<times> 's" where
  "visit_endpoints fn [] s = (True, s)"
| "visit_endpoints fn (se # ses) s =
     (case fn (insID se) (se_endpoint se) s of
        (ok, s) \<Rightarrow> if \<not> ok then (False, s) else visit_endpoints fn ses s)"

definition Event_VisitEndpoints ::
    "(string \<Rightarrow> 'u Endpoint \<Rightarrow> 's \<Rightarrow> bool \<times> 's) \<Rightarrow> 'u Event \<Rightarrow> 's \<Rightarrow> 's" where
  "Event_VisitEndpoints fn e s =
     (let a = e_abstract e in
      case visit_endpoints fn (endpoints1 a) s of (ok, s) \<Rightarrow>
      if \<not> ok then s else case visit_endpoints fn (endpoints2 a) s of (ok, s) \<Rightarrow>
      if \<not> ok then s else case visit_endpoints fn (endpoints3 a) s of (ok, s) \<Rightarrow>
      if \<not> ok then s else snd (visit_endpoints fn (endpoints4 a) s))"

section \<open>The table\<close>

record 'u Dispatcher =
  d_dispatch :: string
  d_routes :: "(int32, 'u Route) gomap"
  d_events :: "(int, 'u Event) gomap"
  d_endpoints :: "(string, 'u Endpoint) gomap"
  d_instances :: "(string, ServiceInstance) gomap"

definition NewDispatcher :: "string \<Rightarrow> 'u Dispatcher" where
  "NewDispatcher dispatch =
     \<lparr>d_dispatch = dispatch, d_routes = [], d_events = [], d_endpoints = [], d_instances = []\<rparr>"

definition EndpointCount :: "'u Dispatcher \<Rightarrow> nat" where
  "EndpointCount d = gm_len (d_endpoints d)"

definition Dispatcher_FindEndpoint :: "'u Dispatcher \<Rightarrow> string \<Rightarrow> 'u Endpoint res" where
  "Dispatcher_FindEndpoint d ins =
     (case gm_get (d_endpoints d) ins of None \<Rightarrow> Err ErrNotFoundEndpoint | Some ep \<Rightarrow> Ok ep)"

definition FindRoute :: "'u Dispatcher \<Rightarrow> int32 \<Rightarrow> 'u Route res" where
  "FindRoute d route =
     (case gm_get (d_routes d) route of None \<Rightarrow> Err ErrNotFoundRoute | Some r \<Rightarrow> Ok r)"

definition FindEvent :: "'u Dispatcher \<Rightarrow> int \<Rightarrow> 'u Event res" where
  "FindEvent d event =
     (case gm_get (d_events d) event of None \<Rightarrow> Err ErrNotFoundEvent | Some e \<Rightarrow> Ok e)"

definition service_endpoint :: "ServiceInstance \<Rightarrow> 'u Endpoint \<Rightarrow> 'u serviceEndpoint" where
  "service_endpoint service ep =
     \<lparr>insID = si_ID service, se_state = si_State service, se_endpoint = ep,
      weight = si_Weight service, currWeight = 0\<rparr>"

text \<open>The two inner loops of \<open>ReplaceServices\<close>.\<close>

definition add_route ::
    "ServiceInstance \<Rightarrow> 'u Endpoint \<Rightarrow> (int32, 'u Route) gomap \<Rightarrow> registry_Route \<Rightarrow> (int32, 'u Route) gomap" where
  "add_route service ep routes item =
     (let route = (case gm_get routes (rt_ID item) of
                     None \<Rightarrow> newRoute (si_Alias service) item | Some r \<Rightarrow> r);
          route = route\<lparr>r_abstract := addServiceEndpoint (r_abstract route) (service_endpoint service ep)\<rparr>
      in gm_set routes (rt_ID item) route)"

definition add_event ::
    "ServiceInstance \<Rightarrow> 'u Endpoint \<Rightarrow> (int, 'u Event) gomap \<Rightarrow> int \<Rightarrow> (int, 'u Event) gomap" where
  "add_event service ep events evt =
     (let event = (case gm_get events evt of None \<Rightarrow> newEvent evt | Some e \<Rightarrow> e);
          event = event\<lparr>e_abstract := addServiceEndpoint (e_abstract event) (service_endpoint service ep)\<rparr>
      in gm_set events evt event)"

definition add_service :: "(string \<Rightarrow> 'u Endpoint res) \<Rightarrow> 'u Dispatcher \<Rightarrow> ServiceInstance \<Rightarrow> 'u Dispatcher" where
  "add_service parse d service =
     (case parse (si_Endpoint service) of
        Ok ep \<Rightarrow>
          d\<lparr>d_endpoints := gm_set (d_endpoints d) (si_ID service) ep,
            d_instances := gm_set (d_instances d) (si_ID service) service,
            d_routes := foldl (add_route service ep) (d_routes d) (si_Routes service),
            d_events := foldl (add_event service ep) (d_events d) (si_Events service)\<rparr>
      | _ \<Rightarrow> d)"

definition ReplaceServices ::
    "(string \<Rightarrow> 'u res) \<Rightarrow> ('u \<Rightarrow> string \<Rightarrow> string) \<Rightarrow> 'u Dispatcher \<Rightarrow> ServiceInstance list \<Rightarrow>
     'u Dispatcher" where
  "ReplaceServices urlParse queryGet d services =
     foldl (add_service (ParseEndpoint urlParse queryGet)) (NewDispatcher (d_dispatch d)) services"

section \<open>Smooth weighted round robin\<close>

text \<open>
  The weights and current weights of a list.  The bounds below keep every sum within the 64-bit
  range, so that \<open>go_int\<close> never changes a value.
\<close>

definition total_weight :: "'u serviceEndpoint list \<Rightarrow> int" where
  "total_weight ses = sum_list (map weight ses)"

definition wrr_ok :: "'u serviceEndpoint list \<Rightarrow> bool" where
  "wrr_ok ses \<longleftrightarrow>
     (\<forall>se \<in> set ses. 0 \<le> weight se) \<and> 0 < total_weight ses \<and>
     (int (length ses) + 1) * total_weight ses < 2 ^ 63 \<and>
     sum_list (map currWeight ses) = 0 \<and> (\<forall>se \<in> set ses. - total_weight ses < currWeight se)"

definition grown :: "'u serviceEndpoint \<Rightarrow> 'u serviceEndpoint" where
  "grown se = se\<lparr>currWeight := currWeight se + weight se\<rparr>"

text \<open>The first index of a largest element.\<close>

definition first_max :: "int list \<Rightarrow> nat \<Rightarrow> bool" where
  "first_max xs j \<longleftrightarrow> j < length xs \<and> (\<forall>i < length xs. xs ! i \<le> xs ! j) \<and> (\<forall>i < j. xs ! i < xs ! j)"

lemma first_max_unique: "first_max xs i \<Longrightarrow> first_max xs j \<Longrightarrow> i = j"
  unfolding first_max_def by (metis leD linorder_neqE_nat)

lemma sum_list_ge:
  fixes f :: "'a \<Rightarrow> int"
  assumes "\<And>x. x \<in> set xs \<Longrightarrow> 0 \<le> f x"
  shows "0 \<le> sum_list (map f xs)" and "x \<in> set xs \<Longrightarrow> f x \<le> sum_list (map f xs)"
  using assms by (induction xs) (fastforce simp: add_increasing)+

lemma sum_list_take_le:
  fixes f :: "'a \<Rightarrow> int"
  assumes "\<And>x. x \<in> set xs \<Longrightarrow> 0 \<le> f x"
  shows "sum_list (map f (take n xs)) \<le> sum_list (map f xs)"
proof -
  have "sum_list (map f xs) = sum_list (map f (take n xs)) + sum_list (map f (drop n xs))"
    by (metis append_take_drop_id map_append sum_list_append)
  moreover have "0 \<le> sum_list (map f (drop n xs))"
    using assms by (intro sum_list_ge) (auto dest: in_set_dropD)
  ultimately show ?thesis by simp
qed

text \<open>No current weight exceeds the others' debts.\<close>

lemma curr_upper:
  assumes "wrr_ok ses" and "se \<in> set ses"
  shows "currWeight se \<le> (int (length ses) - 1) * total_weight ses"
proof -
  obtain xs ys where ses: "ses = xs @ se # ys"
    using assms(2) by (meson split_list)
  have low: "- (int (length zs) * total_weight ses) \<le> sum_list (map currWeight zs)" if "set zs \<subseteq> set ses" for zs
    using that
  proof (induction zs)
    case (Cons z zs)
    then have "- total_weight ses < currWeight z"
      using assms(1) by (auto simp: wrr_ok_def)
    then show ?case
      using Cons by (simp add: algebra_simps)
  qed simp
  have "sum_list (map currWeight (xs @ ys)) + currWeight se = 0"
    using assms(1) by (simp add: wrr_ok_def ses)
  moreover have "- (int (length (xs @ ys)) * total_weight ses) \<le> sum_list (map currWeight (xs @ ys))"
    by (rule low) (auto simp: ses)
  moreover have "int (length ses) - 1 = int (length (xs @ ys))"
    by (simp add: ses)
  ultimately show ?thesis
    by (simp only:)
qed

lemma weight_bounds:
  assumes "wrr_ok ses" and "se \<in> set ses"
  shows "0 \<le> weight se" and "weight se \<le> total_weight ses"
  using assms sum_list_ge(2) [of ses weight se] by (auto simp: wrr_ok_def total_weight_def)

lemma grow_exact:
  assumes ok: "wrr_ok ses" and se: "se \<in> set ses"
  shows "go_int (currWeight se + weight se) = currWeight se + weight se"
    and "go_int (currWeight se + weight se - total_weight ses) = currWeight se + weight se - total_weight ses"
proof -
  let ?W = "total_weight ses"
  have b: "- ?W < currWeight se" "currWeight se \<le> (int (length ses) - 1) * ?W" "0 \<le> weight se" "weight se \<le> ?W"
    "0 < ?W" "(int (length ses) + 1) * ?W < 2 ^ 63"
    using ok se curr_upper [OF ok se] weight_bounds [OF ok se] by (auto simp: wrr_ok_def)
  have up: "currWeight se + weight se < 2 ^ 63"
    using b by (simp add: algebra_simps)
  have "1 \<le> int (length ses)"
    using se by (cases ses) auto
  then have "2 * ?W \<le> (int (length ses) + 1) * ?W"
    using b(5) by (intro mult_right_mono) auto
  then have lo: "- (2 ^ 63) \<le> currWeight se + weight se - ?W"
    using b by linarith
  show "go_int (currWeight se + weight se) = currWeight se + weight se"
    using up lo b by (intro go_int_id) linarith+
  show "go_int (currWeight se + weight se - ?W) = currWeight se + weight se - ?W"
    using up lo b by (intro go_int_id) linarith+
qed

lemma first_max_snoc:
  assumes "first_max xs j"
  shows "first_max (xs @ [x]) (if x > xs ! j then length xs else j)"
  using assms by (auto simp: first_max_def nth_append less_Suc_eq intro: order_trans le_less_trans)

lemma first_max_single: "first_max [x] 0"
  by (simp add: first_max_def)

text \<open>The pass over the list: all current weights grow and the first largest is selected.\<close>

lemma wrr_scan:
  assumes ok: "wrr_ok ses" and "n \<le> length ses"
  shows "\<exists>sel. foldl wrr_step (ses, None, 0) [0..<n] =
      (map grown (take n ses) @ drop n ses, sel, sum_list (map weight (take n ses))) \<and>
      (if n = 0 then sel = None
       else \<exists>j. sel = Some j \<and> first_max (map (\<lambda>se. currWeight se + weight se) (take n ses)) j)"
  using assms(2)
proof (induction n)
  case (Suc n)
  let ?xs = "map (\<lambda>se. currWeight se + weight se) (take n ses)"
  let ?se = "ses ! n"
  have n: "n < length ses" and se: "?se \<in> set ses"
    using Suc.prems by auto
  obtain sel where IH: "foldl wrr_step (ses, None, 0) [0..<n] =
      (map grown (take n ses) @ drop n ses, sel, sum_list (map weight (take n ses)))"
    "if n = 0 then sel = None else \<exists>j. sel = Some j \<and> first_max ?xs j"
    using Suc.IH n by auto
  have nth: "(map grown (take n ses) @ drop n ses) ! n = ?se"
    using n by (simp add: nth_append)
  have upd: "(map grown (take n ses) @ drop n ses)[n := grown ?se] = map grown (take (Suc n) ses) @ drop (Suc n) ses"
    using n by (simp add: list_update_append take_Suc_conv_app_nth Cons_nth_drop_Suc [symmetric])
  have tw: "go_int (sum_list (map weight (take n ses)) + weight ?se) = sum_list (map weight (take (Suc n) ses))"
  proof -
    have "0 \<le> sum_list (map weight (take (Suc n) ses))" "sum_list (map weight (take (Suc n) ses)) \<le> total_weight ses"
      using ok sum_list_ge(1) [of "take (Suc n) ses" weight] sum_list_take_le [of ses weight "Suc n"]
      by (auto simp: wrr_ok_def total_weight_def dest: in_set_takeD)
    moreover have "total_weight ses < 2 ^ 63"
      using ok by (auto simp: wrr_ok_def algebra_simps) (smt (verit) mult_nonneg_nonneg of_nat_0_le_iff)
    ultimately show ?thesis
      using n by (simp add: take_Suc_conv_app_nth)
  qed
  have xs: "map (\<lambda>se. currWeight se + weight se) (take (Suc n) ses) = ?xs @ [currWeight ?se + weight ?se]"
    using n by (simp add: take_Suc_conv_app_nth)
  have step: "wrr_step (map grown (take n ses) @ drop n ses, sel, sum_list (map weight (take n ses))) n =
      (map grown (take (Suc n) ses) @ drop (Suc n) ses,
       (case sel of None \<Rightarrow> Some n
        | Some j \<Rightarrow> if currWeight ?se + weight ?se > currWeight ((map grown (take (Suc n) ses) @ drop (Suc n) ses) ! j)
                   then Some n else Some j),
       sum_list (map weight (take (Suc n) ses)))"
  proof -
    let ?L = "map grown (take n ses) @ drop n ses"
    let ?M = "map grown (take (Suc n) ses) @ drop (Suc n) ses"
    have M: "?L[n := (?L ! n)\<lparr>currWeight := go_int (currWeight (?L ! n) + weight (?L ! n))\<rparr>] = ?M"
      using upd by (simp only: nth grow_exact(1) [OF ok se] grown_def)
    have Mn: "?M ! n = grown ?se"
      using n by (simp add: nth_append take_Suc_conv_app_nth)
    have g: "currWeight (grown ?se) = currWeight ?se + weight ?se" "weight (grown ?se) = weight ?se"
      by (simp_all add: grown_def)
    show ?thesis
      unfolding wrr_step_def prod.case Let_def M Mn g tw by simp
  qed
  show ?case
  proof (cases "n = 0")
    case True
    then show ?thesis
      using IH step xs first_max_single by simp
  next
    case False
    then obtain j where j: "sel = Some j" "first_max ?xs j"
      using IH(2) by auto
    then have "j < n"
      using n by (simp add: first_max_def)
    then have "currWeight ((map grown (take (Suc n) ses) @ drop (Suc n) ses) ! j) = ?xs ! j"
      using n by (simp add: nth_append grown_def)
    then show ?thesis
      using IH(1) step j first_max_snoc [OF j(2), of "currWeight ?se + weight ?se"] n xs
      by (auto simp: min_def split: if_splits)
  qed
qed simp

definition charged :: "'u serviceEndpoint list \<Rightarrow> nat \<Rightarrow> 'u serviceEndpoint list" where
  "charged ses j = (map grown ses)[j := (grown (ses ! j))\<lparr>currWeight := currWeight (ses ! j) + weight (ses ! j) - total_weight ses\<rparr>]"

lemma wrr_select_spec:
  assumes ok: "wrr_ok ses"
  obtains j where "wrr_select ses = (j, charged ses j)"
    and "first_max (map (\<lambda>se. currWeight se + weight se) ses) j" and "j < length ses"
proof -
  have ne: "ses \<noteq> []"
    using ok by (auto simp: wrr_ok_def total_weight_def)
  then obtain j where j: "foldl wrr_step (ses, None, 0) [0..<length ses] =
      (map grown ses, Some j, total_weight ses)"
    "first_max (map (\<lambda>se. currWeight se + weight se) ses) j"
    using wrr_scan [OF ok, of "length ses"] by (auto simp: total_weight_def)
  then have lt: "j < length ses"
    by (simp add: first_max_def)
  have "wrr_select ses = (j, charged ses j)"
    using j(1) lt grow_exact(2) [OF ok nth_mem [OF lt]] by (simp add: wrr_select_def charged_def grown_def)
  then show ?thesis
    using that j(2) lt by blast
qed

lemma charged_simps:
  assumes "j < length ses"
  shows "length (charged ses j) = length ses"
    and "i < length ses \<Longrightarrow> currWeight (charged ses j ! i) =
      currWeight (ses ! i) + weight (ses ! i) - (if i = j then total_weight ses else 0)"
    and "i < length ses \<Longrightarrow> weight (charged ses j ! i) = weight (ses ! i)"
    and "i < length ses \<Longrightarrow> se_endpoint (charged ses j ! i) = se_endpoint (ses ! i)"
  using assms by (auto simp: charged_def grown_def nth_list_update)

lemma charged_weights:
  assumes "j < length ses"
  shows "map weight (charged ses j) = map weight ses" and "total_weight (charged ses j) = total_weight ses"
proof -
  show "map weight (charged ses j) = map weight ses"
    using charged_simps [OF assms] by (intro nth_equalityI) simp_all
  then show "total_weight (charged ses j) = total_weight ses"
    by (simp add: total_weight_def)
qed

lemma sum_list_add: "sum_list (map (\<lambda>x. f x + g x) xs) = sum_list (map f xs) + (sum_list (map g xs) :: int)"
  by (induction xs) simp_all

lemma sum_list_upd_int:
  "j < length xs \<Longrightarrow> sum_list (xs[j := v]) = sum_list xs - xs ! j + (v :: int)"
  by (induction xs arbitrary: j) (auto split: nat.split)

lemma charged_sum:
  assumes "j < length ses"
  shows "sum_list (map currWeight (charged ses j)) = sum_list (map currWeight ses)"
proof -
  let ?ys = "map (\<lambda>se. currWeight se + weight se) ses"
  have "map currWeight (charged ses j) = ?ys[j := ?ys ! j - total_weight ses]"
    using assms charged_simps [OF assms] by (intro nth_equalityI) (auto simp: nth_list_update)
  then have "sum_list (map currWeight (charged ses j)) = sum_list ?ys - total_weight ses"
    using assms by (simp add: sum_list_upd_int)
  also have "\<dots> = sum_list (map currWeight ses)"
    by (simp add: sum_list_add total_weight_def)
  finally show ?thesis .
qed

lemma max_positive:
  assumes "first_max xs j" and "0 < sum_list (xs :: int list)"
  shows "0 < xs ! j"
proof (rule ccontr)
  assume "\<not> 0 < xs ! j"
  then have "\<forall>x \<in> set xs. x \<le> 0"
    using assms(1) by (fastforce simp: first_max_def in_set_conv_nth)
  then have "sum_list xs \<le> 0"
    by (induction xs) auto
  then show False
    using assms(2) by simp
qed

lemma wrr_ok_charged:
  assumes ok: "wrr_ok ses" and m: "first_max (map (\<lambda>se. currWeight se + weight se) ses) j"
  shows "wrr_ok (charged ses j)"
proof -
  have lt: "j < length ses"
    using m by (simp add: first_max_def)
  note c = charged_simps [OF lt] charged_weights [OF lt] charged_sum [OF lt]
  have pos: "0 < currWeight (ses ! j) + weight (ses ! j)"
  proof -
    have "0 < sum_list (map (\<lambda>se. currWeight se + weight se) ses)"
      using ok by (simp add: sum_list_add wrr_ok_def total_weight_def)
    from max_positive [OF m this] show ?thesis
      using lt by simp
  qed
  have "- total_weight ses < currWeight (charged ses j ! i)" if "i < length ses" for i
    using ok that pos by (auto simp: c wrr_ok_def dest!: nth_mem) (smt (verit))
  then have "\<forall>se \<in> set (charged ses j). - total_weight ses < currWeight se"
    by (auto simp: in_set_conv_nth c(1))
  moreover have "\<forall>se \<in> set (charged ses j). 0 \<le> weight se"
    using ok nth_mem by (fastforce simp: in_set_conv_nth [of _ "charged ses j"] c wrr_ok_def)
  ultimately show ?thesis
    using ok by (simp add: wrr_ok_def c)
qed

primrec wrr_run :: "nat \<Rightarrow> 'u serviceEndpoint list \<Rightarrow> nat list \<times> 'u serviceEndpoint list" where
  "wrr_run 0 ses = ([], ses)"
| "wrr_run (Suc k) ses =
     (case wrr_select ses of (j, ses) \<Rightarrow> (case wrr_run k ses of (js, ses) \<Rightarrow> (j # js, ses)))"

lemma wrr_run_balance:
  assumes "wrr_ok ses" and "wrr_run k ses = (js, ses')"
  shows "wrr_ok ses' \<and> length js = k \<and> set js \<subseteq> {..<length ses} \<and> length ses' = length ses \<and>
    map weight ses' = map weight ses \<and>
    (\<forall>i < length ses. currWeight (ses' ! i) =
       currWeight (ses ! i) + int k * weight (ses ! i) - total_weight ses * int (count_list js i))"
  using assms
proof (induction k arbitrary: ses js)
  case (Suc k)
  obtain j where j: "wrr_select ses = (j, charged ses j)"
    "first_max (map (\<lambda>se. currWeight se + weight se) ses) j" "j < length ses"
    using wrr_select_spec [OF Suc.prems(1)] .
  obtain js' where js: "wrr_run k (charged ses j) = (js', ses')" "js = j # js'"
    using Suc.prems(2) j(1) by (auto split: prod.splits)
  have "wrr_ok (charged ses j)"
    by (rule wrr_ok_charged [OF Suc.prems(1) j(2)])
  from Suc.IH [OF this js(1)] show ?case
    using j(3) by (auto simp: js(2) charged_simps charged_weights algebra_simps)
qed simp

text \<open>
  Fairness: from rest, one round of as many requests as the total weight gives every instance
  exactly its weight in requests.
\<close>

lemma count_sum:
  "set js \<subseteq> {..<n :: nat} \<Longrightarrow> (\<Sum>i<n. count_list js i) = length js"
  using sum_count_set [of js "{..<n}"] by simp

lemma wrr_fair_counts:
  assumes ok: "wrr_ok ses" and rest: "\<forall>se \<in> set ses. currWeight se = 0"
    and run: "wrr_run (nat (total_weight ses)) ses = (js, ses')" and i: "i < length ses"
  shows "int (count_list js i) = weight (ses ! i)"
proof -
  let ?W = "total_weight ses"
  have W: "0 < ?W"
    using ok by (simp add: wrr_ok_def)
  note b = wrr_run_balance [OF ok run]
  have le: "int (count_list js k) \<le> weight (ses ! k)" if k: "k < length ses" for k
  proof -
    have "total_weight ses' = ?W" and "ses' ! k \<in> set ses'"
      using b k by (auto simp: total_weight_def)
    then have "- ?W < currWeight (ses' ! k)"
      using b unfolding wrr_ok_def by metis
    moreover have "currWeight (ses' ! k) = ?W * (weight (ses ! k) - int (count_list js k))"
      using b k rest W by (simp add: algebra_simps)
    ultimately have "?W * - 1 < ?W * (weight (ses ! k) - int (count_list js k))"
      by simp
    then have "- 1 < weight (ses ! k) - int (count_list js k)"
      by (simp only: mult_less_cancel_left_pos [OF W])
    then show ?thesis by linarith
  qed
  have "(\<Sum>k<length ses. weight (ses ! k) - int (count_list js k)) = 0"
    using b W count_sum [of js "length ses"]
    by (simp add: sum_subtractf total_weight_def sum_list_sum_nth atLeast0LessThan flip: of_nat_sum)
  then have "\<forall>k \<in> {..<length ses}. weight (ses ! k) - int (count_list js k) = 0"
    using le by (subst (asm) sum_nonneg_eq_0_iff) auto
  then show ?thesis
    using i by simp
qed

section \<open>Round robin\<close>

primrec rr_run :: "nat \<Rightarrow> 'u Route \<Rightarrow> 'u Endpoint res list \<times> 'u Route" where
  "rr_run 0 r = ([], r)"
| "rr_run (Suc k) r =
     (case roundRobinDispatch r of (e, r) \<Rightarrow> (case rr_run k r of (es, r) \<Rightarrow> (e # es, r)))"

lemma rr_index:
  assumes "0 < n" and "unat (c :: uint64) + 1 < 2 ^ 64" and "n < 2 ^ 64"
  shows "unat ((c + 1) mod word_of_nat n) = Suc (unat c) mod n" and "unat (c + 1) = Suc (unat c)"
proof -
  have "unat (word_of_nat (Suc (unat c)) :: uint64) = Suc (unat c)"
    using assms(2) by (simp add: unat_of_nat del: of_nat_Suc)
  then show s: "unat (c + 1) = Suc (unat c)"
    by (simp add: add.commute)
  have "unat (word_of_nat n :: uint64) = n"
    using assms(3) by (simp add: unat_of_nat)
  then show "unat ((c + 1) mod word_of_nat n) = Suc (unat c) mod n"
    using s by (simp add: unat_mod_distrib)
qed

text \<open>
  One round of requests is a rotation of the working instances: each of them is chosen exactly
  once.
\<close>

lemma rr_run_nth:
  assumes "endpoints1 (r_abstract r) = ses" and "ses \<noteq> []" and "length ses < 2 ^ 64"
    and "unat (r_counter r) + k < 2 ^ 64"
  shows "length (fst (rr_run k r)) = k \<and>
    (\<forall>i < k. fst (rr_run k r) ! i = Ok (se_endpoint (ses ! ((Suc (unat (r_counter r)) + i) mod length ses))))"
  using assms
proof (induction k arbitrary: r)
  case (Suc k)
  let ?c = "r_counter r + 1"
  let ?r = "r\<lparr>r_counter := ?c\<rparr>"
  have idx: "unat (?c mod word_of_nat (length ses)) = Suc (unat (r_counter r)) mod length ses"
    "unat ?c = Suc (unat (r_counter r))"
    using rr_index [of "length ses" "r_counter r"] Suc.prems by simp_all
  have d: "roundRobinDispatch r = (Ok (se_endpoint (ses ! (Suc (unat (r_counter r)) mod length ses))), ?r)"
    using Suc.prems idx(1) by (simp add: roundRobinDispatch_def)
  have IH: "length (fst (rr_run k ?r)) = k \<and>
    (\<forall>i < k. fst (rr_run k ?r) ! i = Ok (se_endpoint (ses ! ((Suc (unat ?c) + i) mod length ses))))"
    using Suc.IH [of ?r] Suc.prems idx(2) by simp
  show ?case
    using IH idx(2) by (auto simp: d nth_Cons split: prod.splits nat.splits)
qed simp

lemma rr_run_rotate:
  assumes "endpoints1 (r_abstract r) = ses" and "ses \<noteq> []"
    and "unat (r_counter r) + length ses < 2 ^ 64"
  shows "fst (rr_run (length ses) r) =
    map (\<lambda>se. Ok (se_endpoint se)) (rotate (Suc (unat (r_counter r))) ses)"
  using rr_run_nth [OF assms(1,2), of "length ses"] assms(3)
  by (intro nth_equalityI) (simp_all add: nth_rotate add.commute del: rotate_Suc)

section \<open>The rebuilt table\<close>

text \<open>
  What a route holds after the services were replaced: the offers of the services whose endpoint
  parses, in their order.
\<close>

definition route_offers ::
    "(string \<Rightarrow> 'u Endpoint res) \<Rightarrow> ServiceInstance list \<Rightarrow> int32 \<Rightarrow>
     (ServiceInstance \<times> registry_Route \<times> 'u Endpoint) list" where
  "route_offers parse services rid =
     concat (map (\<lambda>s. case parse (si_Endpoint s) of
         Ok ep \<Rightarrow> map (\<lambda>it. (s, it, ep)) (filter (\<lambda>it. rt_ID it = rid) (si_Routes s))
       | _ \<Rightarrow> []) services)"

definition offered :: "(ServiceInstance \<times> registry_Route \<times> 'u Endpoint) list \<Rightarrow> 'u serviceEndpoint list" where
  "offered os = map (\<lambda>(s, it, ep). service_endpoint s ep) os"

definition build_route ::
    "(ServiceInstance \<times> registry_Route \<times> 'u Endpoint) list \<Rightarrow> 'u Route option" where
  "build_route os =
     (case os of
        [] \<Rightarrow> None
      | (s, it, ep) # _ \<Rightarrow>
          Some \<lparr>r_abstract = foldl addServiceEndpoint newAbstract (offered os),
                r_route = it, r_group = si_Alias s, r_counter = 0\<rparr>)"

lemma build_route_snoc:
  "build_route (os @ [(s, it, ep)]) =
     (let route = (case build_route os of None \<Rightarrow> newRoute (si_Alias s) it | Some r \<Rightarrow> r)
      in Some (route\<lparr>r_abstract := addServiceEndpoint (r_abstract route) (service_endpoint s ep)\<rparr>))"
  by (cases os) (auto simp: build_route_def offered_def newRoute_def Let_def split: prod.splits)

lemma add_route_get:
  assumes "\<And>rid. gm_get routes rid = build_route (os rid)"
  shows "gm_get (add_route s ep routes it) rid = build_route (os rid @ (if rt_ID it = rid then [(s, it, ep)] else []))"
  using assms by (auto simp: add_route_def build_route_snoc Let_def)

lemma add_routes_get:
  assumes "\<And>rid. gm_get routes rid = build_route (os rid)"
  shows "gm_get (foldl (add_route s ep) routes items) rid =
    build_route (os rid @ map (\<lambda>it. (s, it, ep)) (filter (\<lambda>it. rt_ID it = rid) items))"
  using assms
proof (induction items arbitrary: routes os)
  case (Cons it items)
  from Cons.IH [OF add_route_get [OF Cons.prems]] show ?case
    by simp
qed simp

lemma add_services_get:
  assumes "\<And>rid. gm_get (d_routes d) rid = build_route (os rid)"
  shows "gm_get (d_routes (foldl (add_service parse) d services)) rid =
    build_route (os rid @ route_offers parse services rid)"
  using assms
proof (induction services arbitrary: d os)
  case (Cons s services)
  have "gm_get (d_routes (add_service parse d s)) rid = build_route (os rid @ route_offers parse [s] rid)" for rid
    using Cons.prems add_routes_get [OF Cons.prems]
    by (auto simp: add_service_def route_offers_def split: res.splits)
  from Cons.IH [OF this] show ?case
    by (simp add: route_offers_def)
qed (simp add: route_offers_def)

lemma ReplaceServices_routes:
  "gm_get (d_routes (ReplaceServices urlParse queryGet d services)) rid =
     build_route (route_offers (ParseEndpoint urlParse queryGet) services rid)"
  using add_services_get [of "NewDispatcher (d_dispatch d)" "\<lambda>_. []"]
  by (simp add: ReplaceServices_def NewDispatcher_def build_route_def)

lemma abstract_lists:
  "endpoints1 (foldl addServiceEndpoint a ses) = endpoints1 a @ filter (\<lambda>se. se_state se = ''work'') ses"
  "endpoints2 (foldl addServiceEndpoint a ses) = endpoints2 a @ filter (\<lambda>se. se_state se = ''busy'') ses"
  "endpoints3 (foldl addServiceEndpoint a ses) = endpoints3 a @ filter (\<lambda>se. se_state se = ''hang'') ses"
  "endpoints4 (foldl addServiceEndpoint a ses) = endpoints4 a @ filter (\<lambda>se. se_state se = ''shut'') ses"
  by (induction ses arbitrary: a) (simp_all add: addServiceEndpoint_def Let_def)

lemma abstract_index:
  "gm_get (endpoints5 (foldl addServiceEndpoint a ses)) k =
     (case filter (\<lambda>se. insID se = k) ses of [] \<Rightarrow> gm_get (endpoints5 a) k | xs \<Rightarrow> Some (last xs))"
  by (induction ses arbitrary: a) (auto simp: addServiceEndpoint_def Let_def split: list.splits)

section \<open>Requests on a route\<close>

primrec wrr_requests :: "nat \<Rightarrow> 'u Route \<Rightarrow> 'u Endpoint res list \<times> 'u Route" where
  "wrr_requests 0 r = ([], r)"
| "wrr_requests (Suc k) r =
     (case weightRoundRobinDispatch r of (e, r) \<Rightarrow> (case wrr_requests k r of (es, r) \<Rightarrow> (e # es, r)))"

lemma wrr_requests_run:
  assumes "wrr_ok (endpoints1 (r_abstract r))"
  shows "fst (wrr_requests k r) =
    map (\<lambda>j. Ok (se_endpoint (endpoints1 (r_abstract r) ! j))) (fst (wrr_run k (endpoints1 (r_abstract r))))"
  using assms
proof (induction k arbitrary: r)
  case (Suc k)
  let ?ses = "endpoints1 (r_abstract r)"
  obtain j where j: "wrr_select ?ses = (j, charged ?ses j)"
    "first_max (map (\<lambda>se. currWeight se + weight se) ?ses) j" "j < length ?ses"
    using wrr_select_spec [OF Suc.prems] .
  let ?r = "r\<lparr>r_abstract := (r_abstract r)\<lparr>endpoints1 := charged ?ses j\<rparr>\<rparr>"
  have d: "weightRoundRobinDispatch r = (Ok (se_endpoint (?ses ! j)), ?r)"
    using j by (auto simp: weightRoundRobinDispatch_def Let_def charged_simps)
  have ok: "wrr_ok (charged ?ses j)"
    by (rule wrr_ok_charged [OF Suc.prems j(2)])
  obtain js ses' where run: "wrr_run k (charged ?ses j) = (js, ses')"
    by fastforce
  have "set js \<subseteq> {..<length ?ses}"
    using wrr_run_balance [OF ok run] j(3) by (simp add: charged_simps)
  then have "map (\<lambda>i. Ok (se_endpoint (charged ?ses j ! i))) js = map (\<lambda>i. Ok (se_endpoint (?ses ! i))) js"
    using charged_simps(4) [OF j(3)] by (intro map_cong) auto
  moreover obtain es r' where es: "wrr_requests k ?r = (es, r')"
    by fastforce
  moreover have "es = map (\<lambda>i. Ok (se_endpoint (charged ?ses j ! i))) js"
    using Suc.IH [of ?r] ok run es by simp
  ultimately show ?case
    using run by (simp only: wrr_requests.simps wrr_run.simps d j(1) prod.case fst_conv list.map es)
qed simp

section \<open>Properties\<close>

definition example_endpoint :: "string \<Rightarrow> int \<Rightarrow> nat serviceEndpoint" where
  "example_endpoint i w =
     \<lparr>insID = i, se_state = ''work'', se_endpoint = \<lparr>raw = length i, isSecure = False\<rparr>, weight = w, currWeight = 0\<rparr>"

definition example_route :: "nat Route" where
  "example_route =
     \<lparr>r_abstract = newAbstract\<lparr>endpoints1 := [example_endpoint ''a'' 5, example_endpoint ''bb'' 1, example_endpoint ''ccc'' 1]\<rparr>,
      r_route = \<lparr>rt_ID = 1, rt_Internal = False, rt_Stateful = False, rt_Authorized = False\<rparr>,
      r_group = ''g'', r_counter = 0\<rparr>"

text \<open>
  C28: weighted round robin is exactly fair: from rest, a round of as many requests as the total weight
  chooses every working instance exactly as often as its weight, whatever the weights are (within the
  64-bit range), and after the round all current weights are back at zero.
\<close>

theorem weighted_round_fair:
  assumes "endpoints1 (r_abstract r) = ses" and "wrr_ok ses" and "\<forall>se \<in> set ses. currWeight se = 0"
  shows "\<exists>js ses'. wrr_run (nat (total_weight ses)) ses = (js, ses') \<and>
    fst (wrr_requests (nat (total_weight ses)) r) = map (\<lambda>j. Ok (se_endpoint (ses ! j))) js \<and>
    (\<forall>i < length ses. int (count_list js i) = weight (ses ! i) \<and> currWeight (ses' ! i) = 0)"
proof -
  obtain js ses' where run: "wrr_run (nat (total_weight ses)) ses = (js, ses')"
    by fastforce
  have "0 < total_weight ses"
    using assms(2) by (simp add: wrr_ok_def)
  then have "int (count_list js i) = weight (ses ! i) \<and> currWeight (ses' ! i) = 0" if "i < length ses" for i
    using wrr_fair_counts [OF assms(2,3) run that] wrr_run_balance [OF assms(2) run] assms(3) that by simp
  then show ?thesis
    using run wrr_requests_run [of r] assms(1,2) by auto
qed

lemma example_wrr_ok:
  "wrr_ok (endpoints1 (r_abstract example_route))"
  by (simp add: example_route_def wrr_ok_def total_weight_def example_endpoint_def)

theorem weighted_round_fair_witness:
  "let ses = endpoints1 (r_abstract example_route)
   in \<exists>js ses'. wrr_run (nat (total_weight ses)) ses = (js, ses') \<and>
    fst (wrr_requests (nat (total_weight ses)) example_route) = map (\<lambda>j. Ok (se_endpoint (ses ! j))) js \<and>
    (\<forall>i < length ses. int (count_list js i) = weight (ses ! i) \<and> currWeight (ses' ! i) = 0)"
  unfolding Let_def
  by (rule weighted_round_fair [OF refl example_wrr_ok]) (simp add: example_route_def example_endpoint_def)

text \<open>
  after the services are replaced, the table is exactly what the new services offer: a route is found if
  and only if a service whose endpoint parses offers it; it lists the offers by state in the order of the
  services, and a direct request for an instance returns the endpoint of that instance's last offer.
  Nothing of the earlier table remains.
\<close>

lemma replaced_table:
  "FindRoute (ReplaceServices urlParse queryGet d services) rid =
     (case build_route (route_offers (ParseEndpoint urlParse queryGet) services rid) of
        None \<Rightarrow> Err ErrNotFoundRoute | Some r \<Rightarrow> Ok r) \<and>
   (FindRoute (ReplaceServices urlParse queryGet d services) rid = Ok r \<longrightarrow>
     (let os = route_offers (ParseEndpoint urlParse queryGet) services rid
      in os \<noteq> [] \<and>
         endpoints1 (r_abstract r) = filter (\<lambda>se. se_state se = ''work'') (offered os) \<and>
         endpoints2 (r_abstract r) = filter (\<lambda>se. se_state se = ''busy'') (offered os) \<and>
         directDispatch r i =
           (case filter (\<lambda>se. insID se = i) (offered os) of
              [] \<Rightarrow> Err ErrNotFoundEndpoint | ses \<Rightarrow> Ok (se_endpoint (last ses)))))"
proof -
  let ?os = "route_offers (ParseEndpoint urlParse queryGet) services rid"
  have f: "FindRoute (ReplaceServices urlParse queryGet d services) rid =
     (case build_route ?os of None \<Rightarrow> Err ErrNotFoundRoute | Some r \<Rightarrow> Ok r)"
    by (simp add: FindRoute_def ReplaceServices_routes)
  moreover have "?os \<noteq> [] \<and> r_abstract r = foldl addServiceEndpoint newAbstract (offered ?os)"
    if "FindRoute (ReplaceServices urlParse queryGet d services) rid = Ok r"
    using that unfolding f by (cases ?os) (auto simp: build_route_def)
  ultimately show ?thesis
    by (auto simp: Let_def abstract_lists directDispatch_def abstract_index newAbstract_def split: list.splits)
qed

lemma replaced_table_witness:
  "FindRoute (ReplaceServices (\<lambda>u. Ok u) (\<lambda>_ _. '''') (NewDispatcher ''rr'')
     [\<lparr>si_ID = ''n1'', si_Alias = ''g'', si_State = ''work'', si_Events = [],
       si_Routes = [\<lparr>rt_ID = 1, rt_Internal = False, rt_Stateful = False, rt_Authorized = False\<rparr>],
       si_Endpoint = ''u'', si_Weight = 1\<rparr>]) 2 =
   (case build_route (route_offers (ParseEndpoint (\<lambda>u. Ok u) (\<lambda>_ _. ''''))
     [\<lparr>si_ID = ''n1'', si_Alias = ''g'', si_State = ''work'', si_Events = [],
       si_Routes = [\<lparr>rt_ID = 1, rt_Internal = False, rt_Stateful = False, rt_Authorized = False\<rparr>],
       si_Endpoint = ''u'', si_Weight = 1\<rparr>] 2) of
        None \<Rightarrow> Err ErrNotFoundRoute | Some r \<Rightarrow> Ok r)"
  by (rule conjunct1 [OF replaced_table])

end
