(* ===== verification/Node_Link.thy ===== *)
theory Node_Link
  imports Source_Hints Dispatcher Session_Types
begin

text \<open>
  The link from any server to the nodes (\<open>internal/link/node.go\<close>): where a user's requests go.  The
  linker keeps the sources of users, either all of them (a map) or a bounded cache of hints beside
  the sources this instance is responsible for; it asks the locator for what it does not know, keeps
  the route table, and sends a request again when the node it had cached is gone.  The locator, the
  transport builder and the action on a client are parameters that act on a state \<open>'e\<close>.
\<close>

section \<open>State\<close>

text \<open>
  \<open>waits\<close> and \<open>dones\<close> count the calls of \<open>WaitHandler\<close> and \<open>DoneHandler\<close>.  The other options of the
  linker configure the transport.
\<close>

record 'u NodeLinker =
  nl_ID :: string
  nl_Kind :: int
  nl_Locator :: bool
  nl_dispatcher :: "'u Dispatcher"
  nl_sources :: "(int64, (string, string) gomap) gomap"
  nl_hints :: "sourceHints option"
  waits :: nat
  dones :: nat

record ('e, 'u, 'c) LinkEnv =
  env_LocateNode :: "'e \<Rightarrow> int64 \<Rightarrow> string \<Rightarrow> 'e \<times> (goerror + string)"
  env_BindNode :: "'e \<Rightarrow> int64 \<Rightarrow> string \<Rightarrow> string \<Rightarrow> 'e \<times> goerror option"
  env_UnbindNode :: "'e \<Rightarrow> int64 \<Rightarrow> string \<Rightarrow> string \<Rightarrow> 'e \<times> goerror option"
  env_Build :: "'e \<Rightarrow> 'u Endpoint \<Rightarrow> 'e \<times> (goerror + 'c)"

definition cluster_Gate :: int where "cluster_Gate = 1"
definition cluster_Node :: int where "cluster_Node = 2"

definition NewNodeLinker :: "string \<Rightarrow> int \<Rightarrow> bool \<Rightarrow> string \<Rightarrow> int \<Rightarrow> 'u NodeLinker res" where
  "NewNodeLinker iid kind loc dispatch cap =
     (if cap < 0 then Panic
      else let l = \<lparr>nl_ID = iid, nl_Kind = kind, nl_Locator = loc, nl_dispatcher = NewDispatcher dispatch,
                    nl_sources = [], nl_hints = None, waits = 0, dones = 0\<rparr>
           in if cap > 0 then and_then (newSourceHints cap) (\<lambda>h. Ok (l\<lparr>nl_hints := Some h\<rparr>)) else Ok l)"

section \<open>Sources\<close>

definition storeLegacySource :: "'u NodeLinker \<Rightarrow> int64 \<Rightarrow> string \<Rightarrow> string \<Rightarrow> 'u NodeLinker" where
  "storeLegacySource l uid name nid =
     (case (case gm_get (nl_sources l) uid of
              Some sources \<Rightarrow>
                (case gm_get sources name of
                   Some oldNID \<Rightarrow>
                     if oldNID = nid then (l, False, False)
                     else (l\<lparr>nl_sources := gm_set (nl_sources l) uid (gm_set sources name nid)\<rparr>,
                           if nl_ID l = oldNID then (False, True)
                           else if nl_ID l = nid then (True, False) else (False, False))
                 | None \<Rightarrow>
                     (l\<lparr>nl_sources := gm_set (nl_sources l) uid (gm_set sources name nid)\<rparr>, nl_ID l = nid, False))
            | None \<Rightarrow> (l\<lparr>nl_sources := gm_set (nl_sources l) uid [(name, nid)]\<rparr>, nl_ID l = nid, False)) of
        (l, wait, don) \<Rightarrow>
          let l = (if wait then l\<lparr>waits := waits l + 1\<rparr> else l)
          in if don then l\<lparr>dones := dones l + 1\<rparr> else l)"

definition deleteLegacySource :: "'u NodeLinker \<Rightarrow> int64 \<Rightarrow> string \<Rightarrow> string \<Rightarrow> 'u NodeLinker" where
  "deleteLegacySource l uid name nid =
     (case gm_get (nl_sources l) uid of
        None \<Rightarrow> l
      | Some sources \<Rightarrow>
          (case gm_get sources name of
             None \<Rightarrow> l
           | Some oldNID \<Rightarrow>
               if oldNID \<noteq> nid then l
               else let l = (if gm_len sources = 1 then l\<lparr>nl_sources := gm_del (nl_sources l) uid\<rparr>
                             else l\<lparr>nl_sources := gm_set (nl_sources l) uid (gm_del sources name)\<rparr>)
                    in if oldNID = nl_ID l then l\<lparr>dones := dones l + 1\<rparr> else l))"

definition doStoreSource :: "'u NodeLinker \<Rightarrow> int64 \<Rightarrow> string \<Rightarrow> string \<Rightarrow> 'u NodeLinker res" where
  "doStoreSource l uid name nid =
     (case nl_hints l of
        Some h \<Rightarrow> and_then (hints_store h uid name nid) (\<lambda>h. Ok (l\<lparr>nl_hints := Some h\<rparr>))
      | None \<Rightarrow> Ok (storeLegacySource l uid name nid))"

definition doDeleteSource :: "'u NodeLinker \<Rightarrow> int64 \<Rightarrow> string \<Rightarrow> string \<Rightarrow> 'u NodeLinker" where
  "doDeleteSource l uid name nid =
     (case nl_hints l of
        Some h \<Rightarrow> l\<lparr>nl_hints := Some (hints_invalidate h uid name)\<rparr>
      | None \<Rightarrow> deleteLegacySource l uid name nid)"

definition legacy_source :: "'u NodeLinker \<Rightarrow> int64 \<Rightarrow> string \<Rightarrow> string option" where
  "legacy_source l uid name =
     (case gm_get (nl_sources l) uid of Some sources \<Rightarrow> gm_get sources name | None \<Rightarrow> None)"

definition doLoadSource :: "'u NodeLinker \<Rightarrow> int64 \<Rightarrow> string \<Rightarrow> 'u NodeLinker \<times> string option" where
  "doLoadSource l uid name =
     (case nl_hints l of
        Some h \<Rightarrow>
          (case hints_load h uid name of
             ((nid, ok, _), h) \<Rightarrow> (l\<lparr>nl_hints := Some h\<rparr>, if ok then Some nid else None))
      | None \<Rightarrow> (l, legacy_source l uid name))"

definition InvalidateSessionSourceHints :: "'u NodeLinker \<Rightarrow> int64 \<Rightarrow> 'u NodeLinker" where
  "InvalidateSessionSourceHints l uid =
     (if sint uid \<le> 0 \<or> nl_Kind l \<noteq> cluster_Gate then l
      else case nl_hints l of
        Some h \<Rightarrow> l\<lparr>nl_hints := Some (hints_invalidate h uid ''game'')\<rparr>
      | None \<Rightarrow> l\<lparr>nl_sources := gm_del (nl_sources l) uid\<rparr>)"

text \<open>A missing name reads as the empty string.\<close>

definition LocalBoundUserIDs :: "'u NodeLinker \<Rightarrow> string \<Rightarrow> string \<Rightarrow> int64 list" where
  "LocalBoundUserIDs l name nid =
     map fst (filter (\<lambda>(uid, sources). gm_get0 '''' sources name = nid) (nl_sources l))"

section \<open>Locating, binding and unbinding\<close>

definition LocateNode ::
    "('e, 'u, 'c, 'z) LinkEnv_scheme \<Rightarrow> 'u NodeLinker \<Rightarrow> 'e \<Rightarrow> int64 \<Rightarrow> string \<Rightarrow>
     ('u NodeLinker \<times> 'e \<times> (goerror + string)) res" where
  "LocateNode E l e uid name =
     (if \<not> nl_Locator l then Ok (l, e, Inl ErrNotFoundLocator)
      else case nl_hints l of
        Some h \<Rightarrow>
          (case hints_load h uid name of ((cached, ok, rv), h) \<Rightarrow>
             let l = l\<lparr>nl_hints := Some h\<rparr>
             in if ok then Ok (l, e, Inr cached)
                else (case env_LocateNode E e uid name of
                        (e, Inl err) \<Rightarrow> Ok (l, e, Inl err)
                      | (e, Inr nid) \<Rightarrow>
                          if nid = '''' then Ok (l, e, Inl ErrNotFoundUserLocation)
                          else and_then (hints_fill h uid name nid rv)
                                 (\<lambda>h. Ok (l\<lparr>nl_hints := Some h\<rparr>, e, Inr nid))))
      | None \<Rightarrow>
          (case doLoadSource l uid name of
             (l, Some nid) \<Rightarrow> Ok (l, e, Inr nid)
           | (l, None) \<Rightarrow>
               (case env_LocateNode E e uid name of
                  (e, Inl err) \<Rightarrow> Ok (l, e, Inl err)
                | (e, Inr nid) \<Rightarrow>
                    if nid = '''' then Ok (l, e, Inl ErrNotFoundUserLocation)
                    else and_then (doStoreSource l uid name nid) (\<lambda>l. Ok (l, e, Inr nid)))))"

definition AskNode ::
    "('e, 'u, 'c, 'z) LinkEnv_scheme \<Rightarrow> 'u NodeLinker \<Rightarrow> 'e \<Rightarrow> int64 \<Rightarrow> string \<Rightarrow> string \<Rightarrow>
     ('u NodeLinker \<times> 'e \<times> (goerror + string \<times> bool)) res" where
  "AskNode E l e uid name nid =
     (if nl_hints l \<noteq> None then
        and_then (LocateNode E l e uid name) (\<lambda>(l, e, r).
          Ok (l, e, case r of Inl err \<Rightarrow> Inl err | Inr found \<Rightarrow> Inr (found, found = nid)))
      else if \<not> nl_Locator l then Ok (l, e, Inl ErrNotFoundLocator)
      else (case doLoadSource l uid name of
              (l, Some found) \<Rightarrow> Ok (l, e, Inr (found, found = nid))
            | (l, None) \<Rightarrow>
                (case env_LocateNode E e uid name of
                   (e, Inl err) \<Rightarrow> Ok (l, e, Inl err)
                 | (e, Inr found) \<Rightarrow>
                     if found = '''' then Ok (l, e, Inl ErrNotFoundUserLocation)
                     else and_then (doStoreSource l uid name found) (\<lambda>l. Ok (l, e, Inr (found, found = nid))))))"

definition BindNode ::
    "('e, 'u, 'c, 'z) LinkEnv_scheme \<Rightarrow> 'u NodeLinker \<Rightarrow> 'e \<Rightarrow> int64 \<Rightarrow> string \<Rightarrow> string \<Rightarrow>
     ('u NodeLinker \<times> 'e \<times> goerror option) res" where
  "BindNode E l e uid name nid =
     (if \<not> nl_Locator l then Ok (l, e, Some ErrNotFoundLocator)
      else case env_BindNode E e uid name nid of
        (e, Some err) \<Rightarrow> Ok (l, e, Some err)
      | (e, None) \<Rightarrow>
          let l = (if nl_hints l \<noteq> None \<and> nid = nl_ID l then storeLegacySource l uid name nid else l)
          in and_then (doStoreSource l uid name nid) (\<lambda>l. Ok (l, e, None)))"

definition UnbindNode ::
    "('e, 'u, 'c, 'z) LinkEnv_scheme \<Rightarrow> 'u NodeLinker \<Rightarrow> 'e \<Rightarrow> int64 \<Rightarrow> string \<Rightarrow> string \<Rightarrow>
     ('u NodeLinker \<times> 'e \<times> goerror option) res" where
  "UnbindNode E l e uid name nid =
     (if \<not> nl_Locator l then Ok (l, e, Some ErrNotFoundLocator)
      else case env_UnbindNode E e uid name nid of
        (e, Some err) \<Rightarrow> Ok (l, e, Some err)
      | (e, None) \<Rightarrow>
          let l = (if nl_hints l \<noteq> None then deleteLegacySource l uid name nid else l)
          in Ok (doDeleteSource l uid name nid, e, None))"

text \<open>Events of the locator, numbered as in \<open>locate/locator.go\<close>.\<close>

datatype locate_type = EvBindGate | EvBindNode | EvUnbindGate | EvUnbindNode

record locate_event =
  le_UID :: int64
  le_Type :: locate_type
  le_InsID :: string
  le_InsName :: string

definition applySourceEvent :: "'u NodeLinker \<Rightarrow> locate_event \<Rightarrow> 'u NodeLinker res" where
  "applySourceEvent l event =
     (if le_Type event \<noteq> EvBindNode \<and> le_Type event \<noteq> EvUnbindNode then Ok l
      else case nl_hints l of
        Some h \<Rightarrow> Ok (l\<lparr>nl_hints := Some (hints_invalidate h (le_UID event) (le_InsName event))\<rparr>)
      | None \<Rightarrow>
          if le_Type event = EvBindNode
          then doStoreSource l (le_UID event) (le_InsName event) (le_InsID event)
          else Ok (doDeleteSource l (le_UID event) (le_InsName event) (le_InsID event)))"

section \<open>Remote calls\<close>

text \<open>A route is shared with the table: what a dispatch changes in it is written back.\<close>

definition put_route :: "'u NodeLinker \<Rightarrow> int32 \<Rightarrow> 'u Route \<Rightarrow> 'u NodeLinker" where
  "put_route l routeID route =
     l\<lparr>nl_dispatcher := (nl_dispatcher l)\<lparr>d_routes := gm_set (d_routes (nl_dispatcher l)) routeID route\<rparr>\<rparr>"

definition doBuildClient ::
    "('e, 'u, 'c, 'z) LinkEnv_scheme \<Rightarrow> 'u NodeLinker \<Rightarrow> 'e \<Rightarrow> string \<Rightarrow> 'e \<times> (goerror + 'c)" where
  "doBuildClient E l e nid =
     (if nid = '''' then (e, Inl ErrInvalidNID)
      else case Dispatcher_FindEndpoint (nl_dispatcher l) nid of
        Ok ep \<Rightarrow> env_Build E e ep
      | Err err \<Rightarrow> (e, Inl err)
      | Panic \<Rightarrow> (e, Inl ErrUnknownError))"

text \<open>
  \<open>doRPC\<close>: the action \<open>fn\<close> is run on a client, with a state \<open>'x\<close> of its own; it returns whether to try
  again, a reply and an error.  The loop runs twice; \<open>nid\<close>, \<open>prev\<close>, \<open>reply\<close> and \<open>err\<close> are its variables.
\<close>

type_synonym ('e, 'x, 'c, 'r) rpc_action = "'e \<Rightarrow> 'x \<Rightarrow> 'c \<Rightarrow> 'e \<times> 'x \<times> bool \<times> 'r option \<times> goerror option"

fun doRPC_loop ::
    "nat \<Rightarrow> ('e, 'u, 'c, 'z) LinkEnv_scheme \<Rightarrow> (nat \<Rightarrow> nat) \<Rightarrow> 'u NodeLinker \<Rightarrow> 'e \<Rightarrow> 'x \<Rightarrow> 'u Route \<Rightarrow> int32 \<Rightarrow> int64 \<Rightarrow>
     ('e, 'x, 'c, 'r) rpc_action \<Rightarrow> string \<Rightarrow> string \<Rightarrow> 'r option \<Rightarrow> goerror option \<Rightarrow>
     ('u NodeLinker \<times> 'e \<times> 'x \<times> 'r option \<times> goerror option) res" where
  "doRPC_loop 0 E rnd l e x route routeID uid fn nid prev reply err = Ok (l, e, x, reply, err)"
| "doRPC_loop (Suc k) E rnd l e x route routeID uid fn nid prev reply err =
     and_then
       (if rt_Stateful (r_route route) then LocateNode E l e uid (r_group route) else Ok (l, e, Inr nid))
       (\<lambda>(l, e, loc).
        case loc of
          Inl err \<Rightarrow> Ok (l, e, x, None, Some err)
        | Inr nid \<Rightarrow>
            if rt_Stateful (r_route route) \<and> nid = prev then Ok (l, e, x, reply, None)
            else let prev = (if rt_Stateful (r_route route) then nid else prev)
                 in case Route_FindEndpoint rnd (d_dispatch (nl_dispatcher l)) route [nid] of (ep, route) \<Rightarrow>
                    let l = put_route l routeID route
                    in (case ep of
                          Err err \<Rightarrow> Ok (l, e, x, None, Some err)
                        | Panic \<Rightarrow> Panic
                        | Ok ep \<Rightarrow>
                            (case env_Build E e ep of
                               (e, Inl err) \<Rightarrow>
                                 if rt_Stateful (r_route route) \<and> prev \<noteq> '''' then
                                   doRPC_loop k E rnd (doDeleteSource l uid (r_group route) prev) e x route
                                     routeID uid fn nid prev reply (Some err)
                                 else Ok (l, e, x, None, Some err)
                             | (e, Inr client) \<Rightarrow>
                                 (case fn e x client of (e, x, continued, reply, err) \<Rightarrow>
                                    if continued then
                                      doRPC_loop k E rnd
                                        (if rt_Stateful (r_route route)
                                         then doDeleteSource l uid (r_group route) prev else l) e x route
                                        routeID uid fn nid prev reply err
                                    else Ok (l, e, x, reply, err)))))"

definition doRPC ::
    "('e, 'u, 'c, 'z) LinkEnv_scheme \<Rightarrow> (nat \<Rightarrow> nat) \<Rightarrow> 'u NodeLinker \<Rightarrow> 'e \<Rightarrow> 'x \<Rightarrow> int32 \<Rightarrow> int64 \<Rightarrow>
     ('e, 'x, 'c, 'r) rpc_action \<Rightarrow> ('u NodeLinker \<times> 'e \<times> 'x \<times> 'r option \<times> goerror option) res" where
  "doRPC E rnd l e x routeID uid fn =
     (case FindRoute (nl_dispatcher l) routeID of
        Err err \<Rightarrow> Ok (l, e, x, None, Some err)
      | Panic \<Rightarrow> Panic
      | Ok route \<Rightarrow>
          if uid = 0 \<and> (rt_Stateful (r_route route) \<or> rt_Authorized (r_route route))
          then Ok (l, e, x, None, Some ErrIllegalRequest)
          else if nl_Kind l = cluster_Gate \<and> rt_Internal (r_route route)
          then Ok (l, e, x, None, Some ErrIllegalRequest)
          else doRPC_loop 2 E rnd l e x route routeID uid fn '''' '''' None None)"

section \<open>Delivery\<close>

text \<open>
  What \<open>args.Buffer\<close> can be: the bytes of an inbound frame, a buffer, a message (with the result of
  packing it), anything else.  \<open>env_Deliver\<close> is \<open>DeliverWithMetadata\<close> of a client with the other
  arguments of the delivery; it consumes the buffer.
\<close>

datatype 'b deliver_arg = ArgBytes 'b | ArgBuffer 'b | ArgMessage "goerror + 'b" | ArgOther

record ('e, 'u, 'c, 'b) DeliverEnv = "('e, 'u, 'c) LinkEnv" +
  env_Deliver :: "'e \<Rightarrow> 'c \<Rightarrow> 'b \<Rightarrow> 'e \<times> goerror option"
  env_Release :: "'e \<Rightarrow> 'b \<Rightarrow> 'e"

text \<open>The variables the closure of \<open>deliver\<close> shares with it.\<close>

record 'b deliver_vars =
  dv_buf :: 'b
  deliverTries :: nat
  isDeliver :: bool

definition deliver_action ::
    "('e, 'u, 'c, 'b) DeliverEnv \<Rightarrow> 'b option \<Rightarrow> ('e, 'b deliver_vars, 'c, unit) rpc_action" where
  "deliver_action E retryBytes e x client =
     (let x = x\<lparr>isDeliver := True, deliverTries := deliverTries x + 1\<rparr>
      in case env_Deliver E e client (dv_buf x) of (e, deliverErr) \<Rightarrow>
         if deliverErr \<noteq> None \<and> deliverTries x = 1 \<and> retryBytes \<noteq> None
         then (e, x\<lparr>dv_buf := the retryBytes\<rparr>, True, None, deliverErr)
         else (e, x, False, None, deliverErr))"

text \<open>When packing fails, \<open>buf\<close> holds a nil pointer and its release panics.\<close>

definition deliver_to ::
    "('e, 'u, 'c, 'b) DeliverEnv \<Rightarrow> (nat \<Rightarrow> nat) \<Rightarrow> 'u NodeLinker \<Rightarrow> 'e \<Rightarrow> string \<Rightarrow> int32 \<Rightarrow> int64 \<Rightarrow> 'b deliver_arg \<Rightarrow>
     bool \<Rightarrow> ('u NodeLinker \<times> 'e \<times> goerror option) res" where
  "deliver_to E rnd l e nid routeID uid arg strict =
     (case (case arg of
              ArgBytes b \<Rightarrow> Ok (b, Some b)
            | ArgBuffer b \<Rightarrow> Ok (b, None)
            | ArgMessage (Inr b) \<Rightarrow> Ok (b, None)
            | ArgMessage (Inl err) \<Rightarrow> Panic
            | ArgOther \<Rightarrow> Err ErrInvalidMessage) of
        Err err \<Rightarrow> Ok (l, e, Some err)
      | Panic \<Rightarrow> Panic
      | Ok (buf, retryBytes) \<Rightarrow>
          if nid \<noteq> '''' then
            (case doBuildClient E l e nid of
               (e, Inl err) \<Rightarrow> Ok (l, env_Release E e buf, Some err)
             | (e, Inr client) \<Rightarrow> (case env_Deliver E e client buf of (e, err) \<Rightarrow> Ok (l, e, err)))
          else
            and_then
              (doRPC E rnd l e \<lparr>dv_buf = buf, deliverTries = 0, isDeliver = False\<rparr> routeID uid
                 (deliver_action E retryBytes))
              (\<lambda>(l, e, x, _, err).
                 if err \<noteq> None then
                   let e = (if \<not> isDeliver x then env_Release E e (dv_buf x) else e)
                   in if strict \<or> err \<noteq> Some ErrNotFoundUserLocation then Ok (l, e, err) else Ok (l, e, None)
                 else Ok (l, e, None)))"

definition Deliver_msg where
  "Deliver_msg E rnd l e nid routeID uid arg = deliver_to E rnd l e nid routeID uid arg False"

definition DeliverRequest where
  "DeliverRequest E rnd l e nid routeID uid arg = deliver_to E rnd l e nid routeID uid arg True"

text \<open>\<open>ResolveStatelessAffinityNode\<close>: a preferred node for a stateless route, or none.\<close>

definition ResolveStatelessAffinityNode ::
    "('e, 'u, 'c, 'z) LinkEnv_scheme \<Rightarrow> (nat \<Rightarrow> nat) \<Rightarrow> 'u NodeLinker \<Rightarrow> 'e \<Rightarrow> int32 \<Rightarrow> int64 \<Rightarrow> string \<Rightarrow>
     'e \<times> (goerror + string)" where
  "ResolveStatelessAffinityNode E rnd l e routeID uid grp =
     (if sint uid \<le> 0 \<or> grp = '''' then (e, Inr '''')
      else case FindRoute (nl_dispatcher l) routeID of
        Err err \<Rightarrow> (e, Inl err)
      | Panic \<Rightarrow> (e, Inl ErrUnknownError)
      | Ok route \<Rightarrow>
          if rt_Stateful (r_route route) \<or> rt_Authorized (r_route route) \<or> r_group route \<noteq> grp then (e, Inr '''')
          else if \<not> nl_Locator l then (e, Inl ErrNotFoundLocator)
          else case env_LocateNode E e uid grp of
            (e, Inl err) \<Rightarrow> if err = ErrNotFoundUserLocation then (e, Inr '''') else (e, Inl err)
          | (e, Inr nid) \<Rightarrow>
              if nid = '''' then (e, Inr '''')
              else case fst (Route_FindEndpoint rnd (d_dispatch (nl_dispatcher l)) route [nid]) of
                Err err \<Rightarrow> if err = ErrNotFoundEndpoint then (e, Inr '''') else (e, Inl err)
              | Panic \<Rightarrow> (e, Inl ErrUnknownError)
              | Ok _ \<Rightarrow> (e, Inr nid))"

section \<open>What a linker knows\<close>

definition known :: "'u NodeLinker \<Rightarrow> int64 \<Rightarrow> string \<Rightarrow> string option" where
  "known l uid name =
     (case nl_hints l of Some h \<Rightarrow> map_of (hints_abs h) (uid, name) | None \<Rightarrow> legacy_source l uid name)"

definition link_ok :: "'u NodeLinker \<Rightarrow> bool" where
  "link_ok l \<longleftrightarrow> gm_ok (nl_sources l) \<and> (\<forall>h. nl_hints l = Some h \<longrightarrow> hints_ok h)"

definition same_link :: "'u NodeLinker \<Rightarrow> 'u NodeLinker \<Rightarrow> bool" where
  "same_link l l' \<longleftrightarrow> nl_ID l' = nl_ID l \<and> nl_Kind l' = nl_Kind l \<and> nl_Locator l' = nl_Locator l \<and>
     nl_dispatcher l' = nl_dispatcher l \<and> (nl_hints l' = None) = (nl_hints l = None)"

lemma same_link_refl [simp]: "same_link l l"
  by (simp add: same_link_def)

lemma gm_get_single: "gm_get [(k, v)] k' = (if k' = k then Some v else None)"
  by (simp add: gm_get_def)

lemma legacy_store:
  "legacy_source (storeLegacySource l uid name nid) u n =
     (if u = uid \<and> n = name then Some nid else legacy_source l u n)"
  by (cases "gm_get (nl_sources l) uid"; cases "legacy_source l uid name")
    (auto simp: storeLegacySource_def legacy_source_def Let_def gm_get_single)

lemma singleton_map: "gm_len m = 1 \<Longrightarrow> gm_get m k = Some v \<Longrightarrow> gm_get (gm_del m k) n = None"
  by (cases m) (auto simp: gm_len_def gm_get_def split: if_splits)

lemma legacy_delete:
  "legacy_source (deleteLegacySource l uid name nid) u n =
     (if u = uid \<and> n = name \<and> legacy_source l uid name = Some nid then None else legacy_source l u n)"
proof (cases "gm_get (nl_sources l) uid")
  case (Some m)
  show ?thesis
  proof (cases "gm_get m name = Some nid \<and> gm_len m = 1")
    case True
    then have "gm_get m n' = (if n' = name then Some nid else None)" for n'
      using singleton_map [of m name nid n'] by (auto split: if_splits)
    then show ?thesis
      using Some True by (auto simp: deleteLegacySource_def legacy_source_def Let_def)
  next
    case False
    then show ?thesis
      using Some by (auto simp: deleteLegacySource_def legacy_source_def Let_def split: option.splits)
  qed
qed (auto simp: deleteLegacySource_def legacy_source_def)

lemma legacy_frame:
  "same_link l (storeLegacySource l uid name nid)" "same_link l (deleteLegacySource l uid name nid)"
  "nl_hints (storeLegacySource l uid name nid) = nl_hints l" "nl_hints (deleteLegacySource l uid name nid) = nl_hints l"
  "link_ok l \<Longrightarrow> link_ok (storeLegacySource l uid name nid)" "link_ok l \<Longrightarrow> link_ok (deleteLegacySource l uid name nid)"
  by (auto simp: storeLegacySource_def deleteLegacySource_def same_link_def link_ok_def Let_def split: option.splits)

lemma lru_put_get: "v \<noteq> '''' \<Longrightarrow> map_of (lru_put cap h k v) k = Some v"
  by (simp add: lru_put_def)

lemma lru_drop_get: "map_of (lru_drop h k) k = None"
  by (auto simp: lru_drop_def map_of_eq_None_iff)

lemma store_known:
  assumes "link_ok l"
  shows "\<exists>l'. doStoreSource l uid name nid = Ok l' \<and> link_ok l' \<and> same_link l l' \<and>
    (nid \<noteq> '''' \<longrightarrow> known l' uid name = Some nid)"
proof (cases "nl_hints l")
  case None
  then show ?thesis
    using assms legacy_frame [of l uid name nid] by (simp add: doStoreSource_def known_def legacy_store)
next
  case (Some h)
  obtain h' where "hints_store h uid name nid = Ok h'" "hints_ok h'"
      "hints_abs h' = lru_put (nat (capacity h)) (hints_abs h) (uid, name) nid"
    using store_refines [of h uid name nid] assms Some by (auto simp: link_ok_def)
  then show ?thesis
    using assms Some by (auto simp: doStoreSource_def known_def link_ok_def same_link_def lru_put_get)
qed

lemma delete_known:
  assumes "link_ok l"
  shows "link_ok (doDeleteSource l uid name nid)" and "same_link l (doDeleteSource l uid name nid)"
    and "known l uid name = Some nid \<or> known l uid name = None \<Longrightarrow> known (doDeleteSource l uid name nid) uid name = None"
  using assms legacy_frame [of l uid name nid]
  by (auto simp: doDeleteSource_def link_ok_def same_link_def known_def legacy_delete invalidate_refines lru_drop_get
      split: option.splits)

text \<open>\<open>LocateNode\<close> answers from what is known and otherwise asks the locator, once.\<close>

lemma LocateNode_known:
  assumes "link_ok l" and "nl_Locator l" and "known l uid name = Some nid"
  shows "\<exists>l'. LocateNode E l e uid name = Ok (l', e, Inr nid) \<and> link_ok l' \<and> same_link l l' \<and> known l' uid name = Some nid"
proof (cases "nl_hints l")
  case None
  then show ?thesis
    using assms by (auto simp: LocateNode_def doLoadSource_def known_def)
next
  case (Some h)
  obtain c ok rv h' where ld: "hints_load h uid name = ((c, ok, rv), h')" by (metis prod.collapse)
  have "hints_ok h" using assms(1) Some by (simp add: link_ok_def)
  from load_refines [OF this ld] assms(3) Some
  have "ok" "c = nid" "hints_ok h'" "map_of (hints_abs h') (uid, name) = Some nid"
    by (auto simp: known_def lru_use_def split: if_splits)
  then show ?thesis
    using assms Some ld by (simp add: LocateNode_def link_ok_def same_link_def known_def)
qed

lemma LocateNode_unknown:
  assumes "link_ok l" and "nl_Locator l" and "known l uid name = None"
    and "env_LocateNode E e uid name = (e', Inr nid)" and "nid \<noteq> ''''"
  shows "\<exists>l'. LocateNode E l e uid name = Ok (l', e', Inr nid) \<and> link_ok l' \<and> same_link l l' \<and> known l' uid name = Some nid"
proof (cases "nl_hints l")
  case None
  obtain l' where "doStoreSource l uid name nid = Ok l'" "link_ok l'" "same_link l l'" "known l' uid name = Some nid"
    using store_known [OF assms(1)] assms(5) by blast
  then show ?thesis
    using None assms by (auto simp: LocateNode_def doLoadSource_def known_def)
next
  case (Some h)
  obtain c ok rv h1 where ld: "hints_load h uid name = ((c, ok, rv), h1)" by (metis prod.collapse)
  have "hints_ok h" using assms(1) Some by (simp add: link_ok_def)
  from load_refines [OF this ld] assms(3) Some
  have h1: "\<not> ok" "hints_ok h1" "rv = revision h1"
    by (auto simp: known_def split: if_splits)
  obtain h2 where "hints_fill h1 uid name nid rv = Ok h2" "hints_ok h2"
      "hints_abs h2 = lru_put (nat (capacity h1)) (hints_abs h1) (uid, name) nid"
    using fill_refines [OF h1(2), of uid name nid rv] h1(3) by auto
  then show ?thesis
    using assms Some ld h1 by (auto simp: LocateNode_def link_ok_def same_link_def known_def lru_put_get)
qed

section \<open>Invariants of the sources\<close>

text \<open>
  An invariant that the two updates of the sources keep, and that does not depend on hints or routes,
  is kept by every operation of the linker; a gate may also drop all sources of a user.
\<close>

locale source_invariant =
  fixes I :: "'u NodeLinker \<Rightarrow> bool"
  assumes store_I: "I l \<Longrightarrow> I (storeLegacySource l uid name nid)"
    and delete_I: "I l \<Longrightarrow> I (deleteLegacySource l uid name nid)"
    and hints_I: "I (l\<lparr>nl_hints := h\<rparr>) = I l"
    and table_I: "I (l\<lparr>nl_dispatcher := d\<rparr>) = I l"
    and drop_I: "I l \<Longrightarrow> nl_Kind l = cluster_Gate \<Longrightarrow> I (l\<lparr>nl_sources := gm_del (nl_sources l) uid\<rparr>)"
begin

lemma doStore_I: "I l \<Longrightarrow> doStoreSource l uid name nid = Ok l' \<Longrightarrow> I l'"
  by (auto simp: doStoreSource_def and_then_Ok_iff hints_I store_I split: option.splits)

lemma doDelete_I: "I l \<Longrightarrow> I (doDeleteSource l uid name nid)"
  by (auto simp: doDeleteSource_def hints_I delete_I split: option.splits)

lemma doLoad_I: "I l \<Longrightarrow> doLoadSource l uid name = (l', r) \<Longrightarrow> I l'"
  by (auto simp: doLoadSource_def hints_I split: option.splits prod.splits)

lemma put_route_I: "I (put_route l routeID route) = I l"
  by (simp add: put_route_def table_I)

lemma LocateNode_I: "I l \<Longrightarrow> LocateNode E l e uid name = Ok (l', e', r) \<Longrightarrow> I l'"
  by (auto simp: LocateNode_def and_then_Ok_iff Let_def hints_I
      split: if_splits option.splits prod.splits sum.splits dest: doLoad_I doStore_I)

lemma AskNode_I:
  assumes "I l" and "AskNode E l e uid name nid = Ok (l', e', r)"
  shows "I l'"
proof (cases "nl_hints l")
  case None
  then show ?thesis
    using assms
    by (auto simp: AskNode_def and_then_Ok_iff split: if_splits option.splits prod.splits sum.splits
        dest: doLoad_I doStore_I)
next
  case (Some h)
  then obtain l1 e1 r1 where "LocateNode E l e uid name = Ok (l1, e1, r1)" "l' = l1"
    using assms(2) by (auto simp: AskNode_def and_then_Ok_iff)
  then show ?thesis
    using LocateNode_I [OF assms(1)] by simp
qed

lemma BindNode_I: "I l \<Longrightarrow> BindNode E l e uid name nid = Ok (l', e', r) \<Longrightarrow> I l'"
  by (auto simp: BindNode_def and_then_Ok_iff Let_def
      split: if_splits option.splits prod.splits dest: doStore_I [OF store_I] doStore_I)

lemma UnbindNode_I: "I l \<Longrightarrow> UnbindNode E l e uid name nid = Ok (l', e', r) \<Longrightarrow> I l'"
  by (auto simp: UnbindNode_def Let_def doDelete_I delete_I split: if_splits option.splits prod.splits)

lemma applySourceEvent_I: "I l \<Longrightarrow> applySourceEvent l ev = Ok l' \<Longrightarrow> I l'"
  by (auto simp: applySourceEvent_def hints_I doDelete_I split: if_splits option.splits dest: doStore_I)

lemma InvalidateSession_I: "I l \<Longrightarrow> I (InvalidateSessionSourceHints l uid)"
  by (auto simp: InvalidateSessionSourceHints_def hints_I drop_I split: option.splits)

lemma doRPC_loop_I:
  "I l \<Longrightarrow> doRPC_loop k E rnd l e x route routeID uid fn nid prev reply err = Ok (l', out) \<Longrightarrow> I l'"
proof (induction k arbitrary: l e x route nid prev reply err)
  case (Suc k)
  let ?st = "rt_Stateful (r_route route)"
  obtain l1 e1 loc where L: "(if ?st then LocateNode E l e uid (r_group route) else Ok (l, e, Inr nid)) = Ok (l1, e1, loc)"
    using Suc.prems(2) by (auto simp: and_then_Ok_iff)
  then have I1: "I l1"
    using Suc.prems(1) LocateNode_I by (auto split: if_splits)
  show ?case
  proof (cases "\<exists>n. loc = Inr n \<and> \<not> (?st \<and> n = prev)")
    case True
    then obtain n where n: "loc = Inr n" "\<not> (?st \<and> n = prev)" by blast
    obtain ep rt where f: "Route_FindEndpoint rnd (d_dispatch (nl_dispatcher l1)) route [n] = (ep, rt)" by fastforce
    have pr: "I (put_route l1 routeID rt)"
      using I1 by (simp add: put_route_I)
    show ?thesis
      using Suc.prems(2) L n f pr Suc.IH [OF pr] Suc.IH [OF doDelete_I [OF pr]]
      by (auto simp: Let_def split: res.splits prod.splits sum.splits if_splits)
  next
    case False
    then show ?thesis
      using Suc.prems(2) L I1 by (cases loc) auto
  qed
qed simp

lemma doRPC_I:
  assumes "I l" and "doRPC E rnd l e x routeID uid fn = Ok (l', out)"
  shows "I l'"
  using assms by (auto simp: doRPC_def split: res.splits if_splits intro: doRPC_loop_I [OF assms(1)])

lemma deliver_I:
  assumes "I l" and "deliver_to E rnd l e nid routeID uid arg strict = Ok (l', e', err)"
  shows "I l'"
proof -
  obtain buf rb where "(case arg of ArgBytes b \<Rightarrow> Ok (b, Some b) | ArgBuffer b \<Rightarrow> Ok (b, None)
      | ArgMessage (Inr b) \<Rightarrow> Ok (b, None) | ArgMessage (Inl err) \<Rightarrow> Panic | ArgOther \<Rightarrow> Err ErrInvalidMessage) =
      Ok (buf, rb) \<or> l' = l"
    using assms(2) by (auto simp: deliver_to_def split: deliver_arg.splits sum.splits)
  then show ?thesis
    using assms
    by (auto simp: deliver_to_def and_then_Ok_iff Let_def split: if_splits prod.splits sum.splits
        dest: doRPC_I [OF assms(1)])
qed

end

text \<open>The sources this instance is responsible for, and the balance of the two handlers.\<close>

definition owned :: "'u NodeLinker \<Rightarrow> (int64 \<times> string) set" where
  "owned l = {(uid, name). legacy_source l uid name = Some (nl_ID l)}"

definition counted :: "'u NodeLinker \<Rightarrow> bool" where
  "counted l \<longleftrightarrow> waits l = dones l + card (owned l)"

lemma finite_owned: "finite (owned l)"
proof -
  have "owned l \<subseteq> (\<Union>(uid, m) \<in> set (nl_sources l). {uid} \<times> fst ` set m)"
    by (force simp: owned_def legacy_source_def gm_get_def split: option.splits dest!: map_of_SomeD)
  then show ?thesis
    by (rule finite_subset) auto
qed

lemma store_effect:
  "storeLegacySource l uid name nid =
     l\<lparr>nl_sources := nl_sources (storeLegacySource l uid name nid),
       waits := waits l + (if legacy_source l uid name \<noteq> Some (nl_ID l) \<and> nid = nl_ID l then 1 else 0),
       dones := dones l + (if legacy_source l uid name = Some (nl_ID l) \<and> nid \<noteq> nl_ID l then 1 else 0)\<rparr>"
  by (cases "gm_get (nl_sources l) uid"; cases "legacy_source l uid name")
    (auto simp: storeLegacySource_def legacy_source_def Let_def)

lemma delete_effect:
  "deleteLegacySource l uid name nid =
     l\<lparr>nl_sources := nl_sources (deleteLegacySource l uid name nid),
       dones := dones l + (if legacy_source l uid name = Some (nl_ID l) \<and> nid = nl_ID l then 1 else 0)\<rparr>"
  by (cases "gm_get (nl_sources l) uid"; cases "legacy_source l uid name")
    (auto simp: deleteLegacySource_def legacy_source_def Let_def)

lemma effect_fields:
  "waits (storeLegacySource l uid name nid) =
     waits l + (if legacy_source l uid name \<noteq> Some (nl_ID l) \<and> nid = nl_ID l then 1 else 0)"
  "dones (storeLegacySource l uid name nid) =
     dones l + (if legacy_source l uid name = Some (nl_ID l) \<and> nid \<noteq> nl_ID l then 1 else 0)"
  "waits (deleteLegacySource l uid name nid) = waits l"
  "dones (deleteLegacySource l uid name nid) =
     dones l + (if legacy_source l uid name = Some (nl_ID l) \<and> nid = nl_ID l then 1 else 0)"
  by (subst store_effect delete_effect, simp)+

lemma owned_store:
  "owned (storeLegacySource l uid name nid) =
     (if nid = nl_ID l then insert (uid, name) (owned l) else owned l - {(uid, name)})"
  using legacy_frame(1) [of l uid name nid] by (auto simp: owned_def legacy_store same_link_def)

lemma owned_delete:
  "owned (deleteLegacySource l uid name nid) = (if nid = nl_ID l then owned l - {(uid, name)} else owned l)"
  using legacy_frame(2) [of l uid name nid] by (auto simp: owned_def legacy_delete same_link_def)

lemma counted_store: "counted l \<Longrightarrow> counted (storeLegacySource l uid name nid)"
proof -
  assume c: "counted l"
  have m: "(uid, name) \<in> owned l \<longleftrightarrow> legacy_source l uid name = Some (nl_ID l)"
    by (simp add: owned_def)
  have "(uid, name) \<in> owned l \<Longrightarrow> 0 < card (owned l)"
    using finite_owned [of l] by (auto simp: card_gt_0_iff)
  then show ?thesis
    using c m finite_owned [of l] by (auto simp: counted_def effect_fields owned_store card_insert_if)
qed

lemma counted_delete: "counted l \<Longrightarrow> counted (deleteLegacySource l uid name nid)"
proof -
  assume c: "counted l"
  have m: "(uid, name) \<in> owned l \<longleftrightarrow> legacy_source l uid name = Some (nl_ID l)"
    by (simp add: owned_def)
  have "(uid, name) \<in> owned l \<Longrightarrow> 0 < card (owned l)"
    using finite_owned [of l] by (auto simp: card_gt_0_iff)
  then show ?thesis
    using c m finite_owned [of l] by (auto simp: counted_def effect_fields owned_delete)
qed

lemma counted_frame: "counted (l\<lparr>nl_hints := h\<rparr>) = counted l" "counted (l\<lparr>nl_dispatcher := d\<rparr>) = counted l"
  by (simp_all add: counted_def owned_def legacy_source_def)

interpretation src: source_invariant "\<lambda>l. gm_ok (nl_sources l) \<and> (nl_Kind l = cluster_Gate \<or> counted l)"
proof
  fix l :: "'u NodeLinker" and uid name nid h d
  assume I: "gm_ok (nl_sources l) \<and> (nl_Kind l = cluster_Gate \<or> counted l)"
  show "gm_ok (nl_sources (storeLegacySource l uid name nid)) \<and>
      (nl_Kind (storeLegacySource l uid name nid) = cluster_Gate \<or> counted (storeLegacySource l uid name nid))"
    using I counted_store [of l] legacy_frame(1) [of l uid name nid]
    by (auto simp: same_link_def) (auto simp: storeLegacySource_def Let_def split: option.splits)
  show "gm_ok (nl_sources (deleteLegacySource l uid name nid)) \<and>
      (nl_Kind (deleteLegacySource l uid name nid) = cluster_Gate \<or> counted (deleteLegacySource l uid name nid))"
    using I counted_delete [of l] legacy_frame(2) [of l uid name nid]
    by (auto simp: same_link_def) (auto simp: deleteLegacySource_def Let_def split: option.splits)
qed (simp_all add: counted_frame)

section \<open>The linker in operation\<close>

inductive link_reachable :: "('e, 'u, 'c, 'b) DeliverEnv \<Rightarrow> 'u NodeLinker \<Rightarrow> 'e \<Rightarrow> bool" for E where
  link_new: "NewNodeLinker iid kind loc dispatch cap = Ok l \<Longrightarrow> link_reachable E l e"
| link_env: "link_reachable E l e \<Longrightarrow> link_reachable E l e'"
| link_locate: "link_reachable E l e \<Longrightarrow> LocateNode E l e uid name = Ok (l', e', r) \<Longrightarrow> link_reachable E l' e'"
| link_ask: "link_reachable E l e \<Longrightarrow> AskNode E l e uid name nid = Ok (l', e', q) \<Longrightarrow> link_reachable E l' e'"
| link_bind: "link_reachable E l e \<Longrightarrow> BindNode E l e uid name nid = Ok (l', e', err) \<Longrightarrow> link_reachable E l' e'"
| link_unbind: "link_reachable E l e \<Longrightarrow> UnbindNode E l e uid name nid = Ok (l', e', err) \<Longrightarrow> link_reachable E l' e'"
| link_event: "link_reachable E l e \<Longrightarrow> applySourceEvent l ev = Ok l' \<Longrightarrow> link_reachable E l' e"
| link_session: "link_reachable E l e \<Longrightarrow> link_reachable E (InvalidateSessionSourceHints l uid) e"
| link_table: "link_reachable E l e \<Longrightarrow> link_reachable E (l\<lparr>nl_dispatcher := d\<rparr>) e"
| link_deliver: "link_reachable E l e \<Longrightarrow> deliver_to E rnd l e nid routeID uid arg strict = Ok (l', e', err) \<Longrightarrow>
    link_reachable E l' e'"

lemma link_invariant:
  "link_reachable E l e \<Longrightarrow> gm_ok (nl_sources l) \<and> (nl_Kind l = cluster_Gate \<or> counted l)"
proof (induction rule: link_reachable.induct)
  case (link_new iid kind loc dispatch cap l e)
  then have "nl_sources l = []" "waits l = 0" "dones l = 0"
    by (auto simp: NewNodeLinker_def Let_def and_then_Ok_iff split: if_splits)
  then show ?case
    by (simp add: counted_def owned_def legacy_source_def)
next
  case (link_locate l e uid name l' e' r)
  show ?case by (rule src.LocateNode_I [OF link_locate.IH link_locate.hyps(2)])
next
  case (link_ask l e uid name nid l' e' q)
  show ?case by (rule src.AskNode_I [OF link_ask.IH link_ask.hyps(2)])
next
  case (link_bind l e uid name nid l' e' err)
  show ?case by (rule src.BindNode_I [OF link_bind.IH link_bind.hyps(2)])
next
  case (link_unbind l e uid name nid l' e' err)
  show ?case by (rule src.UnbindNode_I [OF link_unbind.IH link_unbind.hyps(2)])
next
  case (link_event l e ev l')
  show ?case by (rule src.applySourceEvent_I [OF link_event.IH link_event.hyps(2)])
next
  case (link_session l e uid)
  show ?case by (rule src.InvalidateSession_I [OF link_session.IH])
next
  case (link_table l e d)
  show ?case by (rule iffD2 [OF src.table_I link_table.IH])
next
  case (link_deliver l e rnd nid routeID uid arg strict l' e' err)
  show ?case by (rule src.deliver_I [OF link_deliver.IH link_deliver.hyps(2)])
qed

lemma LocalBound_exact:
  assumes "gm_ok (nl_sources l)"
  shows "distinct (LocalBoundUserIDs l name nid)"
    and "nid \<noteq> '''' \<Longrightarrow> set (LocalBoundUserIDs l name nid) = {uid. legacy_source l uid name = Some nid}"
proof -
  show "distinct (LocalBoundUserIDs l name nid)"
    using assms by (auto simp: LocalBoundUserIDs_def gm_ok_def distinct_map intro: inj_on_subset)
  show "set (LocalBoundUserIDs l name nid) = {uid. legacy_source l uid name = Some nid}" if "nid \<noteq> ''''"
  proof (rule set_eqI)
    fix uid
    have mem: "(uid, m) \<in> set (nl_sources l) \<longleftrightarrow> gm_get (nl_sources l) uid = Some m" for m
      using assms by (simp add: gm_ok_def gm_get_def)
    have val: "gm_get0 '''' m name = nid \<longleftrightarrow> gm_get m name = Some nid" for m
      using that by (auto simp: gm_get0_def split: option.splits)
    have "uid \<in> set (LocalBoundUserIDs l name nid) \<longleftrightarrow>
        (\<exists>m. (uid, m) \<in> set (nl_sources l) \<and> gm_get0 '''' m name = nid)"
      by (force simp: LocalBoundUserIDs_def)
    then show "uid \<in> set (LocalBoundUserIDs l name nid) \<longleftrightarrow> uid \<in> {uid. legacy_source l uid name = Some nid}"
      by (auto simp: mem val legacy_source_def split: option.splits)
  qed
qed

section \<open>Two attempts\<close>

text \<open>The first attempt of a delivery fails: there is no client, or the client cannot send.\<close>

definition attempt_fails :: "('e, 'u, 'c, 'b) DeliverEnv \<Rightarrow> 'e \<Rightarrow> 'u Endpoint \<Rightarrow> 'b \<Rightarrow> 'e \<Rightarrow> bool" where
  "attempt_fails E e ep b e' \<longleftrightarrow>
     (\<exists>err. env_Build E e ep = (e', Inl err)) \<or>
     (\<exists>c e1 err. env_Build E e ep = (e1, Inr c) \<and> env_Deliver E e1 c b = (e', Some err))"

text \<open>A request that the linker lets through to a stateful route.\<close>

definition stateful_request :: "'u NodeLinker \<Rightarrow> int32 \<Rightarrow> int64 \<Rightarrow> 'u Route \<Rightarrow> bool" where
  "stateful_request l routeID uid route \<longleftrightarrow>
     link_ok l \<and> nl_Locator l \<and> FindRoute (nl_dispatcher l) routeID = Ok route \<and> rt_Stateful (r_route route) \<and>
     uid \<noteq> 0 \<and> (nl_Kind l = cluster_Gate \<longrightarrow> \<not> rt_Internal (r_route route))"

lemma direct_endpoint: "nid \<noteq> '''' \<Longrightarrow> Route_FindEndpoint rnd d route [nid] = (directDispatch route nid, route)"
  by (simp add: Route_FindEndpoint_def)

lemma put_route_ok:
  "link_ok (put_route l routeID route) = link_ok l" "known (put_route l routeID route) uid name = known l uid name"
  "nl_Locator (put_route l routeID route) = nl_Locator l" "nl_hints (put_route l routeID route) = nl_hints l"
  by (simp_all add: put_route_def link_ok_def known_def legacy_source_def split: option.splits)

lemma failed_attempt:
  assumes "stateful_request l routeID uid route" and "known l uid (r_group route) = Some nid" and "nid \<noteq> ''''"
    and "directDispatch route nid = Ok ep" and "attempt_fails E e ep b e'"
  shows "\<exists>l1 x err. link_ok l1 \<and> nl_Locator l1 \<and> known l1 uid (r_group route) = None \<and> dv_buf x = b \<and> deliverTries x \<le> 1 \<and>
    doRPC E rnd l e \<lparr>dv_buf = b, deliverTries = 0, isDeliver = False\<rparr> routeID uid (deliver_action E (Some b)) =
    doRPC_loop 1 E rnd l1 e' x route routeID uid (deliver_action E (Some b)) nid nid None err"
proof -
  have r: "link_ok l" "nl_Locator l" "FindRoute (nl_dispatcher l) routeID = Ok route" "rt_Stateful (r_route route)"
    "uid \<noteq> 0" "\<not> (nl_Kind l = cluster_Gate \<and> rt_Internal (r_route route))"
    using assms(1) by (auto simp: stateful_request_def)
  obtain l0 where l0: "LocateNode E l e uid (r_group route) = Ok (l0, e, Inr nid)" "link_ok l0" "nl_Locator l0"
      "known l0 uid (r_group route) = Some nid"
    using LocateNode_known [OF r(1,2) assms(2), where E = E and e = e] r(2) by (auto simp: same_link_def)
  let ?l1 = "doDeleteSource (put_route l0 routeID route) uid (r_group route) nid"
  have p: "link_ok (put_route l0 routeID route)"
    using l0(2) by (simp add: put_route_ok)
  have l1: "link_ok ?l1" "known ?l1 uid (r_group route) = None" "nl_Locator ?l1"
    using delete_known [OF p, of uid "r_group route" nid] l0 by (simp_all add: put_route_ok same_link_def)
  have start: "doRPC E rnd l e x routeID uid fn = doRPC_loop (Suc 1) E rnd l e x route routeID uid fn '''' '''' None None"
    for x fn
    using r by (auto simp: doRPC_def numeral_2_eq_2 simp del: doRPC_loop.simps)
  show ?thesis
    using assms(5)
  proof (unfold attempt_fails_def, elim disjE exE conjE)
    fix err
    assume "env_Build E e ep = (e', Inl err)"
    then show ?thesis
      unfolding start
      by (intro exI [of _ ?l1] exI [of _ "\<lparr>dv_buf = b, deliverTries = 0, isDeliver = False\<rparr>"] exI [of _ "Some err"])
        (simp add: l0(1) r(4) assms(3,4) direct_endpoint Let_def l1)
  next
    fix c e1 err
    assume "env_Build E e ep = (e1, Inr c)" and "env_Deliver E e1 c b = (e', Some err)"
    then show ?thesis
      unfolding start
      by (intro exI [of _ ?l1] exI [of _ "\<lparr>dv_buf = b, deliverTries = 1, isDeliver = True\<rparr>"] exI [of _ "Some err"])
        (simp add: l0(1) r(4) assms(3,4) direct_endpoint Let_def l1 deliver_action_def)
  qed
qed

section \<open>Properties\<close>

text \<open>
  C8: A node waits for exactly the users it is responsible for.  In every reachable state of the linker of
  a node the calls of \<open>WaitHandler\<close> exceed those of \<open>DoneHandler\<close> by the number of sources that name
  this instance, with and without bounded hints, and \<open>LocalBoundUserIDs\<close> lists the users of these
  sources, each once.
\<close>

theorem owned_sources_counted:
  assumes "link_reachable E l e" and "nl_Kind l \<noteq> cluster_Gate" and "nl_ID l \<noteq> ''''"
  shows "waits l = dones l + card (owned l) \<and> distinct (LocalBoundUserIDs l name (nl_ID l)) \<and>
    set (LocalBoundUserIDs l name (nl_ID l)) = {uid. (uid, name) \<in> owned l}"
proof -
  have inv: "gm_ok (nl_sources l)" "counted l"
    using link_invariant [OF assms(1)] assms(2) by simp_all
  then show ?thesis
    using LocalBound_exact [OF inv(1), where name = name and nid = "nl_ID l"] assms(3) by (auto simp: counted_def owned_def)
qed

text \<open>An environment for the witnesses: the locator says \<open>n2\<close>, only the endpoint \<open>n2\<close> can be dialled.\<close>

definition demo_env :: "(string list, string, string, nat) DeliverEnv" where
  "demo_env =
     \<lparr>env_LocateNode = \<lambda>e uid name. (e, Inr ''n2''), env_BindNode = \<lambda>e uid name nid. (e, None),
      env_UnbindNode = \<lambda>e uid name nid. (e, None),
      env_Build = \<lambda>e ep. (e, if raw ep = ''n2'' then Inr (raw ep) else Inl ErrConnectionClosed),
      env_Deliver = \<lambda>e c b. (c # e, None), env_Release = \<lambda>e b. e\<rparr>"

definition demo_linker :: "string NodeLinker" where
  "demo_linker =
     \<lparr>nl_ID = ''n1'', nl_Kind = cluster_Node, nl_Locator = True, nl_dispatcher = NewDispatcher '''',
      nl_sources = [], nl_hints = None, waits = 0, dones = 0\<rparr>"

theorem owned_sources_counted_witness:
  "\<exists>l e. BindNode demo_env demo_linker [] 7 ''game'' ''n1'' = Ok (l, e, None) \<and> waits l = dones l + card (owned l) \<and>
     set (LocalBoundUserIDs l ''game'' ''n1'') = {uid. (uid, ''game'') \<in> owned l} \<and> waits l = 1"
proof -
  let ?l = "storeLegacySource demo_linker 7 ''game'' ''n1''"
  have bind: "BindNode demo_env demo_linker [] 7 ''game'' ''n1'' = Ok (?l, [], None)"
    by (simp add: BindNode_def demo_linker_def demo_env_def doStoreSource_def)
  have "NewNodeLinker ''n1'' cluster_Node True '''' 0 = Ok demo_linker"
    by (simp add: NewNodeLinker_def demo_linker_def)
  then have "link_reachable demo_env demo_linker []"
    by (rule link_new)
  then have "link_reachable demo_env ?l []"
    by (rule link_bind [OF _ bind])
  moreover have "nl_Kind ?l \<noteq> cluster_Gate" "nl_ID ?l = ''n1''" "waits ?l = 1"
    by (simp_all add: storeLegacySource_def demo_linker_def cluster_Gate_def cluster_Node_def)
  ultimately show ?thesis
    using owned_sources_counted [of demo_env ?l "[]" "''game''"] bind by auto
qed


text \<open>A stateful route offered by two nodes, the user last seen on \<open>n0\<close>.\<close>

definition demo_route :: "string Route" where
  "demo_route =
     (newRoute ''game'' \<lparr>rt_ID = 5, rt_Internal = False, rt_Stateful = True, rt_Authorized = True\<rparr>)
       \<lparr>r_abstract := newAbstract\<lparr>endpoints5 :=
          [(''n0'', \<lparr>insID = ''n0'', se_state = ''work'', se_endpoint = \<lparr>raw = ''n0'', isSecure = False\<rparr>, weight = 1, currWeight = 0\<rparr>),
           (''n2'', \<lparr>insID = ''n2'', se_state = ''work'', se_endpoint = \<lparr>raw = ''n2'', isSecure = False\<rparr>, weight = 1, currWeight = 0\<rparr>)]\<rparr>\<rparr>"

definition stale_linker :: "string NodeLinker" where
  "stale_linker =
     demo_linker\<lparr>nl_sources := [(7, [(''game'', ''n0'')])],
       nl_dispatcher := (NewDispatcher '''')\<lparr>d_routes := [(5, demo_route)]\<rparr>\<rparr>"

lemma stale_request:
  "stateful_request stale_linker 5 7 demo_route" "known stale_linker 7 (r_group demo_route) = Some ''n0''"
  by (simp_all add: stateful_request_def link_ok_def stale_linker_def demo_linker_def FindRoute_def gm_get_single
      demo_route_def newRoute_def cluster_Gate_def cluster_Node_def known_def legacy_source_def gm_ok_def)


text \<open>
  A request that could not be delivered is reported as delivered.  When the locator names the same node
  again after a failed attempt, the loop returns the error variable it has just overwritten: even the
  strict delivery of a gate returns no error, although the frame was not sent and is not kept.
\<close>

lemma failed_delivery_unreported:
  assumes "stateful_request l routeID uid route" and "known l uid (r_group route) = Some nid" and "nid \<noteq> ''''"
    and "directDispatch route nid = Ok ep" and "attempt_fails E e ep b ea"
    and "env_LocateNode E ea uid (r_group route) = (eb, Inr nid)"
  shows "\<exists>l'. deliver_to E rnd l e '''' routeID uid (ArgBytes b) True = Ok (l', eb, None)"
proof -
  obtain l1 x err where f: "link_ok l1" "nl_Locator l1" "known l1 uid (r_group route) = None" "dv_buf x = b"
      "doRPC E rnd l e \<lparr>dv_buf = b, deliverTries = 0, isDeliver = False\<rparr> routeID uid (deliver_action E (Some b)) =
       doRPC_loop 1 E rnd l1 ea x route routeID uid (deliver_action E (Some b)) nid nid None err"
    using failed_attempt [OF assms(1-5)] by blast
  obtain l2 where l2: "LocateNode E l1 ea uid (r_group route) = Ok (l2, eb, Inr nid)"
    using LocateNode_unknown [OF f(1-3) assms(6,3)] by blast
  have "rt_Stateful (r_route route)"
    using assms(1) by (simp add: stateful_request_def)
  then show ?thesis
    by (simp add: deliver_to_def f(5) l2)
qed

lemma failed_delivery_unreported_witness:
  "\<exists>l'. deliver_to (demo_env\<lparr>env_LocateNode := \<lambda>e uid name. (e, Inr ''n0'')\<rparr>) (\<lambda>n. 0) stale_linker [] '''' 5 7
     (ArgBytes 40) True = Ok (l', [], None)"
  by (rule failed_delivery_unreported [OF stale_request, where ep = "\<lparr>raw = ''n0'', isSecure = False\<rparr>" and ea = "[]"])
    (simp_all add: directDispatch_def demo_route_def newRoute_def newAbstract_def gm_get_def demo_env_def attempt_fails_def)



end
