(* ===== verification/Gate_Link.thy ===== *)
theory Gate_Link
  imports Node_Link Go_Nocopy
begin

text \<open>
  The link from any server to the gates (\<open>internal/link/gate.go\<close>): finding the gate a user is
  connected to, and running an operation there, once more when the user is no longer where it was.
  The locator, the transport builder and the methods of a gate client are parameters that act on a
  state \<open>'e\<close>; buffers are references \<open>'b\<close> whose contents are part of that state.
\<close>

section \<open>State\<close>

record 'u GateLinker =
  gl_Locator :: bool
  gl_dispatcher :: "'u Dispatcher"
  gl_sources :: "(int64, string) gomap"
  gl_hints :: "sourceHints option"

text \<open>The methods of \<open>gate.Client\<close> the linker calls, the builder, the locator, and the buffers.\<close>

record ('e, 'u, 'c, 'b, 'm) GateEnv =
  g_LocateGate :: "'e \<Rightarrow> int64 \<Rightarrow> 'e \<times> (goerror + string)"
  g_Build :: "'e \<Rightarrow> 'u Endpoint \<Rightarrow> 'e \<times> (goerror + 'c)"
  g_Pack :: "'e \<Rightarrow> 'm \<Rightarrow> 'e \<times> (goerror + 'b)"
  g_Release :: "'e \<Rightarrow> 'b \<Rightarrow> 'e"
  g_Delay :: "'e \<Rightarrow> 'b \<Rightarrow> int32 \<Rightarrow> 'e"
  c_Bind :: "'e \<Rightarrow> 'c \<Rightarrow> int64 \<Rightarrow> int64 \<Rightarrow> 'e \<times> goerror option"
  c_Unbind :: "'e \<Rightarrow> 'c \<Rightarrow> int64 \<Rightarrow> 'e \<times> goerror option"
  c_GetIP :: "'e \<Rightarrow> 'c \<Rightarrow> Kind \<Rightarrow> int64 \<Rightarrow> 'e \<times> string \<times> goerror option"
  c_Stat :: "'e \<Rightarrow> 'c \<Rightarrow> Kind \<Rightarrow> 'e \<times> int64 \<times> goerror option"
  c_IsOnline :: "'e \<Rightarrow> 'c \<Rightarrow> Kind \<Rightarrow> int64 \<Rightarrow> 'e \<times> bool \<times> goerror option"
  c_Disconnect :: "'e \<Rightarrow> 'c \<Rightarrow> Kind \<Rightarrow> int64 \<Rightarrow> bool \<Rightarrow> 'e \<times> goerror option"
  c_DisconnectCurrent :: "'e \<Rightarrow> 'c \<Rightarrow> Kind \<Rightarrow> int64 \<Rightarrow> Token \<Rightarrow> bool \<Rightarrow> 'e \<times> goerror option"
  c_Push :: "'e \<Rightarrow> 'c \<Rightarrow> Kind \<Rightarrow> int64 \<Rightarrow> bool \<Rightarrow> Token \<Rightarrow> 'b \<Rightarrow> bool \<Rightarrow> 'e \<times> goerror option"
  c_Multicast :: "'e \<Rightarrow> 'c \<Rightarrow> Kind \<Rightarrow> int64 list \<Rightarrow> bool \<Rightarrow> 'b \<Rightarrow> bool \<Rightarrow> 'e \<times> int64 \<times> goerror option"
  c_Broadcast :: "'e \<Rightarrow> 'c \<Rightarrow> Kind \<Rightarrow> bool \<Rightarrow> 'b \<Rightarrow> bool \<Rightarrow> 'e \<times> int64 \<times> goerror option"
  c_Publish :: "'e \<Rightarrow> 'c \<Rightarrow> string \<Rightarrow> bool \<Rightarrow> 'b \<Rightarrow> bool \<Rightarrow> 'e \<times> int64 \<times> goerror option"
  c_Subscribe :: "'e \<Rightarrow> 'c \<Rightarrow> Kind \<Rightarrow> int64 list \<Rightarrow> string \<Rightarrow> 'e \<times> goerror option"
  c_Unsubscribe :: "'e \<Rightarrow> 'c \<Rightarrow> Kind \<Rightarrow> int64 list \<Rightarrow> string \<Rightarrow> 'e \<times> goerror option"

definition NewGateLinker :: "bool \<Rightarrow> string \<Rightarrow> int \<Rightarrow> 'u GateLinker res" where
  "NewGateLinker loc dispatch cap =
     (if cap < 0 then Panic
      else let l = \<lparr>gl_Locator = loc, gl_dispatcher = NewDispatcher dispatch, gl_sources = [], gl_hints = None\<rparr>
           in if cap > 0 then and_then (newSourceHints cap) (\<lambda>h. Ok (l\<lparr>gl_hints := Some h\<rparr>)) else Ok l)"

section \<open>Hints\<close>

definition storeGateHint :: "'u GateLinker \<Rightarrow> int64 \<Rightarrow> string \<Rightarrow> 'u GateLinker res" where
  "storeGateHint l uid gid =
     (case gl_hints l of
        Some h \<Rightarrow> and_then (hints_store h uid ''gate'' gid) (\<lambda>h. Ok (l\<lparr>gl_hints := Some h\<rparr>))
      | None \<Rightarrow> Ok (l\<lparr>gl_sources := gm_set (gl_sources l) uid gid\<rparr>))"

definition deleteGateHint :: "'u GateLinker \<Rightarrow> int64 \<Rightarrow> 'u GateLinker" where
  "deleteGateHint l uid =
     (case gl_hints l of
        Some h \<Rightarrow> l\<lparr>gl_hints := Some (hints_invalidate h uid ''gate'')\<rparr>
      | None \<Rightarrow> l\<lparr>gl_sources := gm_del (gl_sources l) uid\<rparr>)"

definition gl_applySourceEvent :: "'u GateLinker \<Rightarrow> locate_event \<Rightarrow> 'u GateLinker res" where
  "gl_applySourceEvent l event =
     (if le_Type event \<noteq> EvBindGate \<and> le_Type event \<noteq> EvUnbindGate then Ok l
      else case gl_hints l of
        Some h \<Rightarrow> Ok (l\<lparr>gl_hints := Some (hints_invalidate h (le_UID event) ''gate'')\<rparr>)
      | None \<Rightarrow>
          if le_Type event = EvBindGate then storeGateHint l (le_UID event) (le_InsID event)
          else Ok (deleteGateHint l (le_UID event)))"

definition LocateGate ::
    "('e, 'u, 'c, 'b, 'm) GateEnv \<Rightarrow> 'u GateLinker \<Rightarrow> 'e \<Rightarrow> int64 \<Rightarrow> ('u GateLinker \<times> 'e \<times> (goerror + string)) res" where
  "LocateGate E l e uid =
     (if \<not> gl_Locator l then Ok (l, e, Inl ErrNotFoundLocator)
      else case gl_hints l of
        Some h \<Rightarrow>
          (case hints_load h uid ''gate'' of ((cached, ok, rv), h) \<Rightarrow>
             let l = l\<lparr>gl_hints := Some h\<rparr>
             in if ok then Ok (l, e, Inr cached)
                else (case g_LocateGate E e uid of
                        (e, Inl err) \<Rightarrow> Ok (l, e, Inl err)
                      | (e, Inr gid) \<Rightarrow>
                          if gid = '''' then Ok (l, e, Inl ErrNotFoundUserLocation)
                          else and_then (hints_fill h uid ''gate'' gid rv)
                                 (\<lambda>h. Ok (l\<lparr>gl_hints := Some h\<rparr>, e, Inr gid))))
      | None \<Rightarrow>
          (if gm_get0 '''' (gl_sources l) uid \<noteq> '''' then Ok (l, e, Inr (gm_get0 '''' (gl_sources l) uid))
           else (case g_LocateGate E e uid of
                   (e, Inl err) \<Rightarrow> Ok (l, e, Inl err)
                 | (e, Inr gid) \<Rightarrow>
                     if gid = '''' then Ok (l, e, Inl ErrNotFoundUserLocation)
                     else and_then (storeGateHint l uid gid) (\<lambda>l. Ok (l, e, Inr gid)))))"

definition AskGate ::
    "('e, 'u, 'c, 'b, 'm) GateEnv \<Rightarrow> 'u GateLinker \<Rightarrow> 'e \<Rightarrow> string \<Rightarrow> int64 \<Rightarrow>
     ('u GateLinker \<times> 'e \<times> (goerror + string \<times> bool)) res" where
  "AskGate E l e gid uid =
     and_then (LocateGate E l e uid) (\<lambda>(l, e, r).
       Ok (l, e, case r of Inl err \<Rightarrow> Inl err | Inr found \<Rightarrow> Inr (found, found = gid)))"

section \<open>Remote calls\<close>

definition gl_doBuildClient ::
    "('e, 'u, 'c, 'b, 'm) GateEnv \<Rightarrow> 'u GateLinker \<Rightarrow> 'e \<Rightarrow> string \<Rightarrow> 'e \<times> (goerror + 'c)" where
  "gl_doBuildClient E l e gid =
     (if gid = '''' then (e, Inl ErrInvalidGID)
      else case Dispatcher_FindEndpoint (gl_dispatcher l) gid of
        Ok ep \<Rightarrow> g_Build E e ep
      | Err err \<Rightarrow> (e, Inl err)
      | Panic \<Rightarrow> (e, Inl ErrUnknownError))"

text \<open>
  \<open>doRPC\<close>: round \<open>i\<close> of \<open>n\<close>; the success handler gets the client, the number of the round and \<open>n\<close>, the
  failed handler the two numbers.
\<close>

type_synonym ('e, 'c, 'r) gate_action = "'e \<Rightarrow> 'c \<Rightarrow> nat \<Rightarrow> nat \<Rightarrow> 'e \<times> bool \<times> 'r option \<times> goerror option"

fun gl_doRPC_loop ::
    "nat \<Rightarrow> nat \<Rightarrow> ('e, 'u, 'c, 'b, 'm) GateEnv \<Rightarrow> 'u GateLinker \<Rightarrow> 'e \<Rightarrow> int64 \<Rightarrow> ('e, 'c, 'r) gate_action \<Rightarrow>
     ('e \<Rightarrow> nat \<Rightarrow> nat \<Rightarrow> 'e) \<Rightarrow> string \<Rightarrow> 'r option \<Rightarrow> goerror option \<Rightarrow>
     ('u GateLinker \<times> 'e \<times> 'r option \<times> goerror option) res" where
  "gl_doRPC_loop 0 n E l e uid fn failed prev reply err = Ok (l, e, reply, err)"
| "gl_doRPC_loop (Suc k) n E l e uid fn failed prev reply err =
     (let i = n - k
      in and_then (LocateGate E l e uid) (\<lambda>(l, e, loc).
         case loc of
           Inl err \<Rightarrow> Ok (l, failed e i n, None, Some err)
         | Inr gid \<Rightarrow>
             if gid = prev then Ok (l, failed e i n, reply, None)
             else (case gl_doBuildClient E l e gid of
                     (e, Inl err) \<Rightarrow> Ok (l, failed e i n, None, Some err)
                   | (e, Inr client) \<Rightarrow>
                       (case fn e client i n of (e, continued, reply, err) \<Rightarrow>
                          if \<not> continued then Ok (l, e, reply, err)
                          else gl_doRPC_loop k n E (deleteGateHint l uid) e uid fn failed gid reply err))))"

definition gl_doRPC where
  "gl_doRPC E l e uid fn failed = gl_doRPC_loop 2 2 E l e uid fn failed '''' None None"

definition no_failed :: "'e \<Rightarrow> nat \<Rightarrow> nat \<Rightarrow> 'e" where
  "no_failed e i n = e"

text \<open>An action that runs a method and asks for another round when the session is not there.\<close>

definition retry_not_found :: "('e \<Rightarrow> 'c \<Rightarrow> 'e \<times> 'r option \<times> goerror option) \<Rightarrow> ('e, 'c, 'r) gate_action" where
  "retry_not_found f e client i n =
     (case f e client of
        (e, reply, Some err) \<Rightarrow> (e, err = ErrNotFoundSession, reply, Some err)
      | (e, reply, None) \<Rightarrow> (e, False, reply, None))"

section \<open>Operations on one gate or user\<close>

type_synonym ('u, 'e, 'v) linked = "('u GateLinker \<times> 'e \<times> (goerror + 'v)) res"

definition result :: "goerror option \<Rightarrow> 'v \<Rightarrow> goerror + 'v" where
  "result err v = (case err of None \<Rightarrow> Inr v | Some e \<Rightarrow> Inl e)"

text \<open>Run a method on the client of a given gate.\<close>

definition direct ::
    "('e, 'u, 'c, 'b, 'm) GateEnv \<Rightarrow> 'u GateLinker \<Rightarrow> 'e \<Rightarrow> string \<Rightarrow> ('e \<Rightarrow> 'c \<Rightarrow> 'e \<times> (goerror + 'v)) \<Rightarrow>
     ('u, 'e, 'v) linked" where
  "direct E l e gid f =
     (case gl_doBuildClient E l e gid of
        (e, Inl err) \<Rightarrow> Ok (l, e, Inl err)
      | (e, Inr client) \<Rightarrow> (case f e client of (e, r) \<Rightarrow> Ok (l, e, r)))"

definition link_BindGate ::
    "('e, 'u, 'c, 'b, 'm) GateEnv \<Rightarrow> 'u GateLinker \<Rightarrow> 'e \<Rightarrow> string \<Rightarrow> int64 \<Rightarrow> int64 \<Rightarrow> ('u, 'e, unit) linked" where
  "link_BindGate E l e gid cid uid =
     (case gl_doBuildClient E l e gid of
        (e, Inl err) \<Rightarrow> Ok (l, e, Inl err)
      | (e, Inr client) \<Rightarrow>
          (case c_Bind E e client cid uid of
             (e, Some err) \<Rightarrow> Ok (l, e, Inl err)
           | (e, None) \<Rightarrow> and_then (storeGateHint l uid gid) (\<lambda>l. Ok (l, e, Inr ()))))"

definition link_UnbindGate ::
    "('e, 'u, 'c, 'b, 'm) GateEnv \<Rightarrow> 'u GateLinker \<Rightarrow> 'e \<Rightarrow> int64 \<Rightarrow> ('u, 'e, unit) linked" where
  "link_UnbindGate E l e uid =
     and_then
       (gl_doRPC E l e uid
          (retry_not_found (\<lambda>e client. case c_Unbind E e client uid of (e, err) \<Rightarrow> (e, None :: unit option, err)))
          no_failed)
       (\<lambda>(l, e, _, err).
          case err of Some err \<Rightarrow> Ok (l, e, Inl err) | None \<Rightarrow> Ok (deleteGateHint l uid, e, Inr ()))"

definition link_GetIP ::
    "('e, 'u, 'c, 'b, 'm) GateEnv \<Rightarrow> 'u GateLinker \<Rightarrow> 'e \<Rightarrow> string \<Rightarrow> Kind \<Rightarrow> int64 \<Rightarrow> ('u, 'e, string) linked" where
  "link_GetIP E l e gid kind target =
     (let doDirectGetIP = direct E l e gid
            (\<lambda>e client. case c_GetIP E e client kind target of (e, ip, err) \<Rightarrow> (e, result err ip))
      in if kind = Conn then doDirectGetIP
         else if kind = User then
           (if gid = '''' then
              and_then
                (gl_doRPC E l e target
                   (retry_not_found (\<lambda>e client. case c_GetIP E e client User target of (e, ip, err) \<Rightarrow> (e, Some ip, err)))
                   no_failed)
                (\<lambda>(l, e, v, err).
                   case err of
                     Some err \<Rightarrow> Ok (l, e, Inl err)
                   | None \<Rightarrow> (case v of None \<Rightarrow> Panic | Some ip \<Rightarrow> Ok (l, e, Inr ip)))
            else doDirectGetIP)
         else Ok (l, e, Inl ErrInvalidSessionKind))"

definition link_IsOnline ::
    "('e, 'u, 'c, 'b, 'm) GateEnv \<Rightarrow> 'u GateLinker \<Rightarrow> 'e \<Rightarrow> string \<Rightarrow> Kind \<Rightarrow> int64 \<Rightarrow> ('u, 'e, bool) linked" where
  "link_IsOnline E l e gid kind target =
     (let doDirectIsOnline = direct E l e gid
            (\<lambda>e client. case c_IsOnline E e client kind target of (e, b, err) \<Rightarrow> (e, result err b))
      in if kind = Conn then doDirectIsOnline
         else if kind = User then
           (if gid = '''' then
              and_then
                (gl_doRPC E l e target
                   (retry_not_found (\<lambda>e client. case c_IsOnline E e client kind target of (e, b, err) \<Rightarrow> (e, Some b, err)))
                   no_failed)
                (\<lambda>(l, e, v, err).
                   case err of
                     Some err \<Rightarrow> Ok (l, e, Inl err)
                   | None \<Rightarrow> (case v of None \<Rightarrow> Panic | Some b \<Rightarrow> Ok (l, e, Inr b)))
            else doDirectIsOnline)
         else Ok (l, e, Inl ErrInvalidSessionKind))"

definition link_Disconnect ::
    "('e, 'u, 'c, 'b, 'm) GateEnv \<Rightarrow> 'u GateLinker \<Rightarrow> 'e \<Rightarrow> string \<Rightarrow> Kind \<Rightarrow> int64 \<Rightarrow> Token \<Rightarrow> bool \<Rightarrow>
     ('u, 'e, unit) linked" where
  "link_Disconnect E l e gid kind target token force =
     (let dis = (\<lambda>e client k.
            if token = zero_token then c_Disconnect E e client k target force
            else c_DisconnectCurrent E e client k target token force);
          doDirectDisconnect = direct E l e gid
            (\<lambda>e client. case dis e client kind of (e, err) \<Rightarrow> (e, result err ()))
      in if kind = Conn then doDirectDisconnect
         else if kind = User then
           (if gid = '''' then
              and_then
                (gl_doRPC E l e target
                   (retry_not_found (\<lambda>e client. case dis e client User of (e, err) \<Rightarrow> (e, None :: unit option, err)))
                   no_failed)
                (\<lambda>(l, e, _, err). Ok (l, e, result err ()))
            else doDirectDisconnect)
         else Ok (l, e, Inl ErrInvalidSessionKind))"

text \<open>\<open>message.Release()\<close> as often as rounds are left.\<close>

definition release_left :: "('e, 'u, 'c, 'b, 'm) GateEnv \<Rightarrow> 'b \<Rightarrow> 'e \<Rightarrow> nat \<Rightarrow> nat \<Rightarrow> 'e" where
  "release_left E message e index n = ((\<lambda>e. g_Release E e message) ^^ (n - index)) e"

definition doPush ::
    "('e, 'u, 'c, 'b, 'm) GateEnv \<Rightarrow> 'u GateLinker \<Rightarrow> 'e \<Rightarrow> Kind \<Rightarrow> int64 \<Rightarrow> bool \<Rightarrow> Token \<Rightarrow> 'b \<Rightarrow> bool \<Rightarrow>
     ('u, 'e, unit) linked" where
  "doPush E l e kind target disconnect token message ack =
     and_then
       (gl_doRPC E l e target
          (\<lambda>e client index n.
             case c_Push E e client kind target disconnect token message ack of (e, err) \<Rightarrow>
             if ack then
               (if err = Some ErrNotFoundSession then (e, True, None :: unit option, err)
                else (release_left E message e index n, False, None, err))
             else (e, False, None, err))
          (release_left E message))
       (\<lambda>(l, e, _, err). Ok (l, e, result err ()))"

definition link_Push ::
    "('e, 'u, 'c, 'b, 'm) GateEnv \<Rightarrow> 'u GateLinker \<Rightarrow> 'e \<Rightarrow> string \<Rightarrow> Kind \<Rightarrow> int64 \<Rightarrow> bool \<Rightarrow> Token \<Rightarrow> 'm \<Rightarrow> bool \<Rightarrow>
     ('u, 'e, unit) linked" where
  "link_Push E l e gid kind target disconnect token message ack =
     (let push_direct =
        (case gl_doBuildClient E l e gid of
           (e, Inl err) \<Rightarrow> Ok (l, e, Inl err)
         | (e, Inr client) \<Rightarrow>
             (case g_Pack E e message of
                (e, Inl err) \<Rightarrow> Ok (l, e, Inl err)
              | (e, Inr buf) \<Rightarrow>
                  (case c_Push E e client kind target disconnect token buf ack of (e, err) \<Rightarrow> Ok (l, e, result err ()))))
      in if kind = Conn then push_direct
         else if kind = User then
           (if gid \<noteq> '''' then push_direct
            else case g_Pack E e message of
              (e, Inl err) \<Rightarrow> Ok (l, e, Inl err)
            | (e, Inr buf) \<Rightarrow> doPush E l e kind target disconnect token buf ack)
         else Ok (l, e, Inl ErrInvalidSessionKind))"

section \<open>Operations on groups\<close>

text \<open>
  \<open>doMulticast\<close> starts one goroutine per target; here they run one after the other.  \<open>eg.Wait\<close>
  returns the first error.
\<close>

fun push_all ::
    "('e, 'u, 'c, 'b, 'm) GateEnv \<Rightarrow> 'u GateLinker \<Rightarrow> 'e \<Rightarrow> Kind \<Rightarrow> int64 list \<Rightarrow> bool \<Rightarrow> 'b \<Rightarrow> bool \<Rightarrow>
     int64 \<Rightarrow> goerror option \<Rightarrow> ('u GateLinker \<times> 'e \<times> int64 \<times> goerror option) res" where
  "push_all E l e kind [] disconnect message ack tot err = Ok (l, e, tot, err)"
| "push_all E l e kind (target # targets) disconnect message ack tot err =
     and_then (doPush E l e kind target disconnect zero_token message ack) (\<lambda>(l, e, r).
       case r of
         Inl er \<Rightarrow> push_all E l e kind targets disconnect message ack tot (if err = None then Some er else err)
       | Inr _ \<Rightarrow> push_all E l e kind targets disconnect message ack (tot + 1) err)"

definition doMulticast ::
    "('e, 'u, 'c, 'b, 'm) GateEnv \<Rightarrow> 'u GateLinker \<Rightarrow> 'e \<Rightarrow> Kind \<Rightarrow> int64 list \<Rightarrow> bool \<Rightarrow> 'b \<Rightarrow> bool \<Rightarrow>
     ('u, 'e, int64) linked" where
  "doMulticast E l e kind targets disconnect message ack =
     and_then (push_all E l e kind targets disconnect message ack 0 None) (\<lambda>(l, e, tot, err).
       case err of
         Some er \<Rightarrow> if tot = 0 then Ok (l, e, Inl er) else Ok (l, e, Inr tot)
       | None \<Rightarrow> Ok (l, e, Inr tot))"

definition doDirectMulticast ::
    "('e, 'u, 'c, 'b, 'm) GateEnv \<Rightarrow> 'u GateLinker \<Rightarrow> 'e \<Rightarrow> string \<Rightarrow> Kind \<Rightarrow> int64 list \<Rightarrow> bool \<Rightarrow> 'm \<Rightarrow> bool \<Rightarrow>
     ('u, 'e, int64) linked" where
  "doDirectMulticast E l e gid kind targets disconnect message ack =
     (let n = length targets
      in if n = 0 then Ok (l, e, Inl ErrReceiveTargetEmpty)
         else case gl_doBuildClient E l e gid of
           (e, Inl err) \<Rightarrow> Ok (l, e, Inl err)
         | (e, Inr client) \<Rightarrow>
             (case g_Pack E e message of
                (e, Inl err) \<Rightarrow> Ok (l, e, Inl err)
              | (e, Inr buf) \<Rightarrow>
                  if n = 1 then
                    (case c_Push E e client kind (hd targets) disconnect zero_token buf ack of
                       (e, err) \<Rightarrow> Ok (l, e, result err (if ack then 1 else 0)))
                  else
                    (case c_Multicast E e client kind targets disconnect buf ack of
                       (e, tot, err) \<Rightarrow> Ok (l, e, result err tot))))"

definition doIndirectMulticast ::
    "('e, 'u, 'c, 'b, 'm) GateEnv \<Rightarrow> 'u GateLinker \<Rightarrow> 'e \<Rightarrow> Kind \<Rightarrow> int64 list \<Rightarrow> bool \<Rightarrow> 'm \<Rightarrow> bool \<Rightarrow>
     ('u, 'e, int64) linked" where
  "doIndirectMulticast E l e kind targets disconnect message ack =
     (let n = length targets
      in if n = 0 then Ok (l, e, Inl ErrReceiveTargetEmpty)
         else case g_Pack E e message of
           (e, Inl err) \<Rightarrow> Ok (l, e, Inl err)
         | (e, Inr buf) \<Rightarrow>
             if ack then
               let e = g_Delay E e buf (word_of_nat (n * 2))
               in if n = 1 then
                    and_then (doPush E l e kind (hd targets) disconnect zero_token buf ack) (\<lambda>(l, e, r).
                      case r of Inl err \<Rightarrow> Ok (l, e, Inl err) | Inr _ \<Rightarrow> Ok (l, e, Inr 1))
                  else doMulticast E l e kind targets disconnect buf ack
             else if n = 1 then
               and_then (doPush E l e kind (hd targets) disconnect zero_token buf ack) (\<lambda>(l, e, r).
                 case r of Inl err \<Rightarrow> Ok (l, e, Inl err) | Inr _ \<Rightarrow> Ok (l, e, Inr 0))
             else
               let e = g_Delay E e buf (word_of_nat n)
               in and_then (doMulticast E l e kind targets disconnect buf ack) (\<lambda>(l, e, r).
                    case r of Inl err \<Rightarrow> Ok (l, e, Inl err) | Inr _ \<Rightarrow> Ok (l, e, Inr 0)))"

definition link_Multicast ::
    "('e, 'u, 'c, 'b, 'm) GateEnv \<Rightarrow> 'u GateLinker \<Rightarrow> 'e \<Rightarrow> string \<Rightarrow> Kind \<Rightarrow> int64 list \<Rightarrow> bool \<Rightarrow> 'm \<Rightarrow> bool \<Rightarrow>
     ('u, 'e, int64) linked" where
  "link_Multicast E l e gid kind targets disconnect message ack =
     (if kind = Conn then doDirectMulticast E l e gid kind targets disconnect message ack
      else if kind = User then
        (if gid = '''' then doIndirectMulticast E l e kind targets disconnect message ack
         else doDirectMulticast E l e gid kind targets disconnect message ack)
      else Ok (l, e, Inl ErrInvalidSessionKind))"

text \<open>The goroutines over all endpoints, one after the other.\<close>

fun over_endpoints ::
    "('e \<Rightarrow> 'u Endpoint \<Rightarrow> 'e \<times> int64 \<times> goerror option) \<Rightarrow> 'e \<Rightarrow> 'u Endpoint list \<Rightarrow> int64 \<Rightarrow> goerror option \<Rightarrow>
     'e \<times> int64 \<times> goerror option" where
  "over_endpoints f e [] tot err = (e, tot, err)"
| "over_endpoints f e (ep # eps) tot err =
     (case f e ep of
        (e, v, None) \<Rightarrow> over_endpoints f e eps (tot + v) err
      | (e, _, Some er) \<Rightarrow> over_endpoints f e eps tot (if err = None then Some er else err))"

definition link_Stat ::
    "('e, 'u, 'c, 'b, 'm) GateEnv \<Rightarrow> 'u GateLinker \<Rightarrow> 'e \<Rightarrow> Kind \<Rightarrow> 'e \<times> (goerror + int64)" where
  "link_Stat E l e kind =
     (case over_endpoints
             (\<lambda>e ep. case g_Build E e ep of
                (e, Inl err) \<Rightarrow> (e, 0, Some err)
              | (e, Inr client) \<Rightarrow> c_Stat E e client kind)
             e (gm_values (d_endpoints (gl_dispatcher l))) 0 None of
        (e, tot, err) \<Rightarrow> if 0 < sint tot then (e, Inr tot) else (e, result err tot))"

definition doBroadcast ::
    "('e, 'u, 'c, 'b, 'm) GateEnv \<Rightarrow> Kind \<Rightarrow> bool \<Rightarrow> 'b \<Rightarrow> bool \<Rightarrow> 'e \<Rightarrow> 'u Endpoint \<Rightarrow> 'e \<times> int64 \<times> goerror option" where
  "doBroadcast E kind disconnect message ack e ep =
     (case g_Build E e ep of
        (e, Inl err) \<Rightarrow> (g_Release E e message, 0, Some err)
      | (e, Inr client) \<Rightarrow> c_Broadcast E e client kind disconnect message ack)"

definition doPublish ::
    "('e, 'u, 'c, 'b, 'm) GateEnv \<Rightarrow> string \<Rightarrow> bool \<Rightarrow> 'b \<Rightarrow> bool \<Rightarrow> 'e \<Rightarrow> 'u Endpoint \<Rightarrow> 'e \<times> int64 \<times> goerror option" where
  "doPublish E channel disconnect message ack e ep =
     (case g_Build E e ep of
        (e, Inl err) \<Rightarrow> (g_Release E e message, 0, Some err)
      | (e, Inr client) \<Rightarrow> c_Publish E e client channel disconnect message ack)"

text \<open>The common body of \<open>Broadcast\<close> and \<open>Publish\<close>.\<close>

definition to_all_gates ::
    "('e, 'u, 'c, 'b, 'm) GateEnv \<Rightarrow> 'u GateLinker \<Rightarrow> 'e \<Rightarrow> 'm \<Rightarrow>
     ('b \<Rightarrow> 'e \<Rightarrow> 'u Endpoint \<Rightarrow> 'e \<times> int64 \<times> goerror option) \<Rightarrow> 'e \<times> (goerror + int64)" where
  "to_all_gates E l e message f =
     (let eps = gm_values (d_endpoints (gl_dispatcher l)); n = length eps
      in if n = 0 then (e, Inr 0)
         else case g_Pack E e message of
           (e, Inl err) \<Rightarrow> (e, Inl err)
         | (e, Inr buf) \<Rightarrow>
             if n = 1 then (case f buf e (hd eps) of (e, v, err) \<Rightarrow> (e, result err v))
             else (case over_endpoints (f buf) (g_Delay E e buf (word_of_nat n)) eps 0 None of
                     (e, tot, err) \<Rightarrow> if err \<noteq> None \<and> tot = 0 then (e, Inl (the err)) else (e, Inr tot)))"

definition link_Broadcast where
  "link_Broadcast E l e kind disconnect message ack =
     to_all_gates E l e message (\<lambda>buf. doBroadcast E kind disconnect buf ack)"

definition link_Publish where
  "link_Publish E l e channel disconnect message ack =
     to_all_gates E l e message (\<lambda>buf. doPublish E channel disconnect buf ack)"

text \<open>The goroutines of an indirect subscription, one after the other.\<close>

fun each_target ::
    "('e, 'u, 'c, 'b, 'm) GateEnv \<Rightarrow> 'u GateLinker \<Rightarrow> 'e \<Rightarrow> int64 list \<Rightarrow> (int64 \<Rightarrow> 'e \<Rightarrow> 'c \<Rightarrow> 'e \<times> goerror option) \<Rightarrow>
     goerror option \<Rightarrow> ('u GateLinker \<times> 'e \<times> goerror option) res" where
  "each_target E l e [] f err = Ok (l, e, err)"
| "each_target E l e (target # targets) f err =
     and_then
       (gl_doRPC E l e target
          (\<lambda>e client index n. case f target e client of (e, er) \<Rightarrow> (e, False, None :: unit option, er)) no_failed)
       (\<lambda>(l, e, _, er). each_target E l e targets f (if err = None then er else err))"

definition link_Subscribe ::
    "('e, 'u, 'c, 'b, 'm) GateEnv \<Rightarrow> 'u GateLinker \<Rightarrow> 'e \<Rightarrow> string \<Rightarrow> Kind \<Rightarrow> int64 list \<Rightarrow> string \<Rightarrow> ('u, 'e, unit) linked" where
  "link_Subscribe E l e gid kind targets channel =
     (let doDirectSubscribe =
        (if targets = [] then Ok (l, e, Inl ErrReceiveTargetEmpty)
         else direct E l e gid (\<lambda>e client. case c_Subscribe E e client kind targets channel of (e, err) \<Rightarrow> (e, result err ())))
      in if kind = Conn then doDirectSubscribe
         else if kind = User then
           (if gid = '''' then
              (if targets = [] then Ok (l, e, Inl ErrReceiveTargetEmpty)
               else and_then (each_target E l e targets (\<lambda>target e client. c_Subscribe E e client kind [target] channel) None)
                      (\<lambda>(l, e, err). Ok (l, e, result err ())))
            else doDirectSubscribe)
         else Ok (l, e, Inl ErrInvalidSessionKind))"

definition link_Unsubscribe ::
    "('e, 'u, 'c, 'b, 'm) GateEnv \<Rightarrow> 'u GateLinker \<Rightarrow> 'e \<Rightarrow> string \<Rightarrow> Kind \<Rightarrow> int64 list \<Rightarrow> string \<Rightarrow> ('u, 'e, unit) linked" where
  "link_Unsubscribe E l e gid kind targets channel =
     (let doDirectUnsubscribe =
        (if targets = [] then Ok (l, e, Inl ErrReceiveTargetEmpty)
         else direct E l e gid (\<lambda>e client. case c_Unsubscribe E e client kind targets channel of (e, err) \<Rightarrow> (e, result err ())))
      in if kind = Conn then doDirectUnsubscribe
         else if kind = User then
           (if gid = '''' then
              (if targets = [] then Ok (l, e, Inl ErrReceiveTargetEmpty)
               else and_then (each_target E l e targets (\<lambda>target e client. c_Unsubscribe E e client kind [target] channel) None)
                      (\<lambda>(l, e, err). Ok (l, e, result err ())))
            else doDirectUnsubscribe)
         else Ok (l, e, Inl ErrInvalidSessionKind))"

section \<open>What a linker knows of gates\<close>

definition gate_known :: "'u GateLinker \<Rightarrow> int64 \<Rightarrow> string option" where
  "gate_known l uid =
     (case gl_hints l of
        Some h \<Rightarrow> map_of (hints_abs h) (uid, ''gate'')
      | None \<Rightarrow> if gm_get0 '''' (gl_sources l) uid = '''' then None else Some (gm_get0 '''' (gl_sources l) uid))"

definition glink_ok :: "'u GateLinker \<Rightarrow> bool" where
  "glink_ok l \<longleftrightarrow> (\<forall>h. gl_hints l = Some h \<longrightarrow> hints_ok h)"

definition same_glink :: "'u GateLinker \<Rightarrow> 'u GateLinker \<Rightarrow> bool" where
  "same_glink l l' \<longleftrightarrow> gl_Locator l' = gl_Locator l \<and> gl_dispatcher l' = gl_dispatcher l"

lemma gate_store:
  assumes "glink_ok l"
  shows "\<exists>l'. storeGateHint l uid gid = Ok l' \<and> glink_ok l' \<and> same_glink l l' \<and> (gid \<noteq> '''' \<longrightarrow> gate_known l' uid = Some gid)"
proof (cases "gl_hints l")
  case None
  then show ?thesis
    by (simp add: storeGateHint_def glink_ok_def same_glink_def gate_known_def)
next
  case (Some h)
  obtain h' where "hints_store h uid ''gate'' gid = Ok h'" "hints_ok h'"
      "hints_abs h' = lru_put (nat (capacity h)) (hints_abs h) (uid, ''gate'') gid"
    using store_refines [of h uid "''gate''" gid] assms Some by (auto simp: glink_ok_def)
  then show ?thesis
    using Some by (auto simp: storeGateHint_def glink_ok_def same_glink_def gate_known_def lru_put_get)
qed

lemma gate_delete:
  assumes "glink_ok l"
  shows "glink_ok (deleteGateHint l uid)" "same_glink l (deleteGateHint l uid)" "gate_known (deleteGateHint l uid) uid = None"
  using assms
  by (auto simp: deleteGateHint_def glink_ok_def same_glink_def gate_known_def invalidate_refines lru_drop_get split: option.splits)

lemma LocateGate_known:
  assumes "glink_ok l" and "gl_Locator l" and "gate_known l uid = Some gid"
  shows "\<exists>l'. LocateGate E l e uid = Ok (l', e, Inr gid) \<and> glink_ok l' \<and> same_glink l l' \<and> gate_known l' uid = Some gid"
proof (cases "gl_hints l")
  case None
  then show ?thesis
    using assms by (auto simp: LocateGate_def gate_known_def same_glink_def split: if_splits)
next
  case (Some h)
  obtain c ok rv h' where ld: "hints_load h uid ''gate'' = ((c, ok, rv), h')" by (metis prod.collapse)
  have "hints_ok h" using assms(1) Some by (simp add: glink_ok_def)
  from load_refines [OF this ld] assms(3) Some
  have "ok" "c = gid" "hints_ok h'" "map_of (hints_abs h') (uid, ''gate'') = Some gid"
    by (auto simp: gate_known_def lru_use_def split: if_splits)
  then show ?thesis
    using assms Some ld by (simp add: LocateGate_def glink_ok_def same_glink_def gate_known_def)
qed

lemma LocateGate_unknown:
  assumes "glink_ok l" and "gl_Locator l" and "gate_known l uid = None"
    and "g_LocateGate E e uid = (e', Inr gid)" and "gid \<noteq> ''''"
  shows "\<exists>l'. LocateGate E l e uid = Ok (l', e', Inr gid) \<and> glink_ok l' \<and> same_glink l l' \<and> gate_known l' uid = Some gid"
proof (cases "gl_hints l")
  case None
  obtain l' where "storeGateHint l uid gid = Ok l'" "glink_ok l'" "same_glink l l'" "gate_known l' uid = Some gid"
    using gate_store [OF assms(1)] assms(5) by blast
  then show ?thesis
    using None assms by (auto simp: LocateGate_def gate_known_def split: if_splits)
next
  case (Some h)
  obtain c ok rv h1 where ld: "hints_load h uid ''gate'' = ((c, ok, rv), h1)" by (metis prod.collapse)
  have "hints_ok h" using assms(1) Some by (simp add: glink_ok_def)
  from load_refines [OF this ld] assms(3) Some
  have h1: "\<not> ok" "hints_ok h1" "rv = revision h1"
    by (auto simp: gate_known_def split: if_splits)
  obtain h2 where "hints_fill h1 uid ''gate'' gid rv = Ok h2" "hints_ok h2"
      "hints_abs h2 = lru_put (nat (capacity h1)) (hints_abs h1) (uid, ''gate'') gid"
    using fill_refines [OF h1(2), of uid "''gate''" gid rv] h1(3) by auto
  then show ?thesis
    using assms Some ld h1 by (auto simp: LocateGate_def glink_ok_def same_glink_def gate_known_def lru_put_get)
qed



section \<open>Directories of users\<close>

text \<open>
  What a remote call needs of the place where users are looked up: a known answer is given without
  asking, a forgotten one is asked for.
\<close>

locale user_directory =
  fixes ok :: "'l \<Rightarrow> bool"
    and knows :: "'l \<Rightarrow> string option"
    and locate :: "'l \<Rightarrow> 'e \<Rightarrow> ('l \<times> 'e \<times> (goerror + string)) res"
    and ask :: "'e \<Rightarrow> 'e \<times> (goerror + string)"
    and forget :: "string \<Rightarrow> 'l \<Rightarrow> 'l"
    and same :: "'l \<Rightarrow> 'l \<Rightarrow> bool"
  assumes locate_known: "ok l \<Longrightarrow> knows l = Some iid \<Longrightarrow>
      \<exists>l'. locate l e = Ok (l', e, Inr iid) \<and> ok l' \<and> same l l' \<and> knows l' = Some iid"
    and locate_unknown: "ok l \<Longrightarrow> knows l = None \<Longrightarrow> ask e = (e', Inr iid) \<Longrightarrow> iid \<noteq> '''' \<Longrightarrow>
      \<exists>l'. locate l e = Ok (l', e', Inr iid) \<and> ok l' \<and> same l l' \<and> knows l' = Some iid"
    and forgets: "ok l \<Longrightarrow> knows l = Some iid \<Longrightarrow>
      ok (forget iid l) \<and> same l (forget iid l) \<and> knows (forget iid l) = None"
    and same_trans: "same a b \<Longrightarrow> same b c \<Longrightarrow> same a c"
begin

text \<open>A stale answer is given once, and after it is forgotten the directory gives the current one.\<close>

lemma relocate:
  assumes "ok l" and "knows l = Some old" and "ask e' = (e'', Inr new)" and "new \<noteq> ''''"
  shows "\<exists>l1 l2. locate l e = Ok (l1, e, Inr old) \<and> same l l1 \<and> ok l1 \<and> knows l1 = Some old \<and>
    locate (forget old l1) e' = Ok (l2, e'', Inr new) \<and> same l l2 \<and> ok l2 \<and> knows l2 = Some new"
proof -
  obtain l1 where l1: "locate l e = Ok (l1, e, Inr old)" "ok l1" "same l l1" "knows l1 = Some old"
    using locate_known [OF assms(1,2)] by blast
  have f: "ok (forget old l1)" "same l1 (forget old l1)" "knows (forget old l1) = None"
    using forgets [OF l1(2,4)] by simp_all
  obtain l2 where "locate (forget old l1) e' = Ok (l2, e'', Inr new)" "ok l2" "same (forget old l1) l2" "knows l2 = Some new"
    using locate_unknown [OF f(1,3) assms(3,4)] by blast
  then show ?thesis
    using l1 f(2) same_trans by blast
qed

end

interpretation gates: user_directory "\<lambda>l. glink_ok l \<and> gl_Locator l" "\<lambda>l. gate_known l uid" "\<lambda>l e. LocateGate E l e uid"
    "\<lambda>e. g_LocateGate E e uid" "\<lambda>_ l. deleteGateHint l uid" same_glink
  for E :: "('e, 'u, 'c, 'b, 'm) GateEnv" and uid
proof
  fix l :: "'u GateLinker" and iid and e :: 'e
  assume l: "glink_ok l \<and> gl_Locator l" and k: "gate_known l uid = Some iid"
  show "\<exists>l'. LocateGate E l e uid = Ok (l', e, Inr iid) \<and> (glink_ok l' \<and> gl_Locator l') \<and> same_glink l l' \<and> gate_known l' uid = Some iid"
    using LocateGate_known [of l uid iid E e] l k by (auto simp: same_glink_def)
  show "(glink_ok (deleteGateHint l uid) \<and> gl_Locator (deleteGateHint l uid)) \<and> same_glink l (deleteGateHint l uid) \<and>
      gate_known (deleteGateHint l uid) uid = None"
    using gate_delete [of l uid] l by (auto simp: same_glink_def)
next
  fix l :: "'u GateLinker" and iid and e e' :: 'e
  assume "glink_ok l \<and> gl_Locator l" "gate_known l uid = None" "g_LocateGate E e uid = (e', Inr iid)" "iid \<noteq> ''''"
  then show "\<exists>l'. LocateGate E l e uid = Ok (l', e', Inr iid) \<and> (glink_ok l' \<and> gl_Locator l') \<and> same_glink l l' \<and> gate_known l' uid = Some iid"
    using LocateGate_unknown [of l uid E e e' iid] by (auto simp: same_glink_def)
qed (auto simp: same_glink_def)

interpretation nodes: user_directory "\<lambda>l. link_ok l \<and> nl_Locator l" "\<lambda>l. known l uid name" "\<lambda>l e. LocateNode E l e uid name"
    "\<lambda>e. env_LocateNode E e uid name" "\<lambda>nid l. doDeleteSource l uid name nid" same_link
  for E :: "('e, 'u, 'c, 'z) LinkEnv_scheme" and uid name
proof
  fix l :: "'u NodeLinker" and iid and e :: 'e
  assume l: "link_ok l \<and> nl_Locator l" and k: "known l uid name = Some iid"
  show "\<exists>l'. LocateNode E l e uid name = Ok (l', e, Inr iid) \<and> (link_ok l' \<and> nl_Locator l') \<and> same_link l l' \<and> known l' uid name = Some iid"
    using LocateNode_known [of l uid name iid E e] l k by (auto simp: same_link_def)
  show "(link_ok (doDeleteSource l uid name iid) \<and> nl_Locator (doDeleteSource l uid name iid)) \<and>
      same_link l (doDeleteSource l uid name iid) \<and> known (doDeleteSource l uid name iid) uid name = None"
    using delete_known [of l uid name iid] l k by (auto simp: same_link_def)
next
  fix l :: "'u NodeLinker" and iid and e e' :: 'e
  assume "link_ok l \<and> nl_Locator l" "known l uid name = None" "env_LocateNode E e uid name = (e', Inr iid)" "iid \<noteq> ''''"
  then show "\<exists>l'. LocateNode E l e uid name = Ok (l', e', Inr iid) \<and> (link_ok l' \<and> nl_Locator l') \<and> same_link l l' \<and> known l' uid name = Some iid"
    using LocateNode_unknown [of l uid name E e e' iid] by (auto simp: same_link_def)
qed (auto simp: same_link_def)

section \<open>Two rounds\<close>

text \<open>A round that finds the gate and reaches it runs the handler there.\<close>

definition reaches :: "('e, 'u, 'c, 'b, 'm) GateEnv \<Rightarrow> 'u GateLinker \<Rightarrow> 'e \<Rightarrow> string \<Rightarrow> 'e \<Rightarrow> 'c \<Rightarrow> bool" where
  "reaches E l e gid e' c \<longleftrightarrow> gl_doBuildClient E l e gid = (e', Inr c)"

lemma reaches_same: "same_glink l l' \<Longrightarrow> gl_doBuildClient E l' e gid = gl_doBuildClient E l e gid"
  by (simp add: same_glink_def gl_doBuildClient_def)

lemma second_round:
  assumes "glink_ok l" and "gl_Locator l" and "gate_known l uid = Some old" and "old \<noteq> ''''"
    and "reaches E l e old e1 c" and "fn e1 c 1 2 = (e2, True, reply, err)"
    and "g_LocateGate E e2 uid = (e3, Inr new)" and "new \<noteq> ''''"
  shows "\<exists>l'. same_glink l l' \<and> gate_known l' uid = Some new \<and>
    gl_doRPC E l e uid fn failed =
      (if new = old then Ok (l', failed e3 2 2, reply, None)
       else case gl_doBuildClient E l e3 new of
         (e4, Inl err) \<Rightarrow> Ok (l', failed e4 2 2, None, Some err)
       | (e4, Inr c) \<Rightarrow>
           (case fn e4 c 2 2 of (e5, continued, reply, err) \<Rightarrow>
              Ok (if continued then deleteGateHint l' uid else l', e5, reply, err)))"
proof -
  obtain l1 l2 where l: "LocateGate E l e uid = Ok (l1, e, Inr old)" "same_glink l l1"
      "LocateGate E (deleteGateHint l1 uid) e2 uid = Ok (l2, e3, Inr new)" "same_glink l l2" "gate_known l2 uid = Some new"
    using gates.relocate [of l uid old E e2 e3 new e] assms(1-3,7,8) by blast
  have b: "gl_doBuildClient E l1 e old = (e1, Inr c)"
    using assms(5) reaches_same [OF l(2), of E e old] by (simp add: reaches_def)
  show ?thesis
    using l(4,5) assms(4,6) reaches_same [OF l(4), of E e3 new]
    by (intro exI [of _ l2])
      (auto simp: gl_doRPC_def numeral_2_eq_2 l b split: prod.splits sum.splits)
qed

section \<open>Properties\<close>


text \<open>
  An environment for the witnesses.  A client is the name of a gate and a buffer is its content; the
  state records the gates a push reached; only \<open>g2\<close> knows the session.
\<close>

definition demo_gates :: "string \<Rightarrow> (string list, string, string, string, string) GateEnv" where
  "demo_gates where_now =
     \<lparr>g_LocateGate = \<lambda>e uid. (e, Inr where_now), g_Build = \<lambda>e ep. (e, Inr (raw ep)),
      g_Pack = \<lambda>e m. (e, Inr m), g_Release = \<lambda>e b. e, g_Delay = \<lambda>e b k. e,
      c_Bind = \<lambda>e c cid uid. (e, None), c_Unbind = \<lambda>e c uid. (e, None),
      c_GetIP = \<lambda>e c kind t. (c # e, ''ip'', if c = ''g2'' then None else Some ErrNotFoundSession),
      c_Stat = \<lambda>e c kind. (e, 0, None), c_IsOnline = \<lambda>e c kind t. (e, c = ''g2'', None),
      c_Disconnect = \<lambda>e c kind t force. (e, None), c_DisconnectCurrent = \<lambda>e c kind t tok force. (e, None),
      c_Push = \<lambda>e c kind t disconnect tok b ack. (c # e, if c = ''g2'' then None else Some ErrNotFoundSession),
      c_Multicast = \<lambda>e c kind ts disconnect b ack. (e, 0, None), c_Broadcast = \<lambda>e c kind disconnect b ack. (e, 0, None),
      c_Publish = \<lambda>e c channel disconnect b ack. (e, 0, None), c_Subscribe = \<lambda>e c kind ts channel. (e, None),
      c_Unsubscribe = \<lambda>e c kind ts channel. (e, None)\<rparr>"

definition demo_glinker :: "string GateLinker" where
  "demo_glinker =
     \<lparr>gl_Locator = True,
      gl_dispatcher = (NewDispatcher '''')\<lparr>d_endpoints :=
        [(''g1'', \<lparr>raw = ''g1'', isSecure = False\<rparr>), (''g2'', \<lparr>raw = ''g2'', isSecure = False\<rparr>)]\<rparr>,
      gl_sources = [(7, ''g1'')], gl_hints = None\<rparr>"

lemma demo_gate_facts:
  "glink_ok demo_glinker" "gl_Locator demo_glinker" "gate_known demo_glinker 7 = Some ''g1''"
  "gid \<in> {''g1'', ''g2''} \<Longrightarrow> gl_doBuildClient (demo_gates x) demo_glinker e gid = (e, Inr gid)"
  "g_LocateGate (demo_gates x) e uid = (e, Inr x)" "g_Pack (demo_gates x) e m = (e, Inr m)"
  "c_GetIP (demo_gates x) e c kind t = (c # e, ''ip'', if c = ''g2'' then None else Some ErrNotFoundSession)"
  "c_Push (demo_gates x) e c kind t disconnect tok b ack = (c # e, if c = ''g2'' then None else Some ErrNotFoundSession)"
  by (auto simp: glink_ok_def demo_glinker_def gate_known_def gm_get0_def gm_get_def gl_doBuildClient_def
      Dispatcher_FindEndpoint_def demo_gates_def)


text \<open>
  A push to a session that does not exist is reported as a success.  When the gate answers that the
  session is not there and the locator names the same gate again, the loop returns the error variable
  that the lookup has just cleared: \<open>Push\<close> to a user with acknowledgement returns no error, although
  nothing was pushed.
\<close>

lemma missing_session_unreported:
  assumes "glink_ok l" and "gl_Locator l" and "gate_known l uid = Some gid" and "gid \<noteq> ''''"
    and "g_Pack E e message = (ea, Inr buf)"
    and "reaches E l ea gid eb c" and "c_Push E eb c User uid disconnect zero_token buf True = (ec, Some ErrNotFoundSession)"
    and "g_LocateGate E ec uid = (ed, Inr gid)"
  shows "\<exists>l'. link_Push E l e '''' User uid disconnect zero_token message True = Ok (l', ed, Inr ())"
proof -
  let ?fn = "\<lambda>e client index n.
     case c_Push E e client User uid disconnect zero_token buf True of (e, err) \<Rightarrow>
       if True then (if err = Some ErrNotFoundSession then (e, True, None :: unit option, err)
         else (release_left E buf e index n, False, None, err)) else (e, False, None, err)"
  have fn: "?fn eb c 1 2 = (ec, True, None, Some ErrNotFoundSession)"
    using assms(7) by simp
  obtain l' where "gl_doRPC E l ea uid ?fn (release_left E buf) = Ok (l', release_left E buf ed 2 2, None, None)"
    using second_round [where fn = ?fn and failed = "release_left E buf", OF assms(1-4,6) fn assms(8,4)] by auto
  then have "doPush E l ea User uid disconnect zero_token buf True = Ok (l', ed, Inr ())"
    by (simp add: doPush_def result_def release_left_def)
  then show ?thesis
    using assms(5) by (simp add: link_Push_def)
qed

lemma missing_session_unreported_witness:
  "\<exists>l'. link_Push (demo_gates ''g1'') demo_glinker [] '''' User 7 False zero_token ''hello'' True = Ok (l', [''g1''], Inr ())"
  by (rule missing_session_unreported [OF demo_gate_facts(1-3), where c = "''g1''" and eb = "[]" and ec = "[''g1'']"
        and ea = "[]" and buf = "''hello''"])
    (simp_all add: reaches_def demo_gate_facts)

section \<open>Releasing the message of a push\<close>





text \<open>The success handler of \<open>doPush\<close>.\<close>

definition push_action ::
    "('e, 'u, 'c, 'b, 'm) GateEnv \<Rightarrow> Kind \<Rightarrow> int64 \<Rightarrow> bool \<Rightarrow> Token \<Rightarrow> 'b \<Rightarrow> bool \<Rightarrow> ('e, 'c, unit) gate_action" where
  "push_action E kind target disconnect token message ack e client index n =
     (case c_Push E e client kind target disconnect token message ack of (e, err) \<Rightarrow>
        if ack then
          (if err = Some ErrNotFoundSession then (e, True, None, err)
           else (release_left E message e index n, False, None, err))
        else (e, False, None, err))"

lemma doPush_action:
  "doPush E l e kind target disconnect token message ack =
     and_then (gl_doRPC E l e target (push_action E kind target disconnect token message ack) (release_left E message))
       (\<lambda>(l, e, _, err). Ok (l, e, result err ()))"
  by (simp add: doPush_def push_action_def [abs_def])









text \<open>
  The second attempt of an acknowledged push sends an empty message.  \<open>Push\<close> packs the message without
  delaying its release, as the multicast does, so the buffer is released with the first attempt: when
  the client writes the bytes of the frame it is given and then releases it, a user who has moved from
  one gate to another is sent a push without content, and the caller is told of a success.  The state
  here is what was written so far and the buffer of the message.
\<close>

lemma push_retry_sends_empty:
  assumes "glink_ok l" and "gl_Locator l" and "gate_known l uid = Some old" and "old \<noteq> ''''" and "new \<noteq> ''''" and "new \<noteq> old"
    and pack: "\<And>w b. g_Pack E (w, b) message = ((w, NocopyBuffer len num ns 0 False), Inr ())"
    and at: "\<And>e. g_LocateGate E e uid = (e, Inr new)" "\<And>e. reaches E l e old e c" "\<And>e. reaches E l e new e c'"
    and sends: "\<And>w b c. c_Push E (w, b) c User uid disconnect token () True =
      ((w @ [wire b], snd (nb_Release b)), if c = c' then None else Some ErrNotFoundSession)"
    and "\<And>w b. g_Release E (w, b) () = (w, snd (nb_Release b))" and "c \<noteq> c'"
  shows "\<exists>l' b'. link_Push E l ([], b) '''' User uid disconnect token message True =
    Ok (l', ([wire (NocopyBuffer len num ns 0 False), []], b'), Inr ())"
proof -
  let ?b = "NocopyBuffer len num ns 0 False"
  let ?fn = "push_action E User uid disconnect token () True"
  have fn: "?fn ([], ?b) c 1 2 = (([wire ?b], NocopyBuffer (-1) 0 [] (-1) True), True, None, Some ErrNotFoundSession)"
    using sends [of "[]" ?b c] \<open>c \<noteq> c'\<close> by (simp add: push_action_def)
  obtain l' where "gl_doRPC E l ([], ?b) uid ?fn (release_left E ()) =
      (if new = old then Ok (l', release_left E () ([wire ?b], NocopyBuffer (-1) 0 [] (-1) True) 2 2, None, None)
       else case gl_doBuildClient E l ([wire ?b], NocopyBuffer (-1) 0 [] (-1) True) new of
         (e4, Inl err) \<Rightarrow> Ok (l', release_left E () e4 2 2, None, Some err)
       | (e4, Inr c) \<Rightarrow>
           (case ?fn e4 c 2 2 of (e5, continued, reply, err) \<Rightarrow>
              Ok (if continued then deleteGateHint l' uid else l', e5, reply, err)))"
    using second_round [where fn = ?fn and failed = "release_left E ()", OF assms(1-4) at(2) fn at(1) assms(5)] by (elim exE conjE)
  moreover have "?fn ([wire ?b], NocopyBuffer (-1) 0 [] (-1) True) c' 2 2 =
      (([wire ?b, []], snd (nb_Release (NocopyBuffer (-1) 0 [] (-1) True))), False, None, None)"
    using sends [of "[wire ?b]" "NocopyBuffer (-1) 0 [] (-1) True" c']
    by (simp add: push_action_def release_left_def wire_def)
  ultimately have "\<exists>b'. gl_doRPC E l ([], ?b) uid ?fn (release_left E ()) = Ok (l', ([wire ?b, []], b'), None, None)"
    using at(3) [of "([wire ?b], NocopyBuffer (-1) 0 [] (-1) True)"] assms(6) by (simp add: reaches_def)
  then show ?thesis
    using pack [of "[]" b] by (auto simp: link_Push_def doPush_action result_def)
qed

text \<open>Gates that write what they are given and release it; the session is on \<open>g2\<close>.\<close>

definition writing_gates :: "(byte list list \<times> nbuf, string, string, unit, nbuf) GateEnv" where
  "writing_gates =
     \<lparr>g_LocateGate = \<lambda>e uid. (e, Inr ''g2''), g_Build = \<lambda>e ep. (e, Inr (raw ep)),
      g_Pack = \<lambda>(w, b) m. ((w, m), Inr ()), g_Release = \<lambda>(w, b) _. (w, snd (nb_Release b)), g_Delay = \<lambda>e b k. e,
      c_Bind = \<lambda>e c cid uid. (e, None), c_Unbind = \<lambda>e c uid. (e, None), c_GetIP = \<lambda>e c kind t. (e, ''ip'', None),
      c_Stat = \<lambda>e c kind. (e, 0, None), c_IsOnline = \<lambda>e c kind t. (e, True, None),
      c_Disconnect = \<lambda>e c kind t force. (e, None), c_DisconnectCurrent = \<lambda>e c kind t tok force. (e, None),
      c_Push = \<lambda>(w, b) c kind t disconnect tok _ ack.
        ((w @ [wire b], snd (nb_Release b)), if c = ''g2'' then None else Some ErrNotFoundSession),
      c_Multicast = \<lambda>e c kind ts disconnect b ack. (e, 0, None), c_Broadcast = \<lambda>e c kind disconnect b ack. (e, 0, None),
      c_Publish = \<lambda>e c channel disconnect b ack. (e, 0, None), c_Subscribe = \<lambda>e c kind ts channel. (e, None),
      c_Unsubscribe = \<lambda>e c kind ts channel. (e, None)\<rparr>"

lemma push_retry_sends_empty_witness:
  "\<exists>l' b'. link_Push writing_gates demo_glinker ([], NocopyBuffer (-1) 0 [] 0 False) '''' User 7 False zero_token
      (NocopyBuffer (-1) 1 [NNode (BRaw [104, 105])] 0 False) True =
    Ok (l', ([wire (NocopyBuffer (-1) 1 [NNode (BRaw [104, 105])] 0 False), []], b'), Inr ())"
  by (rule push_retry_sends_empty [OF demo_gate_facts(1-3), where c = "''g1''" and c' = "''g2''" and new = "''g2''"])
    (simp_all add: writing_gates_def reaches_def gl_doBuildClient_def demo_glinker_def Dispatcher_FindEndpoint_def gm_get_def)

end
