(* ===== verification/Actors.thy ===== *)
theory Actors
  imports Session_Types Go_Map
begin

text \<open>
  The actors of a node and their scheduler (\<open>cluster/node/actor.go\<close>, \<open>cluster/node/scheduler.go\<close>).  The
  methods are cut at their locks: what runs under one lock is one action, an operation that gives up
  its lock and goes on continues as an entry of \<open>conts\<close>, and the goroutines of idle timers are such
  entries too.  An actor is a reference into \<open>heap\<close>.  Handlers, guards and hooks belong to the
  application: a guard is answered by the action that continues it, the calls of \<open>processor.Destroy\<close>
  and of the release hook are counted.
\<close>

section \<open>State\<close>

datatype actor_state = unstart | started | destroyed

text \<open>The closures that go through \<open>fnChan\<close>, and what goes through a mailbox.\<close>

datatype 'h actor_fn = FDefault 'h | FRoute int32 'h | FEvent int 'h | FCall

datatype 'm actor_msg = ReqMsg int64 int32 'm | EvtMsg int 'm

record actorOptions =
  o_id :: string
  o_kind :: string
  o_wait :: bool
  o_dispatch :: bool
  o_idleTimeout :: int
  o_releaseGuard :: bool
  o_releaseGuardCanceled :: bool

type_synonym actor_ref = nat

record ('h, 'm) Actor =
  a_opts :: actorOptions
  a_state :: actor_state
  a_routes :: "(int32, 'h) gomap"
  a_events :: "(int, 'h) gomap"
  defaultRouteHandler :: "'h option"
  processor :: bool
  mailbox :: "'m actor_msg list"
  fnChan :: "'h actor_fn list"
  chans_open :: bool
  looping :: bool
  a_binds :: "(int64, unit) gomap"
  idleTimer :: "uint64 option"
  idleGeneration :: uint64
  terminated :: bool
  handled :: "('h \<times> 'm actor_msg) list"
  destroys :: nat
  hooks_run :: nat
  guard_cancels :: nat

datatype cont =
    KDestroy actor_ref | KCancel actor_ref | KFinish actor_ref | KUnbind actor_ref | KClose actor_ref
  | KHook actor_ref | KDone actor_ref
  | KBind int64 actor_ref | KRelate int64 actor_ref
  | KFire actor_ref uint64 | KGuard actor_ref uint64 | KRetry actor_ref uint64 | KIdle actor_ref uint64

text \<open>
  \<open>timers\<close> are the armed timers with their delays, \<open>work\<close> counts the accepted functions and tasks of
  the node, \<open>n_wg\<close> is its wait group.  \<open>wg_panic\<close> and \<open>chan_panic\<close> record a panic: a negative wait group,
  a channel closed twice or a nil processor.
\<close>

record ('h, 'm) Scheduler =
  actors :: "(string, actor_ref) gomap"
  s_routes :: "(int32, string) gomap"
  kinds :: "(string, unit) gomap"
  relations :: "(int64, (string, actor_ref) gomap) gomap"
  heap :: "('h, 'm) Actor list"
  timers :: "(actor_ref \<times> uint64 \<times> int) list"
  conts :: "cont list"
  n_state :: cluster_state
  n_wg :: nat
  work :: nat
  wg_panic :: bool
  chan_panic :: bool

definition newScheduler :: "cluster_state \<Rightarrow> ('h, 'm) Scheduler" where
  "newScheduler st =
     \<lparr>actors = [], s_routes = [], kinds = [], relations = [], heap = [], timers = [], conts = [], n_state = st,
      n_wg = 0, work = 0, wg_panic = False, chan_panic = False\<rparr>"

definition addWait :: "('h, 'm) Scheduler \<Rightarrow> ('h, 'm) Scheduler" where
  "addWait s = (if n_state s \<noteq> Shut then s\<lparr>n_wg := n_wg s + 1\<rparr> else s)"

definition doneWait :: "('h, 'm) Scheduler \<Rightarrow> ('h, 'm) Scheduler" where
  "doneWait s =
     (if n_state s \<noteq> Shut then (if n_wg s = 0 then s\<lparr>wg_panic := True\<rparr> else s\<lparr>n_wg := n_wg s - 1\<rparr>) else s)"

definition PID :: "string \<Rightarrow> string \<Rightarrow> string" where
  "PID kind iid = kind @ ''/'' @ iid"

definition actor_PID :: "('h, 'm) Actor \<Rightarrow> string" where
  "actor_PID a = PID (o_kind (a_opts a)) (o_id (a_opts a))"

definition upd_actor :: "('h, 'm) Scheduler \<Rightarrow> actor_ref \<Rightarrow> (('h, 'm) Actor \<Rightarrow> ('h, 'm) Actor) \<Rightarrow> ('h, 'm) Scheduler" where
  "upd_actor s r f = s\<lparr>heap := (heap s)[r := f (heap s ! r)]\<rparr>"

section \<open>The table of actors\<close>

definition sched_load :: "('h, 'm) Scheduler \<Rightarrow> string \<Rightarrow> string \<Rightarrow> actor_ref option" where
  "sched_load s kind iid = gm_get (actors s) (PID kind iid)"

text \<open>The closures are those the creator and \<open>Init\<close> add: the actor is started already.\<close>

definition newActor :: "actorOptions \<Rightarrow> 'h actor_fn list \<Rightarrow> ('h, 'm) Actor" where
  "newActor op inits =
     \<lparr>a_opts = op, a_state = started, a_routes = [], a_events = [], defaultRouteHandler = None, processor = True,
      mailbox = [], fnChan = inits, chans_open = True, looping = True, a_binds = [], idleTimer = None, idleGeneration = 0,
      terminated = False, handled = [], destroys = 0, hooks_run = 0, guard_cancels = 0\<rparr>"

definition spawnObserved ::
    "('h, 'm) Scheduler \<Rightarrow> actorOptions \<Rightarrow> 'h actor_fn list \<Rightarrow> ('h, 'm) Scheduler \<times> (goerror + actor_ref)" where
  "spawnObserved s op inits =
     (let act = newActor op inits
      in case sched_load s (o_kind op) (o_id op) of
           Some current \<Rightarrow> (s, Inl ErrActorExists)
         | None \<Rightarrow>
             let s = (if o_wait op then addWait s else s);
                 s = (if o_dispatch op \<and> gm_get (kinds s) (o_kind op) = None
                      then s\<lparr>kinds := gm_set (kinds s) (o_kind op) (),
                             s_routes := foldl (\<lambda>m (route, _). gm_set m route (o_kind op)) (s_routes s) (a_routes act)\<rparr>
                      else s);
                 r = length (heap s)
             in (s\<lparr>heap := heap s @ [act], actors := gm_set (actors s) (actor_PID act) r\<rparr>, Inr r))"

definition removeActorLocked :: "('h, 'm) Scheduler \<Rightarrow> actor_ref \<Rightarrow> ('h, 'm) Scheduler" where
  "removeActorLocked s r =
     (let k = o_kind (a_opts (heap s ! r))
      in s\<lparr>actors := gm_del (actors s) (actor_PID (heap s ! r)),
           relations := map (\<lambda>(uid, m). (uid, if gm_get m k = Some r then gm_del m k else m)) (relations s)\<rparr>)"

definition sched_remove :: "('h, 'm) Scheduler \<Rightarrow> string \<Rightarrow> string \<Rightarrow> ('h, 'm) Scheduler \<times> actor_ref option" where
  "sched_remove s kind iid =
     (case sched_load s kind iid of None \<Rightarrow> (s, None) | Some r \<Rightarrow> (removeActorLocked s r, Some r))"

definition registered :: "('h, 'm) Scheduler \<Rightarrow> actor_ref \<Rightarrow> bool" where
  "registered s r \<longleftrightarrow> gm_get (actors s) (actor_PID (heap s ! r)) = Some r"

definition removeActor :: "('h, 'm) Scheduler \<Rightarrow> actor_ref \<Rightarrow> ('h, 'm) Scheduler \<times> bool" where
  "removeActor s r = (if registered s r then (removeActorLocked s r, True) else (s, False))"

text \<open>\<open>kill\<close> and \<open>killActor\<close> up to the call of \<open>destroy\<close>.\<close>

definition sched_kill :: "('h, 'm) Scheduler \<Rightarrow> string \<Rightarrow> string \<Rightarrow> ('h, 'm) Scheduler" where
  "sched_kill s kind iid =
     (case sched_remove s kind iid of (s, None) \<Rightarrow> s | (s, Some r) \<Rightarrow> s\<lparr>conts := conts s @ [KDestroy r]\<rparr>)"

definition killActor :: "('h, 'm) Scheduler \<Rightarrow> actor_ref \<Rightarrow> ('h, 'm) Scheduler" where
  "killActor s r = (case removeActor s r of (s, ok) \<Rightarrow> if ok then s\<lparr>conts := conts s @ [KDestroy r]\<rparr> else s)"

section \<open>Idle timers\<close>

definition stop_timer :: "('h, 'm) Scheduler \<Rightarrow> actor_ref \<Rightarrow> ('h, 'm) Scheduler" where
  "stop_timer s r =
     (case idleTimer (heap s ! r) of
        None \<Rightarrow> s
      | Some g \<Rightarrow> upd_actor (s\<lparr>timers := filter (\<lambda>(r', g', _). \<not> (r' = r \<and> g' = g)) (timers s)\<rparr>) r
                    (\<lambda>a. a\<lparr>idleTimer := None\<rparr>))"

definition next_generation :: "('h, 'm) Scheduler \<Rightarrow> actor_ref \<Rightarrow> ('h, 'm) Scheduler" where
  "next_generation s r = upd_actor s r (\<lambda>a. a\<lparr>idleGeneration := idleGeneration a + 1\<rparr>)"

definition Actor_Active :: "('h, 'm) Scheduler \<Rightarrow> actor_ref \<Rightarrow> ('h, 'm) Scheduler" where
  "Actor_Active s r = (if a_state (heap s ! r) \<noteq> started then s else stop_timer (next_generation s r) r)"

definition scheduleIdleReleaseLocked :: "('h, 'm) Scheduler \<Rightarrow> actor_ref \<Rightarrow> uint64 \<Rightarrow> int \<Rightarrow> ('h, 'm) Scheduler" where
  "scheduleIdleReleaseLocked s r generation delay =
     upd_actor (s\<lparr>timers := timers s @ [(r, generation, delay)]\<rparr>) r (\<lambda>a. a\<lparr>idleTimer := Some generation\<rparr>)"

definition Actor_Idle :: "('h, 'm) Scheduler \<Rightarrow> actor_ref \<Rightarrow> ('h, 'm) Scheduler" where
  "Actor_Idle s r =
     (let a = heap s ! r
      in if o_idleTimeout (a_opts a) \<le> 0 \<or> a_state a \<noteq> started then s
         else let s = next_generation (stop_timer s r) r
              in scheduleIdleReleaseLocked s r (idleGeneration (heap s ! r)) (o_idleTimeout (a_opts a)))"

definition cancelIdleRelease :: "('h, 'm) Scheduler \<Rightarrow> actor_ref \<Rightarrow> ('h, 'm) Scheduler" where
  "cancelIdleRelease s r = stop_timer (next_generation s r) r"

text \<open>\<open>killIdleActor\<close> up to \<open>finishDestroy\<close>; the result says whether the actor was committed.\<close>

definition killIdleActor :: "('h, 'm) Scheduler \<Rightarrow> actor_ref \<Rightarrow> uint64 \<Rightarrow> ('h, 'm) Scheduler \<times> bool" where
  "killIdleActor s r generation =
     (if \<not> registered s r \<or> idleGeneration (heap s ! r) \<noteq> generation \<or> a_state (heap s ! r) \<noteq> started then (s, False)
      else let s = upd_actor s r (\<lambda>a. a\<lparr>a_state := destroyed\<rparr>);
               s = stop_timer (next_generation s r) r
           in (removeActorLocked s r, True))"

section \<open>The rest of an operation\<close>

definition batchUnbindActor :: "('h, 'm) Scheduler \<Rightarrow> actor_ref \<Rightarrow> ('h, 'm) Scheduler" where
  "batchUnbindActor s r =
     (let a = heap s ! r; k = o_kind (a_opts a)
      in s\<lparr>relations := map (\<lambda>(uid, m). (uid, if gm_get (a_binds a) uid \<noteq> None \<and> gm_get m k = Some r then gm_del m k else m))
             (relations s)\<rparr>)"

definition close_actor :: "('h, 'm) Scheduler \<Rightarrow> actor_ref \<Rightarrow> ('h, 'm) Scheduler" where
  "close_actor s r =
     (if \<not> chans_open (heap s ! r) then s\<lparr>chan_panic := True\<rparr>
      else upd_actor s r (\<lambda>a. a\<lparr>chans_open := False, a_routes := [], a_events := [], processor := False,
        defaultRouteHandler := None\<rparr>))"

definition relate :: "('h, 'm) Scheduler \<Rightarrow> int64 \<Rightarrow> actor_ref \<Rightarrow> ('h, 'm) Scheduler" where
  "relate s uid r =
     s\<lparr>relations := gm_set (relations s) uid
         (gm_set (gm_get0 [] (relations s) uid) (o_kind (a_opts (heap s ! r))) r)\<rparr>"

text \<open>One step of a continuation; \<open>b\<close> answers the release guard.\<close>

fun continue :: "bool \<Rightarrow> cont \<Rightarrow> ('h, 'm) Scheduler \<Rightarrow> ('h, 'm) Scheduler \<times> cont list" where
  "continue b (KDestroy r) s =
     (if a_state (heap s ! r) = started then (upd_actor s r (\<lambda>a. a\<lparr>a_state := destroyed\<rparr>), [KCancel r])
      else (s, [KDone r]))"
| "continue b (KCancel r) s = (cancelIdleRelease s r, [KFinish r])"
| "continue b (KFinish r) s =
     (if processor (heap s ! r) then (upd_actor s r (\<lambda>a. a\<lparr>destroys := destroys a + 1\<rparr>), [KUnbind r])
      else (s\<lparr>chan_panic := True\<rparr>, []))"
| "continue b (KUnbind r) s = (batchUnbindActor s r, [KClose r])"
| "continue b (KClose r) s = (close_actor s r, [KHook r])"
| "continue b (KHook r) s = (upd_actor s r (\<lambda>a. a\<lparr>hooks_run := hooks_run a + 1, terminated := True\<rparr>), [KDone r])"
| "continue b (KDone r) s = (if o_wait (a_opts (heap s ! r)) then doneWait s else s, [])"
| "continue b (KBind uid r) s = (upd_actor s r (\<lambda>a. a\<lparr>a_binds := gm_set (a_binds a) uid ()\<rparr>), [KRelate uid r])"
| "continue b (KRelate uid r) s = (relate s uid r, [])"
| "continue b (KFire r g) s =
     (if a_state (heap s ! r) \<noteq> started \<or> idleGeneration (heap s ! r) \<noteq> g then (s, [])
      else (upd_actor s r (\<lambda>a. a\<lparr>idleTimer := None\<rparr>), [KGuard r g]))"
| "continue b (KGuard r g) s = (s, if o_releaseGuard (a_opts (heap s ! r)) \<and> \<not> b then [KRetry r g] else [KIdle r g])"
| "continue b (KRetry r g) s =
     (if a_state (heap s ! r) = started \<and> idleGeneration (heap s ! r) = g
      then (scheduleIdleReleaseLocked s r g (min (o_idleTimeout (a_opts (heap s ! r))) 1000000000), [])
      else (s, []))"
| "continue b (KIdle r g) s =
     (case killIdleActor s r g of
        (s, True) \<Rightarrow> (s, [KFinish r])
      | (s, False) \<Rightarrow>
          (if o_releaseGuard (a_opts (heap s ! r)) \<and> o_releaseGuardCanceled (a_opts (heap s ! r))
           then upd_actor s r (\<lambda>a. a\<lparr>guard_cancels := guard_cancels a + 1\<rparr>) else s, []))"

section \<open>Users and messages\<close>

text \<open>\<open>bindActor\<close> up to \<open>bindUser\<close>.\<close>

definition bindActor :: "('h, 'm) Scheduler \<Rightarrow> int64 \<Rightarrow> string \<Rightarrow> string \<Rightarrow> ('h, 'm) Scheduler \<times> goerror option" where
  "bindActor s uid kind iid =
     (if uid = 0 then (s, Some ErrIllegalOperation)
      else case sched_load s kind iid of
        None \<Rightarrow> (s, Some ErrNotFoundActor)
      | Some r \<Rightarrow> (s\<lparr>conts := conts s @ [KBind uid r]\<rparr>, None))"

definition unbindActor :: "('h, 'm) Scheduler \<Rightarrow> int64 \<Rightarrow> string \<Rightarrow> ('h, 'm) Scheduler" where
  "unbindActor s uid kind =
     (case gm_get (relations s) uid of
        None \<Rightarrow> s
      | Some m \<Rightarrow>
          (case gm_get m kind of
             None \<Rightarrow> s
           | Some r \<Rightarrow>
               if gm_get (a_binds (heap s ! r)) uid = None then s
               else (upd_actor s r (\<lambda>a. a\<lparr>a_binds := gm_del (a_binds a) uid\<rparr>))
                      \<lparr>relations := gm_set (relations s) uid (gm_del m kind)\<rparr>))"

definition loadActor :: "('h, 'm) Scheduler \<Rightarrow> int64 \<Rightarrow> string \<Rightarrow> actor_ref option" where
  "loadActor s uid kind = (case gm_get (relations s) uid of Some m \<Rightarrow> gm_get m kind | None \<Rightarrow> None)"

definition chan_size :: nat where "chan_size = 4096"

text \<open>A send on a full channel blocks: no step.\<close>

definition Actor_Next :: "('h, 'm) Scheduler \<Rightarrow> actor_ref \<Rightarrow> 'm actor_msg \<Rightarrow> ('h, 'm) Scheduler option" where
  "Actor_Next s r m =
     (if a_state (heap s ! r) \<noteq> started then Some s
      else if chan_size \<le> length (mailbox (heap s ! r)) then None
      else Some (upd_actor s r (\<lambda>a. a\<lparr>mailbox := mailbox a @ [m]\<rparr>)))"

definition send_fn :: "('h, 'm) Scheduler \<Rightarrow> actor_ref \<Rightarrow> 'h actor_fn \<Rightarrow> ('h, 'm) Scheduler option" where
  "send_fn s r f =
     (if chan_size \<le> length (fnChan (heap s ! r)) then None
      else Some (upd_actor s r (\<lambda>a. a\<lparr>fnChan := fnChan a @ [f]\<rparr>)))"

definition TryInvoke :: "('h, 'm) Scheduler \<Rightarrow> actor_ref \<Rightarrow> (('h, 'm) Scheduler \<times> bool) option" where
  "TryInvoke s r =
     (if a_state (heap s ! r) \<noteq> started then Some (s, False) else map_option (\<lambda>s. (s, True)) (send_fn s r FCall))"

text \<open>What a closure does when the actor runs it.\<close>

fun run_fn :: "'h actor_fn \<Rightarrow> actor_ref \<Rightarrow> ('h, 'm) Scheduler \<Rightarrow> ('h, 'm) Scheduler" where
  "run_fn (FDefault h) r s = upd_actor s r (\<lambda>a. a\<lparr>defaultRouteHandler := Some h\<rparr>)"
| "run_fn (FRoute route h) r s =
     (let s = upd_actor s r (\<lambda>a. a\<lparr>a_routes := gm_set (a_routes a) route h\<rparr>); o1 = a_opts (heap s ! r)
      in if o_dispatch o1 then s\<lparr>s_routes := gm_set (s_routes s) route (o_kind o1)\<rparr> else s)"
| "run_fn (FEvent e h) r s = upd_actor s r (\<lambda>a. a\<lparr>a_events := gm_set (a_events a) e h\<rparr>)"
| "run_fn FCall r s = s"

text \<open>\<open>AddRouteHandler\<close>, \<open>AddEventHandler\<close> and \<open>SetDefaultRouteHandler\<close>.\<close>

definition add_handler :: "('h, 'm) Scheduler \<Rightarrow> actor_ref \<Rightarrow> 'h actor_fn \<Rightarrow> ('h, 'm) Scheduler option" where
  "add_handler s r f =
     (case a_state (heap s ! r) of
        unstart \<Rightarrow> Some (case f of
            FDefault h \<Rightarrow> upd_actor s r (\<lambda>a. a\<lparr>defaultRouteHandler := Some h\<rparr>)
          | FRoute route h \<Rightarrow> upd_actor s r (\<lambda>a. a\<lparr>a_routes := gm_set (a_routes a) route h\<rparr>)
          | FEvent e h \<Rightarrow> upd_actor s r (\<lambda>a. a\<lparr>a_events := gm_set (a_events a) e h\<rparr>)
          | FCall \<Rightarrow> s)
      | started \<Rightarrow> send_fn s r f
      | destroyed \<Rightarrow> Some s)"

definition handler_of :: "('h, 'm) Actor \<Rightarrow> 'm actor_msg \<Rightarrow> 'h option" where
  "handler_of a m =
     (case m of
        EvtMsg e _ \<Rightarrow> gm_get (a_events a) e
      | ReqMsg _ route _ \<Rightarrow> (case gm_get (a_routes a) route of Some h \<Rightarrow> Some h | None \<Rightarrow> defaultRouteHandler a))"

text \<open>The loop of an actor receives a message, receives a closure, or ends at a closed channel.\<close>

definition dispatch_mail :: "('h, 'm) Scheduler \<Rightarrow> actor_ref \<Rightarrow> ('h, 'm) Scheduler option" where
  "dispatch_mail s r =
     (let a = heap s ! r
      in if \<not> looping a then None
         else case mailbox a of
           [] \<Rightarrow> if chans_open a then None else Some (upd_actor s r (\<lambda>a. a\<lparr>looping := False\<rparr>))
         | m # ms \<Rightarrow> Some (upd_actor s r (\<lambda>a. a\<lparr>mailbox := ms,
               handled := (case handler_of a m of Some h \<Rightarrow> handled a @ [(h, m)] | None \<Rightarrow> handled a)\<rparr>)))"

definition dispatch_fn :: "('h, 'm) Scheduler \<Rightarrow> actor_ref \<Rightarrow> ('h, 'm) Scheduler option" where
  "dispatch_fn s r =
     (let a = heap s ! r
      in if \<not> looping a then None
         else case fnChan a of
           [] \<Rightarrow> if chans_open a then None else Some (upd_actor s r (\<lambda>a. a\<lparr>looping := False\<rparr>))
         | f # fs \<Rightarrow> Some (run_fn f r (upd_actor s r (\<lambda>a. a\<lparr>fnChan := fs\<rparr>))))"

definition dispatchRequest ::
    "('h, 'm) Scheduler \<Rightarrow> int64 \<Rightarrow> int32 \<Rightarrow> 'm \<Rightarrow> (('h, 'm) Scheduler \<times> goerror option) option" where
  "dispatchRequest s uid route m =
     (if uid = 0 then Some (s, Some ErrMissingDispatchStrategy)
      else case gm_get (s_routes s) route of
        None \<Rightarrow> Some (s, Some ErrUnregisterRoute)
      | Some kind \<Rightarrow>
          (case loadActor s uid kind of
             None \<Rightarrow> Some (s, Some ErrNotBindActor)
           | Some r \<Rightarrow> map_option (\<lambda>s. (s, None)) (Actor_Next s r (ReqMsg uid route m))))"

fun next_all :: "actor_ref list \<Rightarrow> 'm actor_msg \<Rightarrow> ('h, 'm) Scheduler \<Rightarrow> ('h, 'm) Scheduler option" where
  "next_all [] m s = Some s"
| "next_all (r # rs) m s =
     (case (if o_dispatch (a_opts (heap s ! r)) then Actor_Next s r m else Some s) of
        None \<Rightarrow> None | Some s \<Rightarrow> next_all rs m s)"

definition dispatchEvent :: "('h, 'm) Scheduler \<Rightarrow> int \<Rightarrow> 'm \<Rightarrow> ('h, 'm) Scheduler option" where
  "dispatchEvent s e m = next_all (gm_values (actors s)) (EvtMsg e m) s"

section \<open>Runs\<close>

text \<open>
  \<open>AWork\<close> stands for the functions and tasks of the node (\<open>Proxy.Invoke\<close>, \<open>AfterFunc\<close>, \<open>request.Task\<close>):
  each is a call of \<open>addWait\<close> and, when done, one of \<open>doneWait\<close>.  \<open>AFire\<close> starts the goroutine of a timer.
  After a panic there is no step.
\<close>

datatype ('h, 'm) sched_action =
    ASpawn actorOptions "'h actor_fn list" | AKill string string | ADestroy actor_ref
  | ABind int64 string string | AUnbind int64 string | AActive actor_ref | AIdle actor_ref
  | AFire actor_ref uint64 int | ACont cont bool | AHandler actor_ref "'h actor_fn" | AInvoke actor_ref
  | AMail actor_ref | AFn actor_ref | ANext actor_ref "'m actor_msg" | ARequest int64 int32 'm | AEvent int 'm
  | AState cluster_state | AWork | AWorkDone

definition on_actor :: "('h, 'm) Scheduler \<Rightarrow> actor_ref \<Rightarrow> 'x option \<Rightarrow> 'x option" where
  "on_actor s r x = (if r < length (heap s) then x else None)"

definition sched_act :: "('h, 'm) sched_action \<Rightarrow> ('h, 'm) Scheduler \<Rightarrow> ('h, 'm) Scheduler option" where
  "sched_act a s =
     (if wg_panic s \<or> chan_panic s then None
      else case a of
        ASpawn op inits \<Rightarrow> if length inits \<le> chan_size then Some (fst (spawnObserved s op inits)) else None
      | AKill kind iid \<Rightarrow> Some (sched_kill s kind iid)
      | ADestroy r \<Rightarrow> on_actor s r (Some (killActor s r))
      | ABind uid kind iid \<Rightarrow> Some (fst (bindActor s uid kind iid))
      | AUnbind uid kind \<Rightarrow> Some (unbindActor s uid kind)
      | AActive r \<Rightarrow> on_actor s r (Some (Actor_Active s r))
      | AIdle r \<Rightarrow> on_actor s r (Some (Actor_Idle s r))
      | AFire r g d \<Rightarrow>
          if (r, g, d) \<in> set (timers s)
          then Some (s\<lparr>timers := remove1 (r, g, d) (timers s), conts := conts s @ [KFire r g]\<rparr>) else None
      | ACont k b \<Rightarrow>
          if k \<in> set (conts s)
          then (case continue b k (s\<lparr>conts := remove1 k (conts s)\<rparr>) of (s, ks) \<Rightarrow> Some (s\<lparr>conts := conts s @ ks\<rparr>))
          else None
      | AHandler r f \<Rightarrow> on_actor s r (add_handler s r f)
      | AInvoke r \<Rightarrow> on_actor s r (map_option fst (TryInvoke s r))
      | AMail r \<Rightarrow> on_actor s r (dispatch_mail s r)
      | AFn r \<Rightarrow> on_actor s r (dispatch_fn s r)
      | ANext r m \<Rightarrow> on_actor s r (Actor_Next s r m)
      | ARequest uid route m \<Rightarrow> map_option fst (dispatchRequest s uid route m)
      | AEvent e m \<Rightarrow> dispatchEvent s e m
      | AState st \<Rightarrow> Some (s\<lparr>n_state := st\<rparr>)
      | AWork \<Rightarrow> Some (addWait (s\<lparr>work := work s + 1\<rparr>))
      | AWorkDone \<Rightarrow> if work s = 0 then None else Some (doneWait (s\<lparr>work := work s - 1\<rparr>)))"

primrec run_sched :: "('h, 'm) sched_action list \<Rightarrow> ('h, 'm) Scheduler \<Rightarrow> ('h, 'm) Scheduler option" where
  "run_sched [] s = Some s"
| "run_sched (a # as) s = (case sched_act a s of None \<Rightarrow> None | Some s \<Rightarrow> run_sched as s)"

inductive sched_reachable :: "('h, 'm) Scheduler \<Rightarrow> bool" where
  sched_new: "sched_reachable (newScheduler st)"
| sched_step: "sched_reachable s \<Longrightarrow> sched_act a s = Some s' \<Longrightarrow> sched_reachable s'"

text \<open>The node works all the time: what is accepted while it is shut does not count.\<close>

inductive working_reachable :: "('h, 'm) Scheduler \<Rightarrow> bool" where
  working_new: "working_reachable (newScheduler Work)"
| working_step: "working_reachable s \<Longrightarrow> sched_act a s = Some s' \<Longrightarrow> n_state s' \<noteq> Shut \<Longrightarrow> working_reachable s'"

section \<open>The life of an actor\<close>

text \<open>The actor an ending operation is about, and what it leaves of the actor at each point.\<close>

fun ending :: "cont \<Rightarrow> actor_ref option" where
  "ending (KDestroy r) = Some r"
| "ending (KCancel r) = Some r"
| "ending (KFinish r) = Some r"
| "ending (KUnbind r) = Some r"
| "ending (KClose r) = Some r"
| "ending (KHook r) = Some r"
| "ending (KDone r) = Some r"
| "ending k = None"

type_synonym life = "actor_state \<times> bool \<times> bool \<times> bool \<times> nat \<times> nat"
type_synonym core = "(string \<times> bool) \<times> life"

definition core :: "('h, 'm) Actor \<Rightarrow> core" where
  "core a = ((actor_PID a, o_wait (a_opts a)), a_state a, processor a, chans_open a, terminated a, destroys a, hooks_run a)"

definition live :: life where "live = (started, True, True, False, 0, 0)"
definition gone :: life where "gone = (destroyed, False, False, True, 1, 1)"

fun expected :: "cont \<Rightarrow> life" where
  "expected (KDestroy r) = live"
| "expected (KCancel r) = (destroyed, True, True, False, 0, 0)"
| "expected (KFinish r) = (destroyed, True, True, False, 0, 0)"
| "expected (KUnbind r) = (destroyed, True, True, False, 1, 0)"
| "expected (KClose r) = (destroyed, True, True, False, 1, 0)"
| "expected (KHook r) = (destroyed, False, False, False, 1, 0)"
| "expected k = gone"

abbreviation endings :: "cont list \<Rightarrow> actor_ref \<Rightarrow> cont list" where
  "endings ks r \<equiv> filter (\<lambda>k. ending k = Some r) ks"

definition life_at :: "core \<Rightarrow> bool \<Rightarrow> cont list \<Rightarrow> bool" where
  "life_at c reg fs =
     (if reg then fs = [] \<and> snd c = live
      else (case fs of [] \<Rightarrow> snd c = gone | [k] \<Rightarrow> snd c = expected k | _ \<Rightarrow> False))"

definition life_ok :: "core list \<Rightarrow> (string, actor_ref) gomap \<Rightarrow> cont list \<Rightarrow> bool" where
  "life_ok cs as ks \<longleftrightarrow>
     gm_ok as \<and>
     (\<forall>pid r. gm_get as pid = Some r \<longrightarrow> r < length cs \<and> fst (fst (cs ! r)) = pid) \<and>
     (\<forall>k r. k \<in> set ks \<longrightarrow> ending k = Some r \<longrightarrow> r < length cs) \<and>
     (\<forall>r < length cs. life_at (cs ! r) (gm_get as (fst (fst (cs ! r))) = Some r) (endings ks r))"

lemma life_okD:
  assumes "life_ok cs as ks"
  shows "gm_ok as"
    and "gm_get as pid = Some r \<Longrightarrow> r < length cs" and "gm_get as pid = Some r \<Longrightarrow> fst (fst (cs ! r)) = pid"
    and "k \<in> set ks \<Longrightarrow> ending k = Some r \<Longrightarrow> r < length cs"
    and "r < length cs \<Longrightarrow> life_at (cs ! r) (gm_get as (fst (fst (cs ! r))) = Some r) (endings ks r)"
  using assms by (auto simp: life_ok_def)

lemma life_okI:
  assumes "gm_ok as"
    and "\<And>pid r. gm_get as pid = Some r \<Longrightarrow> r < length cs \<and> fst (fst (cs ! r)) = pid"
    and "\<And>k r. k \<in> set ks \<Longrightarrow> ending k = Some r \<Longrightarrow> r < length cs"
    and "\<And>r. r < length cs \<Longrightarrow> life_at (cs ! r) (gm_get as (fst (fst (cs ! r))) = Some r) (endings ks r)"
  shows "life_ok cs as ks"
  using assms by (auto simp: life_ok_def)

lemma endings_new: "life_ok cs as ks \<Longrightarrow> endings ks (length cs) = []"
  using life_okD(4) by (fastforce simp: filter_empty_conv)

lemma life_ok_spawn:
  assumes ok: "life_ok cs as ks" and new: "gm_get as pid = None"
  shows "life_ok (cs @ [((pid, w), live)]) (gm_set as pid (length cs)) ks"
proof (rule life_okI)
  show "gm_ok (gm_set as pid (length cs))"
    using life_okD(1) [OF ok] by simp
  show "r < length (cs @ [((pid, w), live)]) \<and> fst (fst ((cs @ [((pid, w), live)]) ! r)) = p"
    if "gm_get (gm_set as pid (length cs)) p = Some r" for p r
    using that life_okD(2,3) [OF ok, of p r] by (auto simp: nth_append split: if_splits)
  show "r < length (cs @ [((pid, w), live)])" if "k \<in> set ks" "ending k = Some r" for k r
    using life_okD(4) [OF ok that] by simp
  fix r
  assume "r < length (cs @ [((pid, w), live)])"
  then consider "r < length cs" | "r = length cs" by fastforce
  then show "life_at ((cs @ [((pid, w), live)]) ! r)
      (gm_get (gm_set as pid (length cs)) (fst (fst ((cs @ [((pid, w), live)]) ! r))) = Some r) (endings ks r)"
  proof cases
    case 1
    then show ?thesis
      using life_okD(5) [OF ok 1] new by (auto simp: nth_append)
  next
    case 2
    then show ?thesis using endings_new [OF ok] by (simp add: life_at_def)
  qed
qed

lemma life_ok_remove:
  assumes ok: "life_ok cs as ks" and reg: "gm_get as pid = Some r" and k: "ending k = Some r"
  shows "life_ok (cs[r := (fst (cs ! r), expected k)]) (gm_del as pid) (ks @ [k])"
proof -
  have r: "r < length cs" "fst (fst (cs ! r)) = pid"
    using life_okD(2,3) [OF ok reg] by simp_all
  then have none: "endings ks r = []"
    using life_okD(5) [OF ok r(1)] reg by (simp add: life_at_def)
  show ?thesis
  proof (rule life_okI)
    show "gm_ok (gm_del as pid)"
      using life_okD(1) [OF ok] by simp
    show "q < length (cs[r := (fst (cs ! r), expected k)]) \<and> fst (fst (cs[r := (fst (cs ! r), expected k)] ! q)) = p"
      if "gm_get (gm_del as pid) p = Some q" for p q
      using that life_okD(2,3) [OF ok, of p q] r by (cases "q = r") (auto split: if_splits)
    show "q < length (cs[r := (fst (cs ! r), expected k)])" if "k' \<in> set (ks @ [k])" "ending k' = Some q" for k' q
      using that life_okD(4) [OF ok, of k' q] k r by auto
    fix q
    assume q: "q < length (cs[r := (fst (cs ! r), expected k)])"
    show "life_at (cs[r := (fst (cs ! r), expected k)] ! q)
        (gm_get (gm_del as pid) (fst (fst (cs[r := (fst (cs ! r), expected k)] ! q))) = Some q) (endings (ks @ [k]) q)"
    proof (cases "q = r")
      case True
      then show ?thesis using r none k by (simp add: life_at_def)
    next
      case False
      then show ?thesis using life_okD(5) [OF ok, of q] q k reg by auto
    qed
  qed
qed

lemma endings_advance:
  assumes "ending k = Some r" and "endings ks r = [k]"
  shows "endings (remove1 k ks @ ks') q =
    (if q = r then endings ks' r else endings ks q @ endings ks' q)"
  using assms by (auto simp: filter_remove1 remove1_idem)

lemma life_ending:
  assumes ok: "life_ok cs as ks" and k: "k \<in> set ks" "ending k = Some r"
  shows "r < length cs" "gm_get as (fst (fst (cs ! r))) \<noteq> Some r" "endings ks r = [k]" "snd (cs ! r) = expected k"
proof -
  show r: "r < length cs" using life_okD(4) [OF ok k] .
  have in_fs: "k \<in> set (endings ks r)" using k by simp
  have at: "life_at (cs ! r) (gm_get as (fst (fst (cs ! r))) = Some r) (endings ks r)"
    using life_okD(5) [OF ok r] .
  then show "gm_get as (fst (fst (cs ! r))) \<noteq> Some r"
    using in_fs by (auto simp: life_at_def simp del: set_filter)
  then obtain k' where "endings ks r = [k']" "snd (cs ! r) = expected k'"
    using at in_fs by (auto simp: life_at_def simp del: set_filter split: list.splits)
  then show "endings ks r = [k]" "snd (cs ! r) = expected k"
    using in_fs by (simp_all del: set_filter)
qed

lemma life_ok_advance:
  assumes ok: "life_ok cs as ks" and k: "k \<in> set ks" "ending k = Some r" and k': "ending k' = Some r"
  shows "life_ok (cs[r := (fst (cs ! r), expected k')]) as (remove1 k ks @ [k'])"
proof -
  note e = life_ending [OF ok k]
  show ?thesis
  proof (rule life_okI)
    show "gm_ok as" using life_okD(1) [OF ok] .
    show "q < length (cs[r := (fst (cs ! r), expected k')]) \<and> fst (fst (cs[r := (fst (cs ! r), expected k')] ! q)) = p"
      if "gm_get as p = Some q" for p q
      using that life_okD(2,3) [OF ok, of p q] by (cases "q = r") auto
    show "q < length (cs[r := (fst (cs ! r), expected k')])" if "k'' \<in> set (remove1 k ks @ [k'])" "ending k'' = Some q" for k'' q
      using that life_okD(4) [OF ok, of k'' q] k' e(1) set_remove1_subset [of k ks] by auto
    fix q
    assume q: "q < length (cs[r := (fst (cs ! r), expected k')])"
    show "life_at (cs[r := (fst (cs ! r), expected k')] ! q)
        (gm_get as (fst (fst (cs[r := (fst (cs ! r), expected k')] ! q))) = Some q) (endings (remove1 k ks @ [k']) q)"
      unfolding endings_advance [OF k(2) e(3)]
      using life_okD(5) [OF ok, of q] q e(1,2) k' by (cases "q = r") (auto simp: life_at_def)
  qed
qed

lemma life_ok_done:
  assumes ok: "life_ok cs as ks" and k: "KDone r \<in> set ks"
  shows "life_ok cs as (remove1 (KDone r) ks)"
proof -
  have k2: "ending (KDone r) = Some r" by simp
  note e = life_ending [OF ok k k2]
  show ?thesis
  proof (rule life_okI)
    show "gm_ok as" using life_okD(1) [OF ok] .
    show "q < length cs \<and> fst (fst (cs ! q)) = p" if "gm_get as p = Some q" for p q
      using that life_okD(2,3) [OF ok] by simp
    show "q < length cs" if "k' \<in> set (remove1 (KDone r) ks)" "ending k' = Some q" for k' q
      using that life_okD(4) [OF ok, of k' q] set_remove1_subset [of "KDone r" ks] by auto
    fix q
    assume q: "q < length cs"
    show "life_at (cs ! q) (gm_get as (fst (fst (cs ! q))) = Some q) (endings (remove1 (KDone r) ks) q)"
      using endings_advance [OF k2 e(3), where ks' = "[]" and q = q] life_okD(5) [OF ok q] e(2,4) by (auto simp: life_at_def)
  qed
qed

section \<open>What the operations leave of the lives\<close>

lemma map_core_upd: "map core (heap (upd_actor s r f)) = (map core (heap s))[r := core (f (heap s ! r))]"
  by (simp add: upd_actor_def map_update)

lemma map_core_id [simp]: "(map core h)[r := core (h ! r)] = map core h"
  by (metis list_update_id map_update)

lemma upd_frame [simp]:
  "core (f (heap s ! r)) = core (heap s ! r) \<Longrightarrow> map core (heap (upd_actor s r f)) = map core (heap s)"
  by (simp add: map_core_upd)

lemma upd_fields [simp]:
  "actors (upd_actor s r f) = actors s" "conts (upd_actor s r f) = conts s" "chan_panic (upd_actor s r f) = chan_panic s"
  "wg_panic (upd_actor s r f) = wg_panic s" "n_wg (upd_actor s r f) = n_wg s" "work (upd_actor s r f) = work s"
  "n_state (upd_actor s r f) = n_state s" "length (heap (upd_actor s r f)) = length (heap s)"
  by (simp_all add: upd_actor_def)

lemma core_update [simp]:
  "core (a\<lparr>idleTimer := t\<rparr>) = core a" "core (a\<lparr>idleGeneration := g\<rparr>) = core a" "core (a\<lparr>a_binds := b\<rparr>) = core a"
  "core (a\<lparr>mailbox := ms\<rparr>) = core a" "core (a\<lparr>fnChan := fs\<rparr>) = core a" "core (a\<lparr>looping := l\<rparr>) = core a"
  "core (a\<lparr>a_routes := rs\<rparr>) = core a" "core (a\<lparr>a_events := es\<rparr>) = core a" "core (a\<lparr>defaultRouteHandler := d\<rparr>) = core a"
  "core (a\<lparr>handled := h\<rparr>) = core a" "core (a\<lparr>guard_cancels := n\<rparr>) = core a"
  by (simp_all add: core_def actor_PID_def)

text \<open>Two states with the same lives, continuations and panics of channels; the wait group apart.\<close>

definition same_lives :: "('h, 'm) Scheduler \<Rightarrow> ('h, 'm) Scheduler \<Rightarrow> bool" where
  "same_lives s s' \<longleftrightarrow> map core (heap s') = map core (heap s) \<and> actors s' = actors s \<and> conts s' = conts s \<and>
     chan_panic s' = chan_panic s \<and> n_state s' = n_state s"

definition same_waits :: "('h, 'm) Scheduler \<Rightarrow> ('h, 'm) Scheduler \<Rightarrow> bool" where
  "same_waits s s' \<longleftrightarrow> n_wg s' = n_wg s \<and> work s' = work s \<and> wg_panic s' = wg_panic s"

lemma same_lives_trans: "same_lives a b \<Longrightarrow> same_lives b c \<Longrightarrow> same_lives a c"
  by (simp add: same_lives_def)

lemma same_waits_trans: "same_waits a b \<Longrightarrow> same_waits b c \<Longrightarrow> same_waits a c"
  by (simp add: same_waits_def)

lemma same_upd:
  "core (f (heap s ! r)) = core (heap s ! r) \<Longrightarrow> same_lives s (upd_actor s r f)" "same_waits s (upd_actor s r f)"
  "same_lives s s" "same_waits s s"
  by (simp_all add: same_lives_def same_waits_def)

lemma same_stop: "same_lives s (stop_timer s r)" "same_waits s (stop_timer s r)"
  by (simp_all add: same_lives_def same_waits_def stop_timer_def upd_actor_def map_update split: option.splits)

lemma same_next: "same_lives s (next_generation s r)" "same_waits s (next_generation s r)"
  by (simp_all add: next_generation_def same_upd)

lemma same_schedule: "same_lives s (scheduleIdleReleaseLocked s r g d)" "same_waits s (scheduleIdleReleaseLocked s r g d)"
  by (simp_all add: same_lives_def same_waits_def scheduleIdleReleaseLocked_def upd_actor_def map_update)

lemma same_cancel: "same_lives s (cancelIdleRelease s r)" "same_waits s (cancelIdleRelease s r)"
  unfolding cancelIdleRelease_def
  by (rule same_lives_trans [OF same_next(1) same_stop(1)] same_waits_trans [OF same_next(2) same_stop(2)])+

lemma same_idle:
  "same_lives s (Actor_Active s r)" "same_waits s (Actor_Active s r)" "same_lives s (Actor_Idle s r)" "same_waits s (Actor_Idle s r)"
proof -
  have i: "same_lives s (scheduleIdleReleaseLocked (next_generation (stop_timer s r) r) r g d)"
    "same_waits s (scheduleIdleReleaseLocked (next_generation (stop_timer s r) r) r g d)" for g d
    by (rule same_lives_trans [OF same_lives_trans [OF same_stop(1) same_next(1)] same_schedule(1)]
        same_waits_trans [OF same_waits_trans [OF same_stop(2) same_next(2)] same_schedule(2)])+
  show "same_lives s (Actor_Active s r)" "same_waits s (Actor_Active s r)" "same_lives s (Actor_Idle s r)" "same_waits s (Actor_Idle s r)"
    using same_cancel [of s r] same_upd(3,4) [of s] i
    by (simp_all add: Actor_Active_def Actor_Idle_def cancelIdleRelease_def Let_def)
qed

lemma same_relate:
  "same_lives s (relate s uid r)" "same_waits s (relate s uid r)" "same_lives s (batchUnbindActor s r)" "same_waits s (batchUnbindActor s r)"
  by (simp_all add: same_lives_def same_waits_def relate_def batchUnbindActor_def Let_def)

lemma same_unbind: "same_lives s (unbindActor s uid kind)" "same_waits s (unbindActor s uid kind)"
  by (auto simp: unbindActor_def same_lives_def same_waits_def upd_actor_def map_update split: option.splits)

lemma same_Next: "Actor_Next s r m = Some s' \<Longrightarrow> same_lives s s' \<and> same_waits s s'"
  by (auto simp: Actor_Next_def same_upd split: if_splits)

lemma same_send: "send_fn s r f = Some s' \<Longrightarrow> same_lives s s' \<and> same_waits s s'"
  by (auto simp: send_fn_def same_upd split: if_splits)

lemma same_handler: "add_handler s r f = Some s' \<Longrightarrow> same_lives s s' \<and> same_waits s s'"
  by (auto simp: add_handler_def same_upd dest: same_send split: actor_state.splits actor_fn.splits)

lemma same_mail: "dispatch_mail s r = Some s' \<Longrightarrow> same_lives s s' \<and> same_waits s s'"
  by (auto simp: dispatch_mail_def Let_def same_upd core_def actor_PID_def split: if_splits list.splits)

lemma same_run_fn: "same_lives s (run_fn f r s)" "same_waits s (run_fn f r s)"
  by (cases f; auto simp: same_lives_def same_waits_def Let_def)+

lemma same_fn: "dispatch_fn s r = Some s' \<Longrightarrow> same_lives s s' \<and> same_waits s s'"
  by (auto simp: dispatch_fn_def Let_def same_upd split: if_splits list.splits
      intro: same_lives_trans [OF same_upd(1) same_run_fn(1)] same_waits_trans [OF same_upd(2) same_run_fn(2)])

lemma same_all: "next_all rs m s = Some s' \<Longrightarrow> same_lives s s' \<and> same_waits s s'"
proof (induction rs arbitrary: s)
  case Nil
  then show ?case by (simp add: same_upd)
next
  case (Cons r rs)
  obtain s1 where s1: "(if o_dispatch (a_opts (heap s ! r)) then Actor_Next s r m else Some s) = Some s1" "next_all rs m s1 = Some s'"
    using Cons.prems by (auto split: option.splits)
  then have "same_lives s s1 \<and> same_waits s s1"
    using same_Next [of s r m s1] by (auto simp: same_upd split: if_splits)
  then show ?case
    using Cons.IH [OF s1(2)] same_lives_trans same_waits_trans by blast
qed

section \<open>The abstract life cycle\<close>

text \<open>
  What the scheduler promises of its actors, without locks, timers, users and messages: an actor is
  born registered; it leaves the table with the operation that will end it; that operation proceeds;
  its last step reports the actor done.
\<close>

type_synonym lives = "core list \<times> (string, actor_ref) gomap \<times> cont list"

datatype life_event = Silent | Born bool | Done bool

inductive life_step :: "lives \<Rightarrow> life_event \<Rightarrow> lives \<Rightarrow> bool" where
  life_silent: "life_step l Silent l"
| life_born: "gm_get as pid = None \<Longrightarrow>
    life_step (cs, as, ks) (Born w) (cs @ [((pid, w), live)], gm_set as pid (length cs), ks)"
| life_removed: "gm_get as pid = Some r \<Longrightarrow> ending k = Some r \<Longrightarrow>
    life_step (cs, as, ks) Silent (cs[r := (fst (cs ! r), expected k)], gm_del as pid, ks @ [k])"
| life_advanced: "k \<in> set ks \<Longrightarrow> ending k = Some r \<Longrightarrow> ending k' = Some r \<Longrightarrow>
    life_step (cs, as, ks) Silent (cs[r := (fst (cs ! r), expected k')], as, remove1 k ks @ [k'])"
| life_done: "KDone r \<in> set ks \<Longrightarrow>
    life_step (cs, as, ks) (Done (snd (fst (cs ! r)))) (cs, as, remove1 (KDone r) ks)"

inductive_cases life_stepE: "life_step l e l'"

definition lives_ok :: "lives \<Rightarrow> bool" where
  "lives_ok l = (case l of (cs, as, ks) \<Rightarrow> life_ok cs as ks)"

lemma lives_ok_step: "life_step l e l' \<Longrightarrow> lives_ok l \<Longrightarrow> lives_ok l'"
  by (induction rule: life_step.induct)
    (simp_all add: lives_ok_def life_ok_spawn life_ok_remove life_ok_advance life_ok_done)

text \<open>The actors whose end has not been reported, among those the node waits for.\<close>

definition unfinished :: "lives \<Rightarrow> actor_ref set" where
  "unfinished l = (case l of (cs, as, ks) \<Rightarrow>
     {r. r < length cs \<and> snd (fst (cs ! r)) \<and> (gm_get as (fst (fst (cs ! r))) = Some r \<or> endings ks r \<noteq> [])})"

lemma finite_unfinished [simp]: "finite (unfinished l)"
  by (cases l) (simp add: unfinished_def)

lemma unfinished_step:
  assumes "life_step l e l'" and "lives_ok l"
  shows "case e of
      Silent \<Rightarrow> unfinished l' = unfinished l
    | Born w \<Rightarrow> card (unfinished l') = card (unfinished l) + (if w then 1 else 0)
    | Done w \<Rightarrow> card (unfinished l) = card (unfinished l') + (if w then 1 else 0)"
  using assms
proof (induction rule: life_step.induct)
  case (life_silent l)
  then show ?case by simp
next
  case (life_born as pid cs ks w)
  then have ok: "life_ok cs as ks" by (simp add: lives_ok_def)
  have "unfinished (cs @ [((pid, w), live)], gm_set as pid (length cs), ks) =
      unfinished (cs, as, ks) \<union> (if w then {length cs} else {})"
  proof (rule set_eqI)
    fix r
    consider "r < length cs" | "r = length cs" | "length cs < r" by linarith
    then show "r \<in> unfinished (cs @ [((pid, w), live)], gm_set as pid (length cs), ks) \<longleftrightarrow>
        r \<in> unfinished (cs, as, ks) \<union> (if w then {length cs} else {})"
      using life_okD(2) [OF ok, of pid r] life_born(1) endings_new [OF ok] by cases (auto simp: unfinished_def nth_append)
  qed
  moreover have "length cs \<notin> unfinished (cs, as, ks)"
    by (simp add: unfinished_def)
  ultimately show ?case by simp
next
  case (life_removed as pid r k cs ks)
  then have ok: "life_ok cs as ks" by (simp add: lives_ok_def)
  have r: "r < length cs" "fst (fst (cs ! r)) = pid"
    using life_okD(2,3) [OF ok life_removed(1)] by simp_all
  have "q \<in> unfinished (cs[r := (fst (cs ! r), expected k)], gm_del as pid, ks @ [k]) \<longleftrightarrow> q \<in> unfinished (cs, as, ks)" for q
    using life_removed(1,2) r by (cases "q = r") (auto simp: unfinished_def)
  then show ?case by auto
next
  case (life_advanced k ks r k' cs as)
  then have ok: "life_ok cs as ks" by (simp add: lives_ok_def)
  note e = life_ending [OF ok life_advanced(1,2)]
  have "q \<in> unfinished (cs[r := (fst (cs ! r), expected k')], as, remove1 k ks @ [k']) \<longleftrightarrow> q \<in> unfinished (cs, as, ks)" for q
    using endings_advance [OF life_advanced(2) e(3), where ks' = "[k']" and q = q] life_advanced(3) e
    by (cases "q = r") (auto simp: unfinished_def)
  then show ?case by auto
next
  case (life_done r ks cs as)
  then have ok: "life_ok cs as ks" by (simp add: lives_ok_def)
  have k: "ending (KDone r) = Some r" by simp
  note e = life_ending [OF ok life_done(1) k]
  have "unfinished (cs, as, ks) =
      unfinished (cs, as, remove1 (KDone r) ks) \<union> (if snd (fst (cs ! r)) then {r} else {})"
  proof (rule set_eqI)
    fix q
    show "q \<in> unfinished (cs, as, ks) \<longleftrightarrow>
        q \<in> unfinished (cs, as, remove1 (KDone r) ks) \<union> (if snd (fst (cs ! r)) then {r} else {})"
      using endings_advance [OF k e(3), where ks' = "[]" and q = q] e by (cases "q = r") (auto simp: unfinished_def)
  qed
  moreover have "r \<notin> unfinished (cs, as, remove1 (KDone r) ks)"
    using endings_advance [OF k e(3), where ks' = "[]" and q = r] e by (simp add: unfinished_def)
  ultimately show ?case by simp
qed

section \<open>The scheduler implements the life cycle\<close>

definition ends :: "cont \<Rightarrow> bool" where
  "ends k \<longleftrightarrow> ending k \<noteq> None"

lemma ends_simps [simp]:
  "ends (KDestroy r)" "ends (KCancel r)" "ends (KFinish r)" "ends (KUnbind r)" "ends (KClose r)" "ends (KHook r)" "ends (KDone r)"
  "\<not> ends (KBind uid r)" "\<not> ends (KRelate uid r)" "\<not> ends (KFire r g)" "\<not> ends (KGuard r g)" "\<not> ends (KRetry r g)"
  "\<not> ends (KIdle r g)"
  by (simp_all add: ends_def)

lemma ending_ends: "ending k = Some r \<Longrightarrow> ends k"
  by (simp add: ends_def)

lemma endings_ends [simp]: "endings (filter ends ks) r = endings ks r"
  by (induction ks) (auto simp: ends_def)

definition lives_of :: "('h, 'm) Scheduler \<Rightarrow> lives" where
  "lives_of s = (map core (heap s), actors s, filter ends (conts s))"

definition waits_moved :: "('h, 'm) Scheduler \<Rightarrow> life_event \<Rightarrow> ('h, 'm) Scheduler \<Rightarrow> bool" where
  "waits_moved s e s' \<longleftrightarrow> (n_state s \<noteq> Shut \<and> \<not> wg_panic s \<longrightarrow>
     (case e of
        Silent \<Rightarrow> same_waits s s' \<or> n_wg s' = n_wg s + 1 \<and> work s' = work s + 1 \<and> \<not> wg_panic s' \<or>
          work s = work s' + 1 \<and> (n_wg s \<noteq> 0 \<longrightarrow> n_wg s = n_wg s' + 1 \<and> \<not> wg_panic s')
      | Born w \<Rightarrow> n_wg s' = n_wg s + (if w then 1 else 0) \<and> work s' = work s \<and> \<not> wg_panic s'
      | Done w \<Rightarrow> work s' = work s \<and> (if w then n_wg s \<noteq> 0 \<longrightarrow> n_wg s = n_wg s' + 1 \<and> \<not> wg_panic s' else same_waits s s')))"

definition simulated :: "('h, 'm) Scheduler \<Rightarrow> ('h, 'm) Scheduler \<Rightarrow> bool" where
  "simulated s s' \<longleftrightarrow> (\<exists>e. life_step (lives_of s) e (lives_of s') \<and> waits_moved s e s') \<and> chan_panic s' = chan_panic s"

lemma simulatedI:
  "life_step (lives_of s) e (lives_of s') \<Longrightarrow> waits_moved s e s' \<Longrightarrow> chan_panic s' = chan_panic s \<Longrightarrow> simulated s s'"
  by (auto simp: simulated_def)

lemma sim_same: "same_lives s s' \<Longrightarrow> same_waits s s' \<Longrightarrow> simulated s s'"
  by (rule simulatedI [of s Silent])
    (simp_all add: same_lives_def lives_of_def life_silent waits_moved_def)

lemma sim_spawn: "simulated s (fst (spawnObserved s op inits))"
proof (cases "sched_load s (o_kind op) (o_id op)")
  case (Some r)
  then show ?thesis by (simp add: spawnObserved_def sim_same same_upd)
next
  case None
  let ?s' = "fst (spawnObserved s op inits)" and ?pid = "PID (o_kind op) (o_id op)"
  have n: "gm_get (actors s) ?pid = None"
    using None by (simp add: sched_load_def)
  have l: "lives_of ?s' = (map core (heap s) @ [((?pid, o_wait op), live)], gm_set (actors s) ?pid (length (map core (heap s))),
      filter ends (conts s))"
    using None by (simp add: spawnObserved_def lives_of_def Let_def addWait_def newActor_def core_def live_def actor_PID_def)
  show ?thesis
  proof (rule simulatedI [of s "Born (o_wait op)"])
    show "life_step (lives_of s) (Born (o_wait op)) (lives_of ?s')"
      unfolding l unfolding lives_of_def by (rule life_born [OF n])
    show "waits_moved s (Born (o_wait op)) ?s'"
      using None by (simp add: waits_moved_def spawnObserved_def Let_def addWait_def)
    show "chan_panic ?s' = chan_panic s"
      using None by (simp add: spawnObserved_def Let_def addWait_def)
  qed
qed

lemma lives_nth: "lives_ok (lives_of s) \<Longrightarrow> gm_get (actors s) pid = Some r \<Longrightarrow>
    r < length (heap s) \<and> actor_PID (heap s ! r) = pid \<and> core (heap s ! r) = ((pid, o_wait (a_opts (heap s ! r))), live)"
proof -
  assume ok: "lives_ok (lives_of s)" and g: "gm_get (actors s) pid = Some r"
  then have o2: "life_ok (map core (heap s)) (actors s) (filter ends (conts s))"
    by (simp add: lives_ok_def lives_of_def)
  have r: "r < length (heap s)" "actor_PID (heap s ! r) = pid"
    using life_okD(2,3) [OF o2 g] by (simp_all add: core_def)
  then show ?thesis
    using life_okD(5) [OF o2, of r] g by (simp add: life_at_def core_def)
qed

lemma removed_lives:
  assumes "lives_ok (lives_of s)" and "gm_get (actors s) pid = Some r"
  shows "life_step (lives_of s) Silent (lives_of ((removeActorLocked s r)\<lparr>conts := conts s @ [KDestroy r]\<rparr>))"
proof -
  note n = lives_nth [OF assms]
  have "map core (heap s) = (map core (heap s))[r := (fst (map core (heap s) ! r), expected (KDestroy r))]"
    using n by (simp add: list_eq_iff_nth_eq nth_list_update)
  then show ?thesis
    using life_removed [OF assms(2), of "KDestroy r" "map core (heap s)" "filter ends (conts s)"] n
    by (simp add: lives_of_def removeActorLocked_def Let_def)
qed

lemma sim_removed:
  assumes "lives_ok (lives_of s)" and "gm_get (actors s) pid = Some r"
  shows "simulated s ((removeActorLocked s r)\<lparr>conts := conts s @ [KDestroy r]\<rparr>)"
  by (rule simulatedI [OF removed_lives [OF assms]])
    (simp_all add: waits_moved_def same_waits_def removeActorLocked_def Let_def)

lemma conts_removed [simp]: "conts (removeActorLocked s r) = conts s"
  by (simp add: removeActorLocked_def Let_def)

lemma sim_kill: "lives_ok (lives_of s) \<Longrightarrow> simulated s (sched_kill s kind iid)"
  using sim_removed [of s "PID kind iid"]
  by (auto simp: sched_kill_def sched_remove_def sched_load_def sim_same same_upd split: option.splits)

lemma sim_killActor: "lives_ok (lives_of s) \<Longrightarrow> simulated s (killActor s r)"
  using sim_removed [of s "actor_PID (heap s ! r)" r]
  by (auto simp: killActor_def removeActor_def registered_def sim_same same_upd)

lemma sim_other_cont: "\<not> ends k \<Longrightarrow> simulated s (s\<lparr>conts := conts s @ [k]\<rparr>)"
  by (rule simulatedI [of s Silent]) (simp_all add: lives_of_def life_silent waits_moved_def same_waits_def)

lemma sim_bind: "simulated s (fst (bindActor s uid kind iid))"
  by (auto simp: bindActor_def sim_same same_upd sim_other_cont split: option.splits)

lemma sim_fire: "simulated s (s\<lparr>timers := ts, conts := conts s @ [KFire r g]\<rparr>)"
  by (rule simulatedI [of s Silent]) (simp_all add: lives_of_def life_silent waits_moved_def same_waits_def)

text \<open>Continuing an operation that does not end an actor.\<close>

definition resume :: "bool \<Rightarrow> cont \<Rightarrow> ('h, 'm) Scheduler \<Rightarrow> ('h, 'm) Scheduler" where
  "resume b k s = (case continue b k (s\<lparr>conts := remove1 k (conts s)\<rparr>) of (s, ks) \<Rightarrow> s\<lparr>conts := conts s @ ks\<rparr>)"

lemma filter_other: "\<not> ends k \<Longrightarrow> filter ends (remove1 k ks) = filter ends ks"
  by (simp add: filter_remove1 remove1_idem)

lemma sim_resume:
  fixes s :: "('h, 'm) Scheduler"
  assumes "\<not> ends k"
    and "\<And>(t :: ('h, 'm) Scheduler) s1 ks. continue b k t = (s1, ks) \<Longrightarrow> same_lives t s1 \<and> same_waits t s1 \<and> filter ends ks = []"
  shows "simulated s (resume b k s)"
proof -
  obtain s1 ks where c: "continue b k (s\<lparr>conts := remove1 k (conts s)\<rparr>) = (s1, ks)" by force
  show ?thesis
    by (rule simulatedI [of s Silent])
      (use assms(2) [OF c] c filter_other [OF assms(1), of "conts s"] in
        \<open>simp_all add: resume_def same_lives_def same_waits_def lives_of_def waits_moved_def life_silent\<close>)
qed

lemma sim_user_conts:
  "simulated s (resume b (KBind uid r) s)" "simulated s (resume b (KRelate uid r) s)" "simulated s (resume b (KFire r g) s)"
  "simulated s (resume b (KGuard r g) s)" "simulated s (resume b (KRetry r g) s)"
  by (rule sim_resume, simp, auto simp: same_upd same_relate same_schedule split: if_splits)+

lemma idle_committed:
  assumes ok: "lives_ok (lives_of s)" and c: "killIdleActor s r g = (s1, True)"
  shows "simulated s (s1\<lparr>conts := conts s1 @ [KFinish r]\<rparr>)" and "conts s1 = conts s"
proof -
  have g: "gm_get (actors s) (actor_PID (heap s ! r)) = Some r"
    using c by (auto simp: killIdleActor_def registered_def split: if_splits)
  define s0 where "s0 = upd_actor s r (\<lambda>a. a\<lparr>a_state := destroyed\<rparr>)"
  define s2 where "s2 = stop_timer (next_generation s0 r) r"
  have s1: "s1 = removeActorLocked s2 r"
    using c by (auto simp: killIdleActor_def s0_def s2_def Let_def split: if_splits)
  note n = lives_nth [OF ok g]
  have same: "same_lives s0 s2" "same_waits s0 s2"
    using same_cancel [of s0 r] by (simp_all add: s2_def cancelIdleRelease_def)
  then have h: "map core (heap s2) = (map core (heap s))[r := (fst (map core (heap s) ! r), expected (KFinish r))]"
    using n by (simp add: same_lives_def s0_def map_core_upd) (simp add: core_def live_def actor_PID_def)
  have "length (heap s2) = length (heap s)"
    using same(1) map_eq_imp_length_eq [of core "heap s2" core "heap s0"] by (simp add: same_lives_def s0_def)
  then have pid: "actor_PID (heap s2 ! r) = actor_PID (heap s ! r)"
    using arg_cong [OF h, of "\<lambda>xs. fst (fst (xs ! r))"] n by (simp add: core_def)
  have fields: "actors s2 = actors s" "conts s2 = conts s" "chan_panic s2 = chan_panic s"
    using same(1) by (simp_all add: same_lives_def s0_def)
  show "conts s1 = conts s" by (simp add: s1 fields)
  show "simulated s (s1\<lparr>conts := conts s1 @ [KFinish r]\<rparr>)"
  proof (rule simulatedI [of s Silent])
    show "life_step (lives_of s) Silent (lives_of (s1\<lparr>conts := conts s1 @ [KFinish r]\<rparr>))"
      using life_removed [OF g, of "KFinish r" "map core (heap s)" "filter ends (conts s)"]
      by (simp add: lives_of_def s1 fields removeActorLocked_def Let_def h pid)
    show "waits_moved s Silent (s1\<lparr>conts := conts s1 @ [KFinish r]\<rparr>)"
      using same(2) by (simp add: waits_moved_def same_waits_def s1 removeActorLocked_def Let_def s0_def)
    show "chan_panic (s1\<lparr>conts := conts s1 @ [KFinish r]\<rparr>) = chan_panic s"
      by (simp add: s1 removeActorLocked_def Let_def fields)
  qed
qed

lemma sim_idle:
  assumes ok: "lives_ok (lives_of s)"
  shows "simulated s (resume b (KIdle r g) s)"
proof -
  define t where "t = s\<lparr>conts := remove1 (KIdle r g) (conts s)\<rparr>"
  have lv: "lives_of t = lives_of s"
    by (simp add: t_def lives_of_def filter_other)
  have "waits_moved t e u = waits_moved s e u" for e u
    by (cases e) (simp_all add: t_def waits_moved_def same_waits_def)
  then have lift: "simulated s u" if "simulated t u" for u
    using that lv by (simp add: simulated_def t_def)
  obtain s1 ok1 where c: "killIdleActor t r g = (s1, ok1)" by force
  show ?thesis
  proof (cases ok1)
    case True
    then show ?thesis
      using idle_committed(1) [of t r g s1] ok lv c lift by (simp add: resume_def t_def [symmetric])
  next
    case False
    then have "s1 = t"
      using c by (auto simp: killIdleActor_def Let_def split: if_splits)
    then show ?thesis
      using c False by (auto simp: resume_def t_def [symmetric] intro!: lift sim_same same_upd)
  qed
qed

text \<open>Continuing an operation that ends an actor.\<close>

lemma ending_core:
  assumes "lives_ok (lives_of s)" and "k \<in> set (conts s)" and "ending k = Some r"
  shows "r < length (heap s)" "core (heap s ! r) = ((actor_PID (heap s ! r), o_wait (a_opts (heap s ! r))), expected k)"
    "k \<in> set (filter ends (conts s))"
proof -
  have o2: "life_ok (map core (heap s)) (actors s) (filter ends (conts s))"
    using assms(1) by (simp add: lives_ok_def lives_of_def)
  show k: "k \<in> set (filter ends (conts s))"
    using assms(2) ending_ends [OF assms(3)] by simp
  show "r < length (heap s)" "core (heap s ! r) = ((actor_PID (heap s ! r), o_wait (a_opts (heap s ! r))), expected k)"
    using life_ending(1,4) [OF o2 k assms(3)] by (simp_all add: core_def)
qed

lemma sim_advance:
  assumes k: "k \<in> set (conts s)" "ending k = Some r" and k': "ending k' = Some r"
    and c: "continue b k (s\<lparr>conts := remove1 k (conts s)\<rparr>) = (s1, [k'])"
    and h: "map core (heap s1) = (map core (heap s))[r := (fst (map core (heap s) ! r), expected k')]"
    and f: "actors s1 = actors s" "conts s1 = remove1 k (conts s)" "chan_panic s1 = chan_panic s" "same_waits s s1"
  shows "simulated s (resume b k s)"
proof (rule simulatedI [of s Silent])
  have "k \<in> set (filter ends (conts s))"
    using k(1) ending_ends [OF k(2)] by simp
  from life_advanced [OF this k(2) k', of "map core (heap s)" "actors s"]
  show "life_step (lives_of s) Silent (lives_of (resume b k s))"
    using ending_ends [OF k'] by (simp add: lives_of_def resume_def c h f filter_remove1)
  show "waits_moved s Silent (resume b k s)"
    using f(4) by (simp add: waits_moved_def resume_def c same_waits_def)
  show "chan_panic (resume b k s) = chan_panic s"
    by (simp add: resume_def c f)
qed

lemma sim_done:
  assumes ok: "lives_ok (lives_of s)" and k: "KDone r \<in> set (conts s)"
  shows "simulated s (resume b (KDone r) s)"
proof (rule simulatedI [of s "Done (o_wait (a_opts (heap s ! r)))"])
  have k2: "ending (KDone r) = Some r" by simp
  note e = ending_core [OF ok k k2]
  show "life_step (lives_of s) (Done (o_wait (a_opts (heap s ! r)))) (lives_of (resume b (KDone r) s))"
  proof -
    have "lives_of (resume b (KDone r) s) = (map core (heap s), actors s, remove1 (KDone r) (filter ends (conts s)))"
      by (simp add: lives_of_def resume_def doneWait_def filter_remove1)
    then show ?thesis
      using life_done [OF e(3), of "map core (heap s)" "actors s"] e(1) by (simp add: lives_of_def core_def)
  qed
  show "waits_moved s (Done (o_wait (a_opts (heap s ! r)))) (resume b (KDone r) s)"
    by (auto simp: waits_moved_def resume_def doneWait_def same_waits_def)
  show "chan_panic (resume b (KDone r) s) = chan_panic s"
    by (simp add: resume_def doneWait_def)
qed

lemma map_core_same: "r < length (heap s) \<Longrightarrow> core (heap s ! r) = c \<Longrightarrow> map core (heap s) = (map core (heap s))[r := c]"
  by (simp add: list_eq_iff_nth_eq nth_list_update)

lemma sim_end:
  assumes ok: "lives_ok (lives_of s)" and k: "k \<in> set (conts s)" "ending k = Some r"
  shows "simulated s (resume b k s)"
proof -
  note e = ending_core [OF ok k]
  show ?thesis
  proof (cases k)
    case (KDestroy q)
    show ?thesis
      by (rule sim_advance [OF k, where k' = "KCancel r" and ?s1.0 = "upd_actor (s\<lparr>conts := remove1 k (conts s)\<rparr>) r (\<lambda>a. a\<lparr>a_state := destroyed\<rparr>)"])
        (use KDestroy k e in \<open>auto simp: core_def live_def upd_actor_def map_update actor_PID_def same_waits_def\<close>)
  next
    case (KCancel q)
    let ?t = "s\<lparr>conts := remove1 k (conts s)\<rparr>"
    have "map core (heap s) = (map core (heap s))[r := (fst (map core (heap s) ! r), expected (KFinish r))]"
      using e KCancel by (simp add: list_eq_iff_nth_eq nth_list_update)
    then show ?thesis
      using KCancel k same_cancel [of ?t r]
      by (intro sim_advance [OF k, where k' = "KFinish r" and ?s1.0 = "cancelIdleRelease ?t r"]) (auto simp: same_lives_def same_waits_def)
  next
    case (KFinish q)
    show ?thesis
      by (rule sim_advance [OF k, where k' = "KUnbind r" and ?s1.0 = "upd_actor (s\<lparr>conts := remove1 k (conts s)\<rparr>) r (\<lambda>a. a\<lparr>destroys := destroys a + 1\<rparr>)"])
        (use KFinish k e in \<open>auto simp: core_def live_def upd_actor_def map_update actor_PID_def same_waits_def\<close>)
  next
    case (KUnbind q)
    let ?t = "s\<lparr>conts := remove1 k (conts s)\<rparr>"
    have "map core (heap s) = (map core (heap s))[r := (fst (map core (heap s) ! r), expected (KClose r))]"
      using e KUnbind by (simp add: list_eq_iff_nth_eq nth_list_update)
    then show ?thesis
      using KUnbind k same_relate(3,4) [of ?t r]
      by (intro sim_advance [OF k, where k' = "KClose r" and ?s1.0 = "batchUnbindActor ?t r"]) (auto simp: same_lives_def same_waits_def)
  next
    case (KClose q)
    show ?thesis
      by (rule sim_advance [OF k, where k' = "KHook r" and ?s1.0 = "close_actor (s\<lparr>conts := remove1 k (conts s)\<rparr>) r"])
        (use KClose k e in \<open>auto simp: core_def live_def upd_actor_def map_update actor_PID_def same_waits_def close_actor_def\<close>)
  next
    case (KHook q)
    show ?thesis
      by (rule sim_advance [OF k, where k' = "KDone r" and ?s1.0 = "upd_actor (s\<lparr>conts := remove1 k (conts s)\<rparr>) r (\<lambda>a. a\<lparr>hooks_run := hooks_run a + 1, terminated := True\<rparr>)"])
        (use KHook k e in \<open>auto simp: core_def gone_def upd_actor_def map_update actor_PID_def same_waits_def\<close>)
  next
    case (KDone q)
    then show ?thesis using sim_done [OF ok, of r b] k by simp
  qed (use k in simp_all)
qed

lemma simulation:
  assumes act: "sched_act a s = Some s'" and ok: "lives_ok (lives_of s)" and st: "\<forall>st. a \<noteq> AState st"
  shows "simulated s s'"
proof -
  have "\<not> wg_panic s" "\<not> chan_panic s"
    using act by (auto simp: sched_act_def split: if_splits)
  note act2 = act [unfolded sched_act_def] this
  show ?thesis
  proof (cases a)
    case (ACont k b)
    then have k: "k \<in> set (conts s)" and r: "s' = resume b k s"
      using act2 by (auto simp: resume_def split: if_splits prod.splits)
    show ?thesis
      unfolding r
    proof (cases "ending k")
      case None
      then show "simulated s (resume b k s)"
        using sim_user_conts sim_idle [OF ok] by (cases k) simp_all
    next
      case (Some q)
      then show "simulated s (resume b k s)" by (rule sim_end [OF ok k])
    qed
  next
    case (ARequest uid route m)
    then obtain err where "dispatchRequest s uid route m = Some (s', err)"
      using act2 by auto
    then show ?thesis
      using same_Next [of s] by (fastforce simp: dispatchRequest_def sim_same same_upd split: if_splits option.splits)
  next
    case (AInvoke r)
    then obtain ok where "TryInvoke s r = Some (s', ok)"
      using act2 by (auto simp: on_actor_def split: if_splits)
    then show ?thesis
      using same_send [of s] by (fastforce simp: TryInvoke_def sim_same same_upd split: if_splits)
  next
    case (ASpawn op inits)
    then show ?thesis using act2 sim_spawn [of s op inits] by (auto split: if_splits)
  next
    case (AKill kind iid)
    then show ?thesis using act2 sim_kill [OF ok] by auto
  next
    case (ADestroy r)
    then show ?thesis using act2 sim_killActor [OF ok] by (auto simp: on_actor_def split: if_splits)
  next
    case (ABind uid kind iid)
    then show ?thesis using act2 sim_bind [of s uid kind iid] by auto
  next
    case (AFire r g d)
    then have "s' = s\<lparr>timers := remove1 (r, g, d) (timers s), conts := conts s @ [KFire r g]\<rparr>"
      using act2 by (auto split: if_splits)
    then show ?thesis by (simp only: sim_fire)
  next
    case AWork
    then show ?thesis
      using act2
      by (intro simulatedI [of s Silent])
        (auto simp: lives_of_def addWait_def life_silent waits_moved_def split: if_splits)
  next
    case AWorkDone
    then show ?thesis
      using act2
      by (intro simulatedI [of s Silent])
        (auto simp: lives_of_def doneWait_def life_silent waits_moved_def split: if_splits)
  qed (use act2 st in \<open>auto simp: on_actor_def dispatchEvent_def same_unbind same_idle split: if_splits
        intro!: sim_same dest: same_handler same_mail same_fn same_Next same_all\<close>)
qed

lemma lives_ok_new: "lives_ok (lives_of (newScheduler st))"
  by (simp add: lives_ok_def lives_of_def newScheduler_def life_ok_def)

lemma reachable_lives: "sched_reachable s \<Longrightarrow> lives_ok (lives_of s) \<and> \<not> chan_panic s"
proof (induction rule: sched_reachable.induct)
  case (sched_new st)
  then show ?case by (simp add: lives_ok_new) (simp add: newScheduler_def)
next
  case (sched_step s a s')
  show ?case
  proof (cases "\<exists>st. a = AState st")
    case True
    then have "lives_of s' = lives_of s" "chan_panic s' = chan_panic s"
      using sched_step(2) by (auto simp: sched_act_def lives_of_def split: if_splits)
    then show ?thesis using sched_step(3) by simp
  next
    case False
    then show ?thesis
      using simulation [OF sched_step(2)] sched_step(3) by (auto simp: simulated_def dest: lives_ok_step)
  qed
qed

text \<open>The wait group of a working node.\<close>

definition waits_ok :: "('h, 'm) Scheduler \<Rightarrow> bool" where
  "waits_ok s \<longleftrightarrow> n_wg s = work s + card (unfinished (lives_of s)) \<and> \<not> wg_panic s"

lemma working_waits: "working_reachable s \<Longrightarrow> sched_reachable s \<and> n_state s \<noteq> Shut \<and> waits_ok s"
proof (induction rule: working_reachable.induct)
  case working_new
  then show ?case
    by (simp add: sched_new waits_ok_def) (simp add: newScheduler_def lives_of_def unfinished_def)
next
  case (working_step s a s')
  then have reach: "sched_reachable s'" and ok: "lives_ok (lives_of s)"
    using reachable_lives by (auto intro: sched_step)
  show ?case
  proof (cases "\<exists>st. a = AState st")
    case True
    then have "lives_of s' = lives_of s" "n_wg s' = n_wg s" "work s' = work s" "wg_panic s' = wg_panic s"
      using working_step(2) by (auto simp: sched_act_def lives_of_def split: if_splits)
    then show ?thesis using working_step(3,4) reach by (simp add: waits_ok_def)
  next
    case False
    then obtain e where e: "life_step (lives_of s) e (lives_of s')" "waits_moved s e s'"
      using simulation [OF working_step(2) ok] by (auto simp: simulated_def)
    from unfinished_step [OF e(1) ok] e(2) working_step(3,4) show ?thesis
      using reach by (cases e) (auto simp: waits_moved_def waits_ok_def same_waits_def split: if_splits)
  qed
qed

section \<open>Idle generations\<close>

text \<open>A step advances the idle generation of an actor at most once.\<close>

definition gens :: "('h, 'm) Scheduler \<Rightarrow> uint64 list" where
  "gens s = map idleGeneration (heap s)"

definition gens_step :: "('h, 'm) Scheduler \<Rightarrow> ('h, 'm) Scheduler \<Rightarrow> bool" where
  "gens_step s s' \<longleftrightarrow> length (gens s) \<le> length (gens s') \<and>
     (\<forall>r < length (gens s). gens s' ! r = gens s ! r \<or> gens s' ! r = gens s ! r + 1)"

lemma gens_upd: "gens (upd_actor s r f) = (gens s)[r := idleGeneration (f (heap s ! r))]"
  by (simp add: gens_def upd_actor_def map_update)

lemma gens_keep [simp]:
  "idleGeneration (f (heap s ! r)) = idleGeneration (heap s ! r) \<Longrightarrow> gens (upd_actor s r f) = gens s"
  by (simp add: gens_def upd_actor_def map_update) (metis list_update_id map_update)

lemma gens_fields [simp]:
  "gens (s\<lparr>timers := ts\<rparr>) = gens s" "gens (s\<lparr>conts := ks\<rparr>) = gens s" "gens (s\<lparr>n_wg := n\<rparr>) = gens s"
  "gens (s\<lparr>wg_panic := p\<rparr>) = gens s" "gens (s\<lparr>chan_panic := p\<rparr>) = gens s" "gens (s\<lparr>relations := rel\<rparr>) = gens s"
  "gens (s\<lparr>actors := as\<rparr>) = gens s" "gens (s\<lparr>s_routes := rs\<rparr>) = gens s" "gens (s\<lparr>n_state := st\<rparr>) = gens s"
  "gens (s\<lparr>work := n\<rparr>) = gens s" "gens (s\<lparr>kinds := ks2\<rparr>) = gens s"
  by (simp_all add: gens_def)

lemma gens_ops [simp]:
  "gens (stop_timer s r) = gens s" "gens (scheduleIdleReleaseLocked s r g d) = gens s" "gens (removeActorLocked s r) = gens s"
  "gens (batchUnbindActor s r) = gens s" "gens (relate s uid r) = gens s" "gens (close_actor s r) = gens s"
  "gens (addWait s) = gens s" "gens (doneWait s) = gens s" "gens (unbindActor s uid kind) = gens s"
  by (simp_all add: stop_timer_def scheduleIdleReleaseLocked_def removeActorLocked_def batchUnbindActor_def relate_def close_actor_def
      addWait_def doneWait_def unbindActor_def Let_def split: option.splits)

lemma gens_step_same: "gens s' = gens s \<Longrightarrow> gens_step s s'"
  by (simp add: gens_step_def)

lemma gens_next_generation: "gens (next_generation s r) = (gens s)[r := gens s ! r + 1]"
  by (cases "r < length (heap s)") (simp_all add: next_generation_def gens_upd, simp_all add: gens_def list_update_beyond)

lemma gens_step_next: "gens s' = gens (next_generation s r) \<Longrightarrow> gens_step s s'"
  by (cases "r < length (gens s)") (auto simp: gens_step_def gens_next_generation nth_list_update list_update_beyond)

lemma gens_idle: "killIdleActor s r g = (s', ok) \<Longrightarrow> gens_step s s'"
proof -
  assume k: "killIdleActor s r g = (s', ok)"
  let ?t = "upd_actor s r (\<lambda>a. a\<lparr>a_state := destroyed\<rparr>)"
  consider "s' = s" | "gens s' = gens (next_generation ?t r)"
    using k by (auto simp: killIdleActor_def Let_def split: if_splits)
  then show ?thesis
  proof cases
    case 1
    then show ?thesis by (simp add: gens_step_same)
  next
    case 2
    then have "gens_step ?t s'" by (rule gens_step_next)
    then show ?thesis by (simp add: gens_step_def)
  qed
qed

lemma gens_next: "Actor_Next s r m = Some s' \<Longrightarrow> gens s' = gens s"
  by (auto simp: Actor_Next_def split: if_splits)

lemma gens_send: "send_fn s r f = Some s' \<Longrightarrow> gens s' = gens s"
  by (auto simp: send_fn_def split: if_splits)

lemma gens_handler: "add_handler s r f = Some s' \<Longrightarrow> gens s' = gens s"
  by (auto simp: add_handler_def dest: gens_send split: actor_state.splits actor_fn.splits)

lemma gens_mail: "dispatch_mail s r = Some s' \<Longrightarrow> gens s' = gens s"
  by (auto simp: dispatch_mail_def Let_def split: if_splits list.splits)

lemma gens_run_fn: "gens (run_fn f r s) = gens s"
  by (cases f) (simp_all add: Let_def)

lemma gens_fn: "dispatch_fn s r = Some s' \<Longrightarrow> gens s' = gens s"
  by (auto simp: dispatch_fn_def Let_def gens_run_fn split: if_splits list.splits)

lemma gens_all: "next_all rs m s = Some s' \<Longrightarrow> gens s' = gens s"
  by (induction rs arbitrary: s) (auto dest: gens_next split: option.splits if_splits)

lemma gens_spawn: "gens_step s (fst (spawnObserved s op inits))"
  by (cases "sched_load s (o_kind op) (o_id op)")
    (auto simp: gens_step_def spawnObserved_def Let_def gens_def addWait_def nth_append)

lemma gens_continue: "continue b k s = (s', ks) \<Longrightarrow> gens_step s s'"
proof (cases k)
  case (KIdle r g)
  assume c: "continue b k s = (s', ks)"
  obtain s1 ok where i: "killIdleActor s r g = (s1, ok)" by force
  then have "gens s' = gens s1"
    using c KIdle by (cases ok) auto
  then show ?thesis
    using gens_idle [OF i] by (simp add: gens_step_def)
next
  case (KCancel r)
  assume "continue b k s = (s', ks)"
  then show ?thesis
    using KCancel by (auto simp: cancelIdleRelease_def intro: gens_step_next)
qed (auto split: if_splits intro!: gens_step_same)

lemma gens_act:
  assumes "sched_act a s = Some s'"
  shows "gens_step s s'"
proof (cases a)
  case (ACont k b)
  then obtain s1 ks where "continue b k (s\<lparr>conts := remove1 k (conts s)\<rparr>) = (s1, ks)" "s' = s1\<lparr>conts := conts s1 @ ks\<rparr>"
    using assms by (auto simp: sched_act_def split: if_splits prod.splits)
  then show ?thesis
    using gens_continue [of b k "s\<lparr>conts := remove1 k (conts s)\<rparr>" s1 ks] by (simp add: gens_step_def)
next
  case (ASpawn op inits)
  then show ?thesis using assms gens_spawn by (auto simp: sched_act_def split: if_splits)
next
  case (AActive r)
  then show ?thesis
    using assms by (auto simp: sched_act_def on_actor_def Actor_Active_def split: if_splits
        intro: gens_step_next gens_step_same)
next
  case (AIdle r)
  then show ?thesis
    using assms gens_step_next [of s' s r]
    by (auto simp: sched_act_def on_actor_def Actor_Idle_def Let_def gens_next_generation split: if_splits intro: gens_step_same)
qed (use assms in \<open>auto simp: sched_act_def on_actor_def sched_kill_def sched_remove_def killActor_def removeActor_def bindActor_def
      TryInvoke_def dispatchRequest_def dispatchEvent_def
      split: if_splits option.splits intro!: gens_step_same
      dest: gens_handler gens_mail gens_fn gens_next gens_all gens_send\<close>)

section \<open>Properties\<close>

lemma actor_life:
  assumes "sched_reachable s" and "r < length (heap s)"
  shows "life_at (core (heap s ! r)) (registered s r) (endings (conts s) r)"
  using reachable_lives [OF assms(1)] assms(2) life_okD(5) [of "map core (heap s)" "actors s" "filter ends (conts s)" r]
  by (simp add: lives_ok_def lives_of_def registered_def core_def del: filter_filter)

text \<open>
  C9: Every actor ends exactly once.  In every interleaving of spawns, kills, idle timers, bindings and
  messages no channel is closed twice; \<open>processor.Destroy\<close> and the release hook of an actor run at most
  once; a registered actor is started and intact, a terminated one has run both, is closed and out of
  the table; and once the operations that end actors are through, every actor is registered or
  terminated.
\<close>

theorem actors_end_once:
  assumes "sched_reachable s" and "r < length (heap s)"
  shows "\<not> chan_panic s \<and> destroys (heap s ! r) \<le> 1 \<and> hooks_run (heap s ! r) \<le> 1 \<and>
    (registered s r \<longrightarrow> a_state (heap s ! r) = started \<and> chans_open (heap s ! r) \<and> destroys (heap s ! r) = 0) \<and>
    (terminated (heap s ! r) \<longrightarrow> \<not> registered s r \<and> a_state (heap s ! r) = destroyed \<and> \<not> chans_open (heap s ! r) \<and>
      destroys (heap s ! r) = 1 \<and> hooks_run (heap s ! r) = 1) \<and>
    (filter ends (conts s) = [] \<longrightarrow> registered s r \<or> terminated (heap s ! r))"
proof -
  let ?c = "snd (core (heap s ! r))"
  have at: "life_at (core (heap s ! r)) (registered s r) (endings (conts s) r)"
    by (rule actor_life [OF assms])
  have none: "endings (conts s) r = []" if "filter ends (conts s) = []"
    using endings_ends [of r "conts s"] that by (simp del: filter_filter endings_ends)
  have exp: "expected k \<in> {live, gone, (destroyed, True, True, False, 0, 0), (destroyed, True, True, False, 1, 0),
      (destroyed, False, False, False, 1, 0)}" for k
    by (cases k) simp_all
  have any: "?c \<in> {live, gone, (destroyed, True, True, False, 0, 0), (destroyed, True, True, False, 1, 0),
      (destroyed, False, False, False, 1, 0)}"
    using at exp by (auto simp: life_at_def split: if_splits list.splits)
  have reg: "registered s r \<Longrightarrow> ?c = live" and rest: "\<not> registered s r \<Longrightarrow> endings (conts s) r = [] \<Longrightarrow> ?c = gone"
    using at by (simp_all add: life_at_def)
  have c: "?c = (a_state (heap s ! r), processor (heap s ! r), chans_open (heap s ! r), terminated (heap s ! r),
      destroys (heap s ! r), hooks_run (heap s ! r))"
    by (simp add: core_def)
  show ?thesis
    using any reg rest none reachable_lives [OF assms(1)] unfolding c by (auto simp: live_def gone_def)
qed

text \<open>An actor that is spawned and killed: the run up to its end.\<close>

definition demo_actor :: actorOptions where
  "demo_actor = \<lparr>o_id = ''1'', o_kind = ''player'', o_wait = True, o_dispatch = True, o_idleTimeout = 5000, o_releaseGuard = False,
     o_releaseGuardCanceled = False\<rparr>"

definition ended_run :: "(nat, nat) sched_action list" where
  "ended_run = [ASpawn demo_actor [], AKill ''player'' ''1'', ACont (KDestroy 0) True, ACont (KCancel 0) True,
     ACont (KFinish 0) True, ACont (KUnbind 0) True, ACont (KClose 0) True, ACont (KHook 0) True]"

lemmas sched_eval = sched_act_def spawnObserved_def sched_load_def newScheduler_def addWait_def doneWait_def newActor_def
  chan_size_def PID_def actor_PID_def gm_set_def gm_get_def gm_del_def gm_get0_def sched_kill_def sched_remove_def removeActorLocked_def
  upd_actor_def cancelIdleRelease_def next_generation_def stop_timer_def batchUnbindActor_def close_actor_def Let_def

lemma run_reachable: "sched_reachable s \<Longrightarrow> run_sched as s = Some s' \<Longrightarrow> sched_reachable s'"
  by (induction as arbitrary: s) (auto split: option.splits intro: sched_step)

theorem actors_end_once_witness:
  "\<exists>s. run_sched ended_run (newScheduler Work) = Some s \<and> terminated (heap s ! 0) \<and> \<not> registered s 0 \<and>
     destroys (heap s ! 0) = 1 \<and> hooks_run (heap s ! 0) = 1"
proof -
  obtain s where s: "run_sched ended_run (newScheduler Work) = Some s" "length (heap s) = 1" "terminated (heap s ! 0)"
    by (simp add: ended_run_def demo_actor_def sched_eval)
  then have "sched_reachable s"
    using run_reachable [OF sched_new] by blast
  then show ?thesis
    using s actors_end_once [of s 0] by auto
qed

text \<open>
  C10: \<open>Node.Close\<close> waits for its actors.  As long as the node is not shut, its wait group never becomes
  negative and counts the accepted functions and tasks and the actors that are registered or still
  ending; when it reaches zero every actor the node waits for has run \<open>processor.Destroy\<close> and its
  release hook.
\<close>

theorem close_waits_for_actors:
  assumes "working_reachable s"
  shows "\<not> wg_panic s \<and>
    n_wg s = work s + card {r. r < length (heap s) \<and> o_wait (a_opts (heap s ! r)) \<and>
      (registered s r \<or> endings (conts s) r \<noteq> [])} \<and>
    (n_wg s = 0 \<longrightarrow> (\<forall>r < length (heap s). o_wait (a_opts (heap s ! r)) \<longrightarrow>
      terminated (heap s ! r) \<and> destroys (heap s ! r) = 1 \<and> hooks_run (heap s ! r) = 1))"
proof -
  have w: "sched_reachable s" "waits_ok s"
    using working_waits [OF assms] by simp_all
  have u: "unfinished (lives_of s) = {r. r < length (heap s) \<and> o_wait (a_opts (heap s ! r)) \<and>
      (registered s r \<or> endings (conts s) r \<noteq> [])}"
    by (auto simp: unfinished_def lives_of_def registered_def core_def simp del: filter_filter)
  have "terminated (heap s ! r) \<and> destroys (heap s ! r) = 1 \<and> hooks_run (heap s ! r) = 1"
    if "n_wg s = 0" "r < length (heap s)" "o_wait (a_opts (heap s ! r))" for r
  proof -
    have "r \<notin> unfinished (lives_of s)"
      using that(1) w(2) by (auto simp: waits_ok_def)
    then have "\<not> registered s r" "endings (conts s) r = []"
      using that(2,3) u by simp_all
    then show ?thesis
      using actor_life [OF w(1) that(2)] by (simp add: life_at_def core_def gone_def)
  qed
  then show ?thesis
    using w(2) u by (simp add: waits_ok_def)
qed

theorem close_waits_for_actors_witness:
  "\<exists>s. run_sched [ASpawn demo_actor [], AWork] (newScheduler Work :: (nat, nat) Scheduler) = Some s \<and> \<not> wg_panic s \<and>
     n_wg s = 1 + card {r. r < length (heap s) \<and> o_wait (a_opts (heap s ! r)) \<and> (registered s r \<or> endings (conts s) r \<noteq> [])}"
proof -
  define s1 :: "(nat, nat) Scheduler" where "s1 = fst (spawnObserved (newScheduler Work) demo_actor [])"
  define s where "s = addWait (s1\<lparr>work := work s1 + 1\<rparr>)"
  have p: "\<not> wg_panic s1" "\<not> chan_panic s1" "n_state s1 = Work" "work s1 = 0"
    by (simp_all add: s1_def demo_actor_def sched_eval)
  have e: "sched_act (ASpawn demo_actor []) (newScheduler Work) = Some s1" "sched_act AWork s1 = Some s"
    using p by (simp_all add: s_def) (simp_all add: sched_act_def s1_def newScheduler_def)
  have st: "n_state s = Work" "work s = 1"
    using p by (simp_all add: s_def addWait_def)
  have "working_reachable s1"
    by (rule working_step [OF working_new e(1)]) (simp add: p)
  then have "working_reachable s"
    by (rule working_step [OF _ e(2)]) (simp add: st)
  from close_waits_for_actors [OF this] e st show ?thesis
    by (intro exI [of _ s]) simp
qed

text \<open>
  C11: An actor that was touched is not released by an older timer.  Once \<open>Active\<close> has been called on a
  started actor, releasing it with the generation of any timer armed before changes nothing, whatever
  happens in between, as long as fewer than \<open>2^64 - 1\<close> steps do.
\<close>

lemma gens_run: "run_sched as s = Some s' \<Longrightarrow> r < length (heap s) \<Longrightarrow>
    r < length (heap s') \<and> (\<exists>k \<le> length as. idleGeneration (heap s' ! r) = idleGeneration (heap s ! r) + of_nat k)"
proof (induction as arbitrary: s)
  case Nil
  then show ?case by auto
next
  case (Cons a as)
  then obtain s1 where s1: "sched_act a s = Some s1" "run_sched as s1 = Some s'"
    by (auto split: option.splits)
  have g: "r < length (heap s1)" "idleGeneration (heap s1 ! r) = idleGeneration (heap s ! r) \<or>
      idleGeneration (heap s1 ! r) = idleGeneration (heap s ! r) + 1"
    using gens_act [OF s1(1)] Cons.prems(2) by (auto simp: gens_step_def gens_def)
  obtain k where k: "r < length (heap s')" "k \<le> length as" "idleGeneration (heap s' ! r) = idleGeneration (heap s1 ! r) + of_nat k"
    using Cons.IH [OF s1(2) g(1)] by blast
  from g(2) show ?case
  proof
    assume "idleGeneration (heap s1 ! r) = idleGeneration (heap s ! r)"
    then show ?thesis using k by (auto intro: exI [of _ k])
  next
    assume "idleGeneration (heap s1 ! r) = idleGeneration (heap s ! r) + 1"
    then show ?thesis using k by (auto intro!: exI [of _ "Suc k"])
  qed
qed

theorem touched_actor_kept:
  assumes "a_state (heap s ! r) = started" and "idleGeneration (heap s ! r) = g"
    and "run_sched (AActive r # as) s = Some s'" and "length as < 2 ^ 64 - 1"
  shows "killIdleActor s' r g = (s', False)"
proof -
  obtain s1 where s1: "r < length (heap s)" "s1 = Actor_Active s r" "run_sched as s1 = Some s'"
    using assms(3) by (auto simp: sched_act_def on_actor_def split: option.splits if_splits)
  have "gens s1 ! r = gens s ! r + 1" "length (gens s1) = length (gens s)"
    using assms(1) s1(1,2) by (simp_all add: Actor_Active_def gens_next_generation) (simp_all add: gens_def)
  then have g1: "idleGeneration (heap s1 ! r) = g + 1" "r < length (heap s1)"
    using assms(2) s1(1) by (simp_all add: gens_def)
  obtain k where k: "k \<le> length as" "idleGeneration (heap s' ! r) = g + (1 + of_nat k)"
    using gens_run [OF s1(3) g1(2)] g1(1) by (auto simp: add.assoc)
  have "(of_nat (Suc k) :: uint64) \<noteq> 0"
  proof
    assume "(of_nat (Suc k) :: uint64) = 0"
    then have "2 ^ 64 dvd Suc k"
      by (simp only: word_of_nat_eq_0_iff) simp
    then have "2 ^ 64 \<le> Suc k"
      by (rule dvd_imp_le) simp
    then show False using k(1) assms(4) by simp
  qed
  then have "idleGeneration (heap s' ! r) \<noteq> g"
    using k(2) by simp
  then show ?thesis by (simp add: killIdleActor_def)
qed

theorem touched_actor_kept_witness:
  "\<exists>s s'. run_sched [ASpawn demo_actor [], AIdle 0, AFire 0 1 5000, ACont (KFire 0 1) True, ACont (KGuard 0 1) True]
      (newScheduler Work :: (nat, nat) Scheduler) = Some s \<and> conts s = [KIdle 0 1] \<and>
    run_sched [AActive 0] s = Some s' \<and> killIdleActor s' 0 1 = (s', False)"
proof -
  let ?s = "the (run_sched [ASpawn demo_actor [], AIdle 0, AFire 0 1 5000, ACont (KFire 0 1) True, ACont (KGuard 0 1) True]
      (newScheduler Work :: (nat, nat) Scheduler))"
  have s: "run_sched [ASpawn demo_actor [], AIdle 0, AFire 0 1 5000, ACont (KFire 0 1) True, ACont (KGuard 0 1) True]
      (newScheduler Work :: (nat, nat) Scheduler) = Some ?s" "conts ?s = [KIdle 0 1]" "a_state (heap ?s ! 0) = started"
      "idleGeneration (heap ?s ! 0) = 1" "\<exists>s'. run_sched [AActive 0] ?s = Some s'"
    by (simp_all add: demo_actor_def sched_eval on_actor_def Actor_Idle_def Actor_Active_def scheduleIdleReleaseLocked_def)
  then obtain s' where "run_sched [AActive 0] ?s = Some s'" by blast
  then show ?thesis
    using touched_actor_kept [OF s(3,4), of "[]" s'] s by auto
qed

text \<open>
  A binding that races with the end of the actor survives it.  \<open>bindActor\<close> looks the actor up, and
  enters the relation later under another lock: when the actor is killed in between, the user stays
  bound to a terminated actor with nothing left running, and every request of the user is accepted
  without error and dropped.
\<close>

definition late_binding :: "(nat, nat) sched_action list" where
  "late_binding = [ASpawn demo_actor [FRoute 9 1], AFn 0, ABind 7 ''player'' ''1'', AKill ''player'' ''1'', ACont (KDestroy 0) True,
     ACont (KCancel 0) True, ACont (KFinish 0) True, ACont (KUnbind 0) True, ACont (KClose 0) True, ACont (KHook 0) True,
     ACont (KDone 0) True, ACont (KBind 7 0) True, ACont (KRelate 7 0) True]"

lemma late_binding_drops_requests:
  "\<exists>s. run_sched late_binding (newScheduler Work) = Some s \<and> conts s = [] \<and> terminated (heap s ! 0) \<and> \<not> registered s 0 \<and>
     loadActor s 7 ''player'' = Some 0 \<and> dispatchRequest s 7 9 m = Some (s, None)"
  by (simp add: late_binding_def demo_actor_def sched_eval on_actor_def dispatch_fn_def bindActor_def relate_def loadActor_def
      dispatchRequest_def Actor_Next_def registered_def)

text \<open>
  An actor spawned before the node is started panics when it ends.  \<open>addWait\<close> does not count while the
  node is shut, \<open>doneWait\<close> does once it works: an actor spawned by an initialisation hook and killed
  later drives the wait group below zero.
\<close>

lemma early_actor_panics:
  "\<exists>s. run_sched [ASpawn demo_actor [], AState Work, AKill ''player'' ''1'', ACont (KDestroy 0) True, ACont (KCancel 0) True,
      ACont (KFinish 0) True, ACont (KUnbind 0) True, ACont (KClose 0) True, ACont (KHook 0) True, ACont (KDone 0) True]
      (newScheduler Shut :: (nat, nat) Scheduler) = Some s \<and> wg_panic s"
  by (simp add: demo_actor_def sched_eval)

end
