(* ===== verification/Node_Request.thy ===== *)
theory Node_Request
  imports Session_Types Go_Map
begin

text \<open>
  The requests of a node (\<open>cluster/node/request.go\<close>, \<open>router.go\<close>, \<open>middleware.go\<close>, \<open>core/chains/chain.go\<close>).  A
  request is a pooled object with a version: every hand-over (a task, an actor, a middleware)
  advances the version, and whoever ends with the version it began with runs the deferred
  functions and returns the object to the pool.  The code that holds a request with a version is a
  frame.  What handlers do beyond that belongs to the application; the deferred functions are
  numbers.
\<close>

section \<open>Chains of deferred functions\<close>

text \<open>A chain is the list of its functions from head to tail.\<close>

definition AddToHead :: "'f list \<Rightarrow> 'f \<Rightarrow> 'f list" where "AddToHead c fn = fn # c"
definition AddToTail :: "'f list \<Rightarrow> 'f \<Rightarrow> 'f list" where "AddToTail c fn = c @ [fn]"
definition FireHead :: "'f list \<Rightarrow> 'f list \<times> 'f list" where "FireHead c = (c, [])"
definition FireTail :: "'f list \<Rightarrow> 'f list \<times> 'f list" where "FireTail c = (rev c, [])"

section \<open>Requests\<close>

record ('d, 'x) request =
  rq_ctx :: "'x option"
  rq_gid :: string
  rq_nid :: string
  rq_pid :: string
  rq_cid :: int64
  rq_uid :: int64
  rq_token :: Token
  rq_seq :: int32
  rq_route :: int32
  rq_data :: "'d option"
  rq_version :: int32
  rq_chain :: "nat list option"
  rq_actor :: "nat option"

definition new_request :: "('d, 'x) request" where
  "new_request = \<lparr>rq_ctx = None, rq_gid = '''', rq_nid = '''', rq_pid = '''', rq_cid = 0, rq_uid = 0, rq_token = zero_token,
     rq_seq = 0, rq_route = 0, rq_data = None, rq_version = 0, rq_chain = None, rq_actor = None\<rparr>"

definition request_reset :: "('d, 'x) request \<Rightarrow> ('d, 'x) request" where
  "request_reset r = r\<lparr>rq_data := None, rq_token := zero_token, rq_actor := None, rq_chain := None\<rparr>"

definition request_Defer :: "('d, 'x) request \<Rightarrow> nat \<Rightarrow> bool \<Rightarrow> ('d, 'x) request" where
  "request_Defer r fn bottom =
     (let c = (case rq_chain r of None \<Rightarrow> [] | Some c \<Rightarrow> c)
      in r\<lparr>rq_chain := Some (if bottom then AddToTail c fn else AddToHead c fn)\<rparr>)"

definition request_Cancel :: "('d, 'x) request \<Rightarrow> ('d, 'x) request" where
  "request_Cancel r = (case rq_chain r of None \<Rightarrow> r | Some _ \<Rightarrow> r\<lparr>rq_chain := Some []\<rparr>)"

section \<open>Router\<close>

record 'w RouteOptions =
  opt_Internal :: bool
  opt_Stateful :: bool
  opt_Authorized :: bool
  opt_Middlewares :: "'w list"

record ('h, 'w) routeEntity =
  re_route :: int32
  re_handler :: 'h
  re_options :: "'w RouteOptions"

record ('h, 'w) Router =
  rt_node_state :: cluster_state
  rt_routes :: "(int32, ('h, 'w) routeEntity) gomap"
  preRouteHandler :: "'h option"
  postRouteHandler :: "'h option"
  rt_default :: "'h option"
  requestMiddlewares :: "'w list"

definition no_options :: "'w RouteOptions" where
  "no_options = \<lparr>opt_Internal = False, opt_Stateful = False, opt_Authorized = False, opt_Middlewares = []\<rparr>"

definition AddRouteHandler :: "('h, 'w) Router \<Rightarrow> int32 \<Rightarrow> 'h \<Rightarrow> 'w RouteOptions option \<Rightarrow> ('h, 'w) Router" where
  "AddRouteHandler rt route handler opts =
     (if rt_node_state rt \<noteq> Shut then rt
      else rt\<lparr>rt_routes := gm_set (rt_routes rt) route
                \<lparr>re_route = route, re_handler = handler, re_options = (case opts of Some op \<Rightarrow> op | None \<Rightarrow> no_options)\<rparr>\<rparr>)"

definition SetDefaultRouteHandler :: "('h, 'w) Router \<Rightarrow> 'h \<Rightarrow> ('h, 'w) Router" where
  "SetDefaultRouteHandler rt handler = (if rt_node_state rt \<noteq> Shut then rt else rt\<lparr>rt_default := Some handler\<rparr>)"

text \<open>A nil handler in the list leaves the middlewares as they were.\<close>

definition SetRequestMiddleware :: "('h, 'w) Router \<Rightarrow> 'w option list \<Rightarrow> ('h, 'w) Router" where
  "SetRequestMiddleware rt handlers =
     (if rt_node_state rt \<noteq> Shut then rt
      else if None \<in> set handlers then rt
      else rt\<lparr>requestMiddlewares := map the handlers\<rparr>)"

definition CheckRouteStateful :: "('h, 'w) Router \<Rightarrow> int32 \<Rightarrow> bool \<times> bool" where
  "CheckRouteStateful rt route =
     (case gm_get (rt_routes rt) route of Some e \<Rightarrow> (opt_Stateful (re_options e), True) | None \<Rightarrow> (False, False))"

definition CheckRouteAuthorized :: "('h, 'w) Router \<Rightarrow> int32 \<Rightarrow> bool \<times> bool" where
  "CheckRouteAuthorized rt route =
     (case gm_get (rt_routes rt) route of Some e \<Rightarrow> (opt_Authorized (re_options e), True) | None \<Rightarrow> (False, False))"

text \<open>A group is its list of middlewares.\<close>

definition group_AddRouteHandler ::
    "'w list \<Rightarrow> ('h, 'w) Router \<Rightarrow> int32 \<Rightarrow> 'h \<Rightarrow> 'w RouteOptions option \<Rightarrow> ('h, 'w) Router" where
  "group_AddRouteHandler g rt route handler opts =
     AddRouteHandler rt route handler
       (Some (case opts of
          Some op \<Rightarrow> op\<lparr>opt_Middlewares := g @ opt_Middlewares op\<rparr>
        | None \<Rightarrow> no_options\<lparr>opt_Middlewares := g\<rparr>))"

text \<open>\<open>current\<close> is the lookup in the ownership store, if one is configured.\<close>

definition validateSession ::
    "(int64 \<Rightarrow> Token option res) option \<Rightarrow> ('d, 'x) request \<Rightarrow> ('h, 'w) routeEntity option \<Rightarrow> unit res" where
  "validateSession store req route =
     (case (route, store) of
        (Some e, Some current) \<Rightarrow>
          if \<not> opt_Stateful (re_options e) \<or> rq_gid req = '''' then Ok ()
          else let token = rq_token req
               in if sint (rq_uid req) \<le> 0 \<or> UID token \<noteq> rq_uid req \<or> Generation token = 0 then Err ErrStaleSession
                  else and_then (current (rq_uid req)) (\<lambda>cur. if cur = Some token then Ok () else Err ErrStaleSession)
      | _ \<Rightarrow> Ok ())"

section \<open>Frames\<close>

datatype phase = Running | Handed | Ending

record frame =
  f_req :: nat
  f_version :: int32
  f_phase :: phase
  f_task :: bool

record ('d, 'x) RNode =
  rn_heap :: "('d, 'x) request list"
  reqPool :: "nat list"
  reqChan :: "nat list"
  mailboxes :: "(nat \<times> nat) list"
  frames :: "frame list"
  fired :: "(nat \<times> nat) list"
  pendingWork :: nat

definition upd_req :: "('d, 'x) RNode \<Rightarrow> nat \<Rightarrow> (('d, 'x) request \<Rightarrow> ('d, 'x) request) \<Rightarrow> ('d, 'x) RNode" where
  "upd_req s r f = s\<lparr>rn_heap := (rn_heap s)[r := f (rn_heap s ! r)]\<rparr>"

definition incrVersion :: "('d, 'x) RNode \<Rightarrow> nat \<Rightarrow> ('d, 'x) RNode \<times> int32" where
  "incrVersion s r = (let s = upd_req s r (\<lambda>q. q\<lparr>rq_version := rq_version q + 1\<rparr>) in (s, rq_version (rn_heap s ! r)))"

definition compareVersionExecDefer :: "('d, 'x) RNode \<Rightarrow> nat \<Rightarrow> int32 \<Rightarrow> ('d, 'x) RNode" where
  "compareVersionExecDefer s r version =
     (case rq_chain (rn_heap s ! r) of
        None \<Rightarrow> s
      | Some c \<Rightarrow>
          if rq_version (rn_heap s ! r) = version
          then (case FireHead c of (fns, c) \<Rightarrow>
                  (upd_req s r (\<lambda>q. q\<lparr>rq_chain := Some c\<rparr>))\<lparr>fired := fired s @ map (Pair r) fns\<rparr>)
          else s)"

definition compareVersionRecycle :: "('d, 'x) RNode \<Rightarrow> nat \<Rightarrow> int32 \<Rightarrow> ('d, 'x) RNode" where
  "compareVersionRecycle s r version =
     (if rq_version (rn_heap s ! r) = version
      then (upd_req s r (\<lambda>q. request_reset (q\<lparr>rq_version := 0\<rparr>)))\<lparr>reqPool := r # reqPool s\<rparr>
      else s)"

text \<open>\<open>reqPool.Get\<close>: an idle object, or a new one.\<close>

definition pool_Get :: "nat option \<Rightarrow> ('d, 'x) RNode \<Rightarrow> (('d, 'x) RNode \<times> nat) option" where
  "pool_Get pick s =
     (case pick of
        None \<Rightarrow> Some (s\<lparr>rn_heap := rn_heap s @ [new_request]\<rparr>, length (rn_heap s))
      | Some r \<Rightarrow> if r \<in> set (reqPool s) then Some (s\<lparr>reqPool := remove1 r (reqPool s)\<rparr>, r) else None)"

record ('d, 'x) delivery =
  dl_ctx :: 'x
  dl_gid :: string
  dl_nid :: string
  dl_pid :: string
  dl_cid :: int64
  dl_uid :: int64
  dl_token :: Token
  dl_seq :: int32
  dl_route :: int32
  dl_data :: 'd

definition fill :: "('d, 'x) delivery \<Rightarrow> ('d, 'x) request \<Rightarrow> ('d, 'x) request" where
  "fill d q = q\<lparr>rq_ctx := Some (dl_ctx d), rq_gid := dl_gid d, rq_nid := dl_nid d, rq_pid := dl_pid d, rq_cid := dl_cid d,
     rq_uid := dl_uid d, rq_token := dl_token d, rq_seq := dl_seq d, rq_route := dl_route d, rq_data := Some (dl_data d)\<rparr>"

definition deliverWithContext :: "nat option \<Rightarrow> ('d, 'x) delivery \<Rightarrow> ('d, 'x) RNode \<Rightarrow> ('d, 'x) RNode option" where
  "deliverWithContext pick d s =
     (if 10240 \<le> length (reqChan s) then None
      else map_option (\<lambda>(s, r). (upd_req s r (fill d))\<lparr>reqChan := reqChan s @ [r]\<rparr>) (pool_Get pick s))"

text \<open>\<open>Actor.Next\<close> and \<open>Actor.Deliver\<close> of a started actor.\<close>

definition actor_next :: "nat \<Rightarrow> nat \<Rightarrow> ('d, 'x) RNode \<Rightarrow> ('d, 'x) RNode" where
  "actor_next a r s =
     (case incrVersion (upd_req s r (\<lambda>q. q\<lparr>rq_actor := Some a\<rparr>)) r of
        (s, _) \<Rightarrow> (upd_req s r request_Cancel)\<lparr>mailboxes := mailboxes s @ [(a, r)]\<rparr>)"

definition actor_Deliver ::
    "nat option \<Rightarrow> string \<Rightarrow> nat \<Rightarrow> int64 \<Rightarrow> int32 \<Rightarrow> int32 \<Rightarrow> 'd \<Rightarrow> ('d, 'x) RNode \<Rightarrow> ('d, 'x) RNode option" where
  "actor_Deliver pick nid a uid seq route data s =
     map_option
       (\<lambda>(s, r). actor_next a r
          (upd_req s r (\<lambda>q. q\<lparr>rq_nid := nid, rq_uid := uid, rq_seq := seq, rq_route := route, rq_data := Some data\<rparr>)))
       (pool_Get pick s)"

section \<open>Handling\<close>

text \<open>\<open>Middleware.Skip\<close> up to the call of the middleware or of the handler.\<close>

definition enter_middleware :: "nat \<Rightarrow> ('d, 'x) RNode \<Rightarrow> ('d, 'x) RNode" where
  "enter_middleware r s =
     (case incrVersion s r of
        (s, version) \<Rightarrow> (upd_req s r request_Cancel)
          \<lparr>frames := frames s @ [\<lparr>f_req = r, f_version = version, f_phase = Running, f_task = False\<rparr>]\<rparr>)"

datatype ('h, 'w) code = Middle 'w | Handler 'h

record ('h, 'w) Middleware =
  mw_index :: int
  middlewares :: "'w list"
  routeHandler :: 'h

text \<open>Which code \<open>Middleware.Skip\<close> calls: none when the handler has been called already.\<close>

definition mw_Skip :: "('h, 'w) Middleware \<Rightarrow> int \<Rightarrow> (('h, 'w) Middleware \<times> ('h, 'w) code option) res" where
  "mw_Skip m skip =
     (let n = int (length (middlewares m))
      in if n \<le> mw_index m then Ok (m, None)
         else let i = mw_index m + skip; m = m\<lparr>mw_index := i\<rparr>
              in if n \<le> i then Ok (m, Some (Handler (routeHandler m)))
                 else if i < 0 then Panic
                 else Ok (m, Some (Middle (middlewares m ! nat i))))"

definition mw_Next :: "('h, 'w) Middleware \<Rightarrow> (('h, 'w) Middleware \<times> ('h, 'w) code option) res" where
  "mw_Next m = mw_Skip m 1"

text \<open>The middlewares and the handler \<open>Router.handle\<close> chooses for a route, the global middlewares first.\<close>

definition route_chain :: "('h, 'w) Router \<Rightarrow> int32 \<Rightarrow> ('h, 'w) Middleware" where
  "route_chain rt route =
     (let entity = gm_get (rt_routes rt) route;
          handler = (case entity of Some e \<Rightarrow> re_handler e | None \<Rightarrow> the (rt_default rt));
          local = (case entity of Some e \<Rightarrow> opt_Middlewares (re_options e) | None \<Rightarrow> [])
      in \<lparr>mw_index = - 1, middlewares = requestMiddlewares rt @ local, routeHandler = handler\<rparr>)"

text \<open>\<open>Router.handle\<close> up to the first call of application code, which is the second result.\<close>

definition router_handle ::
    "('h, 'w) Router \<Rightarrow> (int64 \<Rightarrow> Token option res) option \<Rightarrow> nat \<Rightarrow> ('d, 'x) RNode \<Rightarrow> ('d, 'x) RNode \<times> ('h, 'w) code option" where
  "router_handle rt store r s =
     (case incrVersion s r of (s, version) \<Rightarrow>
      let req = rn_heap s ! r; route = gm_get (rt_routes rt) (rq_route req)
      in if route = None \<and> rt_default rt = None then (compareVersionRecycle s r version, None)
         else if route \<noteq> None \<and> validateSession store req route \<noteq> Ok () then (compareVersionRecycle s r version, None)
         else
           let m = route_chain rt (rq_route req)
           in if 0 < length (middlewares m)
              then (enter_middleware r s, case mw_Next m of Ok (_, c) \<Rightarrow> c | _ \<Rightarrow> None)
              else (s\<lparr>frames := frames s @ [\<lparr>f_req = r, f_version = version, f_phase = Running, f_task = False\<rparr>]\<rparr>,
                    Some (Handler (routeHandler m))))"

text \<open>The loop of an actor takes a request: \<open>version := ctx.loadVersion()\<close>.\<close>

definition actor_take :: "nat \<Rightarrow> nat \<Rightarrow> ('d, 'x) RNode \<Rightarrow> ('d, 'x) RNode" where
  "actor_take a r s =
     s\<lparr>mailboxes := remove1 (a, r) (mailboxes s),
       frames := frames s @ [\<lparr>f_req = r, f_version = rq_version (rn_heap s ! r), f_phase = Running, f_task = False\<rparr>]\<rparr>"

definition request_Task :: "nat \<Rightarrow> ('d, 'x) RNode \<Rightarrow> ('d, 'x) RNode" where
  "request_Task r s =
     (case incrVersion s r of
        (s, version) \<Rightarrow> (upd_req s r request_Cancel)
          \<lparr>frames := frames s @ [\<lparr>f_req = r, f_version = version, f_phase = Running, f_task = True\<rparr>], pendingWork := pendingWork s + 1\<rparr>)"

section \<open>Replies\<close>

text \<open>Where \<open>Reply\<close> sends a message.\<close>

datatype reply_to = ToConn string int64 Token | ToActor string int64 | ToNode string int64 | Nowhere

definition request_Reply :: "string \<Rightarrow> (string \<Rightarrow> bool) \<Rightarrow> ('d, 'x) request \<Rightarrow> reply_to res" where
  "request_Reply self loaded q =
     (if rq_gid q \<noteq> '''' then Ok (ToConn (rq_gid q) (rq_cid q) (rq_token q))
      else if rq_pid q \<noteq> '''' then Ok (if loaded (rq_pid q) then ToActor (rq_pid q) (rq_uid q) else Nowhere)
      else if rq_nid q \<noteq> '''' then Ok (if rq_nid q = self then Nowhere else ToNode (rq_nid q) (rq_uid q))
      else Err ErrIllegalOperation)"

section \<open>Runs\<close>

text \<open>
  A frame may defer functions, cancel them and hand the request over once: to a task, to an actor, or
  to the next middleware.  When its code returns it runs the deferred functions and then tries to
  recycle the request, in two steps.
\<close>

datatype ('d, 'x) req_action =
    NDeliver "nat option" "('d, 'x) delivery" | NActorDeliver "nat option" string nat int64 int32 int32 'd
  | NTake | NActorTake nat nat | NDefer frame nat bool | NCancel frame
  | NTask frame | NNext frame nat | NMiddleware frame | NFinish frame | NRecycle frame

definition set_phase :: "('d, 'x) RNode \<Rightarrow> frame \<Rightarrow> phase \<Rightarrow> ('d, 'x) RNode" where
  "set_phase s f ph = s\<lparr>frames := f\<lparr>f_phase := ph\<rparr> # remove1 f (frames s)\<rparr>"

definition running :: "('d, 'x) RNode \<Rightarrow> frame \<Rightarrow> bool" where
  "running s f \<longleftrightarrow> f \<in> set (frames s) \<and> f_phase f = Running"

definition req_act ::
    "('h, 'w) Router \<Rightarrow> (int64 \<Rightarrow> Token option res) option \<Rightarrow> ('d, 'x) req_action \<Rightarrow> ('d, 'x) RNode \<Rightarrow> ('d, 'x) RNode option" where
  "req_act rt store a s =
     (case a of
        NDeliver pick d \<Rightarrow> deliverWithContext pick d s
      | NActorDeliver pick nid ac uid seq route data \<Rightarrow> actor_Deliver pick nid ac uid seq route data s
      | NTake \<Rightarrow> (case reqChan s of [] \<Rightarrow> None | r # rs \<Rightarrow> Some (fst (router_handle rt store r (s\<lparr>reqChan := rs\<rparr>))))
      | NActorTake ac r \<Rightarrow> if (ac, r) \<in> set (mailboxes s) then Some (actor_take ac r s) else None
      | NDefer f fn bottom \<Rightarrow> if running s f then Some (upd_req s (f_req f) (\<lambda>q. request_Defer q fn bottom)) else None
      | NCancel f \<Rightarrow> if running s f then Some (upd_req s (f_req f) request_Cancel) else None
      | NTask f \<Rightarrow> if running s f then Some (request_Task (f_req f) (set_phase s f Handed)) else None
      | NNext f ac \<Rightarrow> if running s f then Some (actor_next ac (f_req f) (set_phase s f Handed)) else None
      | NMiddleware f \<Rightarrow> if running s f then Some (enter_middleware (f_req f) (set_phase s f Handed)) else None
      | NFinish f \<Rightarrow>
          if f \<in> set (frames s) \<and> f_phase f \<noteq> Ending
          then Some (set_phase (compareVersionExecDefer s (f_req f) (f_version f)) f Ending) else None
      | NRecycle f \<Rightarrow>
          if f \<in> set (frames s) \<and> f_phase f = Ending
          then Some (compareVersionRecycle
                 (s\<lparr>frames := remove1 f (frames s), pendingWork := pendingWork s - (if f_task f then 1 else 0)\<rparr>)
                 (f_req f) (f_version f))
          else None)"

definition no_requests :: "('d, 'x) RNode" where
  "no_requests = \<lparr>rn_heap = [], reqPool = [], reqChan = [], mailboxes = [], frames = [], fired = [], pendingWork = 0\<rparr>"

primrec run_reqs ::
    "('h, 'w) Router \<Rightarrow> (int64 \<Rightarrow> Token option res) option \<Rightarrow> ('d, 'x) req_action list \<Rightarrow> ('d, 'x) RNode \<Rightarrow> ('d, 'x) RNode option" where
  "run_reqs rt store [] s = Some s"
| "run_reqs rt store (a # as) s = (case req_act rt store a s of None \<Rightarrow> None | Some s \<Rightarrow> run_reqs rt store as s)"




section \<open>One holder at a time\<close>


abbreviation frames_of :: "frame list \<Rightarrow> nat \<Rightarrow> frame list" where
  "frames_of fs r \<equiv> filter (\<lambda>f. f_req f = r) fs"



definition view :: "('d, 'x) RNode \<Rightarrow> nat \<Rightarrow> nat \<times> nat \<times> nat \<times> frame list" where
  "view s r = (count_list (reqPool s) r, count_list (reqChan s) r, count_list (map snd (mailboxes s)) r, frames_of (frames s) r)"















lemma upd_req_fields [simp]:
  "reqPool (upd_req s r f) = reqPool s" "reqChan (upd_req s r f) = reqChan s" "mailboxes (upd_req s r f) = mailboxes s"
  "frames (upd_req s r f) = frames s" "length (rn_heap (upd_req s r f)) = length (rn_heap s)"
  "view (upd_req s r f) = view s" "pendingWork (upd_req s r f) = pendingWork s"
  by (simp_all add: upd_req_def view_def fun_eq_iff)

lemma request_versions [simp]:
  "rq_version (fill d q) = rq_version q" "rq_version (request_Cancel q) = rq_version q" "rq_version (request_Defer q fn b) = rq_version q"
  "rq_version (request_reset q) = rq_version q"
  by (simp_all add: fill_def request_Cancel_def request_Defer_def request_reset_def Let_def split: option.splits)




























section \<open>Concrete runs\<close>

definition default_router :: "(nat, nat) Router" where
  "default_router = \<lparr>rt_node_state = Work, rt_routes = [], preRouteHandler = None, postRouteHandler = None,
     rt_default = Some 0, requestMiddlewares = []\<rparr>"

abbreviation at_frame :: "nat \<Rightarrow> int32 \<Rightarrow> phase \<Rightarrow> bool \<Rightarrow> frame" where
  "at_frame r v ph t \<equiv> \<lparr>f_req = r, f_version = v, f_phase = ph, f_task = t\<rparr>"

text \<open>A handler passes its request to a task, which ends before the handler does.\<close>

definition task_first :: "('d, 'x) delivery \<Rightarrow> ('d, 'x) req_action list" where
  "task_first d =
    [NDeliver None d, NTake, NTask (at_frame 0 1 Running False),
     NFinish (at_frame 0 2 Running True), NRecycle (at_frame 0 2 Ending True)]"

definition handler_ends :: "('d, 'x) req_action list" where
  "handler_ends = [NFinish (at_frame 0 1 Handed False), NRecycle (at_frame 0 1 Ending False)]"

definition sample_delivery :: "(nat, unit) delivery" where
  "sample_delivery = \<lparr>dl_ctx = (), dl_gid = ''g1'', dl_nid = '''', dl_pid = '''', dl_cid = 5, dl_uid = 9,
     dl_token = \<lparr>UID = 9, Generation = 3\<rparr>, dl_seq = 1, dl_route = 7, dl_data = 42\<rparr>"

lemmas run_simps = task_first_def handler_ends_def default_router_def no_requests_def req_act_def deliverWithContext_def pool_Get_def
  upd_req_def fill_def new_request_def router_handle_def route_chain_def incrVersion_def request_Task_def request_Cancel_def set_phase_def running_def
  compareVersionExecDefer_def compareVersionRecycle_def request_reset_def actor_Deliver_def actor_next_def



text \<open>
  A version does not identify one life of a request object.  A handler passes its request to a task that
  ends first, so the object returns to the pool with version 0; it is taken again for a delivery to an
  actor, which raises the version to the one the handler began with; when the handler now ends, it
  recycles the object although the actor has it in its mailbox.  The next delivery fills the same
  object: the actor finds the other sender's message in it and the request is queued twice.
\<close>

lemma request_recycled_in_use:
  fixes d d2 :: "('d, 'x) delivery"
  shows "\<exists>s t. run_reqs default_router None (task_first d @ NActorDeliver (Some 0) nid a uid seq route data # handler_ends) no_requests = Some s \<and>
     reqPool s = [0] \<and> mailboxes s = [(a, 0)] \<and>
     run_reqs default_router None [NDeliver (Some 0) d2] s = Some t \<and>
     mailboxes t = [(a, 0)] \<and> reqChan t = [0] \<and> rq_data (rn_heap t ! 0) = Some (dl_data d2) \<and> rq_uid (rn_heap t ! 0) = dl_uid d2"
  by (simp add: run_simps)

section \<open>Session validation\<close>




section \<open>Requests of actors\<close>

text \<open>
  \<open>Actor.Deliver\<close> sets neither the gate nor the connection nor the token nor the context of the request it
  takes from the pool, and \<open>reset\<close> does not clear the gate and the connection.  So when the object last
  carried a message of a client, a reply to the message of the actor is pushed to that client's connection.
\<close>

lemma actor_delivery_keeps_origin:
  fixes d :: "('d, 'x) delivery"
  assumes "dl_gid d \<noteq> ''''"
  shows "\<exists>s. run_reqs default_router None (task_first d @ handler_ends @ [NActorDeliver (Some 0) nid a uid seq route data]) no_requests = Some s \<and>
     mailboxes s = [(a, 0)] \<and> rq_uid (rn_heap s ! 0) = uid \<and> rq_data (rn_heap s ! 0) = Some data \<and>
     request_Reply nid loaded (rn_heap s ! 0) = Ok (ToConn (dl_gid d) (dl_cid d) zero_token)"
  using assms by (simp add: run_simps request_Reply_def)

lemma actor_delivery_keeps_origin_witness:
  "\<exists>s. run_reqs default_router None (task_first sample_delivery @ handler_ends @ [NActorDeliver (Some 0) ''n1'' 4 77 1 7 0]) no_requests = Some s \<and>
     request_Reply ''n1'' (\<lambda>_. False) (rn_heap s ! 0) = Ok (ToConn ''g1'' 5 zero_token)"
  using actor_delivery_keeps_origin [where d = sample_delivery and nid = "''n1''" and a = 4 and uid = 77 and seq = 1 and route = 7
      and data = 0 and loaded = "\<lambda>_. False"] by (auto simp: sample_delivery_def)

section \<open>Order of the middlewares\<close>

text \<open>The code that \<open>n\<close> calls of \<open>Next\<close> start, in order.\<close>

primrec mw_codes :: "nat \<Rightarrow> ('h, 'w) Middleware \<Rightarrow> ('h, 'w) code list" where
  "mw_codes 0 m = []"
| "mw_codes (Suc n) m = (case mw_Next m of Ok (m, c) \<Rightarrow> (case c of Some c \<Rightarrow> c # mw_codes n m | None \<Rightarrow> mw_codes n m) | _ \<Rightarrow> [])"

lemma mw_codes_end: "int (length (middlewares m)) \<le> mw_index m \<Longrightarrow> mw_codes n m = []"
  by (induction n) (simp_all add: mw_Next_def mw_Skip_def)

lemma mw_codes_from:
  "i \<le> length ws \<Longrightarrow> mw_codes n \<lparr>mw_index = int i - 1, middlewares = ws, routeHandler = h\<rparr> = take n (drop i (map Middle ws @ [Handler h]))"
proof (induction n arbitrary: i)
  case (Suc n)
  show ?case
  proof (cases "i = length ws")
    case True
    then show ?thesis by (simp add: mw_Next_def mw_Skip_def mw_codes_end)
  next
    case False
    then have i: "i < length ws" using Suc.prems by simp
    then have "drop i (map Middle ws @ [Handler h]) = Middle (ws ! i) # drop (Suc i) (map Middle ws @ [Handler h])"
      by (simp add: Cons_nth_drop_Suc [symmetric] nth_append del: drop_append drop_map)
    then show ?thesis
      using i Suc.IH [of "Suc i"] by (simp add: mw_Next_def mw_Skip_def del: drop_append drop_map)
  qed
qed simp

text \<open>
  For a route registered through a group, successive calls of \<open>Next\<close> start the middlewares of the router,
  then those of the group, then those of the route, each once and in the order they were given, then
  the handler once; further calls start nothing.
\<close>

lemma middlewares_in_order:
  assumes "rt_node_state rt = Shut"
  shows "mw_codes n (route_chain (group_AddRouteHandler g rt route h (Some opts)) route) =
    take n (map Middle (requestMiddlewares rt @ g @ opt_Middlewares opts) @ [Handler h])"
  using mw_codes_from [of 0 "requestMiddlewares rt @ g @ opt_Middlewares opts" n h] assms
  by (simp add: route_chain_def group_AddRouteHandler_def AddRouteHandler_def Let_def gm_get_def gm_set_def update_conv)

lemma middlewares_in_order_witness:
  "mw_codes 9 (route_chain (group_AddRouteHandler [1, 2 :: nat] (SetRequestMiddleware (default_router\<lparr>rt_node_state := Shut\<rparr>) [Some 0])
       7 (5 :: nat) (Some (no_options\<lparr>opt_Middlewares := [3]\<rparr>))) 7) = [Middle 0, Middle 1, Middle 2, Middle 3, Handler 5]"
  using middlewares_in_order [of "SetRequestMiddleware (default_router\<lparr>rt_node_state := Shut\<rparr>) [Some 0]" 9 "[1, 2 :: nat]" 7 5 "no_options\<lparr>opt_Middlewares := [3]\<rparr>"]
  by (simp add: SetRequestMiddleware_def default_router_def no_options_def)

end
