(* ===== verification/Decimal.thy ===== *)
theory Decimal
  imports Go_Prelude
begin

text \<open>
  Decimal numerals: \<open>FormatUint\<close> and \<open>ParseUint\<close> of package \<open>strconv\<close> in base 10, and the order of strings
  that Go and Lua share (by bytes).  Numerals without leading zeros and numbers correspond one to one, and
  their order is the order by length and then as strings.
\<close>

section \<open>Numerals\<close>

definition digit :: "nat \<Rightarrow> char" where
  "digit d = char_of (48 + d)"

definition is_digit :: "char \<Rightarrow> bool" where
  "is_digit c \<longleftrightarrow> 48 \<le> (of_char c :: nat) \<and> (of_char c :: nat) \<le> 57"

definition digit_value :: "char \<Rightarrow> nat" where
  "digit_value c = of_char c - 48"

fun dec :: "nat \<Rightarrow> string" where
  "dec n = (if n < 10 then [digit n] else dec (n div 10) @ [digit (n mod 10)])"

declare dec.simps [simp del]

definition undec :: "string \<Rightarrow> nat" where
  "undec s = foldl (\<lambda>a c. 10 * a + digit_value c) 0 s"

definition FormatUint :: "uint64 \<Rightarrow> string" where
  "FormatUint n = dec (unat n)"

definition ParseUint :: "string \<Rightarrow> nat \<Rightarrow> uint64 res" where
  "ParseUint s bitSize =
     (if s = [] \<or> \<not> list_all is_digit s then Err (ErrOther ''invalid syntax'')
      else if 2 ^ bitSize \<le> undec s then Err (ErrOther ''value out of range'')
      else Ok (of_nat (undec s)))"

definition canonical :: "string \<Rightarrow> bool" where
  "canonical s \<longleftrightarrow> s \<noteq> [] \<and> list_all is_digit s \<and> (length s = 1 \<or> hd s \<noteq> CHR ''0'')"

text \<open>The order of strings.\<close>

fun str_less :: "string \<Rightarrow> string \<Rightarrow> bool" where
  "str_less xs [] = False"
| "str_less [] (y # ys) = True"
| "str_less (x # xs) (y # ys) = ((of_char x :: nat) < of_char y \<or> x = y \<and> str_less xs ys)"

section \<open>Conversions\<close>

lemma of_char_digit: "d < 10 \<Longrightarrow> of_char (digit d) = (48 + d :: nat)"
  by (simp add: digit_def)

lemma digit_facts: "d < 10 \<Longrightarrow> is_digit (digit d) \<and> digit_value (digit d) = d"
  by (simp add: of_char_digit is_digit_def digit_value_def)

lemma digit_value_bound: "is_digit c \<Longrightarrow> digit_value c < 10"
  unfolding is_digit_def digit_value_def by linarith

lemma digit_of_value: "is_digit c \<Longrightarrow> digit (digit_value c) = c"
  by (simp add: digit_def digit_value_def is_digit_def)

lemma digit_value_less: "is_digit c \<Longrightarrow> is_digit d \<Longrightarrow> digit_value c < digit_value d \<longleftrightarrow> (of_char c :: nat) < of_char d"
  by (auto simp: is_digit_def digit_value_def)

lemma digit_value_zero: "is_digit c \<Longrightarrow> digit_value c = 0 \<longleftrightarrow> c = CHR ''0''"
proof
  assume c: "is_digit c" "digit_value c = 0"
  then have "c = digit 0" using digit_of_value [of c] by simp
  then show "c = CHR ''0''" by (simp add: digit_def char_of_def bit_iff_odd)
qed (simp add: digit_value_def)

lemma undec_Nil [simp]: "undec [] = 0"
  by (simp add: undec_def)

lemma undec_snoc: "undec (s @ [c]) = 10 * undec s + digit_value c"
  by (simp add: undec_def)

lemma undec_Cons: "undec (c # s) = digit_value c * 10 ^ length s + undec s"
proof (induction s rule: rev_induct)
  case (snoc d s)
  have "undec (c # s @ [d]) = 10 * undec (c # s) + digit_value d"
    using undec_snoc [of "c # s" d] by simp
  then show ?case by (simp add: snoc.IH undec_snoc algebra_simps)
qed (simp add: undec_def)

lemma undec_bound: "list_all is_digit s \<Longrightarrow> undec s < 10 ^ length s"
proof (induction s)
  case (Cons c s)
  then have "undec s < 10 ^ length s" "digit_value c \<le> 9"
    using digit_value_bound [of c] by simp_all
  moreover have "digit_value c * 10 ^ length s \<le> 9 * 10 ^ length s"
    using calculation(2) by (rule mult_right_mono) simp
  ultimately show ?case unfolding undec_Cons length_Cons power_Suc by linarith
qed simp

lemma undec_dec [simp]: "undec (dec n) = n"
proof (induction n rule: dec.induct)
  case (1 n)
  show ?case
  proof (cases "n < 10")
    case True
    then show ?thesis by (simp add: dec.simps [of n] undec_Cons digit_facts)
  next
    case False
    then show ?thesis using 1 by (simp add: dec.simps [of n] undec_snoc digit_facts)
  qed
qed

lemma dec_inj: "dec m = dec n \<longleftrightarrow> m = n"
  by (metis undec_dec)

lemma dec_not_Nil [simp]: "dec n \<noteq> []"
  by (subst dec.simps) simp

lemma dec_digits: "list_all is_digit (dec n)"
proof (induction n rule: dec.induct)
  case (1 n)
  then show ?case by (subst dec.simps) (simp add: digit_facts)
qed

lemma dec_hd: "0 < n \<Longrightarrow> hd (dec n) \<noteq> CHR ''0''"
proof (induction n rule: dec.induct)
  case (1 n)
  show ?case
  proof (cases "n < 10")
    case True
    then show ?thesis using 1(2) digit_facts [of n] digit_value_zero [of "digit n"] by (simp add: dec.simps [of n])
  next
    case False
    then have "0 < n div 10" by (simp add: div_greater_zero_iff)
    then show ?thesis using 1(1) [OF False] False by (simp add: dec.simps [of n])
  qed
qed

lemma dec_canonical: "canonical (dec n)"
  by (cases "n = 0") (simp_all add: canonical_def dec_digits dec_hd, simp add: dec.simps [of 0])

lemma undec_positive:
  assumes "canonical s" and "s \<noteq> ''0''"
  shows "10 ^ (length s - 1) \<le> undec s"
proof (cases s)
  case (Cons c t)
  have c: "is_digit c" "c \<noteq> CHR ''0''"
    using assms Cons by (auto simp: canonical_def)
  then have "1 \<le> digit_value c" using digit_value_zero [of c] by simp
  then have "1 * 10 ^ length t \<le> digit_value c * 10 ^ length t" by (rule mult_right_mono) simp
  then have "10 ^ length t \<le> digit_value c * 10 ^ length t + undec t" by linarith
  then show ?thesis by (simp add: Cons undec_Cons)
qed (use assms in \<open>simp add: canonical_def\<close>)

lemma canonical_snoc: "canonical (s @ [c]) \<Longrightarrow> s \<noteq> [] \<Longrightarrow> canonical s \<and> is_digit c \<and> 0 < undec s"
proof -
  assume a: "canonical (s @ [c])" "s \<noteq> []"
  then have "hd s \<noteq> CHR ''0''" by (simp add: canonical_def)
  then have s: "canonical s" "s \<noteq> ''0''" using a by (auto simp: canonical_def)
  have "(1 :: nat) \<le> 10 ^ (length s - 1)" by simp
  also have "\<dots> \<le> undec s" by (rule undec_positive [OF s])
  finally show ?thesis using a s by (simp add: canonical_def)
qed

lemma dec_undec: "canonical s \<Longrightarrow> dec (undec s) = s"
proof (induction s rule: rev_induct)
  case (snoc c s)
  show ?case
  proof (cases "s = []")
    case True
    then show ?thesis
      using snoc.prems digit_value_bound [of c] digit_of_value [of c]
      by (simp add: canonical_def undec_Cons dec.simps [of "digit_value c"])
  next
    case False
    note c = canonical_snoc [OF snoc.prems False]
    have "digit_value c < 10" using c digit_value_bound by simp
    then show ?thesis
      using c snoc.IH digit_of_value [of c] by (simp add: undec_snoc dec.simps [of "10 * undec s + digit_value c"])
  qed
qed (simp add: canonical_def)

lemma canonical_iff: "canonical s \<longleftrightarrow> (\<exists>n. s = dec n)"
  using dec_undec dec_canonical by metis

lemma Parse_Format: "unat n < 2 ^ bits \<Longrightarrow> ParseUint (FormatUint n) bits = Ok n"
  by (simp add: ParseUint_def FormatUint_def dec_digits)

lemma Format_Parse: "ParseUint s bits = Ok n \<Longrightarrow> bits \<le> 64 \<Longrightarrow> FormatUint n = s \<longleftrightarrow> canonical s"
proof -
  assume p: "ParseUint s bits = Ok n" "bits \<le> 64"
  then have n: "n = of_nat (undec s)" "undec s < 2 ^ bits"
    by (auto simp: ParseUint_def split: if_splits)
  have "(2 :: nat) ^ bits \<le> 2 ^ 64" using p(2) by (rule power_increasing) simp
  then have "unat n = undec s" using n by (simp add: unat_of_nat)
  then show ?thesis by (metis FormatUint_def dec_canonical dec_undec)
qed

section \<open>Order\<close>

lemma undec_length_less:
  assumes "canonical s" "canonical t" "length s < length t"
  shows "undec s < undec t"
proof -
  have "t \<noteq> ''0''" using assms by (auto simp: canonical_def)
  then have "10 ^ (length t - 1) \<le> undec t" by (rule undec_positive [OF assms(2)])
  moreover have "undec s < 10 ^ length s" using assms(1) undec_bound by (simp add: canonical_def)
  moreover have "(10 :: nat) ^ length s \<le> 10 ^ (length t - 1)" using assms(3) by (intro power_increasing) auto
  ultimately show ?thesis by linarith
qed

lemma str_less_undec:
  "list_all is_digit s \<Longrightarrow> list_all is_digit t \<Longrightarrow> length s = length t \<Longrightarrow> str_less s t \<longleftrightarrow> undec s < undec t"
proof (induction s t rule: str_less.induct)
  case (3 x xs y ys)
  have d: "is_digit x" "is_digit y" and l: "length xs = length ys" using 3 by simp_all
  have b: "undec xs < 10 ^ length ys" "undec ys < 10 ^ length ys" using 3 undec_bound [of xs] undec_bound [of ys] l by auto
  have eq: "digit_value x = digit_value y \<longleftrightarrow> x = y" using d digit_of_value by metis
  show ?case
  proof (cases rule: linorder_cases [of "digit_value x" "digit_value y"])
    case less
    then have "Suc (digit_value x) * 10 ^ length ys \<le> digit_value y * 10 ^ length ys" by (intro mult_right_mono) simp_all
    then show ?thesis using less d b l by (simp add: undec_Cons digit_value_less [symmetric])
  next
    case equal
    then show ?thesis using 3 eq l by (simp add: undec_Cons)
  next
    case greater
    then have "Suc (digit_value y) * 10 ^ length ys \<le> digit_value x * 10 ^ length ys" by (intro mult_right_mono) simp_all
    then show ?thesis using greater d b l eq by (auto simp add: undec_Cons digit_value_less [symmetric])
  qed
qed simp_all

end
