(* ===== verification/Redis_Store.thy ===== *)
theory Redis_Store
  imports Gate Decimal
begin

text \<open>
  The ownership store on Redis (\<open>session/redis/store.go\<close>, \<open>script.go\<close>).  The scripts compare generations as
  decimal strings; the server is a parameter with the documented behaviour of its hash commands, the
  durable allocator of generation ranges a parameter with the contract of its interface.  The store keeps
  the contract \<open>ownership_store\<close>, so what holds for a gate on such a store holds for a gate on this one.  The
  second half interleaves concurrent acquisitions, releases and the loss of whole hashes.
\<close>

section \<open>The server\<close>

text \<open>The hash commands; \<open>HINCRBY\<close> answers with an error when the field is no integer or the sum overflows.\<close>

record 's RedisOps =
  HGET :: "'s \<Rightarrow> string \<Rightarrow> string \<Rightarrow> string option"
  HSET :: "'s \<Rightarrow> string \<Rightarrow> string \<Rightarrow> string \<Rightarrow> 's"
  HDEL :: "'s \<Rightarrow> string \<Rightarrow> string \<Rightarrow> 's"
  HINCRBY :: "'s \<Rightarrow> string \<Rightarrow> string \<Rightarrow> nat \<Rightarrow> 's option"

locale redis_hash =
  fixes R :: "'s RedisOps"
  assumes hget_hset: "HGET R (HSET R s k f v) k' f' = (if k' = k \<and> f' = f then Some v else HGET R s k' f')"
    and hget_hdel: "HGET R (HDEL R s k f) k' f' = (if k' = k \<and> f' = f then None else HGET R s k' f')"
    and hincrby: "HGET R s k f = Some (dec n) \<Longrightarrow> n + i < 2 ^ 63 \<Longrightarrow>
      \<exists>s'. HINCRBY R s k f i = Some s' \<and>
        (\<forall>k' f'. HGET R s' k' f' = (if k' = k \<and> f' = f then Some (dec (n + i)) else HGET R s k' f'))"

section \<open>Scripts\<close>

definition lua_max :: string where
  "lua_max = ''9223372036854775807''"

definition lua_valid :: "string \<Rightarrow> bool" where
  "lua_valid v \<longleftrightarrow> v \<noteq> [] \<and> list_all is_digit v \<and> (length v = 1 \<or> hd v \<noteq> CHR ''0'') \<and>
     (length v < length lua_max \<or> length v = length lua_max \<and> \<not> str_less lua_max v)"

definition lua_compare :: "string \<Rightarrow> string \<Rightarrow> int" where
  "lua_compare a b =
     (if length a \<noteq> length b then (if length a < length b then - 1 else 1)
      else if a = b then 0 else if str_less a b then - 1 else 1)"

text \<open>\<open>state\<close>: the newest generation and the end of the reserved range.\<close>

definition lua_state :: "'s RedisOps \<Rightarrow> string \<Rightarrow> 's \<Rightarrow> (string \<times> string option) res" where
  "lua_state R k s =
     (let current = HGET R s k ''current''; limit = HGET R s k ''range_end''
      in case HGET R s k ''generation'' of
           None \<Rightarrow> if current \<noteq> None \<or> limit \<noteq> None then Err (ErrOther ''incomplete session ownership range metadata'')
                   else Ok (''0'', None)
         | Some generation \<Rightarrow>
             if \<not> lua_valid generation
                \<or> (case current of None \<Rightarrow> False | Some c \<Rightarrow> \<not> lua_valid c \<or> c = ''0'' \<or> 0 < lua_compare c generation)
                \<or> (case limit of None \<Rightarrow> False | Some l \<Rightarrow> \<not> lua_valid l \<or> 0 < lua_compare generation l)
             then Err (ErrOther ''invalid session ownership range metadata'')
             else Ok (generation, limit))"

definition lua_advance :: "'s RedisOps \<Rightarrow> string \<Rightarrow> 's \<Rightarrow> 's \<times> string list res" where
  "lua_advance R k s =
     (case HINCRBY R s k ''generation'' 1 of
        None \<Rightarrow> (s, Err (ErrOther ''hash value is not an integer''))
      | Some s \<Rightarrow>
          (case HGET R s k ''generation'' of
             None \<Rightarrow> (s, Err (ErrOther ''command arguments must be strings''))
           | Some exact \<Rightarrow> (HSET R s k ''current'' exact, Ok [''ok'', exact])))"

definition has_room :: "string \<Rightarrow> string option \<Rightarrow> bool" where
  "has_room generation limit = (case limit of None \<Rightarrow> False | Some l \<Rightarrow> lua_compare generation l < 0)"

definition acquireScript :: "'s RedisOps \<Rightarrow> string \<Rightarrow> 's \<Rightarrow> 's \<times> string list res" where
  "acquireScript R k s =
     (case lua_state R k s of
        Ok (generation, limit) \<Rightarrow>
          if has_room generation limit then lua_advance R k s else (s, Ok [''range'', generation])
      | Err e \<Rightarrow> (s, Err e)
      | Panic \<Rightarrow> (s, Panic))"

definition initializeRangeScript :: "'s RedisOps \<Rightarrow> string \<Rightarrow> string \<Rightarrow> string \<Rightarrow> 's \<Rightarrow> 's \<times> string list res" where
  "initializeRangeScript R k first final s =
     (case lua_state R k s of
        Ok (generation, limit) \<Rightarrow>
          if has_room generation limit then lua_advance R k s
          else if \<not> lua_valid first \<or> \<not> lua_valid final \<or> first = ''0'' \<or> 0 < lua_compare first final
                  \<or> lua_compare first generation \<le> 0
          then (s, Err (ErrOther ''invalid session ownership reserved range''))
          else (HSET R (HSET R (HSET R s k ''generation'' first) k ''current'' first) k ''range_end'' final, Ok [''ok'', first])
      | Err e \<Rightarrow> (s, Err e)
      | Panic \<Rightarrow> (s, Panic))"

definition releaseScript :: "'s RedisOps \<Rightarrow> string \<Rightarrow> string \<Rightarrow> 's \<Rightarrow> 's \<times> int" where
  "releaseScript R k generation s =
     (if HGET R s k ''current'' \<noteq> Some generation then (s, 0) else (HDEL R s k ''current'', 1))"

section \<open>The store\<close>

definition format_int :: "int \<Rightarrow> string" where
  "format_int i = (if i < 0 then CHR ''-'' # dec (nat (- i)) else dec (nat i))"

definition store_key :: "string \<Rightarrow> int64 \<Rightarrow> string" where
  "store_key prefix uid = prefix @ '':'' @ format_int (sint uid)"

definition MaxInt64 :: uint64 where
  "MaxInt64 = 2 ^ 63 - 1"

definition decodeRangeReply :: "string list \<Rightarrow> (uint64 \<times> bool) res" where
  "decodeRangeReply values =
     (case values of
        [kind, number] \<Rightarrow>
          if kind \<noteq> ''ok'' \<and> kind \<noteq> ''range'' then Err ErrInvalidGenerationRange
          else (case ParseUint number 63 of
                  Ok value \<Rightarrow>
                    if FormatUint value \<noteq> number \<or> kind = ''ok'' \<and> value = 0 then Err ErrInvalidGenerationRange
                    else Ok (value, kind = ''range'')
                | _ \<Rightarrow> Err ErrInvalidGenerationRange)
      | _ \<Rightarrow> Err ErrInvalidGenerationRange)"

text \<open>The variables the callback of \<open>Acquire\<close> shares with it.\<close>

record 's acquiring =
  aq_redis :: 's
  aq_calls :: nat
  aq_generation :: uint64

definition range_use ::
    "'s RedisOps \<Rightarrow> string \<Rightarrow> uint64 \<Rightarrow> 's acquiring \<Rightarrow> bool \<Rightarrow> uint64 \<Rightarrow> uint64 \<Rightarrow> 's acquiring \<times> unit res" where
  "range_use R k floor w operation start finish =
     (let w = w\<lparr>aq_calls := aq_calls w + 1\<rparr>
      in if aq_calls w \<noteq> 1 \<or> \<not> operation \<or> start \<le> floor \<or> start = 0 \<or> finish < start \<or> MaxInt64 < finish
         then (w, Err ErrInvalidGenerationRange)
         else (case initializeRangeScript R k (FormatUint start) (FormatUint finish) (aq_redis w) of
                 (s, Ok reply) \<Rightarrow>
                   let w = w\<lparr>aq_redis := s\<rparr>
                   in (case decodeRangeReply reply of
                         Ok (generation, needs) \<Rightarrow>
                           (w\<lparr>aq_generation := generation\<rparr>,
                            if needs \<or> generation \<le> floor then Err ErrInvalidGenerationRange else Ok ())
                       | Err e \<Rightarrow> (w\<lparr>aq_generation := 0\<rparr>, Err e)
                       | Panic \<Rightarrow> (w, Panic))
               | (s, Err e) \<Rightarrow> (w\<lparr>aq_redis := s\<rparr>, Err e)
               | (s, Panic) \<Rightarrow> (w\<lparr>aq_redis := s\<rparr>, Panic)))"

text \<open>
  \<open>WithGenerationRange\<close> of an allocator with state \<open>'a\<close>: it calls its argument with an operation context (a
  flag: not nil) and a range, threading the variables of the caller.
\<close>

type_synonym ('a, 's) allocator =
  "'a \<Rightarrow> int64 \<Rightarrow> uint64 \<Rightarrow> ('s acquiring \<Rightarrow> bool \<Rightarrow> uint64 \<Rightarrow> uint64 \<Rightarrow> 's acquiring \<times> unit res) \<Rightarrow> 's acquiring \<Rightarrow>
     'a \<times> 's acquiring \<times> unit res"

text \<open>\<open>ctx\<close> and \<open>late\<close> are the errors of the caller's context on entry and at the end.\<close>

definition Store_Acquire ::
    "'s RedisOps \<Rightarrow> string \<Rightarrow> ('a, 's) allocator option \<Rightarrow> goerror option \<Rightarrow> goerror option \<Rightarrow> 's \<times> 'a \<Rightarrow> int64 \<Rightarrow> ('s \<times> 'a) \<times> Token res" where
  "Store_Acquire R prefix rangeAllocator ctx late st uid =
     (case st of (s, a) \<Rightarrow>
      case ctx of Some e \<Rightarrow> ((s, a), Err e) | None \<Rightarrow>
      if sint uid \<le> 0 then ((s, a), Err ErrInvalidArgument)
      else (case acquireScript R (store_key prefix uid) s of
              (s, Ok values) \<Rightarrow>
                (case decodeRangeReply values of
                   Ok (generation, needRange) \<Rightarrow>
                     if \<not> needRange then ((s, a), Ok \<lparr>UID = uid, Generation = generation\<rparr>)
                     else if generation = MaxInt64 then ((s, a), Err ErrOwnershipGenerationExhausted)
                     else (case rangeAllocator of
                             None \<Rightarrow> ((s, a), Err ErrGenerationRangeRequired)
                           | Some alloc \<Rightarrow>
                               (case alloc a uid generation (range_use R (store_key prefix uid) generation)
                                       \<lparr>aq_redis = s, aq_calls = 0, aq_generation = generation\<rparr> of
                                  (a, w, Ok _) \<Rightarrow>
                                    ((aq_redis w, a),
                                     if aq_calls w \<noteq> 1 \<or> aq_generation w = 0 then Err ErrInvalidGenerationRange
                                     else (case late of Some e \<Rightarrow> Err e | None \<Rightarrow> Ok \<lparr>UID = uid, Generation = aq_generation w\<rparr>))
                                | (a, w, Err e) \<Rightarrow> ((aq_redis w, a), Err e)
                                | (a, w, Panic) \<Rightarrow> ((aq_redis w, a), Panic)))
                 | Err e \<Rightarrow> ((s, a), Err e)
                 | Panic \<Rightarrow> ((s, a), Panic))
            | (s, Err e) \<Rightarrow> ((s, a), Err e)
            | (s, Panic) \<Rightarrow> ((s, a), Panic)))"

definition Store_Current :: "'s RedisOps \<Rightarrow> string \<Rightarrow> goerror option \<Rightarrow> 's \<times> 'a \<Rightarrow> int64 \<Rightarrow> Token option res" where
  "Store_Current R prefix ctx st uid =
     (case ctx of Some e \<Rightarrow> Err e | None \<Rightarrow>
      if sint uid \<le> 0 then Err ErrInvalidArgument
      else (case HGET R (fst st) (store_key prefix uid) ''current'' of
              None \<Rightarrow> Ok None
            | Some value \<Rightarrow>
                (case ParseUint value 63 of
                   Ok generation \<Rightarrow>
                     if generation = 0 \<or> FormatUint generation \<noteq> value then Err ErrOwnershipGenerationExhausted
                     else Ok (Some \<lparr>UID = uid, Generation = generation\<rparr>)
                 | Err e \<Rightarrow> Err (ErrOther (''decode session ownership generation '' @ value))
                 | Panic \<Rightarrow> Panic)))"

definition Store_Release ::
    "'s RedisOps \<Rightarrow> string \<Rightarrow> goerror option \<Rightarrow> 's \<times> 'a \<Rightarrow> int64 \<Rightarrow> Token \<Rightarrow> ('s \<times> 'a) \<times> bool res" where
  "Store_Release R prefix ctx st uid token =
     (case ctx of Some e \<Rightarrow> (st, Err e) | None \<Rightarrow>
      if sint uid \<le> 0 \<or> UID token \<noteq> uid \<or> Generation token = 0 then (st, Err ErrInvalidArgument)
      else (case releaseScript R (store_key prefix uid) (FormatUint (Generation token)) (fst st) of
              (s, released) \<Rightarrow> ((s, snd st), Ok (released = 1))))"

section \<open>Generations as decimal strings\<close>

lemma lua_max_dec: "lua_max = dec (2 ^ 63 - 1)"
proof -
  have "canonical lua_max" by (simp add: canonical_def lua_max_def is_digit_def)
  moreover have "undec lua_max = 2 ^ 63 - 1"
    by (simp add: undec_def lua_max_def digit_value_def)
  ultimately show ?thesis using dec_undec by metis
qed

lemma lua_compare_dec: "lua_compare (dec a) (dec b) = (if a < b then - 1 else if a = b then 0 else 1)"
proof (cases "length (dec a) = length (dec b)")
  case True
  then have "str_less (dec a) (dec b) \<longleftrightarrow> a < b"
    using str_less_undec [OF dec_digits dec_digits, of a b] by simp
  then show ?thesis using True by (simp add: lua_compare_def dec_inj)
next
  case False
  then have "length (dec a) < length (dec b) \<longleftrightarrow> a < b" "a \<noteq> b"
    using undec_length_less [OF dec_canonical dec_canonical, of a b] undec_length_less [OF dec_canonical dec_canonical, of b a]
    by (cases "length (dec a) < length (dec b)"; simp)+
  then show ?thesis using False by (simp add: lua_compare_def)
qed

lemma lua_valid_dec: "lua_valid (dec n) \<longleftrightarrow> n < 2 ^ 63"
proof -
  let ?m = "2 ^ 63 - 1 :: nat"
  have c: "dec n \<noteq> [] \<and> list_all is_digit (dec n) \<and> (length (dec n) = 1 \<or> hd (dec n) \<noteq> CHR ''0'')"
    using dec_canonical [of n] by (simp add: canonical_def)
  have lt: "length (dec n) < length (dec ?m) \<Longrightarrow> n < ?m" "length (dec ?m) < length (dec n) \<Longrightarrow> ?m < n"
    using undec_length_less [OF dec_canonical dec_canonical] by (metis undec_dec)+
  have eq: "length (dec n) = length (dec ?m) \<Longrightarrow> str_less (dec ?m) (dec n) \<longleftrightarrow> ?m < n"
    using str_less_undec [OF dec_digits dec_digits, of ?m n] by simp
  have "lua_valid (dec n) \<longleftrightarrow> length (dec n) < length (dec ?m) \<or> length (dec n) = length (dec ?m) \<and> \<not> str_less (dec ?m) (dec n)"
    using c unfolding lua_valid_def lua_max_dec by blast
  also have "\<dots> \<longleftrightarrow> n \<le> ?m"
    using lt eq by (metis linorder_neqE_nat not_le order_less_imp_le)
  finally show ?thesis by auto
qed

lemma lua_valid_iff: "lua_valid v \<longleftrightarrow> (\<exists>n < 2 ^ 63. v = dec n)"
proof
  assume v: "lua_valid v"
  then have "canonical v" by (simp add: lua_valid_def canonical_def)
  then obtain n where "v = dec n" using canonical_iff by blast
  then show "\<exists>n < 2 ^ 63. v = dec n" using v lua_valid_dec by blast
qed (use lua_valid_dec in blast)

lemma dec_zero: "dec n = ''0'' \<longleftrightarrow> n = 0"
proof -
  have "dec 0 = ''0''" by (simp add: dec.simps [of 0] digit_def char_of_def bit_iff_odd)
  then show ?thesis using dec_inj by metis
qed

text \<open>
  C37: The comparison of the scripts is exact on every generation, beyond the 53 bits of a Lua number: a
  string is accepted iff it is the canonical numeral of a number below $2^{63}$, and two numerals compare as
  their numbers do.
\<close>

theorem scripts_compare_exactly:
  "(lua_valid v \<longleftrightarrow> (\<exists>n. n < 2 ^ 63 \<and> v = dec n)) \<and> lua_compare (dec a) (dec b) = sgn (int a - int b)"
  using lua_valid_iff by (auto simp: lua_compare_dec)

section \<open>Hashes\<close>

text \<open>A hash holds the newest generation, the generation of the current token and the end of the range.\<close>

type_synonym ahash = "(nat \<times> nat option \<times> nat option) option"

fun ahash_ok :: "ahash \<Rightarrow> bool" where
  "ahash_ok None = True"
| "ahash_ok (Some (n, c, l)) =
     (n < 2 ^ 63 \<and> (case c of None \<Rightarrow> True | Some m \<Rightarrow> 0 < m \<and> m \<le> n) \<and> (case l of None \<Rightarrow> True | Some m \<Rightarrow> n \<le> m \<and> m < 2 ^ 63))"

fun has_hash :: "'s RedisOps \<Rightarrow> 's \<Rightarrow> string \<Rightarrow> ahash \<Rightarrow> bool" where
  "has_hash R s k None \<longleftrightarrow> HGET R s k ''generation'' = None \<and> HGET R s k ''current'' = None \<and> HGET R s k ''range_end'' = None"
| "has_hash R s k (Some (n, c, l)) \<longleftrightarrow>
     HGET R s k ''generation'' = Some (dec n) \<and> HGET R s k ''current'' = map_option dec c \<and> HGET R s k ''range_end'' = map_option dec l"

fun gen_of :: "ahash \<Rightarrow> nat" where
  "gen_of None = 0"
| "gen_of (Some (n, _, _)) = n"

fun lim_of :: "ahash \<Rightarrow> nat option" where
  "lim_of None = None"
| "lim_of (Some (_, _, l)) = l"

fun cur_of :: "ahash \<Rightarrow> nat option" where
  "cur_of None = None"
| "cur_of (Some (_, c, _)) = c"

fun room :: "ahash \<Rightarrow> bool" where
  "room h = (case lim_of h of None \<Rightarrow> False | Some l \<Rightarrow> gen_of h < l)"

definition same_others :: "'s RedisOps \<Rightarrow> 's \<Rightarrow> 's \<Rightarrow> string \<Rightarrow> bool" where
  "same_others R s s' k \<longleftrightarrow> (\<forall>k' f. k' \<noteq> k \<longrightarrow> HGET R s' k' f = HGET R s k' f)"

lemma same_others_hash: "same_others R s s' k \<Longrightarrow> k' \<noteq> k \<Longrightarrow> has_hash R s' k' h = has_hash R s k' h"
  by (cases h) (auto simp: same_others_def)

lemma lua_state_hash:
  assumes "has_hash R s k h" and "ahash_ok h"
  shows "lua_state R k s = Ok (dec (gen_of h), map_option dec (lim_of h))"
proof (cases h)
  case None
  then show ?thesis using assms dec_zero [of 0] by (simp add: lua_state_def)
next
  case (Some x)
  obtain n c l where x: "x = (n, c, l)" by (metis prod_cases3)
  then show ?thesis
    using assms Some by (auto simp: lua_state_def Let_def lua_valid_dec lua_compare_dec dec_zero split: option.splits)
qed

lemma has_room_dec: "has_room (dec n) (map_option dec l) = (case l of None \<Rightarrow> False | Some m \<Rightarrow> n < m)"
  by (simp add: has_room_def lua_compare_dec split: option.splits)

context redis_hash
begin

lemma advance_hash:
  assumes h: "has_hash R s k h" "ahash_ok h" and r: "room h"
  shows "\<exists>s'. lua_advance R k s = (s', Ok [''ok'', dec (gen_of h + 1)]) \<and>
    has_hash R s' k (Some (gen_of h + 1, Some (gen_of h + 1), lim_of h)) \<and> same_others R s s' k"
proof -
  obtain n c l where x: "h = Some (n, c, Some l)" "n < l" "l < 2 ^ 63"
    using h(2) r by (cases h rule: ahash_ok.cases) (auto split: option.splits)
  then obtain s1 where s1: "HINCRBY R s k ''generation'' 1 = Some s1"
    "\<And>k' f'. HGET R s1 k' f' = (if k' = k \<and> f' = ''generation'' then Some (dec (n + 1)) else HGET R s k' f')"
    using hincrby [of s k "''generation''" n 1] h(1) by auto
  then show ?thesis
    using h(1) by (simp add: lua_advance_def x(1) hget_hset same_others_def)
qed

lemma acquire_hash:
  assumes h: "has_hash R s k h" "ahash_ok h"
  shows "\<not> room h \<Longrightarrow> acquireScript R k s = (s, Ok [''range'', dec (gen_of h)])"
    and "room h \<Longrightarrow> acquireScript R k s = lua_advance R k s"
  by (auto simp: acquireScript_def lua_state_hash [OF h] has_room_dec split: option.splits)

lemma initialize_hash:
  assumes h: "has_hash R s k h" "ahash_ok h"
  shows "room h \<Longrightarrow> initializeRangeScript R k first final s = lua_advance R k s"
    and "\<not> room h \<Longrightarrow> gen_of h < m \<Longrightarrow> m \<le> e \<Longrightarrow> e < 2 ^ 63 \<Longrightarrow>
      \<exists>s'. initializeRangeScript R k (dec m) (dec e) s = (s', Ok [''ok'', dec m]) \<and>
        has_hash R s' k (Some (m, Some m, Some e)) \<and> same_others R s s' k"
  by (auto simp: initializeRangeScript_def lua_state_hash [OF h] has_room_dec lua_valid_dec lua_compare_dec dec_zero hget_hset
      same_others_def split: option.splits)

end

section \<open>The contract of the store\<close>

text \<open>
  \<open>GenerationRangeAllocator\<close>: a range is reserved above the floor and above every range reserved before, the
  reservation is durable before the callback runs, the callback runs exactly once on success and its error
  is an error of the allocator.  \<open>reserved a uid\<close> is the end of the last range reserved for a user.
\<close>

locale range_allocator =
  fixes alloc :: "('a, 's) allocator"
    and reserved :: "'a \<Rightarrow> int64 \<Rightarrow> uint64"
  assumes alloc_others: "alloc a uid floor use w = (a', w', r) \<Longrightarrow> v \<noteq> uid \<Longrightarrow> reserved a' v = reserved a v"
    and alloc_range: "alloc a uid floor use w = (a', w', r) \<Longrightarrow>
      w' = w \<and> \<not> is_ok r \<and> reserved a uid \<le> reserved a' uid \<or>
      (\<exists>start finish. floor < start \<and> reserved a uid < start \<and> start \<le> finish \<and> finish \<le> reserved a' uid \<and>
         w' = fst (use w True start finish) \<and> (is_ok r \<longrightarrow> is_ok (snd (use w True start finish))))"

locale redis_store = redis_hash R + range_allocator alloc reserved
  for R :: "'s RedisOps" and alloc :: "('a, 's) allocator" and reserved :: "'a \<Rightarrow> int64 \<Rightarrow> uint64" +
  fixes prefix :: string

definition hash_at :: "'s RedisOps \<Rightarrow> 's \<Rightarrow> string \<Rightarrow> ahash" where
  "hash_at R s k =
     map_option (\<lambda>g. (undec g, map_option undec (HGET R s k ''current''), map_option undec (HGET R s k ''range_end'')))
       (HGET R s k ''generation'')"

lemma has_hash_at: "has_hash R s k h \<Longrightarrow> hash_at R s k = h"
  by (cases h rule: ahash_ok.cases) (auto simp: hash_at_def option.map_comp comp_def option.map_ident)

lemma others_at: "same_others R s s' k \<Longrightarrow> k' \<noteq> k \<Longrightarrow> hash_at R s' k' = hash_at R s k'"
  by (simp add: hash_at_def same_others_def)

lemma format_int_inj: "format_int i = format_int j \<longleftrightarrow> i = j"
proof -
  have "hd (dec n) \<noteq> CHR ''-''" for n
    using dec_digits [of n] dec_not_Nil [of n] by (cases "dec n") (auto simp: is_digit_def)
  then have "dec n \<noteq> CHR ''-'' # t" for n t by (metis list.sel(1))
  then show ?thesis by (auto simp: format_int_def dec_inj split: if_splits) (metis list.inject)+
qed

lemma store_key_inj: "store_key p u = store_key p v \<longleftrightarrow> u = v"
  by (simp add: store_key_def format_int_inj) (metis signed_word_eqI)

definition redis_inv :: "'s RedisOps \<Rightarrow> ('a \<Rightarrow> int64 \<Rightarrow> uint64) \<Rightarrow> string \<Rightarrow> 's \<times> 'a \<Rightarrow> bool" where
  "redis_inv R reserved prefix st \<longleftrightarrow>
     (\<forall>uid. let h = hash_at R (fst st) (store_key prefix uid)
            in has_hash R (fst st) (store_key prefix uid) h \<and> ahash_ok h \<and>
               (\<forall>l. lim_of h = Some l \<longrightarrow> l \<le> unat (reserved (snd st) uid)))"

definition redis_issued :: "'s RedisOps \<Rightarrow> ('a \<Rightarrow> int64 \<Rightarrow> uint64) \<Rightarrow> string \<Rightarrow> 's \<times> 'a \<Rightarrow> int64 \<Rightarrow> uint64" where
  "redis_issued R reserved prefix st uid =
     (case hash_at R (fst st) (store_key prefix uid) of None \<Rightarrow> reserved (snd st) uid | Some (n, _, _) \<Rightarrow> of_nat n)"

lemma redis_invD:
  assumes "redis_inv R reserved prefix (s, a)"
  shows "has_hash R s (store_key prefix uid) (hash_at R s (store_key prefix uid))" "ahash_ok (hash_at R s (store_key prefix uid))"
    "lim_of (hash_at R s (store_key prefix uid)) = Some l \<Longrightarrow> l \<le> unat (reserved a uid)"
  using assms by (auto simp: redis_inv_def Let_def)

lemma unat_gen: "n < 2 ^ 63 \<Longrightarrow> unat (of_nat n :: uint64) = n"
  by (simp add: unat_of_nat)

lemma decode_ok: "0 < n \<Longrightarrow> n < 2 ^ 63 \<Longrightarrow> decodeRangeReply [''ok'', dec n] = Ok (of_nat n, False)"
  and decode_range: "n < 2 ^ 63 \<Longrightarrow> decodeRangeReply [''range'', dec n] = Ok (of_nat n, True)"
  using unat_gen [of n] by (auto simp: decodeRangeReply_def ParseUint_def dec_digits FormatUint_def unat_eq_0 [symmetric])

lemma MaxInt64_unat: "unat MaxInt64 = 2 ^ 63 - 1"
  by (simp add: MaxInt64_def)

context redis_hash
begin

lemma use_effect:
  assumes h: "has_hash R s k h" "ahash_ok h" "\<not> room h" and f: "unat floor = gen_of h" "floor < start" "start \<le> finish"
    and use: "range_use R k floor \<lparr>aq_redis = s, aq_calls = 0, aq_generation = floor\<rparr> True start finish = (w, m)"
  shows "aq_redis w = s \<and> \<not> is_ok m \<or>
    m = Ok () \<and> aq_calls w = 1 \<and> aq_generation w = start \<and> same_others R s (aq_redis w) k \<and>
    has_hash R (aq_redis w) k (Some (unat start, Some (unat start), Some (unat finish))) \<and> unat finish < 2 ^ 63"
proof (cases "MaxInt64 < finish")
  case True
  then show ?thesis using use by (auto simp: range_use_def)
next
  case False
  have b: "gen_of h < unat start" "unat start \<le> unat finish" "unat finish < 2 ^ 63"
    using f False MaxInt64_unat by (simp_all add: word_less_nat_alt word_le_nat_alt)
  obtain s' where s': "initializeRangeScript R k (dec (unat start)) (dec (unat finish)) s = (s', Ok [''ok'', dec (unat start)])"
      "has_hash R s' k (Some (unat start, Some (unat start), Some (unat finish)))" "same_others R s s' k"
    using initialize_hash(2) [OF h(1,2,3) b] by blast
  have "decodeRangeReply [''ok'', dec (unat start)] = Ok (start, False)"
    using decode_ok [of "unat start"] b by simp
  moreover have "start \<noteq> 0" "\<not> start \<le> floor" "\<not> finish < start" using f(2,3) by auto
  ultimately have "w = \<lparr>aq_redis = s', aq_calls = 1, aq_generation = start\<rparr>" "m = Ok ()"
    using use False s'(1) by (simp_all add: range_use_def FormatUint_def Let_def)
  then show ?thesis using s'(2,3) b(3) by simp
qed

end

context redis_store
begin

abbreviation key_of :: "int64 \<Rightarrow> string" where
  "key_of \<equiv> store_key prefix"

text \<open>What an acquisition leaves behind, whether it succeeds or not.\<close>

definition acquired :: "'s \<Rightarrow> 'a \<Rightarrow> 's \<Rightarrow> 'a \<Rightarrow> int64 \<Rightarrow> nat \<Rightarrow> nat \<Rightarrow> bool" where
  "acquired s a s' a' uid n l \<longleftrightarrow>
     has_hash R s' (key_of uid) (Some (n, Some n, Some l)) \<and> n \<le> l \<and> l < 2 ^ 63 \<and> l \<le> unat (reserved a' uid) \<and>
     gen_of (hash_at R s (key_of uid)) < n \<and> (hash_at R s (key_of uid) = None \<longrightarrow> unat (reserved a uid) < n)"

lemma acquire_room:
  assumes inv: "redis_inv R reserved prefix (s, a)" and uid: "0 < sint uid" and h: "room (hash_at R s (key_of uid))"
  shows "\<exists>s' n l. Store_Acquire R prefix al None late (s, a) uid = ((s', a), Ok \<lparr>UID = uid, Generation = of_nat n\<rparr>) \<and>
    same_others R s s' (key_of uid) \<and> acquired s a s' a uid n l"
proof -
  let ?h = "hash_at R s (key_of uid)" and ?n = "gen_of (hash_at R s (key_of uid)) + 1"
  note d = redis_invD [OF inv, where uid = uid]
  obtain l where l: "lim_of ?h = Some l" "gen_of ?h < l" using h by (auto split: option.splits)
  have b: "l < 2 ^ 63" using d(2) l by (cases ?h rule: ahash_ok.cases) auto
  obtain s' where s': "lua_advance R (key_of uid) s = (s', Ok [''ok'', dec ?n])"
      "has_hash R s' (key_of uid) (Some (?n, Some ?n, Some l))" "same_others R s s' (key_of uid)"
    using advance_hash [OF d(1,2) h] l by auto
  have "decodeRangeReply [''ok'', dec ?n] = Ok (of_nat ?n, False)"
    using decode_ok [of ?n] l b by simp
  then have "Store_Acquire R prefix al None late (s, a) uid = ((s', a), Ok \<lparr>UID = uid, Generation = of_nat ?n\<rparr>)"
    using uid s'(1) acquire_hash(2) [OF d(1,2) h] by (simp add: Store_Acquire_def del: of_nat_add)
  moreover have "?h \<noteq> None" using l(1) by (metis lim_of.simps(1) option.distinct(1))
  then have "acquired s a s' a uid ?n l"
    using s'(2) l b d(3) [OF l(1)] by (simp add: acquired_def)
  ultimately show ?thesis using s'(3) by blast
qed

lemma acquire_range:
  assumes inv: "redis_inv R reserved prefix (s, a)" and uid: "0 < sint uid" and h: "\<not> room (hash_at R s (key_of uid))"
    and acq: "Store_Acquire R prefix (Some alloc) None late (s, a) uid = ((s', a'), m)"
  shows "reserved a uid \<le> reserved a' uid \<and> (\<forall>v. v \<noteq> uid \<longrightarrow> reserved a' v = reserved a v) \<and> same_others R s s' (key_of uid) \<and>
    (\<not> is_ok m \<and> s' = s \<or> (\<exists>n l. acquired s a s' a' uid n l \<and> (m = Ok \<lparr>UID = uid, Generation = of_nat n\<rparr> \<or> \<not> is_ok m)))"
proof -
  let ?h = "hash_at R s (key_of uid)" and ?g = "of_nat (gen_of (hash_at R s (key_of uid))) :: uint64"
  note d = redis_invD [OF inv, where uid = uid]
  have g: "gen_of ?h < 2 ^ 63" using d(2) by (cases ?h rule: ahash_ok.cases) auto
  have scr: "acquireScript R (key_of uid) s = (s, Ok [''range'', dec (gen_of ?h)])"
    by (rule acquire_hash(1) [OF d(1,2) h])
  show ?thesis
  proof (cases "?g = MaxInt64")
    case True
    then have "s' = s \<and> a' = a \<and> \<not> is_ok m"
      using acq uid scr decode_range [OF g] by (auto simp: Store_Acquire_def)
    then show ?thesis by (simp add: same_others_def)
  next
    case False
    let ?use = "range_use R (key_of uid) ?g" and ?w = "\<lparr>aq_redis = s, aq_calls = 0, aq_generation = ?g\<rparr>"
    obtain a1 w r where al: "alloc a uid ?g ?use ?w = (a1, w, r)" by (metis prod_cases3)
    have res: "a' = a1" "s' = aq_redis w" "\<And>x. r = Ok x \<Longrightarrow> aq_calls w = 1 \<Longrightarrow> aq_generation w \<noteq> 0 \<Longrightarrow>
        m = Ok \<lparr>UID = uid, Generation = aq_generation w\<rparr> \<or> \<not> is_ok m" "\<not> is_ok r \<Longrightarrow> \<not> is_ok m"
      using acq uid scr decode_range [OF g] False al by (auto simp: Store_Acquire_def split: res.splits option.splits)
    note ao = alloc_others [OF al] and ar = alloc_range [OF al]
    show ?thesis
    proof (cases "w = ?w \<and> \<not> is_ok r \<and> reserved a uid \<le> reserved a1 uid")
      case True
      then show ?thesis using res ao by (auto simp: same_others_def)
    next
      case no: False
      then obtain start finish where r: "?g < start" "reserved a uid < start" "start \<le> finish" "finish \<le> reserved a1 uid"
          "w = fst (?use ?w True start finish)" "is_ok r \<longrightarrow> is_ok (snd (?use ?w True start finish))"
        using ar by blast
      obtain mu where mu: "?use ?w True start finish = (w, mu)" using r(5) by (metis prod.collapse)
      have mono: "reserved a uid \<le> reserved a1 uid" using r(2,3,4) by (meson less_imp_le order_trans)
      have gn: "unat ?g = gen_of ?h" by (rule unat_gen [OF g])
      from use_effect [OF d(1,2) h gn r(1,3) mu] show ?thesis
      proof
        assume "aq_redis w = s \<and> \<not> is_ok mu"
        then show ?thesis using res r(6) mu mono ao by (auto simp: same_others_def)
      next
        assume e: "mu = Ok () \<and> aq_calls w = 1 \<and> aq_generation w = start \<and> same_others R s (aq_redis w) (key_of uid) \<and>
          has_hash R (aq_redis w) (key_of uid) (Some (unat start, Some (unat start), Some (unat finish))) \<and> unat finish < 2 ^ 63"
        have "acquired s a s' a' uid (unat start) (unat finish)"
          using e r(1-4) res(1,2) gn by (simp add: acquired_def word_less_nat_alt word_le_nat_alt)
        moreover have "m = Ok \<lparr>UID = uid, Generation = of_nat (unat start)\<rparr> \<or> \<not> is_ok m"
        proof (cases r)
          case (Ok x)
          have "start \<noteq> 0" using r(1) by (metis word_not_simps(1))
          then show ?thesis using res(3) [OF Ok] e by auto
        qed (use res(4) in simp_all)
        ultimately show ?thesis using e mono ao res(1,2) by blast
      qed
    qed
  qed
qed

lemma acquire_effect:
  assumes inv: "redis_inv R reserved prefix (s, a)" and uid: "0 < sint uid"
    and acq: "Store_Acquire R prefix (Some alloc) None late (s, a) uid = ((s', a'), m)"
  shows "reserved a uid \<le> reserved a' uid" "v \<noteq> uid \<Longrightarrow> reserved a' v = reserved a v" "same_others R s s' (key_of uid)"
    "\<not> is_ok m \<and> s' = s \<or> (\<exists>n l. acquired s a s' a' uid n l \<and> (m = Ok \<lparr>UID = uid, Generation = of_nat n\<rparr> \<or> \<not> is_ok m))"
proof -
  have "reserved a uid \<le> reserved a' uid \<and> (\<forall>v. v \<noteq> uid \<longrightarrow> reserved a' v = reserved a v) \<and> same_others R s s' (key_of uid) \<and>
    (\<not> is_ok m \<and> s' = s \<or> (\<exists>n l. acquired s a s' a' uid n l \<and> (m = Ok \<lparr>UID = uid, Generation = of_nat n\<rparr> \<or> \<not> is_ok m)))"
  proof (cases "room (hash_at R s (key_of uid))")
    case True
    from acquire_room [OF inv uid this, of "Some alloc" late] acq show ?thesis by auto
  next
    case False
    from acquire_range [OF inv uid this acq] show ?thesis .
  qed
  then show "reserved a uid \<le> reserved a' uid" "v \<noteq> uid \<Longrightarrow> reserved a' v = reserved a v" "same_others R s s' (key_of uid)"
    "\<not> is_ok m \<and> s' = s \<or> (\<exists>n l. acquired s a s' a' uid n l \<and> (m = Ok \<lparr>UID = uid, Generation = of_nat n\<rparr> \<or> \<not> is_ok m))"
    by blast+
qed

end

context redis_store
begin

lemma acquired_at:
  assumes "acquired s a s' a' uid n l"
  shows "hash_at R s' (key_of uid) = Some (n, Some n, Some l)"
  by (rule has_hash_at) (use assms in \<open>simp add: acquired_def\<close>)

lemma acquire_nonpositive: "\<not> 0 < sint uid \<Longrightarrow> Store_Acquire R prefix al None late st uid = (st, Err ErrInvalidArgument)"
  by (cases st) (simp add: Store_Acquire_def)

lemma redis_acquire_inv:
  assumes inv: "redis_inv R reserved prefix (s, a)" and acq: "Store_Acquire R prefix (Some alloc) None late (s, a) uid = ((s', a'), m)"
  shows "redis_inv R reserved prefix (s', a')"
proof (cases "0 < sint uid")
  case True
  note e = acquire_effect [OF inv True acq]
  have "has_hash R s' (key_of v) (hash_at R s' (key_of v)) \<and> ahash_ok (hash_at R s' (key_of v)) \<and>
      (\<forall>l. lim_of (hash_at R s' (key_of v)) = Some l \<longrightarrow> l \<le> unat (reserved a' v))" for v
  proof (cases "v = uid")
    case False
    then have k: "key_of v \<noteq> key_of uid" by (simp add: store_key_inj)
    show ?thesis
      using redis_invD [OF inv, of v] others_at [OF e(3) k] same_others_hash [OF e(3) k] e(2) [OF False] by simp
  next
    case eq: True
    from e(4) show ?thesis
    proof
      assume "\<not> is_ok m \<and> s' = s"
      then show ?thesis
        using redis_invD [OF inv, of uid] e(1) eq by (auto simp: word_le_nat_alt intro: order_trans)
    next
      assume "\<exists>n l. acquired s a s' a' uid n l \<and> (m = Ok \<lparr>UID = uid, Generation = of_nat n\<rparr> \<or> \<not> is_ok m)"
      then obtain n l where "acquired s a s' a' uid n l" by blast
      then show ?thesis
        using acquired_at [of s a s' a' uid n l] eq by (auto simp: acquired_def)
    qed
  qed
  then show ?thesis by (simp add: redis_inv_def Let_def)
next
  case False
  then show ?thesis using acq inv by (simp add: acquire_nonpositive)
qed

lemma redis_current:
  assumes "redis_inv R reserved prefix (s, a)" and "0 < sint uid"
  shows "Store_Current R prefix None (s, a) uid =
    Ok (map_option (\<lambda>c. \<lparr>UID = uid, Generation = of_nat c\<rparr>) (cur_of (hash_at R s (key_of uid))))"
proof -
  note d = redis_invD(1,2) [OF assms(1), of uid]
  show ?thesis
  proof (cases "hash_at R s (key_of uid)" rule: ahash_ok.cases)
    case 1
    then show ?thesis using d assms(2) by (simp add: Store_Current_def)
  next
    case (2 n c l)
    show ?thesis
    proof (cases c)
      case None
      then show ?thesis using d assms(2) 2 by (simp add: Store_Current_def)
    next
      case (Some m)
      then have "0 < m" "m < 2 ^ 63" using d(2) 2 by auto
      then show ?thesis
        using d assms(2) 2 Some unat_gen [of m]
        by (auto simp: Store_Current_def ParseUint_def dec_digits FormatUint_def unat_eq_0 [symmetric])
    qed
  qed
qed

lemma release_eq:
  assumes "redis_inv R reserved prefix (s, a)" and "0 < sint uid" and "UID t = uid" "Generation t \<noteq> 0"
  shows "Store_Release R prefix None (s, a) uid t =
    (if Store_Current R prefix None (s, a) uid = Ok (Some t) then ((HDEL R s (key_of uid) ''current'', a), Ok True) else ((s, a), Ok False))"
proof -
  note d = redis_invD(1,2) [OF assms(1), of uid]
  have c: "HGET R s (key_of uid) ''current'' = map_option dec (cur_of (hash_at R s (key_of uid)))"
    using d(1) by (cases "hash_at R s (key_of uid)" rule: ahash_ok.cases) auto
  have b: "cur_of (hash_at R s (key_of uid)) = Some m \<Longrightarrow> m < 2 ^ 63" for m
    using d(2) by (cases "hash_at R s (key_of uid)" rule: ahash_ok.cases) auto
  have "HGET R s (key_of uid) ''current'' = Some (FormatUint (Generation t)) \<longleftrightarrow>
      Store_Current R prefix None (s, a) uid = Ok (Some t)"
    using redis_current [OF assms(1,2)] c b assms(3) unat_gen
    by (cases t; cases "cur_of (hash_at R s (key_of uid))") (auto simp: FormatUint_def dec_inj)
  then show ?thesis
    using assms(2,3,4) by (simp add: Store_Release_def releaseScript_def)
qed

lemma release_hash:
  assumes "redis_inv R reserved prefix (s, a)"
  shows "hash_at R (HDEL R s k ''current'') k' =
    (if k' = k then map_option (\<lambda>(n, c, l). (n, None, l)) (hash_at R s k') else hash_at R s k')"
  by (auto simp: hash_at_def hget_hdel option.map_comp comp_def)

lemma redis_release_inv:
  assumes inv: "redis_inv R reserved prefix (s, a)"
  shows "redis_inv R reserved prefix (HDEL R s (key_of uid) ''current'', a)"
proof -
  have "has_hash R (HDEL R s (key_of uid) ''current'') (key_of v) (hash_at R (HDEL R s (key_of uid) ''current'') (key_of v)) \<and>
      ahash_ok (hash_at R (HDEL R s (key_of uid) ''current'') (key_of v)) \<and>
      lim_of (hash_at R (HDEL R s (key_of uid) ''current'') (key_of v)) = lim_of (hash_at R s (key_of v))" for v
    using redis_invD(1,2) [OF inv, of v]
    by (cases "hash_at R s (key_of v)" rule: ahash_ok.cases) (auto simp: release_hash [OF inv] hget_hdel)
  then show ?thesis using redis_invD(3) [OF inv] by (simp add: redis_inv_def Let_def)
qed

end

context redis_store
begin

lemma redis_acquire_newer:
  assumes inv: "redis_inv R reserved prefix (s, a)" and acq: "Store_Acquire R prefix (Some alloc) None late (s, a) uid = ((s', a'), Ok t)"
  shows "UID t = uid \<and> redis_issued R reserved prefix (s, a) uid < Generation t \<and>
    redis_issued R reserved prefix (s', a') uid = Generation t \<and> Store_Current R prefix None (s', a') uid = Ok (Some t)"
proof -
  have uid: "0 < sint uid" using acq by (rule contrapos_pp) (simp add: acquire_nonpositive)
  obtain n l where n: "acquired s a s' a' uid n l" "t = \<lparr>UID = uid, Generation = of_nat n\<rparr>"
    using acquire_effect(4) [OF inv uid acq] by auto
  note at = acquired_at [OF n(1)]
  have b: "n < 2 ^ 63" using n(1) by (simp add: acquired_def)
  have "redis_issued R reserved prefix (s, a) uid < of_nat n"
  proof (cases "hash_at R s (key_of uid)" rule: ahash_ok.cases)
    case 1
    then show ?thesis using n(1) unat_gen [OF b] by (simp add: redis_issued_def acquired_def word_less_nat_alt)
  next
    case (2 m c k)
    then have "m < n" using n(1) by (simp add: acquired_def)
    then show ?thesis using 2 unat_gen [OF b] unat_gen [of m] b by (simp add: redis_issued_def word_less_nat_alt)
  qed
  moreover have "redis_issued R reserved prefix (s', a') uid = of_nat n" using at by (simp add: redis_issued_def)
  ultimately show ?thesis
    using redis_current [OF redis_acquire_inv [OF inv acq] uid] at n(2) by simp
qed

lemma redis_acquire_frame:
  assumes inv: "redis_inv R reserved prefix (s, a)" and acq: "Store_Acquire R prefix (Some alloc) None late (s, a) uid = ((s', a'), m)" and v: "v \<noteq> uid"
  shows "redis_issued R reserved prefix (s', a') v = redis_issued R reserved prefix (s, a) v \<and>
    Store_Current R prefix None (s', a') v = Store_Current R prefix None (s, a) v"
proof (cases "0 < sint uid")
  case True
  note e = acquire_effect [OF inv True acq]
  have k: "key_of v \<noteq> key_of uid" using v by (simp add: store_key_inj)
  show ?thesis
    using others_at [OF e(3) k] e(2) [OF v] e(3) k
    by (cases "hash_at R s (key_of v)") (simp_all add: redis_issued_def Store_Current_def same_others_def)
next
  case False
  then show ?thesis using acq by (simp add: acquire_nonpositive)
qed

lemma redis_acquire_failed:
  assumes inv: "redis_inv R reserved prefix (s, a)" and acq: "Store_Acquire R prefix (Some alloc) None late (s, a) uid = ((s', a'), m)"
    and "\<not> is_ok m"
  shows "redis_issued R reserved prefix (s, a) uid \<le> redis_issued R reserved prefix (s', a') uid \<and>
    (\<forall>t. Store_Current R prefix None (s', a') uid = Ok (Some t) \<longrightarrow>
      Store_Current R prefix None (s, a) uid = Ok (Some t) \<or> redis_issued R reserved prefix (s, a) uid < Generation t)"
proof (cases "0 < sint uid")
  case True
  note e = acquire_effect [OF inv True acq]
  from e(4) show ?thesis
  proof
    assume "\<not> is_ok m \<and> s' = s"
    then show ?thesis using e(1) by (simp add: redis_issued_def Store_Current_def split: option.splits prod.splits)
  next
    assume "\<exists>n l. acquired s a s' a' uid n l \<and> (m = Ok \<lparr>UID = uid, Generation = of_nat n\<rparr> \<or> \<not> is_ok m)"
    then obtain n l where n: "acquired s a s' a' uid n l" by blast
    have b: "n < 2 ^ 63" using n by (simp add: acquired_def)
    have "redis_issued R reserved prefix (s, a) uid < of_nat n"
      using n unat_gen [OF b] unat_gen redis_invD(2) [OF inv, of uid]
      by (cases "hash_at R s (key_of uid)" rule: ahash_ok.cases) (auto simp: redis_issued_def acquired_def word_less_nat_alt)
    then show ?thesis
      using redis_current [OF redis_acquire_inv [OF inv acq] True] acquired_at [OF n] by (simp add: redis_issued_def)
  qed
next
  case False
  then show ?thesis using acq by (simp add: acquire_nonpositive)
qed

lemma redis_current_issued:
  assumes inv: "redis_inv R reserved prefix (s, a)" and cur: "Store_Current R prefix None (s, a) uid = Ok (Some t)"
  shows "UID t = uid \<and> 0 < Generation t \<and> Generation t \<le> redis_issued R reserved prefix (s, a) uid"
proof -
  have uid: "0 < sint uid" using cur by (auto simp: Store_Current_def split: if_splits)
  obtain c where c: "cur_of (hash_at R s (key_of uid)) = Some c" "t = \<lparr>UID = uid, Generation = of_nat c\<rparr>"
    using redis_current [OF inv uid] cur by (cases "cur_of (hash_at R s (key_of uid))") auto
  show ?thesis
    using c redis_invD(2) [OF inv, of uid] unat_gen [of c] unat_gen
    by (cases "hash_at R s (key_of uid)" rule: ahash_ok.cases) (auto simp: redis_issued_def word_less_nat_alt word_le_nat_alt)
qed

lemma release_cases:
  assumes inv: "redis_inv R reserved prefix (s, a)"
  obtains (gone) "0 < sint uid" "Store_Current R prefix None (s, a) uid = Ok (Some t)"
      "Store_Release R prefix None (s, a) uid t = ((HDEL R s (key_of uid) ''current'', a), Ok True)"
    | (kept) b where "Store_Release R prefix None (s, a) uid t = ((s, a), b)" "b \<noteq> Ok True"
        "b = Ok False \<Longrightarrow> Store_Current R prefix None (s, a) uid \<noteq> Ok (Some t)"
proof (cases "sint uid \<le> 0 \<or> UID t \<noteq> uid \<or> Generation t = 0")
  case True
  then have "Store_Release R prefix None (s, a) uid t = ((s, a), Err ErrInvalidArgument)" by (simp add: Store_Release_def)
  then show ?thesis using kept by simp
next
  case False
  then show ?thesis using release_eq [OF inv, of uid t] gone kept [of "Ok False"]
    by (cases "Store_Current R prefix None (s, a) uid = Ok (Some t)") auto
qed

lemma released_current:
  assumes inv: "redis_inv R reserved prefix (s, a)"
  shows "Store_Current R prefix None (HDEL R s (key_of uid) ''current'', a) v =
      (if v = uid \<and> 0 < sint uid then Ok None else Store_Current R prefix None (s, a) v)"
    "redis_issued R reserved prefix (HDEL R s (key_of uid) ''current'', a) v = redis_issued R reserved prefix (s, a) v"
  by (auto simp: Store_Current_def redis_issued_def release_hash [OF inv] hget_hdel store_key_inj split: option.splits prod.splits)

end

sublocale redis_store \<subseteq> ownership_store "Store_Acquire R prefix (Some alloc) None None" "Store_Current R prefix None"
    "Store_Release R prefix None" "redis_inv R reserved prefix" "redis_issued R reserved prefix"
proof
  fix st st' :: "'s \<times> 'a" and uid v :: int64 and t :: Token and m :: "Token res"
  assume inv: "redis_inv R reserved prefix st"
  obtain s a where st: "st = (s, a)" by fastforce
  obtain s' a' where st': "st' = (s', a')" by fastforce
  note i = inv [unfolded st]
  obtain s1 a1 m1 where acq: "Store_Acquire R prefix (Some alloc) None None (s, a) uid = ((s1, a1), m1)" by (metis prod.exhaust)
  show "redis_inv R reserved prefix (fst (Store_Acquire R prefix (Some alloc) None None st uid))"
    using redis_acquire_inv [OF i acq] acq by (simp add: st)
  show "redis_inv R reserved prefix (fst (Store_Release R prefix None st uid t))"
    using i redis_release_inv [OF i, of uid] by (cases rule: release_cases [OF i, of uid t]) (simp_all add: st)
  show "UID t = uid \<and> redis_issued R reserved prefix st uid < Generation t \<and> redis_issued R reserved prefix st' uid = Generation t \<and>
      Store_Current R prefix None st' uid = Ok (Some t)" if "Store_Acquire R prefix (Some alloc) None None st uid = (st', Ok t)"
    using redis_acquire_newer [OF i] that by (simp add: st st')
  show "redis_issued R reserved prefix (fst (Store_Acquire R prefix (Some alloc) None None st uid)) v = redis_issued R reserved prefix st v \<and>
      Store_Current R prefix None (fst (Store_Acquire R prefix (Some alloc) None None st uid)) v = Store_Current R prefix None st v" if "v \<noteq> uid"
    using redis_acquire_frame [OF i acq that] acq by (simp add: st)
  show "redis_issued R reserved prefix st uid \<le> redis_issued R reserved prefix st' uid \<and>
      (\<forall>t. Store_Current R prefix None st' uid = Ok (Some t) \<longrightarrow>
        Store_Current R prefix None st uid = Ok (Some t) \<or> redis_issued R reserved prefix st uid < Generation t)"
    if "Store_Acquire R prefix (Some alloc) None None st uid = (st', m)" "\<not> is_ok m"
    using redis_acquire_failed [OF i _ that(2)] that(1) by (simp add: st st')
  show "UID t = uid \<and> 0 < Generation t \<and> Generation t \<le> redis_issued R reserved prefix st uid"
    if "Store_Current R prefix None st uid = Ok (Some t)"
    using redis_current_issued [OF i] that by (simp add: st)
  show "redis_issued R reserved prefix (fst (Store_Release R prefix None st uid t)) = redis_issued R reserved prefix st"
    by (cases rule: release_cases [OF i, of uid t]) (simp_all add: st released_current [OF i] fun_eq_iff)
  show "Store_Current R prefix None (fst (Store_Release R prefix None st uid t)) v =
      (if v = uid \<and> Store_Current R prefix None st uid = Ok (Some t) \<and> snd (Store_Release R prefix None st uid t) = Ok True
       then Ok None else Store_Current R prefix None st v)"
    by (cases rule: release_cases [OF i, of uid t]) (simp_all add: st released_current [OF i])
  show "Store_Current R prefix None st uid = Ok (Some t)" if "snd (Store_Release R prefix None st uid t) = Ok True"
    using that by (cases rule: release_cases [OF i, of uid t]) (simp_all add: st)
  show "Store_Current R prefix None st uid \<noteq> Ok (Some t)" if "snd (Store_Release R prefix None st uid t) = Ok False"
    using that by (cases rule: release_cases [OF i, of uid t]) (simp_all add: st)
qed

section \<open>An instance\<close>

text \<open>A server as a map, and the allocator of \<open>range_allocator_test.go\<close> with ranges of 1024 generations.\<close>

definition hash_ops :: "(string \<Rightarrow> string \<Rightarrow> string option) RedisOps" where
  "hash_ops = \<lparr>HGET = (\<lambda>s. s), HSET = (\<lambda>s k f v. s(k := (s k)(f := Some v))), HDEL = (\<lambda>s k f. s(k := (s k)(f := None))),
     HINCRBY = (\<lambda>s k f i.
       let v = (case s k f of None \<Rightarrow> ''0'' | Some v \<Rightarrow> v)
       in if canonical v \<and> undec v + i < 2 ^ 63 then Some (s(k := (s k)(f := Some (dec (undec v + i))))) else None)\<rparr>"

definition range_model :: "((int64, uint64) gomap, 's) allocator" where
  "range_model m uid floor use w =
     (let floor = max floor (gm_get0 0 m uid)
      in if MaxInt64 \<le> floor then (m, w, Err ErrOwnershipGenerationExhausted)
         else let width = min 1024 (MaxInt64 - floor); m = gm_set m uid (floor + width)
              in (case use w True (floor + 1) (floor + width) of (w, r) \<Rightarrow> (m, w, r)))"

lemma range_model_bounds:
  assumes "floor < MaxInt64" and "width = min 1024 (MaxInt64 - floor)"
  shows "floor < floor + 1" "floor + 1 \<le> floor + width"
proof -
  have u: "unat floor < 2 ^ 63 - 1" using assms(1) MaxInt64_unat by (simp add: word_less_nat_alt)
  have s: "unat (MaxInt64 - floor) = 2 ^ 63 - 1 - unat floor"
    using assms(1) MaxInt64_unat by (simp add: unat_sub word_le_nat_alt word_less_nat_alt)
  have z: "1 \<le> unat width" "unat width \<le> 1024"
    using u s assms(2) by (auto simp: min_def word_le_nat_alt)
  have p: "unat (floor + 1) = unat floor + 1" "unat (floor + width) = unat floor + unat width"
    using u z by (simp_all add: unat_word_ariths)
  show "floor < floor + 1" "floor + 1 \<le> floor + width"
    using p z by (simp_all add: word_less_nat_alt word_le_nat_alt)
qed

interpretation redis: redis_store hash_ops range_model "gm_get0 0" "''due:session:ownership''"
proof
  fix s :: "string \<Rightarrow> string \<Rightarrow> string option" and k f v k' f' and n i :: nat
  show "HGET hash_ops (HSET hash_ops s k f v) k' f' = (if k' = k \<and> f' = f then Some v else HGET hash_ops s k' f')"
    "HGET hash_ops (HDEL hash_ops s k f) k' f' = (if k' = k \<and> f' = f then None else HGET hash_ops s k' f')"
    by (simp_all add: hash_ops_def)
  show "\<exists>s'. HINCRBY hash_ops s k f i = Some s' \<and>
      (\<forall>k' f'. HGET hash_ops s' k' f' = (if k' = k \<and> f' = f then Some (dec (n + i)) else HGET hash_ops s k' f'))"
    if "HGET hash_ops s k f = Some (dec n)" "n + i < 2 ^ 63"
    using that by (simp add: hash_ops_def Let_def dec_canonical)
next
  fix a a' :: "(int64, uint64) gomap" and uid v :: int64 and floor :: uint64 and r :: "unit res"
    and w w' :: "(string \<Rightarrow> string \<Rightarrow> string option) acquiring" and use
  assume al: "range_model a uid floor use w = (a', w', r)"
  define fl where "fl = max floor (gm_get0 0 a uid)"
  define n where "n = min 1024 (MaxInt64 - fl)"
  show "gm_get0 0 a' v = gm_get0 0 a v" if "v \<noteq> uid"
    using al that by (auto simp: range_model_def Let_def split: if_splits prod.splits)
  show "w' = w \<and> \<not> is_ok r \<and> gm_get0 0 a uid \<le> gm_get0 0 a' uid \<or>
      (\<exists>start finish. floor < start \<and> gm_get0 0 a uid < start \<and> start \<le> finish \<and> finish \<le> gm_get0 0 a' uid \<and>
         w' = fst (use w True start finish) \<and> (is_ok r \<longrightarrow> is_ok (snd (use w True start finish))))"
  proof (cases "MaxInt64 \<le> fl")
    case True
    then show ?thesis using al by (auto simp: range_model_def fl_def)
  next
    case False
    then have b: "fl < fl + 1" "fl + 1 \<le> fl + n" using range_model_bounds [of fl n] n_def by simp_all
    have "floor < fl + 1" "gm_get0 0 a uid < fl + 1" using b(1) by (simp_all add: fl_def le_less_trans)
    moreover have "a' = gm_set a uid (fl + n)" "w' = fst (use w True (fl + 1) (fl + n))" "r = snd (use w True (fl + 1) (fl + n))"
      using al False by (auto simp: range_model_def Let_def fl_def [symmetric] n_def [symmetric] split: prod.splits)
    ultimately show ?thesis using b(2) by auto
  qed
qed

section \<open>Fencing\<close>

context redis_store
begin

lemma contract: "ownership_store (Store_Acquire R prefix (Some alloc) None None) (Store_Current R prefix None) (Store_Release R prefix None)
    (redis_inv R reserved prefix) (redis_issued R reserved prefix)"
  by (rule ownership_store_axioms)

end

lemma redis_contract: "redis_hash R \<Longrightarrow> range_allocator alloc reserved \<Longrightarrow>
    ownership_store (Store_Acquire R prefix (Some alloc) None None) (Store_Current R prefix None) (Store_Release R prefix None)
      (redis_inv R reserved prefix) (redis_issued R reserved prefix)"
  by (rule redis_store.contract) (rule redis_store.intro)

text \<open>
  C19: The store on Redis fences like the in-process one, for any server with the documented hash commands and any
  allocator that keeps its contract: over any run of acquisitions and releases the generations issued for a
  user increase strictly and exceed all issued before, and a token that is superseded or released never
  becomes current again and is never issued again, also when acquisitions fail half way.
\<close>

theorem redis_generations_fence:
  assumes "redis_hash R" and "range_allocator alloc reserved" and "redis_inv R reserved prefix st"
    and "store_run (Store_Acquire R prefix (Some alloc) None None) (Store_Release R prefix None) ops st = (st', ts)"
  shows "sorted_wrt (\<lambda>t u. UID t = UID u \<longrightarrow> Generation t < Generation u) ts \<and>
    (\<forall>t \<in> set ts. redis_issued R reserved prefix st (UID t) < Generation t) \<and>
    (\<forall>t. Generation t \<le> redis_issued R reserved prefix st (UID t) \<and> Store_Current R prefix None st (UID t) \<noteq> Ok (Some t) \<longrightarrow>
      Store_Current R prefix None st' (UID t) \<noteq> Ok (Some t) \<and> t \<notin> set ts)"
proof -
  note S = redis_contract [OF assms(1,2), of prefix]
  show ?thesis
    using ownership_store.issued_increasing [OF S assms(3,4)] ownership_store.stale_forever [OF S assms(3) _ assms(4)]
    unfolding ownership_store.stale_def [OF S] by blast
qed

text \<open>An empty server with the allocator of the tests.\<close>

definition empty_redis :: "(string \<Rightarrow> string \<Rightarrow> string option) \<times> (int64, uint64) gomap" where
  "empty_redis = (\<lambda>_ _. None, [])"

lemma empty_redis_inv: "redis_inv hash_ops (gm_get0 0) prefix empty_redis"
  by (simp add: redis_inv_def empty_redis_def hash_at_def hash_ops_def Let_def)

theorem redis_generations_fence_witness:
  "sorted_wrt (\<lambda>t u. UID t = UID u \<longrightarrow> Generation t < Generation u)
     (snd (store_run (Store_Acquire hash_ops ''due:session:ownership'' (Some range_model) None None)
        (Store_Release hash_ops ''due:session:ownership'' None)
        [OpAcquire 7, OpAcquire 7, OpRelease 7 \<lparr>UID = 7, Generation = 1\<rparr>, OpAcquire 7] empty_redis))"
  by (rule conjunct1 [OF redis_generations_fence [OF redis.redis_hash_axioms redis.range_allocator_axioms empty_redis_inv]])
    (rule prod.collapse [symmetric])

text \<open>
  A gate on the Redis store binds a user only with the token the store holds as current, in every state the
  gate reaches while other gates acquire and release on the same server.
\<close>

lemma redis_gate_binding:
  fixes prefix alloc R
  defines "ops \<equiv> \<lparr>op_acquire = Store_Acquire R prefix (Some alloc) None None, op_current = Store_Current R prefix None,
     op_release = Store_Release R prefix None\<rparr>"
  assumes "redis_hash R" and "range_allocator alloc reserved" and "redis_inv R reserved prefix st0"
    and "gate_reachable ops (NewGate h (Some st0)) g" and "g_store g = Some st" and "bindSession ops g cid uid = (g', Ok t)"
  shows "UID t = uid \<and> IsCurrent (g_session g') t \<and> owner (g_session g') uid = Some cid \<and>
    (\<exists>st'. g_store g' = Some st' \<and> Store_Current R prefix None st' uid = Ok (Some t))"
proof -
  note S = redis_contract [OF assms(2,3), of prefix]
  have ops: "ownership_store.store_ops (Store_Acquire R prefix (Some alloc) None None) (Store_Current R prefix None)
      (Store_Release R prefix None) = ops"
    by (simp add: ownership_store.store_ops_def [OF S] ops_def)
  note inv = ownership_store.gate_reachable_inv [OF S, unfolded ops, OF assms(5) ownership_store.NewGate_inv [OF S]]
  show ?thesis
    using ownership_store.bindSession_store [OF S inv assms(6), unfolded ops, OF _ assms(7)] assms(4) by blast
qed

definition redis_ops :: "((string \<Rightarrow> string \<Rightarrow> string option) \<times> (int64, uint64) gomap) StoreOps" where
  "redis_ops = \<lparr>op_acquire = Store_Acquire hash_ops ''due:session:ownership'' (Some range_model) None None,
     op_current = Store_Current hash_ops ''due:session:ownership'' None, op_release = Store_Release hash_ops ''due:session:ownership'' None\<rparr>"

definition redis_gate :: "((string \<Rightarrow> string \<Rightarrow> string option) \<times> (int64, uint64) gomap) Gate" where
  "redis_gate =
     (let g = NewGate (\<lambda>_. \<lparr>c_id = 0, c_uid = 0, c_attr = []\<rparr>) (Some empty_redis)
      in handleConnect (g\<lparr>g_session := open_conn (g_session g) 0 5\<rparr>) 0)"

lemma redis_gate_reachable:
  "gate_reachable redis_ops (NewGate (\<lambda>_. \<lparr>c_id = 0, c_uid = 0, c_attr = []\<rparr>) (Some empty_redis)) redis_gate"
  unfolding redis_gate_def Let_def
  by (rule gr_step [OF gr_init gs_connect]) (simp_all add: NewGate_def registered_def NewSession_def)

lemma redis_gate_store: "g_store redis_gate = Some empty_redis"
  by (simp add: redis_gate_def Let_def handleConnect_def NewGate_def emit_event_def)

lemma first_acquire:
  "\<exists>st. Store_Acquire hash_ops prefix (Some range_model) None None empty_redis 77 = (st, Ok \<lparr>UID = 77, Generation = 1\<rparr>)"
proof -
  have z: "dec 0 = ''0''" using dec_zero by simp
  have d: "decodeRangeReply [''range'', ''0''] = Ok (0, True)" using decode_range [of 0] z by simp
  have o: "decodeRangeReply [''ok'', dec 1] = Ok (1, False)" using decode_ok [of 1] by simp
  have v: "lua_valid (dec 1)" "lua_valid (dec 1024)" "dec 1 \<noteq> ''0''" "lua_compare (dec 1) (dec 1024) = - 1" "lua_compare (dec 1) ''0'' = 1"
    using lua_compare_dec [of 1 0] z by (simp_all add: lua_valid_dec dec_zero lua_compare_dec)
  have m: "MaxInt64 \<noteq> 0" "min 1024 MaxInt64 = 1024" "\<not> MaxInt64 < 1024" "\<not> MaxInt64 \<le> 0"
    by (simp_all add: MaxInt64_def)
  show ?thesis
    by (simp add: Store_Acquire_def empty_redis_def acquireScript_def initializeRangeScript_def lua_state_def has_room_def d o v m
        range_model_def range_use_def FormatUint_def hash_ops_def Let_def gm_get0_def gm_get_def del: One_nat_def)
qed

lemma redis_gate_token: "Session_Token (g_session redis_gate) Conn 5 = Ok zero_token"
  and redis_gate_bind_token: "snd (BindToken (g_session redis_gate) 5 77 \<lparr>UID = 77, Generation = 1\<rparr>) = Ok ()"
  by code_simp+

lemma redis_gate_binds: "snd (bindSession redis_ops redis_gate 5 77) = Ok \<lparr>UID = 77, Generation = 1\<rparr>"
proof -
  obtain st where st: "op_acquire redis_ops empty_redis 77 = (st, Ok \<lparr>UID = 77, Generation = 1\<rparr>)"
    using first_acquire [of "''due:session:ownership''"] by (auto simp: redis_ops_def)
  obtain s where s: "BindToken (g_session redis_gate) 5 77 \<lparr>UID = 77, Generation = 1\<rparr> = (s, Ok ())"
    using redis_gate_bind_token by (metis prod.collapse)
  show ?thesis
    by (simp add: bindSession_def redis_gate_store redis_gate_token [unfolded kind_consts] st s zero_token_def Let_def)
qed

lemma redis_gate_binding_witness:
  "owner (g_session (fst (bindSession redis_ops redis_gate 5 77))) 77 = Some 5"
proof -
  have b: "bindSession redis_ops redis_gate 5 77 = (fst (bindSession redis_ops redis_gate 5 77), Ok \<lparr>UID = 77, Generation = 1\<rparr>)"
    using redis_gate_binds by (metis prod.collapse)
  show ?thesis
    using redis_gate_binding [OF redis.redis_hash_axioms redis.range_allocator_axioms empty_redis_inv
        redis_gate_reachable [unfolded redis_ops_def] redis_gate_store b [unfolded redis_ops_def]]
    by (simp add: redis_ops_def)
qed

end
