(* ===== verification/Redis_Race.thy ===== *)
theory Redis_Race
  imports Redis_Store
begin

text \<open>
  Concurrent acquisitions on the Redis store.  Each call of \<open>Acquire\<close> is cut where other clients can run in
  between: its first script, the reservation of a range by the allocator (with the lock of the user held until
  the callback has run), the script of the callback.  Scripts are atomic, as the server runs them.  Calls may be
  abandoned at any point, tokens released, and a whole hash may be lost, as after a failover of the
  server; the reservations of the allocator are durable.
\<close>

section \<open>Model\<close>

datatype acq_pc =
    AStart
  | ANeed uint64
  | AReserved uint64 uint64 uint64
  | ADone Token
  | AFailed

record 's RaceState =
  ra_redis :: 's
  ra_reserved :: "int64 \<Rightarrow> uint64"
  ra_calls :: "(int64 \<times> acq_pc) list"
  ra_log :: "Token list"

datatype race_action =
    Call int64 | RunAcquire nat | Reserve nat uint64 uint64 | Initialize nat | GiveUp nat
  | ReleaseToken int64 Token | LoseHash int64

definition set_call :: "'s RaceState \<Rightarrow> nat \<Rightarrow> int64 \<Rightarrow> acq_pc \<Rightarrow> 's RaceState" where
  "set_call st i uid pc = st\<lparr>ra_calls := (ra_calls st)[i := (uid, pc)]\<rparr>"

text \<open>The call returns a token.\<close>

definition hand_out :: "'s RaceState \<Rightarrow> nat \<Rightarrow> int64 \<Rightarrow> uint64 \<Rightarrow> 's RaceState" where
  "hand_out st i uid g =
     (let t = \<lparr>UID = uid, Generation = g\<rparr> in (set_call st i uid (ADone t))\<lparr>ra_log := ra_log st @ [t]\<rparr>)"

text \<open>The lock of the allocator on a user is held between the reservation and the end of the callback.\<close>

definition locked :: "'s RaceState \<Rightarrow> int64 \<Rightarrow> bool" where
  "locked st uid \<longleftrightarrow> (\<exists>c \<in> set (ra_calls st). case c of (u, AReserved _ _ _) \<Rightarrow> u = uid | _ \<Rightarrow> False)"

definition run_acquire :: "'s RedisOps \<Rightarrow> string \<Rightarrow> nat \<Rightarrow> int64 \<Rightarrow> 's RaceState \<Rightarrow> 's RaceState" where
  "run_acquire R prefix i uid st =
     (case acquireScript R (store_key prefix uid) (ra_redis st) of
        (s, Ok values) \<Rightarrow>
          let st = st\<lparr>ra_redis := s\<rparr>
          in (case decodeRangeReply values of
                Ok (g, needRange) \<Rightarrow>
                  if \<not> needRange then hand_out st i uid g
                  else if g = MaxInt64 then set_call st i uid AFailed
                  else set_call st i uid (ANeed g)
              | _ \<Rightarrow> set_call st i uid AFailed)
      | (s, _) \<Rightarrow> set_call (st\<lparr>ra_redis := s\<rparr>) i uid AFailed)"

definition run_initialize :: "'s RedisOps \<Rightarrow> string \<Rightarrow> nat \<Rightarrow> int64 \<Rightarrow> uint64 \<Rightarrow> uint64 \<Rightarrow> uint64 \<Rightarrow> 's RaceState \<Rightarrow> 's RaceState" where
  "run_initialize R prefix i uid floor start finish st =
     (case range_use R (store_key prefix uid) floor \<lparr>aq_redis = ra_redis st, aq_calls = 0, aq_generation = floor\<rparr> True start finish of
        (w, Ok _) \<Rightarrow>
          if aq_generation w = 0 then set_call (st\<lparr>ra_redis := aq_redis w\<rparr>) i uid AFailed
          else hand_out (st\<lparr>ra_redis := aq_redis w\<rparr>) i uid (aq_generation w)
      | (w, _) \<Rightarrow> set_call (st\<lparr>ra_redis := aq_redis w\<rparr>) i uid AFailed)"

definition lose_hash :: "'s RedisOps \<Rightarrow> string \<Rightarrow> 's \<Rightarrow> 's" where
  "lose_hash R k s = HDEL R (HDEL R (HDEL R s k ''generation'') k ''current'') k ''range_end''"

definition call_at :: "'s RaceState \<Rightarrow> nat \<Rightarrow> (int64 \<times> acq_pc) option" where
  "call_at st i = (if i < length (ra_calls st) then Some (ra_calls st ! i) else None)"

definition race_act :: "'s RedisOps \<Rightarrow> string \<Rightarrow> race_action \<Rightarrow> 's RaceState \<Rightarrow> 's RaceState option" where
  "race_act R prefix act st =
     (case act of
        Call uid \<Rightarrow> if sint uid \<le> 0 then None else Some (st\<lparr>ra_calls := ra_calls st @ [(uid, AStart)]\<rparr>)
      | RunAcquire i \<Rightarrow> (case call_at st i of Some (uid, AStart) \<Rightarrow> Some (run_acquire R prefix i uid st) | _ \<Rightarrow> None)
      | Reserve i start finish \<Rightarrow>
          (case call_at st i of
             Some (uid, ANeed floor) \<Rightarrow>
               if \<not> locked st uid \<and> floor < start \<and> ra_reserved st uid < start \<and> start \<le> finish
               then Some ((set_call st i uid (AReserved floor start finish))\<lparr>ra_reserved := (ra_reserved st)(uid := finish)\<rparr>)
               else None
           | _ \<Rightarrow> None)
      | Initialize i \<Rightarrow>
          (case call_at st i of
             Some (uid, AReserved floor start finish) \<Rightarrow> Some (run_initialize R prefix i uid floor start finish st)
           | _ \<Rightarrow> None)
      | GiveUp i \<Rightarrow> (case call_at st i of Some (uid, ADone _) \<Rightarrow> None | Some (uid, _) \<Rightarrow> Some (set_call st i uid AFailed) | None \<Rightarrow> None)
      | ReleaseToken uid t \<Rightarrow> Some (st\<lparr>ra_redis := fst (fst (Store_Release R prefix None (ra_redis st, ()) uid t))\<rparr>)
      | LoseHash uid \<Rightarrow> Some (st\<lparr>ra_redis := lose_hash R (store_key prefix uid) (ra_redis st)\<rparr>))"

text \<open>Runs that begin with no hash and no reservation.\<close>

inductive race_reachable :: "'s RedisOps \<Rightarrow> string \<Rightarrow> 's RaceState \<Rightarrow> bool" for R prefix where
  race_init: "(\<And>k f. HGET R s k f = None) \<Longrightarrow>
     race_reachable R prefix \<lparr>ra_redis = s, ra_reserved = (\<lambda>_. 0), ra_calls = [], ra_log = []\<rparr>"
| race_step: "race_reachable R prefix st \<Longrightarrow> race_act R prefix act st = Some st' \<Longrightarrow> race_reachable R prefix st'"

section \<open>Invariant\<close>

primrec newest :: "int64 \<Rightarrow> Token list \<Rightarrow> nat" where
  "newest uid [] = 0"
| "newest uid (t # ts) = (if UID t = uid then max (unat (Generation t)) (newest uid ts) else newest uid ts)"

lemma newest_append: "newest uid (ts @ us) = max (newest uid ts) (newest uid us)"
  by (induction ts) auto

lemma newest_in: "t \<in> set ts \<Longrightarrow> UID t = uid \<Longrightarrow> unat (Generation t) \<le> newest uid ts"
  by (induction ts) auto

definition hash_inv :: "ahash \<Rightarrow> uint64 \<Rightarrow> nat \<Rightarrow> bool" where
  "hash_inv h res m \<longleftrightarrow> ahash_ok h \<and> m \<le> unat res \<and>
     (case h of None \<Rightarrow> True
      | Some (n, c, l) \<Rightarrow> m \<le> n \<and> (c = None \<or> c = Some n) \<and> (\<exists>k. l = Some k \<and> k \<le> unat res))"

definition pending_inv :: "ahash \<Rightarrow> uint64 \<Rightarrow> nat \<Rightarrow> uint64 \<Rightarrow> uint64 \<Rightarrow> uint64 \<Rightarrow> bool" where
  "pending_inv h res m floor start finish \<longleftrightarrow>
     m < unat start \<and> floor < start \<and> start \<le> finish \<and> finish \<le> res \<and> (\<forall>l. lim_of h = Some l \<longrightarrow> l < unat start)"

abbreviation hash_of :: "'s RedisOps \<Rightarrow> string \<Rightarrow> 's RaceState \<Rightarrow> int64 \<Rightarrow> ahash" where
  "hash_of R prefix st uid \<equiv> hash_at R (ra_redis st) (store_key prefix uid)"

definition hashes_ok :: "'s RedisOps \<Rightarrow> string \<Rightarrow> 's RaceState \<Rightarrow> bool" where
  "hashes_ok R prefix st \<longleftrightarrow>
     (\<forall>uid. has_hash R (ra_redis st) (store_key prefix uid) (hash_of R prefix st uid) \<and>
        hash_inv (hash_of R prefix st uid) (ra_reserved st uid) (newest uid (ra_log st)))"

definition pendings_ok :: "'s RedisOps \<Rightarrow> string \<Rightarrow> 's RaceState \<Rightarrow> bool" where
  "pendings_ok R prefix st \<longleftrightarrow>
     (\<forall>i uid floor start finish. call_at st i = Some (uid, AReserved floor start finish) \<longrightarrow>
        pending_inv (hash_of R prefix st uid) (ra_reserved st uid) (newest uid (ra_log st)) floor start finish)"

fun reserving :: "acq_pc \<Rightarrow> bool" where
  "reserving (AReserved _ _ _) = True"
| "reserving _ = False"

definition unique_ok :: "'s RaceState \<Rightarrow> bool" where
  "unique_ok st \<longleftrightarrow> (\<forall>i j uid p q. call_at st i = Some (uid, p) \<and> call_at st j = Some (uid, q) \<and> reserving p \<and> reserving q \<longrightarrow> i = j)"

definition log_ok :: "'s RaceState \<Rightarrow> bool" where
  "log_ok st \<longleftrightarrow> sorted_wrt (\<lambda>t u. UID t = UID u \<longrightarrow> Generation t < Generation u) (ra_log st) \<and>
     (\<forall>i uid t. call_at st i = Some (uid, ADone t) \<longrightarrow> t \<in> set (ra_log st) \<and> UID t = uid) \<and>
     (\<forall>i uid pc. call_at st i = Some (uid, pc) \<longrightarrow> 0 < sint uid)"

definition race_inv :: "'s RedisOps \<Rightarrow> string \<Rightarrow> 's RaceState \<Rightarrow> bool" where
  "race_inv R prefix st \<longleftrightarrow> hashes_ok R prefix st \<and> pendings_ok R prefix st \<and> unique_ok st \<and> log_ok st"

lemma call_at_update: "call_at (st\<lparr>ra_redis := s, ra_calls := (ra_calls st)[i := x], ra_log := l\<rparr>) j =
    (if j = i \<and> i < length (ra_calls st) then Some x else call_at st j)"
  by (auto simp: call_at_def)

lemma call_at_frame [simp]: "call_at (st\<lparr>ra_redis := s\<rparr>) = call_at st" "call_at (st\<lparr>ra_reserved := f\<rparr>) = call_at st"
    "call_at (st\<lparr>ra_log := l\<rparr>) = call_at st"
  by (simp_all add: call_at_def fun_eq_iff)

lemma call_at_less: "call_at st i = Some x \<Longrightarrow> i < length (ra_calls st)"
  by (simp add: call_at_def split: if_splits)

text \<open>A step of a call that may change the hash of its user and may hand out a token.\<close>

lemma race_move:
  assumes inv: "race_inv R prefix st" and i: "call_at st i = Some (u, pc0)"
    and s: "same_others R (ra_redis st) s' (store_key prefix u)" "has_hash R s' (store_key prefix u) h"
    and h: "hash_inv h (ra_reserved st u) (newest u (ra_log st @ ts))"
    and ts: "ts = [] \<and> \<not> reserving pc \<and> (\<forall>t. pc \<noteq> ADone t) \<or>
      (\<exists>t. ts = [t] \<and> pc = ADone t \<and> UID t = u \<and> newest u (ra_log st) < unat (Generation t))"
    and p: "\<And>j f b e. j \<noteq> i \<Longrightarrow> call_at st j = Some (u, AReserved f b e) \<Longrightarrow> pending_inv h (ra_reserved st u) (newest u (ra_log st @ ts)) f b e"
  shows "race_inv R prefix (st\<lparr>ra_redis := s', ra_calls := (ra_calls st)[i := (u, pc)], ra_log := ra_log st @ ts\<rparr>)" (is "race_inv R prefix ?t")
proof -
  have i': "i < length (ra_calls st)" by (rule call_at_less [OF i])
  note c = call_at_update [where st = st and s = s' and i = i and x = "(u, pc)" and l = "ra_log st @ ts"]
  have hu: "hash_at R s' (store_key prefix u) = h" by (rule has_hash_at [OF s(2)])
  have other: "hash_at R s' (store_key prefix v) = hash_of R prefix st v" "newest v (ra_log st @ ts) = newest v (ra_log st)" if "v \<noteq> u" for v
    using others_at [OF s(1)] that ts by (auto simp: store_key_inj newest_append)
  have "hashes_ok R prefix ?t"
    unfolding hashes_ok_def
  proof
    fix v
    show "has_hash R (ra_redis ?t) (store_key prefix v) (hash_of R prefix ?t v) \<and> hash_inv (hash_of R prefix ?t v) (ra_reserved ?t v) (newest v (ra_log ?t))"
    proof (cases "v = u")
      case True
      then show ?thesis using s(2) h hu by simp
    next
      case False
      then show ?thesis
        using inv other [OF False] same_others_hash [OF s(1), of "store_key prefix v"] by (simp add: race_inv_def hashes_ok_def store_key_inj)
    qed
  qed
  moreover have "pendings_ok R prefix ?t"
    unfolding pendings_ok_def
  proof (intro allI impI)
    fix j v f b e
    assume j: "call_at ?t j = Some (v, AReserved f b e)"
    have ne: "j \<noteq> i" using j c ts i' by (auto split: if_splits)
    then have j': "call_at st j = Some (v, AReserved f b e)" using j c by simp
    show "pending_inv (hash_of R prefix ?t v) (ra_reserved ?t v) (newest v (ra_log ?t)) f b e"
    proof (cases "v = u")
      case True
      then show ?thesis using p [OF ne] j' hu by simp
    next
      case False
      then show ?thesis using inv other [OF False] j' by (simp add: race_inv_def pendings_ok_def)
    qed
  qed
  moreover have "\<not> reserving pc" using ts by auto
  then have "unique_ok ?t"
    using inv c by (auto simp: race_inv_def unique_ok_def split: if_splits)
  moreover have "log_ok ?t"
  proof -
    have "Generation t < Generation u'" if "t \<in> set (ra_log st)" "u' \<in> set ts" "UID t = UID u'" for t u'
      using ts that newest_in [OF that(1)] by (auto simp: word_less_nat_alt intro: le_less_trans)
    moreover have "0 < sint u" using inv i unfolding race_inv_def log_ok_def by blast
    ultimately show ?thesis
      using inv ts c unfolding race_inv_def log_ok_def by (auto simp: sorted_wrt_append split: if_splits)
  qed
  ultimately show ?thesis by (simp add: race_inv_def)
qed

lemma race_parts:
  assumes "race_inv R prefix st"
  shows "has_hash R (ra_redis st) (store_key prefix u) (hash_of R prefix st u)"
    "hash_inv (hash_of R prefix st u) (ra_reserved st u) (newest u (ra_log st))"
    "call_at st i = Some (u, AReserved f b e) \<Longrightarrow> pending_inv (hash_of R prefix st u) (ra_reserved st u) (newest u (ra_log st)) f b e"
    "call_at st i = Some (u, p) \<Longrightarrow> call_at st j = Some (u, q) \<Longrightarrow> reserving p \<Longrightarrow> reserving q \<Longrightarrow> i = j"
  using assms unfolding race_inv_def hashes_ok_def pendings_ok_def unique_ok_def by blast+

lemma same_others_refl: "same_others R s s k"
  by (simp add: same_others_def)

lemma race_stop:
  assumes inv: "race_inv R prefix st" and i: "call_at st i = Some (u, pc0)" and pc: "\<not> reserving pc" "\<And>t. pc \<noteq> ADone t"
  shows "race_inv R prefix (set_call st i u pc)"
proof -
  have "race_inv R prefix (st\<lparr>ra_redis := ra_redis st, ra_calls := (ra_calls st)[i := (u, pc)], ra_log := ra_log st @ []\<rparr>)"
    by (rule race_move [OF inv i same_others_refl race_parts(1) [OF inv]]) (use race_parts [OF inv] pc in auto)
  then show ?thesis by (simp add: set_call_def)
qed

text \<open>The hash after a script has issued generation \<open>n\<close>.\<close>

lemma issued_hash_inv:
  assumes "hash_inv h res m" and "gen_of h < n" "n \<le> l" "l < 2 ^ 63" "l \<le> unat res" and "h = None \<Longrightarrow> m < n" and "m' = m \<or> m' = n"
  shows "hash_inv (Some (n, Some n, Some l)) res m'"
  using assms by (cases h) (auto simp: hash_inv_def)

lemma newest_gen: "hash_inv h res m \<Longrightarrow> h \<noteq> None \<Longrightarrow> m \<le> gen_of h"
  by (auto simp: hash_inv_def)

lemma newest_one: "UID t = u \<Longrightarrow> newest u (ts @ [t]) = max (newest u ts) (unat (Generation t))"
  by (simp add: newest_append)

text \<open>A call ends with the token the server has issued, or without it.\<close>

lemma race_issue:
  assumes inv: "race_inv R prefix st" and i: "call_at st i = Some (u, pc0)"
    and s: "same_others R (ra_redis st) s' (store_key prefix u)" "has_hash R s' (store_key prefix u) (Some (n, Some n, Some l))"
    and n: "newest u (ra_log st) < n" "gen_of (hash_of R prefix st u) < n" "n \<le> l" "l < 2 ^ 63" "l \<le> unat (ra_reserved st u)"
    and p: "\<And>j f b e. j \<noteq> i \<Longrightarrow> call_at st j = Some (u, AReserved f b e) \<Longrightarrow> l < unat b"
  shows "race_inv R prefix (set_call (st\<lparr>ra_redis := s'\<rparr>) i u AFailed)"
    and "race_inv R prefix (hand_out (st\<lparr>ra_redis := s'\<rparr>) i u (of_nat n))"
proof -
  let ?t = "\<lparr>UID = u, Generation = of_nat n\<rparr> :: Token"
  have u: "unat (of_nat n :: uint64) = n" using n(3,4) unat_gen [of n] by simp
  have new: "newest u (ra_log st @ [?t]) = n" using n(1) u by (simp add: newest_one)
  have hi: "hash_inv (Some (n, Some n, Some l)) (ra_reserved st u) m'" if "m' = newest u (ra_log st) \<or> m' = n" for m'
    by (rule issued_hash_inv [OF race_parts(2) [OF inv] n(2-5) _ that]) (use n(1) in simp)
  have pi: "pending_inv (Some (n, Some n, Some l)) (ra_reserved st u) m' f b e"
    if "j \<noteq> i" "call_at st j = Some (u, AReserved f b e)" "m' = newest u (ra_log st) \<or> m' = n" for j f b e m'
    using race_parts(3) [OF inv that(2)] p [OF that(1,2)] that(3) n(3) by (auto simp: pending_inv_def)
  have "race_inv R prefix (st\<lparr>ra_redis := s', ra_calls := (ra_calls st)[i := (u, AFailed)], ra_log := ra_log st @ []\<rparr>)"
    by (rule race_move [OF inv i s]) (use hi pi in auto)
  then show "race_inv R prefix (set_call (st\<lparr>ra_redis := s'\<rparr>) i u AFailed)" by (simp add: set_call_def)
  have "race_inv R prefix (st\<lparr>ra_redis := s', ra_calls := (ra_calls st)[i := (u, ADone ?t)], ra_log := ra_log st @ [?t]\<rparr>)"
    by (rule race_move [OF inv i s]) (use hi pi new u n(1) in auto)
  then show "race_inv R prefix (hand_out (st\<lparr>ra_redis := s'\<rparr>) i u (of_nat n))"
    by (simp add: hand_out_def set_call_def Let_def)
qed

context redis_hash
begin

lemma use_race:
  assumes h: "has_hash R s k h" "ahash_ok h" and f: "floor < start" "start \<le> finish" and g: "\<not> room h \<Longrightarrow> gen_of h < unat start"
    and use: "range_use R k floor \<lparr>aq_redis = s, aq_calls = 0, aq_generation = floor\<rparr> True start finish = (w, m)"
  shows "aq_redis w = s \<and> \<not> is_ok m \<or>
    (\<exists>n l. has_hash R (aq_redis w) k (Some (n, Some n, Some l)) \<and> same_others R s (aq_redis w) k \<and> gen_of h < n \<and> n \<le> l \<and> l < 2 ^ 63 \<and>
       (if room h then lim_of h = Some l else n = unat start \<and> l = unat finish) \<and> (is_ok m \<longrightarrow> aq_generation w = of_nat n))"
proof (cases "MaxInt64 < finish")
  case True
  then show ?thesis using use by (auto simp: range_use_def)
next
  case False
  have nz: "start \<noteq> 0" "\<not> start \<le> floor" "\<not> finish < start" using f by auto
  have b: "unat start \<le> unat finish" "unat finish < 2 ^ 63"
    using f False MaxInt64_unat by (simp_all add: word_less_nat_alt word_le_nat_alt)
  obtain n l s' where s': "initializeRangeScript R k (dec (unat start)) (dec (unat finish)) s = (s', Ok [''ok'', dec n])"
      "has_hash R s' k (Some (n, Some n, Some l))" "same_others R s s' k" "gen_of h < n" "n \<le> l" "l < 2 ^ 63"
      "if room h then lim_of h = Some l else n = unat start \<and> l = unat finish"
  proof (cases "room h")
    case True
    obtain l where l: "lim_of h = Some l" "gen_of h < l" "l < 2 ^ 63"
      using True h(2) by (cases h rule: ahash_ok.cases) (auto split: option.splits)
    show ?thesis
      using advance_hash [OF h True] initialize_hash(1) [OF h True] l True by (auto intro: that [of _ "gen_of h + 1" l])
  next
    case False
    show ?thesis
      using initialize_hash(2) [OF h False g [OF False] b] False b g by (auto intro: that [of _ "unat start" "unat finish"])
  qed
  have "decodeRangeReply [''ok'', dec n] = Ok (of_nat n, False)"
    using decode_ok [of n] s'(4-6) by simp
  then have "aq_redis w = s'" "aq_generation w = of_nat n"
    using use False nz s'(1) by (auto simp: range_use_def FormatUint_def Let_def)
  then show ?thesis using s'(2-7) by metis
qed

end

text \<open>Changes of the server by others: a released token, a lost hash.\<close>

lemma race_redis:
  assumes inv: "race_inv R prefix st" and s: "same_others R (ra_redis st) s' (store_key prefix u)" "has_hash R s' (store_key prefix u) h"
    and h: "hash_inv h (ra_reserved st u) (newest u (ra_log st))" "\<And>l. lim_of h = Some l \<Longrightarrow> lim_of (hash_of R prefix st u) = Some l"
  shows "race_inv R prefix (st\<lparr>ra_redis := s'\<rparr>)"
proof -
  have hu: "hash_at R s' (store_key prefix u) = h" by (rule has_hash_at [OF s(2)])
  have other: "hash_at R s' (store_key prefix v) = hash_of R prefix st v" if "v \<noteq> u" for v
    using others_at [OF s(1)] that by (simp add: store_key_inj)
  have "has_hash R s' (store_key prefix v) (hash_at R s' (store_key prefix v)) \<and>
      hash_inv (hash_at R s' (store_key prefix v)) (ra_reserved st v) (newest v (ra_log st))" for v
    using race_parts(1,2) [OF inv, of v] s h(1) hu other [of v] same_others_hash [OF s(1), of "store_key prefix v"]
    by (cases "v = u") (simp_all add: store_key_inj)
  moreover have "pending_inv (hash_at R s' (store_key prefix v)) (ra_reserved st v) (newest v (ra_log st)) f b e"
    if "call_at st j = Some (v, AReserved f b e)" for j v f b e
    using race_parts(3) [OF inv that] h(2) hu other [of v] by (cases "v = u") (auto simp: pending_inv_def)
  ultimately show ?thesis
    using inv by (simp add: race_inv_def hashes_ok_def pendings_ok_def unique_ok_def log_ok_def)
qed

lemma race_reserve:
  assumes inv: "race_inv R prefix st" and i: "call_at st i = Some (u, ANeed floor)" and free: "\<not> locked st u"
    and b: "floor < start" "ra_reserved st u < start" "start \<le> finish"
  shows "race_inv R prefix ((set_call st i u (AReserved floor start finish))\<lparr>ra_reserved := (ra_reserved st)(u := finish)\<rparr>)" (is "race_inv R prefix ?t")
proof -
  have i': "i < length (ra_calls st)" by (rule call_at_less [OF i])
  have c: "call_at (set_call st i u (AReserved floor start finish)) j = (if j = i then Some (u, AReserved floor start finish) else call_at st j)" for j
    using i' by (auto simp: set_call_def call_at_def)
  have fr: "ra_redis ?t = ra_redis st" "ra_log ?t = ra_log st" "ra_reserved ?t = (ra_reserved st)(u := finish)"
    by (simp_all add: set_call_def)
  have no: "call_at st j \<noteq> Some (u, AReserved f s e)" for j f s e
  proof
    assume "call_at st j = Some (u, AReserved f s e)"
    then have "(u, AReserved f s e) \<in> set (ra_calls st)" by (metis call_at_def nth_mem option.distinct(1) option.inject)
    then show False using free by (fastforce simp: locked_def)
  qed
  have res: "ra_reserved st u \<le> finish" using b(2,3) by (meson less_imp_le order_trans)
  have grow: "hash_inv h r m \<Longrightarrow> r \<le> r' \<Longrightarrow> hash_inv h r' m" for h r r' m
    by (auto simp: hash_inv_def word_le_nat_alt intro: order_trans split: option.splits)
  note d = race_parts [OF inv, where u = u]
  have "pending_inv (hash_of R prefix st u) finish (newest u (ra_log st)) floor start finish"
    using d(2) b by (auto simp: pending_inv_def hash_inv_def word_less_nat_alt split: option.splits)
  moreover have "hash_inv (hash_of R prefix st u) finish (newest u (ra_log st))"
    by (rule grow [OF d(2) res])
  moreover have "reserving p \<Longrightarrow> call_at st j \<noteq> Some (u, p)" for j p
    using no by (cases p) auto
  ultimately have "hashes_ok R prefix ?t" "pendings_ok R prefix ?t" "unique_ok ?t"
    using inv no unfolding race_inv_def hashes_ok_def pendings_ok_def unique_ok_def fr by (auto simp: c split: if_splits)
  moreover have "0 < sint u" using inv i unfolding race_inv_def log_ok_def by blast
  then have "log_ok ?t"
    using inv unfolding race_inv_def log_ok_def fr by (auto simp: c split: if_splits)
  ultimately show ?thesis by (simp add: race_inv_def)
qed

lemma race_call:
  assumes inv: "race_inv R prefix st" and u: "0 < sint u"
  shows "race_inv R prefix (st\<lparr>ra_calls := ra_calls st @ [(u, AStart)]\<rparr>)" (is "race_inv R prefix ?t")
proof -
  have c: "call_at ?t j = (if j = length (ra_calls st) then Some (u, AStart) else call_at st j)" for j
    by (auto simp: call_at_def nth_append)
  show ?thesis
    using inv u unfolding race_inv_def hashes_ok_def pendings_ok_def unique_ok_def log_ok_def
    by (auto simp: c split: if_splits)
qed

context redis_hash
begin

lemma race_run_acquire:
  assumes inv: "race_inv R prefix st" and i: "call_at st i = Some (u, AStart)"
  shows "race_inv R prefix (run_acquire R prefix i u st)"
proof -
  let ?h = "hash_of R prefix st u" and ?k = "store_key prefix u"
  note d = race_parts [OF inv]
  have ok: "ahash_ok ?h" using d(2) [of u] by (simp add: hash_inv_def)
  have g: "gen_of ?h < 2 ^ 63" using ok by (cases ?h rule: ahash_ok.cases) auto
  show ?thesis
  proof (cases "room ?h")
    case True
    obtain l where l: "lim_of ?h = Some l" "gen_of ?h < l" using True by (auto split: option.splits)
    have hn: "?h \<noteq> None" using l(1) by (metis lim_of.simps(1) option.distinct(1))
    have b: "l < 2 ^ 63" "l \<le> unat (ra_reserved st u)" "newest u (ra_log st) \<le> gen_of ?h"
      using d(2) [of u] l(1) hn by (auto simp: hash_inv_def)
    let ?n = "gen_of ?h + 1"
    obtain s' where s': "lua_advance R ?k (ra_redis st) = (s', Ok [''ok'', dec ?n])"
        "has_hash R s' ?k (Some (?n, Some ?n, Some l))" "same_others R (ra_redis st) s' ?k"
      using advance_hash [OF d(1) ok True] l by auto
    have "run_acquire R prefix i u st = hand_out (st\<lparr>ra_redis := s'\<rparr>) i u (of_nat ?n)"
      using decode_ok [of ?n] l b s'(1) acquire_hash(2) [OF d(1) ok True] by (simp add: run_acquire_def del: of_nat_add)
    moreover have "race_inv R prefix (hand_out (st\<lparr>ra_redis := s'\<rparr>) i u (of_nat ?n))"
    proof (rule race_issue(2) [OF inv i s'(3,2)])
      show "l < unat b" if "call_at st j = Some (u, AReserved f b e)" for j f b e
        using d(3) [OF that] l(1) by (simp add: pending_inv_def)
    qed (use l b in simp_all)
    ultimately show ?thesis by simp
  next
    case False
    then have "run_acquire R prefix i u st \<in> {set_call st i u AFailed, set_call st i u (ANeed (of_nat (gen_of ?h)))}"
      using acquire_hash(1) [OF d(1) ok False] decode_range [OF g] by (simp add: run_acquire_def)
    then show ?thesis using race_stop [OF inv i] by auto
  qed
qed

lemma race_run_initialize:
  assumes inv: "race_inv R prefix st" and i: "call_at st i = Some (u, AReserved floor start finish)"
  shows "race_inv R prefix (run_initialize R prefix i u floor start finish st)"
proof -
  let ?h = "hash_of R prefix st u" and ?k = "store_key prefix u"
  note d = race_parts [OF inv]
  have ok: "ahash_ok ?h" using d(2) [of u] by (simp add: hash_inv_def)
  have p: "newest u (ra_log st) < unat start" "floor < start" "start \<le> finish" "finish \<le> ra_reserved st u"
      "\<And>l. lim_of ?h = Some l \<Longrightarrow> l < unat start"
    using d(3) [OF i] by (simp_all add: pending_inv_def)
  have gs: "gen_of ?h < unat start"
  proof (cases "?h" rule: ahash_ok.cases)
    case 1
    then show ?thesis using p(1) by simp
  next
    case (2 n c l)
    then show ?thesis using ok p(5) d(2) [of u] by (auto simp: hash_inv_def intro: le_less_trans)
  qed
  obtain w m where use: "range_use R ?k floor \<lparr>aq_redis = ra_redis st, aq_calls = 0, aq_generation = floor\<rparr> True start finish = (w, m)"
    by fastforce
  from use_race [OF d(1) ok p(2,3) gs use] show ?thesis
  proof (elim disjE)
    assume "aq_redis w = ra_redis st \<and> \<not> is_ok m"
    then have "run_initialize R prefix i u floor start finish st = set_call st i u AFailed"
      using use by (cases m) (simp_all add: run_initialize_def)
    then show ?thesis using race_stop [OF inv i] by simp
  next
    assume "\<exists>n l. has_hash R (aq_redis w) ?k (Some (n, Some n, Some l)) \<and> same_others R (ra_redis st) (aq_redis w) ?k \<and> gen_of ?h < n \<and>
       n \<le> l \<and> l < 2 ^ 63 \<and> (if room ?h then lim_of ?h = Some l else n = unat start \<and> l = unat finish) \<and> (is_ok m \<longrightarrow> aq_generation w = of_nat n)"
    then obtain n l where e: "has_hash R (aq_redis w) ?k (Some (n, Some n, Some l))" "same_others R (ra_redis st) (aq_redis w) ?k" "gen_of ?h < n"
       "n \<le> l" "l < 2 ^ 63" "if room ?h then lim_of ?h = Some l else n = unat start \<and> l = unat finish" "is_ok m \<longrightarrow> aq_generation w = of_nat n"
      by blast
    have l: "l \<le> unat (ra_reserved st u)" and n: "newest u (ra_log st) < n"
    proof -
      have "lim_of ?h = Some l \<Longrightarrow> l \<le> unat (ra_reserved st u) \<and> newest u (ra_log st) \<le> gen_of ?h"
        using d(2) [of u] by (cases ?h rule: ahash_ok.cases) (auto simp: hash_inv_def)
      then show "l \<le> unat (ra_reserved st u)" "newest u (ra_log st) < n"
        using e(3,6) p(1,4) by (cases "room ?h"; simp del: room.simps add: word_le_nat_alt)+
    qed
    have un: "l < unat b" if "j \<noteq> i" "call_at st j = Some (u, AReserved f b e)" for j f b e
      using d(4) [OF i that(2)] that(1) by simp
    note ri = race_issue [OF inv i e(2,1) n e(3-5) l un]
    have "run_initialize R prefix i u floor start finish st \<in>
        {set_call (st\<lparr>ra_redis := aq_redis w\<rparr>) i u AFailed, hand_out (st\<lparr>ra_redis := aq_redis w\<rparr>) i u (of_nat n)}"
      using use e(7) by (cases m) (simp_all add: run_initialize_def)
    then show ?thesis using ri by auto
  qed
qed

end

context redis_hash
begin

lemma race_release:
  assumes inv: "race_inv R prefix st"
  shows "race_inv R prefix (st\<lparr>ra_redis := HDEL R (ra_redis st) (store_key prefix u) ''current''\<rparr>)"
proof -
  let ?h = "hash_of R prefix st u" and ?s = "HDEL R (ra_redis st) (store_key prefix u) ''current''"
  let ?g = "map_option (\<lambda>(n, c, l). (n, None, l)) ?h"
  note d = race_parts [OF inv, where u = u]
  have "same_others R (ra_redis st) ?s (store_key prefix u)" by (simp add: same_others_def hget_hdel)
  moreover have "has_hash R ?s (store_key prefix u) ?g" "hash_inv ?g (ra_reserved st u) (newest u (ra_log st))" "lim_of ?g = lim_of ?h"
    using d(1,2) by (cases ?h rule: ahash_ok.cases; simp add: hget_hdel hash_inv_def)+
  ultimately show ?thesis by (intro race_redis [OF inv, where u = u and h = ?g]) simp_all
qed

lemma race_lose:
  assumes inv: "race_inv R prefix st"
  shows "race_inv R prefix (st\<lparr>ra_redis := lose_hash R (store_key prefix u) (ra_redis st)\<rparr>)"
  by (rule race_redis [OF inv, where u = u and h = None])
    (use race_parts(2) [OF inv, of u] in \<open>simp_all add: lose_hash_def hget_hdel same_others_def hash_inv_def\<close>)

lemma race_inv_act:
  assumes inv: "race_inv R prefix st" and act: "race_act R prefix act st = Some st'"
  shows "race_inv R prefix st'"
proof (cases act)
  case (Call uid)
  then show ?thesis using act race_call [OF inv] by (auto simp: race_act_def split: if_splits)
next
  case (RunAcquire i)
  then show ?thesis using act race_run_acquire [OF inv] by (auto simp: race_act_def split: option.splits acq_pc.splits)
next
  case (Reserve i start finish)
  then show ?thesis using act race_reserve [OF inv] by (auto simp: race_act_def split: option.splits acq_pc.splits if_splits)
next
  case (Initialize i)
  then show ?thesis using act race_run_initialize [OF inv] by (auto simp: race_act_def split: option.splits acq_pc.splits)
next
  case (GiveUp i)
  then obtain uid pc where "call_at st i = Some (uid, pc)" "st' = set_call st i uid AFailed"
    using act by (auto simp: race_act_def split: option.splits acq_pc.splits)
  then show ?thesis using race_stop [OF inv] by simp
next
  case (ReleaseToken uid t)
  then have "st' = st\<lparr>ra_redis := ra_redis st\<rparr> \<or> st' = st\<lparr>ra_redis := HDEL R (ra_redis st) (store_key prefix uid) ''current''\<rparr>"
    using act by (auto simp: race_act_def Store_Release_def releaseScript_def)
  then show ?thesis using race_release [OF inv] inv by auto
next
  case (LoseHash uid)
  then show ?thesis using act race_lose [OF inv] by (auto simp: race_act_def)
qed

lemma race_inv_reachable: "race_reachable R prefix st \<Longrightarrow> race_inv R prefix st"
proof (induction rule: race_reachable.induct)
  case (race_init s)
  then show ?case
    by (simp add: race_inv_def hashes_ok_def pendings_ok_def unique_ok_def log_ok_def call_at_def hash_at_def hash_inv_def)
next
  case (race_step st act st')
  then show ?case using race_inv_act by blast
qed

lemma current_newest:
  assumes inv: "race_inv R prefix st" and cur: "Store_Current R prefix None (ra_redis st, a) uid = Ok (Some t)"
  shows "newest uid (ra_log st) \<le> unat (Generation t)"
proof -
  let ?h = "hash_of R prefix st uid"
  note d = race_parts [OF inv, where u = uid]
  have "HGET R (ra_redis st) (store_key prefix uid) ''current'' = Some (FormatUint (Generation t))"
    using cur by (auto simp: Store_Current_def split: if_splits option.splits res.splits)
  then have "?h = Some (n, c, l) \<Longrightarrow> c = Some (unat (Generation t))" for n c l
    using d(1) by (cases c) (auto simp: FormatUint_def dec_inj)
  moreover have "?h \<noteq> None" using d(1) \<open>HGET R _ _ _ = Some _\<close> by (cases ?h) auto
  ultimately show ?thesis
    using d(2) by (auto simp: hash_inv_def)
qed

end

section \<open>Property\<close>

text \<open>
  C20: No interleaving of acquisitions on the Redis store, abandoned ones included, with releases and losses of whole
  hashes hands out a generation twice: the tokens handed out for a user carry strictly increasing generations
  in the order the server issued them, every call that returned a token returned one of these, and a token
  that the server reports as current is no older than any token handed out for its user.
\<close>

theorem generations_survive_loss:
  assumes "redis_hash R" and "race_reachable R prefix st"
  shows "sorted_wrt (\<lambda>t u. UID t = UID u \<longrightarrow> Generation t < Generation u) (ra_log st) \<and>
    (\<forall>i uid t. call_at st i = Some (uid, ADone t) \<longrightarrow> t \<in> set (ra_log st) \<and> UID t = uid) \<and>
    (\<forall>uid t u. Store_Current R prefix None (ra_redis st, ()) uid = Ok (Some t) \<and> u \<in> set (ra_log st) \<and> UID u = uid \<longrightarrow>
      Generation u \<le> Generation t)"
proof -
  note inv = redis_hash.race_inv_reachable [OF assms]
  have "Generation u \<le> Generation t" if "Store_Current R prefix None (ra_redis st, ()) uid = Ok (Some t)" "u \<in> set (ra_log st)" "UID u = uid" for uid t u
    using newest_in [OF that(2,3)] redis_hash.current_newest [OF assms(1) inv that(1)] by (simp add: word_le_nat_alt)
  then show ?thesis using inv by (auto simp: race_inv_def log_ok_def)
qed

primrec run_race :: "'s RedisOps \<Rightarrow> string \<Rightarrow> race_action list \<Rightarrow> 's RaceState \<Rightarrow> 's RaceState option" where
  "run_race R prefix [] st = Some st"
| "run_race R prefix (a # as) st = (case race_act R prefix a st of None \<Rightarrow> None | Some st \<Rightarrow> run_race R prefix as st)"

lemma run_race_reachable: "race_reachable R prefix st \<Longrightarrow> run_race R prefix as st = Some st' \<Longrightarrow> race_reachable R prefix st'"
  by (induction "as" arbitrary: st) (auto split: option.splits intro: race_step)

text \<open>A call gets generation 1, the hash is lost, and the next call gets the first generation of a new range.\<close>

definition loss_run :: "race_action list" where
  "loss_run = [Call 7, RunAcquire 0, Reserve 0 1 1024, Initialize 0, LoseHash 7, Call 7, RunAcquire 1, Reserve 1 1025 2048, Initialize 1]"

definition race_start :: "(string \<Rightarrow> string \<Rightarrow> string option) RaceState" where
  "race_start = \<lparr>ra_redis = (\<lambda>_ _. None), ra_reserved = (\<lambda>_. 0), ra_calls = [], ra_log = []\<rparr>"

lemma race_start_reachable: "race_reachable hash_ops prefix race_start"
  unfolding race_start_def by (rule race_init) (simp add: hash_ops_def)

lemma loss_run_ends:
  "\<exists>st. run_race hash_ops prefix loss_run race_start = Some st \<and> ra_log st = [\<lparr>UID = 7, Generation = 1\<rparr>, \<lparr>UID = 7, Generation = 1025\<rparr>]"
proof -
  have z: "dec 0 = ''0''" using dec_zero by simp
  have d: "decodeRangeReply [''range'', ''0''] = Ok (0, True)" using decode_range [of 0] z by simp
  have o: "decodeRangeReply [''ok'', dec (Suc 0)] = Ok (1, False)" "decodeRangeReply [''ok'', dec 1025] = Ok (1025, False)"
    using decode_ok [of 1] decode_ok [of 1025] by simp_all
  have c: "lua_compare (dec (Suc 0)) ''0'' = 1" "lua_compare (dec 1025) ''0'' = 1"
    using lua_compare_dec [of 1 0] lua_compare_dec [of 1025 0] z by simp_all
  have m: "MaxInt64 \<noteq> 0" "\<not> MaxInt64 < 1024" "\<not> MaxInt64 < 2048"
    by (simp_all add: MaxInt64_def)
  show ?thesis
    by (simp add: loss_run_def race_start_def race_act_def run_acquire_def run_initialize_def hand_out_def set_call_def locked_def call_at_def
        acquireScript_def initializeRangeScript_def lua_state_def has_room_def d o c m lua_valid_dec lua_compare_dec dec_zero
        range_use_def FormatUint_def hash_ops_def lose_hash_def Let_def)
qed

theorem generations_survive_loss_witness:
  "\<exists>st. run_race hash_ops ''due:session:ownership'' loss_run race_start = Some st \<and> length (ra_log st) = 2 \<and>
     sorted_wrt (\<lambda>t u. UID t = UID u \<longrightarrow> Generation t < Generation u) (ra_log st)"
proof -
  obtain st where st: "run_race hash_ops ''due:session:ownership'' loss_run race_start = Some st"
      "ra_log st = [\<lparr>UID = 7, Generation = 1\<rparr>, \<lparr>UID = 7, Generation = 1025\<rparr>]"
    using loss_run_ends [of "''due:session:ownership''"] by auto
  have "race_reachable hash_ops ''due:session:ownership'' st"
    by (rule run_race_reachable [OF race_start_reachable st(1)])
  from generations_survive_loss [OF redis.redis_hash_axioms this] show ?thesis
    using st by simp
qed

end
