(* ===== verification/Ws_Conn.thy ===== *)
theory Ws_Conn
  imports Go_Prelude Tally
begin

text \<open>
  The server side of a websocket connection (\<open>network/ws/server_conn.go\<close>, \<open>def.go\<close>): its state, its two write
  queues with the byte budget they share with the other connections of the gate, and the goroutines that
  use it.  A goroutine is a program counter; it stops where others can run in between: at atomic
  operations, at channel operations and when it takes the lock.  What happens under the write lock is one
  step; goroutines that block on a channel with the read lock held keep the write lock from being taken.
\<close>

section \<open>Write budget\<close>

record writeQueueBudget =
  maxBytes :: int
  highReserveBytes :: int
  queuedBytes :: int
  lowPriorityBytes :: int

definition newWriteQueueBudget :: "int \<Rightarrow> int \<Rightarrow> writeQueueBudget" where
  "newWriteQueueBudget m h =
     (let m = (if m < 0 then 0 else m); h = (if h < 0 then 0 else h); h = (if 0 < m \<and> m < h then m else h)
      in \<lparr>maxBytes = m, highReserveBytes = h, queuedBytes = 0, lowPriorityBytes = 0\<rparr>)"

definition budget_reserve :: "writeQueueBudget \<Rightarrow> int \<Rightarrow> bool \<Rightarrow> writeQueueBudget option" where
  "budget_reserve b n lowPriority =
     (if maxBytes b \<le> 0 \<or> n \<le> 0 then Some b
      else if maxBytes b - queuedBytes b < n then None
      else if lowPriority \<and> maxBytes b - highReserveBytes b - lowPriorityBytes b < n then None
      else Some (b\<lparr>queuedBytes := queuedBytes b + n,
                   lowPriorityBytes := (if lowPriority then lowPriorityBytes b + n else lowPriorityBytes b)\<rparr>))"

definition budget_release :: "writeQueueBudget \<Rightarrow> int \<Rightarrow> bool \<Rightarrow> writeQueueBudget" where
  "budget_release b n lowPriority =
     (if maxBytes b \<le> 0 \<or> n \<le> 0 then b
      else b\<lparr>queuedBytes := (if queuedBytes b \<le> n then 0 else queuedBytes b - n),
             lowPriorityBytes :=
               (if lowPriority then (if lowPriorityBytes b \<le> n then 0 else lowPriorityBytes b - n) else lowPriorityBytes b)\<rparr>)"

section \<open>Connections\<close>

datatype conn_state = ConnOpened | ConnHanged | ConnClosed

datatype task_type = closeSig | dataPacket | heartbeatPacket

record task =
  t_typ :: task_type
  t_msg :: "byte list"
  t_bytes :: nat
  t_low :: bool

record ws_opts =
  writeTimeout :: bool
  writeQueueSize :: nat
  slowLimit :: int
  heartbeats :: bool
  tickMode :: bool

text \<open>
  The four channels are closed together (\<open>chansClosed\<close>); \<open>hasConn\<close> tells that \<open>c.conn\<close> is not nil.  \<open>written\<close> are
  the tasks the socket has taken, \<open>accepted\<close> those a queue has taken; \<open>mark\<close> is the number of low priority tasks
  accepted before the close signal, \<open>otherBytes\<close> and \<open>otherLow\<close> what the other connections hold of the budget.
\<close>

record ws_conn =
  cstate :: conn_state
  hasConn :: bool
  highPriorityQueue :: "task list"
  lowPriorityQueue :: "task list"
  chansClosed :: bool
  enqueueTimeouts :: int
  budget :: writeQueueBudget
  otherBytes :: nat
  otherLow :: nat
  written :: "task list"
  accepted :: "task list"
  mark :: "nat option"
  received :: "byte list list"
  socketCloses :: nat
  disconnects :: nat
  recycles :: nat
  panicked :: bool

datatype sender = KSend | KPush | KBeat

datatype wpc =
    XStart sender "byte list" | XLock sender "byte list" | XQueue sender task | XTimeout sender | XEnd "unit res"
  | GStart | GLock | GSend | GWait | GCas
  | FStart | FSecond | DLock bool | DDiscard bool | DSocket bool | DHandler bool | DRecycle bool | CEnd bool "unit res"
  | WBegin | WOuter | WInner | WGot task | WDone | WWrite task | WExit
  | RBegin | RRead

text \<open>Which branch a step takes when the code leaves it to the clock, the network or the choice of \<open>select\<close>.\<close>

datatype choice = Go | Timeout | TakeLow | Tick bool | Fail | Text | Skip | Beat "byte list" | Msg "byte list"

definition close_task :: task where
  "close_task = \<lparr>t_typ = closeSig, t_msg = [], t_bytes = 0, t_low = False\<rparr>"

definition queue_of :: "bool \<Rightarrow> ws_conn \<Rightarrow> task list" where
  "queue_of low c = (if low then lowPriorityQueue c else highPriorityQueue c)"

definition set_queue :: "bool \<Rightarrow> task list \<Rightarrow> ws_conn \<Rightarrow> ws_conn" where
  "set_queue low q c = (if low then c\<lparr>lowPriorityQueue := q\<rparr> else c\<lparr>highPriorityQueue := q\<rparr>)"

definition doRecycleToPool :: "task \<Rightarrow> ws_conn \<Rightarrow> ws_conn" where
  "doRecycleToPool t c = c\<lparr>budget := budget_release (budget c) (int (t_bytes t)) (t_low t)\<rparr>"

definition lane :: "bool \<Rightarrow> task list \<Rightarrow> task list" where
  "lane low ts = filter (\<lambda>t. t_low t = low \<and> t_typ t \<noteq> closeSig) ts"

definition lowAccepted :: "ws_conn \<Rightarrow> nat" where
  "lowAccepted c = length (lane True (accepted c))"

text \<open>The reader goes on after a heartbeat, whatever became of it.\<close>

definition send_end :: "sender \<Rightarrow> unit res \<Rightarrow> wpc" where
  "send_end k r = (if k = KBeat then RRead else XEnd r)"

definition checkState :: "ws_conn \<Rightarrow> unit res" where
  "checkState c = (case cstate c of ConnHanged \<Rightarrow> Err ErrConnectionHanged | ConnClosed \<Rightarrow> Err ErrConnectionClosed | ConnOpened \<Rightarrow> Ok ())"

definition isClosed :: "ws_conn \<Rightarrow> bool" where
  "isClosed c \<longleftrightarrow> cstate c = ConnClosed"

definition panic :: "ws_conn \<Rightarrow> (ws_conn \<times> wpc) option" where
  "panic c = Some (c\<lparr>panicked := True\<rparr>, XEnd Panic)"

text \<open>\<open>Send\<close>, \<open>Push\<close> and the heartbeat responses of the reader.\<close>

definition doWriteToQueue :: "sender \<Rightarrow> byte list \<Rightarrow> ws_conn \<Rightarrow> (ws_conn \<times> task) option" where
  "doWriteToQueue k m c =
     (let lowPriority = (k = KPush); n = length m
      in map_option
           (\<lambda>b. (c\<lparr>budget := b\<rparr>,
                 \<lparr>t_typ = (if k = KBeat then heartbeatPacket else dataPacket), t_msg = m, t_bytes = n, t_low = lowPriority\<rparr>))
           (budget_reserve (budget c) (int n) lowPriority))"

text \<open>The rest of \<open>doWriteToQueue\<close>: the task goes into its queue, or the timeout is over first.\<close>

definition enqueue :: "ws_opts \<Rightarrow> choice \<Rightarrow> sender \<Rightarrow> task \<Rightarrow> ws_conn \<Rightarrow> (ws_conn \<times> wpc) option" where
  [simp]: "enqueue ops ch k t c =
     (if ch = Timeout then
        (if writeTimeout ops then Some (doRecycleToPool t c, XTimeout k) else None)
      else if chansClosed c then panic c
      else if length (queue_of (t_low t) c) < writeQueueSize ops
      then Some ((set_queue (t_low t) (queue_of (t_low t) c @ [t]) c)
                   \<lparr>accepted := accepted c @ [t], enqueueTimeouts := (if k = KPush then 0 else enqueueTimeouts c)\<rparr>, send_end k (Ok ()))
      else None)"

fun send_step :: "ws_opts \<Rightarrow> choice \<Rightarrow> wpc \<Rightarrow> ws_conn \<Rightarrow> (ws_conn \<times> wpc) option" where
  "send_step ops ch (XStart k m) c =
     Some (c, case checkState c of Ok _ \<Rightarrow> XLock k m | r \<Rightarrow> XEnd r)"
| "send_step ops ch (XLock k m) c =
     (if \<not> hasConn c then Some (c, send_end k (Err ErrConnectionClosed))
      else (case doWriteToQueue k m c of
              None \<Rightarrow> Some (c, send_end k (Err (ErrOther ''websocket write queue byte budget exceeded'')))
            | Some (c, t) \<Rightarrow> Some (c, XQueue k t)))"
| "send_step ops ch (XQueue k t) c = enqueue ops ch k t c"
| "send_step ops ch (XTimeout k) c =
     (case k of
        KBeat \<Rightarrow> Some (c, RRead)
      | KSend \<Rightarrow> Some (c, if isClosed c then XEnd (Err (ErrOther ''deadline exceeded'')) else FStart)
      | KPush \<Rightarrow>
          if slowLimit ops \<le> 0 then Some (c, XEnd (Err (ErrOther ''deadline exceeded'')))
          else let n = enqueueTimeouts c + 1; c = c\<lparr>enqueueTimeouts := n\<rparr>
               in Some (c, if slowLimit ops \<le> n \<and> \<not> isClosed c then FStart else XEnd (Err (ErrOther ''deadline exceeded''))))"
| "send_step ops ch p c = None"

text \<open>\<open>discardQueuedTasks\<close>, one task at a time: the writer may still take tasks meanwhile.\<close>

definition discardQueuedTasks :: "bool \<Rightarrow> ws_conn \<Rightarrow> (ws_conn \<times> wpc) option" where
  [simp]: "discardQueuedTasks g c =
     (case highPriorityQueue c of
        t # q \<Rightarrow> Some (doRecycleToPool t (c\<lparr>highPriorityQueue := q\<rparr>), DDiscard g)
      | [] \<Rightarrow>
          (case lowPriorityQueue c of
             t # q \<Rightarrow> Some (doRecycleToPool t (c\<lparr>lowPriorityQueue := q\<rparr>), DDiscard g)
           | [] \<Rightarrow> Some (c, DSocket g)))"

text \<open>\<open>graceClose\<close>, \<open>forceClose\<close> and \<open>doClose\<close>; \<open>free\<close> tells that nobody holds the read lock.
  A completed \<open>doClose\<close> ends with \<open>Ok\<close>, whatever the socket answers to its close.\<close>

fun close_step :: "ws_opts \<Rightarrow> bool \<Rightarrow> wpc \<Rightarrow> ws_conn \<Rightarrow> (ws_conn \<times> wpc) option" where
  "close_step ops free GStart c =
     (if cstate c = ConnOpened then Some (c\<lparr>cstate := ConnHanged\<rparr>, GLock)
      else Some (c, CEnd True (Err (ErrOther ''connection is not opened''))))"
| "close_step ops free GLock c = Some (c, if hasConn c then GSend else CEnd True (Err ErrConnectionClosed))"
| "close_step ops free GSend c =
     (if chansClosed c then panic c
      else if length (lowPriorityQueue c) < writeQueueSize ops
      then Some (c\<lparr>lowPriorityQueue := lowPriorityQueue c @ [close_task], mark := Some (lowAccepted c)\<rparr>, GWait)
      else None)"
| "close_step ops free GWait c = (if chansClosed c then Some (c, GCas) else None)"
| "close_step ops free GCas c =
     (if cstate c = ConnHanged then Some (c\<lparr>cstate := ConnClosed\<rparr>, DLock True)
      else Some (c, CEnd True (Err (ErrOther ''connection is not hanged''))))"
| "close_step ops free FStart c =
     (if cstate c = ConnOpened then Some (c\<lparr>cstate := ConnClosed\<rparr>, DLock False) else Some (c, FSecond))"
| "close_step ops free FSecond c =
     (if cstate c = ConnHanged then Some (c\<lparr>cstate := ConnClosed\<rparr>, DLock False)
      else Some (c, CEnd False (Err ErrConnectionClosed)))"
| "close_step ops free (DLock g) c =
     (if \<not> free then None
      else if \<not> hasConn c then Some (c, CEnd g (Err ErrConnectionClosed))
      else if chansClosed c then panic c
      else Some (c\<lparr>chansClosed := True, hasConn := False\<rparr>, DDiscard g))"
| "close_step ops free (DDiscard g) c = discardQueuedTasks g c"
| "close_step ops free (DSocket g) c = Some (c\<lparr>socketCloses := socketCloses c + 1\<rparr>, DHandler g)"
| "close_step ops free (DHandler g) c = Some (c\<lparr>disconnects := disconnects c + 1\<rparr>, DRecycle g)"
| "close_step ops free (DRecycle g) c = Some (c\<lparr>recycles := recycles c + 1\<rparr>, CEnd g (Ok ()))"
| "close_step ops free p c = None"

text \<open>The writer takes a task of a queue.\<close>

definition take_task :: "bool \<Rightarrow> ws_conn \<Rightarrow> (ws_conn \<times> wpc) option" where
  "take_task low c =
     (case queue_of low c of
        t # q \<Rightarrow> Some (set_queue low q c, WGot t)
      | [] \<Rightarrow> if chansClosed c then Some (c, WExit) else None)"

text \<open>\<open>Tick True\<close>: the peer is silent for too long, or a heartbeat cannot be written.\<close>

definition doHandleHeartbeat :: "ws_opts \<Rightarrow> bool \<Rightarrow> ws_conn \<Rightarrow> (ws_conn \<times> wpc) option" where
  "doHandleHeartbeat ops failed c =
     (if \<not> heartbeats ops then None
      else if failed then Some (c, FStart)
      else if tickMode ops \<and> isClosed c then Some (c, WExit)
      else Some (c, WOuter))"

fun write_step :: "ws_opts \<Rightarrow> choice \<Rightarrow> wpc \<Rightarrow> ws_conn \<Rightarrow> (ws_conn \<times> wpc) option" where
  "write_step ops ch WBegin c = Some (c, if hasConn c then WOuter else WExit)"
| "write_step ops ch WOuter c =
     (case ch of
        Tick failed \<Rightarrow> doHandleHeartbeat ops failed c
      | _ \<Rightarrow> if highPriorityQueue c = [] \<and> \<not> chansClosed c then Some (c, WInner) else take_task False c)"
| "write_step ops ch WInner c =
     (case ch of Tick failed \<Rightarrow> doHandleHeartbeat ops failed c | TakeLow \<Rightarrow> take_task True c | _ \<Rightarrow> take_task False c)"
| "write_step ops ch (WGot t) c =
     (if t_typ t = closeSig then (if hasConn c then Some (c, WDone) else Some (doRecycleToPool t c, WExit))
      else if isClosed c then Some (doRecycleToPool t c, WExit)
      else Some (c, WWrite t))"
| "write_step ops ch (WWrite t) c =
     (if ch = Fail then Some (doRecycleToPool t c, if isClosed c then WExit else FStart)
      else if 0 < socketCloses c then None
      else Some (doRecycleToPool t (c\<lparr>written := written c @ [t]\<rparr>), WOuter))"
| "write_step ops ch WDone c = (if chansClosed c then panic c else None)"
| "write_step ops ch p c = None"

text \<open>\<open>Text\<close>: a message that is not binary; \<open>Skip\<close>: an empty one, or one whose heartbeat bit cannot be read.\<close>

fun read_step :: "ws_opts \<Rightarrow> choice \<Rightarrow> wpc \<Rightarrow> ws_conn \<Rightarrow> (ws_conn \<times> wpc) option" where
  "read_step ops ch RBegin c = Some (c, if hasConn c then RRead else XEnd (Ok ()))"
| "read_step ops ch RRead c =
     (case ch of
        Go \<Rightarrow> if chansClosed c then Some (c, XEnd (Ok ())) else None
      | Fail \<Rightarrow> Some (c, FStart)
      | Text \<Rightarrow> Some (c, RRead)
      | Skip \<Rightarrow> Some (c, if isClosed c then XEnd (Ok ()) else RRead)
      | Beat m \<Rightarrow>
          Some (c, case cstate c of ConnHanged \<Rightarrow> RRead | ConnClosed \<Rightarrow> XEnd (Ok ())
                 | ConnOpened \<Rightarrow> if tickMode ops then RRead else XLock KBeat m)
      | Msg m \<Rightarrow>
          (case cstate c of ConnHanged \<Rightarrow> Some (c, RRead) | ConnClosed \<Rightarrow> Some (c, XEnd (Ok ()))
           | ConnOpened \<Rightarrow> Some (c\<lparr>received := received c @ [m]\<rparr>, RRead))
      | _ \<Rightarrow> None)"
| "read_step ops ch p c = None"

definition wpc_step :: "ws_opts \<Rightarrow> bool \<Rightarrow> choice \<Rightarrow> wpc \<Rightarrow> ws_conn \<Rightarrow> (ws_conn \<times> wpc) option" where
  "wpc_step ops free ch p c =
     (case send_step ops ch p c of Some r \<Rightarrow> Some r | None \<Rightarrow>
      case close_step ops free p c of Some r \<Rightarrow> Some r | None \<Rightarrow>
      case write_step ops ch p c of Some r \<Rightarrow> Some r | None \<Rightarrow> read_step ops ch p c)"

section \<open>The goroutines together\<close>

fun holder :: "wpc \<Rightarrow> bool" where
  "holder (XQueue _ _) = True"
| "holder GSend = True"
| "holder WDone = True"
| "holder _ = False"

type_synonym ws_world = "ws_conn \<times> wpc list"

text \<open>
  \<open>Meet\<close>: the writer hands the signal over \<open>c.done\<close> to the closing goroutine, which receives it with the read lock
  released.  The other connections of the gate reserve and release bytes of the same budget.
\<close>

datatype ws_action =
    Spawn wpc | Step nat choice | Meet nat nat | OtherReserve nat bool | OtherRelease nat bool

fun spawnable :: "wpc \<Rightarrow> bool" where
  "spawnable (XStart k _) = (k \<noteq> KBeat)"
| "spawnable GStart = True"
| "spawnable FStart = True"
| "spawnable _ = False"

definition ws_act :: "ws_opts \<Rightarrow> ws_action \<Rightarrow> ws_world \<Rightarrow> ws_world option" where
  "ws_act ops a w =
     (case w of (c, ths) \<Rightarrow>
      case a of
        Spawn p \<Rightarrow> if spawnable p then Some (c, ths @ [p]) else None
      | Step i ch \<Rightarrow>
          if i < length ths
          then map_option (\<lambda>(c, p). (c, ths[i := p])) (wpc_step ops (\<not> list_ex holder ths) ch (ths ! i) c)
          else None
      | Meet i j \<Rightarrow>
          if i < length ths \<and> j < length ths \<and> ths ! i = WDone \<and> ths ! j = GWait
          then Some (c, ths[i := WExit, j := GCas]) else None
      | OtherReserve n low \<Rightarrow>
          map_option (\<lambda>b. (c\<lparr>budget := b, otherBytes := otherBytes c + n, otherLow := otherLow c + (if low then n else 0)\<rparr>, ths))
            (budget_reserve (budget c) (int n) low)
      | OtherRelease n low \<Rightarrow>
          if (if low then n \<le> otherLow c else n \<le> otherBytes c - otherLow c)
          then Some (c\<lparr>budget := budget_release (budget c) (int n) low, otherBytes := otherBytes c - n,
                       otherLow := otherLow c - (if low then n else 0)\<rparr>, ths)
          else None)"

text \<open>\<open>init\<close>: the first two goroutines are the writer and the reader.\<close>

definition conn_init :: "writeQueueBudget \<Rightarrow> ws_world" where
  "conn_init b =
     (\<lparr>cstate = ConnOpened, hasConn = True, highPriorityQueue = [], lowPriorityQueue = [], chansClosed = False, enqueueTimeouts = 0,
       budget = b, otherBytes = nat (queuedBytes b), otherLow = nat (lowPriorityBytes b), written = [], accepted = [], mark = None, received = [], socketCloses = 0, disconnects = 0, recycles = 0,
       panicked = False\<rparr>, [WBegin, RBegin])"

inductive ws_reachable :: "ws_opts \<Rightarrow> writeQueueBudget \<Rightarrow> ws_world \<Rightarrow> bool" for ops b where
  ws_init: "ws_reachable ops b (conn_init b)"
| ws_step: "ws_reachable ops b w \<Longrightarrow> ws_act ops a w = Some w' \<Longrightarrow> ws_reachable ops b w'"

primrec run_ws :: "ws_opts \<Rightarrow> ws_action list \<Rightarrow> ws_world \<Rightarrow> ws_world option" where
  "run_ws ops [] w = Some w"
| "run_ws ops (a # as) w = (case ws_act ops a w of None \<Rightarrow> None | Some w \<Rightarrow> run_ws ops as w)"

lemma run_ws_reachable: "ws_reachable ops b w \<Longrightarrow> run_ws ops as w = Some w' \<Longrightarrow> ws_reachable ops b w'"
  by (induction "as" arbitrary: w) (auto split: option.splits intro: ws_step)

section \<open>Closing\<close>

fun locking :: "wpc \<Rightarrow> nat" where
  "locking (DLock _) = 1"
| "locking _ = 0"

definition holding :: "wpc \<Rightarrow> nat" where
  "holding p = (if holder p then 1 else 0)"

text \<open>The goroutine that has closed the channels, by how far it is.\<close>

fun discarding :: "wpc \<Rightarrow> nat" where
  "discarding (DDiscard _) = 1"
| "discarding (DSocket _) = 1"
| "discarding _ = 0"

fun after_socket :: "wpc \<Rightarrow> nat" where
  "after_socket (DHandler _) = 1"
| "after_socket (DRecycle _) = 1"
| "after_socket (CEnd _ (Ok _)) = 1"
| "after_socket _ = 0"

fun after_handler :: "wpc \<Rightarrow> nat" where
  "after_handler (DRecycle _) = 1"
| "after_handler (CEnd _ (Ok _)) = 1"
| "after_handler _ = 0"

fun after_recycle :: "wpc \<Rightarrow> nat" where
  "after_recycle (CEnd _ (Ok _)) = 1"
| "after_recycle _ = 0"

text \<open>The control state, given how many goroutines are at each of these points.\<close>

definition control_ok :: "ws_conn \<Rightarrow> nat \<Rightarrow> nat \<Rightarrow> nat \<Rightarrow> nat \<Rightarrow> nat \<Rightarrow> nat \<Rightarrow> bool" where
  "control_ok c l h d s1 s2 s3 \<longleftrightarrow>
     (chansClosed c \<longleftrightarrow> \<not> hasConn c) \<and> (\<not> hasConn c \<longrightarrow> cstate c = ConnClosed) \<and>
     l = (if cstate c = ConnClosed \<and> hasConn c then 1 else 0) \<and> (\<not> hasConn c \<longrightarrow> h = 0) \<and>
     d + s1 = (if hasConn c then 0 else 1) \<and>
     socketCloses c = s1 \<and> disconnects c = s2 \<and> recycles c = s3 \<and> s3 \<le> s2 \<and> s2 \<le> s1 \<and> \<not> panicked c"

lemma set_queue_frame [simp]:
  "cstate (set_queue b q c) = cstate c" "hasConn (set_queue b q c) = hasConn c" "chansClosed (set_queue b q c) = chansClosed c"
  "socketCloses (set_queue b q c) = socketCloses c" "disconnects (set_queue b q c) = disconnects c" "recycles (set_queue b q c) = recycles c"
  "panicked (set_queue b q c) = panicked c" "budget (set_queue b q c) = budget c" "written (set_queue b q c) = written c"
  "accepted (set_queue b q c) = accepted c" "mark (set_queue b q c) = mark c"
  by (simp_all add: set_queue_def)

lemma recycle_frame [simp]:
  "cstate (doRecycleToPool t c) = cstate c" "hasConn (doRecycleToPool t c) = hasConn c" "chansClosed (doRecycleToPool t c) = chansClosed c"
  "socketCloses (doRecycleToPool t c) = socketCloses c" "disconnects (doRecycleToPool t c) = disconnects c"
  "recycles (doRecycleToPool t c) = recycles c" "panicked (doRecycleToPool t c) = panicked c" "written (doRecycleToPool t c) = written c"
  "accepted (doRecycleToPool t c) = accepted c" "mark (doRecycleToPool t c) = mark c"
  "highPriorityQueue (doRecycleToPool t c) = highPriorityQueue c" "lowPriorityQueue (doRecycleToPool t c) = lowPriorityQueue c"
  by (simp_all add: doRecycleToPool_def)

lemmas step_defs = panic_def send_end_def checkState_def take_task_def doHandleHeartbeat_def doWriteToQueue_def Let_def

text \<open>Steps of senders, the writer and the reader leave the control state alone.\<close>

definition idle :: "wpc \<Rightarrow> bool" where
  "idle p \<longleftrightarrow> locking p = 0 \<and> discarding p = 0 \<and> after_socket p = 0 \<and> after_handler p = 0 \<and> after_recycle p = 0"

definition control :: "ws_conn \<Rightarrow> conn_state \<times> bool \<times> bool \<times> nat \<times> nat \<times> nat \<times> bool" where
  "control c = (cstate c, hasConn c, chansClosed c, socketCloses c, disconnects c, recycles c, panicked c)"

definition quiet_step :: "ws_conn \<Rightarrow> wpc \<Rightarrow> ws_conn \<Rightarrow> wpc \<Rightarrow> bool" where
  "quiet_step c p c' p' \<longleftrightarrow> control c' = control c \<and> idle p \<and> idle p' \<and> (holder p' \<longrightarrow> hasConn c)"

lemma idle_simps [simp]:
  "idle (XStart k m)" "idle (XLock k m)" "idle (XQueue k t)" "idle (XTimeout k)" "idle (XEnd r)" "idle GStart" "idle GLock" "idle GSend" "idle GWait"
  "idle GCas" "idle FStart" "idle FSecond" "idle WBegin" "idle WOuter" "idle WInner" "idle (WGot t)" "idle WDone" "idle (WWrite t)" "idle WExit"
  "idle RBegin" "idle RRead" "\<not> idle (DLock g)" "\<not> idle (DDiscard g)" "\<not> idle (DSocket g)" "\<not> idle (DHandler g)" "\<not> idle (DRecycle g)"
  "idle (CEnd g (Err e))" "\<not> idle (CEnd g (Ok u))" "idle (CEnd g Panic)" "idle (send_end k r)"
  by (simp_all add: idle_def send_end_def)

lemma holder_send_end [simp]: "\<not> holder (send_end k r)"
  by (simp add: send_end_def)

lemma control_frame [simp]:
  "control (set_queue b q c) = control c" "control (doRecycleToPool t c) = control c" "control (c\<lparr>accepted := a\<rparr>) = control c"
  "control (c\<lparr>enqueueTimeouts := e\<rparr>) = control c" "control (c\<lparr>budget := b'\<rparr>) = control c" "control (c\<lparr>written := a\<rparr>) = control c"
  "control (c\<lparr>received := r\<rparr>) = control c" "control (c\<lparr>highPriorityQueue := q\<rparr>) = control c" "control (c\<lparr>lowPriorityQueue := q\<rparr>) = control c"
  "control (c\<lparr>mark := m\<rparr>) = control c" "control (c\<lparr>accepted := a, enqueueTimeouts := e\<rparr>) = control c"
  "control (c\<lparr>lowPriorityQueue := q, mark := m\<rparr>) = control c"
  by (simp_all add: control_def)

lemma send_quiet:
  assumes "send_step ops ch p c = Some (c', p')" and "\<not> (holder p \<and> chansClosed c)"
  shows "quiet_step c p c' p'"
proof (cases p)
  case (XStart k m)
  then show ?thesis using assms by (auto simp: quiet_step_def checkState_def split: conn_state.splits)
next
  case (XLock k m)
  then show ?thesis
    using assms by (cases "hasConn c"; cases "doWriteToQueue k m c") (auto simp: quiet_step_def doWriteToQueue_def Let_def)
next
  case (XQueue k t)
  then show ?thesis using assms by (auto simp: quiet_step_def split: if_splits)
next
  case (XTimeout k)
  then show ?thesis using assms by (cases k) (auto simp: quiet_step_def Let_def split: if_splits)
qed (use assms(1) in simp_all)

lemma take_quiet: "take_task b c = Some (c', p') \<Longrightarrow> idle p \<Longrightarrow> quiet_step c p c' p'"
  by (auto simp: take_task_def quiet_step_def split: list.splits if_splits)

lemma heartbeat_quiet: "doHandleHeartbeat ops f c = Some (c', p') \<Longrightarrow> idle p \<Longrightarrow> quiet_step c p c' p'"
  by (auto simp: doHandleHeartbeat_def quiet_step_def split: if_splits)

lemma write_quiet:
  assumes "write_step ops ch p c = Some (c', p')" and "\<not> (holder p \<and> chansClosed c)"
  shows "quiet_step c p c' p'"
proof (cases p)
  case WOuter
  then show ?thesis
    using assms take_quiet [of False c c' p' p] heartbeat_quiet [of ops _ c c' p' p]
    by (cases ch) (auto simp: quiet_step_def split: if_splits)
next
  case WInner
  then show ?thesis
    using assms take_quiet [of _ c c' p' p] heartbeat_quiet [of ops _ c c' p' p] by (cases ch) auto
next
  case (WGot t)
  then show ?thesis using assms by (auto simp: quiet_step_def split: if_splits)
next
  case (WWrite t)
  then show ?thesis using assms by (auto simp: quiet_step_def split: if_splits)
qed (use assms in \<open>auto simp: quiet_step_def split: if_splits\<close>)

lemma read_quiet:
  assumes "read_step ops ch p c = Some (c', p')"
  shows "quiet_step c p c' p'"
proof (cases p)
  case RBegin
  then show ?thesis using assms by (auto simp: quiet_step_def split: if_splits)
next
  case RRead
  then show ?thesis using assms by (cases ch; cases "cstate c") (auto simp: quiet_step_def split: if_splits)
qed (use assms in simp_all)

lemma control_quiet:
  assumes "control_ok c (locking p + l) (holding p + h) (discarding p + d) (after_socket p + s1) (after_handler p + s2) (after_recycle p + s3)"
    and "quiet_step c p c' p'"
  shows "control_ok c' (locking p' + l) (holding p' + h) (discarding p' + d) (after_socket p' + s1) (after_handler p' + s2) (after_recycle p' + s3)"
  using assms by (auto simp: control_ok_def quiet_step_def control_def idle_def holding_def)

lemma control_close:
  assumes ok: "control_ok c (locking p + l) (holding p + h) (discarding p + d) (after_socket p + s1) (after_handler p + s2) (after_recycle p + s3)"
    and step: "close_step ops (holding p + h = 0) p c = Some (c', p')" and "s3 \<le> s2" "s2 \<le> s1"
  shows "control_ok c' (locking p' + l) (holding p' + h) (discarding p' + d) (after_socket p' + s1) (after_handler p' + s2) (after_recycle p' + s3)"
proof -
  have no: "\<not> (holder p \<and> chansClosed c)" using ok by (auto simp: control_ok_def holding_def)
  have q: "quiet_step c p c' p' \<Longrightarrow> ?thesis" by (rule control_quiet [OF ok])
  note ok' = ok [unfolded control_ok_def]
  have opn: "cstate c \<noteq> ConnClosed \<Longrightarrow> hasConn c" using ok' by blast
  have cas: "control_ok (c\<lparr>cstate := st\<rparr>) (locking p' + l) (holding p' + h) (discarding p' + d) (after_socket p' + s1) (after_handler p' + s2)
      (after_recycle p' + s3)"
    if "cstate c \<noteq> ConnClosed" "idle p" "\<not> holder p'" "locking p' = (if st = ConnClosed then 1 else 0)" "discarding p' = 0" "after_socket p' = 0"
      "after_handler p' = 0" "after_recycle p' = 0" for st
    using ok' that opn by (simp add: control_ok_def idle_def holding_def)
  show ?thesis
  proof (cases p)
    case GStart
    show ?thesis
    proof (cases "cstate c = ConnOpened")
      case True
      then show ?thesis using step GStart cas [of ConnHanged] by auto
    next
      case False
      then show ?thesis using step GStart by (intro q) (auto simp: quiet_step_def)
    qed
  next
    case GLock
    then show ?thesis using step by (intro q) (auto simp: quiet_step_def split: if_splits)
  next
    case GSend
    then show ?thesis using step no by (intro q) (auto simp: quiet_step_def split: if_splits)
  next
    case GWait
    then show ?thesis using step by (intro q) (auto simp: quiet_step_def split: if_splits)
  next
    case GCas
    show ?thesis
    proof (cases "cstate c = ConnHanged")
      case True
      then show ?thesis using step GCas cas [of ConnClosed] by auto
    next
      case False
      then show ?thesis using step GCas by (intro q) (auto simp: quiet_step_def)
    qed
  next
    case FStart
    show ?thesis
    proof (cases "cstate c = ConnOpened")
      case True
      then show ?thesis using step FStart cas [of ConnClosed] by auto
    next
      case False
      then show ?thesis using step FStart by (intro q) (auto simp: quiet_step_def)
    qed
  next
    case FSecond
    show ?thesis
    proof (cases "cstate c = ConnHanged")
      case True
      then show ?thesis using step FSecond cas [of ConnClosed] by auto
    next
      case False
      then show ?thesis using step FSecond by (intro q) (auto simp: quiet_step_def)
    qed
  next
    case (DLock g)
    then have f: "hasConn c" "cstate c = ConnClosed" "l = 0" "\<not> chansClosed c" using ok' by (simp_all split: if_splits)
    then have "h = 0" "c' = c\<lparr>chansClosed := True, hasConn := False\<rparr>" "p' = DDiscard g"
      using step DLock by (simp_all add: holding_def split: if_splits)
    then show ?thesis using ok' DLock f by (simp add: control_ok_def holding_def)
  next
    case (DDiscard g)
    then have "\<not> hasConn c" using ok' by (simp split: if_splits)
    moreover have "control c' = control c" "p' = DDiscard g \<or> p' = DSocket g"
      using step DDiscard by (auto split: list.splits)
    ultimately show ?thesis using ok' DDiscard by (auto simp: control_ok_def holding_def control_def)
  next
    case (DSocket g)
    then have f: "\<not> hasConn c" using ok' by (simp split: if_splits)
    show ?thesis using ok' step DSocket assms(3,4) f by (auto simp: control_ok_def holding_def)
  next
    case (DHandler g)
    then have f: "\<not> hasConn c" using ok' by (simp split: if_splits)
    show ?thesis using ok' step DHandler assms(3,4) f by (auto simp: control_ok_def holding_def)
  next
    case (DRecycle g)
    then have f: "\<not> hasConn c" using ok' by (simp split: if_splits)
    show ?thesis using ok' step DRecycle assms(3,4) f by (auto simp: control_ok_def holding_def)
  qed (use step in simp_all)
qed

definition control_inv :: "ws_world \<Rightarrow> bool" where
  "control_inv w = (case w of (c, ths) \<Rightarrow>
     control_ok c (tally locking ths) (tally holding ths) (tally discarding ths) (tally after_socket ths) (tally after_handler ths)
       (tally after_recycle ths))"

lemma free_iff: "\<not> list_ex holder ths \<longleftrightarrow> tally holding ths = 0"
  by (induction ths) (auto simp: holding_def)

lemma step_cases:
  assumes "wpc_step ops free ch p c = Some (c', p')"
  obtains (sends) "send_step ops ch p c = Some (c', p')" | (closes) "close_step ops free p c = Some (c', p')"
    | (writes) "write_step ops ch p c = Some (c', p')" | (reads) "read_step ops ch p c = Some (c', p')"
  using assms that by (auto simp: wpc_step_def split: option.splits)

lemma after_le: "after_recycle p \<le> after_handler p" "after_handler p \<le> after_socket p"
  by (cases p rule: after_recycle.cases; simp)+

lemma control_step:
  assumes inv: "control_inv (c, ths)" and i: "i < length ths"
    and step: "wpc_step ops (\<not> list_ex holder ths) ch (ths ! i) c = Some (c', p')"
  shows "control_inv (c', ths[i := p'])"
proof -
  let ?p = "ths ! i" and ?o = "others i ths"
  note t = tally_others [OF i]
  have ok: "control_ok c (locking ?p + tally locking ?o) (holding ?p + tally holding ?o) (discarding ?p + tally discarding ?o)
      (after_socket ?p + tally after_socket ?o) (after_handler ?p + tally after_handler ?o) (after_recycle ?p + tally after_recycle ?o)"
    using inv by (simp add: control_inv_def t(1))
  have no: "\<not> (holder ?p \<and> chansClosed c)"
    using ok by (auto simp: control_ok_def holding_def)
  have "control_ok c' (locking p' + tally locking ?o) (holding p' + tally holding ?o) (discarding p' + tally discarding ?o)
      (after_socket p' + tally after_socket ?o) (after_handler p' + tally after_handler ?o) (after_recycle p' + tally after_recycle ?o)"
    using step
  proof (cases rule: step_cases)
    case sends
    show ?thesis by (rule control_quiet [OF ok send_quiet [OF sends no]])
  next
    case closes
    then have "close_step ops (holding ?p + tally holding ?o = 0) ?p c = Some (c', p')"
      by (simp add: free_iff t(1))
    then show ?thesis
      by (rule control_close [OF ok]) (simp_all add: tally_mono after_le)
  next
    case writes
    show ?thesis by (rule control_quiet [OF ok write_quiet [OF writes no]])
  next
    case reads
    show ?thesis by (rule control_quiet [OF ok read_quiet [OF reads]])
  qed
  then show ?thesis by (simp add: control_inv_def t(2))
qed

lemma control_spawn: "spawnable p \<Longrightarrow> idle p \<and> \<not> holder p"
  by (cases p) simp_all

lemma control_inv_idle:
  assumes "control_inv (c, ths)" and "i < length ths" and "idle (ths ! i)" "idle p" "holder p \<Longrightarrow> holder (ths ! i)"
  shows "control_inv (c, ths[i := p])"
proof -
  note t = tally_others [OF assms(2)]
  have ok: "control_ok c (locking (ths ! i) + tally locking (others i ths)) (holding (ths ! i) + tally holding (others i ths))
      (discarding (ths ! i) + tally discarding (others i ths)) (after_socket (ths ! i) + tally after_socket (others i ths))
      (after_handler (ths ! i) + tally after_handler (others i ths)) (after_recycle (ths ! i) + tally after_recycle (others i ths))"
    using assms(1) by (simp add: control_inv_def t(1))
  have "quiet_step c (ths ! i) c p"
    using assms(3-5) ok by (auto simp: quiet_step_def control_ok_def holding_def)
  from control_quiet [OF ok this] show ?thesis by (simp add: control_inv_def t(2))
qed

lemma control_act:
  assumes inv: "control_inv w" and act: "ws_act ops a w = Some w'"
  shows "control_inv w'"
proof -
  obtain c ths where w: "w = (c, ths)" by fastforce
  show ?thesis
  proof (cases a)
    case (Spawn p)
    then show ?thesis
      using act inv control_spawn [of p] by (auto simp: ws_act_def w control_inv_def idle_def holding_def split: if_splits)
  next
    case (Step i ch)
    then show ?thesis using act inv control_step [of c ths i ops ch] by (auto simp: ws_act_def w split: if_splits)
  next
    case (Meet i j)
    then have m: "i < length ths" "j < length ths" "ths ! i = WDone" "ths ! j = GWait" "w' = (c, ths[i := WExit, j := GCas])"
      using act by (auto simp: ws_act_def w split: if_splits)
    have "control_inv (c, ths[i := WExit])"
      by (rule control_inv_idle) (use inv m w in simp_all)
    then have "control_inv (c, ths[i := WExit, j := GCas])"
      by (rule control_inv_idle) (use m in \<open>auto simp: nth_list_update\<close>)
    then show ?thesis using m by simp
  next
    case (OtherReserve n low)
    then show ?thesis using act inv by (auto simp: ws_act_def w control_inv_def control_ok_def)
  next
    case (OtherRelease n low)
    then show ?thesis using act inv by (auto simp: ws_act_def w control_inv_def control_ok_def split: if_splits)
  qed
qed

lemma control_reachable: "ws_reachable ops b w \<Longrightarrow> control_inv w"
proof (induction rule: ws_reachable.induct)
  case ws_init
  show ?case by (simp add: control_inv_def conn_init_def control_ok_def holding_def)
next
  case (ws_step w a w')
  then show ?case by (blast intro: control_act)
qed

fun in_close :: "wpc \<Rightarrow> bool" where
  "in_close (DLock _) = True"
| "in_close (DDiscard _) = True"
| "in_close (DSocket _) = True"
| "in_close (DHandler _) = True"
| "in_close (DRecycle _) = True"
| "in_close _ = False"

lemma rest_tallies:
  assumes "\<And>p. p \<in> set ths \<Longrightarrow> \<not> in_close p"
  shows "tally locking ths = 0" "tally discarding ths = 0" "tally after_handler ths = tally after_socket ths" "tally after_recycle ths = tally after_socket ths"
proof -
  have "locking p = 0 \<and> discarding p = 0" if "p \<in> set ths" for p
    using assms [OF that] by (cases p) simp_all
  then show "tally locking ths = 0" "tally discarding ths = 0"
    by (simp_all add: tally_zero)
  have "after_handler p = after_socket p \<and> after_recycle p = after_socket p" if "p \<in> set ths" for p
    using assms [OF that] by (cases p rule: after_socket.cases) simp_all
  then show "tally after_handler ths = tally after_socket ths" "tally after_recycle ths = tally after_socket ths"
    by (simp_all add: tally_def cong: map_cong)
qed

text \<open>
  C23: Whatever senders, graceful and forced closes, heartbeat timeouts and write errors interleave, a websocket
  connection is torn down once: no channel is closed twice and nobody sends on a closed channel, the socket
  is closed, the disconnect handler called and the connection recycled at most once, in this order, and
  exactly once when the connection is closed and no goroutine is in the middle of closing it.
\<close>

theorem ws_closed_once:
  assumes "ws_reachable ops b (c, ths)"
  shows "\<not> panicked c \<and> recycles c \<le> disconnects c \<and> disconnects c \<le> socketCloses c \<and> socketCloses c \<le> 1 \<and>
    (cstate c \<noteq> ConnClosed \<longrightarrow> hasConn c \<and> socketCloses c = 0) \<and>
    (cstate c = ConnClosed \<and> (\<forall>p \<in> set ths. \<not> in_close p) \<longrightarrow> socketCloses c = 1 \<and> disconnects c = 1 \<and> recycles c = 1)"
proof -
  have ok: "control_ok c (tally locking ths) (tally holding ths) (tally discarding ths) (tally after_socket ths) (tally after_handler ths)
      (tally after_recycle ths)"
    using control_reachable [OF assms] by (simp add: control_inv_def)
  have "socketCloses c = 1 \<and> disconnects c = 1 \<and> recycles c = 1" if "cstate c = ConnClosed" "\<forall>p \<in> set ths. \<not> in_close p"
    using ok rest_tallies [of ths] that by (auto simp: control_ok_def split: if_splits)
  then show ?thesis
    using ok by (auto simp: control_ok_def split: if_splits)
qed

text \<open>A message is pushed and written, then the connection is closed gracefully.\<close>

definition grace_opts :: ws_opts where
  "grace_opts = \<lparr>writeTimeout = True, writeQueueSize = 2, slowLimit = 3, heartbeats = False, tickMode = False\<rparr>"

definition grace_run :: "ws_action list" where
  "grace_run = [Step 0 Go, Step 1 Go, Spawn (XStart KPush [1, 2]), Step 2 Go, Step 2 Go, Step 2 Go, Step 0 Go, Step 0 TakeLow, Step 0 Go, Step 0 Go,
     Spawn GStart, Step 3 Go, Step 3 Go, Step 3 Go, Step 0 Go, Step 0 TakeLow, Step 0 Go, Meet 0 3, Step 3 Go, Step 3 Go, Step 3 Go,
     Step 3 Go, Step 3 Go, Step 3 Go, Step 1 Go]"

theorem ws_closed_once_witness:
  "\<exists>c ths. run_ws grace_opts grace_run (conn_init (newWriteQueueBudget 100 10)) = Some (c, ths) \<and>
     ths = [WExit, XEnd (Ok ()), XEnd (Ok ()), CEnd True (Ok ())] \<and> socketCloses c = 1 \<and> disconnects c = 1 \<and> recycles c = 1"
proof -
  let ?r = "run_ws grace_opts grace_run (conn_init (newWriteQueueBudget 100 10))"
  have "map_option snd ?r = Some [WExit, XEnd (Ok ()), XEnd (Ok ()), CEnd True (Ok ())]" "map_option (cstate \<circ> fst) ?r = Some ConnClosed"
    by code_simp+
  then obtain c ths where r: "?r = Some (c, ths)" "ths = [WExit, XEnd (Ok ()), XEnd (Ok ()), CEnd True (Ok ())]" "cstate c = ConnClosed"
    by (cases ?r) auto
  have "ws_reachable grace_opts (newWriteQueueBudget 100 10) (c, ths)"
    by (rule run_ws_reachable [OF ws_init r(1)])
  from ws_closed_once [OF this] r show ?thesis by simp
qed

section \<open>A graceful close that never ends\<close>

text \<open>Goroutines that do not write: what they do leaves a full low priority queue of a closed connection as it is.\<close>

fun calm :: "wpc \<Rightarrow> bool" where
  "calm WBegin = False"
| "calm WOuter = False"
| "calm WInner = False"
| "calm (WGot _) = False"
| "calm WDone = False"
| "calm (WWrite _) = False"
| "calm (DLock _) = False"
| "calm (DDiscard _) = False"
| "calm (DSocket _) = False"
| "calm (DHandler _) = False"
| "calm (DRecycle _) = False"
| "calm _ = True"

definition jammed :: "ws_opts \<Rightarrow> ws_conn \<Rightarrow> bool" where
  "jammed ops c \<longleftrightarrow> cstate c = ConnClosed \<and> hasConn c \<and> \<not> chansClosed c \<and> writeQueueSize ops \<le> length (lowPriorityQueue c) \<and>
     socketCloses c = 0 \<and> disconnects c = 0"

lemma jammed_frame [simp]:
  "jammed ops (c\<lparr>budget := b\<rparr>) = jammed ops c" "jammed ops (c\<lparr>enqueueTimeouts := n\<rparr>) = jammed ops c"
  "jammed ops (c\<lparr>budget := b, otherBytes := x, otherLow := y\<rparr>) = jammed ops c" "jammed ops (doRecycleToPool t c) = jammed ops c"
  "jammed ops (c\<lparr>budget := b, otherBytes := x\<rparr>) = jammed ops c"
  by (simp_all add: jammed_def)

lemma calm_step:
  assumes "wpc_step ops False ch p c = Some (c', p')" and "jammed ops c" "calm p"
  shows "jammed ops c' \<and> calm p' \<and> p \<noteq> GSend"
  using assms(1)
proof (cases rule: step_cases)
  case sends
  show ?thesis
  proof (cases p)
    case (XLock k m)
    then show ?thesis
      using sends assms(2) by (cases "doWriteToQueue k m c") (auto simp: doWriteToQueue_def Let_def send_end_def split: if_splits)
  next
    case (XTimeout k)
    then show ?thesis
      using sends assms(2) by (cases k) (auto simp: Let_def isClosed_def jammed_def split: if_splits)
  next
    case (XQueue k t)
    then show ?thesis
      using sends assms(2) by (auto simp: jammed_def queue_of_def set_queue_def panic_def send_end_def split: if_splits)
  qed (use sends assms(2) in \<open>auto simp: jammed_def checkState_def\<close>)
next
  case closes
  then show ?thesis
    using assms(2,3) by (cases p) (auto simp: jammed_def split: if_splits)
next
  case writes
  then show ?thesis using assms(3) by (cases p) simp_all
next
  case reads
  then show ?thesis
  proof (cases p)
    case RRead
    then show ?thesis using reads assms(2) by (cases ch) (auto simp: jammed_def split: if_splits)
  qed (use assms(2) in \<open>auto split: if_splits\<close>)
qed

definition deadlocked :: "ws_opts \<Rightarrow> nat \<Rightarrow> nat \<Rightarrow> ws_world \<Rightarrow> bool" where
  "deadlocked ops i j w = (case w of (c, ths) \<Rightarrow>
     jammed ops c \<and> i < length ths \<and> j < length ths \<and> i \<noteq> j \<and> (\<exists>g. ths ! i = DLock g) \<and> ths ! j = GSend \<and>
     (\<forall>k < length ths. k \<noteq> i \<longrightarrow> calm (ths ! k)))"

lemma deadlocked_act:
  assumes dl: "deadlocked ops i j w" and act: "ws_act ops a w = Some w'"
  shows "deadlocked ops i j w'"
proof -
  obtain c ths where w: "w = (c, ths)" by fastforce
  note d = dl [unfolded w deadlocked_def, simplified]
  have held: "list_ex holder ths" using d by (metis list_ex_length holder.simps(2))
  show ?thesis
  proof (cases a)
    case (Spawn p)
    then show ?thesis
      using act d by (cases p) (auto simp: ws_act_def w deadlocked_def nth_append less_Suc_eq split: if_splits)
  next
    case (Step k ch)
    then obtain c' p' where s: "k < length ths" "wpc_step ops False ch (ths ! k) c = Some (c', p')" "w' = (c', ths[k := p'])"
      using act held by (auto simp: ws_act_def w split: if_splits)
    have "k \<noteq> i" using s(2) d by (auto simp: wpc_step_def)
    then have "jammed ops c' \<and> calm p' \<and> ths ! k \<noteq> GSend"
      using calm_step [OF s(2)] d s(1) by blast
    then show ?thesis using d s(1,3) \<open>k \<noteq> i\<close> by (auto simp: deadlocked_def nth_list_update)
  next
    case (Meet k l)
    then have "ths ! k = WDone" "k < length ths" using act by (auto simp: ws_act_def w split: if_splits)
    moreover from this have "calm (ths ! k) \<or> (\<exists>g. ths ! k = DLock g)" using d by blast
    ultimately show ?thesis by simp
  next
    case (OtherReserve n low)
    then show ?thesis using act d by (auto simp: ws_act_def w deadlocked_def)
  next
    case (OtherRelease n low)
    then show ?thesis using act d by (auto simp: ws_act_def w deadlocked_def split: if_splits)
  qed
qed

lemma deadlocked_run: "deadlocked ops i j w \<Longrightarrow> run_ws ops as w = Some w' \<Longrightarrow> deadlocked ops i j w'"
  by (induction "as" arbitrary: w) (auto split: option.splits dest: deadlocked_act)

text \<open>
  A queue of one task: the writer is busy with the first message, the second one fills the queue, the graceful close waits for a
  place in it with the read lock held, and the write fails.
\<close>

definition jam_opts :: ws_opts where
  "jam_opts = \<lparr>writeTimeout = True, writeQueueSize = 1, slowLimit = 3, heartbeats = True, tickMode = False\<rparr>"

definition jam_run :: "ws_action list" where
  "jam_run = [Step 0 Go, Step 1 Go, Spawn (XStart KPush [1]), Step 2 Go, Step 2 Go, Step 2 Go, Step 0 Go, Step 0 TakeLow, Step 0 Go,
     Spawn (XStart KPush [2]), Step 3 Go, Step 3 Go, Step 3 Go, Spawn GStart, Step 4 Go, Step 4 Go, Step 0 Fail, Step 0 Go, Step 0 Go]"

definition jam_world :: ws_world where
  "jam_world = (case run_ws jam_opts jam_run (conn_init (newWriteQueueBudget 0 0)) of Some w \<Rightarrow> w | None \<Rightarrow> conn_init (newWriteQueueBudget 0 0))"

lemma jam_world_reached: "run_ws jam_opts jam_run (conn_init (newWriteQueueBudget 0 0)) = Some jam_world"
  by code_simp

lemma jam_deadlocked: "deadlocked jam_opts 0 4 jam_world"
proof -
  have j: "jammed jam_opts (fst jam_world)" by code_simp
  have t: "snd jam_world = [DLock False, RRead, XEnd (Ok ()), XEnd (Ok ()), GSend]" by code_simp
  obtain c ths where w: "jam_world = (c, ths)" by fastforce
  show ?thesis
    using j t by (auto simp: w deadlocked_def less_Suc_eq_0_disj)
qed

text \<open>
  C38: A graceful close can hang forever, whatever timeouts are set: \<open>graceClose\<close> sends the close signal to a low priority queue that
  may be full while it holds the read lock, and when the writer then fails to write it waits in
  \<open>doClose\<close> for the write lock instead of emptying the queue.  From then on, whatever happens, the connection keeps its socket and
  the disconnect handler is not called.
\<close>

theorem ws_close_deadlock:
  "run_ws jam_opts jam_run (conn_init (newWriteQueueBudget 0 0)) = Some jam_world \<and>
   (\<forall>as c ths. run_ws jam_opts as jam_world = Some (c, ths) \<longrightarrow>
      cstate c = ConnClosed \<and> hasConn c \<and> socketCloses c = 0 \<and> disconnects c = 0 \<and> (\<exists>g. ths ! 0 = DLock g) \<and> ths ! 4 = GSend)"
proof -
  have "cstate c = ConnClosed \<and> hasConn c \<and> socketCloses c = 0 \<and> disconnects c = 0 \<and> (\<exists>g. ths ! 0 = DLock g) \<and> ths ! 4 = GSend"
    if "run_ws jam_opts as jam_world = Some (c, ths)" for "as" c ths
    using deadlocked_run [OF jam_deadlocked that] by (auto simp: deadlocked_def jammed_def)
  then show ?thesis using jam_world_reached by blast
qed

theorem ws_close_deadlock_witness:
  "\<exists>c ths. run_ws jam_opts [Step 1 Fail, Step 1 Go, Step 1 Go, Spawn FStart, Step 5 Go, Step 5 Go] jam_world = Some (c, ths) \<and>
     hasConn c \<and> disconnects c = 0"
proof -
  let ?as = "[Step 1 Fail, Step 1 Go, Step 1 Go, Spawn FStart, Step 5 Go, Step 5 Go]"
  have "run_ws jam_opts ?as jam_world \<noteq> None" by code_simp
  then obtain c ths where r: "run_ws jam_opts ?as jam_world = Some (c, ths)" by fastforce
  then have "hasConn c \<and> disconnects c = 0" using ws_close_deadlock by blast
  with r show ?thesis by blast
qed

end
