(* ===== verification/Ws_Budget.thy ===== *)
theory Ws_Budget
  imports Ws_Conn
begin

text \<open>
  The bytes the goroutines and the queues of a websocket connection hold of the shared write budget (\<open>def.go\<close>): what every step
  does to them, and that the budget always counts exactly what is held.
\<close>

section \<open>The budget\<close>

definition low_bytes :: "task \<Rightarrow> nat" where
  "low_bytes t = (if t_low t then t_bytes t else 0)"

fun task_of :: "wpc \<Rightarrow> task option" where
  "task_of (XQueue _ t) = Some t"
| "task_of (WGot t) = Some t"
| "task_of (WWrite t) = Some t"
| "task_of _ = None"

definition pc_bytes :: "wpc \<Rightarrow> nat" where
  "pc_bytes p = (case task_of p of None \<Rightarrow> 0 | Some t \<Rightarrow> t_bytes t)"

definition pc_low :: "wpc \<Rightarrow> nat" where
  "pc_low p = (case task_of p of None \<Rightarrow> 0 | Some t \<Rightarrow> low_bytes t)"

definition queued :: "ws_conn \<Rightarrow> nat" where
  "queued c = tally t_bytes (highPriorityQueue c) + tally t_bytes (lowPriorityQueue c)"

definition queued_low :: "ws_conn \<Rightarrow> nat" where
  "queued_low c = tally low_bytes (highPriorityQueue c) + tally low_bytes (lowPriorityQueue c)"

definition budget_sane :: "writeQueueBudget \<Rightarrow> bool" where
  "budget_sane b \<longleftrightarrow> 0 \<le> lowPriorityBytes b \<and> lowPriorityBytes b \<le> queuedBytes b \<and> 0 \<le> highReserveBytes b \<and>
     (0 < maxBytes b \<longrightarrow> queuedBytes b \<le> maxBytes b \<and> lowPriorityBytes b \<le> maxBytes b - highReserveBytes b)"

text \<open>The connection holds \<open>n\<close> bytes of the budget, \<open>l\<close> of them with low priority.\<close>

definition budget_ok :: "ws_conn \<Rightarrow> nat \<Rightarrow> nat \<Rightarrow> bool" where
  "budget_ok c n l \<longleftrightarrow> otherLow c \<le> otherBytes c \<and> l \<le> n \<and>
     (0 < maxBytes (budget c) \<longrightarrow>
        queuedBytes (budget c) = int (otherBytes c + n) \<and> lowPriorityBytes (budget c) = int (otherLow c + l) \<and>
        queuedBytes (budget c) \<le> maxBytes (budget c) \<and> lowPriorityBytes (budget c) \<le> maxBytes (budget c) - highReserveBytes (budget c))"

lemma budget_ok_recycle:
  assumes "budget_ok c (t_bytes t + n) (low_bytes t + l)" and "l \<le> n"
  shows "budget_ok (doRecycleToPool t c) n l"
  using assms by (auto simp: budget_ok_def doRecycleToPool_def budget_release_def low_bytes_def)

lemma budget_ok_reserve:
  assumes "budget_ok c n l" and "budget_reserve (budget c) (int m) low = Some b"
  shows "budget_ok (c\<lparr>budget := b\<rparr>) (m + n) ((if low then m else 0) + l)"
  using assms by (auto simp: budget_ok_def budget_reserve_def split: if_splits)

lemma budget_ok_frame:
  assumes "budget_ok c n l" and "budget c' = budget c" "otherBytes c' = otherBytes c" "otherLow c' = otherLow c"
  shows "budget_ok c' n l"
  using assms(1) unfolding budget_ok_def assms(2-4) .

lemma low_le: "low_bytes t \<le> t_bytes t" "pc_low p \<le> pc_bytes p" "queued_low c \<le> queued c"
proof -
  show l: "low_bytes t \<le> t_bytes t" for t by (simp add: low_bytes_def)
  then show "pc_low p \<le> pc_bytes p" by (simp add: pc_low_def pc_bytes_def split: option.splits)
  show "queued_low c \<le> queued c"
    unfolding queued_low_def queued_def by (intro add_mono tally_mono l)
qed

text \<open>What a step does to the bytes the goroutine and the queues hold.\<close>

definition limits :: "ws_conn \<Rightarrow> int \<times> int" where
  "limits c = (maxBytes (budget c), highReserveBytes (budget c))"

definition bytes_step :: "ws_conn \<Rightarrow> wpc \<Rightarrow> ws_conn \<Rightarrow> wpc \<Rightarrow> bool" where
  "bytes_step c p c' p' \<longleftrightarrow> limits c' = limits c \<and>
     (\<forall>r rl. rl \<le> r \<longrightarrow> budget_ok c (pc_bytes p + queued c + r) (pc_low p + queued_low c + rl) \<longrightarrow>
        budget_ok c' (pc_bytes p' + queued c' + r) (pc_low p' + queued_low c' + rl))"

lemma bytes_same:
  assumes "budget c' = budget c" "otherBytes c' = otherBytes c" "otherLow c' = otherLow c"
    and "pc_bytes p' + queued c' = pc_bytes p + queued c" "pc_low p' + queued_low c' = pc_low p + queued_low c"
  shows "bytes_step c p c' p'"
  unfolding bytes_step_def limits_def assms(4,5) assms(1) using budget_ok_frame [OF _ assms(1-3)] by blast

lemma bytes_drop:
  assumes "c' = doRecycleToPool t c1" "budget c1 = budget c" "otherBytes c1 = otherBytes c" "otherLow c1 = otherLow c"
    and "pc_bytes p + queued c = t_bytes t + pc_bytes p' + queued c1" "pc_low p + queued_low c = low_bytes t + pc_low p' + queued_low c1"
  shows "bytes_step c p c' p'"
  unfolding bytes_step_def
proof (intro conjI allI impI)
  show "limits c' = limits c"
    by (simp add: limits_def assms(1,2) doRecycleToPool_def budget_release_def)
next
  fix r rl :: nat
  assume r: "rl \<le> r" and ok: "budget_ok c (pc_bytes p + queued c + r) (pc_low p + queued_low c + rl)"
  have "budget_ok c1 (t_bytes t + (pc_bytes p' + queued c1 + r)) (low_bytes t + (pc_low p' + queued_low c1 + rl))"
    using budget_ok_frame [OF ok assms(2-4)] unfolding assms(5,6) by (simp only: add.assoc)
  moreover have "pc_low p' + queued_low c1 + rl \<le> pc_bytes p' + queued c1 + r"
    by (intro add_mono low_le r)
  ultimately have "budget_ok (doRecycleToPool t c1) (pc_bytes p' + queued c1 + r) (pc_low p' + queued_low c1 + rl)"
    by (rule budget_ok_recycle)
  then show "budget_ok c' (pc_bytes p' + queued c' + r) (pc_low p' + queued_low c' + rl)"
    using assms(1) by (simp add: queued_def queued_low_def)
qed

lemmas bytes_defs = pc_bytes_def pc_low_def queued_def queued_low_def queue_of_def set_queue_def send_end_def

lemma send_bytes:
  assumes "send_step ops ch p c = Some (c', p')" and "\<not> (holder p \<and> chansClosed c)"
  shows "bytes_step c p c' p'"
proof (cases p)
  case (XStart k m)
  then show ?thesis using assms by (intro bytes_same) (auto simp: bytes_defs checkState_def split: conn_state.splits)
next
  case (XLock k m)
  show ?thesis
  proof (cases "hasConn c \<and> doWriteToQueue k m c \<noteq> None")
    case True
    then obtain b where b: "budget_reserve (budget c) (int (length m)) (k = KPush) = Some b" "c' = c\<lparr>budget := b\<rparr>"
        "p' = XQueue k \<lparr>t_typ = (if k = KBeat then heartbeatPacket else dataPacket), t_msg = m, t_bytes = length m, t_low = (k = KPush)\<rparr>"
      using assms XLock by (auto simp: doWriteToQueue_def Let_def)
    have "budget_ok c' (pc_bytes p' + queued c' + r) (pc_low p' + queued_low c' + rl)"
      if "budget_ok c (pc_bytes p + queued c + r) (pc_low p + queued_low c + rl)" for r rl
    proof -
      have "budget_ok c (queued c + r) (queued_low c + rl)" using that XLock by (simp add: pc_bytes_def pc_low_def)
      from budget_ok_reserve [OF this b(1)] show ?thesis
        by (simp add: b(2,3) pc_bytes_def pc_low_def queued_def queued_low_def low_bytes_def add.assoc split: if_splits)
    qed
    moreover have "limits c' = limits c"
      using b(1,2) by (auto simp: limits_def budget_reserve_def split: if_splits)
    ultimately show ?thesis by (simp add: bytes_step_def)
  next
    case False
    then show ?thesis
      using assms XLock by (cases "doWriteToQueue k m c"; intro bytes_same) (auto simp: bytes_defs split: if_splits)
  qed
next
  case (XQueue k t)
  show ?thesis
  proof (cases "ch = Timeout")
    case True
    then show ?thesis
      using assms XQueue by (intro bytes_drop [of c' t c c p p']) (auto simp: bytes_defs split: if_splits)
  next
    case False
    then show ?thesis
      using assms XQueue by (intro bytes_same) (auto simp: bytes_defs panic_def split: if_splits)
  qed
next
  case (XTimeout k)
  then show ?thesis using assms by (cases k; intro bytes_same) (auto simp: bytes_defs Let_def split: if_splits)
qed (use assms in simp_all)

lemma pc_bytes_simps [simp]: "task_of p = None \<Longrightarrow> pc_bytes p = 0" "task_of p = None \<Longrightarrow> pc_low p = 0"
  by (simp_all add: pc_bytes_def pc_low_def)

lemma close_bytes:
  assumes "close_step ops free p c = Some (c', p')"
  shows "bytes_step c p c' p'"
proof -
  have same: "bytes_step c p c' p'"
    if "budget c' = budget c" "otherBytes c' = otherBytes c" "otherLow c' = otherLow c" "task_of p = None" "task_of p' = None"
      "queued c' = queued c" "queued_low c' = queued_low c"
    using that by (intro bytes_same) simp_all
  show ?thesis
  proof (cases "\<exists>g. p = DDiscard g")
    case True
    then obtain g where DDiscard: "p = DDiscard g" by blast
    show ?thesis
    proof (cases "highPriorityQueue c")
      case (Cons t q)
      then show ?thesis
        using assms DDiscard by (intro bytes_drop [of c' t "c\<lparr>highPriorityQueue := q\<rparr>"]) (auto simp: queued_def queued_low_def)
    next
      case Nil
      show ?thesis
      proof (cases "lowPriorityQueue c")
        case (Cons t q)
        then show ?thesis
          using assms DDiscard Nil by (intro bytes_drop [of c' t "c\<lparr>lowPriorityQueue := q\<rparr>"]) (auto simp: queued_def queued_low_def)
      next
        case Nil
        then show ?thesis using assms DDiscard \<open>highPriorityQueue c = []\<close> by (intro same) (auto simp: queued_def queued_low_def)
      qed
    qed
  next
    case False
    then show ?thesis
      using assms
      by (cases p; intro same) (auto simp: queued_def queued_low_def close_task_def low_bytes_def panic_def split: if_splits)
  qed
qed

lemma take_bytes: "take_task b c = Some (c', p') \<Longrightarrow> task_of p = None \<Longrightarrow> bytes_step c p c' p'"
  by (cases b; intro bytes_same) (auto simp: take_task_def bytes_defs split: list.splits if_splits)

lemma heartbeat_bytes: "doHandleHeartbeat ops f c = Some (c', p') \<Longrightarrow> task_of p = None \<Longrightarrow> bytes_step c p c' p'"
  by (intro bytes_same) (auto simp: doHandleHeartbeat_def bytes_defs split: if_splits)

lemma write_bytes:
  assumes step: "write_step ops ch p c = Some (c', p')"
    and sigs: "\<And>t. p = WGot t \<Longrightarrow> t_typ t = closeSig \<Longrightarrow> t_bytes t = 0"
  shows "bytes_step c p c' p'"
proof (cases p)
  case WOuter
  show ?thesis
  proof (cases "\<exists>f. ch = Tick f \<or> highPriorityQueue c \<noteq> [] \<or> chansClosed c")
    case True
    then show ?thesis
      using step WOuter take_bytes [of False c c' p' p] heartbeat_bytes [of ops _ c c' p' p] by (cases ch) (auto split: if_splits)
  next
    case False
    then show ?thesis using step WOuter by (cases ch; intro bytes_same) auto
  qed
next
  case WInner
  then show ?thesis
    using step take_bytes [of _ c c' p' p] heartbeat_bytes [of ops _ c c' p' p] by (cases ch) auto
next
  case (WGot t)
  show ?thesis
  proof (cases "if t_typ t = closeSig then hasConn c else \<not> isClosed c")
    case True
    then show ?thesis
      using step WGot sigs [of t]
      by (intro bytes_same) (auto simp: pc_bytes_def pc_low_def low_bytes_def doRecycleToPool_def split: if_splits)
  next
    case False
    then show ?thesis
      using step WGot by (intro bytes_drop [of c' t c]) (auto simp: pc_bytes_def pc_low_def split: if_splits)
  qed
next
  case (WWrite t)
  then show ?thesis
    using step by (cases "ch = Fail"; intro bytes_drop [of c' t "if ch = Fail then c else c\<lparr>written := written c @ [t]\<rparr>"])
      (auto simp: pc_bytes_def pc_low_def queued_def queued_low_def split: if_splits)
next
  case WBegin
  then show ?thesis using step by (intro bytes_same) auto
next
  case WDone
  then show ?thesis using step by (intro bytes_same) (auto simp: panic_def queued_def queued_low_def split: if_splits)
qed (use step in simp_all)

lemma read_bytes:
  assumes "read_step ops ch p c = Some (c', p')"
  shows "bytes_step c p c' p'"
proof (cases p)
  case RBegin
  then show ?thesis using assms by (intro bytes_same) auto
next
  case RRead
  then show ?thesis
    using assms by (cases ch; cases "cstate c"; intro bytes_same) (auto simp: queued_def queued_low_def split: if_splits)
qed (use assms in simp_all)

text \<open>The queues are only nonempty while the connection or the goroutine that empties them is there; close signals hold no bytes.\<close>

fun emptying :: "wpc \<Rightarrow> nat" where
  "emptying (DDiscard _) = 1"
| "emptying _ = 0"

definition sig_ok :: "task \<Rightarrow> bool" where
  "sig_ok t \<longleftrightarrow> (t_typ t = closeSig \<longrightarrow> t_bytes t = 0)"

definition pc_sig :: "wpc \<Rightarrow> bool" where
  "pc_sig p \<longleftrightarrow> (\<forall>t. task_of p = Some t \<longrightarrow> sig_ok t)"

definition sigs_ok :: "ws_conn \<Rightarrow> bool" where
  "sigs_ok c \<longleftrightarrow> (\<forall>t \<in> set (highPriorityQueue c) \<union> set (lowPriorityQueue c). sig_ok t)"

definition drained :: "ws_conn \<Rightarrow> nat \<Rightarrow> bool" where
  "drained c e \<longleftrightarrow> hasConn c \<or> 0 < e \<or> (highPriorityQueue c = [] \<and> lowPriorityQueue c = [])"

lemma sig_simps [simp]: "sig_ok close_task" "task_of p = None \<Longrightarrow> pc_sig p" "pc_sig (WGot t) = sig_ok t" "pc_sig (XQueue k t) = sig_ok t"
  "pc_sig (WWrite t) = sig_ok t"
  by (simp_all add: sig_ok_def close_task_def pc_sig_def)

lemma send_sigs:
  assumes "send_step ops ch p c = Some (c', p')" "pc_sig p" "sigs_ok c"
  shows "pc_sig p' \<and> sigs_ok c'"
proof (cases p)
  case (XLock k m)
  then show ?thesis
    using assms by (cases "doWriteToQueue k m c")
      (auto simp: doWriteToQueue_def Let_def send_end_def sigs_ok_def sig_ok_def split: if_splits)
next
  case (XQueue k t)
  then show ?thesis
    using assms by (auto simp: sigs_ok_def queue_of_def set_queue_def send_end_def panic_def split: if_splits)
next
  case (XTimeout k)
  then show ?thesis using assms by (cases k) (auto simp: Let_def sigs_ok_def split: if_splits)
qed (use assms in \<open>auto simp: checkState_def split: conn_state.splits\<close>)

lemma close_sigs:
  assumes "close_step ops free p c = Some (c', p')" "sigs_ok c"
  shows "pc_sig p' \<and> sigs_ok c'"
  using assms by (cases p) (auto simp: sigs_ok_def panic_def split: if_splits list.splits)

lemma take_sigs: "take_task b c = Some (c', p') \<Longrightarrow> sigs_ok c \<Longrightarrow> pc_sig p' \<and> sigs_ok c'"
  by (auto simp: take_task_def sigs_ok_def queue_of_def set_queue_def split: list.splits if_splits)

lemma heartbeat_sigs: "doHandleHeartbeat ops f c = Some (c', p') \<Longrightarrow> sigs_ok c \<Longrightarrow> pc_sig p' \<and> sigs_ok c'"
  by (auto simp: doHandleHeartbeat_def split: if_splits)

lemma write_sigs:
  assumes "write_step ops ch p c = Some (c', p')" "pc_sig p" "sigs_ok c"
  shows "pc_sig p' \<and> sigs_ok c'"
proof (cases p)
  case WOuter
  then show ?thesis
    using assms take_sigs [of False c c' p'] heartbeat_sigs [of ops _ c c' p'] by (cases ch) (auto split: if_splits)
next
  case WInner
  then show ?thesis
    using assms take_sigs [of _ c c' p'] heartbeat_sigs [of ops _ c c' p'] by (cases ch) auto
qed (use assms in \<open>auto simp: sigs_ok_def panic_def split: if_splits\<close>)

lemma read_sigs:
  assumes "read_step ops ch p c = Some (c', p')" "sigs_ok c"
  shows "pc_sig p' \<and> sigs_ok c'"
proof (cases p)
  case RRead
  then show ?thesis
    using assms by (cases ch; cases "cstate c") (auto simp: sigs_ok_def split: if_splits)
qed (use assms in \<open>auto split: if_splits\<close>)

definition settled :: "ws_conn \<Rightarrow> bool" where
  "settled c \<longleftrightarrow> hasConn c \<or> (highPriorityQueue c = [] \<and> lowPriorityQueue c = [])"

lemma drained_alt: "drained c e \<longleftrightarrow> settled c \<or> 0 < e"
  by (auto simp: drained_def settled_def)

lemma send_settled:
  assumes "send_step ops ch p c = Some (c', p')" "hasConn c \<or> chansClosed c"
  shows "emptying p = 0 \<and> (settled c \<longrightarrow> settled c')"
proof (cases p)
  case (XLock k m)
  then show ?thesis
    using assms by (cases "doWriteToQueue k m c") (auto simp: doWriteToQueue_def Let_def settled_def split: if_splits)
next
  case (XQueue k t)
  then show ?thesis using assms by (auto simp: settled_def panic_def split: if_splits)
next
  case (XTimeout k)
  then show ?thesis using assms by (cases k) (auto simp: Let_def settled_def split: if_splits)
qed (use assms in \<open>auto simp: checkState_def split: conn_state.splits\<close>)

lemma close_settled:
  assumes "close_step ops free p c = Some (c', p')" "hasConn c \<or> chansClosed c"
  shows "(0 < emptying p \<or> settled c) \<longrightarrow> (0 < emptying p' \<or> settled c')"
  using assms by (cases p) (auto simp: settled_def panic_def split: if_splits list.splits)

lemma take_settled: "take_task b c = Some (c', p') \<Longrightarrow> settled c \<Longrightarrow> settled c'"
  by (auto simp: take_task_def settled_def queue_of_def set_queue_def split: list.splits if_splits)

lemma write_settled:
  assumes "write_step ops ch p c = Some (c', p')"
  shows "emptying p = 0 \<and> (settled c \<longrightarrow> settled c')"
proof (cases p)
  case WOuter
  then show ?thesis
    using assms take_settled [of False c c' p'] by (cases ch) (auto simp: doHandleHeartbeat_def split: if_splits)
next
  case WInner
  then show ?thesis
    using assms take_settled [of _ c c' p'] by (cases ch) (auto simp: doHandleHeartbeat_def split: if_splits)
qed (use assms in \<open>auto simp: settled_def panic_def split: if_splits\<close>)

lemma read_settled:
  assumes "read_step ops ch p c = Some (c', p')"
  shows "emptying p = 0 \<and> (settled c \<longrightarrow> settled c')"
proof (cases p)
  case RRead
  then show ?thesis
    using assms by (cases ch; cases "cstate c") (auto simp: settled_def split: if_splits)
qed (use assms in \<open>auto split: if_splits\<close>)

text \<open>The invariant of the budget.\<close>

definition budget_inv :: "ws_world \<Rightarrow> bool" where
  "budget_inv w = (case w of (c, ths) \<Rightarrow>
     budget_ok c (tally pc_bytes ths + queued c) (tally pc_low ths + queued_low c) \<and>
     (\<forall>p \<in> set ths. pc_sig p) \<and> sigs_ok c \<and> drained c (tally emptying ths))"

lemma budget_inv_step:
  assumes inv: "budget_inv (c, ths)" and control: "control_inv (c, ths)" and i: "i < length ths"
    and step: "wpc_step ops free ch (ths ! i) c = Some (c', p')"
  shows "budget_inv (c', ths[i := p']) \<and> limits c' = limits c"
proof -
  let ?p = "ths ! i" and ?o = "others i ths"
  note t = tally_others [OF i]
  have no: "\<not> (holder ?p \<and> chansClosed c)" "hasConn c \<or> chansClosed c"
    using control by (auto simp: control_inv_def control_ok_def t(1) holding_def)
  have sig: "pc_sig ?p" "sigs_ok c" using inv i by (auto simp: budget_inv_def)
  then have closes: "\<And>t. ?p = WGot t \<Longrightarrow> t_typ t = closeSig \<Longrightarrow> t_bytes t = 0" by (simp add: sig_ok_def)
  have "bytes_step c ?p c' p' \<and> (pc_sig p' \<and> sigs_ok c') \<and>
      ((0 < emptying ?p \<or> settled c) \<longrightarrow> (0 < emptying p' \<or> settled c'))"
    using step
  proof (cases rule: step_cases)
    case sends
    show ?thesis
      using send_bytes [OF sends no(1)] send_sigs [OF sends sig] send_settled [OF sends no(2)] by simp
  next
    case closes
    show ?thesis
      using close_bytes [OF closes] close_sigs [OF closes sig(2)] close_settled [OF closes no(2)] by simp
  next
    case writes
    show ?thesis
      using write_bytes [OF writes closes] write_sigs [OF writes sig] write_settled [OF writes] by simp
  next
    case reads
    show ?thesis
      using read_bytes [OF reads] read_sigs [OF reads sig(2)] read_settled [OF reads] by simp
  qed
  then have s: "bytes_step c ?p c' p'" "pc_sig p'" "sigs_ok c'"
      "(0 < emptying ?p \<or> settled c) \<longrightarrow> (0 < emptying p' \<or> settled c')"
    by blast+
  have "budget_ok c (pc_bytes ?p + queued c + tally pc_bytes ?o) (pc_low ?p + queued_low c + tally pc_low ?o)"
    using inv by (simp add: budget_inv_def t(1) ac_simps)
  then have "budget_ok c' (pc_bytes p' + queued c' + tally pc_bytes ?o) (pc_low p' + queued_low c' + tally pc_low ?o)"
    using s(1) unfolding bytes_step_def by (simp add: tally_mono low_le)
  moreover have "\<forall>p \<in> set (ths[i := p']). pc_sig p"
    using inv s(2) set_update_subset_insert [of ths i p'] by (auto simp: budget_inv_def)
  moreover have "drained c' (emptying p' + tally emptying ?o)"
    using inv s(4) by (auto simp: budget_inv_def drained_alt t(1))
  ultimately show ?thesis
    using s(1,3) by (simp add: bytes_step_def budget_inv_def t(2) ac_simps)
qed

lemma budget_act:
  assumes inv: "budget_inv w" "control_inv w" and act: "ws_act ops a w = Some w'"
  shows "budget_inv w' \<and> limits (fst w') = limits (fst w)"
proof -
  obtain c ths where w: "w = (c, ths)" by fastforce
  note ok = inv(1) [unfolded w budget_inv_def, simplified]
  show ?thesis
  proof (cases a)
    case (Spawn p)
    then show ?thesis
      using act ok by (cases p) (auto simp: ws_act_def w budget_inv_def split: if_splits)
  next
    case (Step i ch)
    then obtain c' p' where s: "i < length ths" "wpc_step ops (\<not> list_ex holder ths) ch (ths ! i) c = Some (c', p')" "w' = (c', ths[i := p'])"
      using act by (auto simp: ws_act_def w split: if_splits)
    show ?thesis
      using budget_inv_step [OF _ _ s(1,2)] inv s(3) w by simp
  next
    case (Meet i j)
    then have m: "i < length ths" "j < length ths" "ths ! i = WDone" "ths ! j = GWait" "w' = (c, ths[i := WExit, j := GCas])"
      using act by (auto simp: ws_act_def w split: if_splits)
    then have "i \<noteq> j" by auto
    then have t: "tally f (ths[i := WExit, j := GCas]) = tally f ths" if "f WExit = f WDone" "f GCas = f GWait" for f :: "wpc \<Rightarrow> nat"
      using m that by (simp add: tally_upd_same)
    have "\<forall>p \<in> set (ths[i := WExit, j := GCas]). pc_sig p"
      using ok by (auto dest!: set_update_subset_insert [THEN subsetD])
    then show ?thesis
      using m ok w by (simp add: budget_inv_def t)
  next
    case (OtherReserve n low)
    then obtain b where b: "budget_reserve (budget c) (int n) low = Some b"
        "w' = (c\<lparr>budget := b, otherBytes := otherBytes c + n, otherLow := otherLow c + (if low then n else 0)\<rparr>, ths)"
      using act by (auto simp: ws_act_def w)
    show ?thesis
      using ok b w by (auto simp: budget_inv_def budget_ok_def limits_def sigs_ok_def drained_def queued_def queued_low_def budget_reserve_def split: if_splits)
  next
    case (OtherRelease n low)
    then have b: "if low then n \<le> otherLow c else n \<le> otherBytes c - otherLow c"
        "w' = (c\<lparr>budget := budget_release (budget c) (int n) low, otherBytes := otherBytes c - n,
                       otherLow := otherLow c - (if low then n else 0)\<rparr>, ths)"
      using act by (auto simp: ws_act_def w split: if_splits)
    show ?thesis
      using ok b w
      by (auto simp: budget_inv_def budget_ok_def limits_def sigs_ok_def drained_def queued_def queued_low_def budget_release_def split: if_splits)
  qed
qed

lemma budget_reachable:
  assumes "ws_reachable ops b w" and "budget_sane b"
  shows "budget_inv w \<and> limits (fst w) = (maxBytes b, highReserveBytes b)"
  using assms
proof (induction rule: ws_reachable.induct)
  case ws_init
  then show ?case
    by (auto simp: conn_init_def budget_inv_def budget_ok_def budget_sane_def sigs_ok_def drained_def queued_def queued_low_def limits_def)
next
  case (ws_step w a w')
  then show ?case using budget_act control_reachable by metis
qed

fun ended :: "wpc \<Rightarrow> bool" where
  "ended (XEnd _) = True"
| "ended (CEnd _ _) = True"
| "ended WExit = True"
| "ended _ = False"

text \<open>
  C24: However the goroutines of a connection interleave with each other and with the other connections of the gate, the
  write budget is exact: it counts what the other connections hold plus the bytes of the tasks that are
  queued or in the hands of a goroutine, it never exceeds its maximum, low priority tasks never take what is reserved for
  the others, and a connection whose goroutines have all ended after its close has given everything back.
\<close>

theorem ws_budget_exact:
  assumes "ws_reachable ops b (c, ths)" and "budget_sane b" and "0 < maxBytes b"
  shows "queuedBytes (budget c) = int (otherBytes c + tally pc_bytes ths + queued c) \<and>
    lowPriorityBytes (budget c) = int (otherLow c + tally pc_low ths + queued_low c) \<and>
    queuedBytes (budget c) \<le> maxBytes b \<and> lowPriorityBytes (budget c) \<le> maxBytes b - highReserveBytes b \<and>
    (cstate c = ConnClosed \<and> (\<forall>p \<in> set ths. ended p) \<longrightarrow>
       queuedBytes (budget c) = int (otherBytes c) \<and> lowPriorityBytes (budget c) = int (otherLow c))"
proof -
  have inv: "budget_inv (c, ths)" "control_inv (c, ths)" and l: "maxBytes (budget c) = maxBytes b" "highReserveBytes (budget c) = highReserveBytes b"
    using budget_reachable [OF assms(1,2)] control_reachable [OF assms(1)] by (simp_all add: limits_def)
  have "tally pc_bytes ths + queued c = 0 \<and> tally pc_low ths + queued_low c = 0"
    if "cstate c = ConnClosed" "\<forall>p \<in> set ths. ended p"
  proof -
    have "pc_bytes p = 0 \<and> pc_low p = 0 \<and> emptying p = 0 \<and> locking p = 0" if "p \<in> set ths" for p
      using \<open>\<forall>p \<in> set ths. ended p\<close> that by (cases p) auto
    then have "tally pc_bytes ths = 0" "tally pc_low ths = 0" "tally emptying ths = 0" "tally locking ths = 0"
      by (simp_all add: tally_zero)
    then show ?thesis
      using inv \<open>cstate c = ConnClosed\<close>
      by (auto simp: budget_inv_def drained_def control_inv_def control_ok_def queued_def queued_low_def split: if_splits)
  qed
  then show ?thesis
    using inv(1) assms(3) l by (auto simp: budget_inv_def budget_ok_def)
qed

theorem ws_budget_exact_witness:
  "\<exists>c ths. run_ws grace_opts (take 6 grace_run) (conn_init (newWriteQueueBudget 100 10)) = Some (c, ths) \<and> queued c = 2 \<and>
     queuedBytes (budget c) = 2 \<and> lowPriorityBytes (budget c) \<le> 90"
proof -
  let ?b = "newWriteQueueBudget 100 10"
  let ?r = "run_ws grace_opts (take 6 grace_run) (conn_init ?b)"
  have "map_option (\<lambda>(c, ths). (queued c, tally pc_bytes ths, otherBytes c)) ?r = Some (2, 0, 0)" "budget_sane ?b \<and> maxBytes ?b = 100 \<and> highReserveBytes ?b = 10"
    by code_simp+
  then obtain c ths where r: "?r = Some (c, ths)" "queued c = 2" "tally pc_bytes ths = 0" "otherBytes c = 0"
      and b: "budget_sane ?b" "0 < maxBytes ?b" "maxBytes ?b = 100" "highReserveBytes ?b = 10"
    by (cases ?r) auto
  have "ws_reachable grace_opts ?b (c, ths)"
    by (rule run_ws_reachable [OF ws_init r(1)])
  from ws_budget_exact [OF this b(1,2)] r b(3,4) show ?thesis by simp
qed

end
