(* ===== verification/Ws_Delivery.thy ===== *)
theory Ws_Delivery
  imports Ws_Conn "HOL-Library.Sublist"
begin

text \<open>
  In which order the writer of a websocket connection delivers what the queues have accepted, and what a graceful close flushes.
\<close>

section \<open>Order of delivery\<close>

text \<open>What the writer has taken from the queues, and what it is about to write.\<close>

fun hand :: "wpc \<Rightarrow> task list" where
  "hand (WGot t) = [t]"
| "hand (WWrite t) = [t]"
| "hand _ = []"

fun writing :: "wpc \<Rightarrow> task list" where
  "writing (WWrite t) = [t]"
| "writing _ = []"

fun writer_pc :: "wpc \<Rightarrow> bool" where
  "writer_pc WBegin = True"
| "writer_pc WOuter = True"
| "writer_pc WInner = True"
| "writer_pc (WGot _) = True"
| "writer_pc WDone = True"
| "writer_pc (WWrite _) = True"
| "writer_pc _ = False"

lemma lane_simps [simp]: "lane low [] = []" "lane low (xs @ ys) = lane low xs @ lane low ys" "lane low [close_task] = []"
  "lane low (t # ts) = (if t_low t = low \<and> t_typ t \<noteq> closeSig then t # lane low ts else lane low ts)"
  by (simp_all add: lane_def close_task_def)

definition queued_right :: "bool \<Rightarrow> task \<Rightarrow> bool" where
  "queued_right low t \<longleftrightarrow> t_low t = low \<and> t_typ t \<noteq> closeSig \<or> low \<and> t = close_task"

definition sorted_queues :: "ws_conn \<Rightarrow> bool" where
  "sorted_queues c \<longleftrightarrow> (\<forall>t \<in> set (highPriorityQueue c). queued_right False t) \<and> (\<forall>t \<in> set (lowPriorityQueue c). queued_right True t)"

fun pc_data :: "wpc \<Rightarrow> bool" where
  "pc_data (XQueue _ t) = (t_typ t \<noteq> closeSig)"
| "pc_data (WWrite t) = (t_typ t \<noteq> closeSig)"
| "pc_data (WGot t) = (t_typ t = closeSig \<longrightarrow> t = close_task)"
| "pc_data _ = True"

definition order_ok :: "bool \<Rightarrow> ws_conn \<Rightarrow> wpc \<Rightarrow> bool" where
  "order_ok low c p \<longleftrightarrow>
     prefix (lane low (written c) @ lane low (writing p)) (lane low (accepted c)) \<and>
     (hasConn c \<and> writer_pc p \<longrightarrow>
        lane low (accepted c) = lane low (written c) @ lane low (hand p) @ lane low (queue_of low c))"

text \<open>What the steps of the other goroutines do to the lanes.\<close>

definition lanes_grow :: "ws_conn \<Rightarrow> ws_conn \<Rightarrow> bool" where
  "lanes_grow c c' \<longleftrightarrow> written c' = written c \<and>
     (\<forall>low. prefix (lane low (accepted c)) (lane low (accepted c'))) \<and>
     (hasConn c' \<longrightarrow> hasConn c \<and>
       (\<forall>low. \<exists>ts. lane low (accepted c') = lane low (accepted c) @ ts \<and> lane low (queue_of low c') = lane low (queue_of low c) @ ts))"

lemma order_grow: "order_ok low c p \<Longrightarrow> lanes_grow c c' \<Longrightarrow> order_ok low c' p"
  unfolding order_ok_def lanes_grow_def by (metis append_assoc prefix_order.order_trans)

lemma lanes_same:
  assumes "written c' = written c" "accepted c' = accepted c" "hasConn c' \<longrightarrow> hasConn c \<and> (\<forall>low. lane low (queue_of low c') = lane low (queue_of low c))"
  shows "lanes_grow c c'"
  using assms by (simp add: lanes_grow_def)

lemma send_grow:
  assumes "send_step ops ch p c = Some (c', p')" and "\<not> (holder p \<and> chansClosed c)" "pc_data p" "sorted_queues c"
  shows "lanes_grow c c' \<and> sorted_queues c' \<and> pc_data p' \<and> \<not> writer_pc p \<and> \<not> writer_pc p'"
proof (cases p)
  case (XLock k m)
  then show ?thesis
    using assms by (cases "doWriteToQueue k m c")
      (auto simp: doWriteToQueue_def Let_def send_end_def sorted_queues_def queue_of_def intro!: lanes_same split: if_splits)
next
  case (XQueue k t)
  then have "lanes_grow c c'"
    using assms by (auto simp: lanes_grow_def queue_of_def set_queue_def split: if_splits)
  moreover have "sorted_queues c'"
    using assms XQueue by (cases "t_low t") (auto simp: sorted_queues_def queued_right_def queue_of_def set_queue_def split: if_splits)
  ultimately show ?thesis
    using assms XQueue by (auto simp: send_end_def split: if_splits)
next
  case (XTimeout k)
  then show ?thesis
    using assms by (cases k) (auto simp: Let_def sorted_queues_def queue_of_def intro!: lanes_same split: if_splits)
qed (use assms in \<open>auto simp: checkState_def intro!: lanes_same split: conn_state.splits\<close>)

lemma read_grow:
  assumes "read_step ops ch p c = Some (c', p')" and "sorted_queues c"
  shows "lanes_grow c c' \<and> sorted_queues c' \<and> pc_data p' \<and> \<not> writer_pc p \<and> \<not> writer_pc p'"
proof (cases p)
  case RRead
  then show ?thesis
    using assms by (cases ch; cases "cstate c") (auto simp: sorted_queues_def queue_of_def intro!: lanes_same split: if_splits)
qed (use assms in \<open>auto intro!: lanes_same split: if_splits\<close>)

lemma close_grow:
  assumes step: "close_step ops free p c = Some (c', p')" and "\<not> (holder p \<and> chansClosed c)" "sorted_queues c" "0 < discarding p \<longrightarrow> \<not> hasConn c"
  shows "lanes_grow c c' \<and> sorted_queues c' \<and> pc_data p' \<and> \<not> writer_pc p \<and> \<not> writer_pc p'"
proof -
  have w: "pc_data p' \<and> \<not> writer_pc p \<and> \<not> writer_pc p'"
    using step by (cases p) (auto simp: panic_def split: if_splits list.splits)
  have "written c' = written c \<and> accepted c' = accepted c"
    using step by (cases p) (auto simp: panic_def split: if_splits list.splits)
  moreover have "(hasConn c' \<longrightarrow> hasConn c \<and> (\<forall>low. lane low (queue_of low c') = lane low (queue_of low c))) \<and> sorted_queues c'"
  proof (cases "\<exists>g. p = DDiscard g")
    case True
    then show ?thesis
      using step assms(3,4) by (auto simp: sorted_queues_def split: list.splits)
  next
    case False
    then have "(hasConn c' \<longrightarrow> hasConn c) \<and> highPriorityQueue c' = highPriorityQueue c \<and>
        (lowPriorityQueue c' = lowPriorityQueue c \<or> lowPriorityQueue c' = lowPriorityQueue c @ [close_task])"
      using step by (cases p) (auto simp: panic_def split: if_splits)
    then show ?thesis
      using assms(3) by (auto simp: sorted_queues_def queued_right_def queue_of_def close_task_def)
  qed
  ultimately show ?thesis using w lanes_same by blast
qed

lemma take_order:
  assumes "take_task b c = Some (c', p')" and "sorted_queues c" "hand p = []" "writer_pc p" "order_ok low c p"
  shows "order_ok low c' p' \<and> sorted_queues c' \<and> pc_data p'"
proof (cases "queue_of b c")
  case Nil
  then show ?thesis
    using assms by (auto simp: take_task_def order_ok_def split: if_splits dest: append_prefixD)
next
  case (Cons t q)
  then have r: "queued_right b t" "c' = set_queue b q c" "p' = WGot t"
    using assms(1,2) by (auto simp: take_task_def sorted_queues_def queue_of_def split: if_splits)
  then have "sorted_queues c'" "pc_data p'"
    using assms(2) Cons by (auto simp: sorted_queues_def queue_of_def set_queue_def queued_right_def split: if_splits)
  moreover have "lane low (queue_of low c) = lane low [t] @ lane low (queue_of low c')"
    using Cons r(1,2) by (cases b; cases low) (auto simp: queue_of_def set_queue_def queued_right_def close_task_def)
  then have "order_ok low c' p'"
    using assms(3-5) r(2,3) by (auto simp: order_ok_def dest: append_prefixD)
  ultimately show ?thesis by simp
qed

lemma beat_order:
  "doHandleHeartbeat ops f c = Some (c', p') \<Longrightarrow> sorted_queues c \<Longrightarrow> hand p = [] \<Longrightarrow> writer_pc p \<Longrightarrow> order_ok low c p \<Longrightarrow>
   order_ok low c' p' \<and> sorted_queues c' \<and> pc_data p'"
  by (auto simp: doHandleHeartbeat_def order_ok_def split: if_splits dest: append_prefixD)

lemma write_order:
  assumes step: "write_step ops ch p c = Some (c', p')" and "\<not> (holder p \<and> chansClosed c)" "sorted_queues c" "pc_data p" "order_ok low c p"
    and conn: "cstate c \<noteq> ConnClosed \<longrightarrow> hasConn c"
  shows "order_ok low c' p' \<and> sorted_queues c' \<and> pc_data p' \<and> writer_pc p"
proof (cases p)
  case WOuter
  then show ?thesis
    using assms take_order [of False c c' p' p low] beat_order [of ops _ c c' p' p low]
    by (cases ch) (auto simp: order_ok_def split: if_splits)
next
  case WInner
  then show ?thesis
    using assms take_order [of _ c c' p' p low] beat_order [of ops _ c c' p' p low] by (cases ch) auto
next
  case (WGot t)
  then show ?thesis
    using assms by (auto simp: order_ok_def isClosed_def sorted_queues_def queue_of_def split: if_splits dest: append_prefixD)
next
  case (WWrite t)
  then show ?thesis
    using assms by (auto simp: order_ok_def sorted_queues_def queue_of_def split: if_splits dest: append_prefixD)
qed (use assms in \<open>auto simp: order_ok_def split: if_splits\<close>)

text \<open>Where the close signal is, seen from the writer.\<close>

definition no_signal :: "wpc \<Rightarrow> bool" where
  "no_signal p \<longleftrightarrow> hand p \<noteq> [close_task] \<and> p \<noteq> WDone"

text \<open>The number of messages in front of the only signal.\<close>

primrec ahead :: "task list \<Rightarrow> nat option" where
  "ahead [] = None"
| "ahead (t # q) =
     (if t = close_task then (if close_task \<in> set q then None else Some 0)
      else map_option (\<lambda>m. length (lane True [t]) + m) (ahead q))"

lemma ahead_append: "ahead q = Some m \<Longrightarrow> close_task \<notin> set ts \<Longrightarrow> ahead (q @ ts) = Some m"
  by (induction q arbitrary: m) (auto split: if_splits)

lemma ahead_new: "close_task \<notin> set q \<Longrightarrow> ahead (q @ [close_task]) = Some (length (lane True q))"
  by (induction q) auto

definition signal_ok :: "ws_conn \<Rightarrow> wpc \<Rightarrow> bool" where
  "signal_ok c p =
     (case mark c of
        None \<Rightarrow> close_task \<notin> set (lowPriorityQueue c) \<and> no_signal p
      | Some n \<Rightarrow> hasConn c \<and> writer_pc p \<longrightarrow>
          (if no_signal p
           then \<exists>m. ahead (lowPriorityQueue c) = Some m \<and> n = length (lane True (written c)) + length (lane True (hand p)) + m
           else close_task \<notin> set (lowPriorityQueue c) \<and> n = length (lane True (written c))))"

lemma no_signal_simps [simp]:
  "no_signal WBegin" "no_signal WOuter" "no_signal WInner" "\<not> no_signal WDone" "no_signal (WGot t) \<longleftrightarrow> t \<noteq> close_task"
  "no_signal (WWrite t) \<longleftrightarrow> t \<noteq> close_task" "hand p = [] \<Longrightarrow> p \<noteq> WDone \<Longrightarrow> no_signal p"
  by (simp_all add: no_signal_def)

text \<open>Data does not disturb the signal.\<close>

lemma signal_data:
  assumes "signal_ok c p" and "mark c' = mark c" "written c' = written c" "hasConn c' \<longrightarrow> hasConn c"
    and "lowPriorityQueue c' = lowPriorityQueue c @ ts" "close_task \<notin> set ts"
  shows "signal_ok c' p"
proof (cases "mark c")
  case None
  then show ?thesis using assms by (simp add: signal_ok_def)
next
  case (Some n)
  then show ?thesis using assms by (auto simp: signal_ok_def ahead_append)
qed

lemma send_signal:
  assumes "send_step ops ch p c = Some (c', p')" and "pc_data p"
  shows "\<exists>ts. mark c' = mark c \<and> hasConn c' = hasConn c \<and> written c' = written c \<and> cstate c' = cstate c \<and>
    lowPriorityQueue c' = lowPriorityQueue c @ ts \<and> close_task \<notin> set ts"
proof (cases p)
  case (XLock k m)
  then show ?thesis
    using assms by (cases "doWriteToQueue k m c") (auto simp: doWriteToQueue_def Let_def split: if_splits)
next
  case (XQueue k t)
  then have "close_task \<noteq> t" using assms(2) by (auto simp: close_task_def)
  then show ?thesis
    using assms(1) XQueue by (cases "t_low t") (auto simp: queue_of_def set_queue_def panic_def split: if_splits)
next
  case (XTimeout k)
  then show ?thesis using assms by (cases k) (auto simp: Let_def split: if_splits)
qed (use assms in \<open>auto simp: checkState_def split: conn_state.splits\<close>)

lemma read_signal:
  assumes "read_step ops ch p c = Some (c', p')"
  shows "mark c' = mark c \<and> hasConn c' = hasConn c \<and> written c' = written c \<and> cstate c' = cstate c \<and> lowPriorityQueue c' = lowPriorityQueue c"
proof (cases p)
  case RRead
  then show ?thesis
    using assms by (cases ch; cases "cstate c") (auto split: if_splits)
qed (use assms in \<open>auto split: if_splits\<close>)

lemma close_signal:
  assumes step: "close_step ops free p c = Some (c', p')" and ok: "signal_ok c p0" "order_ok True c p0" "0 < discarding p \<longrightarrow> \<not> hasConn c"
    and "p = GSend \<longrightarrow> mark c = None \<and> \<not> chansClosed c"
  shows "signal_ok c' p0"
proof -
  consider (signal) "p = GSend" | (discard) g where "p = DDiscard g" | (other) "p \<noteq> GSend" "\<And>g. p \<noteq> DDiscard g" by blast
  then show ?thesis
  proof cases
    case signal
    then have c': "c' = c\<lparr>lowPriorityQueue := lowPriorityQueue c @ [close_task], mark := Some (lowAccepted c)\<rparr>" and m: "mark c = None"
      using step assms(5) by (auto split: if_splits)
    show ?thesis
      using ok m by (auto simp: signal_ok_def c' order_ok_def lowAccepted_def queue_of_def ahead_new)
  next
    case (discard g)
    then have "set (lowPriorityQueue c') \<subseteq> set (lowPriorityQueue c)" "mark c' = mark c" "\<not> hasConn c'"
      using step ok(3) by (auto split: list.splits)
    then show ?thesis using ok(1) by (auto simp: signal_ok_def split: option.splits)
  next
    case other
    then have "mark c' = mark c \<and> written c' = written c \<and> (hasConn c' \<longrightarrow> hasConn c) \<and> lowPriorityQueue c' = lowPriorityQueue c"
      using step by (cases p) (auto simp: panic_def split: if_splits)
    then show ?thesis using signal_data [OF ok(1), of c' "[]"] by simp
  qed
qed

lemma take_signal:
  assumes "take_task b c = Some (c', p')" and "sorted_queues c" "hand p = []" "p \<noteq> WDone" "writer_pc p" "signal_ok c p"
  shows "signal_ok c' p'"
proof (cases "queue_of b c")
  case Nil
  then show ?thesis
    using assms by (auto simp: take_task_def signal_ok_def split: if_splits option.splits)
next
  case (Cons t q)
  then have r: "queued_right b t" "c' = set_queue b q c" "p' = WGot t"
    using assms(1,2) by (auto simp: take_task_def sorted_queues_def queue_of_def split: if_splits)
  show ?thesis
  proof (cases b)
    case True
    then show ?thesis
      using assms(3-6) r Cons by (auto simp: signal_ok_def set_queue_def queue_of_def split: option.splits if_splits)
  next
    case False
    then have "t \<noteq> close_task" "lane True [t] = []" using r(1) by (auto simp: queued_right_def close_task_def)
    then show ?thesis
      using assms(3-6) r(2,3) False by (auto simp: signal_ok_def set_queue_def split: option.splits)
  qed
qed

lemma beat_signal:
  "doHandleHeartbeat ops f c = Some (c', p') \<Longrightarrow> hand p = [] \<Longrightarrow> p \<noteq> WDone \<Longrightarrow> writer_pc p \<Longrightarrow> signal_ok c p \<Longrightarrow> signal_ok c' p'"
  by (auto simp: doHandleHeartbeat_def signal_ok_def split: if_splits option.splits)

lemma take_frame: "take_task b c = Some (c', p') \<Longrightarrow> mark c' = mark c \<and> cstate c' = cstate c"
  by (auto simp: take_task_def split: if_splits list.splits)

lemma beat_frame: "doHandleHeartbeat ops f c = Some (c', p') \<Longrightarrow> c' = c"
  by (auto simp: doHandleHeartbeat_def split: if_splits)

lemma write_signal:
  assumes step: "write_step ops ch p c = Some (c', p')" and "\<not> (holder p \<and> chansClosed c)" "sorted_queues c" "pc_data p" "signal_ok c p"
    and conn: "cstate c \<noteq> ConnClosed \<longrightarrow> hasConn c"
  shows "signal_ok c' p' \<and> mark c' = mark c \<and> cstate c' = cstate c"
proof (cases p)
  case WOuter
  have "signal_ok c WInner" if "signal_ok c WOuter" using that by (simp add: signal_ok_def split: option.splits)
  then show ?thesis
    using assms WOuter take_signal [of False c c' p' p] beat_signal [of ops _ c c' p' p] take_frame [of False c c' p'] beat_frame [of ops _ c c' p']
    by (cases ch) (auto split: if_splits)
next
  case WInner
  then show ?thesis
    using assms take_signal [of _ c c' p' p] beat_signal [of ops _ c c' p' p] take_frame [of _ c c' p'] beat_frame [of ops _ c c' p']
    by (cases ch) auto
next
  case (WGot t)
  then show ?thesis
    using assms by (auto simp: signal_ok_def close_task_def split: if_splits option.splits)
next
  case (WWrite t)
  then have "t \<noteq> close_task" using assms(4) by (auto simp: close_task_def)
  then show ?thesis
    using assms WWrite by (auto simp: signal_ok_def split: if_splits option.splits)
qed (use assms in \<open>auto simp: signal_ok_def split: if_splits option.splits\<close>)

text \<open>One graceful close at most gets past the first compare-and-swap, and it goes on to close once the writer has met it.\<close>

fun gracing :: "wpc \<Rightarrow> nat" where
  "gracing GLock = 1"
| "gracing GSend = 1"
| "gracing _ = 0"

definition granted :: "conn_state \<Rightarrow> wpc \<Rightarrow> bool" where
  "granted st p \<longleftrightarrow> p = GCas \<and> st \<noteq> ConnClosed \<or> p \<in> {DLock True, DDiscard True, DSocket True, DHandler True, DRecycle True, CEnd True (Ok ())}"

definition flushed :: "ws_conn \<Rightarrow> wpc \<Rightarrow> bool" where
  "flushed c p \<longleftrightarrow> \<not> writer_pc p \<and> mark c = Some (length (lane True (written c)))"

definition grace_ok :: "ws_conn \<Rightarrow> nat \<Rightarrow> bool" where
  "grace_ok c g \<longleftrightarrow> g + (if mark c = None then 0 else 1) \<le> (if cstate c = ConnOpened then 0 else 1)"

lemma send_grace:
  assumes "send_step ops ch p c = Some (c', p')"
  shows "gracing p = 0 \<and> gracing p' = 0 \<and> \<not> granted st p'"
proof (cases p)
  case (XLock k m)
  then show ?thesis
    using assms by (cases "doWriteToQueue k m c") (auto simp: send_end_def granted_def split: if_splits)
next
  case (XTimeout k)
  then show ?thesis using assms by (cases k) (auto simp: Let_def granted_def split: if_splits)
qed (use assms in \<open>auto simp: send_end_def panic_def granted_def split: if_splits res.splits\<close>)

lemma read_grace:
  assumes "read_step ops ch p c = Some (c', p')"
  shows "gracing p = 0 \<and> gracing p' = 0 \<and> \<not> granted st p'"
proof (cases p)
  case RRead
  then show ?thesis using assms by (cases ch; cases "cstate c") (auto simp: granted_def split: if_splits)
qed (use assms in \<open>auto simp: granted_def split: if_splits\<close>)

lemma take_grace: "take_task b c = Some (c', p') \<Longrightarrow> gracing p' = 0 \<and> \<not> granted st p'"
  by (auto simp: take_task_def granted_def split: list.splits if_splits)

lemma beat_grace: "doHandleHeartbeat ops f c = Some (c', p') \<Longrightarrow> gracing p' = 0 \<and> \<not> granted st p'"
  by (auto simp: doHandleHeartbeat_def granted_def split: if_splits)

lemma write_grace:
  assumes "write_step ops ch p c = Some (c', p')"
  shows "gracing p = 0 \<and> gracing p' = 0 \<and> \<not> granted st p'"
proof (cases p)
  case WOuter
  then show ?thesis
    using assms take_grace [of False c c' p' st] beat_grace [of ops _ c c' p' st] by (cases ch) (auto simp: granted_def split: if_splits)
next
  case WInner
  then show ?thesis
    using assms take_grace [of _ c c' p' st] beat_grace [of ops _ c c' p' st] by (cases ch) auto
qed (use assms in \<open>auto simp: panic_def granted_def split: if_splits\<close>)

lemma close_grace:
  assumes step: "close_step ops free p c = Some (c', p')" and "grace_ok c (gracing p + g)"
    and "chansClosed c \<longrightarrow> cstate c = ConnClosed"
  shows "grace_ok c' (gracing p' + g) \<and> (granted (cstate c') p' \<longrightarrow> granted (cstate c) p) \<and> (cstate c = ConnClosed \<longrightarrow> cstate c' = ConnClosed) \<and>
    (mark c' = mark c \<or> mark c = None)"
  using step
proof (cases p)
  case (DDiscard b)
  then show ?thesis using step assms(2) by (auto simp: grace_ok_def granted_def split: list.splits)
next
  case GCas
  then show ?thesis using step assms(2) by (cases "cstate c") (auto simp: grace_ok_def granted_def)
qed (use assms(2,3) in \<open>auto simp: grace_ok_def granted_def panic_def split: if_splits\<close>)

definition order_inv :: "ws_world \<Rightarrow> bool" where
  "order_inv w = (case w of (c, ths) \<Rightarrow>
     sorted_queues c \<and> (\<forall>p \<in> set ths. pc_data p) \<and> ths \<noteq> [] \<and> (\<forall>i < length ths. 0 < i \<longrightarrow> \<not> writer_pc (ths ! i)) \<and>
     (\<forall>low. order_ok low c (ths ! 0)) \<and> signal_ok c (ths ! 0) \<and> grace_ok c (tally gracing ths) \<and>
     ((\<exists>p \<in> set ths. granted (cstate c) p) \<longrightarrow> flushed c (ths ! 0)))"

lemma not_writer:
  assumes "\<not> writer_pc p"
  shows "writing p = []" "hand p = []" "no_signal p"
  using assms by (cases p; simp add: no_signal_def)+

lemma order_exit: "order_ok low c p \<Longrightarrow> \<not> writer_pc p' \<Longrightarrow> order_ok low c p'"
  by (auto simp: order_ok_def not_writer dest: append_prefixD)

lemma signal_exit: "signal_ok c p \<Longrightarrow> \<not> writer_pc p' \<Longrightarrow> signal_ok c p'"
  by (auto simp: signal_ok_def not_writer split: option.splits)

lemma granted_mono: "granted st' p \<Longrightarrow> (st = ConnClosed \<longrightarrow> st' = ConnClosed) \<Longrightarrow> granted st p"
  by (auto simp: granted_def)

lemma other_step:
  assumes step: "send_step ops ch p c = Some (c', p') \<or> close_step ops free p c = Some (c', p') \<or> read_step ops ch p c = Some (c', p')"
    and no: "\<not> (holder p \<and> chansClosed c)" "chansClosed c \<longrightarrow> cstate c = ConnClosed" "0 < discarding p \<longrightarrow> \<not> hasConn c"
    and ok: "sorted_queues c" "pc_data p" "order_ok True c p0" "signal_ok c p0" "grace_ok c (gracing p + g)"
  shows "(lanes_grow c c' \<and> sorted_queues c' \<and> pc_data p' \<and> \<not> writer_pc p \<and> \<not> writer_pc p') \<and> signal_ok c' p0 \<and> grace_ok c' (gracing p' + g) \<and>
    (granted (cstate c') p' \<longrightarrow> granted (cstate c) p) \<and> (cstate c = ConnClosed \<longrightarrow> cstate c' = ConnClosed) \<and> (mark c' = mark c \<or> mark c = None)"
  using step
proof (elim disjE)
  assume s: "send_step ops ch p c = Some (c', p')"
  obtain ts where "mark c' = mark c" "hasConn c' = hasConn c" "written c' = written c" "cstate c' = cstate c"
      "lowPriorityQueue c' = lowPriorityQueue c @ ts" "close_task \<notin> set ts"
    using send_signal [OF s ok(2)] by blast
  then show ?thesis
    using send_grow [OF s no(1) ok(2,1)] signal_data [OF ok(4)] send_grace [OF s] ok(5) by (simp add: grace_ok_def)
next
  assume s: "close_step ops free p c = Some (c', p')"
  have "p = GSend \<longrightarrow> mark c = None \<and> \<not> chansClosed c"
    using ok(5) no(1) by (auto simp: grace_ok_def split: if_splits)
  then show ?thesis
    using close_grow [OF s no(1) ok(1) no(3)] close_signal [OF s ok(4,3) no(3)] close_grace [OF s ok(5) no(2)] by blast
next
  assume s: "read_step ops ch p c = Some (c', p')"
  then show ?thesis
    using read_grow [OF s ok(1)] read_signal [OF s] signal_data [OF ok(4), of c' "[]"] read_grace [OF s] ok(5) by (simp add: grace_ok_def)
qed

lemma order_step:
  assumes inv: "order_inv (c, ths)" and control: "control_inv (c, ths)" and i: "i < length ths"
    and step: "wpc_step ops free ch (ths ! i) c = Some (c', p')"
  shows "order_inv (c', ths[i := p'])"
proof -
  let ?p = "ths ! i" and ?g = "tally gracing (others i ths)"
  note t = tally_others [OF i]
  have no: "\<not> (holder ?p \<and> chansClosed c)" "chansClosed c \<longrightarrow> cstate c = ConnClosed" "0 < discarding ?p \<longrightarrow> \<not> hasConn c"
      "cstate c \<noteq> ConnClosed \<longrightarrow> hasConn c"
    using control by (auto simp: control_inv_def control_ok_def t(1) holding_def split: if_splits)
  have ok: "sorted_queues c" "\<forall>p \<in> set ths. pc_data p" "ths \<noteq> []" "\<And>j. j < length ths \<Longrightarrow> 0 < j \<Longrightarrow> \<not> writer_pc (ths ! j)"
      "\<And>low. order_ok low c (ths ! 0)" "signal_ok c (ths ! 0)" "grace_ok c (gracing ?p + ?g)"
      "(\<exists>p \<in> set ths. granted (cstate c) p) \<longrightarrow> flushed c (ths ! 0)"
    using inv by (auto simp: order_inv_def t(1))
  have d: "pc_data ?p" "?p \<in> set ths" using ok(2) i by auto
  have upd: "q = p' \<or> q \<in> set ths" if "q \<in> set (ths[i := p'])" for q
    using that set_update_subset_insert [of ths i p'] by auto
  show ?thesis
  proof (cases "write_step ops ch ?p c = Some (c', p')")
    case True
    note w = write_order [OF True no(1) ok(1) d(1) _ no(4)]
    have "writer_pc ?p" using True by (cases ?p) simp_all
    then have z: "i = 0" using ok(4) i by (cases i) auto
    have s: "order_ok low c' p'" "sorted_queues c'" "pc_data p'" for low
      using w ok(5) [of low] z by auto
    have m: "signal_ok c' p'" "mark c' = mark c" "cstate c' = cstate c"
      using write_signal [OF True no(1) ok(1) d(1) _ no(4)] ok(6) z by auto
    have "\<not> granted (cstate c') q" if "q \<in> set (ths[i := p'])" for q
      using upd [OF that] write_grace [OF True] ok(8) m(3) \<open>writer_pc ?p\<close> z by (auto simp: flushed_def)
    moreover have "grace_ok c' (tally gracing (ths[i := p']))"
      using ok(7) m write_grace [OF True] by (simp add: grace_ok_def t(2))
    moreover have "\<forall>q \<in> set (ths[i := p']). pc_data q" using upd s(3) ok(2) by blast
    ultimately show ?thesis
      using s m ok(3,4) z by (auto simp: order_inv_def)
  next
    case False
    then have step': "send_step ops ch ?p c = Some (c', p') \<or> close_step ops free ?p c = Some (c', p') \<or> read_step ops ch ?p c = Some (c', p')"
      using step by (auto elim: step_cases)
    have o: "lanes_grow c c'" "sorted_queues c'" "pc_data p'" "\<not> writer_pc p'" "\<not> writer_pc ?p" "granted (cstate c') p' \<longrightarrow> granted (cstate c) ?p"
        "cstate c = ConnClosed \<longrightarrow> cstate c' = ConnClosed" "mark c' = mark c \<or> mark c = None" "signal_ok c' (ths ! 0)" "grace_ok c' (gracing p' + ?g)"
      using other_step [OF step' no(1-3) ok(1) d(1) ok(5,6,7)] by - (elim conjE, assumption)+
    have z: "order_ok low c' (ths[i := p'] ! 0)" "signal_ok c' (ths[i := p'] ! 0)" for low
      using order_grow [OF ok(5) o(1)] order_exit [OF _ o(4)] signal_exit [OF o(9) o(4)] o(9) i by (cases "i = 0"; auto)+
    have "flushed c' (ths[i := p'] ! 0)" if "q \<in> set (ths[i := p'])" "granted (cstate c') q" for q
    proof -
      have "\<exists>p \<in> set ths. granted (cstate c) p"
        using upd [OF that(1)] that(2) o(6,7) d(2) granted_mono by blast
      then have "flushed c (ths ! 0)" using ok(8) by blast
      then show ?thesis using o(1,4,5,8) i by (cases "i = 0") (auto simp: flushed_def lanes_grow_def)
    qed
    moreover have "\<forall>q \<in> set (ths[i := p']). pc_data q" using upd o(3) ok(2) by blast
    moreover have "\<not> writer_pc (ths[i := p'] ! j)" if "j < length ths" "0 < j" for j
      using that ok(4) o(4) i by (cases "i = j") auto
    ultimately show ?thesis
      using z o(2,10) ok(3) by (auto simp: order_inv_def t(2))
  qed
qed

lemma order_other:
  assumes "order_inv (c, ths)" and "c' = c\<lparr>budget := b, otherBytes := x, otherLow := y\<rparr>"
  shows "order_inv (c', ths)"
proof -
  have f: "written c' = written c" "accepted c' = accepted c" "hasConn c' = hasConn c" "queue_of low c' = queue_of low c" "mark c' = mark c"
      "cstate c' = cstate c" "lowPriorityQueue c' = lowPriorityQueue c" "highPriorityQueue c' = highPriorityQueue c" for low
    by (simp_all add: assms(2) queue_of_def)
  have "order_ok low c' p = order_ok low c p" "signal_ok c' p = signal_ok c p" "grace_ok c' g = grace_ok c g" "flushed c' p = flushed c p"
      "sorted_queues c' = sorted_queues c" for low p g
    unfolding order_ok_def signal_ok_def grace_ok_def flushed_def sorted_queues_def f by (rule refl)+
  then show ?thesis using assms(1) by (simp add: order_inv_def f)
qed

lemma order_meet:
  assumes inv: "order_inv (c, ths)" "control_inv (c, ths)" and "i < length ths" "j < length ths" "ths ! i = WDone" "ths ! j = GWait"
  shows "order_inv (c, ths[i := WExit, j := GCas])"
proof -
  have "i = 0" using inv(1) assms(3,5) by (cases i) (auto simp: order_inv_def)
  then have ij: "i = 0" "0 < j" using assms(5,6) by (auto intro: gr0I)
  have "hasConn c"
    using inv(2) tally_others(1) [OF assms(3), of holding] assms(5) by (auto simp: control_inv_def control_ok_def holding_def)
  then have f: "flushed c WExit"
    using inv(1) ij(1) assms(5) by (auto simp: order_inv_def signal_ok_def flushed_def split: option.splits)
  have s: "order_ok low c WExit" "signal_ok c WExit" for low
    using inv(1) by (auto simp: order_inv_def intro: order_exit [where p = "ths ! 0"] signal_exit [where p = "ths ! 0"])
  have "tally gracing (ths[i := WExit, j := GCas]) = tally gracing ths"
    using assms(3-6) ij by (simp add: tally_upd_same)
  moreover have "\<forall>q \<in> set (ths[i := WExit, j := GCas]). pc_data q"
    using inv(1) by (auto simp: order_inv_def dest!: set_update_subset_insert [THEN subsetD])
  moreover have "\<not> writer_pc (ths[i := WExit, j := GCas] ! k)" if "k < length ths" "0 < k" for k
    using that inv(1) ij by (cases "k = j") (auto simp: order_inv_def)
  moreover have "ths[i := WExit, j := GCas] ! 0 = WExit" using ij assms(3) by simp
  ultimately show ?thesis
    using inv(1) f s by (auto simp: order_inv_def)
qed

lemma order_spawn:
  assumes "order_inv (c, ths)" "spawnable p"
  shows "order_inv (c, ths @ [p])"
proof -
  have "pc_data p" "\<not> writer_pc p" "gracing p = 0" "\<not> granted st p" for st
    using assms(2) by (cases p; simp add: granted_def)+
  then show ?thesis using assms(1) by (auto simp: order_inv_def nth_append less_Suc_eq)
qed

lemma order_act:
  assumes inv: "order_inv w" "control_inv w" and act: "ws_act ops a w = Some w'"
  shows "order_inv w'"
proof -
  obtain c ths where w: "w = (c, ths)" by fastforce
  show ?thesis
  proof (cases a)
    case (Spawn p)
    then show ?thesis using act inv order_spawn by (auto simp: ws_act_def w split: if_splits)
  next
    case (Step i ch)
    then show ?thesis using act inv order_step [of c ths i ops _ ch] by (auto simp: ws_act_def w split: if_splits)
  next
    case (Meet i j)
    then show ?thesis using act inv order_meet by (auto simp: ws_act_def w split: if_splits)
  next
    case (OtherReserve n low)
    then show ?thesis using act inv(1) by (auto simp: ws_act_def w intro: order_other)
  next
    case (OtherRelease n low)
    then have "w' = (c\<lparr>budget := budget_release (budget c) (int n) low, otherBytes := otherBytes c - n,
                       otherLow := otherLow c - (if low then n else 0)\<rparr>, ths)"
      using act by (auto simp: ws_act_def w split: if_splits)
    then show ?thesis using order_other [OF inv(1) [unfolded w] refl] by simp
  qed
qed

lemma order_reachable: "ws_reachable ops b w \<Longrightarrow> order_inv w"
proof (induction rule: ws_reachable.induct)
  case ws_init
  show ?case
    by (auto simp: conn_init_def order_inv_def order_ok_def signal_ok_def grace_ok_def flushed_def sorted_queues_def queue_of_def granted_def less_Suc_eq)
next
  case (ws_step w a w')
  then show ?case using order_act control_reachable by metis
qed

text \<open>
  C25: What a connection delivers: the messages of each priority are written to the socket in the order in which the
  queue took them, none twice and none skipped, whatever closes race with the senders; and when a graceful
  close succeeds, exactly the pushes accepted before its signal have been written.
\<close>

theorem ws_delivery_order:
  assumes "ws_reachable ops b (c, ths)"
  shows "prefix (lane low (written c)) (lane low (accepted c)) \<and>
    (CEnd True (Ok ()) \<in> set ths \<longrightarrow> (\<exists>n. mark c = Some n \<and> lane True (written c) = take n (lane True (accepted c))))"
proof -
  have inv: "order_ok low c (ths ! 0)" "order_ok True c (ths ! 0)" "(\<exists>p \<in> set ths. granted (cstate c) p) \<longrightarrow> flushed c (ths ! 0)"
    using order_reachable [OF assms] by (auto simp: order_inv_def)
  then have p: "prefix (lane low (written c)) (lane low (accepted c))" "prefix (lane True (written c)) (lane True (accepted c))"
    by (auto simp: order_ok_def dest: append_prefixD)
  have "\<exists>n. mark c = Some n \<and> lane True (written c) = take n (lane True (accepted c))" if "CEnd True (Ok ()) \<in> set ths"
    using inv(3) that p(2) by (auto simp: granted_def flushed_def prefix_def)
  then show ?thesis using p(1) by blast
qed

theorem ws_delivery_order_witness:
  "\<exists>c ths. run_ws grace_opts grace_run (conn_init (newWriteQueueBudget 100 10)) = Some (c, ths) \<and>
     accepted c \<noteq> [] \<and> (\<exists>n. mark c = Some n \<and> lane True (written c) = take n (lane True (accepted c)))"
proof -
  let ?r = "run_ws grace_opts grace_run (conn_init (newWriteQueueBudget 100 10))"
  have "map_option (\<lambda>(c, ths). (list_ex (\<lambda>p. p = CEnd True (Ok ())) ths, accepted c = [])) ?r = Some (True, False)"
    by code_simp
  then obtain c ths where r: "?r = Some (c, ths)" "CEnd True (Ok ()) \<in> set ths" "accepted c \<noteq> []"
    by (cases ?r) (auto simp: list_ex_iff)
  have "ws_reachable grace_opts (newWriteQueueBudget 100 10) (c, ths)"
    by (rule run_ws_reachable [OF ws_init r(1)])
  from ws_delivery_order [OF this] r show ?thesis by blast
qed

text \<open>
  High priority messages have no such promise: the inner \<open>select\<close> of the writer may take the close signal while a message of
  the high priority queue, accepted before the close, is waiting; it is discarded.
\<close>

definition lost_run :: "ws_action list" where
  "lost_run = [Step 0 Go, Step 1 Go, Step 0 Go, Spawn (XStart KSend [7]), Step 2 Go, Step 2 Go, Step 2 Go,
     Spawn GStart, Step 3 Go, Step 3 Go, Step 3 Go, Step 0 TakeLow, Step 0 Go, Meet 0 3, Step 3 Go, Step 3 Go, Step 3 Go,
     Step 3 Go, Step 3 Go, Step 3 Go, Step 3 Go]"

lemma grace_loses_send:
  "map_option (\<lambda>(c, ths). (map t_msg (accepted c), written c, ths ! 2, ths ! 3)) (run_ws grace_opts lost_run (conn_init (newWriteQueueBudget 100 10))) =
     Some ([[7]], [], XEnd (Ok ()), CEnd True (Ok ()))"
  by code_simp

end
