(* ===== verification/Client_Conn.thy ===== *)
theory Client_Conn
  imports Go_Prelude Tally "HOL-Library.Multiset"
begin

text \<open>
  A connection of the transport client (\<open>internal/transporter/internal/client/conn.go\<close>): dialling with
  retries, the handshake, senders, the reader and the writer of each socket, and reconnecting.  A goroutine is a
  program counter that stops at atomic operations, channel operations and locks.  A socket is the number of
  the dial that made it (its epoch); messages are numbers.  What becomes of a call whose message is written
  is the subject of \<open>Call_State\<close>.
\<close>

section \<open>State\<close>

record dial_opts =
  DialRetryTimes :: int
  WriteTimeout :: bool
  WriteQueueSize :: nat
  FaultRecoveryTime :: int
  IsReleaseMode :: bool

datatype tc_status = TClosed | TOpened | THanged

text \<open>
  \<open>tc_epoch\<close> is the epoch of \<open>c.conn\<close> and \<open>c.ctx\<close> (0 before the first dial).  The channels \<open>success\<close> and
  \<open>failure\<close> are replaced together with every dial that ends: \<open>tc_outcomes\<close> are the ends so far, and who waits, waits for
  the end with a certain index.  \<open>tc_sent\<close>, \<open>tc_written\<close> and \<open>tc_dropped\<close> record messages given to \<open>send\<close>, written to a socket
  and released unwritten; \<open>tc_slept\<close> the milliseconds slept between dials; times are in nanoseconds.
\<close>

record tconn =
  tc_state :: tc_status
  tc_epoch :: nat
  tc_cancelled :: "nat list"
  tc_closed :: "nat list"
  tc_locked :: bool
  tc_outcomes :: "bool list"
  tc_queue :: "nat list"
  tc_total :: int
  tc_fault :: int
  tc_now :: int
  tc_sent :: "nat list"
  tc_written :: "(nat \<times> nat) list"
  tc_dropped :: "nat list"
  tc_slept :: nat

definition newConn :: "int \<Rightarrow> tconn" where
  "newConn now = \<lparr>tc_state = TClosed, tc_epoch = 0, tc_cancelled = [], tc_closed = [], tc_locked = False, tc_outcomes = [], tc_queue = [],
     tc_total = 0, tc_fault = now, tc_now = now, tc_sent = [], tc_written = [], tc_dropped = [], tc_slept = 0\<rparr>"

text \<open>Who dials: a sender with its message, or the goroutine that noticed a broken socket.\<close>

datatype dialer = BySend nat | ByRetry

datatype tpc =
    SStart nat | SWaitLock nat | SWait nat nat | SCount nat | SQueue nat | SFull nat nat | SErr nat | SDone
  | DialLock dialer | Dialling dialer int nat | Handshake dialer | DialEnd dialer bool
  | RLoop nat | RRead nat | WLoop nat | WSel nat nat | WWrite nat nat
  | TCas nat | TClose nat | TCancel | TEnd

datatype tchoice = Yes | No | Other

section \<open>Steps\<close>

definition cancelled :: "tconn \<Rightarrow> nat \<Rightarrow> bool" where
  "cancelled c e \<longleftrightarrow> e \<in> set (tc_cancelled c)"

definition sock_open :: "tconn \<Rightarrow> nat \<Rightarrow> bool" where
  "sock_open c e \<longleftrightarrow> e \<notin> set (tc_closed c)"

definition conn_close :: "tconn \<Rightarrow> tconn" where
  "conn_close c =
     (if tc_state c = TClosed then c
      else c\<lparr>tc_state := TClosed, tc_fault := tc_now c div 1000000000,
             tc_closed := (if tc_epoch c = 0 then tc_closed c else tc_epoch c # tc_closed c),
             tc_cancelled := (if tc_epoch c = 0 then tc_cancelled c else tc_epoch c # tc_cancelled c)\<rparr>)"

text \<open>\<open>send\<close> and \<open>wait\<close>, whose first step takes the read lock and looks at the state.\<close>

definition recovering :: "dial_opts \<Rightarrow> tconn \<Rightarrow> bool" where
  "recovering ops c \<longleftrightarrow> IsReleaseMode ops \<and> tc_now c - tc_fault c < FaultRecoveryTime ops"

definition conn_wait :: "nat \<Rightarrow> tconn \<Rightarrow> (tconn \<times> tpc) option" where
  [simp]: "conn_wait m c =
     (if tc_locked c then None
      else case tc_state c of
             TOpened \<Rightarrow> Some (c, SCount m)
           | THanged \<Rightarrow> Some (c, SWait m (length (tc_outcomes c)))
           | TClosed \<Rightarrow> Some (c, SErr m))"

fun conn_send :: "dial_opts \<Rightarrow> tchoice \<Rightarrow> tpc \<Rightarrow> tconn \<Rightarrow> (tconn \<times> tpc) option" where
  "conn_send ops ch (SStart m) c =
     (case tc_state c of
        TClosed \<Rightarrow> Some (c, if recovering ops c then SErr m else DialLock (BySend m))
      | THanged \<Rightarrow> Some (c, SWaitLock m)
      | TOpened \<Rightarrow> Some (c, SCount m))"
| "conn_send ops ch (SWaitLock m) c = conn_wait m c"
| "conn_send ops ch (SWait m n) c =
     (if n < length (tc_outcomes c) then Some (c, if tc_outcomes c ! n then SCount m else SErr m) else None)"
| "conn_send ops ch (SCount m) c =
     (if WriteTimeout ops
      then (let n = tc_total c + 1; c = c\<lparr>tc_total := n\<rparr> in Some (c, if int (WriteQueueSize ops) < n then SFull m (tc_epoch c) else SQueue m))
      else Some (c, SQueue m))"
| "conn_send ops ch (SQueue m) c =
     (if length (tc_queue c) < WriteQueueSize ops then Some (c\<lparr>tc_queue := tc_queue c @ [m]\<rparr>, SDone) else None)"
| "conn_send ops ch (SFull m e) c =
     (if ch = No then Some (c, SErr m)
      else if length (tc_queue c) < WriteQueueSize ops then Some (c\<lparr>tc_queue := tc_queue c @ [m]\<rparr>, SDone) else None)"
| "conn_send ops ch p c = None"

text \<open>
  \<open>dial\<close>, \<open>doDial\<close>, \<open>process\<close> and \<open>handshake\<close>; \<open>free\<close> tells that nobody holds the lock, and the last
  component are the goroutines a step starts.
\<close>

fun dial_done :: "dialer \<Rightarrow> bool \<Rightarrow> tpc" where
  "dial_done (BySend m) ok = (if ok then SCount m else SErr m)"
| "dial_done ByRetry ok = TEnd"

definition next_delay :: "nat \<Rightarrow> nat" where
  "next_delay delay = (let d = (if delay = 0 then 5 else delay * 2) in if 1000 < d then 1000 else d)"

definition process :: "tconn \<Rightarrow> tconn" where
  "process c = c\<lparr>tc_epoch := tc_epoch c + 1, tc_state := TOpened\<rparr>"

fun conn_dial :: "dial_opts \<Rightarrow> bool \<Rightarrow> tchoice \<Rightarrow> tpc \<Rightarrow> tconn \<Rightarrow> (tconn \<times> tpc \<times> tpc list) option" where
  "conn_dial ops free ch (DialLock k) c =
     (if \<not> free then None
      else if tc_state c = TOpened then Some (c, dial_done k True, [])
      else Some (c\<lparr>tc_locked := True\<rparr>, Dialling k 0 0, []))"
| "conn_dial ops free ch (Dialling k retry delay) c =
     (if ch = Yes then (let c = process c in Some (c, Handshake k, [RLoop (tc_epoch c)]))
      else let retry = retry + 1
           in if DialRetryTimes ops \<le> retry then Some (conn_close c, DialEnd k False, [])
              else (let delay = next_delay delay in Some (c\<lparr>tc_slept := tc_slept c + delay\<rparr>, Dialling k retry delay, [])))"
| "conn_dial ops free ch (Handshake k) c =
     (if ch = Yes then Some (c, DialEnd k True, [WLoop (tc_epoch c)]) else Some (conn_close c, DialEnd k False, []))"
| "conn_dial ops free ch (DialEnd k ok) c =
     Some (c\<lparr>tc_outcomes := tc_outcomes c @ [ok], tc_locked := False\<rparr>, dial_done k ok, [])"
| "conn_dial ops free ch p c = None"

text \<open>\<open>read\<close>, \<open>write\<close>, \<open>doWrite\<close> and \<open>retry\<close>.  The loops read \<open>c.ctx\<close> anew in every round, whatever socket they work on.\<close>

fun conn_io :: "dial_opts \<Rightarrow> tchoice \<Rightarrow> tpc \<Rightarrow> tconn \<Rightarrow> (tconn \<times> tpc) option" where
  "conn_io ops ch (RLoop e) c = Some (c, if cancelled c (tc_epoch c) then TEnd else RRead e)"
| "conn_io ops ch (RRead e) c = (if ch = No then Some (c, TCas e) else if sock_open c e then Some (c, RLoop e) else None)"
| "conn_io ops ch (WLoop e) c = Some (c, WSel e (tc_epoch c))"
| "conn_io ops ch (WSel e x) c =
     (case ch of
        No \<Rightarrow> if cancelled c x then Some (c, TEnd) else None
      | Other \<Rightarrow> Some (c, if sock_open c e then WLoop e else TCas e)
      | Yes \<Rightarrow>
          (case tc_queue c of
             [] \<Rightarrow> None
           | m # q \<Rightarrow> Some (c\<lparr>tc_queue := q, tc_total := (if WriteTimeout ops then tc_total c - 1 else tc_total c)\<rparr>, WWrite e m)))"
| "conn_io ops ch (WWrite e m) c =
     (case ch of
        Other \<Rightarrow> Some (c\<lparr>tc_dropped := m # tc_dropped c\<rparr>, WLoop e)
      | No \<Rightarrow> Some (c\<lparr>tc_dropped := m # tc_dropped c\<rparr>, TCas e)
      | Yes \<Rightarrow> if sock_open c e then Some (c\<lparr>tc_written := tc_written c @ [(e, m)]\<rparr>, WLoop e) else None)"
| "conn_io ops ch (TCas e) c =
     (if tc_state c = TOpened then Some (c\<lparr>tc_state := THanged\<rparr>, TClose e) else Some (c, TEnd))"
| "conn_io ops ch (TClose e) c = Some (c\<lparr>tc_closed := e # tc_closed c\<rparr>, TCancel)"
| "conn_io ops ch TCancel c =
     Some (if tc_epoch c = 0 then c else c\<lparr>tc_cancelled := tc_epoch c # tc_cancelled c\<rparr>, DialLock ByRetry)"
| "conn_io ops ch p c = None"

definition tstep :: "dial_opts \<Rightarrow> bool \<Rightarrow> tchoice \<Rightarrow> tpc \<Rightarrow> tconn \<Rightarrow> (tconn \<times> tpc \<times> tpc list) option" where
  "tstep ops free ch p c =
     (case conn_dial ops free ch p c of Some r \<Rightarrow> Some r | None \<Rightarrow>
      case conn_send ops ch p c of Some (c, p) \<Rightarrow> Some (c, p, []) | None \<Rightarrow>
      map_option (\<lambda>(c, p). (c, p, [])) (conn_io ops ch p c))"

section \<open>The goroutines together\<close>

text \<open>Who waits for the end of a dial holds the read lock.\<close>

fun rlocked :: "tpc \<Rightarrow> bool" where
  "rlocked (SWait _ _) = True"
| "rlocked _ = False"

type_synonym tworld = "tconn \<times> tpc list"

datatype taction = Submit nat | Run nat tchoice | Elapse nat

definition tact :: "dial_opts \<Rightarrow> taction \<Rightarrow> tworld \<Rightarrow> tworld option" where
  "tact ops a w =
     (case w of (c, ths) \<Rightarrow>
      case a of
        Submit m \<Rightarrow> Some (c\<lparr>tc_sent := m # tc_sent c\<rparr>, ths @ [SStart m])
      | Run i ch \<Rightarrow>
          if i < length ths
          then map_option (\<lambda>(c, p, new). (c, ths[i := p] @ new))
                 (tstep ops (\<not> tc_locked c \<and> \<not> list_ex rlocked ths) ch (ths ! i) c)
          else None
      | Elapse n \<Rightarrow> Some (c\<lparr>tc_now := tc_now c + int n\<rparr>, ths))"

inductive treachable :: "dial_opts \<Rightarrow> int \<Rightarrow> tworld \<Rightarrow> bool" for ops now where
  t_init: "treachable ops now (newConn now, [])"
| t_step: "treachable ops now w \<Longrightarrow> tact ops a w = Some w' \<Longrightarrow> treachable ops now w'"

primrec run_tc :: "dial_opts \<Rightarrow> taction list \<Rightarrow> tworld \<Rightarrow> tworld option" where
  "run_tc ops [] w = Some w"
| "run_tc ops (a # as) w = (case tact ops a w of None \<Rightarrow> None | Some w \<Rightarrow> run_tc ops as w)"

lemma run_tc_reachable: "treachable ops now w \<Longrightarrow> run_tc ops as w = Some w' \<Longrightarrow> treachable ops now w'"
  by (induction "as" arbitrary: w) (auto split: option.splits intro: t_step)

lemma run_tc_append: "run_tc ops (xs @ ys) w = (case run_tc ops xs w of None \<Rightarrow> None | Some w \<Rightarrow> run_tc ops ys w)"
  by (induction xs arbitrary: w) (auto split: option.splits)

lemma tstep_cases:
  assumes "tstep ops free ch p c = Some (c', p', new)"
  obtains (dials) "conn_dial ops free ch p c = Some (c', p', new)"
    | (sends) "conn_send ops ch p c = Some (c', p')" "new = []"
    | (ios) "conn_io ops ch p c = Some (c', p')" "new = []"
  using assms that by (auto simp: tstep_def split: option.splits)

section \<open>Messages\<close>

text \<open>The message a goroutine holds; \<open>SErr\<close> has given it back to the caller with an error.\<close>

fun dialer_msg :: "dialer \<Rightarrow> nat multiset" where
  "dialer_msg (BySend m) = {#m#}"
| "dialer_msg ByRetry = {#}"

fun pc_msg :: "tpc \<Rightarrow> nat multiset" where
  "pc_msg (SStart m) = {#m#}"
| "pc_msg (SWaitLock m) = {#m#}"
| "pc_msg (SWait m _) = {#m#}"
| "pc_msg (SCount m) = {#m#}"
| "pc_msg (SQueue m) = {#m#}"
| "pc_msg (SFull m _) = {#m#}"
| "pc_msg (SErr m) = {#m#}"
| "pc_msg (DialLock k) = dialer_msg k"
| "pc_msg (Dialling k _ _) = dialer_msg k"
| "pc_msg (Handshake k) = dialer_msg k"
| "pc_msg (DialEnd k _) = dialer_msg k"
| "pc_msg (WWrite _ m) = {#m#}"
| "pc_msg _ = {#}"

definition conn_msgs :: "tconn \<Rightarrow> nat multiset" where
  "conn_msgs c = mset (tc_queue c) + mset (map snd (tc_written c)) + mset (tc_dropped c)"

lemma conn_close_frame [simp]:
  "tc_queue (conn_close c) = tc_queue c" "tc_written (conn_close c) = tc_written c" "tc_dropped (conn_close c) = tc_dropped c"
  "tc_sent (conn_close c) = tc_sent c" "tc_locked (conn_close c) = tc_locked c" "tc_outcomes (conn_close c) = tc_outcomes c"
  "tc_slept (conn_close c) = tc_slept c" "tc_epoch (conn_close c) = tc_epoch c" "tc_now (conn_close c) = tc_now c"
  by (simp_all add: conn_close_def)

lemma process_frame [simp]:
  "tc_queue (process c) = tc_queue c" "tc_written (process c) = tc_written c" "tc_dropped (process c) = tc_dropped c"
  "tc_sent (process c) = tc_sent c" "tc_locked (process c) = tc_locked c" "tc_outcomes (process c) = tc_outcomes c"
  "tc_slept (process c) = tc_slept c"
  by (simp_all add: process_def)

lemma dial_done_msg [simp]: "pc_msg (dial_done k ok) = dialer_msg k" "\<not> rlocked (dial_done k ok)"
  by (cases k; simp)+

lemma tstep_msgs:
  assumes "tstep ops free ch p c = Some (c', p', new)"
  shows "pc_msg p' + tally pc_msg new + conn_msgs c' = pc_msg p + conn_msgs c \<and> tc_sent c' = tc_sent c"
  using assms
proof (cases rule: tstep_cases)
  case dials
  then show ?thesis by (cases p) (auto simp: conn_msgs_def Let_def split: if_splits)
next
  case sends
  then show ?thesis by (cases p) (auto simp: conn_msgs_def Let_def split: if_splits tc_status.splits)
next
  case ios
  then show ?thesis by (cases p) (auto simp: conn_msgs_def split: if_splits tchoice.splits list.splits)
qed

lemma msgs_reachable:
  "treachable ops now w \<Longrightarrow> mset (tc_sent (fst w)) = tally pc_msg (snd w) + conn_msgs (fst w)"
proof (induction rule: treachable.induct)
  case t_init
  show ?case by (simp add: newConn_def conn_msgs_def)
next
  case (t_step w a w')
  obtain c ths where w: "w = (c, ths)" by fastforce
  show ?case
  proof (cases a)
    case (Submit m)
    then show ?thesis using t_step by (auto simp: tact_def w conn_msgs_def)
  next
    case (Run i ch)
    then obtain c' p' new where r: "i < length ths" "tstep ops (\<not> tc_locked c \<and> \<not> list_ex rlocked ths) ch (ths ! i) c = Some (c', p', new)"
        "w' = (c', ths[i := p'] @ new)"
      using t_step.hyps(2) by (auto simp: tact_def w split: if_splits)
    have "mset (tc_sent c') = tally pc_msg (others i ths) + (pc_msg (ths ! i) + conn_msgs c)"
      using t_step.IH tstep_msgs [OF r(2)] w by (simp add: tally_others [OF r(1)] ac_simps)
    also have "\<dots> = tally pc_msg (others i ths) + (pc_msg p' + tally pc_msg new + conn_msgs c')"
      using tstep_msgs [OF r(2)] by simp
    finally show ?thesis using r(3) by (simp add: tally_others [OF r(1)] ac_simps)
  next
    case (Elapse n)
    then show ?thesis using t_step by (auto simp: tact_def w conn_msgs_def)
  qed
qed

lemma distinct_by_count: "(\<And>x. count (mset xs) x \<le> 1) \<Longrightarrow> distinct xs"
proof (induction xs)
  case (Cons y ys)
  have "count (mset ys) x \<le> 1" for x by (rule order_trans [OF _ Cons.prems [of x]]) simp
  moreover have "y \<notin> set ys" using Cons.prems [of y] by (auto simp: count_eq_zero_iff)
  ultimately show ?case using Cons.IH by simp
qed simp

text \<open>
  C17: Whatever connections break and are dialled again, every message given to \<open>send\<close> is in exactly one place: with its
  sender, given back with an error, in the queue, in the hands of a writer, written or released unwritten.  So no message
  is lost in between, and a message sent once is written at most once, to one socket, and not if its sender got an error.
\<close>

theorem client_messages_accounted:
  assumes "treachable ops now (c, ths)"
  shows "mset (tc_sent c) = tally pc_msg ths + mset (tc_queue c) + mset (map snd (tc_written c)) + mset (tc_dropped c) \<and>
    (distinct (tc_sent c) \<longrightarrow>
       distinct (map snd (tc_written c)) \<and> (\<forall>m. SErr m \<in> set ths \<longrightarrow> m \<notin> snd ` set (tc_written c) \<and> m \<notin> set (tc_queue c)))"
proof -
  have eq: "mset (tc_sent c) = tally pc_msg ths + mset (tc_queue c) + mset (map snd (tc_written c)) + mset (tc_dropped c)"
    using msgs_reachable [OF assms] by (simp add: conn_msgs_def ac_simps)
  have one: "count (tally pc_msg ths) m + count (mset (tc_queue c)) m + count (mset (map snd (tc_written c))) m \<le> 1" if "distinct (tc_sent c)" for m
  proof -
    have "count (mset (tc_sent c)) m \<le> 1" using that by (simp add: distinct_count_atmost_1)
    then show ?thesis unfolding eq by simp
  qed
  have held: "0 < count (tally pc_msg ths) m" if "SErr m \<in> set ths" for m
    using that by (induction ths) auto
  show ?thesis
  proof (intro conjI impI allI eq)
    assume d: "distinct (tc_sent c)"
    have "count (mset (map snd (tc_written c))) m \<le> 1" for m using one [OF d, of m] by linarith
    then show "distinct (map snd (tc_written c))" by (rule distinct_by_count)
    fix m assume "SErr m \<in> set ths"
    with one [OF d, of m] held [of m] have "count (mset (tc_queue c)) m = 0" "count (mset (map snd (tc_written c))) m = 0" by linarith+
    then show "m \<notin> snd ` set (tc_written c)" "m \<notin> set (tc_queue c)"
      by (metis count_eq_zero_iff set_map set_mset_mset)+
  qed
qed

text \<open>Three messages over two sockets: the first is written, the second lost with its socket, the third gets an error.\<close>

definition dial_sample :: dial_opts where
  "dial_sample = \<lparr>DialRetryTimes = 2, WriteTimeout = False, WriteQueueSize = 8, FaultRecoveryTime = 5000000000, IsReleaseMode = False\<rparr>"

definition dial_run :: "taction list" where
  "dial_run = [Submit 1, Run 0 Yes, Run 0 Yes, Run 0 No, Run 0 Yes, Run 0 Yes, Run 0 Yes, Run 0 Yes, Run 0 Yes,
     Run 2 Yes, Run 2 Yes, Run 2 Yes, Submit 2, Run 3 Yes, Run 3 Yes, Run 3 Yes, Run 2 Yes, Run 2 Yes, Run 2 No, Run 2 Yes, Run 2 Yes, Run 2 Yes,
     Run 2 Yes, Run 2 No, Run 2 No, Run 2 Yes, Submit 3, Run 4 Yes, Run 4 Yes, Run 4 No, Run 4 No, Run 4 Yes]"

theorem client_messages_accounted_witness:
  "\<exists>c ths. run_tc dial_sample dial_run (newConn 0, []) = Some (c, ths) \<and> SErr 3 \<in> set ths \<and> 3 \<notin> snd ` set (tc_written c)"
proof -
  let ?r = "run_tc dial_sample dial_run (newConn 0, [])"
  have "map_option (\<lambda>(c, ths). (tc_sent c, list_ex (\<lambda>p. p = SErr 3) ths)) ?r = Some ([3, 2, 1], True)"
    by code_simp
  then obtain c ths where r: "?r = Some (c, ths)" "tc_sent c = [3, 2, 1]" "SErr 3 \<in> set ths"
    by (cases ?r) (auto simp: list_ex_iff)
  have "treachable dial_sample 0 (c, ths)" by (rule run_tc_reachable [OF t_init r(1)])
  from client_messages_accounted [OF this] r show ?thesis by simp
qed

section \<open>Dialling\<close>

text \<open>The goroutine that dials, how many steps it is away from releasing the lock, and that nobody waits with the read lock then.\<close>

fun in_dial :: "tpc \<Rightarrow> bool" where
  "in_dial (Dialling _ _ _) = True"
| "in_dial (Handshake _) = True"
| "in_dial (DialEnd _ _) = True"
| "in_dial _ = False"

definition dialling :: "tpc \<Rightarrow> nat" where
  "dialling p = (if in_dial p then 1 else 0)"

definition waiting :: "tpc \<Rightarrow> nat" where
  "waiting p = (if rlocked p then 1 else 0)"

definition lock_ok :: "tconn \<Rightarrow> nat \<Rightarrow> nat \<Rightarrow> bool" where
  "lock_ok c d w \<longleftrightarrow> d = (if tc_locked c then 1 else 0) \<and> (tc_locked c \<longrightarrow> w = 0)"

lemma in_dial_done [simp]: "\<not> in_dial (dial_done k ok)"
  by (cases k) simp_all

lemma tstep_lock:
  assumes "tstep ops (\<not> tc_locked c \<and> waiting p + w = 0) ch p c = Some (c', p', new)" and "lock_ok c (dialling p + d) (waiting p + w)"
  shows "lock_ok c' (dialling p' + tally dialling new + d) (waiting p' + tally waiting new + w)"
  using assms(1)
proof (cases rule: tstep_cases)
  case dials
  then show ?thesis
    using assms(2) by (cases p) (auto simp: lock_ok_def dialling_def waiting_def Let_def split: if_splits)
next
  case sends
  then show ?thesis
    using assms(2) by (cases p) (auto simp: lock_ok_def dialling_def waiting_def Let_def split: if_splits tc_status.splits)
next
  case ios
  then show ?thesis
    using assms(2) by (cases p) (auto simp: lock_ok_def dialling_def waiting_def split: if_splits tchoice.splits list.splits)
qed

lemma unlocked_iff: "\<not> list_ex rlocked ths \<longleftrightarrow> tally waiting ths = 0"
  by (induction ths) (auto simp: waiting_def)

lemma lock_reachable: "treachable ops now w \<Longrightarrow> lock_ok (fst w) (tally dialling (snd w)) (tally waiting (snd w))"
proof (induction rule: treachable.induct)
  case t_init
  show ?case by (simp add: newConn_def lock_ok_def)
next
  case (t_step w a w')
  obtain c ths where w: "w = (c, ths)" by fastforce
  show ?case
  proof (cases a)
    case (Submit m)
    then show ?thesis using t_step by (auto simp: tact_def w lock_ok_def dialling_def waiting_def)
  next
    case (Run i ch)
    then obtain c' p' new where r: "i < length ths" "tstep ops (\<not> tc_locked c \<and> \<not> list_ex rlocked ths) ch (ths ! i) c = Some (c', p', new)"
        "w' = (c', ths[i := p'] @ new)"
      using t_step.hyps(2) by (auto simp: tact_def w split: if_splits)
    note t = tally_others [OF r(1)]
    have "lock_ok c' (dialling p' + tally dialling new + tally dialling (others i ths)) (waiting p' + tally waiting new + tally waiting (others i ths))"
      by (rule tstep_lock [of ops c "ths ! i"]) (use r(2) t_step.IH w in \<open>simp_all add: unlocked_iff t\<close>)
    then show ?thesis using r(3) by (simp add: t ac_simps)
  next
    case (Elapse n)
    then show ?thesis using t_step by (auto simp: tact_def w lock_ok_def)
  qed
qed

fun dial_left :: "dial_opts \<Rightarrow> tpc \<Rightarrow> nat" where
  "dial_left ops (Dialling _ retry _) = nat (DialRetryTimes ops - retry) + 3"
| "dial_left ops (Handshake _) = 2"
| "dial_left ops (DialEnd _ _) = 1"
| "dial_left ops _ = 0"

lemma dial_step:
  assumes "in_dial p"
  shows "\<exists>c' p' new. tstep ops free ch p c = Some (c', p', new) \<and> dial_left ops p' < dial_left ops p \<and>
    tc_slept c' + 1000 * dial_left ops p' \<le> tc_slept c + 1000 * dial_left ops p"
proof (cases p)
  case (Dialling k retry delay)
  have d: "next_delay delay \<le> 1000" by (simp add: next_delay_def Let_def)
  then show ?thesis
    using Dialling by (cases "ch = Yes"; cases "DialRetryTimes ops \<le> retry + 1") (auto simp: tstep_def Let_def)
next
  case (Handshake k)
  then show ?thesis by (cases "ch = Yes") (auto simp: tstep_def)
next
  case (DialEnd k ok)
  then show ?thesis by (cases k) (auto simp: tstep_def)
qed (use assms in simp_all)

lemma own_step:
  assumes "tact ops (Run i ch) (c, ths) = Some (c', ths')" and "i < length ths" "in_dial (ths ! i)"
  shows "dial_left ops (ths' ! i) < dial_left ops (ths ! i)" "i < length ths'"
    "tc_slept c' + 1000 * dial_left ops (ths' ! i) \<le> tc_slept c + 1000 * dial_left ops (ths ! i)"
proof -
  obtain d p' new where s: "tstep ops (\<not> tc_locked c \<and> \<not> list_ex rlocked ths) ch (ths ! i) c = Some (d, p', new)"
      "dial_left ops p' < dial_left ops (ths ! i)" "tc_slept d + 1000 * dial_left ops p' \<le> tc_slept c + 1000 * dial_left ops (ths ! i)"
    using dial_step [OF assms(3)] by blast
  then have "c' = d" "ths' = ths[i := p'] @ new" using assms(1,2) by (auto simp: tact_def)
  then show "dial_left ops (ths' ! i) < dial_left ops (ths ! i)" "i < length ths'"
      "tc_slept c' + 1000 * dial_left ops (ths' ! i) \<le> tc_slept c + 1000 * dial_left ops (ths ! i)"
    using s(2,3) assms(2) by (simp_all add: nth_append)
qed

lemma slept_frame:
  assumes "tstep ops free ch p c = Some (c', p', new)" "\<not> in_dial p"
  shows "tc_slept c' = tc_slept c"
  using assms(1)
proof (cases rule: tstep_cases)
  case dials
  then show ?thesis using assms(2) by (cases p) (auto split: if_splits)
next
  case sends
  then show ?thesis by (cases p) (auto simp: Let_def split: if_splits tc_status.splits)
next
  case ios
  then show ?thesis by (cases p) (auto split: if_splits tchoice.splits list.splits)
qed

lemma other_act:
  assumes reach: "treachable ops now (c, ths)" and act: "tact ops a (c, ths) = Some (c', ths')" and i: "i < length ths" "in_dial (ths ! i)"
    and a: "\<And>ch. a \<noteq> Run i ch"
  shows "ths' ! i = ths ! i" "i < length ths'" "tc_slept c' = tc_slept c"
proof -
  have "ths' ! i = ths ! i \<and> i < length ths' \<and> tc_slept c' = tc_slept c"
  proof (cases a)
    case (Run j ch)
    then obtain p' new where s: "j < length ths" "tstep ops (\<not> tc_locked c \<and> \<not> list_ex rlocked ths) ch (ths ! j) c = Some (c', p', new)"
        "ths' = ths[j := p'] @ new"
      using act by (auto simp: tact_def split: if_splits)
    have ne: "j \<noteq> i" using a Run by blast
    have "tally dialling ths \<le> 1" using lock_reachable [OF reach] by (auto simp: lock_ok_def split: if_splits)
    then have "tally dialling (others i ths) = 0" using i tally_others(1) [OF i(1), of dialling] by (auto simp: dialling_def)
    moreover have "tally dialling (others i (ths[j := TEnd])) + dialling (ths ! j) = tally dialling (others i ths)"
      using tally_upd [OF s(1), of dialling TEnd] tally_others(1) [of i "ths[j := TEnd]" dialling] tally_others(1) [OF i(1), of dialling] i(1) ne
      by (simp add: dialling_def)
    ultimately have "\<not> in_dial (ths ! j)" by (auto simp: dialling_def split: if_splits)
    then show ?thesis using slept_frame [OF s(2)] s(3) i(1) ne by (simp add: nth_append)
  qed (use act i in \<open>auto simp: tact_def nth_append\<close>)
  then show "ths' ! i = ths ! i" "i < length ths'" "tc_slept c' = tc_slept c" by blast+
qed

definition turns :: "nat \<Rightarrow> taction list \<Rightarrow> nat" where
  "turns i as = length (filter (\<lambda>a. case a of Run j _ \<Rightarrow> j = i | _ \<Rightarrow> False) as)"

text \<open>
  C18: A dial ends: the goroutine that holds the lock is never blocked, and in every interleaving it has released the lock after
  at most \<open>DialRetryTimes + 3\<close> of its own steps, having slept at most a second per step, whatever
  the network does.
\<close>

theorem dial_terminates:
  assumes "treachable ops now (c, ths)" and "i < length ths" and "in_dial (ths ! i)"
  shows "tact ops (Run i ch) (c, ths) \<noteq> None \<and>
    (run_tc ops as (c, ths) \<noteq> None \<and> dial_left ops (ths ! i) \<le> turns i as \<longrightarrow>
      (\<exists>as1 as2 c' ths'. as = as1 @ as2 \<and> run_tc ops as1 (c, ths) = Some (c', ths') \<and> \<not> in_dial (ths' ! i) \<and>
         tc_slept c' \<le> tc_slept c + 1000 * dial_left ops (ths ! i)))"
proof (intro conjI impI)
  show "tact ops (Run i ch) (c, ths) \<noteq> None"
    using dial_step [OF assms(3), of ops _ ch c] assms(2) by (fastforce simp: tact_def)
  assume "run_tc ops as (c, ths) \<noteq> None \<and> dial_left ops (ths ! i) \<le> turns i as"
  then have run: "run_tc ops as (c, ths) \<noteq> None" and n: "dial_left ops (ths ! i) \<le> turns i as" by auto
  show "\<exists>as1 as2 c' ths'. as = as1 @ as2 \<and> run_tc ops as1 (c, ths) = Some (c', ths') \<and> \<not> in_dial (ths' ! i) \<and>
      tc_slept c' \<le> tc_slept c + 1000 * dial_left ops (ths ! i)"
    using assms run n
  proof (induction "as" arbitrary: c ths)
    case Nil
    then show ?case by (cases "ths ! i") (simp_all add: turns_def)
  next
    case (Cons a as')
    then obtain d us where act: "tact ops a (c, ths) = Some (d, us)" and run': "run_tc ops as' (d, us) \<noteq> None"
      by (auto split: option.splits)
    have reach: "treachable ops now (d, us)" by (rule t_step [OF Cons.prems(1) act])
    have next_step: "dial_left ops (us ! i) + (turns i (a # as') - turns i as') \<le> dial_left ops (ths ! i)" "i < length us"
        "tc_slept d + 1000 * dial_left ops (us ! i) \<le> tc_slept c + 1000 * dial_left ops (ths ! i)"
      using own_step [of ops i _ c ths d us] other_act [OF Cons.prems(1) act] act Cons.prems(2,3)
      by (cases "\<exists>ch. a = Run i ch"; force simp: turns_def split: taction.splits)+
    show ?case
    proof (cases "in_dial (us ! i)")
      case False
      then show ?thesis
        using act next_step(3) by (intro exI [of _ "[a]"] exI [of _ as'] exI [of _ d] exI [of _ us]) auto
    next
      case True
      have "dial_left ops (us ! i) \<le> turns i as'"
        using next_step(1) Cons.prems(5) by linarith
      from Cons.IH [OF reach next_step(2) True run' this] obtain as1 as2 c' ths'
        where "as' = as1 @ as2" "run_tc ops as1 (d, us) = Some (c', ths')" "\<not> in_dial (ths' ! i)"
          "tc_slept c' \<le> tc_slept d + 1000 * dial_left ops (us ! i)" by blast
      then show ?thesis
        using act next_step(3) by (intro exI [of _ "a # as1"] exI [of _ as2] exI [of _ c'] exI [of _ ths']) auto
    qed
  qed
qed

theorem dial_terminates_witness:
  "\<exists>as1 as2 c' ths'. [Run 0 No, Run 0 Yes, Run 0 Yes, Run 0 Yes, Run 0 Yes] = as1 @ as2 \<and>
     run_tc dial_sample ([Submit 1, Run 0 Yes, Run 0 Yes] @ as1) (newConn 0, []) = Some (c', ths') \<and> \<not> in_dial (ths' ! 0) \<and> tc_slept c' \<le> 5000"
proof -
  let ?as = "[Run 0 No, Run 0 Yes, Run 0 Yes, Run 0 Yes, Run 0 Yes]"
  let ?r = "run_tc dial_sample [Submit 1, Run 0 Yes, Run 0 Yes] (newConn 0, [])"
  have r': "map_option (\<lambda>(c, ths). (ths, tc_slept c, run_tc dial_sample ?as (c, ths) = None)) ?r = Some ([Dialling (BySend 1) 0 0], 0, False)"
    by code_simp
  then obtain c where r: "?r = Some (c, [Dialling (BySend 1) 0 0])" "tc_slept c = 0" "run_tc dial_sample ?as (c, [Dialling (BySend 1) 0 0]) \<noteq> None"
    by (cases ?r) auto
  have reach: "treachable dial_sample 0 (c, [Dialling (BySend 1) 0 0])" by (rule run_tc_reachable [OF t_init r(1)])
  have left: "dial_left dial_sample (Dialling (BySend 1) 0 0) = 5" "turns 0 ?as = 5" by code_simp+
  obtain as1 as2 c' ths' where *: "?as = as1 @ as2" "run_tc dial_sample as1 (c, [Dialling (BySend 1) 0 0]) = Some (c', ths')"
      "\<not> in_dial (ths' ! 0)" "tc_slept c' \<le> 5000"
    using dial_terminates [OF reach, of 0 Yes ?as] r(2,3) left by auto
  have "run_tc dial_sample ([Submit 1, Run 0 Yes, Run 0 Yes] @ as1) (newConn 0, []) = Some (c', ths')"
    unfolding run_tc_append r(1) using *(2) by (simp only: option.case)
  with * show ?thesis by blast
qed

section \<open>Waiting for a reconnect\<close>

definition wait_ok :: "tworld \<Rightarrow> bool" where
  "wait_ok w = (case w of (c, ths) \<Rightarrow> \<forall>m n. SWait m n \<in> set ths \<longrightarrow> n = length (tc_outcomes c) \<and> tc_state c = THanged)"

text \<open>Without the lock no step wakes a waiting sender.\<close>

lemma waiting_frame:
  assumes "tstep ops False ch p c = Some (c', p', new)" and "\<not> in_dial p" "tc_state c = THanged"
  shows "tc_outcomes c' = tc_outcomes c \<and> tc_state c' = THanged \<and> (\<forall>m n. SWait m n \<notin> set new)"
  using assms(1)
proof (cases rule: tstep_cases)
  case dials
  then show ?thesis using assms(2) by (cases p) simp_all
next
  case sends
  then show ?thesis using assms(3) by (cases p) (auto simp: Let_def split: if_splits)
next
  case ios
  then show ?thesis using assms(3) by (cases p) (auto split: if_splits tchoice.splits list.splits)
qed

lemma step_to_wait:
  assumes "tstep ops free ch p c = Some (c', p', new)"
  shows "(p' = SWait m n \<longrightarrow> c' = c \<and> n = length (tc_outcomes c) \<and> tc_state c = THanged) \<and> SWait m n \<notin> set new"
  using assms
proof (cases rule: tstep_cases)
  case dials
  have "dial_done k ok \<noteq> SWait m n" for k ok by (cases k) simp_all
  then show ?thesis using dials by (cases p) (auto simp: Let_def split: if_splits)
next
  case sends
  then show ?thesis by (cases p) (auto simp: Let_def split: if_splits tc_status.splits)
next
  case ios
  then show ?thesis by (cases p) (auto split: if_splits tchoice.splits list.splits)
qed

lemma waiter_keeps:
  assumes reach: "treachable ops now (c, ths)" and ok: "wait_ok (c, ths)" and w: "SWait m n \<in> set ths" and act: "tact ops a (c, ths) = Some (c', ths')"
  shows "tc_outcomes c' = tc_outcomes c \<and> tc_state c' = THanged \<and> (\<forall>j < length ths. (\<exists>m n. ths ! j = SWait m n) \<longrightarrow> ths' ! j = ths ! j) \<and> length ths \<le> length ths'"
proof -
  have h: "tc_state c = THanged" "\<And>m n. SWait m n \<in> set ths \<Longrightarrow> n = length (tc_outcomes c)" using ok w by (auto simp: wait_ok_def)
  have held: "list_ex rlocked ths" using w by (force simp: list_ex_iff)
  then have l: "\<not> tc_locked c" "tally dialling ths = 0"
    using lock_reachable [OF reach] unlocked_iff [of ths] by (auto simp: lock_ok_def split: if_splits)
  have nd: "\<not> in_dial (ths ! j)" if "j < length ths" for j
    using tally_others(1) [OF that, of dialling] l(2) by (auto simp: dialling_def split: if_splits)
  show ?thesis
  proof (cases a)
    case (Run j ch)
    then obtain p' new where s: "j < length ths" "tstep ops False ch (ths ! j) c = Some (c', p', new)" "ths' = ths[j := p'] @ new"
      using act held by (auto simp: tact_def split: if_splits)
    have "ths ! j \<noteq> SWait k q" for k q
    proof
      assume e: "ths ! j = SWait k q"
      then have "q = length (tc_outcomes c)" using h(2) nth_mem [OF s(1)] by metis
      then show False using s(2) e by (simp add: tstep_def)
    qed
    then show ?thesis
      using waiting_frame [OF s(2) nd [OF s(1)] h(1)] s(1,3) by (auto simp: nth_append nth_list_update)
  qed (use act h(1) in \<open>auto simp: tact_def nth_append\<close>)
qed

lemma wait_reachable: "treachable ops now w \<Longrightarrow> wait_ok w"
proof (induction rule: treachable.induct)
  case t_init
  show ?case by (simp add: wait_ok_def)
next
  case (t_step w a w')
  obtain c ths where w: "w = (c, ths)" by fastforce
  obtain c' ths' where w': "w' = (c', ths')" by fastforce
  have "n = length (tc_outcomes c') \<and> tc_state c' = THanged" if new: "SWait m n \<in> set ths'" for m n
  proof (cases "\<exists>m n. SWait m n \<in> set ths")
    case True
    then obtain k q where "SWait k q \<in> set ths" by blast
    then have keep: "tc_outcomes c' = tc_outcomes c" "tc_state c' = THanged"
      using waiter_keeps [of ops now c ths k q a c' ths'] t_step w w' by auto
    have "SWait m n \<in> set ths \<or> n = length (tc_outcomes c)"
    proof (cases a)
      case (Run j ch)
      then obtain p' new where s: "tstep ops (\<not> tc_locked c \<and> \<not> list_ex rlocked ths) ch (ths ! j) c = Some (c', p', new)" "ths' = ths[j := p'] @ new"
        using t_step.hyps(2) w w' by (auto simp: tact_def split: if_splits)
      then show ?thesis
        using step_to_wait [OF s(1), of m n] new set_update_subset_insert [of ths j p'] by auto
    qed (use t_step.hyps(2) new w w' in \<open>auto simp: tact_def\<close>)
    then show ?thesis using keep t_step.IH w by (auto simp: wait_ok_def)
  next
    case False
    show ?thesis
    proof (cases a)
      case (Run j ch)
      then obtain p' new' where s: "tstep ops (\<not> tc_locked c \<and> \<not> list_ex rlocked ths) ch (ths ! j) c = Some (c', p', new')" "ths' = ths[j := p'] @ new'"
        using t_step.hyps(2) w w' by (auto simp: tact_def split: if_splits)
      then show ?thesis
        using step_to_wait [OF s(1), of m n] new False set_update_subset_insert [of ths j p'] by auto
    qed (use t_step.hyps(2) new False w w' in \<open>auto simp: tact_def\<close>)
  qed
  then show ?case by (simp add: wait_ok_def w')
qed

text \<open>
  C40: A sender that waits for a reconnect waits for ever: \<open>wait\<close> holds the read lock while it waits for the end of a dial, and
  \<open>dial\<close> needs the write lock to begin.  In every interleaving from then on the sender stays where it is and the connection stays
  hanged.
\<close>

theorem reconnect_deadlock:
  assumes "treachable ops now (c, ths)" and "i < length ths" and "ths ! i = SWait m n" and "run_tc ops as (c, ths) = Some (c', ths')"
  shows "ths' ! i = SWait m n \<and> tc_state c' = THanged"
proof -
  have "ths' ! i = SWait m n \<and> i < length ths' \<and> treachable ops now (c', ths')"
    using assms
  proof (induction "as" arbitrary: c ths)
    case (Cons a as')
    then obtain d us where act: "tact ops a (c, ths) = Some (d, us)" and run': "run_tc ops as' (d, us) = Some (c', ths')"
      by (auto split: option.splits)
    have "us ! i = SWait m n" "i < length us"
      using waiter_keeps [OF Cons.prems(1) wait_reachable [OF Cons.prems(1)] _ act, of m n] Cons.prems(2,3) nth_mem [OF Cons.prems(2)] by fastforce+
    then show ?case using Cons.IH [OF t_step [OF Cons.prems(1) act] _ _ run'] by simp
  qed simp
  moreover from this have "wait_ok (c', ths')" using wait_reachable by blast
  ultimately show ?thesis using nth_mem [of i ths'] by (auto simp: wait_ok_def)
qed

text \<open>The socket breaks, and a message is sent before the reader has the lock to dial again.\<close>

definition hang_run :: "taction list" where
  "hang_run = [Submit 1, Run 0 Yes, Run 0 Yes, Run 0 Yes, Run 0 Yes, Run 0 Yes, Run 0 Yes, Run 0 Yes, Run 1 Yes, Run 1 No, Run 1 Yes,
     Submit 2, Run 3 Yes, Run 3 Yes, Run 1 Yes, Run 1 Yes]"

theorem reconnect_deadlock_witness:
  "\<exists>c ths c' ths'. run_tc dial_sample hang_run (newConn 0, []) = Some (c, ths) \<and>
     run_tc dial_sample [Submit 3, Run 4 Yes, Run 4 Yes, Elapse 1000] (c, ths) = Some (c', ths') \<and> ths' ! 3 = SWait 2 1 \<and> tc_state c' = THanged"
proof -
  let ?r = "run_tc dial_sample hang_run (newConn 0, [])" and ?as = "[Submit 3, Run 4 Yes, Run 4 Yes, Elapse 1000]"
  have "map_option (\<lambda>(c, ths). (ths ! 3, length ths, run_tc dial_sample ?as (c, ths) = None)) ?r = Some (SWait 2 1, 4, False)"
    by code_simp
  then obtain c ths where r: "?r = Some (c, ths)" "ths ! 3 = SWait 2 1" "length ths = 4" "run_tc dial_sample ?as (c, ths) \<noteq> None"
    by (cases ?r) auto
  from r(4) obtain c' ths' where r': "run_tc dial_sample ?as (c, ths) = Some (c', ths')" by fastforce
  have reach: "treachable dial_sample 0 (c, ths)" by (rule run_tc_reachable [OF t_init r(1)])
  from reconnect_deadlock [OF reach _ r(2) r'] r(1,3) r' show ?thesis by auto
qed

section \<open>Further behaviour\<close>

text \<open>
  \<open>close\<close> stores the time of the fault in seconds and \<open>send\<close> compares it in nanoseconds: since 2001 the recovery time of a closed
  connection is over at once.
\<close>

lemma fault_recovery_void:
  assumes "tc_state c \<noteq> TClosed" and "10 ^ 18 \<le> tc_now c" and "FaultRecoveryTime ops \<le> 9 * 10 ^ 17"
  shows "conn_send ops ch (SStart m) (conn_close c) = Some (conn_close c, DialLock (BySend m))"
proof -
  have "tc_now c div 1000000000 \<le> tc_now c - 9 * 10 ^ 17"
  proof -
    have "tc_now c div 1000000000 * 1000000000 \<le> tc_now c" by (metis div_mult_mod_eq le_add_same_cancel1 pos_mod_sign zero_less_numeral)
    moreover have "1000000000000000000 \<le> tc_now c" using assms(2) by simp
    ultimately show ?thesis by simp
  qed
  then show ?thesis
    using assms by (simp add: conn_close_def recovering_def)
qed

text \<open>
  A writer that is still busy with the old socket when the new one is ready reads the new context: its failure hangs
  the new connection, which is dialled again although it works, and the second socket is never closed.
\<close>

definition stale_run :: "taction list" where
  "stale_run = [Submit 1, Run 0 Yes, Run 0 Yes, Run 0 Yes, Run 0 Yes, Run 0 Yes, Run 0 Yes, Run 0 Yes,
     Run 2 Yes, Run 2 Yes, Run 1 Yes, Run 1 No, Run 1 Yes, Run 1 Yes, Run 1 Yes, Run 1 Yes, Run 1 Yes, Run 1 Yes, Run 1 Yes,
     Run 2 No, Run 2 Yes, Run 2 Yes, Run 2 Yes, Run 2 Yes, Run 2 Yes, Run 2 Yes, Run 2 Yes]"

lemma stale_writer_reconnects:
  "map_option (\<lambda>(c, ths). (tc_state c, tc_epoch c, tc_closed c, tc_outcomes c)) (run_tc dial_sample stale_run (newConn 0, [])) =
     Some (TOpened, 3, [1, 1], [True, True, True])"
  by code_simp

end
