(* ===== verification/Locator.thy ===== *)
theory Locator
  imports Node_Link Decimal
begin

text \<open>
  The locator on Redis (\<open>locate/redis/locator.go\<close>, \<open>script.go\<close>): where users are.  The server is a parameter with the documented
  behaviour of its commands.  The locator refines a directory, a map from users to gates and nodes; and a linker that
  applies the events the locator publishes ends up knowing what the directory holds.
\<close>

section \<open>The server\<close>

record 's KvOps =
  kGET :: "'s \<Rightarrow> string \<Rightarrow> string option"
  kSET :: "'s \<Rightarrow> string \<Rightarrow> string \<Rightarrow> 's"
  kDEL :: "'s \<Rightarrow> string \<Rightarrow> 's"
  kHGET :: "'s \<Rightarrow> string \<Rightarrow> string \<Rightarrow> string option"
  kHGETALL :: "'s \<Rightarrow> string \<Rightarrow> (string \<times> string) list"
  kHSET :: "'s \<Rightarrow> string \<Rightarrow> string \<Rightarrow> string \<Rightarrow> 's"
  kHDEL :: "'s \<Rightarrow> string \<Rightarrow> string \<Rightarrow> 's"


text \<open>A command succeeds, fails without effect, or takes effect although its reply is lost.\<close>

datatype reply = Fine | Refused | Lost

definition redis_error :: goerror where
  "redis_error = ErrOther ''redis''"

definition sent :: "reply \<Rightarrow> 's \<Rightarrow> 's \<Rightarrow> 's" where
  "sent r s s' = (if r = Refused then s else s')"

section \<open>The locator\<close>

definition FormatInt :: "int64 \<Rightarrow> string" where
  "FormatInt n = (if sint n < 0 then ''-'' @ dec (nat (- sint n)) else dec (nat (sint n)))"


definition userNodeKey :: "string \<Rightarrow> int64 \<Rightarrow> string" where
  "userNodeKey pre uid = pre @ '':locate:user:'' @ FormatInt uid @ '':node''"


definition unbindNodeScript :: "'s KvOps \<Rightarrow> string \<Rightarrow> string \<Rightarrow> string \<Rightarrow> 's \<Rightarrow> 's \<times> bool" where
  "unbindNodeScript R k name nid s =
     (let val = kHGET R s k name in if val = Some '''' \<or> val \<noteq> Some nid then (s, False) else (kHDEL R s k name, True))"


definition Loc_LocateNode :: "'s KvOps \<Rightarrow> string \<Rightarrow> reply \<Rightarrow> 's \<Rightarrow> int64 \<Rightarrow> string \<Rightarrow> goerror + string" where
  "Loc_LocateNode R pre r s uid name =
     (if r \<noteq> Fine then Inl redis_error
      else Inr (case kHGET R s (userNodeKey pre uid) name of None \<Rightarrow> '''' | Some v \<Rightarrow> v))"


text \<open>\<open>broadcast\<close>: the events on the channel; a failure is only logged.\<close>

definition loc_broadcast :: "reply \<Rightarrow> locate_type \<Rightarrow> int64 \<Rightarrow> string \<Rightarrow> string \<Rightarrow> locate_event list" where
  "loc_broadcast p typ uid iid iname =
     (if p = Refused then [] else [\<lparr>le_UID = uid, le_Type = typ, le_InsID = iid, le_InsName = iname\<rparr>])"


definition Loc_BindNode :: "'s KvOps \<Rightarrow> string \<Rightarrow> reply \<Rightarrow> reply \<Rightarrow> 's \<Rightarrow> int64 \<Rightarrow> string \<Rightarrow> string \<Rightarrow> 's \<times> locate_event list \<times> goerror option" where
  "Loc_BindNode R pre r p s uid name nid =
     (let s' = sent r s (kHSET R s (userNodeKey pre uid) name nid)
      in if r \<noteq> Fine then (s', [], Some redis_error) else (s', loc_broadcast p EvBindNode uid nid name, None))"


definition Loc_UnbindNode :: "'s KvOps \<Rightarrow> string \<Rightarrow> reply \<Rightarrow> reply \<Rightarrow> 's \<Rightarrow> int64 \<Rightarrow> string \<Rightarrow> string \<Rightarrow> 's \<times> locate_event list \<times> goerror option" where
  "Loc_UnbindNode R pre r p s uid name nid =
     (case unbindNodeScript R (userNodeKey pre uid) name nid s of (s1, done) \<Rightarrow>
        let s' = sent r s s1
        in if r \<noteq> Fine then (s', [], Some redis_error)
           else (s', if done then loc_broadcast p EvUnbindNode uid nid name else [], None))"

datatype loc_op = OBindGate int64 string | OBindNode int64 string string | OUnbindGate int64 string | OUnbindNode int64 string string


section \<open>The directory\<close>




fun dir_event :: "loc_op \<Rightarrow> locate_event" where
  "dir_event (OBindGate uid gid) = \<lparr>le_UID = uid, le_Type = EvBindGate, le_InsID = gid, le_InsName = ''''\<rparr>"
| "dir_event (OBindNode uid name nid) = \<lparr>le_UID = uid, le_Type = EvBindNode, le_InsID = nid, le_InsName = name\<rparr>"
| "dir_event (OUnbindGate uid gid) = \<lparr>le_UID = uid, le_Type = EvUnbindGate, le_InsID = gid, le_InsName = ''''\<rparr>"
| "dir_event (OUnbindNode uid name nid) = \<lparr>le_UID = uid, le_Type = EvUnbindNode, le_InsID = nid, le_InsName = name\<rparr>"














section \<open>A linker that follows the events\<close>

text \<open>The locator as the environment of a linker: the state of the server and the events not yet delivered.\<close>

type_synonym 's channel = "'s \<times> locate_event list"

definition loc_env :: "'s KvOps \<Rightarrow> string \<Rightarrow> reply \<Rightarrow> ('s channel, 'u, unit) LinkEnv" where
  "loc_env R pre r =
     \<lparr>env_LocateNode = (\<lambda>(s, q) uid name. ((s, q), Loc_LocateNode R pre r s uid name)),
      env_BindNode = (\<lambda>(s, q) uid name nid. case Loc_BindNode R pre r Fine s uid name nid of (s, evs, err) \<Rightarrow> ((s, q @ evs), err)),
      env_UnbindNode = (\<lambda>(s, q) uid name nid. case Loc_UnbindNode R pre r Fine s uid name nid of (s, evs, err) \<Rightarrow> ((s, q @ evs), err)),
      env_Build = (\<lambda>e ep. (e, Inl ErrNotFoundEndpoint))\<rparr>"


text \<open>What a linker will know of a user when the events have arrived; with hints every event only forgets.\<close>

definition settle1 :: "bool \<Rightarrow> int64 \<Rightarrow> string \<Rightarrow> string option \<Rightarrow> locate_event \<Rightarrow> string option" where
  "settle1 hints uid name x ev =
     (if le_UID ev \<noteq> uid \<or> le_InsName ev \<noteq> name \<or> le_Type ev \<noteq> EvBindNode \<and> le_Type ev \<noteq> EvUnbindNode then x
      else if hints then None
      else if le_Type ev = EvBindNode then Some (le_InsID ev)
      else if x = Some (le_InsID ev) then None else x)"

definition settle :: "bool \<Rightarrow> int64 \<Rightarrow> string \<Rightarrow> locate_event list \<Rightarrow> string option \<Rightarrow> string option" where
  "settle hints uid name q x = foldl (settle1 hints uid name) x q"

lemma settle_simps [simp]:
  "settle hints uid name [] x = x" "settle hints uid name (ev # q) x = settle hints uid name q (settle1 hints uid name x ev)"
  "settle hints uid name (q @ [ev]) x = settle1 hints uid name (settle hints uid name q x) ev"
  by (simp_all add: settle_def)












lemma lru_drop_map: "map_of (lru_drop l k) k' = (if k' = k then None else map_of l k')"
  by (induction l) (auto simp: lru_drop_def)




lemma apply_settle:
  assumes "link_ok l" and "applySourceEvent l ev = Ok l'"
  shows "link_ok l' \<and> same_link l l' \<and> known l' u n = settle1 (nl_hints l \<noteq> None) u n (known l u n) ev"
proof (cases "nl_hints l")
  case None
  note f = legacy_frame [of l "le_UID ev" "le_InsName ev" "le_InsID ev"]
  show ?thesis
    using assms None f
    by (auto simp: applySourceEvent_def doStoreSource_def doDeleteSource_def known_def settle1_def legacy_store legacy_delete split: if_splits)
next
  case (Some h)
  then have "hints_ok h" using assms(1) by (simp add: link_ok_def)
  then show ?thesis
    using assms Some by (auto simp: applySourceEvent_def known_def settle1_def link_ok_def same_link_def invalidate_refines lru_drop_map split: if_splits)
qed

lemma loc_env_simps [simp]:
  "env_LocateNode (loc_env R pre r) (s, q) uid name = ((s, q), Loc_LocateNode R pre r s uid name)"
  "env_BindNode (loc_env R pre r) (s, q) uid name nid = (case Loc_BindNode R pre r Fine s uid name nid of (s, evs, err) \<Rightarrow> ((s, q @ evs), err))"
  "env_UnbindNode (loc_env R pre r) (s, q) uid name nid = (case Loc_UnbindNode R pre r Fine s uid name nid of (s, evs, err) \<Rightarrow> ((s, q @ evs), err))"
  by (simp_all add: loc_env_def)









text \<open>
  The order of the events matters: \<open>BindNode\<close> writes and publishes in two commands, so of two binds the last to write may
  be the first to publish, and a linker with the full table ends up with the other node.
\<close>

lemma reordered_events_stale:
  assumes "link_ok l" "nl_hints l = None"
    and "applySourceEvent l (dir_event (OBindNode uid name ''n2'')) = Ok l1" "applySourceEvent l1 (dir_event (OBindNode uid name ''n1'')) = Ok l2"
  shows "known l2 uid name = Some ''n1''"
proof -
  have "link_ok l1" "nl_hints l1 = None" using apply_settle [OF assms(1,3)] assms(2) by (auto simp: same_link_def)
  then show ?thesis using apply_settle [OF _ assms(4), of uid name] by (simp add: settle1_def)
qed

end
