(* ===== verification/Watchers.thy ===== *)
theory Watchers
  imports Go_Prelude Tally
begin

text \<open>
  The watchers of the locator (\<open>locate/redis/watcher.go\<close>): a manager hands every event to the channels of its watchers, which start with
  the first \<open>Next\<close> and end with \<open>Stop\<close>.  The manager and each watcher have a lock of their own.  A goroutine is a program counter;
  who holds which lock can be read off the program counters, as sections that take no second lock are single steps.
  Events are numbers.
\<close>

section \<open>State\<close>

datatype watch_state = stateInitial | stateRunning | stateStopped

record watcher =
  w_state :: watch_state
  w_events :: "nat list"
  w_closed :: bool

record watcherMgr =
  wm_all :: "watcher list"
  wm_watchers :: "nat list"
  wm_cancelled :: bool
  wm_panicked :: bool

text \<open>\<open>Iter ev ws\<close>, \<open>Notify ev w ws\<close> and \<open>Sending ev w ws\<close> hold the manager for reading, the last also its watcher; \<open>Recycle w\<close> holds the watcher for writing.\<close>

datatype vpc =
    Broadcast nat | Iter nat "nat list" | Notify nat nat "nat list" | Sending nat nat "nat list" | BEnd
  | NextLock nat | Receive nat | NextEnd "nat res"
  | StopLock nat | Recycle nat | StopEnd "unit res"
  | Fork | ForkEnd nat

definition newWatcher :: watcher where
  "newWatcher = \<lparr>w_state = stateInitial, w_events = [], w_closed = False\<rparr>"

definition newWatcherMgr :: watcherMgr where
  "newWatcherMgr = \<lparr>wm_all = [], wm_watchers = [], wm_cancelled = False, wm_panicked = False\<rparr>"

definition set_watcher :: "nat \<Rightarrow> watcher \<Rightarrow> watcherMgr \<Rightarrow> watcherMgr" where
  "set_watcher i w m = m\<lparr>wm_all := (wm_all m)[i := w]\<rparr>"

section \<open>Steps\<close>

fun mgr_reader :: "vpc \<Rightarrow> bool" where
  "mgr_reader (Iter _ _) = True"
| "mgr_reader (Notify _ _ _) = True"
| "mgr_reader (Sending _ _ _) = True"
| "mgr_reader _ = False"

fun watcher_reader :: "nat \<Rightarrow> vpc \<Rightarrow> bool" where
  "watcher_reader i (Sending _ w _) = (w = i)"
| "watcher_reader i _ = False"

fun watcher_writer :: "nat \<Rightarrow> vpc \<Rightarrow> bool" where
  "watcher_writer i (Recycle w) = (w = i)"
| "watcher_writer i _ = False"

text \<open>\<open>broadcast\<close> of the manager and \<open>notify\<close> of a watcher; the channel has room for 16 events.\<close>

fun notify_step :: "(nat \<Rightarrow> bool) \<Rightarrow> vpc \<Rightarrow> watcherMgr \<Rightarrow> (watcherMgr \<times> vpc) option" where
  "notify_step writer (Broadcast ev) m = Some (m, Iter ev (wm_watchers m))"
| "notify_step writer (Iter ev ws) m = Some (m, case ws of [] \<Rightarrow> BEnd | w # ws \<Rightarrow> Notify ev w ws)"
| "notify_step writer (Notify ev w ws) m =
     (if writer w then None
      else Some (m, if w_state (wm_all m ! w) = stateRunning then Sending ev w ws else Iter ev ws))"
| "notify_step writer (Sending ev w ws) m =
     (if w_closed (wm_all m ! w) then Some (m\<lparr>wm_panicked := True\<rparr>, BEnd)
      else if length (w_events (wm_all m ! w)) < 16
      then Some (set_watcher w ((wm_all m ! w)\<lparr>w_events := w_events (wm_all m ! w) @ [ev]\<rparr>) m, Iter ev ws)
      else None)"
| "notify_step writer p m = None"

fun next_step :: "(nat \<Rightarrow> bool) \<Rightarrow> vpc \<Rightarrow> watcherMgr \<Rightarrow> (watcherMgr \<times> vpc) option" where
  "next_step locked (NextLock i) m =
     (if locked i \<or> length (wm_all m) \<le> i then None
      else let w = wm_all m ! i
           in Some (if w_state w = stateInitial then set_watcher i (w\<lparr>w_state := stateRunning\<rparr>) m else m, Receive i))"
| "next_step locked (Receive i) m =
     (let w = wm_all m ! i
      in case w_events w of
           ev # evs \<Rightarrow> Some (set_watcher i (w\<lparr>w_events := evs\<rparr>) m, NextEnd (Ok ev))
         | [] \<Rightarrow> if w_closed w then Some (m, NextEnd (Err (ErrOther ''context canceled''))) else None)"
| "next_step locked p m = None"

definition wm_recycle :: "nat \<Rightarrow> watcherMgr \<Rightarrow> watcherMgr" where
  [simp]: "wm_recycle i m =
     (let ws = filter (\<lambda>j. j \<noteq> i) (wm_watchers m)
      in m\<lparr>wm_watchers := ws, wm_cancelled := wm_cancelled m \<or> ws = []\<rparr>)"

definition wm_fork :: "watcherMgr \<Rightarrow> watcherMgr" where
  [simp]: "wm_fork m = m\<lparr>wm_all := wm_all m @ [newWatcher], wm_watchers := wm_watchers m @ [length (wm_all m)]\<rparr>"

text \<open>\<open>Stop\<close>, \<open>recycle\<close> and \<open>fork\<close>; \<open>held\<close> tells that somebody reads the manager.\<close>

fun stop_step :: "(nat \<Rightarrow> bool) \<Rightarrow> bool \<Rightarrow> vpc \<Rightarrow> watcherMgr \<Rightarrow> (watcherMgr \<times> vpc) option" where
  "stop_step locked held (StopLock i) m =
     (if locked i \<or> length (wm_all m) \<le> i then None
      else let w = wm_all m ! i
           in if w_state w = stateStopped then Some (m, StopEnd (Err ErrIllegalOperation))
              else if w_closed w then Some (m\<lparr>wm_panicked := True\<rparr>, StopEnd Panic)
              else Some (set_watcher i (w\<lparr>w_state := stateStopped, w_closed := True\<rparr>) m, Recycle i))"
| "stop_step locked held (Recycle i) m =
     (if held then None
      else Some (wm_recycle i m, StopEnd (Ok ())))"
| "stop_step locked held Fork m =
     (if held then None
      else Some (wm_fork m, ForkEnd (length (wm_all m))))"
| "stop_step locked held p m = None"

definition vstep :: "vpc list \<Rightarrow> vpc \<Rightarrow> watcherMgr \<Rightarrow> (watcherMgr \<times> vpc) option" where
  "vstep ths p m =
     (let writer = (\<lambda>i. list_ex (watcher_writer i) ths); locked = (\<lambda>i. list_ex (watcher_writer i) ths \<or> list_ex (watcher_reader i) ths)
      in case notify_step writer p m of Some r \<Rightarrow> Some r | None \<Rightarrow>
         case next_step locked p m of Some r \<Rightarrow> Some r | None \<Rightarrow> stop_step locked (list_ex mgr_reader ths) p m)"

type_synonym vworld = "watcherMgr \<times> vpc list"

datatype vaction = Begin vpc | Move nat

fun beginning :: "vpc \<Rightarrow> bool" where
  "beginning (Broadcast _) = True"
| "beginning (NextLock _) = True"
| "beginning (StopLock _) = True"
| "beginning Fork = True"
| "beginning _ = False"

definition vact :: "vaction \<Rightarrow> vworld \<Rightarrow> vworld option" where
  "vact a w =
     (case w of (m, ths) \<Rightarrow>
      case a of
        Begin p \<Rightarrow> if beginning p then Some (m, ths @ [p]) else None
      | Move i \<Rightarrow> if i < length ths then map_option (\<lambda>(m, p). (m, ths[i := p])) (vstep ths (ths ! i) m) else None)"

inductive vreachable :: "vworld \<Rightarrow> bool" where
  v_init: "vreachable (newWatcherMgr, [])"
| v_step: "vreachable w \<Longrightarrow> vact a w = Some w' \<Longrightarrow> vreachable w'"

primrec run_v :: "vaction list \<Rightarrow> vworld \<Rightarrow> vworld option" where
  "run_v [] w = Some w"
| "run_v (a # as) w = (case vact a w of None \<Rightarrow> None | Some w \<Rightarrow> run_v as w)"

lemma run_v_reachable: "vreachable w \<Longrightarrow> run_v as w = Some w' \<Longrightarrow> vreachable w'"
  by (induction "as" arbitrary: w) (auto split: option.splits intro: v_step)

lemma vstep_cases:
  assumes "vstep ths p m = Some (m', p')"
  obtains (notifies) "notify_step (\<lambda>i. list_ex (watcher_writer i) ths) p m = Some (m', p')"
    | (nexts) "next_step (\<lambda>i. list_ex (watcher_writer i) ths \<or> list_ex (watcher_reader i) ths) p m = Some (m', p')"
    | (stops) "stop_step (\<lambda>i. list_ex (watcher_writer i) ths \<or> list_ex (watcher_reader i) ths) (list_ex mgr_reader ths) p m = Some (m', p')"
  using assms that by (auto simp: vstep_def Let_def split: option.splits)

section \<open>The lock order\<close>

lemma cross_locked:
  assumes "ths ! a = Notify ev i ws" "ths ! b = Recycle i" "a < length ths" "b < length ths" and "vact act (m, ths) = Some (m', ths')"
  shows "ths' ! a = Notify ev i ws \<and> ths' ! b = Recycle i \<and> a < length ths' \<and> b < length ths'"
proof (cases act)
  case (Begin p)
  then show ?thesis using assms by (auto simp: vact_def nth_append split: if_splits)
next
  case (Move j)
  then obtain p' where s: "j < length ths" "vstep ths (ths ! j) m = Some (m', p')" "ths' = ths[j := p']"
    using assms(5) by (auto simp: vact_def split: if_splits)
  have held: "list_ex mgr_reader ths" "list_ex (watcher_writer i) ths"
    using assms(1-4) by (metis list_ex_length mgr_reader.simps(2) watcher_writer.simps(1))+
  have "j \<noteq> a" "j \<noteq> b"
    using s(2) assms(1,2) held by (auto elim!: vstep_cases)
  then show ?thesis using s(3) assms(1-4) by simp
qed

text \<open>
  C39: \<open>Stop\<close> and the delivery of an event can lock each other out for ever: \<open>Stop\<close> takes the lock of the watcher and then that of the
  manager, \<open>broadcast\<close> the lock of the manager and then that of the watcher.  When both are between their two locks, neither ever moves
  again, whatever else happens, and no further event reaches any watcher behind the stopped one.
\<close>

theorem watch_stop_deadlock:
  assumes "vreachable (m, ths)" and "a < length ths" and "b < length ths" and "ths ! a = Notify ev i ws" and "ths ! b = Recycle i"
    and "run_v as (m, ths) = Some (m', ths')"
  shows "ths' ! a = Notify ev i ws \<and> ths' ! b = Recycle i"
  using assms(2-6)
proof (induction "as" arbitrary: m ths)
  case (Cons act acts)
  then obtain d us where act: "vact act (m, ths) = Some (d, us)" and run: "run_v acts (d, us) = Some (m', ths')"
    by (auto split: option.splits)
  have "us ! a = Notify ev i ws" "us ! b = Recycle i" "a < length us" "b < length us"
    using cross_locked [OF Cons.prems(3,4,1,2) act] by simp_all
  then show ?case using Cons.IH run by blast
qed simp

definition cross_run :: "vaction list" where
  "cross_run = [Begin Fork, Move 0, Begin (NextLock 0), Move 1, Begin (Broadcast 5), Move 2, Move 2, Begin (StopLock 0), Move 3]"

theorem watch_stop_deadlock_witness:
  "\<exists>m ths m' ths'. run_v cross_run (newWatcherMgr, []) = Some (m, ths) \<and> run_v [Move 1, Begin Fork, Begin (Broadcast 6), Move 5] (m, ths) = Some (m', ths') \<and>
     ths' ! 2 = Notify 5 0 [] \<and> ths' ! 3 = Recycle 0"
proof -
  let ?r = "run_v cross_run (newWatcherMgr, [])" and ?as = "[Move 1, Begin Fork, Begin (Broadcast 6), Move 5]"
  have "map_option (\<lambda>(m, ths). (length ths, ths ! 2, ths ! 3, run_v ?as (m, ths) = None)) ?r = Some (4, Notify 5 0 [], Recycle 0, False)"
    by code_simp
  then obtain m ths where r: "?r = Some (m, ths)" "length ths = 4" "ths ! 2 = Notify 5 0 []" "ths ! 3 = Recycle 0" "run_v ?as (m, ths) \<noteq> None"
    by (cases ?r) auto
  from r(5) obtain m' ths' where r': "run_v ?as (m, ths) = Some (m', ths')" by fastforce
  have "vreachable (m, ths)" by (rule run_v_reachable [OF v_init r(1)])
  from watch_stop_deadlock [OF this _ _ r(3,4) r'] r(1,2) r' show ?thesis by auto
qed

section \<open>Channels\<close>

fun pc_ok :: "watcherMgr \<Rightarrow> vpc \<Rightarrow> bool" where
  "pc_ok m (Iter _ ws) = (\<forall>w \<in> set ws. w < length (wm_all m))"
| "pc_ok m (Notify _ w ws) = (\<forall>w \<in> set (w # ws). w < length (wm_all m))"
| "pc_ok m (Sending _ w ws) = ((\<forall>w \<in> set (w # ws). w < length (wm_all m)) \<and> w_state (wm_all m ! w) = stateRunning)"
| "pc_ok m (Receive i) = (i < length (wm_all m))"
| "pc_ok m _ = True"

definition watch_inv :: "vworld \<Rightarrow> bool" where
  "watch_inv w = (case w of (m, ths) \<Rightarrow>
     \<not> wm_panicked m \<and> (\<forall>w \<in> set (wm_all m). w_closed w \<longleftrightarrow> w_state w = stateStopped) \<and>
     (\<forall>w \<in> set (wm_watchers m). w < length (wm_all m)) \<and> (\<forall>p \<in> set ths. pc_ok m p))"

text \<open>A step keeps the watchers others are sending to as they are: these are locked.\<close>

lemma pc_ok_mono:
  assumes "pc_ok m p" and "length (wm_all m) \<le> length (wm_all m')"
    and "\<And>ev w ws. p = Sending ev w ws \<Longrightarrow> w_state (wm_all m ! w) = stateRunning \<Longrightarrow> w_state (wm_all m' ! w) = stateRunning"
  shows "pc_ok m' p"
  using assms by (cases p) force+

lemma in_update: "x \<in> set (xs[i := y]) \<Longrightarrow> x = y \<or> x \<in> set xs"
  using set_update_subset_insert [of xs i y] by auto

lemma watch_step:
  assumes inv: "watch_inv (m, ths)" and p: "p \<in> set ths" and step: "vstep ths p m = Some (m', p')"
  shows "\<not> wm_panicked m' \<and> (\<forall>w \<in> set (wm_all m'). w_closed w \<longleftrightarrow> w_state w = stateStopped) \<and>
    (\<forall>w \<in> set (wm_watchers m'). w < length (wm_all m')) \<and> pc_ok m' p' \<and> length (wm_all m) \<le> length (wm_all m') \<and>
    (\<forall>w < length (wm_all m). list_ex (watcher_reader w) ths \<and> w_state (wm_all m ! w) = stateRunning \<longrightarrow> w_state (wm_all m' ! w) = stateRunning)"
proof -
  have i: "\<not> wm_panicked m" "\<And>w. w \<in> set (wm_all m) \<Longrightarrow> w_closed w \<longleftrightarrow> w_state w = stateStopped"
      "\<And>w. w \<in> set (wm_watchers m) \<Longrightarrow> w < length (wm_all m)" "pc_ok m p"
    using inv p by (auto simp: watch_inv_def)
  have c: "w_closed (wm_all m ! k) \<longleftrightarrow> w_state (wm_all m ! k) = stateStopped" if "k < length (wm_all m)" for k
    using i(2) that by simp
  from step show ?thesis
  proof (cases rule: vstep_cases)
    case notifies
    show ?thesis
    proof (cases p)
      case (Sending ev w ws)
      then show ?thesis
        using notifies i c by (auto simp: set_watcher_def nth_list_update split: if_splits dest!: in_update)
    qed (use notifies i in \<open>auto split: if_splits list.splits\<close>)
  next
    case nexts
    show ?thesis
    proof (cases p)
      case (NextLock k)
      then show ?thesis
        using nexts i c by (auto simp: Let_def set_watcher_def nth_list_update split: if_splits dest!: in_update)
    next
      case (Receive k)
      then show ?thesis
        using nexts i c by (auto simp: Let_def set_watcher_def nth_list_update split: if_splits list.splits dest!: in_update)
    qed (use nexts in simp_all)
  next
    case stops
    show ?thesis
    proof (cases p)
      case (StopLock k)
      then show ?thesis
        using stops i c by (auto simp: Let_def set_watcher_def nth_list_update split: if_splits dest!: in_update)
    next
      case (Recycle k)
      then show ?thesis using stops i by (auto simp: Let_def split: if_splits)
    next
      case Fork
      then show ?thesis using stops i by (auto simp: newWatcher_def nth_append less_SucI split: if_splits)
    qed (use stops in simp_all)
  qed
qed

lemma watch_reachable: "vreachable w \<Longrightarrow> watch_inv w"
proof (induction rule: vreachable.induct)
  case v_init
  show ?case by (simp add: watch_inv_def newWatcherMgr_def)
next
  case (v_step w a w')
  obtain m ths where w: "w = (m, ths)" by fastforce
  show ?case
  proof (cases a)
    case (Begin p)
    then show ?thesis
      using v_step by (cases p) (auto simp: vact_def w watch_inv_def split: if_splits)
  next
    case (Move i)
    then obtain m' p' where s: "i < length ths" "vstep ths (ths ! i) m = Some (m', p')" "w' = (m', ths[i := p'])"
      using v_step.hyps(2) by (auto simp: vact_def w split: if_splits)
    note st = watch_step [OF v_step.IH [unfolded w] nth_mem [OF s(1)] s(2)]
    have "pc_ok m' q" if "q \<in> set ths" for q
    proof (rule pc_ok_mono [of m])
      show "pc_ok m q" using v_step.IH that by (simp add: w watch_inv_def)
      fix ev k ws assume q: "q = Sending ev k ws" "w_state (wm_all m ! k) = stateRunning"
      then have "list_ex (watcher_reader k) ths" "k < length (wm_all m)"
        using that v_step.IH by (auto simp: list_ex_iff w watch_inv_def intro!: bexI [of _ q])
      then show "w_state (wm_all m' ! k) = stateRunning" using st q(2) by blast
    qed (use st in blast)
    then show ?thesis
      using st s(3) by (auto simp: watch_inv_def dest!: in_update)
  qed
qed

text \<open>No interleaving sends on a closed channel or closes one twice.\<close>

lemma watch_channels_safe: "vreachable (m, ths) \<Longrightarrow> \<not> wm_panicked m"
  using watch_reachable by (fastforce simp: watch_inv_def)

end
