(* ===== verification/Redis_Lock.thy ===== *)
theory Redis_Lock
  imports Go_Prelude
begin

text \<open>
  The distributed lock on Redis (\<open>lock/redis/maker.go\<close>, \<open>locker.go\<close>, \<open>script.go\<close>): a key with a time to live that holds the version of the
  locker that owns it.  The server is a parameter: an observation of each key (its value and when it expires) and
  the commands with their documented effect on it.  Lockers act in any order while time passes; a command succeeds,
  fails without effect, or takes effect although its reply is lost.
\<close>

section \<open>The server\<close>

text \<open>When a key expires: never (\<open>None\<close>) or at a time in milliseconds.\<close>

type_synonym expiry = "int option"

record 's TtlOps =
  tEXP :: "'s \<Rightarrow> string \<Rightarrow> (string \<times> expiry) option"
  tSET :: "'s \<Rightarrow> string \<Rightarrow> string \<Rightarrow> expiry \<Rightarrow> 's"
  tDEL :: "'s \<Rightarrow> string \<Rightarrow> 's"

locale redis_ttl =
  fixes R :: "'s TtlOps"
  assumes exp_set: "tEXP R (tSET R s k v e) k' = (if k' = k then Some (v, e) else tEXP R s k')"
    and exp_del: "tEXP R (tDEL R s k) k' = (if k' = k then None else tEXP R s k')"

definition alive :: "int \<Rightarrow> expiry \<Rightarrow> bool" where
  "alive now e = (case e of None \<Rightarrow> True | Some t \<Rightarrow> now < t)"

definition tGET :: "'s TtlOps \<Rightarrow> int \<Rightarrow> 's \<Rightarrow> string \<Rightarrow> string option" where
  "tGET R now s k = (case tEXP R s k of None \<Rightarrow> None | Some (v, e) \<Rightarrow> if alive now e then Some v else None)"

text \<open>A time to live that is not positive means none.\<close>

definition expires :: "int \<Rightarrow> int \<Rightarrow> expiry" where
  "expires now ttl = (if ttl \<le> 0 then None else Some (now + ttl))"

definition tSETNX :: "'s TtlOps \<Rightarrow> int \<Rightarrow> 's \<Rightarrow> string \<Rightarrow> string \<Rightarrow> int \<Rightarrow> 's \<times> bool" where
  "tSETNX R now s k v ttl = (if tGET R now s k = None then (tSET R s k v (expires now ttl), True) else (s, False))"

section \<open>Scripts and commands\<close>

definition releaseScript :: "'s TtlOps \<Rightarrow> int \<Rightarrow> string \<Rightarrow> string \<Rightarrow> 's \<Rightarrow> 's \<times> bool" where
  "releaseScript R now k version s =
     (let val = tGET R now s k
      in if val = Some '''' then (s, True) else if val \<noteq> Some version then (s, False) else (tDEL R s k, True))"

definition renewalScript :: "'s TtlOps \<Rightarrow> int \<Rightarrow> string \<Rightarrow> string \<Rightarrow> int \<Rightarrow> 's \<Rightarrow> 's \<times> bool" where
  "renewalScript R now k version ttl s =
     (let val = tGET R now s k
      in if val = Some '''' then (s, False) else if val \<noteq> Some version then (s, False)
         else (tSET R s k version (Some (now + ttl)), True))"

datatype outcome = Fine | Refused | Lost

text \<open>The state a command leaves and what the caller is told: its reply, or an error.\<close>

definition command :: "outcome \<Rightarrow> 's \<Rightarrow> 's \<times> bool \<Rightarrow> 's \<times> bool res" where
  "command r s res = (case res of (s', ok) \<Rightarrow>
     (if r = Refused then s else s', if r = Fine then Ok ok else Err (ErrOther ''redis'')))"

record lock_opts =
  prefix :: string
  expiration :: int
  acquireMaxRetries :: int

text \<open>
  A locker: \<open>lk_held\<close> is set while it may regard itself as the owner, from a successful acquisition to a release, with the end of
  its lease; \<open>lk_retries\<close> counts the failed rounds of an \<open>acquire\<close> under way.
\<close>

record Locker =
  lk_key :: string
  lk_version :: string
  lk_held :: "expiry option"
  lk_timer :: bool
  lk_retries :: "int option"
  lk_result :: "unit res"

text \<open>
  The options reach the maker only when it was built without an error; \<open>tls\<close> is the error of the TLS configuration, if it
  has one.
\<close>

record Maker =
  m_err :: "goerror option"
  m_opts :: "lock_opts option"

definition NewMaker :: "int \<Rightarrow> lock_opts \<Rightarrow> goerror option \<Rightarrow> Maker" where
  "NewMaker defaultExpiration ops tls =
     (let ops = (if expiration ops \<le> 0 then ops\<lparr>expiration := defaultExpiration\<rparr> else ops)
      in \<lparr>m_err = tls, m_opts = (if tls = None then Some ops else None)\<rparr>)"

definition new_locker :: "lock_opts \<Rightarrow> string \<Rightarrow> string \<Rightarrow> Locker" where
  "new_locker ops name uuid = \<lparr>lk_key = (if prefix ops = '''' then name else prefix ops @ '':'' @ name), lk_version = uuid, lk_held = None,
     lk_timer = False, lk_retries = None, lk_result = Ok ()\<rparr>"

definition Make :: "Maker \<Rightarrow> string \<Rightarrow> string \<Rightarrow> Locker res" where
  "Make m name uuid = (case m_opts m of None \<Rightarrow> Panic | Some ops \<Rightarrow> Ok (new_locker ops name uuid))"

text \<open>One round of the loop of \<open>acquire\<close>, and the rest of \<open>Acquire\<close> when it ends; the maker of a locker has no error (\<open>maker_error_panics\<close>).\<close>

definition acquire_round :: "'s TtlOps \<Rightarrow> lock_opts \<Rightarrow> int \<Rightarrow> outcome \<Rightarrow> Locker \<Rightarrow> 's \<Rightarrow> 's \<times> Locker" where
  "acquire_round R ops now r l s =
     (let retries = (case lk_retries l of None \<Rightarrow> 0 | Some n \<Rightarrow> n)
      in case command r s (tSETNX R now s (lk_key l) (lk_version l) (expiration ops)) of
           (s, Ok True) \<Rightarrow> (s, l\<lparr>lk_retries := None, lk_held := Some (expires now (expiration ops)), lk_timer := True, lk_result := Ok ()\<rparr>)
         | (s, Ok False) \<Rightarrow>
             if 0 < acquireMaxRetries ops
             then (if acquireMaxRetries ops < retries
                   then (s, l\<lparr>lk_retries := None, lk_result := Err (ErrOther ''deadline exceeded'')\<rparr>)
                   else (s, l\<lparr>lk_retries := Some (retries + 1)\<rparr>))
             else (s, l\<lparr>lk_retries := Some retries\<rparr>)
         | (s, Err e) \<Rightarrow> (s, l\<lparr>lk_retries := None, lk_result := Err e\<rparr>)
         | (s, Panic) \<Rightarrow> (s, l))"

definition tryAcquire :: "'s TtlOps \<Rightarrow> lock_opts \<Rightarrow> int \<Rightarrow> outcome \<Rightarrow> int option \<Rightarrow> Locker \<Rightarrow> 's \<Rightarrow> 's \<times> Locker" where
  "tryAcquire R ops now r given l s =
     (let ttl = (case given of None \<Rightarrow> expiration ops | Some t \<Rightarrow> t) in
      case command r s (tSETNX R now s (lk_key l) (lk_version l) ttl) of
        (s, Ok True) \<Rightarrow> (s, l\<lparr>lk_held := Some (expires now ttl), lk_result := Ok ()\<rparr>)
      | (s, Ok False) \<Rightarrow> (s, l\<lparr>lk_result := Err ErrIllegalOperation\<rparr>)
      | (s, Err e) \<Rightarrow> (s, l\<lparr>lk_result := Err e\<rparr>)
      | (s, Panic) \<Rightarrow> (s, l))"

definition Release :: "'s TtlOps \<Rightarrow> int \<Rightarrow> outcome \<Rightarrow> Locker \<Rightarrow> 's \<Rightarrow> 's \<times> Locker" where
  "Release R now r l s =
     (let l = l\<lparr>lk_timer := False, lk_held := None\<rparr>
      in case command r s (releaseScript R now (lk_key l) (lk_version l) s) of
           (s, Ok ok) \<Rightarrow> (s, l\<lparr>lk_result := (if ok then Ok () else Err ErrIllegalOperation)\<rparr>)
         | (s, Err e) \<Rightarrow> (s, l\<lparr>lk_result := Err e\<rparr>)
         | (s, Panic) \<Rightarrow> (s, l))"

text \<open>
  The timer: after a renewal that failed it is not armed again.  A locker that got an error cannot rely on more than a renewed
  lease, as the command may have taken effect.
\<close>

definition shorten :: "int \<Rightarrow> expiry \<Rightarrow> expiry" where
  "shorten t e = (case e of None \<Rightarrow> Some t | Some t' \<Rightarrow> Some (min t t'))"

definition renewal :: "'s TtlOps \<Rightarrow> lock_opts \<Rightarrow> int \<Rightarrow> outcome \<Rightarrow> Locker \<Rightarrow> 's \<Rightarrow> 's \<times> Locker" where
  "renewal R ops now r l s =
     (case command r s (renewalScript R now (lk_key l) (lk_version l) (expiration ops) s) of
        (s, Ok True) \<Rightarrow> (s, l\<lparr>lk_held := (if lk_held l = None then None else Some (Some (now + expiration ops))), lk_timer := True\<rparr>)
      | (s, Ok False) \<Rightarrow> (s, l\<lparr>lk_timer := False\<rparr>)
      | (s, _) \<Rightarrow> (s, l\<lparr>lk_held := map_option (shorten (now + expiration ops)) (lk_held l), lk_timer := False\<rparr>))"

section \<open>Lockers together\<close>

datatype lock_action = Round nat outcome | Try nat outcome "int option" | Free nat outcome | Renew nat outcome | Pass nat

type_synonym 's lock_world = "'s \<times> int \<times> Locker list"

definition on_locker :: "nat \<Rightarrow> (Locker \<Rightarrow> 's \<Rightarrow> 's \<times> Locker) \<Rightarrow> 's lock_world \<Rightarrow> 's lock_world" where
  "on_locker i f w = (case w of (s, now, ls) \<Rightarrow>
     if i < length ls then (case f (ls ! i) s of (s, l) \<Rightarrow> (s, now, ls[i := l])) else w)"

fun lock_act :: "'s TtlOps \<Rightarrow> lock_opts \<Rightarrow> lock_action \<Rightarrow> 's lock_world \<Rightarrow> 's lock_world" where
  "lock_act R ops (Round i r) (s, now, ls) = on_locker i (acquire_round R ops now r) (s, now, ls)"
| "lock_act R ops (Try i r ttl) (s, now, ls) = on_locker i (tryAcquire R ops now r ttl) (s, now, ls)"
| "lock_act R ops (Free i r) (s, now, ls) = on_locker i (Release R now r) (s, now, ls)"
| "lock_act R ops (Renew i r) (s, now, ls) = on_locker i (renewal R ops now r) (s, now, ls)"
| "lock_act R ops (Pass n) (s, now, ls) = (s, now + int n, ls)"

primrec lock_run :: "'s TtlOps \<Rightarrow> lock_opts \<Rightarrow> lock_action list \<Rightarrow> 's lock_world \<Rightarrow> 's lock_world" where
  "lock_run R ops [] w = w"
| "lock_run R ops (a # as) w = lock_run R ops as (lock_act R ops a w)"

definition owns :: "int \<Rightarrow> Locker \<Rightarrow> bool" where
  "owns now l = (case lk_held l of None \<Rightarrow> False | Some e \<Rightarrow> alive now e)"

text \<open>\<open>e\<close> ends no earlier than \<open>e'\<close>.\<close>

definition covers :: "expiry \<Rightarrow> expiry \<Rightarrow> bool" where
  "covers e e' = (case e of None \<Rightarrow> True | Some t \<Rightarrow> (case e' of None \<Rightarrow> False | Some t' \<Rightarrow> t' \<le> t))"

text \<open>The server keeps the version of every owner for at least as long as its lease.\<close>

definition backed :: "'s TtlOps \<Rightarrow> int \<Rightarrow> 's \<Rightarrow> Locker \<Rightarrow> bool" where
  "backed R now s l \<longleftrightarrow> (\<forall>h. lk_held l = Some h \<and> alive now h \<longrightarrow> (\<exists>e. tEXP R s (lk_key l) = Some (lk_version l, e) \<and> covers e h))"

definition lock_inv :: "'s TtlOps \<Rightarrow> 's lock_world \<Rightarrow> bool" where
  "lock_inv R w = (case w of (s, now, ls) \<Rightarrow> distinct (map lk_version ls) \<and> (\<forall>l \<in> set ls. backed R now s l))"

lemma covers_alive: "covers e h \<Longrightarrow> alive now h \<Longrightarrow> alive now e"
  by (auto simp: covers_def alive_def split: option.splits)

lemma covers_refl [simp]: "covers e e"
  by (auto simp: covers_def split: option.splits)

lemma shorten_props: "covers e (shorten t e)" "covers (Some t) (shorten t e)" "alive now (shorten t e) \<Longrightarrow> alive now e"
  by (auto simp: covers_def shorten_def alive_def split: option.splits)

lemma covers_trans: "covers a b \<Longrightarrow> covers b c \<Longrightarrow> covers a c"
  by (auto simp: covers_def split: option.splits)

text \<open>
  What the commands of one locker may do to the server: leave it, write its own version into a key that is free or its own,
  or remove its own version.
\<close>

definition own_change :: "'s TtlOps \<Rightarrow> int \<Rightarrow> Locker \<Rightarrow> 's \<Rightarrow> 's \<Rightarrow> bool" where
  "own_change R now l s s' \<longleftrightarrow>
     s' = s \<or> (tGET R now s (lk_key l) = None \<or> tGET R now s (lk_key l) = Some (lk_version l)) \<and> (\<forall>k. k \<noteq> lk_key l \<longrightarrow> tEXP R s' k = tEXP R s k)"

lemma backed_other:
  assumes "own_change R now l s s'" and "backed R now s m" and "lk_version m \<noteq> lk_version l"
  shows "backed R now s' m"
proof (cases "s' = s \<or> lk_key m \<noteq> lk_key l")
  case True
  then show ?thesis using assms(1,2) by (auto simp: own_change_def backed_def)
next
  case False
  then have g: "tGET R now s (lk_key m) = None \<or> tGET R now s (lk_key m) = Some (lk_version l)"
    using assms(1) by (auto simp: own_change_def)
  have "\<not> (lk_held m = Some h \<and> alive now h)" for h
    using assms(2,3) g covers_alive by (fastforce simp: backed_def tGET_def split: option.splits if_splits)
  then show ?thesis by (auto simp: backed_def)
qed

context redis_ttl
begin

lemma setnx_cases:
  assumes "command r s (tSETNX R now s (lk_key l) (lk_version l) ttl) = (s', res)"
  shows "own_change R now l s s'"
    and "res = Ok True \<Longrightarrow> tEXP R s' (lk_key l) = Some (lk_version l, expires now ttl)"
    and "res \<noteq> Ok True \<Longrightarrow> backed R now s l \<Longrightarrow> backed R now s' l"
proof -
  show "own_change R now l s s'" "res = Ok True \<Longrightarrow> tEXP R s' (lk_key l) = Some (lk_version l, expires now ttl)"
    using assms by (auto simp: command_def tSETNX_def own_change_def exp_set split: if_splits)
  assume b: "backed R now s l"
  have "\<not> (lk_held l = Some h \<and> alive now h)" if "s' \<noteq> s" for h
    using that assms b covers_alive by (fastforce simp: command_def tSETNX_def backed_def tGET_def split: if_splits option.splits)
  then show "backed R now s' l" using b by (cases "s' = s") (auto simp: backed_def)
qed

lemma round_ok:
  assumes "acquire_round R ops now r l s = (s', l')" and "backed R now s l"
  shows "own_change R now l s s' \<and> backed R now s' l' \<and> lk_version l' = lk_version l"
proof -
  obtain t res where c: "command r s (tSETNX R now s (lk_key l) (lk_version l) (expiration ops)) = (t, res)" by fastforce
  note k = setnx_cases [OF c]
  consider "res = Ok True" | "res = Ok False" | e where "res = Err e" | "res = Panic" by (cases res) auto
  then show ?thesis
  proof cases
    case 1
    then show ?thesis using assms(1) c k by (auto simp: acquire_round_def Let_def backed_def)
  qed (use assms c k in \<open>auto simp: acquire_round_def Let_def backed_def split: if_splits\<close>)
qed

lemma try_ok:
  assumes "tryAcquire R ops now r given l s = (s', l')" and "backed R now s l"
  shows "own_change R now l s s' \<and> backed R now s' l' \<and> lk_version l' = lk_version l"
proof -
  define ttl where "ttl = (case given of None \<Rightarrow> expiration ops | Some t \<Rightarrow> t)"
  obtain t res where c: "command r s (tSETNX R now s (lk_key l) (lk_version l) ttl) = (t, res)" by fastforce
  note k = setnx_cases [OF c]
  consider "res = Ok True" | "res = Ok False" | e where "res = Err e" | "res = Panic" by (cases res) auto
  then show ?thesis
  proof cases
    case 1
    then show ?thesis using assms(1) c k by (auto simp: tryAcquire_def backed_def Let_def simp flip: ttl_def)
  qed (use assms c k in \<open>auto simp: tryAcquire_def backed_def Let_def simp flip: ttl_def\<close>)
qed

lemma release_ok:
  assumes "Release R now r l s = (s', l')" and "backed R now s l"
  shows "own_change R now l s s' \<and> backed R now s' l' \<and> lk_version l' = lk_version l"
proof -
  obtain t res where c: "command r s (releaseScript R now (lk_key l) (lk_version l) s) = (t, res)" by fastforce
  then have "own_change R now l s t" "res \<noteq> Panic"
    by (auto simp: command_def releaseScript_def Let_def own_change_def exp_del split: if_splits)
  moreover have "s' = t \<and> lk_held l' = None \<and> lk_version l' = lk_version l" if "res \<noteq> Panic"
    using that assms(1) c by (cases res) (auto simp: Release_def Let_def)
  ultimately show ?thesis by (simp add: backed_def)
qed

lemma renewal_ok:
  assumes "renewal R ops now r l s = (s', l')" and "backed R now s l"
  shows "own_change R now l s s' \<and> backed R now s' l' \<and> lk_version l' = lk_version l"
proof -
  obtain t res where c: "command r s (renewalScript R now (lk_key l) (lk_version l) (expiration ops) s) = (t, res)" by fastforce
  have own: "own_change R now l s t" "res \<noteq> Panic"
    using c by (auto simp: command_def renewalScript_def Let_def own_change_def exp_set split: if_splits)
  have written: "t = s \<or> tEXP R t (lk_key l) = Some (lk_version l, Some (now + expiration ops))" "res = Ok False \<Longrightarrow> t = s"
      "res = Ok True \<Longrightarrow> tEXP R t (lk_key l) = Some (lk_version l, Some (now + expiration ops))"
    using c by (auto simp: command_def renewalScript_def Let_def exp_set split: if_splits)
  consider "res = Ok True" | "res = Ok False" | e where "res = Err e" using own(2) by (cases res) auto
  then show ?thesis
  proof cases
    case 1
    then show ?thesis using assms(1) c own(1) written(3) by (auto simp: renewal_def backed_def split: if_splits)
  next
    case 2
    then show ?thesis using assms c own(1) written(2) by (auto simp: renewal_def backed_def)
  next
    case 3
    then have l': "s' = t" "l' = l\<lparr>lk_held := map_option (shorten (now + expiration ops)) (lk_held l), lk_timer := False\<rparr>"
      using assms(1) c by (auto simp: renewal_def)
    have "backed R now t l'"
      using assms(2) written(1) shorten_props covers_trans unfolding backed_def l'(2) by (auto; metis)
    then show ?thesis using own(1) l' by simp
  qed
qed

lemma on_locker_inv:
  assumes inv: "lock_inv R (s, now, ls)" and f: "\<And>l s' l'. f l s = (s', l') \<Longrightarrow> backed R now s l \<Longrightarrow>
      own_change R now l s s' \<and> backed R now s' l' \<and> lk_version l' = lk_version l"
  shows "lock_inv R (on_locker i f (s, now, ls))"
proof (cases "i < length ls")
  case False
  then show ?thesis using inv by (simp add: on_locker_def)
next
  case True
  let ?s = "fst (f (ls ! i) s)" and ?l = "snd (f (ls ! i) s)"
  have d: "distinct (map lk_version ls)" and b: "\<And>l. l \<in> set ls \<Longrightarrow> backed R now s l" using inv by (auto simp: lock_inv_def)
  have fi: "own_change R now (ls ! i) s ?s" "backed R now ?s ?l" "lk_version ?l = lk_version (ls ! i)"
    using f [OF _ b [OF nth_mem [OF True]]] by (metis prod.collapse)+
  have v: "map lk_version (ls[i := ?l]) = map lk_version ls"
    using fi(3) True by (intro nth_equalityI) (auto simp: nth_list_update)
  have "backed R now ?s (ls[i := ?l] ! j)" if "j < length ls" for j
  proof (cases "j = i")
    case False
    then have "lk_version (ls ! j) \<noteq> lk_version (ls ! i)"
      using d that True by (metis distinct_conv_nth length_map nth_map)
    then show ?thesis using backed_other [OF fi(1) b [OF nth_mem [OF that]]] False by simp
  qed (use fi(2) True in simp)
  then have "\<forall>l \<in> set (ls[i := ?l]). backed R now ?s l"
    by (metis in_set_conv_nth length_list_update)
  then show ?thesis
    using True d v by (simp add: on_locker_def lock_inv_def case_prod_beta)
qed

lemma lock_act_inv: "lock_inv R w \<Longrightarrow> lock_inv R (lock_act R ops a w)"
proof (cases a)
  case (Round i r)
  assume "lock_inv R w"
  then show ?thesis using Round by (cases w) (simp add: on_locker_inv [OF _ round_ok])
next
  case (Try i r ttl)
  assume "lock_inv R w"
  then show ?thesis using Try by (cases w) (simp add: on_locker_inv [OF _ try_ok])
next
  case (Free i r)
  assume "lock_inv R w"
  then show ?thesis using Free by (cases w) (simp add: on_locker_inv [OF _ release_ok])
next
  case (Renew i r)
  assume "lock_inv R w"
  then show ?thesis using Renew by (cases w) (simp add: on_locker_inv [OF _ renewal_ok])
next
  case (Pass n)
  assume "lock_inv R w"
  then show ?thesis using Pass by (cases w) (auto simp: lock_inv_def backed_def alive_def split: option.splits)
qed

lemma lock_run_inv: "lock_inv R w \<Longrightarrow> lock_inv R (lock_run R ops as w)"
  by (induction "as" arbitrary: w) (simp_all add: lock_act_inv)

end

text \<open>A server of maps.\<close>

definition ttl_ops :: "(string \<Rightarrow> (string \<times> expiry) option) TtlOps" where
  "ttl_ops = \<lparr>tEXP = (\<lambda>s. s), tSET = (\<lambda>s k v e. s(k := Some (v, e))), tDEL = (\<lambda>s k. s(k := None))\<rparr>"

interpretation ttl: redis_ttl ttl_ops
  by unfold_locales (simp_all add: ttl_ops_def)

text \<open>
  C16: The lock is exclusive: lockers with different versions acquire, try, renew and release in any order and at any time, commands fail or
  lose their replies, leases run out; two of them never own the same key at the same moment.
\<close>

theorem lock_exclusive:
  assumes "redis_ttl R" and "distinct (map lk_version ls)" and "\<forall>l \<in> set ls. lk_held l = None"
    and "lock_run R ops as (s, now, ls) = (s', now', ls')"
    and "i < length ls'" "j < length ls'" "owns now' (ls' ! i)" "owns now' (ls' ! j)" "lk_key (ls' ! i) = lk_key (ls' ! j)"
  shows "i = j"
proof -
  have "lock_inv R (s, now, ls)" using assms(2,3) by (auto simp: lock_inv_def backed_def)
  then have inv: "lock_inv R (s', now', ls')" using redis_ttl.lock_run_inv [OF assms(1), of "(s, now, ls)" ops "as"] assms(4) by simp
  have "lk_version (ls' ! k) = fst (the (tEXP R s' (lk_key (ls' ! k))))" if k: "k < length ls'" "owns now' (ls' ! k)" for k
  proof -
    have "backed R now' s' (ls' ! k)" using inv nth_mem [OF k(1)] by (auto simp: lock_inv_def)
    then show ?thesis using k(2) by (auto simp: owns_def backed_def split: option.splits)
  qed
  then have "map lk_version ls' ! i = map lk_version ls' ! j"
    using assms(5-9) by simp
  moreover have "distinct (map lk_version ls')" using inv by (simp add: lock_inv_def)
  ultimately show ?thesis using assms(5,6) nth_eq_iff_index_eq [of "map lk_version ls'" i j] by simp
qed

definition lock_sample :: lock_opts where
  "lock_sample = \<lparr>prefix = ''due'', expiration = 3000, acquireMaxRetries = 2\<rparr>"

text \<open>The first locker acquires and loses its lease, the second acquires, the first cannot release it.\<close>

theorem lock_exclusive_witness:
  "\<exists>s' now' ls'. lock_run ttl_ops lock_sample [Round 0 Fine, Round 1 Fine, Pass 3000, Round 1 Fine, Free 0 Fine, Pass 100]
       (\<lambda>_. None, 0, [new_locker lock_sample ''room'' ''a'', new_locker lock_sample ''room'' ''b'']) = (s', now', ls') \<and>
     owns now' (ls' ! 1) \<and> \<not> owns now' (ls' ! 0)"
proof -
  let ?as = "[Round 0 Fine, Round 1 Fine, Pass 3000, Round 1 Fine, Free 0 Fine, Pass 100]" and ?ls = "[new_locker lock_sample ''room'' ''a'', new_locker lock_sample ''room'' ''b'']"
  obtain s' now' ls' where r: "lock_run ttl_ops lock_sample ?as (\<lambda>_. None, 0, ?ls) = (s', now', ls')" by (metis prod.collapse)
  have "(case lock_run ttl_ops lock_sample ?as (\<lambda>_. None, 0, ?ls) of (s', now', ls') \<Rightarrow>
      length ls' = 2 \<and> owns now' (ls' ! 1) \<and> lk_key (ls' ! 0) = lk_key (ls' ! 1))"
    by code_simp
  then have f: "length ls' = 2" "owns now' (ls' ! 1)" "lk_key (ls' ! 0) = lk_key (ls' ! 1)" using r by simp_all
  have "distinct (map lk_version ?ls)" "\<forall>l \<in> set ?ls. lk_held l = None" by (simp_all add: new_locker_def)
  from lock_exclusive [OF ttl.redis_ttl_axioms this r, of 0 1] f have "\<not> owns now' (ls' ! 0)" by auto
  with r f show ?thesis by blast
qed

section \<open>Acquiring and renewing\<close>

text \<open>The rounds of one \<open>acquire\<close>; time and the state of the server in each are whatever the others made of them.\<close>

primrec rounds :: "'s TtlOps \<Rightarrow> lock_opts \<Rightarrow> (int \<times> outcome \<times> 's) list \<Rightarrow> Locker \<Rightarrow> Locker \<times> nat" where
  "rounds R ops [] l = (l, 0)"
| "rounds R ops (x # xs) l =
     (case x of (now, r, s) \<Rightarrow>
      let l = snd (acquire_round R ops now r l s)
      in if lk_retries l = None then (l, 1) else (case rounds R ops xs l of (l, n) \<Rightarrow> (l, n + 1)))"

lemma round_retries:
  assumes "0 < acquireMaxRetries ops" and "k = (case lk_retries l of None \<Rightarrow> 0 | Some n \<Rightarrow> n)"
  shows "lk_retries (snd (acquire_round R ops now r l s)) = None \<or>
    lk_retries (snd (acquire_round R ops now r l s)) = Some (k + 1) \<and> k \<le> acquireMaxRetries ops"
proof -
  obtain t res where c: "command r s (tSETNX R now s (lk_key l) (lk_version l) (expiration ops)) = (t, res)" by fastforce
  then have "res \<noteq> Panic" by (auto simp: command_def split: prod.splits if_splits)
  then consider "res = Ok True" | "res = Ok False" | e where "res = Err e" by (cases res) auto
  then show ?thesis
    using c assms by cases (auto simp: acquire_round_def Let_def)
qed

lemma rounds_end:
  assumes "0 < acquireMaxRetries ops" and "k = (case lk_retries l of None \<Rightarrow> 0 | Some n \<Rightarrow> n)"
    and "k \<le> acquireMaxRetries ops + 1" and "acquireMaxRetries ops + 2 - k \<le> int (length xs)"
  shows "lk_retries (fst (rounds R ops xs l)) = None \<and> int (snd (rounds R ops xs l)) \<le> acquireMaxRetries ops + 2 - k"
  using assms(2-4)
proof (induction xs arbitrary: l k)
  case (Cons x xs)
  obtain now r s where x: "x = (now, r, s)" by (metis prod_cases3)
  let ?l = "snd (acquire_round R ops now r l s)"
  show ?case
  proof (cases "lk_retries ?l")
    case None
    then show ?thesis using Cons.prems(2) by (simp add: x)
  next
    case (Some n)
    then have n: "n = k + 1" "k \<le> acquireMaxRetries ops"
      using round_retries [OF assms(1) Cons.prems(1), of R now r s] by auto
    have "lk_retries (fst (rounds R ops xs ?l)) = None \<and> int (snd (rounds R ops xs ?l)) \<le> acquireMaxRetries ops + 2 - n"
      by (rule Cons.IH) (use Some n Cons.prems in auto)
    then show ?thesis using Some n by (auto simp: x split: prod.splits)
  qed
qed simp

text \<open>
  An \<open>Acquire\<close> with a positive \<open>acquireMaxRetries\<close> ends, whatever the server answers: after at most \<open>acquireMaxRetries + 2\<close>
  attempts; it is that many, and the error \<open>deadline exceeded\<close>, when the key is never free.
\<close>

lemma lock_acquire_ends:
  assumes "0 < acquireMaxRetries ops" and "lk_retries l = None" and "acquireMaxRetries ops + 2 \<le> int (length xs)"
  shows "lk_retries (fst (rounds R ops xs l)) = None \<and> int (snd (rounds R ops xs l)) \<le> acquireMaxRetries ops + 2 \<and>
    ((\<forall>(now, r, s) \<in> set xs. r = Fine \<and> tGET R now s (lk_key l) \<noteq> None) \<longrightarrow>
       int (snd (rounds R ops xs l)) = acquireMaxRetries ops + 2 \<and> lk_result (fst (rounds R ops xs l)) = Err (ErrOther ''deadline exceeded''))"
proof -
  have busy: "int (snd (rounds R ops ys m)) = acquireMaxRetries ops + 2 - k \<and> lk_result (fst (rounds R ops ys m)) = Err (ErrOther ''deadline exceeded'')"
    if "\<forall>(now, r, s) \<in> set ys. r = Fine \<and> tGET R now s (lk_key m) \<noteq> None" "k = (case lk_retries m of None \<Rightarrow> 0 | Some n \<Rightarrow> n)"
      "k \<le> acquireMaxRetries ops + 1" "acquireMaxRetries ops + 2 - k \<le> int (length ys)" for ys m k
    using that
  proof (induction ys arbitrary: m k)
    case (Cons y ys)
    obtain now r s where y: "y = (now, r, s)" by (metis prod_cases3)
    have "r = Fine" "tGET R now s (lk_key m) \<noteq> None" using Cons.prems(1) y by auto
    then have round: "acquire_round R ops now r m s =
        (s, if acquireMaxRetries ops < k then m\<lparr>lk_retries := None, lk_result := Err (ErrOther ''deadline exceeded'')\<rparr> else m\<lparr>lk_retries := Some (k + 1)\<rparr>)"
      using assms(1) Cons.prems(2) by (auto simp: acquire_round_def command_def tSETNX_def Let_def)
    show ?case
    proof (cases "acquireMaxRetries ops < k")
      case True
      then show ?thesis using round Cons.prems(3) by (simp add: y)
    next
      case False
      have "int (snd (rounds R ops ys (m\<lparr>lk_retries := Some (k + 1)\<rparr>))) = acquireMaxRetries ops + 2 - (k + 1) \<and>
          lk_result (fst (rounds R ops ys (m\<lparr>lk_retries := Some (k + 1)\<rparr>))) = Err (ErrOther ''deadline exceeded'')"
        by (rule Cons.IH) (use False Cons.prems in auto)
      then show ?thesis using round False by (auto simp: y split: prod.splits)
    qed
  qed simp
  show ?thesis
    using rounds_end [OF assms(1), of 0 l xs R] busy [of xs l 0] assms by simp
qed

lemma lock_acquire_ends_witness:
  "lk_result (fst (rounds ttl_ops lock_sample (replicate 4 (5, Fine, (\<lambda>_. None)(''due:room'' := Some (''a'', None)))) (new_locker lock_sample ''room'' ''b''))) =
     Err (ErrOther ''deadline exceeded'')"
proof -
  let ?s = "(\<lambda>_. None)(''due:room'' := Some (''a'', None))" and ?l = "new_locker lock_sample ''room'' ''b''"
  have "0 < acquireMaxRetries lock_sample" "lk_retries ?l = None" "acquireMaxRetries lock_sample + 2 \<le> int (length (replicate 4 (5 :: int, Fine, ?s)))"
    by (simp_all add: lock_sample_def new_locker_def)
  from lock_acquire_ends [OF this, of ttl_ops] show ?thesis
    by (simp add: tGET_def ttl_ops_def new_locker_def lock_sample_def alive_def)
qed

text \<open>
  The first test of the release script is meant for a key that is gone, but \<open>GET\<close> then answers \<open>false\<close>, which is not the empty
  string: releasing a lock whose lease has run out is an error.
\<close>

lemma release_expired_fails:
  assumes "tGET R now s (lk_key l) = None"
  shows "lk_result (snd (Release R now Fine l s)) = Err ErrIllegalOperation"
  using assms by (simp add: Release_def releaseScript_def command_def Let_def)

text \<open>A maker that could not be built has no options: asked for a locker it does not report its error but panics.\<close>

lemma maker_error_panics:
  "Make (NewMaker d ops tls) name uuid = (if tls = None then Ok (new_locker (the (m_opts (NewMaker d ops tls))) name uuid) else Panic)"
  by (simp add: Make_def NewMaker_def)

end
