(* ===== verification/Ws_Mgr.thy ===== *)
theory Ws_Mgr
  imports Ws_Conn Go_Map "HOL-Library.Multiset"
begin

text \<open>
  The connection manager of the websocket server (\<open>network/ws/server_conn_mgr.go\<close>): sockets get connection objects from a pool, are counted
  against the limit and entered into one of ten partitions; closing a connection removes it, and its object returns to the pool.
  Goroutines are program counters over the manager and its objects: allocations, closes of any object at any time (also through
  a pointer from a former life of the object), the reader and writer of each connection, the shutdown of the server.  Of a connection
  only its state, socket and lock are kept; \<open>Ws_Conn\<close> has the rest.  Where a close waits for the writer it goes on at any time.
  A socket is the number of its address.
\<close>

section \<open>State\<close>

record conn_obj =
  o_state :: conn_state
  o_conn :: "nat option"
  o_locked :: bool
  o_workers :: int

record serverConnMgr =
  cm_id :: int
  cm_total :: int
  cm_closing :: bool
  cm_max :: int
  cm_pool :: "nat list"
  partitions :: "(nat, nat) gomap list"
  cm_objs :: "conn_obj list"
  cm_sockets :: "nat list"
  cm_sent :: "(nat option \<times> nat option) list"

definition newConnMgr :: "int \<Rightarrow> serverConnMgr" where
  "newConnMgr maxConnNum = \<lparr>cm_id = 0, cm_total = 0, cm_closing = False, cm_max = maxConnNum, cm_pool = [], partitions = replicate 10 [],
     cm_objs = [], cm_sockets = [], cm_sent = []\<rparr>"

text \<open>\<open>cm_sockets\<close> are the sockets that have been accepted; \<open>cm_sent\<close> logs for each send the socket the caller saw open and the socket it reached.\<close>

datatype close_pc =
    GCas | GRLock | GDone | FCas1 bool | FCas2 bool | DoLock bool | DoClose bool nat | RDelete nat | RDec nat | CReturn

datatype continuation = KReturn | KWorker | KServer "nat list"

datatype mpc =
    AClosing nat | ALoad nat | ACas nat int | AInit nat | AOpen nat nat | ACheck nat nat | AStore nat nat | AUndo nat bool
  | Closing nat close_pc continuation | Worker nat | Recycling nat
  | SClosing | SSnap nat | SRun "nat list" | SendCheck nat | SendLock nat "nat option" | MEnd

text \<open>What is left open: the object the pool hands out, whether a worker closes its connection before it ends.\<close>

datatype mchoice = Fresh | Reuse nat | Quit

definition obj :: "serverConnMgr \<Rightarrow> nat \<Rightarrow> conn_obj" where
  "obj m x = cm_objs m ! x"

definition set_obj :: "nat \<Rightarrow> (conn_obj \<Rightarrow> conn_obj) \<Rightarrow> serverConnMgr \<Rightarrow> serverConnMgr" where
  "set_obj x f m = m\<lparr>cm_objs := (cm_objs m)[x := f (cm_objs m ! x)]\<rparr>"

definition set_state :: "nat \<Rightarrow> conn_state \<Rightarrow> serverConnMgr \<Rightarrow> serverConnMgr" where
  "set_state x st = set_obj x (\<lambda>u. u\<lparr>o_state := st\<rparr>)"

section \<open>Steps\<close>

definition storeOpen :: "nat \<Rightarrow> nat \<Rightarrow> serverConnMgr \<Rightarrow> serverConnMgr \<times> bool" where
  "storeOpen c x m =
     (if cm_closing m then (m, False)
      else let i = c mod length (partitions m)
           in (m\<lparr>partitions := (partitions m)[i := gm_set (partitions m ! i) c x]\<rparr>, True))"

definition p_delete :: "nat \<Rightarrow> serverConnMgr \<Rightarrow> serverConnMgr \<times> nat option" where
  "p_delete c m =
     (let i = c mod length (partitions m); p = partitions m ! i
      in case gm_get p c of
           None \<Rightarrow> (m, None)
         | Some x \<Rightarrow> (m\<lparr>partitions := (partitions m)[i := gm_del p c]\<rparr>, Some x))"

definition snapshot :: "nat \<Rightarrow> serverConnMgr \<Rightarrow> nat list" where
  "snapshot i m = gm_values (partitions m ! i)"

text \<open>The object from the pool, or a new one.\<close>

fun pool_get :: "mchoice \<Rightarrow> serverConnMgr \<Rightarrow> (serverConnMgr \<times> nat) option" where
  "pool_get (Reuse x) m = (if x \<in> set (cm_pool m) then Some (m\<lparr>cm_pool := remove1 x (cm_pool m)\<rparr>, x) else None)"
| "pool_get Fresh m =
     Some (m\<lparr>cm_objs := cm_objs m @ [\<lparr>o_state = ConnClosed, o_conn = None, o_locked = False, o_workers = 0\<rparr>]\<rparr>, length (cm_objs m))"
| "pool_get Quit m = None"

text \<open>\<open>allocate\<close> with \<open>reserve\<close>: the manager, the next program counter, and the goroutines started.\<close>

fun alloc_step :: "mchoice \<Rightarrow> mpc \<Rightarrow> serverConnMgr \<Rightarrow> (serverConnMgr \<times> mpc \<times> mpc list) option" where
  "alloc_step ch (AClosing c) m = Some (m, if cm_closing m then MEnd else ALoad c, [])"
| "alloc_step ch (ALoad c) m = Some (m, if cm_max m \<le> cm_total m then MEnd else ACas c (cm_total m), [])"
| "alloc_step ch (ACas c t) m =
     (if cm_total m = t then Some (m\<lparr>cm_total := t + 1\<rparr>, AInit c, []) else Some (m, AClosing c, []))"
| "alloc_step ch (AInit c) m =
     (case pool_get ch (m\<lparr>cm_id := cm_id m + 1\<rparr>) of
        None \<Rightarrow> None
      | Some (m, x) \<Rightarrow> Some (set_state x ConnOpened m, AOpen c x, []))"
| "alloc_step ch (AOpen c x) m =
     Some (set_obj x (\<lambda>u. u\<lparr>o_conn := Some c, o_workers := o_workers u + 2\<rparr>) m, ACheck c x, [Worker x, Worker x])"
| "alloc_step ch (ACheck c x) m =
     (if o_locked (obj m x) then None
      else if o_state (obj m x) \<noteq> ConnOpened then Some (m, AUndo x False, [])
      else Some (set_obj x (\<lambda>u. u\<lparr>o_locked := True\<rparr>) m, AStore c x, []))"
| "alloc_step ch (AStore c x) m =
     (case storeOpen c x m of
        (m, stored) \<Rightarrow> Some (set_obj x (\<lambda>u. u\<lparr>o_locked := False\<rparr>) m, if stored then MEnd else AUndo x True, []))"
| "alloc_step ch (AUndo x close) m =
     Some (m\<lparr>cm_total := cm_total m - 1\<rparr>, if close then Closing x (FCas1 False) KReturn else MEnd, [])"
| "alloc_step ch p m = None"

text \<open>\<open>graceClose\<close>, \<open>forceClose\<close> and \<open>doClose\<close> of a connection with the \<open>recycle\<close> of the manager.\<close>

fun mclose_step :: "nat \<Rightarrow> close_pc \<Rightarrow> serverConnMgr \<Rightarrow> (serverConnMgr \<times> close_pc \<times> mpc list) option" where
  "mclose_step x GCas m =
     (if o_state (obj m x) = ConnOpened then Some (set_state x ConnHanged m, GRLock, []) else Some (m, CReturn, []))"
| "mclose_step x GRLock m =
     (if o_locked (obj m x) then None
      else Some (m, if o_conn (obj m x) = None then CReturn else GDone, []))"
| "mclose_step x GDone m =
     (if o_state (obj m x) = ConnHanged then Some (set_state x ConnClosed m, DoLock True, []) else Some (m, CReturn, []))"
| "mclose_step x (FCas1 r) m =
     (if o_state (obj m x) = ConnOpened then Some (set_state x ConnClosed m, DoLock r, []) else Some (m, FCas2 r, []))"
| "mclose_step x (FCas2 r) m =
     (if o_state (obj m x) = ConnHanged then Some (set_state x ConnClosed m, DoLock r, []) else Some (m, CReturn, []))"
| "mclose_step x (DoLock r) m =
     (if o_locked (obj m x) then None
      else case o_conn (obj m x) of
             None \<Rightarrow> Some (m, CReturn, [])
           | Some c \<Rightarrow> Some (set_obj x (\<lambda>u. u\<lparr>o_conn := None\<rparr>) m, DoClose r c, []))"
| "mclose_step x (DoClose r c) m = Some (m, if r then RDelete c else CReturn, [])"
| "mclose_step x (RDelete c) m = (case p_delete c m of (m, None) \<Rightarrow> Some (m, CReturn, []) | (m, Some y) \<Rightarrow> Some (m, RDec y, []))"
| "mclose_step x (RDec y) m = Some (m\<lparr>cm_total := cm_total m - 1\<rparr>, CReturn, [Recycling y])"
| "mclose_step x CReturn m = None"

text \<open>The shutdown starts a goroutine for each partition, which closes the connections of a snapshot one after the other.\<close>

fun server_step :: "mchoice \<Rightarrow> mpc \<Rightarrow> serverConnMgr \<Rightarrow> (serverConnMgr \<times> mpc \<times> mpc list) option" where
  "server_step ch (Closing x CReturn k) m =
     (case k of
        KReturn \<Rightarrow> Some (m, MEnd, [])
      | KWorker \<Rightarrow> Some (set_obj x (\<lambda>u. u\<lparr>o_workers := o_workers u - 1\<rparr>) m, MEnd, [])
      | KServer xs \<Rightarrow> Some (m, SRun xs, []))"
| "server_step ch (Worker x) m =
     (if ch = Quit then Some (set_obj x (\<lambda>u. u\<lparr>o_workers := o_workers u - 1\<rparr>) m, MEnd, [])
      else Some (m, Closing x (FCas1 True) KWorker, []))"
| "server_step ch (Recycling x) m =
     (if 0 < o_workers (obj m x) then None else Some (m\<lparr>cm_pool := x # cm_pool m\<rparr>, MEnd, []))"
| "server_step ch SClosing m = Some (m\<lparr>cm_closing := True\<rparr>, MEnd, map SSnap [0..<length (partitions m)])"
| "server_step ch (SSnap i) m = Some (m, SRun (snapshot i m), [])"
| "server_step ch (SRun xs) m = (case xs of [] \<Rightarrow> Some (m, MEnd, []) | x # xs \<Rightarrow> Some (m, Closing x GCas (KServer xs), []))"
| "server_step ch (SendCheck x) m =
     Some (m, if o_state (obj m x) = ConnOpened then SendLock x (o_conn (obj m x)) else MEnd, [])"
| "server_step ch (SendLock x seen) m =
     (if o_locked (obj m x) then None
      else Some (if o_conn (obj m x) = None then m else m\<lparr>cm_sent := (seen, o_conn (obj m x)) # cm_sent m\<rparr>, MEnd, []))"
| "server_step ch p m = None"

definition mstep :: "mchoice \<Rightarrow> mpc \<Rightarrow> serverConnMgr \<Rightarrow> (serverConnMgr \<times> mpc \<times> mpc list) option" where
  "mstep ch p m =
     (case p of
        Closing x pc k \<Rightarrow>
          if pc = CReturn then server_step ch p m
          else map_option (\<lambda>(m, pc, sp). (m, Closing x pc k, sp)) (mclose_step x pc m)
      | _ \<Rightarrow> (case alloc_step ch p m of Some r \<Rightarrow> Some r | None \<Rightarrow> server_step ch p m))"

type_synonym mworld = "serverConnMgr \<times> mpc list"

text \<open>Goroutines from outside: a new socket, a close or a send through any pointer, the shutdown.\<close>

datatype maction = Accept nat | CloseAny nat bool | SendAny nat | Shutdown | Run nat mchoice

definition mact :: "maction \<Rightarrow> mworld \<Rightarrow> mworld option" where
  "mact a w = (case w of (m, ths) \<Rightarrow>
     case a of
       Accept c \<Rightarrow> if c \<in> set (cm_sockets m) then None else Some (m\<lparr>cm_sockets := c # cm_sockets m\<rparr>, ths @ [AClosing c])
     | CloseAny x force \<Rightarrow> if x < length (cm_objs m) then Some (m, ths @ [Closing x (if force then FCas1 True else GCas) KReturn]) else None
     | SendAny x \<Rightarrow> if x < length (cm_objs m) then Some (m, ths @ [SendCheck x]) else None
     | Shutdown \<Rightarrow> Some (m, ths @ [SClosing])
     | Run i ch \<Rightarrow>
         if i < length ths
         then (case mstep ch (ths ! i) m of None \<Rightarrow> None | Some (m, p, sp) \<Rightarrow> Some (m, ths[i := p] @ sp))
         else None)"

inductive mreachable :: "int \<Rightarrow> mworld \<Rightarrow> bool" for n where
  m_init: "mreachable n (newConnMgr n, [])"
| m_step: "mreachable n w \<Longrightarrow> mact a w = Some w' \<Longrightarrow> mreachable n w'"

primrec run_m :: "maction list \<Rightarrow> mworld \<Rightarrow> mworld option" where
  "run_m [] w = Some w"
| "run_m (a # as) w = (case mact a w of None \<Rightarrow> None | Some w \<Rightarrow> run_m as w)"

lemma run_m_reachable: "mreachable n w \<Longrightarrow> run_m as w = Some w' \<Longrightarrow> mreachable n w'"
  by (induction "as" arbitrary: w) (auto split: option.splits intro: m_step)

section \<open>Counting\<close>

text \<open>The entries of all partitions.\<close>

definition entries :: "serverConnMgr \<Rightarrow> (nat \<times> nat) multiset" where
  "entries m = tally mset (partitions m)"

definition parts_wf :: "serverConnMgr \<Rightarrow> bool" where
  "parts_wf m \<longleftrightarrow> length (partitions m) = 10 \<and> (\<forall>j < 10. gm_ok (partitions m ! j) \<and> (\<forall>c x. (c, x) \<in> set (partitions m ! j) \<longrightarrow> c mod 10 = j))"

lemma in_entries: "e \<in># tally mset ps \<longleftrightarrow> (\<exists>j < length ps. e \<in> set (ps ! j))"
proof (induction ps)
  case (Cons p ps)
  show ?case
    using Cons.IH by (auto simp: less_Suc_eq_0_disj)
qed simp

lemma entry_get:
  assumes "parts_wf m"
  shows "(c, x) \<in># entries m \<longleftrightarrow> gm_get (partitions m ! (c mod 10)) c = Some x"
proof -
  have "(c, x) \<in># entries m \<longleftrightarrow> (c, x) \<in> set (partitions m ! (c mod 10))"
    using assms unfolding parts_wf_def entries_def in_entries by (metis mod_less_divisor zero_less_numeral)
  moreover have "distinct (map fst (partitions m ! (c mod 10)))"
    using assms by (simp add: parts_wf_def gm_ok_def)
  ultimately show ?thesis by (simp add: gm_get_def)
qed

lemma gm_set_new: "gm_get m k = None \<Longrightarrow> gm_set m k v = m @ [(k, v)]"
  unfolding gm_set_def gm_get_def by (induction m) (auto split: if_splits)

lemma gm_del_old: "gm_ok m \<Longrightarrow> gm_get m k = Some v \<Longrightarrow> mset m = add_mset (k, v) (mset (gm_del m k))"
  unfolding gm_del_def gm_get_def gm_ok_def
  by (induction m) (auto split: if_splits simp: image_iff delete_id)

lemma parts_wf_upd:
  assumes "parts_wf m" and "j < 10" and "gm_ok q" and "\<And>c x. (c, x) \<in> set q \<Longrightarrow> c mod 10 = j"
  shows "parts_wf (m\<lparr>partitions := (partitions m)[j := q]\<rparr>)"
  using assms by (auto simp: parts_wf_def nth_list_update)

lemma parts_wf_key: "parts_wf m \<Longrightarrow> (c, x) \<in> set (partitions m ! (d mod 10)) \<Longrightarrow> c mod 10 = d mod 10"
  unfolding parts_wf_def by (meson mod_less_divisor zero_less_numeral)

lemma storeOpen_effect:
  assumes "parts_wf m" and "storeOpen c x m = (m', True)" and "c \<notin># image_mset fst (entries m)"
  shows "parts_wf m'" "entries m' = add_mset (c, x) (entries m)"
proof -
  let ?i = "c mod 10" let ?p = "partitions m ! ?i"
  have i: "?i < length (partitions m)" and l: "length (partitions m) = 10" and ok: "gm_ok ?p" using assms(1) by (auto simp: parts_wf_def)
  have m': "m' = m\<lparr>partitions := (partitions m)[?i := gm_set ?p c x]\<rparr>"
    using assms(2) l by (auto simp: storeOpen_def Let_def split: if_splits)
  have "gm_get ?p c = None"
    using assms(3) entry_get [OF assms(1), of c] by (cases "gm_get ?p c") force+
  then have s: "gm_set ?p c x = ?p @ [(c, x)]"
    by (rule gm_set_new)
  have gm_ok: "gm_ok (?p @ [(c, x)])" using gm.ok_set [OF ok, of c x] by (simp only: s)
  show "parts_wf m'"
    unfolding m' using assms(1) ok by (intro parts_wf_upd) (auto simp: gm_ok s dest: parts_wf_key [OF assms(1)])
  show "entries m' = add_mset (c, x) (entries m)"
    using tally_upd [OF i, of mset "gm_set ?p c x"] by (simp add: entries_def m' s)
qed

lemma pdelete_effect:
  assumes "parts_wf m" and "p_delete c m = (m', Some x)"
  shows "parts_wf m'" "entries m = add_mset (c, x) (entries m')" "\<exists>ps. m' = m\<lparr>partitions := ps\<rparr>"
proof -
  let ?i = "c mod 10" let ?p = "partitions m ! ?i"
  have i: "?i < length (partitions m)" and l: "length (partitions m) = 10" and ok: "gm_ok ?p" using assms(1) by (auto simp: parts_wf_def)
  have g: "gm_get ?p c = Some x" and m': "m' = m\<lparr>partitions := (partitions m)[?i := gm_del ?p c]\<rparr>"
    using assms(2) l by (auto simp: p_delete_def Let_def split: option.splits)
  note d = gm_del_old [OF ok g]
  have "set (gm_del ?p c) \<subseteq> set ?p" by (auto simp: gm_del_def AList.delete_eq)
  then show "parts_wf m'"
    unfolding m' using assms(1) ok by (intro parts_wf_upd) (auto dest: parts_wf_key [OF assms(1)])
  show "entries m = add_mset (c, x) (entries m')"
    using tally_upd [OF i, of mset "gm_del ?p c"] by (simp add: entries_def m' d)
  show "\<exists>ps. m' = m\<lparr>partitions := ps\<rparr>" using m' by blast
qed

lemma delete_none:
  assumes "parts_wf m" and "p_delete c m = (m', None)"
  shows "m' = m" "c \<notin># image_mset fst (entries m)"
proof -
  have "gm_get (partitions m ! (c mod 10)) c = None" and "m' = m"
    using assms by (auto simp: p_delete_def Let_def parts_wf_def split: option.splits)
  then show "m' = m" "c \<notin># image_mset fst (entries m)"
    using entry_get [OF assms(1), of c] by auto
qed

text \<open>Goroutines that hold a place of the count without an entry, and allocations of a socket.\<close>

fun reserved :: "mpc \<Rightarrow> nat" where
  "reserved (AInit c) = 1"
| "reserved (AOpen c x) = 1"
| "reserved (ACheck c x) = 1"
| "reserved (AStore c x) = 1"
| "reserved (AUndo x b) = 1"
| "reserved (Closing x (RDec y) k) = 1"
| "reserved p = 0"

fun alloc :: "nat \<Rightarrow> mpc \<Rightarrow> nat" where
  "alloc d (AClosing c) = of_bool (c = d)"
| "alloc d (ALoad c) = of_bool (c = d)"
| "alloc d (ACas c t) = of_bool (c = d)"
| "alloc d (AInit c) = of_bool (c = d)"
| "alloc d (AOpen c x) = of_bool (c = d)"
| "alloc d (ACheck c x) = of_bool (c = d)"
| "alloc d (AStore c x) = of_bool (c = d)"
| "alloc d p = 0"

fun within :: "int \<Rightarrow> mpc \<Rightarrow> bool" where
  "within n (ACas c t) = (t < n)"
| "within n (SSnap i) = (i < 10)"
| "within n p = True"

definition stored_at :: "serverConnMgr \<Rightarrow> nat \<Rightarrow> nat" where
  "stored_at m c = count (image_mset fst (entries m)) c"

definition count_inv :: "mworld \<Rightarrow> bool" where
  "count_inv w \<longleftrightarrow> (case w of (m, ths) \<Rightarrow>
     parts_wf m \<and> cm_total m = int (size (entries m)) + int (tally reserved ths) \<and> cm_total m \<le> cm_max m \<and>
     (\<forall>c. stored_at m c + tally (alloc c) ths \<le> of_bool (c \<in> set (cm_sockets m))) \<and> (\<forall>p \<in> set ths. within (cm_max m) p))"

lemma tally_step:
  assumes "i < length ths"
  shows "tally f (ths[i := p] @ sp) + f (ths ! i) = tally f ths + f p + (tally f sp :: nat)"
  using tally_upd [OF assms, of f p] by simp

text \<open>A step keeps the counts when its goroutine and those it starts weigh as much after it as before.\<close>

definition counts_kept :: "serverConnMgr \<Rightarrow> mpc \<Rightarrow> serverConnMgr \<Rightarrow> mpc \<Rightarrow> mpc list \<Rightarrow> bool" where
  "counts_kept m p m' p' sp \<longleftrightarrow>
     parts_wf m' \<and> cm_max m' = cm_max m \<and> cm_sockets m' = cm_sockets m \<and> cm_total m' \<le> cm_max m \<and>
     cm_total m' - int (size (entries m')) - int (reserved p' + tally reserved sp) = cm_total m - int (size (entries m)) - int (reserved p) \<and>
     (\<forall>c. stored_at m' c + alloc c p' + tally (alloc c) sp \<le> stored_at m c + alloc c p) \<and> (\<forall>q \<in> set (p' # sp). within (cm_max m) q)"

lemma count_inv_step:
  assumes "count_inv (m, ths)" and "i < length ths" and "counts_kept m (ths ! i) m' p' sp"
  shows "count_inv (m', ths[i := p'] @ sp)"
proof -
  have "stored_at m' c + tally (alloc c) (ths[i := p'] @ sp) \<le> of_bool (c \<in> set (cm_sockets m'))" for c
  proof -
    have "stored_at m' c + alloc c p' + tally (alloc c) sp \<le> stored_at m c + alloc c (ths ! i)" "cm_sockets m' = cm_sockets m"
      using assms(3) by (simp_all add: counts_kept_def)
    moreover have "stored_at m c + tally (alloc c) ths \<le> of_bool (c \<in> set (cm_sockets m))" using assms(1) by (simp add: count_inv_def)
    ultimately show ?thesis using tally_step [OF assms(2), of "alloc c" p' sp] by simp
  qed
  moreover have "within (cm_max m) q" if "q \<in> set (ths[i := p'] @ sp)" for q
    using that assms set_update_subset_insert [of ths i p'] by (auto simp: count_inv_def counts_kept_def)
  moreover have "cm_total m' = int (size (entries m')) + int (tally reserved (ths[i := p'] @ sp))"
    using assms(1,3) tally_step [OF assms(2), of reserved p' sp] by (simp add: count_inv_def counts_kept_def)
  ultimately show ?thesis
    using assms(3) by (simp add: count_inv_def counts_kept_def)
qed

lemma set_obj_rest [simp]:
  "partitions (set_obj x f m) = partitions m" "cm_total (set_obj x f m) = cm_total m" "cm_max (set_obj x f m) = cm_max m"
  "cm_sockets (set_obj x f m) = cm_sockets m" "cm_closing (set_obj x f m) = cm_closing m" "cm_pool (set_obj x f m) = cm_pool m"
  by (simp_all add: set_obj_def)

lemma entries_cong: "partitions m' = partitions m \<Longrightarrow> entries m' = entries m \<and> parts_wf m' = parts_wf m \<and> stored_at m' = stored_at m"
  by (auto simp: entries_def parts_wf_def stored_at_def fun_eq_iff)

lemma pool_get_rest:
  assumes "pool_get ch m = Some (m', x)"
  shows "\<exists>xs os. m' = m\<lparr>cm_pool := xs, cm_objs := os\<rparr>"
proof -
  have "m' = m\<lparr>cm_pool := cm_pool m', cm_objs := cm_objs m'\<rparr>"
    using assms by (cases ch; cases m) (auto split: if_splits)
  then show ?thesis by blast
qed

lemma counts_same:
  assumes "partitions m' = partitions m" "cm_max m' = cm_max m" "cm_sockets m' = cm_sockets m" "parts_wf m" "cm_total m' \<le> cm_max m"
    "cm_total m' - int (reserved p' + tally reserved sp) = cm_total m - int (reserved p)"
    "\<And>c. alloc c p' + tally (alloc c) sp \<le> alloc c p" "within (cm_max m) p'" "\<forall>q \<in> set sp. within (cm_max m) q"
  shows "counts_kept m p m' p' sp"
  using assms entries_cong [OF assms(1)] by (simp add: counts_kept_def)

lemma alloc_store_counts:
  assumes "parts_wf m" "cm_total m \<le> cm_max m" "stored_at m c = 0" "alloc_step ch (AStore c x) m = Some (m', p', sp)"
  shows "counts_kept m (AStore c x) m' p' sp"
proof (cases "cm_closing m")
  case True
  then have "m' = set_obj x (\<lambda>u. u\<lparr>o_locked := False\<rparr>) m" "p' = AUndo x True" "sp = []"
    using assms(4) by (auto simp: storeOpen_def)
  then show ?thesis using assms(1,2) by (intro counts_same) auto
next
  case False
  then obtain m1 where st: "storeOpen c x m = (m1, True)" and r: "m' = set_obj x (\<lambda>u. u\<lparr>o_locked := False\<rparr>) m1" "p' = MEnd" "sp = []"
    using assms(4) by (auto simp: storeOpen_def Let_def)
  have "c \<notin># image_mset fst (entries m)" using assms(3) by (simp add: stored_at_def count_eq_zero_iff)
  note e = storeOpen_effect [OF assms(1) st this]
  have "cm_total m1 = cm_total m" "cm_max m1 = cm_max m" "cm_sockets m1 = cm_sockets m"
    using st by (auto simp: storeOpen_def Let_def split: if_splits)
  then show ?thesis
    using entries_cong [of m' m1] e assms(2) by (auto simp: counts_kept_def r stored_at_def)
qed

lemma alloc_counts:
  assumes "parts_wf m" "cm_total m \<le> cm_max m" "within (cm_max m) p" "\<And>c. stored_at m c + alloc c p \<le> 1"
    and "alloc_step ch p m = Some (m', p', sp)"
  shows "counts_kept m p m' p' sp"
proof (cases p)
  case (AInit c)
  then show ?thesis
    using assms by (auto intro!: counts_same split: option.splits simp: set_state_def dest!: pool_get_rest)
next
  case (AStore c x)
  then show ?thesis using assms alloc_store_counts [of m c ch x m' p' sp] assms(4) [of c] by simp
qed (use assms in \<open>auto intro!: counts_same split: if_splits\<close>)

lemma close_counts:
  assumes "parts_wf m" "cm_total m \<le> cm_max m" "mclose_step x pc m = Some (m', pc', sp)"
  shows "counts_kept m (Closing x pc k) m' (Closing x pc' k) sp"
proof (cases pc)
  case (RDelete c)
  show ?thesis
  proof (cases "p_delete c m")
    case (Pair m1 y)
    show ?thesis
    proof (cases y)
      case None
      then show ?thesis using assms Pair RDelete delete_none [OF assms(1), of c m1] by (auto intro!: counts_same)
    next
      case (Some z)
      note e = pdelete_effect [OF assms(1), of c m1 z]
      have "m' = m1" "pc' = RDec z" "sp = []" using assms(3) Pair Some RDelete by auto
      moreover have "parts_wf m1" "entries m = add_mset (c, z) (entries m1)" "cm_total m1 = cm_total m" "cm_max m1 = cm_max m" "cm_sockets m1 = cm_sockets m"
        using e Pair Some by auto
      ultimately show ?thesis
        using assms(2) RDelete by (auto simp: counts_kept_def stored_at_def)
    qed
  qed
qed (use assms in \<open>auto intro!: counts_same simp: set_state_def split: if_splits option.splits\<close>)

lemma server_counts:
  assumes "parts_wf m" "cm_total m \<le> cm_max m" "server_step ch p m = Some (m', p', sp)"
  shows "counts_kept m p m' p' sp"
proof -
  have s: "tally reserved (map SSnap xs) = 0" "tally (alloc c) (map SSnap xs) = 0" for xs c
    by (induction xs) auto
  show ?thesis
    using assms by (cases "(ch, p, m)" rule: server_step.cases)
      (auto intro!: counts_same simp: s parts_wf_def split: if_splits option.splits continuation.splits list.splits)
qed

lemma mstep_counts:
  assumes "parts_wf m" "cm_total m \<le> cm_max m" "within (cm_max m) p" "\<And>c. stored_at m c + alloc c p \<le> 1"
    and "mstep ch p m = Some (m', p', sp)"
  shows "counts_kept m p m' p' sp"
proof (cases "\<exists>x pc k. p = Closing x pc k \<and> pc \<noteq> CReturn")
  case True
  then show ?thesis using assms close_counts by (auto simp: mstep_def)
next
  case False
  then have "alloc_step ch p m = Some (m', p', sp) \<or> server_step ch p m = Some (m', p', sp)"
    using assms(5) by (auto simp: mstep_def split: mpc.splits option.splits)
  then show ?thesis using assms alloc_counts server_counts by blast
qed

lemma mact_cases:
  assumes "mact a (m, ths) = Some (m', ths')"
  obtains (Go) i ch p' sp where "i < length ths" "mstep ch (ths ! i) m = Some (m', p', sp)" "ths' = ths[i := p'] @ sp"
    | (New) c where "m' = m\<lparr>cm_sockets := c # cm_sockets m\<rparr>" "ths' = ths @ [AClosing c]" "c \<notin> set (cm_sockets m)"
    | (Ask) x pc where "m' = m" "ths' = ths @ [Closing x pc KReturn]" "x < length (cm_objs m)" "pc = GCas \<or> pc = FCas1 True"
    | (Other) q where "m' = m" "ths' = ths @ [q]" "q = SClosing \<or> (\<exists>x < length (cm_objs m). q = SendCheck x)"
  using assms by (cases a) (auto simp: mact_def split: if_splits option.splits)

lemma count_inv_act:
  assumes "count_inv (m, ths)" and "mact a (m, ths) = Some (m', ths')"
  shows "count_inv (m', ths') \<and> cm_max m' = cm_max m"
  using assms(2)
proof (cases rule: mact_cases)
  case (Go i ch p' sp)
  note i = Go(1) and st = Go(2) and ths' = Go(3)
  have "stored_at m c + alloc c (ths ! i) \<le> 1" for c
  proof -
    have "stored_at m c + tally (alloc c) ths \<le> of_bool (c \<in> set (cm_sockets m))" using assms(1) by (simp add: count_inv_def)
    moreover have "of_bool (c \<in> set (cm_sockets m)) \<le> (1 :: nat)" by simp
    ultimately show ?thesis using tally_others(1) [OF i, of "alloc c"] by linarith
  qed
  then have "counts_kept m (ths ! i) m' p' sp"
    using assms(1) st i by (intro mstep_counts) (auto simp: count_inv_def)
  then show ?thesis using count_inv_step [OF assms(1) i] ths' by (simp add: counts_kept_def)
next
  case (New c)
  note m' = New(1,2) and c = New(3)
  have "stored_at m d + tally (alloc d) (ths @ [AClosing c]) \<le> of_bool (d \<in> set (c # cm_sockets m))" for d
  proof -
    have "stored_at m d + tally (alloc d) ths \<le> of_bool (d \<in> set (cm_sockets m))" using assms(1) by (simp add: count_inv_def)
    then show ?thesis using c by (cases "d = c") (auto simp: of_bool_def split: if_splits)
  qed
  then show ?thesis
    using assms(1) entries_cong [of m' m] by (auto simp: count_inv_def m')
next
  case (Ask x pc)
  then show ?thesis using assms(1) by (elim disjE) (simp_all add: count_inv_def)
next
  case (Other q)
  then show ?thesis using assms(1) by (elim disjE exE conjE) (simp_all add: count_inv_def)
qed

lemma newConnMgr_entries: "parts_wf (newConnMgr n)" "entries (newConnMgr n) = {#}"
  by (auto simp: newConnMgr_def parts_wf_def entries_def nth_replicate intro!: tally_zero)

lemma count_inv_reachable: "mreachable n w \<Longrightarrow> 0 \<le> n \<Longrightarrow> count_inv w \<and> cm_max (fst w) = n"
proof (induction rule: mreachable.induct)
  case m_init
  then show ?case
    using newConnMgr_entries [of n] by (simp add: count_inv_def stored_at_def) (simp add: newConnMgr_def)
next
  case (m_step w a w')
  then show ?case using count_inv_act [of "fst w" "snd w" a "fst w'" "snd w'"] by simp
qed

section \<open>Objects\<close>

text \<open>Who holds an object: the pool, an entry, or a goroutine; who has given it up; whom a goroutine refers to.\<close>

fun holds :: "nat \<Rightarrow> mpc \<Rightarrow> nat" where
  "holds y (AOpen c x) = of_bool (x = y)"
| "holds y (ACheck c x) = of_bool (x = y)"
| "holds y (AStore c x) = of_bool (x = y)"
| "holds y (Closing x (RDec z) k) = of_bool (z = y)"
| "holds y (Recycling x) = of_bool (x = y)"
| "holds y p = 0"

fun drops :: "nat \<Rightarrow> mpc \<Rightarrow> bool" where
  "drops y (AUndo x b) = (x = y)"
| "drops y (Closing x (FCas1 r) k) = (\<not> r \<and> x = y)"
| "drops y (Closing x (FCas2 r) k) = (\<not> r \<and> x = y)"
| "drops y (Closing x (DoLock r) k) = (\<not> r \<and> x = y)"
| "drops y p = False"

fun refs :: "mpc \<Rightarrow> nat list" where
  "refs (AOpen c x) = [x]"
| "refs (ACheck c x) = [x]"
| "refs (AStore c x) = [x]"
| "refs (AUndo x b) = [x]"
| "refs (Closing x pc k) = x # (case pc of RDec y \<Rightarrow> [y] | _ \<Rightarrow> []) @ (case k of KServer xs \<Rightarrow> xs | _ \<Rightarrow> [])"
| "refs (Worker x) = [x]"
| "refs (Recycling x) = [x]"
| "refs (SRun xs) = xs"
| "refs (SendCheck x) = [x]"
| "refs (SendLock x c) = [x]"
| "refs p = []"

definition kept_at :: "serverConnMgr \<Rightarrow> nat \<Rightarrow> nat" where
  "kept_at m x = count (mset (cm_pool m)) x + count (image_mset snd (entries m)) x"

definition objs_inv :: "mworld \<Rightarrow> bool" where
  "objs_inv w \<longleftrightarrow> (case w of (m, ths) \<Rightarrow>
     (\<forall>x. kept_at m x + tally (holds x) ths \<le> of_bool (x < length (cm_objs m))) \<and>
     (\<forall>p \<in> set ths. \<forall>x \<in> set (refs p). x < length (cm_objs m)) \<and>
     (\<forall>p \<in> set ths. \<forall>x. drops x p \<longrightarrow> kept_at m x + tally (holds x) ths = 0))"

definition objs_kept :: "serverConnMgr \<Rightarrow> mpc \<Rightarrow> serverConnMgr \<Rightarrow> mpc \<Rightarrow> mpc list \<Rightarrow> bool" where
  "objs_kept m p m' p' sp \<longleftrightarrow>
     length (cm_objs m) \<le> length (cm_objs m') \<and>
     (\<forall>x. kept_at m' x + holds x p' + tally (holds x) sp \<le>
        kept_at m x + holds x p + of_bool (length (cm_objs m) \<le> x \<and> x < length (cm_objs m'))) \<and>
     (\<forall>q \<in> set (p' # sp). \<forall>x \<in> set (refs q). x < length (cm_objs m')) \<and>
     (\<forall>q \<in> set (p' # sp). \<forall>x. drops x q \<longrightarrow>
        x < length (cm_objs m) \<and> (drops x p \<or> kept_at m' x + holds x p' + tally (holds x) sp < kept_at m x + holds x p))"

lemma objs_inv_step:
  assumes "objs_inv (m, ths)" and i: "i < length ths" and "objs_kept m (ths ! i) m' p' sp"
  shows "objs_inv (m', ths[i := p'] @ sp)"
proof -
  let ?h = "\<lambda>m ths x. kept_at m x + tally (holds x) ths" and ?ths = "ths[i := p'] @ sp"
  have old: "?h m ths x \<le> of_bool (x < length (cm_objs m))" for x using assms(1) by (simp add: objs_inv_def)
  have t: "tally (holds x) ?ths + holds x (ths ! i) = tally (holds x) ths + holds x p' + tally (holds x) sp" for x
    by (rule tally_step [OF i])
  have k: "kept_at m' x + holds x p' + tally (holds x) sp \<le>
        kept_at m x + holds x (ths ! i) + of_bool (length (cm_objs m) \<le> x \<and> x < length (cm_objs m'))" for x
    using assms(3) by (simp add: objs_kept_def)
  have le: "length (cm_objs m) \<le> length (cm_objs m')" using assms(3) by (simp add: objs_kept_def)
  have 1: "?h m' ?ths x \<le> of_bool (x < length (cm_objs m'))" for x
    using old [of x] t [of x] k [of x] le by (auto simp: of_bool_def split: if_splits)
  have 2: "x < length (cm_objs m')" if "q \<in> set ?ths" "x \<in> set (refs q)" for q x
    using that assms le set_update_subset_insert [of ths i p'] by (fastforce simp: objs_inv_def objs_kept_def)
  have 3: "?h m' ?ths x = 0" if "q \<in> set ?ths" "drops x q" for q x
  proof (cases "q \<in> set (p' # sp)")
    case True
    then have x: "x < length (cm_objs m)" and d: "drops x (ths ! i) \<or> kept_at m' x + holds x p' + tally (holds x) sp < kept_at m x + holds x (ths ! i)"
      using that(2) assms(3) by (auto simp: objs_kept_def)
    from d show ?thesis
    proof
      assume "drops x (ths ! i)"
      then have "?h m ths x = 0" using assms(1) nth_mem [OF i] unfolding objs_inv_def by blast
      then show ?thesis using t [of x] k [of x] x by simp
    qed (use old [of x] x t [of x] in simp)
  next
    case False
    then have "q \<in> set ths" using that(1) set_update_subset_insert [of ths i p'] by auto
    then have "?h m ths x = 0" using assms(1) that(2) by (simp add: objs_inv_def)
    moreover have "x < length (cm_objs m)"
      using \<open>q \<in> set ths\<close> that(2) assms(1) by (cases "(x, q)" rule: drops.cases) (auto simp: objs_inv_def)
    ultimately show ?thesis using t [of x] k [of x] by simp
  qed
  show ?thesis unfolding objs_inv_def using 1 2 3 by simp
qed

lemma kept_cong: "partitions m' = partitions m \<Longrightarrow> cm_pool m' = cm_pool m \<Longrightarrow> kept_at m' = kept_at m"
  using entries_cong [of m' m] by (simp add: kept_at_def fun_eq_iff)

lemma set_obj_len [simp]: "length (cm_objs (set_obj x f m)) = length (cm_objs m)"
  by (simp add: set_obj_def)

lemma objs_same:
  assumes "partitions m' = partitions m" "cm_pool m' = cm_pool m" "length (cm_objs m') = length (cm_objs m)"
    "\<And>x. holds x p' + tally (holds x) sp \<le> holds x p" "\<And>q x. q \<in> set (p' # sp) \<Longrightarrow> x \<in> set (refs q) \<Longrightarrow> x < length (cm_objs m)"
    "\<And>q x. q \<in> set (p' # sp) \<Longrightarrow> drops x q \<Longrightarrow> x < length (cm_objs m) \<and> (drops x p \<or> holds x p' + tally (holds x) sp < holds x p)"
  shows "objs_kept m p m' p' sp"
  using assms kept_cong [OF assms(1,2)] by (auto simp: objs_kept_def)

lemma alloc_init_objs:
  assumes "alloc_step ch (AInit c) m = Some (m', p', sp)" "\<And>x. x \<in> set (cm_pool m) \<Longrightarrow> x < length (cm_objs m)"
  shows "objs_kept m (AInit c) m' p' sp"
proof -
  obtain m1 x where g: "pool_get ch (m\<lparr>cm_id := cm_id m + 1\<rparr>) = Some (m1, x)" and r: "m' = set_state x ConnOpened m1" "p' = AOpen c x" "sp = []"
    using assms(1) by (auto split: option.splits)
  show ?thesis
  proof (cases ch)
    case Fresh
    have "kept_at m1 = kept_at m" using g Fresh by (intro kept_cong) auto
    then show ?thesis using g Fresh r kept_cong [of m' m1] by (auto simp: objs_kept_def set_state_def)
  next
    case (Reuse y)
    then have y: "x = y" "y \<in> set (cm_pool m)" "m1 = m\<lparr>cm_id := cm_id m + 1, cm_pool := remove1 y (cm_pool m)\<rparr>"
      using g by (auto split: if_splits)
    have "entries m' = entries m" using entries_cong [of m' m] y r by (simp add: set_state_def)
    then have "kept_at m' z + of_bool (x = z) = kept_at m z" for z
      using y(1,2) by (auto simp: kept_at_def r set_state_def y(3))
    then show ?thesis using y assms(2) by (auto simp: objs_kept_def r set_state_def)
  qed (use g in simp)
qed

lemma alloc_objs:
  assumes "parts_wf m" "\<And>x. x \<in> set (cm_pool m) \<Longrightarrow> x < length (cm_objs m)" "\<And>x. x \<in> set (refs p) \<Longrightarrow> x < length (cm_objs m)"
    "\<And>c. stored_at m c + alloc c p \<le> 1" and "alloc_step ch p m = Some (m', p', sp)"
  shows "objs_kept m p m' p' sp"
proof (cases p)
  case (AInit c)
  then show ?thesis using alloc_init_objs assms(2,5) by blast
next
  case (AStore c x)
  show ?thesis
  proof (cases "cm_closing m")
    case True
    then show ?thesis using assms AStore by (auto simp: storeOpen_def intro!: objs_same split: if_splits)
  next
    case False
    then obtain m1 where st: "storeOpen c x m = (m1, True)" and r: "m' = set_obj x (\<lambda>u. u\<lparr>o_locked := False\<rparr>) m1" "p' = MEnd" "sp = []"
      using assms(5) AStore by (auto simp: storeOpen_def Let_def)
    have "c \<notin># image_mset fst (entries m)" using assms(4) [of c] AStore by (simp add: stored_at_def count_eq_zero_iff)
    note e = storeOpen_effect [OF assms(1) st this]
    have "cm_objs m1 = cm_objs m" "cm_pool m1 = cm_pool m"
      using st by (auto simp: storeOpen_def Let_def split: if_splits)
    then show ?thesis using e AStore kept_cong [of m' m1] by (auto simp: objs_kept_def r kept_at_def)
  qed
qed (use assms in \<open>auto intro!: objs_same split: if_splits\<close>)

lemma close_objs:
  assumes "parts_wf m" "\<And>z. z \<in> set (refs (Closing x pc k)) \<Longrightarrow> z < length (cm_objs m)" "\<And>c y. (c, y) \<in># entries m \<Longrightarrow> y < length (cm_objs m)"
    and "mclose_step x pc m = Some (m', pc', sp)"
  shows "objs_kept m (Closing x pc k) m' (Closing x pc' k) sp"
proof (cases pc)
  case (RDelete c)
  obtain m1 y where d: "p_delete c m = (m1, y)" by fastforce
  show ?thesis
  proof (cases y)
    case None
    then show ?thesis using assms d RDelete delete_none [OF assms(1), of c m1] by (auto intro!: objs_same)
  next
    case (Some z)
    have r: "m' = m1" "pc' = RDec z" "sp = []" using assms(4) d Some RDelete by auto
    have e: "entries m = add_mset (c, z) (entries m1)" "cm_objs m1 = cm_objs m" "cm_pool m1 = cm_pool m"
      using pdelete_effect [OF assms(1), of c m1 z] d Some by auto
    then show ?thesis
      using assms(2,3) RDelete by (auto simp: objs_kept_def kept_at_def r)
  qed
qed (use assms in \<open>auto intro!: objs_same simp: set_state_def split: if_splits option.splits\<close>)

lemma server_objs:
  assumes "parts_wf m" "\<And>x. x \<in> set (refs p) \<Longrightarrow> x < length (cm_objs m)" "\<And>c y. (c, y) \<in># entries m \<Longrightarrow> y < length (cm_objs m)"
    and "server_step ch p m = Some (m', p', sp)" and "within n p"
  shows "objs_kept m p m' p' sp"
proof -
  have s: "tally (holds c) (map SSnap xs) = 0" for xs c by (induction xs) auto
  have n: "y < length (cm_objs m)" if i: "i < 10" and y: "y \<in> set (snapshot i m)" for i y
  proof -
    obtain c where "(c, y) \<in> set (partitions m ! i)" using y by (auto simp: snapshot_def gm_values_def)
    then have "(c, y) \<in># entries m" using assms(1) i by (auto simp: entries_def in_entries parts_wf_def)
    then show ?thesis by (rule assms(3))
  qed
  show ?thesis
  proof (cases p)
    case (Recycling x)
    then have r: "m' = m\<lparr>cm_pool := x # cm_pool m\<rparr>" "p' = MEnd" "sp = []" using assms(4) by (auto split: if_splits)
    then show ?thesis using entries_cong [of m' m] Recycling by (auto simp: objs_kept_def kept_at_def)
  next
    case (Closing x pc k)
    then show ?thesis using assms(2,4) by (cases pc; cases k) (auto intro!: objs_same)
  qed (use assms n in \<open>auto intro!: objs_same simp: s split: if_splits list.splits\<close>)
qed

lemma mstep_objs:
  assumes "count_inv (m, ths)" and "objs_inv (m, ths)" and i: "i < length ths" and "mstep ch (ths ! i) m = Some (m', p', sp)"
  shows "objs_kept m (ths ! i) m' p' sp"
proof -
  let ?p = "ths ! i"
  have p: "?p \<in> set ths" using i by simp
  then have 1: "parts_wf m" "within (cm_max m) ?p" "\<And>x. x \<in> set (refs ?p) \<Longrightarrow> x < length (cm_objs m)"
    using assms(1,2) by (auto simp: count_inv_def objs_inv_def)
  have "stored_at m c + alloc c ?p \<le> of_bool (c \<in> set (cm_sockets m))" for c
  proof -
    have "stored_at m c + tally (alloc c) ths \<le> of_bool (c \<in> set (cm_sockets m))" using assms(1) by (simp add: count_inv_def)
    then show ?thesis using tally_others(1) [OF i, of "alloc c"] by linarith
  qed
  then have 2: "stored_at m c + alloc c ?p \<le> 1" for c by (rule order_trans) simp
  have "x < length (cm_objs m)" if "kept_at m x \<noteq> 0" for x
    using assms(2) that by (auto simp: objs_inv_def of_bool_def split: if_splits)
  then have 3: "\<And>x. x \<in> set (cm_pool m) \<Longrightarrow> x < length (cm_objs m)" "\<And>c y. (c, y) \<in># entries m \<Longrightarrow> y < length (cm_objs m)"
    by (force simp: kept_at_def count_eq_zero_iff)+
  show ?thesis
  proof (cases "\<exists>x pc k. ?p = Closing x pc k \<and> pc \<noteq> CReturn")
    case True
    then obtain x pc k where c: "?p = Closing x pc k" "pc \<noteq> CReturn" by blast
    then show ?thesis using close_objs [of m] assms(4) 1 3 by (auto simp: mstep_def)
  next
    case False
    then have "alloc_step ch ?p m = Some (m', p', sp) \<or> server_step ch ?p m = Some (m', p', sp)"
      using assms(4) by (auto simp: mstep_def split: mpc.splits option.splits)
    then show ?thesis using 1 2 3 alloc_objs server_objs by metis
  qed
qed

lemma objs_inv_act:
  assumes "count_inv (m, ths)" and "objs_inv (m, ths)" and "mact a (m, ths) = Some (m', ths')"
  shows "objs_inv (m', ths')"
  using assms(3)
proof (cases rule: mact_cases)
  case (Go i ch p' sp)
  then show ?thesis using objs_inv_step [OF assms(2) Go(1) mstep_objs [OF assms(1,2) Go(1,2)]] by simp
next
  case (New c)
  then show ?thesis using assms(2) kept_cong [of m' m] by (auto simp: objs_inv_def)
next
  case (Ask x pc)
  then show ?thesis using assms(2) by (elim disjE) (simp_all add: objs_inv_def)
next
  case (Other q)
  then show ?thesis using assms(2) by (elim disjE exE conjE) (simp_all add: objs_inv_def)
qed

end
