(* ===== verification/Ws_Life.thy ===== *)
theory Ws_Life
  imports Ws_Mgr
begin

text \<open>
  The lives of the objects of the connection manager: a socket is attached to at most one object, one goroutine wins the right to close
  a life, an entered connection that is no longer open has a goroutine that will remove it, and an object in the pool is closed.
\<close>

section \<open>Lives of a connection\<close>

text \<open>
  Goroutines that have won the right to close an object, that wait for its writer, that are about to remove the entry of a socket,
  that have a socket not yet attached, that return an object to the pool.
\<close>

fun winner :: "nat \<Rightarrow> mpc \<Rightarrow> nat" where
  "winner x (Closing y (DoLock r) k) = of_bool (y = x)"
| "winner x p = 0"

fun waiter :: "nat \<Rightarrow> mpc \<Rightarrow> nat" where
  "waiter x (Closing y GRLock k) = of_bool (y = x)"
| "waiter x (Closing y GDone k) = of_bool (y = x)"
| "waiter x p = 0"

fun remover :: "nat \<Rightarrow> mpc \<Rightarrow> nat" where
  "remover c (Closing y (DoClose r d) k) = of_bool (r \<and> d = c)"
| "remover c (Closing y (RDelete d) k) = of_bool (d = c)"
| "remover c p = 0"

fun unattached :: "nat \<Rightarrow> mpc \<Rightarrow> nat" where
  "unattached d (AClosing c) = of_bool (c = d)"
| "unattached d (ALoad c) = of_bool (c = d)"
| "unattached d (ACas c t) = of_bool (c = d)"
| "unattached d (AInit c) = of_bool (c = d)"
| "unattached d (AOpen c x) = of_bool (c = d)"
| "unattached d p = 0"

fun returner :: "nat \<Rightarrow> mpc \<Rightarrow> nat" where
  "returner x (Closing y (RDec z) k) = of_bool (z = x)"
| "returner x (Recycling y) = of_bool (y = x)"
| "returner x p = 0"

definition attached_to :: "serverConnMgr \<Rightarrow> nat \<Rightarrow> nat" where
  "attached_to m c = tally (\<lambda>u. of_bool (o_conn u = Some c)) (cm_objs m)"

definition alive_at :: "serverConnMgr \<Rightarrow> mpc list \<Rightarrow> nat \<Rightarrow> nat \<Rightarrow> bool" where
  "alive_at m ths c x \<longleftrightarrow>
     o_conn (obj m x) = Some c \<and> (o_state (obj m x) = ConnClosed \<longrightarrow> 0 < tally (winner x) ths) \<and>
     (o_state (obj m x) = ConnHanged \<longrightarrow> 0 < tally (waiter x) ths)"

definition leaving :: "serverConnMgr \<Rightarrow> mpc list \<Rightarrow> nat \<Rightarrow> nat \<Rightarrow> bool" where
  "leaving m ths c x \<longleftrightarrow>
     o_conn (obj m x) = None \<and> o_state (obj m x) = ConnClosed \<and> tally (winner x) ths = 0 \<and> 0 < tally (remover c) ths"

fun opened_ok :: "serverConnMgr \<Rightarrow> mpc list \<Rightarrow> mpc \<Rightarrow> bool" where
  "opened_ok m ths (AOpen c x) = (o_conn (obj m x) = None)"
| "opened_ok m ths (ACheck c x) = (o_state (obj m x) = ConnOpened \<longrightarrow> o_conn (obj m x) = Some c)"
| "opened_ok m ths (AStore c x) = (o_locked (obj m x) \<and> alive_at m ths c x)"
| "opened_ok m ths p = True"

definition sockets_once :: "serverConnMgr \<Rightarrow> mpc list \<Rightarrow> bool" where
  "sockets_once m ths \<longleftrightarrow> (\<forall>c. attached_to m c + tally (remover c) ths + tally (unattached c) ths \<le> of_bool (c \<in> set (cm_sockets m)))"

definition one_winner :: "serverConnMgr \<Rightarrow> mpc list \<Rightarrow> bool" where
  "one_winner m ths \<longleftrightarrow> (\<forall>x. tally (winner x) ths \<le> of_bool (x < length (cm_objs m) \<and> o_state (obj m x) = ConnClosed))"

definition returned_closed :: "serverConnMgr \<Rightarrow> mpc list \<Rightarrow> bool" where
  "returned_closed m ths \<longleftrightarrow>
     (\<forall>x. 0 < count (mset (cm_pool m)) x + tally (returner x) ths \<longrightarrow>
        o_state (obj m x) = ConnClosed \<and> o_conn (obj m x) = None \<and> tally (winner x) ths = 0)"

definition entries_live :: "serverConnMgr \<Rightarrow> mpc list \<Rightarrow> bool" where
  "entries_live m ths \<longleftrightarrow> (\<forall>c x. (c, x) \<in># entries m \<longrightarrow> alive_at m ths c x \<or> leaving m ths c x)"

definition life_inv :: "mworld \<Rightarrow> bool" where
  "life_inv w \<longleftrightarrow> (case w of (m, ths) \<Rightarrow>
     sockets_once m ths \<and> one_winner m ths \<and> returned_closed m ths \<and> (\<forall>p \<in> set ths. opened_ok m ths p) \<and> entries_live m ths)"

text \<open>The order of the goroutines does not matter.\<close>

lemma tally_mset: "mset xs = mset ys \<Longrightarrow> tally f xs = tally f ys"
  by (metis tally_def mset_map sum_mset_sum_list)

lemma opened_perm: "mset xs = mset ys \<Longrightarrow> opened_ok m xs p = opened_ok m ys p"
  by (cases p) (simp_all add: alive_at_def tally_mset [of xs ys])

lemma inv_perm:
  assumes "mset xs = mset ys"
  shows "count_inv (m, xs) = count_inv (m, ys)" "objs_inv (m, xs) = objs_inv (m, ys)" "life_inv (m, xs) = life_inv (m, ys)"
  using mset_eq_setD [OF assms]
  by (simp_all add: count_inv_def objs_inv_def life_inv_def sockets_once_def one_winner_def returned_closed_def entries_live_def alive_at_def
      leaving_def tally_mset [OF assms] opened_perm [OF assms])

lemma mset_others: "i < length xs \<Longrightarrow> mset xs = mset (xs ! i # others i xs)"
  by (simp add: others_def) (metis add_mset_add_single id_take_nth_drop mset.simps(2) mset_append union_mset_add_mset_right)

lemma mset_stepped: "i < length xs \<Longrightarrow> mset (xs[i := p] @ sp) = mset (p # sp @ others i xs)"
  by (simp add: others_def upd_conv_take_nth_drop)

lemma obj_set_obj: "x < length (cm_objs m) \<Longrightarrow> obj (set_obj x f m) y = (if y = x then f (obj m x) else obj m y)"
  by (simp add: obj_def set_obj_def nth_list_update)

lemma attached_set_obj:
  "x < length (cm_objs m) \<Longrightarrow>
     attached_to (set_obj x f m) c + of_bool (o_conn (obj m x) = Some c) = attached_to m c + of_bool (o_conn (f (obj m x)) = Some c)"
  using tally_upd [of x "cm_objs m" "\<lambda>u. of_bool (o_conn u = Some c)" "f (obj m x)"] unfolding attached_to_def set_obj_def obj_def by simp

lemma attached_ge: "x < length (cm_objs m) \<Longrightarrow> o_conn (obj m x) = Some c \<Longrightarrow> 0 < attached_to m c"
  using tally_others(1) [of x "cm_objs m" "\<lambda>u. of_bool (o_conn u = Some c) :: nat"] by (simp add: attached_to_def obj_def)

lemma returner_holds: "returner x p \<le> holds x p"
  by (cases "(x, p)" rule: returner.cases) auto

text \<open>
  A step that leaves all objects but those of \<open>X\<close> alone: no right to close and no entry is lost with its goroutine, and what
  is left to show concerns the objects of \<open>X\<close>.
\<close>

definition same_objs :: "nat set \<Rightarrow> serverConnMgr \<Rightarrow> serverConnMgr \<Rightarrow> bool" where
  "same_objs X m m' \<longleftrightarrow> partitions m' = partitions m \<and> cm_pool m' = cm_pool m \<and> cm_sockets m' = cm_sockets m \<and> length (cm_objs m') = length (cm_objs m) \<and>
     (\<forall>x < length (cm_objs m). x \<notin> X \<longrightarrow>
        o_state (obj m' x) = o_state (obj m x) \<and> o_conn (obj m' x) = o_conn (obj m x) \<and> o_locked (obj m' x) = o_locked (obj m x))"

lemma attached_cong:
  assumes "length (cm_objs m') = length (cm_objs m)" and "\<And>x. x < length (cm_objs m) \<Longrightarrow> o_conn (obj m' x) = o_conn (obj m x)"
  shows "attached_to m' = attached_to m"
proof -
  have "map o_conn (cm_objs m') = map o_conn (cm_objs m)"
    using assms by (intro nth_equalityI) (simp_all add: obj_def)
  then have "map (\<lambda>u. of_bool (u = Some c) :: nat) (map o_conn (cm_objs m')) = map (\<lambda>u. of_bool (u = Some c)) (map o_conn (cm_objs m))" for c by simp
  then show ?thesis by (simp add: attached_to_def tally_def fun_eq_iff comp_def)
qed

lemma entry_in_range: "objs_inv (m, ths) \<Longrightarrow> (c, x) \<in># entries m \<Longrightarrow> x < length (cm_objs m)"
proof -
  assume a: "objs_inv (m, ths)" and e: "(c, x) \<in># entries m"
  have "x \<in># image_mset snd (entries m)" using e by force
  then have "0 < kept_at m x" by (simp add: kept_at_def)
  moreover have "kept_at m x + tally (holds x) ths \<le> of_bool (x < length (cm_objs m))" using a by (simp add: objs_inv_def)
  ultimately show ?thesis by (cases "x < length (cm_objs m)") auto
qed

lemma of_bool_pos: "n \<le> of_bool P \<Longrightarrow> 0 < n \<Longrightarrow> P \<and> n = (1 :: nat)"
  by (cases P) auto

lemma returned_in_range:
  assumes "objs_inv (m, ths)" and "0 < count (mset (cm_pool m)) x + tally (returner x) ths"
  shows "x < length (cm_objs m) \<and> count (mset (cm_pool m)) x + tally (returner x) ths = 1"
proof -
  have "count (mset (cm_pool m)) x + tally (returner x) ths \<le> of_bool (x < length (cm_objs m))"
  proof -
    have "kept_at m x + tally (holds x) ths \<le> of_bool (x < length (cm_objs m))" using assms(1) by (simp add: objs_inv_def)
    then show ?thesis using tally_mono [of "returner x" "holds x" ths, OF returner_holds] by (simp add: kept_at_def)
  qed
  then show ?thesis using assms(2) by (rule of_bool_pos)
qed

lemma object_step:
  assumes inv: "life_inv (m, p # R)" and o: "objs_inv (m, p # R)" and same: "same_objs X m m'"
    and w: "\<And>x. x \<notin> X \<Longrightarrow> winner x p' + tally (winner x) sp \<le> winner x p"
           "\<And>x. x \<notin> X \<Longrightarrow> winner x p' + tally (winner x) sp = winner x p \<or> o_conn (obj m x) = None"
           "\<And>x. x \<in> X \<Longrightarrow> winner x p' + tally (winner x) sp + tally (winner x) R \<le> of_bool (x < length (cm_objs m) \<and> o_state (obj m' x) = ConnClosed)"
    and g: "\<And>x. x \<notin> X \<Longrightarrow> waiter x p \<le> waiter x p' + tally (waiter x) sp \<or> o_conn (obj m x) = None \<or> o_state (obj m x) \<noteq> ConnHanged"
    and r: "\<And>c. remover c p \<le> remover c p' + tally (remover c) sp \<or> c \<notin># image_mset fst (entries m)"
    and u: "\<And>c. attached_to m' c + remover c p' + tally (remover c) sp + unattached c p' + tally (unattached c) sp
              \<le> attached_to m c + remover c p + unattached c p"
    and b: "\<And>x. returner x p' + tally (returner x) sp \<le> returner x p"
           "\<And>x. x \<in> X \<Longrightarrow> count (mset (cm_pool m)) x + returner x p + tally (returner x) R = 0"
    and q: "\<And>q. q \<in> set (p' # sp) \<Longrightarrow> opened_ok m' (p' # sp @ R) q"
           "\<And>q x. q \<in> set R \<Longrightarrow> x \<in> X \<Longrightarrow> 0 < holds x q \<Longrightarrow> opened_ok m (p # R) q \<Longrightarrow> opened_ok m' (p' # sp @ R) q"
    and e: "\<And>c x. x \<in> X \<Longrightarrow> (c, x) \<in># entries m \<Longrightarrow> alive_at m (p # R) c x \<or> leaving m (p # R) c x \<Longrightarrow>
              alive_at m' (p' # sp @ R) c x \<or> leaving m' (p' # sp @ R) c x"
  shows "life_inv (m', p' # sp @ R)"
proof -
  let ?R = "p' # sp @ R"
  have same_e: "entries m' = entries m" using same entries_cong [of m' m] by (simp add: same_objs_def)
  have ob: "o_state (obj m' x) = o_state (obj m x)" "o_conn (obj m' x) = o_conn (obj m x)" "o_locked (obj m' x) = o_locked (obj m x)"
    if "x < length (cm_objs m)" "x \<notin> X" for x using same that by (auto simp: same_objs_def)
  have alive: "alive_at m' ?R c x" if "alive_at m (p # R) c x" "x < length (cm_objs m)" "x \<notin> X" for c x
    using that(1) ob [OF that(2,3)] w(2) [OF that(3)] g [OF that(3)] by (auto simp: alive_at_def)
  have leave: "leaving m' ?R c x" if "leaving m (p # R) c x" "x < length (cm_objs m)" "x \<notin> X" "(c, x) \<in># entries m" for c x
  proof -
    have "c \<in># image_mset fst (entries m)" using that(4) by force
    then show ?thesis using that(1) ob [OF that(2,3)] w(1) [OF that(3)] r [of c] by (auto simp: leaving_def)
  qed
  have "sockets_once m' ?R" unfolding sockets_once_def
  proof
    fix c
    have "attached_to m c + tally (remover c) (p # R) + tally (unattached c) (p # R) \<le> of_bool (c \<in> set (cm_sockets m))"
      using inv by (simp add: life_inv_def sockets_once_def)
    then show "attached_to m' c + tally (remover c) ?R + tally (unattached c) ?R \<le> of_bool (c \<in> set (cm_sockets m'))"
      using u [of c] same by (simp add: same_objs_def)
  qed
  moreover have "one_winner m' ?R" unfolding one_winner_def
  proof
    fix x
    have old: "tally (winner x) (p # R) \<le> of_bool (x < length (cm_objs m) \<and> o_state (obj m x) = ConnClosed)"
      using inv by (simp add: life_inv_def one_winner_def)
    have len: "length (cm_objs m') = length (cm_objs m)" using same by (simp add: same_objs_def)
    show "tally (winner x) ?R \<le> of_bool (x < length (cm_objs m') \<and> o_state (obj m' x) = ConnClosed)"
    proof (cases "x \<in> X")
      case True
      then show ?thesis using w(3) [OF True] by (simp add: len add.assoc)
    next
      case False
      have "tally (winner x) ?R \<le> tally (winner x) (p # R)" using w(1) [OF False] by simp
      also note old
      also have "of_bool (x < length (cm_objs m) \<and> o_state (obj m x) = ConnClosed) = (of_bool (x < length (cm_objs m') \<and> o_state (obj m' x) = ConnClosed) :: nat)"
        using ob(1) [OF _ False] by (auto simp: len)
      finally show ?thesis .
    qed
  qed
  moreover have "returned_closed m' ?R" unfolding returned_closed_def
  proof (intro allI impI)
    fix x assume "0 < count (mset (cm_pool m')) x + tally (returner x) ?R"
    then have pos: "0 < count (mset (cm_pool m)) x + tally (returner x) (p # R)" using b(1) [of x] same by (auto simp: same_objs_def)
    then have x: "x \<notin> X" using b(2) [of x] by auto
    have "o_state (obj m x) = ConnClosed \<and> o_conn (obj m x) = None \<and> tally (winner x) (p # R) = 0"
      using inv pos by (auto simp: life_inv_def returned_closed_def)
    then show "o_state (obj m' x) = ConnClosed \<and> o_conn (obj m' x) = None \<and> tally (winner x) ?R = 0"
      using ob [OF _ x] returned_in_range [OF o pos] w(1) [OF x] by simp
  qed
  moreover have "opened_ok m' ?R t" if "t \<in> set ?R" for t
  proof (cases "t \<in> set (p' # sp)")
    case False
    then have t: "t \<in> set R" using that by auto
    have k: "opened_ok m (p # R) t" "\<forall>x \<in> set (refs t). x < length (cm_objs m)" using t inv o by (auto simp: life_inv_def objs_inv_def)
    show ?thesis
    proof (cases "\<exists>x \<in> X. 0 < holds x t")
      case False
      then show ?thesis using k ob alive by (cases t) auto
    qed (use q(2) [OF t] k(1) in blast)
  qed (rule q(1))
  moreover have "entries_live m' ?R" unfolding entries_live_def same_e
  proof (intro allI impI)
    fix c x assume en: "(c, x) \<in># entries m"
    then have old: "alive_at m (p # R) c x \<or> leaving m (p # R) c x" using inv by (simp add: life_inv_def entries_live_def)
    show "alive_at m' ?R c x \<or> leaving m' ?R c x"
      using e [OF _ en old] old alive leave entry_in_range [OF o en] en by blast
  qed
  ultimately show ?thesis by (simp add: life_inv_def)
qed

lemmas quiet_step = object_step [where X = "{}", simplified]

text \<open>Changing the state of an object: the goroutine that did it waits for the writer or has won the right to close.\<close>

lemma state_step:
  assumes inv: "life_inv (m, p # R)" and o: "objs_inv (m, p # R)" and x: "x < length (cm_objs m)"
    and old: "o_state (obj m x) \<noteq> ConnClosed" and m': "m' = set_state x st m"
    and p: "p = Closing x pc k" "p' = Closing x pc' k" "st = ConnHanged \<and> pc' = GRLock \<and> pc = GCas \<or> st = ConnClosed \<and> pc' = DoLock r \<and> pc \<in> {GDone, FCas1 r, FCas2 r}"
  shows "life_inv (m', p' # R)"
proof -
  have ob: "obj m' y = (if y = x then (obj m x)\<lparr>o_state := st\<rparr> else obj m y)" for y
    using obj_set_obj [OF x] by (simp add: m' set_state_def)
  have win: "tally (winner x) R = 0" using inv old by (auto simp: life_inv_def one_winner_def of_bool_def split: if_splits)
  have ret: "count (mset (cm_pool m)) x + returner x p + tally (returner x) R = 0"
    using inv old by (auto simp: life_inv_def returned_closed_def)
  have att: "attached_to m' c = attached_to m c" for c
    using attached_set_obj [OF x, of "\<lambda>u. u\<lparr>o_state := st\<rparr>" c] by (simp add: m' set_state_def)
  have alive: "alive_at m' (p' # R) c x" if "o_conn (obj m x) = Some c" for c
    using that p by (auto simp: alive_at_def ob)
  have "life_inv (m', p' # [] @ R)"
  proof (rule object_step [OF inv o, where X = "{x}"])
    show "same_objs {x} m m'" by (simp add: same_objs_def ob) (simp add: m' set_state_def)
    show "opened_ok m' (p' # [] @ R) q" if "q \<in> set R" "y \<in> {x}" "0 < holds y q" "opened_ok m (p # R) q" for q y
      using that p alive by (cases "(y, q)" rule: holds.cases) (auto simp: ob alive_at_def split: if_splits)
    show "alive_at m' (p' # [] @ R) c y \<or> leaving m' (p' # [] @ R) c y"
      if "y \<in> {x}" "(c, y) \<in># entries m" "alive_at m (p # R) c y \<or> leaving m (p # R) c y" for c y
      using that alive old by (auto simp: alive_at_def leaving_def)
  qed (use p x win ret in \<open>auto simp: att ob\<close>)
  then show ?thesis by simp
qed

lemma held_once: "objs_inv (m, p # R) \<Longrightarrow> kept_at m x + holds x p + tally (holds x) R \<le> 1"
proof -
  assume "objs_inv (m, p # R)"
  then have "kept_at m x + tally (holds x) (p # R) \<le> of_bool (x < length (cm_objs m))" by (simp add: objs_inv_def)
  also have "\<dots> \<le> 1" by simp
  finally show ?thesis by (simp add: add.assoc)
qed

lemma winner_le: "life_inv (m, ths) \<Longrightarrow> tally (winner x) ths \<le> of_bool (x < length (cm_objs m) \<and> o_state (obj m x) = ConnClosed)"
  by (simp add: life_inv_def one_winner_def)

lemma no_winner: "life_inv (m, ths) \<Longrightarrow> o_state (obj m x) \<noteq> ConnClosed \<Longrightarrow> tally (winner x) ths = 0"
  using winner_le [of m ths x] by simp

text \<open>The only holder of an object.\<close>

lemma sole_holder:
  assumes "objs_inv (m, p # R)" and "0 < holds x p"
  shows "q \<in> set R \<Longrightarrow> holds x q = 0" "(c, x) \<notin># entries m" "x \<notin> set (cm_pool m)" "tally (returner x) R = 0"
proof -
  have h: "kept_at m x = 0" "tally (holds x) R = 0" using held_once [OF assms(1), of x] assms(2) by auto
  show "holds x q = 0" if "q \<in> set R"
  proof -
    from \<open>q \<in> set R\<close> obtain i where "i < length R" "q = R ! i" by (auto simp: in_set_conv_nth)
    then show ?thesis using tally_others(1) [of i R "holds x"] h(2) by simp
  qed
  have "(c, x) \<in># entries m \<Longrightarrow> x \<in># image_mset snd (entries m)" by force
  then show "(c, x) \<notin># entries m" "x \<notin> set (cm_pool m)" using h(1) by (auto simp: kept_at_def count_eq_zero_iff)
  show "tally (returner x) R = 0" using tally_mono [of "returner x" "holds x" R, OF returner_holds] h(2) by simp
qed

lemma open_step:
  assumes inv: "life_inv (m, AOpen c x # R)" and o: "objs_inv (m, AOpen c x # R)" and x: "x < length (cm_objs m)"
    and m': "m' = set_obj x (\<lambda>u. u\<lparr>o_conn := Some c, o_workers := o_workers u + 2\<rparr>) m"
  shows "life_inv (m', ACheck c x # [Worker x, Worker x] @ R)"
proof -
  have ob: "obj m' y = (if y = x then (obj m x)\<lparr>o_conn := Some c, o_workers := o_workers (obj m x) + 2\<rparr> else obj m y)" for y
    using obj_set_obj [OF x] by (simp add: m')
  have n: "o_conn (obj m x) = None" using inv by (simp add: life_inv_def)
  have att: "attached_to m' d = attached_to m d + of_bool (c = d)" for d
    using attached_set_obj [OF x, of "\<lambda>u. u\<lparr>o_conn := Some c, o_workers := o_workers u + 2\<rparr>" d] n by (simp add: m')
  note s = sole_holder [OF o, of x, simplified]
  have win: "tally (winner x) R \<le> of_bool (x < length (cm_objs m) \<and> o_state (obj m x) = ConnClosed)"
    using inv by (simp add: life_inv_def one_winner_def)
  show ?thesis
  proof (rule object_step [OF inv o, where X = "{x}"])
    show "same_objs {x} m m'" by (simp add: same_objs_def ob) (simp add: m')
  qed (use s win x in \<open>auto simp: att ob\<close>)
qed

text \<open>Taking and giving back the lock of an object.\<close>

lemma check_step:
  assumes inv: "life_inv (m, ACheck c x # R)" and o: "objs_inv (m, ACheck c x # R)" and x: "x < length (cm_objs m)"
    and op: "o_state (obj m x) = ConnOpened" and m': "m' = set_obj x (\<lambda>u. u\<lparr>o_locked := True\<rparr>) m"
  shows "life_inv (m', AStore c x # R)"
proof -
  have ob: "obj m' y = (if y = x then (obj m x)\<lparr>o_locked := True\<rparr> else obj m y)" for y
    using obj_set_obj [OF x] by (simp add: m')
  have att: "attached_to m' d = attached_to m d" for d
    using attached_set_obj [OF x, of "\<lambda>u. u\<lparr>o_locked := True\<rparr>" d] by (simp add: m')
  note s = sole_holder [OF o, of x, simplified]
  have win: "tally (winner x) R = 0"
    using no_winner [OF inv, of x] op by simp
  have cn: "o_conn (obj m x) = Some c" using inv op by (simp add: life_inv_def)
  have "life_inv (m', AStore c x # [] @ R)"
  proof (rule object_step [OF inv o, where X = "{x}"])
    show "same_objs {x} m m'" by (simp add: same_objs_def ob) (simp add: m')
  qed (use s win op cn in \<open>auto simp: att ob alive_at_def\<close>)
  then show ?thesis by simp
qed

lemma unlock_step:
  assumes inv: "life_inv (m, AStore c x # R)" and o: "objs_inv (m, AStore c x # R)" and x: "x < length (cm_objs m)"
    and m': "m' = set_obj x (\<lambda>u. u\<lparr>o_locked := False\<rparr>) m"
  shows "life_inv (m', AUndo x True # R)"
proof -
  have ob: "obj m' y = (if y = x then (obj m x)\<lparr>o_locked := False\<rparr> else obj m y)" for y
    using obj_set_obj [OF x] by (simp add: m')
  have att: "attached_to m' d = attached_to m d" for d
    using attached_set_obj [OF x, of "\<lambda>u. u\<lparr>o_locked := False\<rparr>" d] by (simp add: m')
  note s = sole_holder [OF o, of x, simplified]
  have win: "tally (winner x) R \<le> of_bool (x < length (cm_objs m) \<and> o_state (obj m x) = ConnClosed)"
    using inv by (simp add: life_inv_def one_winner_def)
  have "life_inv (m', AUndo x True # [] @ R)"
  proof (rule object_step [OF inv o, where X = "{x}"])
    show "same_objs {x} m m'" by (simp add: same_objs_def ob) (simp add: m')
  qed (use s win in \<open>auto simp: att ob\<close>)
  then show ?thesis by simp
qed

lemma store_step:
  assumes inv: "life_inv (m, AStore c x # R)" and o: "objs_inv (m, AStore c x # R)" and x: "x < length (cm_objs m)"
    and e: "entries m1 = add_mset (c, x) (entries m)" and m1: "m1 = m\<lparr>partitions := ps\<rparr>"
    and m': "m' = set_obj x (\<lambda>u. u\<lparr>o_locked := False\<rparr>) m1"
  shows "life_inv (m', MEnd # R)"
proof -
  let ?m = "set_obj x (\<lambda>u. u\<lparr>o_locked := False\<rparr>) m"
  have u: "life_inv (?m, AUndo x True # R)" by (rule unlock_step [OF inv o x]) simp
  have ob: "obj m' = obj ?m" "attached_to m' = attached_to ?m" "cm_pool m' = cm_pool ?m" "cm_sockets m' = cm_sockets ?m" "length (cm_objs m') = length (cm_objs ?m)"
    by (simp_all add: m' m1 obj_def set_obj_def attached_to_def fun_eq_iff)
  have al: "alive_at ?m (MEnd # R) c x"
    using inv obj_set_obj [OF x, of "\<lambda>u. u\<lparr>o_locked := False\<rparr>" x] by (simp add: life_inv_def alive_at_def)
  have cong: "alive_at m' (MEnd # R) = alive_at ?m (AUndo x True # R)" "leaving m' (MEnd # R) = leaving ?m (AUndo x True # R)"
    "opened_ok m' (MEnd # R) = opened_ok ?m (AUndo x True # R)"
  proof -
    show 1: "alive_at m' (MEnd # R) = alive_at ?m (AUndo x True # R)" "leaving m' (MEnd # R) = leaving ?m (AUndo x True # R)"
      by (simp_all add: alive_at_def leaving_def ob fun_eq_iff)
    show "opened_ok m' (MEnd # R) = opened_ok ?m (AUndo x True # R)"
    proof
      fix q show "opened_ok m' (MEnd # R) q = opened_ok ?m (AUndo x True # R) q"
        using 1(1) by (cases q) (simp_all add: ob)
    qed
  qed
  have e': "entries m' = add_mset (c, x) (entries ?m)"
    using e entries_cong [of m' m1] entries_cong [of ?m m] by (simp add: m')
  have "alive_at m' (MEnd # R) c x" using al by (simp add: cong alive_at_def)
  then show ?thesis
    using u by (auto simp: life_inv_def sockets_once_def one_winner_def returned_closed_def entries_live_def ob cong e')
qed

lemma lock_step:
  assumes inv: "life_inv (m, Closing x (DoLock r) k # R)" and o: "objs_inv (m, Closing x (DoLock r) k # R)" and x: "x < length (cm_objs m)"
    and un: "\<not> o_locked (obj m x)" and cn: "o_conn (obj m x) = Some c" and m': "m' = set_obj x (\<lambda>u. u\<lparr>o_conn := None\<rparr>) m"
  shows "life_inv (m', Closing x (DoClose r c) k # R)"
proof -
  let ?p = "Closing x (DoLock r) k" and ?p' = "Closing x (DoClose r c) k"
  have ob: "obj m' y = (if y = x then (obj m x)\<lparr>o_conn := None\<rparr> else obj m y)" for y
    using obj_set_obj [OF x] by (simp add: m')
  have att: "attached_to m' d + of_bool (c = d) = attached_to m d" for d
    using attached_set_obj [OF x, of "\<lambda>u. u\<lparr>o_conn := None\<rparr>" d] cn by (simp add: m')
  have w: "tally (winner x) R = 0 \<and> o_state (obj m x) = ConnClosed"
  proof -
    have "0 < tally (winner x) (?p # R)" by simp
    from of_bool_pos [OF winner_le [OF inv] this] show ?thesis by simp
  qed
  have ret: "count (mset (cm_pool m)) x + returner x ?p + tally (returner x) R = 0"
    using inv cn by (auto simp: life_inv_def returned_closed_def)
  have r: "r" if "(d, x) \<in># entries m" for d
  proof (rule ccontr)
    assume "\<not> r"
    then have "kept_at m x = 0" using o by (auto simp: objs_inv_def)
    moreover have "x \<in># image_mset snd (entries m)" using that by force
    ultimately show False by (simp add: kept_at_def count_eq_zero_iff)
  qed
  have "life_inv (m', ?p' # [] @ R)"
  proof (rule object_step [OF inv o, where X = "{x}"])
    show "same_objs {x} m m'" by (simp add: same_objs_def ob) (simp add: m')
    show "opened_ok m' (?p' # [] @ R) q" if "q \<in> set R" "y \<in> {x}" "0 < holds y q" "opened_ok m (?p # R) q" for q y
      using that w un by (cases "(y, q)" rule: holds.cases) (auto simp: ob)
    show "alive_at m' (?p' # [] @ R) d y \<or> leaving m' (?p' # [] @ R) d y"
      if "y \<in> {x}" "(d, y) \<in># entries m" "alive_at m (?p # R) d y \<or> leaving m (?p # R) d y" for d y
      using that w cn r [of d] by (auto simp: alive_at_def leaving_def ob)
    show "attached_to m' d + remover d ?p' + tally (remover d) [] + unattached d ?p' + tally (unattached d) []
        \<le> attached_to m d + remover d ?p + unattached d ?p" for d
      using att [of d] by auto
  qed (use x w ret in \<open>auto simp: ob\<close>)
  then show ?thesis by simp
qed

text \<open>An object nobody holds begins a new life.\<close>

lemma init_step:
  assumes inv: "life_inv (m, AInit c # R)" and o: "objs_inv (m, AInit c # R)" and st: "alloc_step ch (AInit c) m = Some (m', p', sp)"
  shows "life_inv (m', p' # sp @ R)"
proof -
  obtain m1 x where gt: "pool_get ch (m\<lparr>cm_id := cm_id m + 1\<rparr>) = Some (m1, x)" and r: "m' = set_state x ConnOpened m1" "p' = AOpen c x" "sp = []"
    using st by (auto split: option.splits)
  have rest: "partitions m' = partitions m" "cm_sockets m' = cm_sockets m"
    using pool_get_rest [OF gt] by (auto simp: r set_state_def)
  have e: "entries m' = entries m" using entries_cong [OF rest(1)] by simp
  have X: "x < length (cm_objs m') \<and> o_conn (obj m' x) = None \<and> o_state (obj m' x) = ConnOpened \<and> length (cm_objs m) \<le> length (cm_objs m') \<and>
        (\<forall>y < length (cm_objs m). y \<noteq> x \<longrightarrow> obj m' y = obj m y) \<and> attached_to m' = attached_to m \<and>
        (\<forall>y. y \<noteq> x \<longrightarrow> count (mset (cm_pool m')) y = count (mset (cm_pool m)) y) \<and> kept_at m' x + tally (holds x) R = 0 \<and> tally (winner x) R = 0"
  proof (cases ch)
    case (Reuse y)
    then have y: "x = y" "y \<in> set (cm_pool m)" "m1 = m\<lparr>cm_id := cm_id m + 1, cm_pool := remove1 y (cm_pool m)\<rparr>"
      using gt by (auto split: if_splits)
    have pos: "0 < count (mset (cm_pool m)) x + tally (returner x) (AInit c # R)" using y by simp
    note lt = returned_in_range [OF o pos]
    have cl: "o_conn (obj m x) = None" "tally (winner x) R = 0" using inv y by (auto simp: life_inv_def returned_closed_def)
    have x1: "x < length (cm_objs m1)" using lt y by simp
    have ob: "obj m' z = (if z = x then (obj m x)\<lparr>o_state := ConnOpened\<rparr> else obj m z)" for z
      using obj_set_obj [OF x1] y by (simp add: r set_state_def) (simp add: obj_def)
    have "attached_to m' d = attached_to m d" for d
      using attached_set_obj [OF x1, of "\<lambda>u. u\<lparr>o_state := ConnOpened\<rparr>" d] y by (simp add: r set_state_def) (simp add: attached_to_def)
    moreover have "kept_at m' x + 1 = kept_at m x" using e y by (simp add: kept_at_def r set_state_def)
    ultimately show ?thesis
      using held_once [OF o, of x] lt cl ob y by (auto simp: r set_state_def fun_eq_iff)
  next
    case Fresh
    then have m1: "x = length (cm_objs m)" "m1 = m\<lparr>cm_id := cm_id m + 1,
        cm_objs := cm_objs m @ [\<lparr>o_state = ConnClosed, o_conn = None, o_locked = False, o_workers = 0\<rparr>]\<rparr>"
      using gt by auto
    have "kept_at m x + tally (holds x) (AInit c # R) \<le> of_bool (x < length (cm_objs m))" using o by (simp add: objs_inv_def)
    then have "kept_at m' x + tally (holds x) R = 0" using e m1 by (simp add: kept_at_def r set_state_def)
    moreover have "tally (winner x) R = 0" using winner_le [OF inv, of x] m1 by simp
    moreover have "attached_to m' d = attached_to m d" for d
      by (simp add: attached_to_def r m1 set_state_def set_obj_def)
    ultimately show ?thesis
      by (auto simp: r m1 set_state_def set_obj_def obj_def nth_append fun_eq_iff)
  qed (use gt in simp)
  have x: "x < length (cm_objs m')" "o_conn (obj m' x) = None" "o_state (obj m' x) = ConnOpened" "length (cm_objs m) \<le> length (cm_objs m')"
    "\<And>y. y < length (cm_objs m) \<Longrightarrow> y \<noteq> x \<Longrightarrow> obj m' y = obj m y" "attached_to m' = attached_to m"
    "\<And>y. y \<noteq> x \<Longrightarrow> count (mset (cm_pool m')) y = count (mset (cm_pool m)) y" "kept_at m' x + tally (holds x) R = 0" "tally (winner x) R = 0"
    using X by (elim conjE, simp)+
  have h: "holds x q = 0" "returner x q = 0" if "q \<in> set R" for q
  proof -
    from that obtain i where "i < length R" "q = R ! i" by (auto simp: in_set_conv_nth)
    then show "holds x q = 0" using tally_others(1) [of i R "holds x"] x(8) by simp
    then show "returner x q = 0" using returner_holds [of x q] by simp
  qed
  have ret: "tally (returner x) R = 0" using h(2) by (rule tally_zero)
  have ne: "(d, x) \<notin># entries m" "x \<notin> set (cm_pool m')" for d
  proof -
    have "(d, x) \<in># entries m \<Longrightarrow> x \<in># image_mset snd (entries m)" by force
    then show "(d, x) \<notin># entries m" "x \<notin> set (cm_pool m')" using x(8) by (auto simp: kept_at_def e count_eq_zero_iff)
  qed
  have al: "alive_at m' (p' # R) d y = alive_at m (AInit c # R) d y" "leaving m' (p' # R) d y = leaving m (AInit c # R) d y"
    if "y < length (cm_objs m)" "y \<noteq> x" for d y
    using x(5) [OF that] by (simp_all add: alive_at_def leaving_def r)
  have "sockets_once m' (p' # R)" using inv x(6) rest by (simp add: life_inv_def sockets_once_def r)
  moreover have "one_winner m' (p' # R)" unfolding one_winner_def
  proof
    fix y show "tally (winner y) (p' # R) \<le> of_bool (y < length (cm_objs m') \<and> o_state (obj m' y) = ConnClosed)"
      using winner_le [OF inv, of y] x(4,9) x(5) [of y] by (cases "y = x"; cases "y < length (cm_objs m)") (auto simp: r)
  qed
  moreover have "returned_closed m' (p' # R)" unfolding returned_closed_def
  proof (intro allI impI)
    fix y assume a: "0 < count (mset (cm_pool m')) y + tally (returner y) (p' # R)"
    then have y: "y \<noteq> x" using ne(2) ret by (auto simp: r)
    then have pos: "0 < count (mset (cm_pool m)) y + tally (returner y) (AInit c # R)" using a by (simp only: x(7) [OF y]) (simp add: r(2))
    then have "o_state (obj m y) = ConnClosed \<and> o_conn (obj m y) = None \<and> tally (winner y) R = 0"
      using inv by (auto simp: life_inv_def returned_closed_def)
    then show "o_state (obj m' y) = ConnClosed \<and> o_conn (obj m' y) = None \<and> tally (winner y) (p' # R) = 0"
      using x(5) [OF _ y] returned_in_range [OF o pos] by (simp add: r)
  qed
  moreover have "opened_ok m' (p' # R) q" if "q \<in> set R" for q
  proof -
    have "opened_ok m (AInit c # R) q" "\<forall>y \<in> set (refs q). y < length (cm_objs m)" using inv o that by (auto simp: life_inv_def objs_inv_def)
    then show ?thesis using h(1) [OF that] x(5) al by (cases q) auto
  qed
  moreover have "entries_live m' (p' # R)" unfolding entries_live_def e
  proof (intro allI impI)
    fix d y assume en: "(d, y) \<in># entries m"
    then have "y \<noteq> x" using ne(1) by auto
    then show "alive_at m' (p' # R) d y \<or> leaving m' (p' # R) d y"
      using al [of y d] entry_in_range [OF o en] inv en by (simp add: life_inv_def entries_live_def)
  qed
  ultimately show ?thesis using x(2) by (simp add: life_inv_def r)
qed

lemma sockets_le: "life_inv (m, ths) \<Longrightarrow> attached_to m c + tally (remover c) ths + tally (unattached c) ths \<le> of_bool (c \<in> set (cm_sockets m))"
  by (simp add: life_inv_def sockets_once_def)

lemma remove_step:
  assumes inv: "life_inv (m, Closing x (RDelete c) k # R)" and o: "objs_inv (m, Closing x (RDelete c) k # R)"
    and once: "stored_at m c \<le> 1" and e: "entries m = add_mset (c, z) (entries m')" and m': "m' = m\<lparr>partitions := ps\<rparr>"
  shows "life_inv (m', Closing x (RDec z) k # R)"
proof -
  let ?p = "Closing x (RDelete c) k" and ?p' = "Closing x (RDec z) k"
  have ob: "obj m' = obj m" "attached_to m' = attached_to m" by (simp_all add: m' obj_def attached_to_def fun_eq_iff)
  have sk: "cm_sockets m' = cm_sockets m" by (simp add: m')
  have z: "z < length (cm_objs m)" by (rule entry_in_range [OF o, of c]) (simp add: e)
  have "alive_at m (?p # R) c z \<or> leaving m (?p # R) c z" using inv e by (simp add: life_inv_def entries_live_def)
  moreover have "\<not> alive_at m (?p # R) c z"
  proof
    assume "alive_at m (?p # R) c z"
    then have "0 < attached_to m c" using attached_ge [OF z] by (simp add: alive_at_def)
    moreover have "attached_to m c + tally (remover c) (?p # R) + tally (unattached c) (?p # R) \<le> of_bool (c \<in> set (cm_sockets m))"
      by (rule sockets_le [OF inv])
    moreover have "of_bool (c \<in> set (cm_sockets m)) \<le> (1 :: nat)" by simp
    ultimately show False by simp
  qed
  ultimately have lv: "leaving m (?p # R) c z" by blast
  have key: "d \<noteq> c" if "(d, y) \<in># entries m'" for d y
  proof
    assume "d = c"
    then have "0 < count (image_mset fst (entries m')) c" using that by force
    moreover have "stored_at m c = Suc (count (image_mset fst (entries m')) c)" by (simp add: stored_at_def e)
    ultimately show False using once by linarith
  qed
  have live: "alive_at m' (?p' # R) d y \<or> leaving m' (?p' # R) d y" if "(d, y) \<in># entries m'" for d y
  proof -
    have "alive_at m (?p # R) d y \<or> leaving m (?p # R) d y" using inv that by (simp add: life_inv_def entries_live_def e)
    then show ?thesis using key [OF that] by (auto simp: alive_at_def leaving_def ob)
  qed
  have opn: "opened_ok m' (?p' # R) q" if "q \<in> set R" for q
  proof -
    have "opened_ok m (?p # R) q" using inv that by (simp add: life_inv_def)
    then show ?thesis by (cases q) (simp_all add: ob alive_at_def)
  qed
  have so: "sockets_once m' (?p' # R)" unfolding sockets_once_def
  proof
    fix d
    have "attached_to m d + tally (remover d) (?p # R) + tally (unattached d) (?p # R) \<le> of_bool (d \<in> set (cm_sockets m))"
      by (rule sockets_le [OF inv])
    then show "attached_to m' d + tally (remover d) (?p' # R) + tally (unattached d) (?p' # R) \<le> of_bool (d \<in> set (cm_sockets m'))"
      using sk by (simp add: ob)
  qed
  have ow: "one_winner m' (?p' # R)" using inv by (simp add: life_inv_def one_winner_def ob split del: split_of_bool) (simp add: m')
  have rc: "returned_closed m' (?p' # R)"
    using inv lv by (auto simp: life_inv_def returned_closed_def leaving_def ob) (auto simp: m')
  show ?thesis using so ow rc opn live by (simp add: life_inv_def entries_live_def)
qed

lemma recycle_step:
  assumes inv: "life_inv (m, Recycling x # R)" and m': "m' = m\<lparr>cm_pool := x # cm_pool m\<rparr>"
  shows "life_inv (m', MEnd # R)"
proof -
  have ob: "obj m' = obj m" "attached_to m' = attached_to m" "entries m' = entries m"
    using entries_cong [of m' m] by (simp_all add: m' obj_def attached_to_def fun_eq_iff)
  have opn: "opened_ok m' (MEnd # R) q = opened_ok m (Recycling x # R) q" for q
    by (cases q) (simp_all add: ob alive_at_def)
  have "sockets_once m' (MEnd # R)" "one_winner m' (MEnd # R)" "entries_live m' (MEnd # R)"
    using inv by (simp_all add: life_inv_def sockets_once_def one_winner_def entries_live_def alive_at_def leaving_def ob split del: split_of_bool)
      (simp_all add: m' split del: split_of_bool)
  moreover have "returned_closed m' (MEnd # R)"
    using inv by (auto simp: life_inv_def returned_closed_def ob) (auto simp: m')
  moreover have "\<forall>q \<in> set (MEnd # R). opened_ok m' (MEnd # R) q"
    using inv by (simp add: life_inv_def opn)
  ultimately show ?thesis by (simp add: life_inv_def)
qed

lemma same_set_obj:
  assumes "\<And>u. o_state (f u) = o_state u" "\<And>u. o_conn (f u) = o_conn u" "\<And>u. o_locked (f u) = o_locked u"
  shows "same_objs {} m (set_obj x f m)"
  using assms by (cases "x < length (cm_objs m)") (auto simp: same_objs_def obj_set_obj, auto simp: set_obj_def obj_def)

text \<open>Steps that leave states, sockets and locks alone.\<close>

lemma quiet_same:
  assumes inv: "life_inv (m, p # R)" and o: "objs_inv (m, p # R)" and same: "same_objs {} m m'"
    and "\<And>x. winner x p' + tally (winner x) sp \<le> winner x p" "\<And>x. winner x p' + tally (winner x) sp = winner x p \<or> o_conn (obj m x) = None"
    and "\<And>x. waiter x p \<le> waiter x p' + tally (waiter x) sp \<or> o_conn (obj m x) = None \<or> o_state (obj m x) \<noteq> ConnHanged"
    and "\<And>c. remover c p \<le> remover c p' + tally (remover c) sp \<or> c \<notin># image_mset fst (entries m)"
    and "\<And>c. remover c p' + tally (remover c) sp + unattached c p' + tally (unattached c) sp \<le> remover c p + unattached c p"
    and "\<And>x. returner x p' + tally (returner x) sp \<le> returner x p"
    and "\<And>q. q \<in> set (p' # sp) \<Longrightarrow> opened_ok m' (p' # sp @ R) q"
  shows "life_inv (m', p' # sp @ R)"
proof -
  have "attached_to m' = attached_to m" using same by (intro attached_cong) (auto simp: same_objs_def)
  then show ?thesis using assms by (intro quiet_step [OF inv o same]) (auto simp: add.assoc)
qed

lemmas quiet_one = quiet_same [where sp = "[]", simplified]

lemma same_refl:
  assumes "partitions m' = partitions m" "cm_pool m' = cm_pool m" "cm_sockets m' = cm_sockets m" "cm_objs m' = cm_objs m"
  shows "same_objs {} m m'"
  using assms by (simp add: same_objs_def obj_def)

lemma alloc_life:
  assumes inv: "life_inv (m, p # R)" and o: "objs_inv (m, p # R)" and wf: "parts_wf m" and once: "\<And>c. stored_at m c + alloc c p \<le> 1"
    and st: "alloc_step ch p m = Some (m', p', sp)"
  shows "life_inv (m', p' # sp @ R)"
proof -
  have rf: "x < length (cm_objs m)" if "x \<in> set (refs p)" for x using o that by (auto simp: objs_inv_def)
  show ?thesis
  proof (cases p)
    case (AInit c)
    then show ?thesis using init_step inv o st by blast
  next
    case (AOpen c x)
    then show ?thesis using open_step [of m c x R m'] inv o st rf by auto
  next
    case (ACheck c x)
    then consider "o_state (obj m x) = ConnOpened" "m' = set_obj x (\<lambda>u. u\<lparr>o_locked := True\<rparr>) m" "p' = AStore c x" "sp = []"
      | "m' = m" "p' = AUndo x False" "sp = []" using st by (auto split: if_splits)
    then show ?thesis
    proof cases
      case 1
      then show ?thesis using check_step [of m c x R m'] inv o rf ACheck by simp
    next
      case 2
      show ?thesis
        using 2 ACheck by (auto intro!: quiet_one [OF inv o same_refl])
    qed
  next
    case (AStore c x)
    show ?thesis
    proof (cases "cm_closing m")
      case True
      then show ?thesis using unlock_step [of m c x R m'] inv o rf AStore st by (simp add: storeOpen_def)
    next
      case False
      then obtain m1 where so: "storeOpen c x m = (m1, True)" and r: "m' = set_obj x (\<lambda>u. u\<lparr>o_locked := False\<rparr>) m1" "p' = MEnd" "sp = []"
        using st AStore by (auto simp: storeOpen_def Let_def)
      have "c \<notin># image_mset fst (entries m)" using once [of c] AStore by (simp add: stored_at_def count_eq_zero_iff)
      note e = storeOpen_effect [OF wf so this]
      obtain ps where "m1 = m\<lparr>partitions := ps\<rparr>" using so by (auto simp: storeOpen_def Let_def split: if_splits)
      then show ?thesis using store_step [of m c x R m1 ps m'] inv o rf AStore e r by simp
    qed
  next
    case (AUndo x b)
    then show ?thesis
      using st by (auto intro!: quiet_one [OF inv o same_refl])
  qed (use st in \<open>auto intro!: quiet_one [OF inv o same_refl] split: if_splits\<close>)
qed

lemma close_life:
  assumes inv: "life_inv (m, Closing x pc k # R)" and o: "objs_inv (m, Closing x pc k # R)" and wf: "parts_wf m" and once: "\<And>c. stored_at m c \<le> 1"
    and st: "mclose_step x pc m = Some (m', pc', sp)"
  shows "life_inv (m', Closing x pc' k # sp @ R)"
proof -
  let ?p = "Closing x pc k"
  have x: "x < length (cm_objs m)" using o by (simp add: objs_inv_def)
  have quiet: "life_inv (m, Closing x pc'' k # R)"
    if "\<And>y. winner y (Closing x pc'' k) = 0" "\<And>c. remover c (Closing x pc'' k) = remover c ?p \<or> remover c (Closing x pc'' k) = 0 \<and> c \<notin># image_mset fst (entries m)"
      "\<And>y. returner y (Closing x pc'' k) = 0" "\<And>y. waiter y ?p \<le> waiter y (Closing x pc'' k) \<or> o_conn (obj m y) = None \<or> o_state (obj m y) \<noteq> ConnHanged"
      "\<And>y. winner y ?p = 0 \<or> o_conn (obj m y) = None" for pc''
  proof -
    have "remover c ?p \<le> remover c (Closing x pc'' k) \<or> c \<notin># image_mset fst (entries m)"
      "remover c (Closing x pc'' k) + unattached c (Closing x pc'' k) \<le> remover c ?p + unattached c ?p" for c using that(2) [of c] by auto
    then have "life_inv (m, Closing x pc'' k # [] @ R)"
      using that by (intro quiet_same [OF inv o same_refl]) auto
    then show ?thesis by simp
  qed
  have hang: "life_inv (set_state x ConnHanged m, Closing x GRLock k # R)" if "pc = GCas" "o_state (obj m x) = ConnOpened"
    by (rule state_step [OF inv o x, where st = ConnHanged]) (use that in auto)
  have won: "life_inv (set_state x ConnClosed m, Closing x (DoLock r) k # R)"
    if "o_state (obj m x) \<noteq> ConnClosed" "pc = GDone \<and> r \<or> pc = FCas1 r \<or> pc = FCas2 r" for r
    by (rule state_step [OF inv o x, where st = ConnClosed and r = r]) (use that in auto)
  show ?thesis
  proof (cases pc)
    case GCas
    have "life_inv (m, Closing x CReturn k # R)" by (rule quiet) (use GCas in auto)
    then show ?thesis using st hang GCas by (auto split: if_splits)
  next
    case GDone
    have "life_inv (m, Closing x CReturn k # R)" if "o_state (obj m x) \<noteq> ConnHanged" by (rule quiet) (use GDone that in auto)
    then show ?thesis using st won [of True] GDone by (auto split: if_splits)
  next
    case GRLock
    have "life_inv (m, Closing x CReturn k # R)" if "o_conn (obj m x) = None" by (rule quiet) (use GRLock that in auto)
    moreover have "life_inv (m, Closing x GDone k # R)" by (rule quiet) (use GRLock in auto)
    ultimately show ?thesis using st GRLock by (auto split: if_splits)
  next
    case (FCas1 r)
    have "life_inv (m, Closing x (FCas2 r) k # R)" by (rule quiet) (use FCas1 in auto)
    then show ?thesis using st won [of r] FCas1 by (auto split: if_splits)
  next
    case (FCas2 r)
    have "life_inv (m, Closing x CReturn k # R)" by (rule quiet) (use FCas2 in auto)
    then show ?thesis using st won [of r] FCas2 by (auto split: if_splits)
  next
    case (DoLock r)
    have "life_inv (m, Closing x CReturn k # R)" if "o_conn (obj m x) = None"
    proof (rule quiet_one [OF inv o same_refl])
      show "winner y (Closing x CReturn k) = winner y ?p \<or> o_conn (obj m y) = None" for y using that DoLock by auto
    qed (use DoLock in auto)
    then show ?thesis using st lock_step [of m x r k R] inv o x DoLock by (auto split: if_splits option.splits)
  next
    case (DoClose r c)
    have "life_inv (m, Closing x pc' k # R)" if "pc' = (if r then RDelete c else CReturn)" by (rule quiet) (use DoClose that in auto)
    then show ?thesis using st DoClose by auto
  next
    case (RDelete c)
    obtain m1 y where d: "p_delete c m = (m1, y)" by fastforce
    show ?thesis
    proof (cases y)
      case None
      then have n: "m1 = m" "c \<notin># image_mset fst (entries m)" using delete_none [OF wf, of c m1] d by simp_all
      have "life_inv (m, Closing x CReturn k # R)" by (rule quiet) (use RDelete n in auto)
      then show ?thesis using st d None RDelete n by auto
    next
      case (Some z)
      have e: "entries m = add_mset (c, z) (entries m1)" "\<exists>ps. m1 = m\<lparr>partitions := ps\<rparr>" "m' = m1" "pc' = RDec z" "sp = []"
        using pdelete_effect [OF wf, of c m1 z] d Some st RDelete by auto
      then show ?thesis using remove_step [of m x c k R z m1] inv o RDelete once [of c] by auto
    qed
  next
    case (RDec y)
    then show ?thesis
      using st by (auto intro!: quiet_same [OF inv o same_refl])
  next
    case CReturn
    then show ?thesis using st by simp
  qed
qed

lemma server_life:
  assumes inv: "life_inv (m, p # R)" and o: "objs_inv (m, p # R)" and st: "server_step ch p m = Some (m', p', sp)"
  shows "life_inv (m', p' # sp @ R)"
proof -
  have s: "tally (winner x) (map SSnap xs) = 0" "tally (waiter x) (map SSnap xs) = 0" "tally (remover x) (map SSnap xs) = 0"
    "tally (unattached x) (map SSnap xs) = 0" "tally (returner x) (map SSnap xs) = 0" for xs x
    by (induction xs) auto
  show ?thesis
  proof (cases p)
    case (Recycling x)
    then show ?thesis using recycle_step [of m x R m'] inv st by (auto split: if_splits)
  next
    case (Closing x pc k)
    then show ?thesis
      using st by (cases pc; cases k) (auto intro!: quiet_one [OF inv o same_refl] quiet_one [OF inv o same_set_obj])
  next
    case (Worker x)
    then show ?thesis
      using st by (auto intro!: quiet_one [OF inv o same_refl] quiet_one [OF inv o same_set_obj] split: if_splits)
  qed (use st s in \<open>auto intro!: quiet_one [OF inv o same_refl] quiet_same [OF inv o same_refl] split: if_splits list.splits\<close>)
qed

end
