(* ===== verification/Ws_Stop.thy ===== *)
theory Ws_Stop
  imports Ws_Life
begin

text \<open>What follows for the connection manager: its count, its pool, its shutdown, and what a stale pointer can do.\<close>

lemma mstep_kinds:
  assumes "mstep ch p m = Some (m', p', sp)"
  obtains (Alloc) "alloc_step ch p m = Some (m', p', sp)"
    | (Close) x pc pc' k where "p = Closing x pc k" "mclose_step x pc m = Some (m', pc', sp)" "p' = Closing x pc' k"
    | (Server) "server_step ch p m = Some (m', p', sp)"
  using assms by (auto simp: mstep_def split: mpc.splits option.splits if_splits)

lemma mstep_life:
  assumes "count_inv (m, p # R)" and "objs_inv (m, p # R)" and "life_inv (m, p # R)" and "mstep ch p m = Some (m', p', sp)"
  shows "life_inv (m', p' # sp @ R)"
proof -
  have wf: "parts_wf m" using assms(1) by (simp add: count_inv_def)
  have once: "stored_at m c + alloc c p \<le> 1" for c
  proof -
    have "stored_at m c + tally (alloc c) (p # R) \<le> of_bool (c \<in> set (cm_sockets m))" using assms(1) by (simp only: count_inv_def prod.case)
    also have "\<dots> \<le> 1" by simp
    finally show ?thesis by simp
  qed
  then have once': "stored_at m c \<le> 1" for c using add_leD1 by blast
  show ?thesis
    using assms(4)
  proof (cases rule: mstep_kinds)
    case Alloc
    then show ?thesis by (rule alloc_life [OF assms(3,2) wf once])
  next
    case (Close x pc pc' k)
    then show ?thesis using close_life [OF _ _ wf once'] assms(2,3) by simp
  next
    case Server
    then show ?thesis by (rule server_life [OF assms(3,2)])
  qed
qed

section \<open>Shutdown\<close>

text \<open>Goroutines of the shutdown that will still close an object entered in a partition.\<close>

fun pending :: "nat \<Rightarrow> nat \<Rightarrow> mpc \<Rightarrow> nat" where
  "pending i x (SSnap j) = of_bool (i = j)"
| "pending i x (SRun xs) = count_list xs x"
| "pending i x (Closing y pc (KServer xs)) = count_list xs x + of_bool (pc = GCas \<and> y = x)"
| "pending i x p = 0"

lemma pending_closing:
  "pending i x (Closing y pc k) = (case k of KServer xs \<Rightarrow> count_list xs x + of_bool (pc = GCas \<and> y = x) | _ \<Rightarrow> 0)"
  by (cases k) simp_all

definition stop_inv :: "mworld \<Rightarrow> bool" where
  "stop_inv w \<longleftrightarrow> (case w of (m, ths) \<Rightarrow>
     cm_closing m \<longrightarrow> (\<forall>c x. (c, x) \<in># entries m \<and> o_state (obj m x) = ConnOpened \<longrightarrow> 0 < tally (pending (c mod 10) x) ths))"

definition stop_kept :: "serverConnMgr \<Rightarrow> mpc \<Rightarrow> serverConnMgr \<Rightarrow> mpc \<Rightarrow> mpc list \<Rightarrow> bool" where
  "stop_kept m p m' p' sp \<longleftrightarrow>
     (cm_closing m' \<longrightarrow> (\<forall>c x. (c, x) \<in># entries m' \<and> o_state (obj m' x) = ConnOpened \<longrightarrow>
        (if cm_closing m
         then (c, x) \<in># entries m \<and> o_state (obj m x) = ConnOpened \<and>
              pending (c mod 10) x p \<le> pending (c mod 10) x p' + tally (pending (c mod 10) x) sp
         else 0 < pending (c mod 10) x p' + tally (pending (c mod 10) x) sp)))"

lemma stop_inv_step: "stop_inv (m, p # R) \<Longrightarrow> stop_kept m p m' p' sp \<Longrightarrow> stop_inv (m', p' # sp @ R)"
  by (fastforce simp: stop_inv_def stop_kept_def split: if_splits)

lemma stop_same:
  assumes "partitions m' = partitions m" "cm_closing m' = cm_closing m"
    and "\<And>c x. cm_closing m \<Longrightarrow> (c, x) \<in># entries m \<Longrightarrow> o_state (obj m' x) = ConnOpened \<Longrightarrow>
           o_state (obj m x) = ConnOpened \<and> pending (c mod 10) x p \<le> pending (c mod 10) x p' + tally (pending (c mod 10) x) sp"
  shows "stop_kept m p m' p' sp"
  using assms entries_cong [OF assms(1)] by (auto simp: stop_kept_def)

lemma obj_set_obj_state:
  assumes "\<And>u. o_state (f u) = o_state u"
  shows "o_state (obj (set_obj x f m) y) = o_state (obj m y)"
  using assms by (cases "x < length (cm_objs m)") (auto simp: obj_def set_obj_def nth_list_update list_update_beyond)

lemma alloc_stop:
  assumes "objs_inv (m', p' # sp @ R)" and "objs_inv (m, p # R)" and st: "alloc_step ch p m = Some (m', p', sp)"
  shows "stop_kept m p m' p' sp"
proof (cases p)
  case (AInit c)
  then obtain m1 x where gt: "pool_get ch (m\<lparr>cm_id := cm_id m + 1\<rparr>) = Some (m1, x)" and r: "m' = set_state x ConnOpened m1" "p' = AOpen c x" "sp = []"
    using st by (auto split: option.splits)
  have rest: "partitions m' = partitions m" "cm_closing m' = cm_closing m" using pool_get_rest [OF gt] by (auto simp: r set_state_def)
  show ?thesis
  proof (rule stop_same [OF rest])
    fix d y assume en: "(d, y) \<in># entries m" and op: "o_state (obj m' y) = ConnOpened"
    have "(d, y) \<in># entries m'" using en entries_cong [OF rest(1)] by simp
    then have "y \<noteq> x" using sole_holder(2) [of m' p' "sp @ R" x d] assms(1) r by auto
    moreover have "y < length (cm_objs m)" by (rule entry_in_range [OF assms(2) en])
    ultimately have "o_state (obj m' y) = o_state (obj m y)"
      using gt by (cases ch) (auto simp: r set_state_def set_obj_def obj_def nth_append nth_list_update split: if_splits)
    then show "o_state (obj m y) = ConnOpened \<and> pending (d mod 10) y p \<le> pending (d mod 10) y p' + tally (pending (d mod 10) y) sp"
      using op AInit by simp
  qed
next
  case (AStore c x)
  show ?thesis
  proof (cases "cm_closing m")
    case True
    then show ?thesis using st AStore by (auto simp: storeOpen_def obj_set_obj_state intro!: stop_same)
  next
    case False
    then have "\<not> cm_closing m'" using st AStore by (auto simp: storeOpen_def Let_def)
    then show ?thesis by (simp add: stop_kept_def)
  qed
qed (use st in \<open>auto intro!: stop_same simp: obj_set_obj_state split: if_splits, auto simp: obj_def\<close>)

lemma close_stop:
  assumes "parts_wf m" and x: "x < length (cm_objs m)" and st: "mclose_step x pc m = Some (m', pc', sp)"
  shows "stop_kept m (Closing x pc k) m' (Closing x pc' k) sp"
proof (cases pc)
  case GCas
  then show ?thesis
    using st by (cases k) (auto intro!: stop_same simp: obj_set_obj [OF x] set_state_def split: if_splits)
next
  case (RDelete c)
  obtain m1 y where d: "p_delete c m = (m1, y)" by fastforce
  show ?thesis
  proof (cases y)
    case None
    then show ?thesis using st d RDelete delete_none [OF assms(1), of c m1] by (cases k) (auto intro!: stop_same)
  next
    case (Some z)
    have e: "entries m = add_mset (c, z) (entries m1)" "\<exists>ps. m1 = m\<lparr>partitions := ps\<rparr>" "m' = m1" "pc' = RDec z" "sp = []"
      using pdelete_effect [OF assms(1), of c m1 z] d Some st RDelete by auto
    then have "cm_closing m1 = cm_closing m" "obj m1 = obj m" by (auto simp: obj_def fun_eq_iff)
    then show ?thesis using e RDelete by (cases k) (auto simp: stop_kept_def)
  qed
next
  case (RDec y)
  then show ?thesis using st by (cases k) (auto intro!: stop_same simp: obj_def)
qed (use st in \<open>auto intro!: stop_same simp: obj_set_obj [OF x] set_state_def pending_closing split: if_splits option.splits\<close>)

lemma server_stop:
  assumes wf: "parts_wf m" and "within n p" and st: "server_step ch p m = Some (m', p', sp)"
  shows "stop_kept m p m' p' sp"
proof (cases p)
  case SClosing
  then have r: "m' = m\<lparr>cm_closing := True\<rparr>" "p' = MEnd" "sp = map SSnap [0..<10]" using st wf by (auto simp: parts_wf_def)
  have "0 < tally (pending (c mod 10) x) sp" for c x
  proof -
    have "c mod 10 < length sp" by (simp add: r)
    from tally_others(1) [OF this, of "pending (c mod 10) x"] show ?thesis by (simp add: r)
  qed
  then show ?thesis
    using SClosing entries_cong [of m' m] by (auto simp: stop_kept_def r obj_def)
next
  case (SSnap i)
  then have r: "m' = m" "p' = SRun (snapshot i m)" "sp = []" using st by auto
  have "0 < count_list (snapshot i m) x" if "(c, x) \<in># entries m" "c mod 10 = i" for c x
  proof -
    have "(c, x) \<in> set (partitions m ! i)"
      using entry_get [OF wf, of c x] that by (auto simp: gm_get_def dest: map_of_SomeD)
    then have "x \<in> set (snapshot i m)" by (force simp: snapshot_def gm_values_def)
    then show ?thesis using count_list_0_iff by fastforce
  qed
  then show ?thesis using SSnap r by (auto intro!: stop_same simp: Suc_le_eq)
next
  case (Closing x pc k)
  then show ?thesis using st by (cases pc; cases k) (auto intro!: stop_same simp: obj_set_obj_state)
next
  case (SRun xs)
  then show ?thesis using st by (auto intro!: stop_same split: list.splits)
qed (use st in \<open>auto intro!: stop_same simp: obj_set_obj_state split: if_splits, auto simp: obj_def\<close>)

definition mgr_inv :: "mworld \<Rightarrow> bool" where
  "mgr_inv w \<longleftrightarrow> count_inv w \<and> objs_inv w \<and> life_inv w \<and> stop_inv w"

text \<open>Starting a goroutine that holds nothing yet.\<close>

lemma life_spawn:
  assumes "life_inv (m, ths)" and "\<And>x. winner x q = 0 \<and> waiter x q = 0 \<and> returner x q = 0" "\<And>c. remover c q = 0 \<and> unattached c q = 0"
    "\<And>m ths. opened_ok m ths q"
  shows "life_inv (m, ths @ [q])"
proof -
  have "opened_ok m (ths @ [q]) t = opened_ok m ths t" for t using assms(2) by (cases t) (simp_all add: alive_at_def)
  then show ?thesis
    using assms by (simp add: life_inv_def sockets_once_def one_winner_def returned_closed_def entries_live_def alive_at_def leaving_def split del: split_of_bool)
qed

lemma life_accept:
  assumes inv: "life_inv (m, ths)" and c: "c \<notin> set (cm_sockets m)"
  shows "life_inv (m\<lparr>cm_sockets := c # cm_sockets m\<rparr>, ths @ [AClosing c])"
proof -
  let ?m = "m\<lparr>cm_sockets := c # cm_sockets m\<rparr>" and ?ths = "ths @ [AClosing c]"
  have ob: "obj ?m = obj m" "attached_to ?m = attached_to m" "entries ?m = entries m"
    using entries_cong [of ?m m] by (simp_all add: obj_def attached_to_def fun_eq_iff)
  have al: "alive_at ?m ?ths = alive_at m ths" "leaving ?m ?ths = leaving m ths" by (simp_all add: alive_at_def leaving_def ob fun_eq_iff)
  have "opened_ok ?m ?ths t = opened_ok m ths t" for t by (cases t) (simp_all add: ob al)
  moreover have "sockets_once ?m ?ths" unfolding sockets_once_def
  proof
    fix d show "attached_to ?m d + tally (remover d) ?ths + tally (unattached d) ?ths \<le> of_bool (d \<in> set (cm_sockets ?m))"
      using sockets_le [OF inv, of d] c by (cases "d = c") (auto simp: ob of_bool_def split: if_splits)
  qed
  ultimately show ?thesis
    using inv by (simp add: life_inv_def one_winner_def returned_closed_def entries_live_def ob al split del: split_of_bool)
qed

lemma stop_perm: "mset xs = mset ys \<Longrightarrow> stop_inv (m, xs) = stop_inv (m, ys)"
  by (simp add: stop_inv_def tally_mset [of xs ys])

lemma mgr_inv_go:
  assumes inv: "mgr_inv (m, ths)" and i: "i < length ths" and st: "mstep ch (ths ! i) m = Some (m', p', sp)"
  shows "mgr_inv (m', ths[i := p'] @ sp)"
proof -
  let ?p = "ths ! i" and ?R = "others i ths"
  have act: "mact (Run i ch) (m, ths) = Some (m', ths[i := p'] @ sp)" using i st by (simp add: mact_def)
  have c: "count_inv (m', ths[i := p'] @ sp)" and o: "objs_inv (m', ths[i := p'] @ sp)"
    using count_inv_act [OF _ act] objs_inv_act [OF _ _ act] inv by (simp_all add: mgr_inv_def)
  note before = mset_others [OF i] and after = mset_stepped [OF i, of p' sp]
  have b: "count_inv (m, ?p # ?R)" "objs_inv (m, ?p # ?R)" "life_inv (m, ?p # ?R)" "stop_inv (m, ?p # ?R)"
    using inv inv_perm [OF before, of m] stop_perm [OF before, of m] by (simp_all add: mgr_inv_def)
  have o': "objs_inv (m', p' # sp @ ?R)" using o inv_perm(2) [OF after] by simp
  have x: "parts_wf m" "within (cm_max m) ?p" "\<And>x pc k. ?p = Closing x pc k \<Longrightarrow> x < length (cm_objs m)"
    using b(1,2) by (auto simp: count_inv_def objs_inv_def)
  have "stop_kept m ?p m' p' sp"
    using st
  proof (cases rule: mstep_kinds)
    case Alloc
    then show ?thesis by (rule alloc_stop [OF o' b(2)])
  next
    case (Close x pc pc' k)
    then show ?thesis using close_stop [of m x pc m' pc' sp k] x by auto
  next
    case Server
    then show ?thesis by (rule server_stop [OF x(1,2)])
  qed
  then have "stop_inv (m', p' # sp @ ?R)" by (rule stop_inv_step [OF b(4)])
  then show ?thesis
    using c o mstep_life [OF b(1-3) st] inv_perm(3) [OF after] stop_perm [OF after] by (simp add: mgr_inv_def)
qed

lemma mgr_inv_act:
  assumes inv: "mgr_inv (m, ths)" and act: "mact a (m, ths) = Some (m', ths')"
  shows "mgr_inv (m', ths')"
proof -
  have co: "count_inv (m', ths')" "objs_inv (m', ths')"
    using count_inv_act [OF _ act] objs_inv_act [OF _ _ act] inv by (simp_all add: mgr_inv_def)
  have l: "life_inv (m, ths)" "stop_inv (m, ths)" using inv by (simp_all add: mgr_inv_def)
  show ?thesis
    using act
  proof (cases rule: mact_cases)
    case (Go i ch p' sp)
    then show ?thesis using mgr_inv_go [OF inv] by blast
  next
    case (New c)
    then have "life_inv (m', ths')" using life_accept [OF l(1)] by simp
    moreover have "stop_inv (m', ths')" using l(2) New entries_cong [of m' m] by (simp add: stop_inv_def obj_def)
    ultimately show ?thesis using co by (simp add: mgr_inv_def)
  next
    case (Ask x pc)
    then have "life_inv (m', ths')" using life_spawn [OF l(1), of "Closing x pc KReturn"] by auto
    moreover have "stop_inv (m', ths')" using l(2) Ask by (auto simp: stop_inv_def)
    ultimately show ?thesis using co by (simp add: mgr_inv_def)
  next
    case (Other q)
    then have "life_inv (m', ths')" using life_spawn [OF l(1), of q] by auto
    moreover have "stop_inv (m', ths')" using l(2) Other by (auto simp: stop_inv_def)
    ultimately show ?thesis using co by (simp add: mgr_inv_def)
  qed
qed

lemma mgr_inv_reachable: "mreachable n w \<Longrightarrow> 0 \<le> n \<Longrightarrow> mgr_inv w"
proof (induction rule: mreachable.induct)
  case m_init
  have "count_inv (newConnMgr n, [])" using count_inv_reachable [OF mreachable.m_init] m_init by simp
  moreover have "objs_inv (newConnMgr n, [])" "stop_inv (newConnMgr n, [])" "life_inv (newConnMgr n, [])"
    using newConnMgr_entries(2) [of n]
    by (simp_all add: objs_inv_def kept_at_def stop_inv_def life_inv_def sockets_once_def one_winner_def returned_closed_def entries_live_def)
      (simp_all add: newConnMgr_def attached_to_def)
  ultimately show ?case by (simp add: mgr_inv_def)
next
  case (m_step w a w')
  then show ?case using mgr_inv_act [of "fst w" "snd w" a "fst w'" "snd w'"] by simp
qed

text \<open>
  C26: The count of the manager is exact: in every interleaving of allocations, closes through any pointer, workers and shutdowns it is the
  number of entries plus the places that allocations and removals in progress still hold, never more than the limit; each object of
  the pool is there once, closed, without a socket and without an entry.
\<close>

theorem ws_connections_counted:
  assumes "mreachable n (m, ths)" and "0 \<le> n"
  shows "cm_total m = int (size (entries m)) + int (tally reserved ths) \<and> cm_total m \<le> n \<and> distinct (cm_pool m) \<and>
    (\<forall>x \<in> set (cm_pool m). o_state (obj m x) = ConnClosed \<and> o_conn (obj m x) = None \<and> (\<forall>c. (c, x) \<notin># entries m))"
proof -
  have inv: "count_inv (m, ths)" "objs_inv (m, ths)" "life_inv (m, ths)" "cm_max m = n"
    using mgr_inv_reachable [OF assms] count_inv_reachable [OF assms] by (simp_all add: mgr_inv_def)
  have h: "kept_at m x \<le> 1" for x
  proof -
    have "kept_at m x + tally (holds x) ths \<le> of_bool (x < length (cm_objs m))" using inv(2) by (simp add: objs_inv_def)
    also have "\<dots> \<le> 1" by simp
    finally show ?thesis by simp
  qed
  have "count (mset (cm_pool m)) x = of_bool (x \<in> set (cm_pool m))" for x
  proof -
    have "count (mset (cm_pool m)) x \<le> 1" using h [of x] unfolding kept_at_def by linarith
    moreover have "of_bool (0 < k) = k" if "k \<le> 1" for k :: nat using that by (cases k) auto
    ultimately have "of_bool (0 < count (mset (cm_pool m)) x) = count (mset (cm_pool m)) x" by blast
    then show ?thesis by simp
  qed
  then have "distinct (cm_pool m)" by (simp add: distinct_count_atmost_1 of_bool_def)
  moreover have "(c, x) \<notin># entries m" if "x \<in> set (cm_pool m)" for c x
  proof
    assume "(c, x) \<in># entries m"
    then have "0 < count (image_mset snd (entries m)) x" by force
    moreover have "0 < count (mset (cm_pool m)) x" using that by simp
    ultimately show False using h [of x] by (simp only: kept_at_def)
  qed
  moreover have "o_state (obj m x) = ConnClosed \<and> o_conn (obj m x) = None" if "x \<in> set (cm_pool m)" for x
    using inv(3) that by (auto simp: life_inv_def returned_closed_def)
  ultimately show ?thesis using inv(1,4) by (simp add: count_inv_def)
qed

text \<open>
  C27: The shutdown of the server leaves nothing behind: once it has begun and all goroutines have come to rest, no connection is entered and
  the count is zero, whatever allocations were under way.
\<close>

theorem ws_stop_drains:
  assumes "mreachable n (m, ths)" and "0 \<le> n" and "cm_closing m" and "\<forall>p \<in> set ths. p = MEnd"
  shows "entries m = {#} \<and> cm_total m = 0"
proof -
  have inv: "count_inv (m, ths)" "life_inv (m, ths)" "stop_inv (m, ths)" using mgr_inv_reachable [OF assms(1,2)] by (simp_all add: mgr_inv_def)
  have zero: "tally f ths = 0" if "f MEnd = 0" for f :: "mpc \<Rightarrow> nat" using that assms(4) by (auto intro: tally_zero)
  have "(c, x) \<notin># entries m" for c x
  proof
    assume e: "(c, x) \<in># entries m"
    then have "alive_at m ths c x \<or> leaving m ths c x" using inv(2) by (simp add: life_inv_def entries_live_def)
    then have "o_state (obj m x) = ConnOpened"
      by (cases "o_state (obj m x)") (auto simp: alive_at_def leaving_def zero)
    then have "0 < tally (pending (c mod 10) x) ths" using inv(3) e assms(3) by (simp add: stop_inv_def)
    then show False by (simp add: zero)
  qed
  then have "entries m = {#}" by (metis multiset_nonemptyE surj_pair)
  then show ?thesis using inv(1) by (simp add: count_inv_def zero)
qed

text \<open>A connection is accepted, closed by its reader and recycled; then the server shuts down.\<close>

definition accept_run :: "nat \<Rightarrow> nat \<Rightarrow> mchoice \<Rightarrow> maction list" where
  "accept_run i c ch = Accept c # replicate 3 (Run i Quit) @ Run i ch # replicate 3 (Run i Quit)"

definition reader_run :: "maction list" where
  "reader_run = Run 1 Fresh # replicate 6 (Run 1 Quit) @ [Run 2 Quit]"

theorem ws_connections_counted_witness:
  "\<exists>m ths. run_m (accept_run 0 4 Fresh @ reader_run @ [Run 3 Quit] @ accept_run 4 14 (Reuse 0)) (newConnMgr 5, []) = Some (m, ths) \<and> cm_total m = 1 \<and> size (entries m) = 1"
proof -
  let ?as = "accept_run 0 4 Fresh @ reader_run @ [Run 3 Quit] @ accept_run 4 14 (Reuse 0)"
  have "case run_m ?as (newConnMgr 5, []) of None \<Rightarrow> False | Some (m, ths) \<Rightarrow> cm_total m = 1 \<and> tally reserved ths = 0"
    by code_simp
  then obtain m ths where r: "run_m ?as (newConnMgr 5, []) = Some (m, ths)" "cm_total m = 1" "tally reserved ths = 0"
    by (auto split: option.splits)
  from ws_connections_counted [OF run_m_reachable [OF m_init r(1)]] r show ?thesis by auto
qed

definition stop_run :: "maction list" where
  "stop_run = Shutdown # Run 3 Quit # concat (map (\<lambda>i. replicate (if i = 8 then 11 else 2) (Run i Quit)) [4..<14]) @ [Run 1 Quit, Run 2 Quit, Run 14 Quit]"

theorem ws_stop_drains_witness:
  "\<exists>m ths. run_m (accept_run 0 4 Fresh @ stop_run) (newConnMgr 5, []) = Some (m, ths) \<and> entries m = {#} \<and> cm_total m = 0"
proof -
  let ?as = "accept_run 0 4 Fresh @ stop_run"
  have "case run_m ?as (newConnMgr 5, []) of None \<Rightarrow> False | Some (m, ths) \<Rightarrow> cm_closing m \<and> list_all (\<lambda>p. p = MEnd) ths"
    by code_simp
  then obtain m ths where r: "run_m ?as (newConnMgr 5, []) = Some (m, ths)" "cm_closing m" "\<forall>p \<in> set ths. p = MEnd"
    by (auto split: option.splits simp: list_all_iff)
  from ws_stop_drains [OF run_m_reachable [OF m_init r(1)] _ r(2,3)] r(1) show ?thesis by auto
qed

text \<open>
  A send can reach another client: it sees its connection open, the connection is closed, its object recycled and given to the next
  client, and then the message is queued there.
\<close>

lemma ws_send_reaches_other:
  "\<exists>as m ths. run_m as (newConnMgr 5, []) = Some (m, ths) \<and> (Some 4, Some 14) \<in> set (cm_sent m)"
proof -
  let ?as = "accept_run 0 4 Fresh @ [SendAny 0, Run 3 Quit] @ reader_run @ [Run 4 Quit] @ accept_run 5 14 (Reuse 0) @ [Run 3 Quit]"
  have "case run_m ?as (newConnMgr 5, []) of None \<Rightarrow> False | Some (m, ths) \<Rightarrow> (Some 4, Some 14) \<in> set (cm_sent m)"
    by code_simp
  then show ?thesis by (auto split: option.splits)
qed

end
