(* ===== verification/Tcp_Mgr.thy ===== *)
theory Tcp_Mgr
  imports Ws_Mgr
begin

text \<open>
  The connection manager of the tcp server (\<open>network/tcp/server_conn_mgr.go\<close>; the one of kcp is the same but for the number of partitions): the older form of the manager of
  \<open>Ws_Mgr\<close>.  It compares with the limit without reserving a place, starts the goroutines of a connection before it enters it, and
  returns an object to the pool without waiting for them.
\<close>

datatype tpc = TLoad nat | TInit nat | TOpen nat nat | TStore nat nat | TTotal | TWorker nat | TClosing nat close_pc | TEnd

fun tcp_allocate_step :: "mchoice \<Rightarrow> tpc \<Rightarrow> serverConnMgr \<Rightarrow> (serverConnMgr \<times> tpc \<times> tpc list) option" where
  "tcp_allocate_step ch (TLoad c) m = Some (m, if cm_max m \<le> cm_total m then TEnd else TInit c, [])"
| "tcp_allocate_step ch (TInit c) m =
     (case pool_get ch (m\<lparr>cm_id := cm_id m + 1\<rparr>) of
        None \<Rightarrow> None
      | Some (m, x) \<Rightarrow> Some (set_state x ConnOpened m, TOpen c x, []))"
| "tcp_allocate_step ch (TOpen c x) m = Some (set_obj x (\<lambda>u. u\<lparr>o_conn := Some c\<rparr>) m, TStore c x, [TWorker x, TWorker x])"
| "tcp_allocate_step ch (TStore c x) m =
     (let i = c mod length (partitions m)
      in Some (m\<lparr>partitions := (partitions m)[i := gm_set (partitions m ! i) c x]\<rparr>, TTotal, []))"
| "tcp_allocate_step ch TTotal m = Some (m\<lparr>cm_total := cm_total m + 1\<rparr>, TEnd, [])"
| "tcp_allocate_step ch p m = None"

definition tcp_recycle_step :: "nat \<Rightarrow> close_pc \<Rightarrow> serverConnMgr \<Rightarrow> (serverConnMgr \<times> close_pc) option" where
  "tcp_recycle_step x pc m =
     (case pc of
        RDelete c \<Rightarrow> (case p_delete c m of (m, None) \<Rightarrow> Some (m, CReturn) | (m, Some y) \<Rightarrow> Some (m\<lparr>cm_pool := y # cm_pool m\<rparr>, RDec y))
      | RDec y \<Rightarrow> Some (m\<lparr>cm_total := cm_total m - 1\<rparr>, CReturn)
      | _ \<Rightarrow> map_option (\<lambda>(m, pc, sp). (m, pc)) (mclose_step x pc m))"

definition tcp_step :: "mchoice \<Rightarrow> tpc \<Rightarrow> serverConnMgr \<Rightarrow> (serverConnMgr \<times> tpc \<times> tpc list) option" where
  "tcp_step ch p m =
     (case p of
        TWorker x \<Rightarrow> Some (m, if ch = Quit then TEnd else TClosing x (FCas1 True), [])
      | TClosing x pc \<Rightarrow> if pc = CReturn then Some (m, TEnd, []) else map_option (\<lambda>(m, pc). (m, TClosing x pc, [])) (tcp_recycle_step x pc m)
      | _ \<Rightarrow> tcp_allocate_step ch p m)"

datatype taction = TAccept nat | TRun nat mchoice

definition tact :: "taction \<Rightarrow> serverConnMgr \<times> tpc list \<Rightarrow> (serverConnMgr \<times> tpc list) option" where
  "tact a w = (case w of (m, ths) \<Rightarrow>
     case a of
       TAccept c \<Rightarrow> if c \<in> set (cm_sockets m) then None else Some (m\<lparr>cm_sockets := c # cm_sockets m\<rparr>, ths @ [TLoad c])
     | TRun i ch \<Rightarrow>
         if i < length ths then (case tcp_step ch (ths ! i) m of None \<Rightarrow> None | Some (m, p, sp) \<Rightarrow> Some (m, ths[i := p] @ sp)) else None)"

primrec run_t :: "taction list \<Rightarrow> serverConnMgr \<times> tpc list \<Rightarrow> (serverConnMgr \<times> tpc list) option" where
  "run_t [] w = Some w"
| "run_t (a # as) w = (case tact a w of None \<Rightarrow> None | Some w \<Rightarrow> run_t as w)"

text \<open>Two sockets accepted together pass the limit: it is compared, not reserved.\<close>

lemma tcp_limit_exceeded:
  "\<exists>as m ths. run_t as (newConnMgr 1, []) = Some (m, ths) \<and> cm_total m = 2 \<and> cm_max m = 1"
proof -
  define race where "race = [TAccept 1, TAccept 2, TRun 0 Quit, TRun 1 Quit, TRun 0 Fresh, TRun 1 Fresh] @ replicate 3 (TRun 0 Quit) @ replicate 3 (TRun 1 Quit)"
  have "case run_t race (newConnMgr 1, []) of None \<Rightarrow> False | Some (m, ths) \<Rightarrow> cm_total m = 2 \<and> cm_max m = 1"
    unfolding race_def by code_simp
  then show ?thesis by (auto split: option.splits)
qed

text \<open>
  A connection that fails before it is entered stays entered for ever: when all goroutines have ended it is closed, and still in its
  partition and in the count, so that the server can run out of places.
\<close>

lemma tcp_entry_leaks:
  "\<exists>as m ths. run_t as (newConnMgr 1, []) = Some (m, ths) \<and> (\<forall>p \<in> set ths. p = TEnd) \<and> cm_total m = 1 \<and>
     partitions m ! 3 = [(3, 0)] \<and> o_state (obj m 0) = ConnClosed \<and> o_conn (obj m 0) = None"
proof -
  define race where "race = [TAccept 3, TRun 0 Quit, TRun 0 Fresh, TRun 0 Quit, TRun 1 Fresh] @ replicate 5 (TRun 1 Quit) @ [TRun 2 Quit, TRun 0 Quit, TRun 0 Quit]"
  have "case run_t race (newConnMgr 1, []) of None \<Rightarrow> False | Some (m, ths) \<Rightarrow> list_all (\<lambda>p. p = TEnd) ths \<and> cm_total m = 1 \<and>
      partitions m ! 3 = [(3, 0)] \<and> o_state (obj m 0) = ConnClosed \<and> o_conn (obj m 0) = None"
    unfolding race_def by code_simp
  then show ?thesis by (auto split: option.splits simp: list_all_iff)
qed

end
