(* ===== verification/Spec2Isabelle.thy ===== *)
theory Spec2Isabelle
  imports Packet Gate Call_State Rpc Gate_Link Actors Node_Request Redis_Race Ws_Budget Ws_Delivery Client_Conn Locator Watchers Redis_Lock Ws_Stop Tcp_Mgr
begin

text \<open>
  A verification library for \<open>due\<close>, a framework for distributed game servers in Go.

  \<^bold>\<open>The program.\<close>  Clients connect to gates; a gate keeps a table of sessions, binds users to connections
  under a token of a shared ownership store, and forwards messages to nodes.  A node routes messages
  to handlers and actors, and pushes messages back to users through the gates.  Gates and nodes talk
  over a transport of their own: frames of a small protocol on pooled, chained buffers, with
  synchronous calls multiplexed on a connection.  The link layer finds the gate or node of a user with a
  locator, caches the answers and tries once more when a user has moved; a dispatcher chooses among
  the instances the registry announces.

  \<^bold>\<open>Theories and sources.\<close>  Paths are below \<open>src/\<close>.
  \<^item> \<open>Go_Prelude\<close>: machine integers, results (value, error, panic), byte orders; \<open>Go_Map\<close>: the built-in
    maps as a locale \<open>gomap_spec\<close> with its instance.
  \<^item> \<open>Go_Reader\<close>, \<open>Go_Writer\<close>, \<open>Go_Pool\<close>, \<open>Go_Nocopy\<close>: \<open>core/buffer\<close>.  A reader is a list of bytes with an offset, a
    writer a slice with its spare capacity, a pool a stack per size class (33 classes, the powers of
    two that \<open>bytes_pool.go\<close> allocates), a nocopy buffer a tree of blocks with its reference count.
  \<^item> \<open>Packet\<close>: \<open>packet/packer.go\<close>, the frames between clients and gates.
  \<^item> \<open>Protocol_Base\<close>, \<open>Protocol_Gate\<close>, \<open>Protocol_Push\<close>, \<open>Protocol_Node\<close>: \<open>internal/transporter/internal/protocol\<close>,
    every encoder and decoder of the transport, and the codes of errors.
  \<^item> \<open>Call_State\<close>: \<open>internal/transporter/internal/client\<close>, synchronous calls as atomic actions of callers,
    writers and readers over call states and the table of pending calls.
  \<^item> \<open>Client_Conn\<close>: \<open>internal/transporter/internal/client/conn.go\<close>, dialling, handshake, sending and reconnecting as
    goroutines over the state of a connection; sockets are numbered by their dials.
  \<^item> \<open>Rpc\<close>: \<open>internal/transporter/gate\<close>, \<open>internal/transporter/node\<close> and the reading side of
    \<open>internal/transporter/internal/server\<close>: each method of a client composed with each handler of a server
    through the bytes of the frames.
  \<^item> \<open>Session_Types\<close>, \<open>Session\<close>, \<open>Ownership\<close>: \<open>session/session.go\<close>, \<open>session/ownership.go\<close>,
    \<open>session/ownership_memory.go\<close>; the store is a locale with the in-process store as its instance.
  \<^item> \<open>Decimal\<close>, \<open>Redis_Store\<close>, \<open>Redis_Race\<close>: \<open>session/redis\<close>, the scripts on decimal strings, the store as a second
    instance of the ownership contract, and its interleavings with the loss of hashes; the server and the
    allocator of generation ranges are parameters (locales \<open>redis_hash\<close>, \<open>range_allocator\<close>).
  \<^item> \<open>Gate\<close>: \<open>cluster/gate\<close>, connect and disconnect, binding with rollback, fenced push, life cycle.
  \<^item> \<open>Dispatcher\<close>: \<open>internal/dispatcher\<close>; \<open>Source_Hints\<close>: \<open>internal/link/source_hints.go\<close>.
  \<^item> \<open>Node_Link\<close>, \<open>Gate_Link\<close>: \<open>internal/link/node.go\<close> and \<open>internal/link/gate.go\<close>.
  \<^item> \<open>Locator\<close>: \<open>locate/redis/locator.go\<close>, the directory of users and its events, composed with the linker that follows
    them; \<open>Watchers\<close>: \<open>locate/redis/watcher.go\<close>, its goroutines and locks.  The server is a parameter (locale \<open>redis_kv\<close>).
  \<^item> \<open>Redis_Lock\<close>: \<open>lock/redis\<close>, lockers with leases on a server with expiring keys (locale \<open>redis_ttl\<close>).
  \<^item> \<open>Actors\<close>: \<open>cluster/node/actor.go\<close>, \<open>cluster/node/scheduler.go\<close> and the wait group of \<open>cluster/node/node.go\<close>.
  \<^item> \<open>Node_Request\<close>: \<open>cluster/node/request.go\<close>, \<open>router.go\<close> and \<open>middleware.go\<close>: pooled requests, their versions and
    the code that holds them, routes, middlewares, validation of sessions.

  \<^item> \<open>Ws_Conn\<close>, \<open>Ws_Budget\<close>, \<open>Ws_Delivery\<close>: \<open>network/ws/server_conn.go\<close> and \<open>def.go\<close>: the goroutines of a websocket
    connection as program counters over its state and channels, the byte budget it shares, the order of delivery.
    \<open>Tally\<close> holds the sums over goroutines.
  \<^item> \<open>Ws_Mgr\<close>, \<open>Ws_Life\<close>, \<open>Ws_Stop\<close>: \<open>network/ws/server_conn_mgr.go\<close>, the table of connections, their pooled objects, the limit and the
    shutdown; closes come through any pointer at any time.  \<open>Tcp_Mgr\<close>: \<open>network/tcp/server_conn_mgr.go\<close> on the same state.

  \<^bold>\<open>Conventions.\<close>  A struct is a record, a method a function from state to state and result; where the
  code shares mutable objects the state holds a heap and references.  What the code does not own (the
  locator, the registry, sockets, package \<open>net\<close>, the codec, handlers of the application) is a
  parameter.  Concurrency is interleaving of atomic actions: an atomic action is an atomic operation
  of the code or the section under one lock.  In \<open>Gate_Link\<close> the goroutines of one group run one after the
  other.

  \<^bold>\<open>What is shown.\<close>
  \<^item> Codecs: every message that is packed or encoded is read back unchanged, also from a stream of
    frames, with the exact limits at which the code fails.
  \<^item> Sessions and ownership: the maps of the table agree in every reachable state, the table refines a
    map from users to connections, generations fence stale tokens, a gate rolls a failed binding back.
    The Redis store never issues a generation twice, even when hashes are lost while calls race.
  \<^item> Calls: no interleaving loses or doubles a buffer, a canceled call ends.
  \<^item> Connections of the transport: every message is in one place over all reconnects, a dial ends.
  \<^item> Remote calls: a call through the transport is the local call of the provider.
  \<^item> Links: a request follows a user that has moved; the sources of a node are counted exactly; shared
    messages are released as often as they were delayed.
  \<^item> Locator: it refines a directory of users, and the caches of the linkers follow it.
  \<^item> Locks: two lockers never own a key at the same time, also when replies are lost; acquiring with a limit ends.
  \<^item> Actors: each ends exactly once, idle timers cannot release a touched actor, closing a node waits
    for its actors.
  \<^item> Requests: each object has one holder as long as no object is reused while a frame of its former life
    is running; stale sessions reach no stateful route.
  \<^item> Websocket connections: torn down once, the write budget exact, delivery in order, pushes flushed by a
    graceful close.  Their manager counts exactly within its limit, reuses only closed objects, and a shutdown leaves no connection.
  \<^item> Places where the code does not do what it means to are theorems too (the properties of kind
    error).

  \<^bold>\<open>Bounds.\<close>  Recursion is structural except \<open>doGenSequence\<close>, \<open>chunk_loop\<close> and \<open>clog_from\<close>, which have
  termination proofs.  The loops of \<open>doRPC\<close> run two rounds as in the code (\<open>doRPC_loop 2\<close>), which is no
  bound of the model.

  \<^bold>\<open>Not modelled.\<close>  The sockets, the tcp, kcp and client connections of \<open>network\<close>, listening of the transport servers,
  registration, hooks and configuration of the servers, third-party registries,
  other locators and locks, caches, event buses and transports, logging, encodings and utilities: I/O, wiring
  or wrappers of library code.
\<close>

end
